(* ===== verification/Xv6_Prelude.thy ===== *)
theory Xv6_Prelude
  imports Main "HOL-Library.Word"
begin

section \<open>Prelude: types, constants, outcomes of kernel code\<close>

text \<open>
  The types and constants of \<^verbatim>\<open>kernel/types.h\<close>, \<^verbatim>\<open>kernel/param.h\<close>, \<^verbatim>\<open>kernel/riscv.h\<close> and
  \<^verbatim>\<open>kernel/memlayout.h\<close>, the names the kernel's locks and wait channels have, and the outcome of
  a piece of kernel code: it returns a value and a new state (\<open>Ret\<close>), or the thread that runs it
  stops (\<open>Halt\<close>) because the code called \<^verbatim>\<open>panic\<close>, because it spins on a spinlock another CPU
  holds, because it gave the CPU up in \<^verbatim>\<open>swtch\<close>, or because it made an access that C leaves
  undefined. The combinators \<open>kbind\<close>, \<open>kseq\<close>, \<open>kdo\<close>, \<open>kiter\<close> and \<open>kscan\<close> compose such
  pieces the way statements and loops do.
\<close>

subsection \<open>Machine types and constants\<close>

type_synonym uint8 = "8 word"
type_synonym uint16 = "16 word"
type_synonym uint32 = "32 word"
type_synonym uint64 = "64 word"
type_synonym bytes = "uint8 list"

definition NPROC :: nat where "NPROC = 64"
definition NCPU :: nat where "NCPU = 8"
definition NOFILE :: nat where "NOFILE = 16"
definition NFILE :: nat where "NFILE = 100"
definition NINODE :: nat where "NINODE = 50"
definition NDEV :: nat where "NDEV = 10"
definition ROOTDEV :: nat where "ROOTDEV = 1"
definition MAXARG :: nat where "MAXARG = 32"
definition MAXOPBLOCKS :: nat where "MAXOPBLOCKS = 10"
definition LOGBLOCKS :: nat where "LOGBLOCKS = MAXOPBLOCKS * 3"
definition NBUF :: nat where "NBUF = MAXOPBLOCKS * 3"
definition FSSIZE :: nat where "FSSIZE = 2000"
definition MAXPATH :: nat where "MAXPATH = 128"
definition USERSTACK :: nat where "USERSTACK = 1"

definition PGSIZE :: nat where "PGSIZE = 4096"
definition KERNBASE :: uint64 where "KERNBASE = 0x80000000"
definition PHYSTOP :: uint64 where "PHYSTOP = KERNBASE + 128 * 1024 * 1024"

lemma unat64_less: "unat (x :: uint64) < 2 ^ 64"
  using unsigned_less [of x] by simp

lemmas param_defs = NPROC_def NCPU_def NOFILE_def NFILE_def NINODE_def NDEV_def ROOTDEV_def
  MAXARG_def MAXOPBLOCKS_def LOGBLOCKS_def NBUF_def FSSIZE_def MAXPATH_def USERSTACK_def

subsection \<open>Names of locks and wait channels\<close>

text \<open>
  A lock is named by the variable that holds it; an object that lives in a table by its index. A
  wait channel is an address in the source (\<^verbatim>\<open>void *chan\<close>), of which the code only uses the
  identity.
\<close>

datatype slid = Sl_buf nat | Sl_inode nat

datatype lockid =
    Lk_kmem
  | Lk_pid
  | Lk_wait
  | Lk_proc nat
  | Lk_ticks
  | Lk_bcache
  | Lk_itable
  | Lk_ftable
  | Lk_log
  | Lk_pipe uint64
  | Lk_cons
  | Lk_uart
  | Lk_pr
  | Lk_vdisk
  | Lk_sleep slid

datatype chan =
    Ch_proc nat
  | Ch_ticks
  | Ch_sleeplock slid
  | Ch_log
  | Ch_pipe_nread uint64
  | Ch_pipe_nwrite uint64
  | Ch_cons_r
  | Ch_tx_chan
  | Ch_disk_free
  | Ch_buf nat

subsection \<open>Outcomes\<close>

datatype stop =
    Panic string
  | Spin lockid
  | Switch
  | Fault

datatype ('s, 'a) outcome = Ret 'a 's | Halt stop 's

text \<open>The state in which the thread is done or has stopped.\<close>

primrec final :: "('s, 'a) outcome \<Rightarrow> 's" where
  "final (Ret x s) = s"
| "final (Halt e s) = s"

type_synonym ('s, 'a) km = "'s \<Rightarrow> ('s, 'a) outcome"

definition kret :: "'a \<Rightarrow> ('s, 'a) km" where
  "kret x = (\<lambda>s. Ret x s)"

definition khalt :: "stop \<Rightarrow> ('s, 'a) km" where
  "khalt e = (\<lambda>s. Halt e s)"

definition kbind :: "('s, 'a) km \<Rightarrow> ('a \<Rightarrow> ('s, 'b) km) \<Rightarrow> ('s, 'b) km" where
  "kbind m f = (\<lambda>s. case m s of Ret x t \<Rightarrow> f x t | Halt e t \<Rightarrow> Halt e t)"

definition kseq :: "('s, 'a) km \<Rightarrow> ('s, 'b) km \<Rightarrow> ('s, 'b) km" where
  "kseq m n = kbind m (\<lambda>_. n)"

definition kget :: "('s \<Rightarrow> 'a) \<Rightarrow> ('s, 'a) km" where
  "kget f = (\<lambda>s. Ret (f s) s)"

definition kmod :: "('s \<Rightarrow> 's) \<Rightarrow> ('s, unit) km" where
  "kmod f = (\<lambda>s. Ret () (f s))"

definition kskip :: "('s, unit) km" where
  "kskip = kret ()"

definition panic :: "string \<Rightarrow> ('s, 'a) km" where
  "panic msg = khalt (Panic msg)"

definition kwhen :: "bool \<Rightarrow> ('s, unit) km \<Rightarrow> ('s, unit) km" where
  "kwhen c m = (if c then m else kskip)"

text \<open>A sequence of statements.\<close>

primrec kdo :: "('s, unit) km list \<Rightarrow> ('s, unit) km" where
  "kdo [] = kskip"
| "kdo (m # ms) = kseq m (kdo ms)"

text \<open>A \<^verbatim>\<open>for\<close> loop whose body neither breaks nor returns.\<close>

primrec kiter :: "('i \<Rightarrow> ('s, unit) km) \<Rightarrow> 'i list \<Rightarrow> ('s, unit) km" where
  "kiter f [] = kskip"
| "kiter f (i # is) = kseq (f i) (kiter f is)"

text \<open>
  A \<^verbatim>\<open>for\<close> loop whose body may return: the body's \<open>Some r\<close> leaves the loop with \<open>r\<close>, its
  \<open>None\<close> goes on with the next element.
\<close>

primrec kscan :: "('i \<Rightarrow> ('s, 'r option) km) \<Rightarrow> 'i list \<Rightarrow> ('s, 'r option) km" where
  "kscan f [] = kret None"
| "kscan f (i # is) =
     kbind (f i) (\<lambda>r. case r of Some x \<Rightarrow> kret (Some x) | None \<Rightarrow> kscan f is)"

text \<open>The same call \<open>n\<close> times, its results in order.\<close>

primrec krepeat :: "nat \<Rightarrow> ('s, 'a) km \<Rightarrow> ('s, 'a list) km" where
  "krepeat 0 m = kret []"
| "krepeat (Suc n) m = kbind m (\<lambda>x. kbind (krepeat n m) (\<lambda>xs. kret (x # xs)))"

named_theorems kmon \<open>unfolding the combinators at a state\<close>

lemma kret_app [simp, kmon]: "kret x s = Ret x s"
  by (simp add: kret_def)

lemma khalt_app [simp, kmon]: "khalt e s = Halt e s"
  by (simp add: khalt_def)

lemma kbind_app [simp, kmon]:
  "kbind m f s = (case m s of Ret x t \<Rightarrow> f x t | Halt e t \<Rightarrow> Halt e t)"
  by (simp add: kbind_def)

lemma kseq_app [simp, kmon]:
  "kseq m n s = (case m s of Ret x t \<Rightarrow> n t | Halt e t \<Rightarrow> Halt e t)"
  by (simp add: kseq_def)

lemma kget_app [simp, kmon]: "kget f s = Ret (f s) s"
  by (simp add: kget_def)

lemma kmod_app [simp, kmon]: "kmod f s = Ret () (f s)"
  by (simp add: kmod_def)

lemma kskip_app [simp, kmon]: "kskip s = Ret () s"
  by (simp add: kskip_def)

lemma panic_app [simp, kmon]: "panic msg s = Halt (Panic msg) s"
  by (simp add: panic_def)

lemma kwhen_app [simp, kmon]: "kwhen c m s = (if c then m s else Ret () s)"
  by (simp add: kwhen_def)

lemma outcome_case_eta [simp]:
  "(case r of Ret x t \<Rightarrow> Ret x t | Halt e t \<Rightarrow> Halt e t) = r"
  by (cases r) auto

lemma kdo_append: "kdo (xs @ ys) s = kseq (kdo xs) (kdo ys) s"
  by (induction xs arbitrary: s) (auto split: outcome.splits)

lemma kiter_append: "kiter f (xs @ ys) s = kseq (kiter f xs) (kiter f ys) s"
  by (induction xs arbitrary: s) (auto split: outcome.splits)

text \<open>
  A scan whose body only looks (returns the state it was given) is the first index that satisfies
  the body's test.
\<close>

lemma kscan_none:
  assumes "\<And>i. i \<in> set is \<Longrightarrow> f i s = Ret None s"
  shows "kscan f is s = Ret None s"
  using assms by (induction "is") auto

lemma kscan_first:
  assumes "\<And>i. i \<in> set xs \<Longrightarrow> f i s = Ret None s"
  shows "kscan f (xs @ y # ys) s = kscan f (y # ys) s"
  using assms by (induction xs) auto

lemma kscan_find:
  assumes "\<And>i. i \<in> set is \<Longrightarrow> f i s = Ret (if P i then Some i else None) s"
  shows "kscan f is s = Ret (find P is) s"
  using assms by (induction "is") auto

lemma kiter_inv:
  assumes "P s"
    and "\<And>i t. i \<in> set is \<Longrightarrow> P t \<Longrightarrow> \<exists>u. f i t = Ret () u \<and> P u"
  shows "\<exists>u. kiter f is s = Ret () u \<and> P u"
  using assms
proof (induction "is" arbitrary: s)
  case Nil
  then show ?case by simp
next
  case (Cons i "is")
  from Cons.prems obtain u where u: "f i s = Ret () u" "P u" by fastforce
  have "\<exists>v. kiter f is u = Ret () v \<and> P v"
    using u(2) Cons.prems(2) by (intro Cons.IH) auto
  with u show ?case by auto
qed

subsection \<open>Triples\<close>

text \<open>
  \<open>hoare P m Q\<close>: from a state with \<open>P\<close>, if \<open>m\<close> returns then \<open>Q\<close> holds of its value and its
  state. \<open>hoaret P m Q\<close>: from a state with \<open>P\<close>, \<open>m\<close> returns and \<open>Q\<close> holds.
\<close>

definition hoare :: "('s \<Rightarrow> bool) \<Rightarrow> ('s, 'a) km \<Rightarrow> ('a \<Rightarrow> 's \<Rightarrow> bool) \<Rightarrow> bool" where
  "hoare P m Q \<longleftrightarrow> (\<forall>s x t. P s \<longrightarrow> m s = Ret x t \<longrightarrow> Q x t)"

definition hoaret :: "('s \<Rightarrow> bool) \<Rightarrow> ('s, 'a) km \<Rightarrow> ('a \<Rightarrow> 's \<Rightarrow> bool) \<Rightarrow> bool" where
  "hoaret P m Q \<longleftrightarrow> (\<forall>s. P s \<longrightarrow> (\<exists>x t. m s = Ret x t \<and> Q x t))"

lemma hoareI: "(\<And>s x t. P s \<Longrightarrow> m s = Ret x t \<Longrightarrow> Q x t) \<Longrightarrow> hoare P m Q"
  by (auto simp: hoare_def)

lemma hoareD: "hoare P m Q \<Longrightarrow> P s \<Longrightarrow> m s = Ret x t \<Longrightarrow> Q x t"
  by (auto simp: hoare_def)

lemma hoaretI: "(\<And>s. P s \<Longrightarrow> \<exists>x t. m s = Ret x t \<and> Q x t) \<Longrightarrow> hoaret P m Q"
  by (auto simp: hoaret_def)

lemma hoaretD: "hoaret P m Q \<Longrightarrow> P s \<Longrightarrow> \<exists>x t. m s = Ret x t \<and> Q x t"
  by (auto simp: hoaret_def)

lemma hoaret_hoare: "hoaret P m Q \<Longrightarrow> hoare P m Q"
  by (fastforce simp: hoare_def hoaret_def)

lemma hoare_kbind:
  assumes "hoare P m Q" and "\<And>x. hoare (Q x) (f x) R"
  shows "hoare P (kbind m f) R"
  using assms by (fastforce simp: hoare_def split: outcome.splits)

lemma hoare_kseq: "hoare P m (\<lambda>_. Q) \<Longrightarrow> hoare Q n R \<Longrightarrow> hoare P (kseq m n) R"
  by (fastforce simp: hoare_def split: outcome.splits)

lemma hoaret_kbind:
  assumes "hoaret P m Q" and "\<And>x. hoaret (Q x) (f x) R"
  shows "hoaret P (kbind m f) R"
  using assms by (fastforce simp: hoaret_def)

lemma hoaret_kseq: "hoaret P m (\<lambda>_. Q) \<Longrightarrow> hoaret Q n R \<Longrightarrow> hoaret P (kseq m n) R"
  by (fastforce simp: hoaret_def)

lemma hoare_weaken:
  "hoare P' m Q' \<Longrightarrow> (\<And>s. P s \<Longrightarrow> P' s) \<Longrightarrow> (\<And>x s. Q' x s \<Longrightarrow> Q x s) \<Longrightarrow> hoare P m Q"
  unfolding hoare_def by blast

lemma hoaret_weaken:
  "hoaret P' m Q' \<Longrightarrow> (\<And>s. P s \<Longrightarrow> P' s) \<Longrightarrow> (\<And>x s. Q' x s \<Longrightarrow> Q x s) \<Longrightarrow> hoaret P m Q"
  by (fastforce simp: hoaret_def)

lemma hoare_if:
  "(c \<Longrightarrow> hoare P m Q) \<Longrightarrow> (\<not> c \<Longrightarrow> hoare P n Q) \<Longrightarrow> hoare P (if c then m else n) Q"
  by simp

lemma hoare_kiter:
  assumes "\<And>i. i \<in> set is \<Longrightarrow> hoare P (f i) (\<lambda>_. P)"
  shows "hoare P (kiter f is) (\<lambda>_. P)"
  using assms
proof (induction "is")
  case Nil
  show ?case by (simp add: hoare_def)
next
  case (Cons i "is")
  then have "hoare P (f i) (\<lambda>_. P)" and "hoare P (kiter f is) (\<lambda>_. P)" by auto
  then show ?case unfolding kiter.simps by (rule hoare_kseq)
qed

end
