(* ===== verification/Spinlock.thy ===== *)
theory Spinlock
  imports Xv6_Prelude
begin

section \<open>Spinlocks and interrupt nesting\<close>

text \<open>
  \<^verbatim>\<open>kernel/spinlock.c\<close> with \<^verbatim>\<open>cpuid\<close> and \<^verbatim>\<open>mycpu\<close> of \<^verbatim>\<open>kernel/proc.c\<close>. The state
  \<open>machine\<close> holds every spinlock, the per-CPU records, the interrupt-enable bit of each hart
  (\<^verbatim>\<open>sstatus.SIE\<close>) and the hart that executes (\<^verbatim>\<open>tp\<close>). It is the base of the tower of records
  that is the kernel's state: every operation here is polymorphic in what the later theories add.

  \<open>holds H s\<close> says that the executing hart holds exactly the locks \<open>H\<close> and that all others are
  free. From such a state \<open>acquire\<close> and \<open>release\<close> are the total functions \<open>entered\<close> and
  \<open>left\<close>, and a balanced pair is \<open>touch\<close>, which changes nothing but the saved interrupt flag.
  The last part interleaves harts that take and drop locks one memory access at a time, and shows
  mutual exclusion.
\<close>

subsection \<open>State\<close>

record cpu =
  cproc :: "nat option"
  noff :: int
  intena :: bool

record spinlock =
  locked :: bool
  lkname :: string
  lkcpu :: "nat option"

record machine =
  locks :: "lockid \<Rightarrow> spinlock"
  cpus :: "nat \<Rightarrow> cpu"
  sie :: "nat \<Rightarrow> bool"
  tp :: nat

definition upd_lock :: "lockid \<Rightarrow> (spinlock \<Rightarrow> spinlock) \<Rightarrow> ('z machine_scheme, unit) km" where
  "upd_lock lk f = kmod (\<lambda>s. s\<lparr>locks := (locks s)(lk := f (locks s lk))\<rparr>)"

definition upd_cpu :: "nat \<Rightarrow> (cpu \<Rightarrow> cpu) \<Rightarrow> ('z machine_scheme, unit) km" where
  "upd_cpu c f = kmod (\<lambda>s. s\<lparr>cpus := (cpus s)(c := f (cpus s c))\<rparr>)"

definition cpuid :: "('z machine_scheme, nat) km" where
  "cpuid = kget tp"

definition mycpu :: "('z machine_scheme, nat) km" where
  "mycpu = cpuid"

definition intr_get :: "('z machine_scheme, bool) km" where
  "intr_get = kget (\<lambda>s. sie s (tp s))"

definition intr_off :: "('z machine_scheme, unit) km" where
  "intr_off = kmod (\<lambda>s. s\<lparr>sie := (sie s)(tp s := False)\<rparr>)"

definition intr_on :: "('z machine_scheme, unit) km" where
  "intr_on = kmod (\<lambda>s. s\<lparr>sie := (sie s)(tp s := True)\<rparr>)"

subsection \<open>Operations of spinlock.c\<close>

definition initlock :: "lockid \<Rightarrow> string \<Rightarrow> ('z machine_scheme, unit) km" where
  "initlock lk name = upd_lock lk (\<lambda>l. l\<lparr>lkname := name, locked := False, lkcpu := None\<rparr>)"

definition holding :: "lockid \<Rightarrow> ('z machine_scheme, bool) km" where
  "holding lk =
     kbind mycpu (\<lambda>c. kget (\<lambda>s. locked (locks s lk) \<and> lkcpu (locks s lk) = Some c))"

definition push_off :: "('z machine_scheme, unit) km" where
  "push_off =
     kbind intr_get (\<lambda>old.
     kseq intr_off (
     kbind mycpu (\<lambda>c.
     kbind (kget (\<lambda>s. noff (cpus s c))) (\<lambda>n.
     kseq (kwhen (n = 0) (upd_cpu c (\<lambda>x. x\<lparr>intena := old\<rparr>)))
          (upd_cpu c (\<lambda>x. x\<lparr>noff := noff x + 1\<rparr>))))))"

definition pop_off :: "('z machine_scheme, unit) km" where
  "pop_off =
     kbind mycpu (\<lambda>c.
     kbind intr_get (\<lambda>on.
     kseq (kwhen on (panic ''pop_off - interruptible'')) (
     kbind (kget (\<lambda>s. noff (cpus s c))) (\<lambda>n.
     kseq (kwhen (n < 1) (panic ''pop_off'')) (
     kseq (upd_cpu c (\<lambda>x. x\<lparr>noff := noff x - 1\<rparr>)) (
     kbind (kget (\<lambda>s. noff (cpus s c) = 0 \<and> intena (cpus s c))) (\<lambda>en.
     kwhen en intr_on)))))))"

text \<open>
  \<^verbatim>\<open>acquire\<close> and \<^verbatim>\<open>release\<close> in the pieces between which another hart can run: the atomic swap
  and the single stores to \<^verbatim>\<open>lk->cpu\<close> and \<^verbatim>\<open>lk->locked\<close>.
\<close>

definition acquire_check :: "lockid \<Rightarrow> ('z machine_scheme, unit) km" where
  "acquire_check lk =
     kseq push_off (kbind (holding lk) (\<lambda>h. kwhen h (panic ''acquire'')))"

definition test_and_set :: "lockid \<Rightarrow> ('z machine_scheme, unit) km" where
  "test_and_set lk =
     kbind (kget (\<lambda>s. locked (locks s lk))) (\<lambda>old.
     if old then khalt (Spin lk) else upd_lock lk (\<lambda>l. l\<lparr>locked := True\<rparr>))"

definition acquire_record :: "lockid \<Rightarrow> ('z machine_scheme, unit) km" where
  "acquire_record lk = kbind mycpu (\<lambda>c. upd_lock lk (\<lambda>l. l\<lparr>lkcpu := Some c\<rparr>))"

definition acquire :: "lockid \<Rightarrow> ('z machine_scheme, unit) km" where
  "acquire lk = kdo [acquire_check lk, test_and_set lk, acquire_record lk]"

definition release_check :: "lockid \<Rightarrow> ('z machine_scheme, unit) km" where
  "release_check lk =
     kseq (kbind (holding lk) (\<lambda>h. kwhen (\<not> h) (panic ''release'')))
          (upd_lock lk (\<lambda>l. l\<lparr>lkcpu := None\<rparr>))"

definition release_unlock :: "lockid \<Rightarrow> ('z machine_scheme, unit) km" where
  "release_unlock lk = upd_lock lk (\<lambda>l. l\<lparr>locked := False\<rparr>)"

definition release :: "lockid \<Rightarrow> ('z machine_scheme, unit) km" where
  "release lk = kdo [release_check lk, release_unlock lk, pop_off]"

text \<open>
  A critical section: every path through \<open>m\<close> returns with the lock still held, and the code
  releases it right before it returns.
\<close>

definition with_lock :: "lockid \<Rightarrow> ('z machine_scheme, 'a) km \<Rightarrow> ('z machine_scheme, 'a) km" where
  "with_lock lk m = kseq (acquire lk) (kbind m (\<lambda>x. kseq (release lk) (kret x)))"

lemmas spin_defs = upd_lock_def upd_cpu_def cpuid_def mycpu_def intr_get_def intr_off_def
  intr_on_def initlock_def holding_def push_off_def pop_off_def acquire_check_def
  test_and_set_def acquire_record_def acquire_def release_check_def release_unlock_def release_def

subsection \<open>One hart: what acquire and release do\<close>

abbreviation mynoff :: "'z machine_scheme \<Rightarrow> int" where
  "mynoff s \<equiv> noff (cpus s (tp s))"

definition lock_free :: "lockid \<Rightarrow> 'z machine_scheme \<Rightarrow> bool" where
  "lock_free lk s \<longleftrightarrow> \<not> locked (locks s lk) \<and> lkcpu (locks s lk) = None"

definition lock_mine :: "lockid \<Rightarrow> 'z machine_scheme \<Rightarrow> bool" where
  "lock_mine lk s \<longleftrightarrow> locked (locks s lk) \<and> lkcpu (locks s lk) = Some (tp s)"

definition holds :: "lockid set \<Rightarrow> 'z machine_scheme \<Rightarrow> bool" where
  "holds H s \<longleftrightarrow>
     finite H \<and> int (card H) \<le> mynoff s \<and> (0 < mynoff s \<longrightarrow> \<not> sie s (tp s)) \<and>
     (\<forall>lk\<in>H. lock_mine lk s) \<and> (\<forall>lk. lk \<notin> H \<longrightarrow> lock_free lk s)"

definition touch :: "'z machine_scheme \<Rightarrow> 'z machine_scheme" where
  "touch s =
     s\<lparr>cpus := (cpus s)(tp s :=
         (cpus s (tp s))\<lparr>intena := if mynoff s = 0 then sie s (tp s)
                                   else intena (cpus s (tp s))\<rparr>)\<rparr>"

definition entered :: "lockid \<Rightarrow> 'z machine_scheme \<Rightarrow> 'z machine_scheme" where
  "entered lk s =
     s\<lparr>locks := (locks s)(lk := (locks s lk)\<lparr>locked := True, lkcpu := Some (tp s)\<rparr>),
       cpus := (cpus s)(tp s := (cpus s (tp s))
         \<lparr>intena := (if mynoff s = 0 then sie s (tp s) else intena (cpus s (tp s))),
          noff := mynoff s + 1\<rparr>),
       sie := (sie s)(tp s := False)\<rparr>"

definition left :: "lockid \<Rightarrow> 'z machine_scheme \<Rightarrow> 'z machine_scheme" where
  "left lk s =
     s\<lparr>locks := (locks s)(lk := (locks s lk)\<lparr>lkcpu := None, locked := False\<rparr>),
       cpus := (cpus s)(tp s := (cpus s (tp s))\<lparr>noff := mynoff s - 1\<rparr>),
       sie := (sie s)(tp s := (mynoff s = 1 \<and> intena (cpus s (tp s))))\<rparr>"

definition pushed :: "'z machine_scheme \<Rightarrow> 'z machine_scheme" where
  "pushed s =
     s\<lparr>cpus := (cpus s)(tp s := (cpus s (tp s))
         \<lparr>intena := (if mynoff s = 0 then sie s (tp s) else intena (cpus s (tp s))),
          noff := mynoff s + 1\<rparr>),
       sie := (sie s)(tp s := False)\<rparr>"

lemma push_off_eq: "push_off s = Ret () (pushed s)"
  by (simp add: spin_defs pushed_def)

lemma acquire_unlocked: "\<not> locked (locks s lk) \<Longrightarrow> acquire lk s = Ret () (entered lk s)"
  by (simp add: acquire_def acquire_check_def push_off_eq pushed_def entered_def holding_def
      mycpu_def cpuid_def test_and_set_def acquire_record_def upd_lock_def)

lemma acquire_free: "lock_free lk s \<Longrightarrow> acquire lk s = Ret () (entered lk s)"
  by (simp add: acquire_unlocked lock_free_def)

lemma acquire_mine: "lock_mine lk s \<Longrightarrow> acquire lk s = Halt (Panic ''acquire'') (pushed s)"
  by (simp add: acquire_def acquire_check_def push_off_eq pushed_def lock_mine_def holding_def
      mycpu_def cpuid_def)

lemma acquire_busy:
  "locked (locks s lk) \<Longrightarrow> lkcpu (locks s lk) \<noteq> Some (tp s) \<Longrightarrow>
     acquire lk s = Halt (Spin lk) (pushed s)"
  by (simp add: acquire_def acquire_check_def push_off_eq pushed_def holding_def test_and_set_def
      mycpu_def cpuid_def)

lemma release_mine:
  assumes "lock_mine lk s" "1 \<le> mynoff s" "\<not> sie s (tp s)"
  shows "release lk s = Ret () (left lk s)"
proof -
  have [simp]: "\<not> mynoff s < 1" using assms(2) by simp
  have [simp]: "(sie s)(tp s := False) = sie s" using assms(3) by (simp add: fun_upd_idem)
  have [simp]: "(sie s)(tp s := (mynoff s = 1 \<and> intena (cpus s (tp s)))) =
      (if mynoff s = 1 \<and> intena (cpus s (tp s)) then (sie s)(tp s := True) else sie s)"
    using assms(3) by (auto simp: fun_upd_idem)
  show ?thesis
    using assms by (auto simp: spin_defs lock_mine_def left_def)
qed

lemma release_not_mine: "\<not> lock_mine lk s \<Longrightarrow> release lk s = Halt (Panic ''release'') s"
  by (auto simp: spin_defs lock_mine_def)

subsection \<open>The algebra of \<open>entered\<close>, \<open>left\<close> and \<open>touch\<close>\<close>

lemma holds_finite: "holds H s \<Longrightarrow> finite H"
  by (simp add: holds_def)

lemma holds_free: "holds H s \<Longrightarrow> lk \<notin> H \<Longrightarrow> lock_free lk s"
  by (simp add: holds_def)

lemma holds_mine: "holds H s \<Longrightarrow> lk \<in> H \<Longrightarrow> lock_mine lk s"
  by (simp add: holds_def)

lemma holds_noff: "holds H s \<Longrightarrow> lk \<in> H \<Longrightarrow> 1 \<le> mynoff s \<and> \<not> sie s (tp s)"
  unfolding holds_def
  by (metis card_0_eq empty_iff int_one_le_iff_zero_less neq0_conv of_nat_0_less_iff order_trans
      zero_less_one_class.zero_less_one less_le_trans)

lemma holds_acquire [simp]: "holds H s \<Longrightarrow> lk \<notin> H \<Longrightarrow> acquire lk s = Ret () (entered lk s)"
  by (intro acquire_free holds_free)

lemma holds_release [simp]: "holds H s \<Longrightarrow> lk \<in> H \<Longrightarrow> release lk s = Ret () (left lk s)"
  by (intro release_mine) (auto dest: holds_mine holds_noff)

lemma holds_holding [simp]: "holds H s \<Longrightarrow> holding lk s = Ret (lk \<in> H) s"
  by (cases "lk \<in> H")
     (auto simp: holding_def mycpu_def cpuid_def lock_mine_def lock_free_def
        dest: holds_mine holds_free)

lemma holds_entered [simp]: "holds H s \<Longrightarrow> lk \<notin> H \<Longrightarrow> holds (insert lk H) (entered lk s)"
  by (auto simp: holds_def entered_def lock_mine_def lock_free_def)

lemma holds_left [simp]:
  assumes "holds (insert lk H) s" "lk \<notin> H"
  shows "holds H (left lk s)"
proof -
  have n: "int (card H) + 1 \<le> mynoff s" and f: "finite H"
    using assms by (auto simp: holds_def)
  have sie0: "\<not> sie s (tp s)" using assms n by (auto simp: holds_def)
  have m: "lock_mine l s" if "l \<in> H" for l
    using assms(1) that by (auto intro: holds_mine)
  have fr: "lock_free l s" if "l \<notin> H" "l \<noteq> lk" for l
    using assms(1) that by (auto intro: holds_free)
  show ?thesis
    using assms(2) n f sie0 m fr
    by (auto simp: holds_def left_def lock_mine_def lock_free_def)
qed

lemma holds_touch [simp]: "holds H (touch s) = holds H s"
  by (simp add: holds_def touch_def lock_mine_def lock_free_def)

lemma touch_held [simp]: "holds H s \<Longrightarrow> H \<noteq> {} \<Longrightarrow> touch s = s"
proof -
  assume "holds H s" "H \<noteq> {}"
  then have "mynoff s \<noteq> 0"
    using holds_noff by (metis equals0I not_one_le_zero)
  then show "touch s = s" by (simp add: touch_def)
qed

lemma touch_touch [simp]: "touch (touch s) = touch s"
  by (simp add: touch_def)

lemma left_entered [simp]:
  assumes "holds H s" "lk \<notin> H"
  shows "left lk (entered lk s) = touch s"
proof -
  have free: "\<not> locked (locks s lk)" "lkcpu (locks s lk) = None"
    using holds_free [OF assms] by (auto simp: lock_free_def)
  have n: "0 \<le> mynoff s" "0 < mynoff s \<longrightarrow> \<not> sie s (tp s)"
    using assms(1) by (auto simp: holds_def)
  have l: "(locks s)(lk := (locks s lk)\<lparr>lkcpu := None, locked := False\<rparr>) = locks s"
    using free by (simp add: fun_upd_idem)
  have e: "(sie s)(tp s := (mynoff s = 0 \<and> sie s (tp s))) = sie s"
    using n by (auto simp: fun_upd_def fun_eq_iff)
  have e': "s\<lparr>sie := (sie s)(tp s := False)\<rparr> = s" if "mynoff s \<noteq> 0"
    using n that by (simp add: fun_upd_idem)
  show ?thesis
    using n by (auto simp: left_def entered_def touch_def l e e')
qed

lemma entered_touch [simp]: "entered lk (touch s) = entered lk s"
  by (simp add: entered_def touch_def)

lemma tp_simps [simp]:
  "tp (touch s) = tp s" "tp (entered lk s) = tp s" "tp (left lk s) = tp s"
  by (simp_all add: touch_def entered_def left_def)

lemma cproc_simps [simp]:
  "cproc (cpus (touch s) c) = cproc (cpus s c)"
  "cproc (cpus (entered lk s) c) = cproc (cpus s c)"
  "cproc (cpus (left lk s) c) = cproc (cpus s c)"
  by (simp_all add: touch_def entered_def left_def)

text \<open>
  The same facts with the set of held locks computed from the state, \<open>held s\<close>, as conditional
  rewrite rules: this is the form in which \<open>simp\<close> runs kernel code.
\<close>

definition held :: "'z machine_scheme \<Rightarrow> lockid set" where
  "held s = {lk. lock_mine lk s}"

definition lkok :: "'z machine_scheme \<Rightarrow> bool" where
  "lkok s \<longleftrightarrow> holds (held s) s"

lemma holds_held: "holds H s \<Longrightarrow> held s = H"
  by (auto simp: held_def lock_mine_def lock_free_def dest: holds_mine holds_free)

lemma holds_iff: "holds H s \<longleftrightarrow> lkok s \<and> held s = H"
  unfolding lkok_def using holds_held by metis

lemma lkok_free_lock:
  assumes "lkok s" "lk \<notin> held s" "\<not> locked l" "lkcpu l = None"
  shows "lkok (s\<lparr>locks := (locks s)(lk := l)\<rparr>)" "held (s\<lparr>locks := (locks s)(lk := l)\<rparr>) = held s"
proof -
  let ?t = "s\<lparr>locks := (locks s)(lk := l)\<rparr>"
  have "lock_free x ?t = (x = lk \<or> lock_free x s)" "lock_mine x ?t = (x \<noteq> lk \<and> lock_mine x s)" for x
    using assms(3,4) by (auto simp: lock_free_def lock_mine_def)
  then have "holds (held s) ?t" using assms(1,2) by (auto simp: lkok_def holds_def)
  then show "lkok ?t" "held ?t = held s" by (simp_all add: holds_iff)
qed

lemma initlock_eq:
  assumes "lkok s" "lk \<notin> held s"
  shows "\<exists>l. initlock lk name s = Ret () (s\<lparr>locks := (locks s)(lk := l)\<rparr>)
    \<and> lkok (s\<lparr>locks := (locks s)(lk := l)\<rparr>) \<and> held (s\<lparr>locks := (locks s)(lk := l)\<rparr>) = held s"
  using lkok_free_lock [OF assms, of "(locks s lk)\<lparr>lkname := name, locked := False, lkcpu := None\<rparr>"]
  by (auto simp: initlock_def upd_lock_def)

lemma lkok_cong:
  assumes "locks t = locks s" "cpus t = cpus s" "sie t = sie s" "tp t = tp s"
  shows "lkok t = lkok s" "held t = held s"
proof -
  show h: "held t = held s" using assms by (simp add: held_def lock_mine_def)
  show "lkok t = lkok s" using assms h by (simp add: lkok_def holds_def lock_mine_def lock_free_def)
qed

lemma lkok_acquire [simp]: "lkok s \<Longrightarrow> lk \<notin> held s \<Longrightarrow> acquire lk s = Ret () (entered lk s)"
  by (simp add: lkok_def)

lemma lkok_release [simp]: "lkok s \<Longrightarrow> lk \<in> held s \<Longrightarrow> release lk s = Ret () (left lk s)"
  by (simp add: lkok_def)

lemma lkok_holding [simp]: "lkok s \<Longrightarrow> holding lk s = Ret (lk \<in> held s) s"
  by (simp add: lkok_def)

lemma lkok_left_entered [simp]:
  "lkok s \<Longrightarrow> lk \<notin> held s \<Longrightarrow> left lk (entered lk s) = touch s"
  by (simp add: lkok_def)

lemma lkok_touch_held [simp]: "lkok s \<Longrightarrow> held s \<noteq> {} \<Longrightarrow> touch s = s"
  unfolding lkok_def by (rule touch_held)

lemma touch_in: "lkok s \<Longrightarrow> lk \<in> held s \<Longrightarrow> touch s = s"
  by (rule lkok_touch_held) auto

lemma held_touch [simp]: "held (touch s) = held s"
  by (simp add: held_def touch_def lock_mine_def)

lemma held_entered [simp]: "held (entered lk s) = insert lk (held s)"
  by (auto simp: held_def entered_def lock_mine_def)

lemma held_left [simp]: "held (left lk s) = held s - {lk}"
  by (auto simp: held_def left_def lock_mine_def)

lemma lkok_touch [simp]: "lkok (touch s) = lkok s"
  by (simp add: lkok_def)

lemma lkok_entered [simp]: "lkok s \<Longrightarrow> lk \<notin> held s \<Longrightarrow> lkok (entered lk s)"
  by (simp add: lkok_def)

lemma lkok_left [simp]: "lkok s \<Longrightarrow> lk \<in> held s \<Longrightarrow> lkok (left lk s)"
  using holds_left [of lk "held s - {lk}" s] by (simp add: lkok_def insert_absorb)

lemma lkok_noff: "lkok s \<Longrightarrow> 0 \<le> mynoff s \<and> (0 < mynoff s \<longrightarrow> \<not> sie s (tp s))"
  by (auto simp: lkok_def holds_def)

lemma mynoff_simps [simp]:
  "noff (cpus (touch s) c) = noff (cpus s c)"
  "noff (cpus (entered lk s) c) = noff (cpus s c) + (if c = tp s then 1 else 0)"
  "noff (cpus (left lk s) c) = noff (cpus s c) - (if c = tp s then 1 else 0)"
  by (simp_all add: touch_def entered_def left_def)

lemma held_cpus [simp]: "held (s\<lparr>cpus := f\<rparr>) = held s"
  by (simp add: held_def lock_mine_def)

lemma lkok_cpus [simp]: "noff (f (tp s)) = mynoff s \<Longrightarrow> lkok (s\<lparr>cpus := f\<rparr>) = lkok s"
  by (simp add: lkok_def holds_def lock_mine_def lock_free_def held_def)

text \<open>
  A critical section whose body, run with the lock held, returns \<open>x\<close> and changes the state by a
  function that commutes with \<open>left\<close>.
\<close>

lemma lkok_with_lock [simp]:
  "lkok s \<Longrightarrow> lk \<notin> held s \<Longrightarrow>
     with_lock lk m s = (case m (entered lk s) of Ret x t \<Rightarrow>
       (case release lk t of Ret _ u \<Rightarrow> Ret x u | Halt e u \<Rightarrow> Halt e u) | Halt e t \<Rightarrow> Halt e t)"
  by (simp add: with_lock_def cong: outcome.case_cong)

lemma with_lock_eq:
  assumes "holds H s" "lk \<notin> H"
    and "m (entered lk s) = Ret x t" "holds (insert lk H) t"
  shows "with_lock lk m s = Ret x (left lk t)"
  using assms by (simp add: with_lock_def)

lemma with_lock_halt:
  assumes "holds H s" "lk \<notin> H" and "m (entered lk s) = Halt e t"
  shows "with_lock lk m s = Halt e t"
  using assms by (simp add: with_lock_def)

subsection \<open>Many harts: mutual exclusion\<close>

text \<open>
  Any number of harts run \<^verbatim>\<open>acquire\<close> and \<^verbatim>\<open>release\<close>, interleaved between the pieces the two
  functions are made of. \<open>lpc\<close> is where a hart is, \<open>inside\<close> the locks whose critical section
  it is in: from the store to \<^verbatim>\<open>lk->cpu\<close> at the end of \<^verbatim>\<open>acquire\<close> to the one in \<^verbatim>\<open>release\<close>.
\<close>

datatype lpc = Running | Spinning lockid | Taking lockid | Dropping lockid

record smp =
  mach :: machine
  lpcs :: "nat \<Rightarrow> lpc"
  inside :: "nat \<Rightarrow> lockid set"

definition smp_init :: "smp \<Rightarrow> bool" where
  "smp_init s \<longleftrightarrow>
     (\<forall>lk. lock_free lk (mach s)) \<and> lpcs s = (\<lambda>_. Running) \<and> inside s = (\<lambda>_. {})"

abbreviation on_hart :: "nat \<Rightarrow> smp \<Rightarrow> machine" where
  "on_hart h s \<equiv> (mach s)\<lparr>tp := h\<rparr>"

inductive smp_step :: "smp \<Rightarrow> smp \<Rightarrow> bool" where
  smp_enter: "lpcs s h = Running \<Longrightarrow> acquire_check lk (on_hart h s) = Ret () m \<Longrightarrow>
    smp_step s (s\<lparr>mach := m, lpcs := (lpcs s)(h := Spinning lk)\<rparr>)"
| smp_spin: "lpcs s h = Spinning lk \<Longrightarrow> test_and_set lk (on_hart h s) = Halt (Spin lk) m \<Longrightarrow>
    smp_step s (s\<lparr>mach := m\<rparr>)"
| smp_take: "lpcs s h = Spinning lk \<Longrightarrow> test_and_set lk (on_hart h s) = Ret () m \<Longrightarrow>
    smp_step s (s\<lparr>mach := m, lpcs := (lpcs s)(h := Taking lk)\<rparr>)"
| smp_record: "lpcs s h = Taking lk \<Longrightarrow> acquire_record lk (on_hart h s) = Ret () m \<Longrightarrow>
    smp_step s (s\<lparr>mach := m, lpcs := (lpcs s)(h := Running),
                  inside := (inside s)(h := insert lk (inside s h))\<rparr>)"
| smp_drop: "lpcs s h = Running \<Longrightarrow> release_check lk (on_hart h s) = Ret () m \<Longrightarrow>
    smp_step s (s\<lparr>mach := m, lpcs := (lpcs s)(h := Dropping lk),
                  inside := (inside s)(h := inside s h - {lk})\<rparr>)"
| smp_unlock: "lpcs s h = Dropping lk \<Longrightarrow>
    kseq (release_unlock lk) pop_off (on_hart h s) = Ret () m \<Longrightarrow>
    smp_step s (s\<lparr>mach := m, lpcs := (lpcs s)(h := Running)\<rparr>)"

inductive smp_reach :: "smp \<Rightarrow> bool" where
  smp_start: "smp_init s \<Longrightarrow> smp_reach s"
| smp_more: "smp_reach s \<Longrightarrow> smp_step s t \<Longrightarrow> smp_reach t"

definition owns :: "smp \<Rightarrow> nat \<Rightarrow> lockid \<Rightarrow> bool" where
  "owns s h lk \<longleftrightarrow> lk \<in> inside s h \<or> lpcs s h = Taking lk \<or> lpcs s h = Dropping lk"

definition smp_inv :: "smp \<Rightarrow> bool" where
  "smp_inv s \<longleftrightarrow>
     (\<forall>lk. locked (locks (mach s) lk) \<longleftrightarrow> (\<exists>h. owns s h lk)) \<and>
     (\<forall>lk h h'. owns s h lk \<longrightarrow> owns s h' lk \<longrightarrow> h = h') \<and>
     (\<forall>lk h. lkcpu (locks (mach s) lk) = Some h \<longleftrightarrow> lk \<in> inside s h) \<and>
     (\<forall>lk h. lpcs s h = Taking lk \<or> lpcs s h = Dropping lk \<longrightarrow> lk \<notin> inside s h)"

lemma pop_off_locks: "pop_off s = Ret () t \<Longrightarrow> locks t = locks s"
  by (auto simp: pop_off_def mycpu_def cpuid_def intr_get_def upd_cpu_def intr_on_def
      split: if_splits)

lemma acquire_check_locks: "acquire_check lk s = Ret () t \<Longrightarrow> locks t = locks s"
  by (auto simp: acquire_check_def push_off_eq pushed_def holding_def mycpu_def cpuid_def split: if_splits)

lemma smp_init_inv: "smp_init s \<Longrightarrow> smp_inv s"
  by (auto simp: smp_init_def smp_inv_def owns_def lock_free_def)

lemma smp_inv_take:
  assumes inv: "smp_inv s" and pc: "lpcs s h = Spinning lk"
    and run: "test_and_set lk (on_hart h s) = Ret () m"
  shows "smp_inv (s\<lparr>mach := m, lpcs := (lpcs s)(h := Taking lk)\<rparr>)"
proof -
  have free: "\<not> locked (locks (mach s) lk)"
    and l: "locks m = (locks (mach s))(lk := (locks (mach s) lk)\<lparr>locked := True\<rparr>)"
    using run by (auto simp: test_and_set_def upd_lock_def split: if_splits)
  have o: "owns (s\<lparr>mach := m, lpcs := (lpcs s)(h := Taking lk)\<rparr>) h' k \<longleftrightarrow>
      owns s h' k \<or> (h' = h \<and> k = lk)" for h' k
    using pc by (auto simp: owns_def)
  have "\<not> owns s h' lk" for h' using inv free by (auto simp: smp_inv_def)
  then show ?thesis using pc inv by (auto simp: smp_inv_def l o) (auto simp: owns_def)
qed

lemma smp_inv_record:
  assumes inv: "smp_inv s" and pc: "lpcs s h = Taking lk"
    and run: "acquire_record lk (on_hart h s) = Ret () m"
  shows "smp_inv (s\<lparr>mach := m, lpcs := (lpcs s)(h := Running),
                   inside := (inside s)(h := insert lk (inside s h))\<rparr>)"
proof -
  have l: "locks m = (locks (mach s))(lk := (locks (mach s) lk)\<lparr>lkcpu := Some h\<rparr>)"
    using run by (auto simp: acquire_record_def upd_lock_def mycpu_def cpuid_def)
  have o: "owns (s\<lparr>mach := m, lpcs := (lpcs s)(h := Running),
      inside := (inside s)(h := insert lk (inside s h))\<rparr>) = owns s"
    using pc by (auto simp: owns_def fun_eq_iff)
  have mine: "owns s h lk" using pc by (simp add: owns_def)
  then have others: "lk \<notin> inside s h'" if "h' \<noteq> h" for h'
    using inv that by (auto simp: smp_inv_def owns_def)
  show ?thesis using pc inv mine others by (auto simp: smp_inv_def l o)
qed

lemma smp_inv_drop:
  assumes inv: "smp_inv s" and pc: "lpcs s h = Running"
    and run: "release_check lk (on_hart h s) = Ret () m"
  shows "smp_inv (s\<lparr>mach := m, lpcs := (lpcs s)(h := Dropping lk),
                   inside := (inside s)(h := inside s h - {lk})\<rparr>)"
proof -
  have hold: "lkcpu (locks (mach s) lk) = Some h"
    and l: "locks m = (locks (mach s))(lk := (locks (mach s) lk)\<lparr>lkcpu := None\<rparr>)"
    using run
    by (auto simp: release_check_def holding_def upd_lock_def mycpu_def cpuid_def split: if_splits)
  have ins: "lk \<in> inside s h" using inv hold by (auto simp: smp_inv_def)
  then have others: "lk \<notin> inside s h'" if "h' \<noteq> h" for h'
    using inv that by (auto simp: smp_inv_def owns_def)
  have o: "owns (s\<lparr>mach := m, lpcs := (lpcs s)(h := Dropping lk),
      inside := (inside s)(h := inside s h - {lk})\<rparr>) = owns s"
    using pc ins by (auto simp: owns_def fun_eq_iff)
  show ?thesis using pc inv ins others by (auto simp: smp_inv_def l o)
qed

lemma smp_inv_unlock:
  assumes inv: "smp_inv s" and pc: "lpcs s h = Dropping lk"
    and run: "kseq (release_unlock lk) pop_off (on_hart h s) = Ret () m"
  shows "smp_inv (s\<lparr>mach := m, lpcs := (lpcs s)(h := Running)\<rparr>)"
proof -
  have l: "locks m = (locks (mach s))(lk := (locks (mach s) lk)\<lparr>locked := False\<rparr>)"
    using run by (auto simp: release_unlock_def upd_lock_def dest!: pop_off_locks)
  have mine: "owns s h lk" using pc by (simp add: owns_def)
  have notin: "lk \<notin> inside s h" using pc inv by (auto simp: smp_inv_def)
  have o: "owns (s\<lparr>mach := m, lpcs := (lpcs s)(h := Running)\<rparr>) h' k \<longleftrightarrow>
      owns s h' k \<and> \<not> (h' = h \<and> k = lk)" for h' k
    using pc notin by (auto simp: owns_def)
  show ?thesis using pc inv mine notin by (auto simp: smp_inv_def l o)
qed

lemma smp_step_inv: "smp_step s t \<Longrightarrow> smp_inv s \<Longrightarrow> smp_inv t"
proof (induction rule: smp_step.induct)
  case (smp_enter s h lk m)
  have l: "locks m = locks (mach s)" using acquire_check_locks [OF smp_enter(2)] by simp
  have o: "owns (s\<lparr>mach := m, lpcs := (lpcs s)(h := Spinning lk)\<rparr>) = owns s"
    using smp_enter(1) by (auto simp: owns_def fun_eq_iff)
  show ?case using smp_enter(1,3) by (auto simp: smp_inv_def l o)
next
  case (smp_spin s h lk m)
  have l: "locks m = locks (mach s)"
    using smp_spin(2) by (auto simp: test_and_set_def upd_lock_def split: if_splits)
  have o: "owns (s\<lparr>mach := m\<rparr>) = owns s" by (auto simp: owns_def fun_eq_iff)
  show ?case using smp_spin(3) by (auto simp: smp_inv_def l o)
qed (blast intro: smp_inv_take smp_inv_record smp_inv_drop smp_inv_unlock)+

lemma smp_reach_inv: "smp_reach s \<Longrightarrow> smp_inv s"
  by (induction rule: smp_reach.induct) (auto intro: smp_init_inv smp_step_inv)

subsection \<open>Properties\<close>

definition smp_ex :: smp where
  "smp_ex =
     \<lparr>mach = \<lparr>locks = (\<lambda>_. \<lparr>locked = False, lkname = [], lkcpu = None\<rparr>),
              cpus = (\<lambda>_. \<lparr>cproc = None, noff = 0, intena = False\<rparr>),
              sie = (\<lambda>_. True), tp = 0\<rparr>,
      lpcs = (\<lambda>_. Running), inside = (\<lambda>_. {})\<rparr>"

definition smp_ex3 :: smp where
  "smp_ex3 =
     smp_ex\<lparr>mach := entered Lk_kmem ((mach smp_ex)\<lparr>tp := 3\<rparr>),
            inside := (inside smp_ex)(3 := {Lk_kmem})\<rparr>"

lemma smp_ex3_reach: "smp_reach smp_ex3"
proof -
  have 1: "smp_reach smp_ex"
    by (rule smp_start) (simp add: smp_init_def smp_ex_def lock_free_def)
  let ?m = "pushed ((mach smp_ex)\<lparr>tp := 3\<rparr>)"
  let ?s2 = "smp_ex\<lparr>mach := ?m, lpcs := (lpcs smp_ex)(3 := Spinning Lk_kmem)\<rparr>"
  have 2: "smp_reach ?s2"
    by (rule smp_more [OF 1 smp_enter])
       (simp_all add: smp_ex_def acquire_check_def push_off_eq pushed_def holding_def mycpu_def
          cpuid_def)
  let ?m3 = "?m\<lparr>locks := (locks ?m)(Lk_kmem := (locks ?m Lk_kmem)\<lparr>locked := True\<rparr>)\<rparr>"
  let ?s3 = "?s2\<lparr>mach := ?m3, lpcs := (lpcs ?s2)(3 := Taking Lk_kmem)\<rparr>"
  have 3: "smp_reach ?s3"
    by (rule smp_more [OF 2 smp_take])
       (simp_all add: smp_ex_def test_and_set_def upd_lock_def pushed_def)
  have "smp_step ?s3 smp_ex3"
    using smp_record [of ?s3 3 Lk_kmem "mach smp_ex3"]
    by (simp add: smp_ex3_def smp_ex_def acquire_record_def upd_lock_def mycpu_def cpuid_def
        pushed_def entered_def fun_upd_idem)
  with 3 show ?thesis by (rule smp_more)
qed

text \<open>
  C24. Mutual exclusion: in every state that any interleaving of \<^verbatim>\<open>acquire\<close> and \<^verbatim>\<open>release\<close> on any
  number of harts can reach, the hart inside a lock's critical section is the only one, the lock's
  word is set and its \<^verbatim>\<open>cpu\<close> field names that hart.
\<close>

theorem spinlock_mutual_exclusion:
  assumes "smp_reach s" and "lk \<in> inside s h"
  shows "{h'. lk \<in> inside s h'} = {h} \<and> locked (locks (mach s) lk)
    \<and> lkcpu (locks (mach s) lk) = Some h"
  using smp_reach_inv [OF assms(1)] assms(2) by (auto simp: smp_inv_def owns_def)

theorem spinlock_mutual_exclusion_witness:
  "smp_reach smp_ex3 \<and> Lk_kmem \<in> inside smp_ex3 3 \<and>
   {h'. Lk_kmem \<in> inside smp_ex3 h'} = {3} \<and> locked (locks (mach smp_ex3) Lk_kmem)"
proof -
  have "Lk_kmem \<in> inside smp_ex3 3" by (simp add: smp_ex3_def)
  with smp_ex3_reach show ?thesis using spinlock_mutual_exclusion by blast
qed

text \<open>
  The test \<^verbatim>\<open>holding\<close> is exact under every interleaving: evaluated on hart \<open>h\<close> without any
  lock taken, it answers whether \<open>h\<close> is inside the lock's critical section, whatever the other
  harts are doing to the two fields it reads.
\<close>

theorem holding_exact:
  assumes "smp_reach s"
  shows "holding lk (on_hart h s) = Ret (lk \<in> inside s h) (on_hart h s)"
  using smp_reach_inv [OF assms]
  by (auto simp: smp_inv_def owns_def holding_def mycpu_def cpuid_def)

theorem holding_exact_witness:
  "smp_reach smp_ex3 \<and> holding Lk_kmem (on_hart 3 smp_ex3) = Ret True (on_hart 3 smp_ex3)
   \<and> holding Lk_kmem (on_hart 2 smp_ex3) = Ret False (on_hart 2 smp_ex3)"
  using smp_ex3_reach holding_exact [OF smp_ex3_reach, of Lk_kmem 3]
    holding_exact [OF smp_ex3_reach, of Lk_kmem 2]
  by (simp add: smp_ex3_def smp_ex_def)

lemma pop_off_pushed:
  assumes "0 \<le> mynoff s" "0 < mynoff s \<longrightarrow> \<not> sie s (tp s)"
  shows "pop_off (pushed s) = Ret () (touch s)"
proof -
  have "s\<lparr>sie := (sie s)(tp s := False)\<rparr> = s" if "\<not> sie s (tp s)"
    using that by (simp add: fun_upd_idem)
  moreover have "(sie s)(tp s := True) = sie s" if "sie s (tp s)"
    using that by (simp add: fun_upd_idem)
  ultimately show ?thesis
    using assms by (auto simp: pop_off_def pushed_def touch_def mycpu_def cpuid_def intr_get_def
        upd_cpu_def intr_on_def)
qed

lemma pushed_simps [simp]:
  "mynoff (pushed s) = mynoff s + 1" "\<not> sie (pushed s) (tp s)" "tp (pushed s) = tp s"
  by (simp_all add: pushed_def)

lemma touch_nested: "mynoff s \<noteq> 0 \<Longrightarrow> touch s = s"
  by (simp add: touch_def)

lemma push_pop_nested:
  "0 \<le> mynoff s \<Longrightarrow> 0 < mynoff s \<longrightarrow> \<not> sie s (tp s) \<Longrightarrow>
   kdo (replicate n push_off @ replicate n pop_off) s = Ret () (if n = 0 then s else touch s)"
proof (induction n arbitrary: s)
  case 0
  then show ?case by simp
next
  case (Suc n)
  have split: "replicate (Suc n) push_off @ replicate (Suc n) pop_off
      = push_off # (replicate n push_off @ replicate n pop_off) @ [pop_off]"
    by (simp add: replicate_append_same)
  have inner: "kdo (replicate n push_off @ replicate n pop_off) (pushed s) = Ret () (pushed s)"
    using Suc.prems(1) by (subst Suc.IH) (auto simp: touch_nested pushed_def)
  have "kdo ((replicate n push_off @ replicate n pop_off) @ [pop_off]) (pushed s)
      = Ret () (touch s)"
    by (subst kdo_append) (simp add: inner pop_off_pushed [OF Suc.prems] del: append_assoc)
  then show ?case unfolding split by (simp add: push_off_eq)
qed

text \<open>
  Interrupt nesting: any depth of matched \<^verbatim>\<open>push_off\<close> and \<^verbatim>\<open>pop_off\<close> calls returns without
  panic and leaves the hart's interrupt-enable bit, the nesting depth and every lock as they were
  (only the saved copy of the bit is written); in between, interrupts are off.
\<close>

theorem push_off_pop_off_balanced:
  assumes "0 \<le> mynoff s" and "0 < mynoff s \<longrightarrow> \<not> sie s (tp s)"
  shows "\<exists>t. kdo (replicate n push_off @ replicate n pop_off) s = Ret () t
    \<and> sie t = sie s \<and> mynoff t = mynoff s \<and> locks t = locks s \<and> tp t = tp s
    \<and> (\<exists>u. kdo (replicate (Suc n) push_off) s = Ret () u \<and> \<not> sie u (tp u))"
proof -
  have "\<exists>u. kdo (replicate (Suc n) push_off) s = Ret () u \<and> \<not> sie u (tp u)" for s
    by (induction n arbitrary: s) (simp_all add: push_off_eq)
  then obtain u where "kdo (replicate (Suc n) push_off) s = Ret () u" "\<not> sie u (tp u)"
    by blast
  then show ?thesis using push_pop_nested [OF assms, of n] by (auto simp: touch_def)
qed

theorem push_off_pop_off_balanced_witness:
  "mynoff (mach smp_ex) = 0 \<and> sie (mach smp_ex) (tp (mach smp_ex)) \<and>
   (\<exists>t. kdo (replicate 2 push_off @ replicate 2 pop_off) (mach smp_ex) = Ret () t
      \<and> sie t = sie (mach smp_ex) \<and> mynoff t = 0)"
  using push_off_pop_off_balanced [of "mach smp_ex" 2] by (auto simp: smp_ex_def)

end
