(* ===== verification/Memory.thy ===== *)
theory Memory
  imports Spinlock
begin

unbundle bit_operations_syntax

section \<open>Byte memory and string.c\<close>

text \<open>
  Physical memory is a function from 64-bit addresses to bytes, one field of the kernel's state.
  Structs that the code keeps in memory or in disk blocks are read and written through their
  little-endian byte encodings (\<open>le_bytes\<close>, \<open>le_word\<close>). The memory functions of
  \<^verbatim>\<open>kernel/string.c\<close> work on the memory; its string functions read through a pointer, modelled as
  the bytes at the offsets from it, so that they apply to memory and to local arrays alike.
\<close>

subsection \<open>Little-endian encodings\<close>

fun le_bytes :: "nat \<Rightarrow> 'a::len word \<Rightarrow> bytes" where
  "le_bytes 0 w = []"
| "le_bytes (Suc n) w = ucast w # le_bytes n (drop_bit 8 w)"

fun le_word :: "bytes \<Rightarrow> 'a::len word" where
  "le_word [] = 0"
| "le_word (b # bs) = ucast b OR push_bit 8 (le_word bs)"

lemma length_le_bytes [simp]: "length (le_bytes n w) = n"
  by (induction n arbitrary: w) auto

lemma le_word_le_bytes_take: "le_word (le_bytes n w) = take_bit (8 * n) w"
proof (induction n arbitrary: w)
  case 0
  then show ?case by simp
next
  case (Suc n)
  show ?case
    unfolding le_bytes.simps le_word.simps Suc
    by (rule bit_word_eqI) (auto simp: bit_simps less_diff_conv2)
qed

lemma le_word_le_bytes [simp]: "LENGTH('a) \<le> 8 * n \<Longrightarrow> le_word (le_bytes n w) = (w :: 'a::len word)"
  by (simp add: le_word_le_bytes_take take_bit_word_eq_self)

lemma le_bytes_zero: "le_bytes n 0 = replicate n 0"
  by (induction n) auto

lemma le_word_zeros [simp]: "le_word (replicate n 0) = 0"
  by (induction n) auto

subsection \<open>Memory\<close>

type_synonym memory = "uint64 \<Rightarrow> uint8"

definition mem_read :: "memory \<Rightarrow> uint64 \<Rightarrow> nat \<Rightarrow> bytes" where
  "mem_read m a n = map (\<lambda>i. m (a + of_nat i)) [0..<n]"

definition mem_write :: "memory \<Rightarrow> uint64 \<Rightarrow> bytes \<Rightarrow> memory" where
  "mem_write m a bs = (\<lambda>x. if unat (x - a) < length bs then bs ! unat (x - a) else m x)"

definition load64 :: "memory \<Rightarrow> uint64 \<Rightarrow> uint64" where
  "load64 m a = le_word (mem_read m a 8)"

definition store64 :: "memory \<Rightarrow> uint64 \<Rightarrow> uint64 \<Rightarrow> memory" where
  "store64 m a w = mem_write m a (le_bytes 8 w)"

lemma length_mem_read [simp]: "length (mem_read m a n) = n"
  by (simp add: mem_read_def)

lemma nth_mem_read [simp]: "i < n \<Longrightarrow> mem_read m a n ! i = m (a + of_nat i)"
  by (simp add: mem_read_def)

lemma mem_write_Nil [simp]: "mem_write m a [] = m"
  by (simp add: mem_write_def)

lemma mem_read_0 [simp]: "mem_read m a 0 = []"
  by (simp add: mem_read_def)

lemma mem_read_write_same [simp]:
  assumes "length bs \<le> 2 ^ 64"
  shows "mem_read (mem_write m a bs) a (length bs) = bs"
proof (rule nth_equalityI)
  fix i
  assume "i < length (mem_read (mem_write m a bs) a (length bs))"
  then have i: "i < length bs" by simp
  then have "unat (of_nat i :: uint64) = i"
    using assms by (simp add: unat_of_nat take_bit_nat_eq_self)
  with i show "mem_read (mem_write m a bs) a (length bs) ! i = bs ! i"
    by (simp add: mem_write_def)
qed simp

text \<open>Two ranges \<open>[a, a+n)\<close> and \<open>[b, b+k)\<close> that do not overlap.\<close>

definition disjoint_range :: "uint64 \<Rightarrow> nat \<Rightarrow> uint64 \<Rightarrow> nat \<Rightarrow> bool" where
  "disjoint_range a n b k \<longleftrightarrow> (\<forall>i<n. k \<le> unat (a + of_nat i - b))"

lemma mem_read_write_other:
  "disjoint_range a n b (length bs) \<Longrightarrow> mem_read (mem_write m b bs) a n = mem_read m a n"
  by (auto simp: disjoint_range_def mem_read_def mem_write_def)

lemma load64_store64_same [simp]: "load64 (store64 m a w) a = w"
proof -
  have "mem_read (store64 m a w) a (length (le_bytes 8 w)) = le_bytes 8 w"
    unfolding store64_def by (rule mem_read_write_same) simp
  then show ?thesis by (simp add: load64_def)
qed

lemma load64_write_other:
  "disjoint_range a 8 b (length bs) \<Longrightarrow> load64 (mem_write m b bs) a = load64 m a"
  by (simp add: load64_def mem_read_write_other)

subsection \<open>Memory functions of string.c\<close>

definition memset :: "memory \<Rightarrow> uint64 \<Rightarrow> uint8 \<Rightarrow> nat \<Rightarrow> memory" where
  "memset m dst c n = fold (\<lambda>i m. m(dst + of_nat i := c)) [0..<n] m"

fun memcmp :: "memory \<Rightarrow> uint64 \<Rightarrow> uint64 \<Rightarrow> nat \<Rightarrow> int" where
  "memcmp m s1 s2 0 = 0"
| "memcmp m s1 s2 (Suc n) =
     (if m s1 \<noteq> m s2 then uint (m s1) - uint (m s2) else memcmp m (s1 + 1) (s2 + 1) n)"

fun copy_down :: "memory \<Rightarrow> uint64 \<Rightarrow> uint64 \<Rightarrow> nat \<Rightarrow> memory" where
  "copy_down m d s 0 = m"
| "copy_down m d s (Suc n) = copy_down (m(d - 1 := m (s - 1))) (d - 1) (s - 1) n"

fun copy_up :: "memory \<Rightarrow> uint64 \<Rightarrow> uint64 \<Rightarrow> nat \<Rightarrow> memory" where
  "copy_up m d s 0 = m"
| "copy_up m d s (Suc n) = copy_up (m(d := m s)) (d + 1) (s + 1) n"

definition memmove :: "memory \<Rightarrow> uint64 \<Rightarrow> uint64 \<Rightarrow> nat \<Rightarrow> memory" where
  "memmove m dst src n =
     (if n = 0 then m
      else if src < dst \<and> dst < src + of_nat n
      then copy_down m (dst + of_nat n) (src + of_nat n) n
      else copy_up m dst src n)"

definition memcpy :: "memory \<Rightarrow> uint64 \<Rightarrow> uint64 \<Rightarrow> nat \<Rightarrow> memory" where
  "memcpy m dst src n = memmove m dst src n"

subsection \<open>String functions of string.c\<close>

fun strncmp :: "(nat \<Rightarrow> uint8) \<Rightarrow> (nat \<Rightarrow> uint8) \<Rightarrow> nat \<Rightarrow> int" where
  "strncmp p q 0 = 0"
| "strncmp p q (Suc n) =
     (if p 0 \<noteq> 0 \<and> p 0 = q 0 then strncmp (\<lambda>i. p (Suc i)) (\<lambda>i. q (Suc i)) n
      else uint (p 0) - uint (q 0))"

fun strncpy_copy :: "(nat \<Rightarrow> uint8) \<Rightarrow> (nat \<Rightarrow> uint8) \<Rightarrow> nat \<Rightarrow> nat \<Rightarrow> (nat \<Rightarrow> uint8) \<times> nat \<times> nat" where
  "strncpy_copy s t i 0 = (s, i, 0)"
| "strncpy_copy s t i (Suc n) =
     (if t i \<noteq> 0 then strncpy_copy (s(i := t i)) t (Suc i) n else (s(i := t i), Suc i, n))"

fun strncpy_pad :: "(nat \<Rightarrow> uint8) \<Rightarrow> nat \<Rightarrow> nat \<Rightarrow> nat \<Rightarrow> uint8" where
  "strncpy_pad s i 0 = s"
| "strncpy_pad s i (Suc n) = strncpy_pad (s(i := 0)) (Suc i) n"

definition strncpy :: "(nat \<Rightarrow> uint8) \<Rightarrow> (nat \<Rightarrow> uint8) \<Rightarrow> int \<Rightarrow> nat \<Rightarrow> uint8" where
  "strncpy s t n = (case strncpy_copy s t 0 (nat n) of (s', i, k) \<Rightarrow> strncpy_pad s' i k)"

definition safestrcpy :: "(nat \<Rightarrow> uint8) \<Rightarrow> (nat \<Rightarrow> uint8) \<Rightarrow> int \<Rightarrow> nat \<Rightarrow> uint8" where
  "safestrcpy s t n =
     (if n \<le> 0 then s
      else case strncpy_copy s t 0 (nat (n - 1)) of (s', i, k) \<Rightarrow> s'(i := 0))"

partial_function (option) strlen_loop :: "(nat \<Rightarrow> uint8) \<Rightarrow> nat \<Rightarrow> nat option" where
  "strlen_loop s n = (if s n = 0 then Some n else strlen_loop s (Suc n))"

definition strlen :: "(nat \<Rightarrow> uint8) \<Rightarrow> nat option" where
  "strlen s = strlen_loop s 0"

text \<open>A local array read through a pointer to its first element.\<close>

definition arr :: "bytes \<Rightarrow> nat \<Rightarrow> uint8" where
  "arr bs i = (if i < length bs then bs ! i else 0)"

definition at_mem :: "memory \<Rightarrow> uint64 \<Rightarrow> nat \<Rightarrow> uint8" where
  "at_mem m a i = m (a + of_nat i)"

subsection \<open>What the memory functions compute\<close>

lemma addr_index:
  assumes "n < 2 ^ 64"
  shows "x = a + of_nat n \<longleftrightarrow> unat (x - a :: uint64) = n"
proof
  assume "unat (x - a) = n"
  then have "of_nat n = x - a" by auto
  then show "x = a + of_nat n" by simp
qed (use assms in \<open>simp add: unat_of_nat take_bit_nat_eq_self\<close>)

lemma mem_write_snoc:
  assumes "length bs < 2 ^ 64"
  shows "mem_write m a (bs @ [b]) = mem_write (m(a + of_nat (length bs) := b)) a bs"
proof
  fix x
  show "mem_write m a (bs @ [b]) x = mem_write (m(a + of_nat (length bs) := b)) a bs x"
    using addr_index [OF assms, of x a]
    by (auto simp: mem_write_def nth_append less_Suc_eq)
qed

lemma mem_write_Cons:
  assumes "length bs < 2 ^ 64"
  shows "mem_write m a (b # bs) = mem_write (m(a := b)) (a + 1) bs"
proof
  fix x :: uint64
  show "mem_write m a (b # bs) x = mem_write (m(a := b)) (a + 1) bs x"
  proof (cases "x = a")
    case True
    have "unat (- 1 :: uint64) = 2 ^ 64 - 1" by (simp add: unsigned_minus_1_eq_mask mask_eq_exp_minus_1)
    with assms True show ?thesis by (simp add: mem_write_def)
  next
    case False
    then have nz: "x - a \<noteq> 0" by simp
    then have "unat (x - a - 1) = unat (x - a) - 1" by (rule unat_minus_one)
    moreover have "0 < unat (x - a)" using nz by (simp add: unat_gt_0)
    ultimately have "unat (x - a) = Suc (unat (x - (a + 1)))" by (simp add: diff_diff_eq)
    with False show ?thesis by (simp add: mem_write_def)
  qed
qed

lemma mem_read_Suc: "mem_read m a (Suc n) = m a # mem_read m (a + 1) n"
  by (simp add: mem_read_def upt_conv_Cons map_Suc_upt [symmetric] ac_simps del: upt_Suc map_Suc_upt)

lemma mem_read_snoc: "mem_read m a (Suc n) = mem_read m a n @ [m (a + of_nat n)]"
  by (simp add: mem_read_def)

lemma memset_eq: "n \<le> 2 ^ 64 \<Longrightarrow> memset m dst c n = mem_write m dst (replicate n c)"
proof (induction n)
  case 0
  then show ?case by (simp add: memset_def)
next
  case (Suc n)
  then have "memset m dst c (Suc n) = (mem_write m dst (replicate n c))(dst + of_nat n := c)"
    by (simp add: memset_def)
  also have "\<dots> = mem_write m dst (replicate (Suc n) c)"
    using addr_index [of n _ dst] Suc.prems
    by (auto simp: mem_write_def fun_eq_iff less_Suc_eq nth_append replicate_append_same [symmetric]
        simp del: replicate_Suc)
  finally show ?case .
qed

lemma copy_up_eq:
  assumes "n \<le> 2 ^ 64"
    and "\<And>i j. i < n \<Longrightarrow> j < i \<Longrightarrow> s + of_nat i \<noteq> d + (of_nat j :: uint64)"
  shows "copy_up m d s n = mem_write m d (mem_read m s n)"
  using assms
proof (induction n arbitrary: m d s)
  case 0
  then show ?case by simp
next
  case (Suc n)
  have ne: "s + 1 + of_nat i \<noteq> d" if "i < n" for i
    using Suc.prems(2) [of "Suc i" 0] that by (simp add: ac_simps)
  then have rd: "mem_read (m(d := m s)) (s + 1) n = mem_read m (s + 1) n"
    by (auto simp: mem_read_def)
  have "copy_up m d s (Suc n)
      = mem_write (m(d := m s)) (d + 1) (mem_read (m(d := m s)) (s + 1) n)"
    unfolding copy_up.simps
  proof (rule Suc.IH)
    show "s + 1 + of_nat i \<noteq> d + 1 + of_nat j" if "i < n" "j < i" for i j
      using Suc.prems(2) [of "Suc i" "Suc j"] that by (simp add: ac_simps)
  qed (use Suc.prems in simp)
  then show ?case using Suc.prems by (simp add: rd mem_read_Suc mem_write_Cons)
qed

lemma copy_down_eq:
  assumes "n \<le> 2 ^ 64"
    and "\<And>i j. j < n \<Longrightarrow> i < j \<Longrightarrow> s + of_nat i \<noteq> d + (of_nat j :: uint64)"
  shows "copy_down m (d + of_nat n) (s + of_nat n) n = mem_write m d (mem_read m s n)"
  using assms
proof (induction n arbitrary: m)
  case 0
  then show ?case by simp
next
  case (Suc n)
  let ?m = "m(d + of_nat n := m (s + of_nat n))"
  have rd: "mem_read ?m s n = mem_read m s n"
    using Suc.prems(2) [of n] by (auto simp: mem_read_def)
  have "copy_down m (d + of_nat (Suc n)) (s + of_nat (Suc n)) (Suc n)
      = copy_down ?m (d + of_nat n) (s + of_nat n) n"
    by (simp add: ac_simps)
  also have "\<dots> = mem_write ?m d (mem_read ?m s n)"
    using Suc.prems by (intro Suc.IH) auto
  also have "\<dots> = mem_write m d (mem_read m s (Suc n))"
    using Suc.prems(1) by (simp only: rd mem_read_snoc mem_write_snoc length_mem_read)
  finally show ?case .
qed

lemma nowrap_addr:
  assumes "unat (a :: uint64) + n \<le> 2 ^ 64" "i < n"
  shows "unat (a + of_nat i) = unat a + i"
  using assms by (simp add: unat_word_ariths unat_of_nat take_bit_nat_eq_self)

lemma memmove_eq:
  assumes s: "unat src + n < 2 ^ 64" and d: "unat dst + n < 2 ^ 64"
  shows "memmove m dst src n = mem_write m dst (mem_read m src n)"
proof (cases "n = 0")
  case True
  then show ?thesis by (simp add: memmove_def)
next
  case False
  have addr: "src + of_nat i = dst + of_nat j \<longleftrightarrow> unat src + i = unat dst + j"
    if "i < n" "j < n" for i j
  proof -
    have "unat (src + of_nat i) = unat src + i" "unat (dst + of_nat j) = unat dst + j"
      using nowrap_addr [of src n i] nowrap_addr [of dst n j] s d that by simp_all
    then show ?thesis by (simp add: word_unat_eq_iff)
  qed
  have sn: "unat (src + of_nat n) = unat src + n"
    using nowrap_addr [of src "Suc n" n] s by simp
  show ?thesis
  proof (cases "src < dst \<and> dst < src + of_nat n")
    case True
    then have "unat src < unat dst" by (simp add: word_less_nat_alt)
    then have "copy_down m (dst + of_nat n) (src + of_nat n) n = mem_write m dst (mem_read m src n)"
      using s by (intro copy_down_eq) (auto simp: addr)
    with True False show ?thesis by (simp add: memmove_def)
  next
    case ov: False
    then have "unat dst \<le> unat src \<or> unat src + n \<le> unat dst"
      by (auto simp: word_less_nat_alt sn)
    then have "copy_up m dst src n = mem_write m dst (mem_read m src n)"
      using s by (intro copy_up_eq) (auto simp: addr)
    with ov False show ?thesis by (auto simp: memmove_def)
  qed
qed

subsection \<open>What the string functions compute\<close>

lemma strncmp_zero: "strncmp p q n = 0 \<longleftrightarrow> (\<forall>i<n. (\<forall>j<i. p j \<noteq> 0) \<longrightarrow> p i = q i)"
proof (induction n arbitrary: p q)
  case 0
  then show ?case by simp
next
  case (Suc n)
  show ?case
  proof (cases "p 0 \<noteq> 0 \<and> p 0 = q 0")
    case True
    then show ?thesis by (auto simp: Suc All_less_Suc2)
  next
    case False
    moreover have "uint (p 0) - uint (q 0) = 0 \<longleftrightarrow> p 0 = q 0"
      by (simp add: word_eq_iff_unsigned [where ?'a = int])
    ultimately show ?thesis by (auto simp: All_less_Suc2)
  qed
qed

lemma strncpy_pad_eq: "strncpy_pad s i n x = (if i \<le> x \<and> x < i + n then 0 else s x)"
  by (induction n arbitrary: s i) auto

lemma strncpy_loops:
  assumes "strncpy_copy s t i k = (s', i', k')"
  shows "strncpy_pad s' i' k' x =
     (if x < i \<or> i + k \<le> x then s x
      else if \<exists>j. i \<le> j \<and> j < x \<and> t j = 0 then 0 else t x)"
  using assms
proof (induction k arbitrary: s i)
  case 0
  then show ?case by auto
next
  case (Suc k)
  show ?case
  proof (cases "t i = 0")
    case True
    with Suc.prems show ?thesis by (cases "x = i") (auto simp: strncpy_pad_eq)
  next
    case False
    then have ex: "(\<exists>j\<ge>i. j < x \<and> t j = 0) \<longleftrightarrow> (\<exists>j\<ge>Suc i. j < x \<and> t j = 0)"
      by (metis Suc_leD Suc_leI le_neq_implies_less)
    have "strncpy_copy (s(i := t i)) t (Suc i) k = (s', i', k')" using Suc.prems False by simp
    from Suc.IH [OF this] show ?thesis unfolding ex by (cases "x = i") auto
  qed
qed

lemma strncpy_eq:
  "strncpy s t n i = (if nat n \<le> i then s i else if \<exists>j<i. t j = 0 then 0 else t i)"
proof -
  obtain s' i' k' where c: "strncpy_copy s t 0 (nat n) = (s', i', k')"
    by (metis prod_cases3)
  show ?thesis using strncpy_loops [OF c, of i] c by (simp add: strncpy_def)
qed

lemma strncpy_copy_stops:
  assumes "strncpy_copy s t i k = (s', i', k')" and "\<forall>j<i. s j = t j \<and> t j \<noteq> 0"
  shows "i \<le> i' \<and> i' \<le> i + k \<and> (\<forall>x. i' \<le> x \<longrightarrow> s' x = s x) \<and>
    (\<exists>e. i \<le> e \<and> (\<forall>j<e. s' j = t j \<and> t j \<noteq> 0) \<and>
       (e = i' \<and> i' = i + k \<or> Suc e = i' \<and> s' e = 0 \<and> t e = 0))"
  using assms
proof (induction k arbitrary: s i)
  case 0
  then show ?case by auto
next
  case (Suc k)
  show ?case
  proof (cases "t i = 0")
    case True
    with Suc.prems show ?thesis by (auto intro!: exI [of _ i])
  next
    case False
    with Suc.prems have "strncpy_copy (s(i := t i)) t (Suc i) k = (s', i', k')" by simp
    moreover have "\<forall>j<Suc i. (s(i := t i)) j = t j \<and> t j \<noteq> 0"
      using Suc.prems(2) False by (auto simp: less_Suc_eq)
    ultimately have IH: "Suc i \<le> i' \<and> i' \<le> Suc i + k \<and> (\<forall>x. i' \<le> x \<longrightarrow> s' x = (s(i := t i)) x) \<and>
      (\<exists>e. Suc i \<le> e \<and> (\<forall>j<e. s' j = t j \<and> t j \<noteq> 0) \<and>
         (e = i' \<and> i' = Suc i + k \<or> Suc e = i' \<and> s' e = 0 \<and> t e = 0))"
      by (rule Suc.IH)
    then obtain e where "Suc i \<le> e" "\<forall>j<e. s' j = t j \<and> t j \<noteq> 0"
      "e = i' \<and> i' = Suc i + k \<or> Suc e = i' \<and> s' e = 0 \<and> t e = 0" by blast
    then have "\<exists>e. i \<le> e \<and> (\<forall>j<e. s' j = t j \<and> t j \<noteq> 0) \<and>
         (e = i' \<and> i' = i + Suc k \<or> Suc e = i' \<and> s' e = 0 \<and> t e = 0)"
      by (intro exI [of _ e]) simp
    with IH show ?thesis by simp
  qed
qed

lemma strlen_found: "(\<forall>i<n. s i \<noteq> 0) \<Longrightarrow> s n = 0 \<Longrightarrow> k \<le> n \<Longrightarrow> strlen_loop s k = Some n"
proof (induction "n - k" arbitrary: k)
  case 0
  then show ?case by (subst strlen_loop.simps) auto
next
  case (Suc d)
  then have "k < n" by simp
  with Suc have "strlen_loop s (Suc k) = Some n" "s k \<noteq> 0" by auto
  then show ?case by (subst strlen_loop.simps) simp
qed

lemma strlen_loop_None: "\<forall>i. s i \<noteq> 0 \<Longrightarrow> strlen_loop s k = None"
proof (rule ccontr)
  assume nz: "\<forall>i. s i \<noteq> 0" and "strlen_loop s k \<noteq> None"
  then obtain n where ret: "strlen_loop s k = Some n" by auto
  have "s n = 0"
    by (rule strlen_loop.raw_induct [where P = "\<lambda>s k n. s n = 0", OF _ ret])
       (auto split: if_splits)
  with nz show False by simp
qed

lemma strlen_Some: "strlen s = Some n \<longleftrightarrow> s n = 0 \<and> (\<forall>i<n. s i \<noteq> 0)"
proof
  assume r: "strlen s = Some n"
  show "s n = 0 \<and> (\<forall>i<n. s i \<noteq> 0)"
  proof (cases "\<exists>i. s i = 0")
    case True
    define k where "k = (LEAST i. s i = 0)"
    have "s k = 0" "\<forall>i<k. s i \<noteq> 0"
      unfolding k_def using True by (auto intro: LeastI dest: not_less_Least)
    then have "strlen s = Some k" by (simp add: strlen_def strlen_found)
    with r \<open>s k = 0\<close> \<open>\<forall>i<k. s i \<noteq> 0\<close> show ?thesis by simp
  next
    case False
    with r show ?thesis by (simp add: strlen_def strlen_loop_None)
  qed
qed (auto simp: strlen_def strlen_found)

subsection \<open>Properties\<close>

text \<open>
  C31. \<^verbatim>\<open>memmove\<close> copies correctly whatever the overlap of source and destination: the result is
  the memory with the destination range set to the bytes the source range held before the call,
  and every other byte unchanged. The hypotheses say that neither range runs past the end of the
  address space.
\<close>

theorem memmove_correct:
  assumes "unat src + n < 2 ^ 64" and "unat dst + n < 2 ^ 64"
  shows "mem_read (memmove m dst src n) dst n = mem_read m src n
    \<and> (\<forall>a. n \<le> unat (a - dst) \<longrightarrow> memmove m dst src n a = m a)"
proof -
  have "mem_read (mem_write m dst (mem_read m src n)) dst (length (mem_read m src n))
      = mem_read m src n"
    using assms by (intro mem_read_write_same) simp
  then show ?thesis using assms by (simp add: memmove_eq mem_write_def)
qed

theorem memmove_correct_witness:
  "mem_read (memmove (\<lambda>a. ucast a) 102 100 4) 102 4 = [100, 101, 102, 103]"
proof -
  have "mem_read (memmove (\<lambda>a. ucast a) 102 100 4) 102 4 = mem_read (\<lambda>a. ucast a) 100 4"
    using memmove_correct [of 100 4 102 "\<lambda>a. ucast a"] by simp
  then show ?thesis by (simp add: mem_read_def upt_rec)
qed

text \<open>
  \<^verbatim>\<open>safestrcpy\<close> with a positive size \<open>n\<close> always leaves a terminated string: some index below
  \<open>n\<close> holds the NUL, before it stand the source's bytes, the copy is cut short only when the
  source has no NUL in its first \<open>n - 1\<close> bytes, and no byte at or beyond \<open>n\<close> is written.
\<close>

theorem safestrcpy_terminates:
  assumes "0 < n"
  shows "\<exists>e<nat n. safestrcpy s t n e = 0
    \<and> (\<forall>i<e. safestrcpy s t n i = t i \<and> t i \<noteq> 0)
    \<and> (e = nat n - 1 \<or> t e = 0)
    \<and> (\<forall>i. nat n \<le> i \<longrightarrow> safestrcpy s t n i = s i)"
proof -
  obtain s' i' k' where c: "strncpy_copy s t 0 (nat (n - 1)) = (s', i', k')"
    by (metis prod_cases3)
  have r: "safestrcpy s t n = s'(i' := 0)" using assms c by (simp add: safestrcpy_def)
  from strncpy_copy_stops [OF c] obtain e where
    b: "i' \<le> nat (n - 1)" "\<forall>x. i' \<le> x \<longrightarrow> s' x = s x" and
    e: "\<forall>j<e. s' j = t j \<and> t j \<noteq> 0"
       "e = i' \<and> i' = nat (n - 1) \<or> Suc e = i' \<and> s' e = 0 \<and> t e = 0"
    by auto
  show ?thesis
    using assms b e by (intro exI [of _ e]) (auto simp: r nat_diff_distrib)
qed

theorem safestrcpy_terminates_witness:
  "\<exists>e<nat 3. safestrcpy (arr [9, 9, 9, 9]) (arr [1, 2, 3, 4]) 3 e = 0
     \<and> safestrcpy (arr [9, 9, 9, 9]) (arr [1, 2, 3, 4]) 3 3 = 9"
proof -
  have "(0::int) < 3" by simp
  from safestrcpy_terminates [OF this, of "arr [9, 9, 9, 9]" "arr [1, 2, 3, 4]"]
  show ?thesis by (auto simp: arr_def)
qed

end
