(* ===== verification/Kalloc.thy ===== *)
theory Kalloc
  imports Memory
begin

section \<open>Physical page allocator\<close>

text \<open>
  \<^verbatim>\<open>kernel/kalloc.c\<close>. The state adds physical memory, the head of the free list and the linker's
  symbol \<^verbatim>\<open>end\<close> (the first address after the kernel, which depends on the build). The free list
  is the one of the source: a free page's first eight bytes hold the address of the next one.
  \<open>freelist_rep\<close> relates it to a list of pages, and the locale \<open>page_allocator\<close> states what the
  rest of the kernel relies on.
\<close>

record kmem_state = machine +
  mem :: memory
  freelist :: uint64
  kend :: uint64

definition PGROUNDUP :: "uint64 \<Rightarrow> uint64" where
  "PGROUNDUP sz = and (sz + 4096 - 1) (not (4096 - 1))"

definition PGROUNDDOWN :: "uint64 \<Rightarrow> uint64" where
  "PGROUNDDOWN a = and a (not (4096 - 1))"

definition set_mem :: "(memory \<Rightarrow> memory) \<Rightarrow> ('z kmem_state_scheme, unit) km" where
  "set_mem f = kmod (\<lambda>s. s\<lparr>mem := f (mem s)\<rparr>)"

subsection \<open>Operations\<close>

definition kfree :: "uint64 \<Rightarrow> ('z kmem_state_scheme, unit) km" where
  "kfree pa =
     kbind (kget kend) (\<lambda>e.
     kdo [kwhen (pa mod 4096 \<noteq> 0 \<or> pa < e \<or> PHYSTOP \<le> pa) (panic ''kfree''),
          set_mem (\<lambda>m. memset m pa 1 PGSIZE),
          with_lock Lk_kmem (kdo [
            kmod (\<lambda>s. s\<lparr>mem := store64 (mem s) pa (freelist s)\<rparr>),
            kmod (\<lambda>s. s\<lparr>freelist := pa\<rparr>)])])"

definition kalloc :: "('z kmem_state_scheme, uint64) km" where
  "kalloc =
     kbind (with_lock Lk_kmem (
       kbind (kget freelist) (\<lambda>r.
       kseq (kwhen (r \<noteq> 0) (kmod (\<lambda>s. s\<lparr>freelist := load64 (mem s) r\<rparr>)))
            (kret r)))) (\<lambda>r.
     kseq (kwhen (r \<noteq> 0) (set_mem (\<lambda>m. memset m r 5 PGSIZE)))
          (kret r))"

text \<open>The values of \<open>p\<close> in the loop \<^verbatim>\<open>for(; p + PGSIZE <= pa_end; p += PGSIZE)\<close>.\<close>

definition page_seq :: "uint64 \<Rightarrow> uint64 \<Rightarrow> uint64 list" where
  "page_seq p pa_end =
     map (\<lambda>i. p + of_nat (i * 4096)) [0..<(unat pa_end - unat p) div 4096]"

definition freerange :: "uint64 \<Rightarrow> uint64 \<Rightarrow> ('z kmem_state_scheme, unit) km" where
  "freerange pa_start pa_end = kiter kfree (page_seq (PGROUNDUP pa_start) pa_end)"

definition kinit :: "('z kmem_state_scheme, unit) km" where
  "kinit =
     kseq (initlock Lk_kmem ''kmem'')
          (kbind (kget kend) (\<lambda>e. freerange e PHYSTOP))"

subsection \<open>Machine operations and the new fields\<close>

lemma kmem_touch [simp]:
  "mem (touch s) = mem s" "freelist (touch s) = freelist s" "kend (touch s) = kend s"
  "touch (s\<lparr>mem := m\<rparr>) = (touch s)\<lparr>mem := m\<rparr>"
  "touch (s\<lparr>freelist := f\<rparr>) = (touch s)\<lparr>freelist := f\<rparr>"
  by (simp_all add: touch_def)

lemma kmem_entered [simp]:
  "mem (entered lk s) = mem s" "freelist (entered lk s) = freelist s"
  "kend (entered lk s) = kend s"
  "entered lk (s\<lparr>mem := m\<rparr>) = (entered lk s)\<lparr>mem := m\<rparr>"
  "entered lk (s\<lparr>freelist := f\<rparr>) = (entered lk s)\<lparr>freelist := f\<rparr>"
  by (simp_all add: entered_def)

lemma kmem_left [simp]:
  "mem (left lk s) = mem s" "freelist (left lk s) = freelist s" "kend (left lk s) = kend s"
  "left lk (s\<lparr>mem := m\<rparr>) = (left lk s)\<lparr>mem := m\<rparr>"
  "left lk (s\<lparr>freelist := f\<rparr>) = (left lk s)\<lparr>freelist := f\<rparr>"
  by (simp_all add: left_def)

lemma kmem_held [simp]:
  "held (s\<lparr>mem := m\<rparr>) = held s" "held (s\<lparr>freelist := f\<rparr>) = held s"
  by (simp_all add: held_def lock_mine_def)

lemma kmem_holds [simp]:
  "holds H (s\<lparr>mem := m\<rparr>) = holds H s" "holds H (s\<lparr>freelist := f\<rparr>) = holds H s"
  by (simp_all add: holds_def lock_mine_def lock_free_def)

lemma kmem_lkok [simp]:
  "lkok (s\<lparr>mem := m\<rparr>) = lkok s" "lkok (s\<lparr>freelist := f\<rparr>) = lkok s"
  by (simp_all add: lkok_def)

subsection \<open>Pages\<close>

definition aligned :: "uint64 \<Rightarrow> bool" where
  "aligned p \<longleftrightarrow> 4096 dvd unat p"

lemma aligned_mod: "p mod 4096 = 0 \<longleftrightarrow> aligned p"
  by (simp add: aligned_def word_unat_eq_iff unat_mod dvd_eq_mod_eq_0)

lemma dvd_unat_diff:
  fixes p q :: uint64
  assumes "d dvd 2 ^ 64" "d dvd unat p" "d dvd unat q"
  shows "d dvd unat (p - q)"
proof -
  have "d dvd (2 ^ 64 + unat p - unat q) mod 2 ^ 64"
    using assms unat64_less [of q] by (intro dvd_mod dvd_diff_nat dvd_add) auto
  moreover have "unat (p - q) = (2 ^ 64 + unat p - unat q) mod 2 ^ 64"
    using unat64_less [of p] unat64_less [of q] by (auto simp: unat_sub_if' mod_if)
  ultimately show ?thesis by simp
qed

text \<open>Different multiples of \<open>d\<close> are at least \<open>d\<close> apart, also across the wrap-around.\<close>

lemma dvd_apart:
  fixes p q :: uint64
  assumes d: "d dvd 2 ^ 64" and "d dvd unat p" "d dvd unat q" "p \<noteq> q" "i < d"
  shows "d \<le> unat (p + of_nat i - q)"
proof -
  let ?x = "p - q"
  have "d dvd unat ?x" and "?x \<noteq> 0" using assms by (auto intro: dvd_unat_diff)
  then obtain k where k: "unat ?x = d * k" by (auto simp: dvd_def)
  with \<open>?x \<noteq> 0\<close> have k0: "0 < k" by (cases k) (auto simp: unat_eq_0)
  obtain n where n: "2 ^ 64 = d * n" using d by (auto simp: dvd_def)
  have "d * k < d * n" using unat64_less [of ?x] k n by simp
  then have "k + 1 \<le> n" by simp
  then have "d * (k + 1) \<le> d * n" by (rule mult_le_mono2)
  then have lt: "d * k + i < 2 ^ 64" using assms(5) n by simp
  then have "unat (of_nat i :: uint64) = i" by (simp add: unat_of_nat take_bit_nat_eq_self)
  with lt k have "unat (?x + of_nat i) = d * k + i" by (simp add: unat_word_ariths)
  moreover have "p + of_nat i - q = ?x + of_nat i" by (simp add: algebra_simps)
  ultimately have "unat (p + of_nat i - q) = d * k + i" by metis
  moreover have "d \<le> d * k" using k0 by (cases k) auto
  ultimately show ?thesis by linarith
qed
lemma pages_disjoint:
  "aligned p \<Longrightarrow> aligned q \<Longrightarrow> p \<noteq> q \<Longrightarrow> i < 4096 \<Longrightarrow> 4096 \<le> unat (p + of_nat i - q)"
  unfolding aligned_def by (rule dvd_apart) simp_all

lemma disjoint_pages:
  "aligned p \<Longrightarrow> aligned q \<Longrightarrow> p \<noteq> q \<Longrightarrow> n \<le> 4096 \<Longrightarrow> k \<le> 4096 \<Longrightarrow> disjoint_range p n q k"
  unfolding disjoint_range_def by (meson pages_disjoint less_le_trans le_trans)

lemma PGROUNDDOWN_shift: "PGROUNDDOWN a = push_bit 12 (drop_bit 12 a)"
proof -
  have m: "(4096 - 1 :: uint64) = mask 12" by (simp add: mask_eq_exp_minus_1)
  show ?thesis
    unfolding PGROUNDDOWN_def m
    by (rule bit_word_eqI) (auto simp: bit_simps simp del: mask_numeral)
qed

lemma unat_PGROUNDDOWN: "unat (PGROUNDDOWN a) = unat a div 4096 * 4096"
proof -
  have "unat (drop_bit 12 a) = unat a div 4096"
    by (simp add: drop_bit_eq_div unat_div)
  moreover have "unat a div 4096 * 4096 < 2 ^ 64"
    using unat64_less [of a] by (meson div_times_less_eq_dividend le_less_trans)
  ultimately show ?thesis
    by (simp add: PGROUNDDOWN_shift push_bit_eq_mult unat_word_ariths)
qed

lemma PGROUNDUP_DOWN: "PGROUNDUP x = PGROUNDDOWN (x + 4095)"
  by (simp add: PGROUNDUP_def PGROUNDDOWN_def add.commute)

lemma aligned_PGROUNDDOWN [simp]: "aligned (PGROUNDDOWN a)"
  by (simp add: aligned_def unat_PGROUNDDOWN)

lemma aligned_PGROUNDUP [simp]: "aligned (PGROUNDUP a)"
  by (simp add: PGROUNDUP_DOWN)

lemma PGROUNDDOWN_aligned [simp]: "aligned a \<Longrightarrow> PGROUNDDOWN a = a"
  by (simp add: word_unat_eq_iff unat_PGROUNDDOWN aligned_def)

lemma unat_PGROUNDUP:
  assumes "unat x + 4095 < 2 ^ 64"
  shows "unat (PGROUNDUP x) = (unat x + 4095) div 4096 * 4096"
  using assms by (simp add: PGROUNDUP_DOWN unat_PGROUNDDOWN unat_word_ariths)

subsection \<open>The free list\<close>

fun freelist_rep :: "memory \<Rightarrow> uint64 \<Rightarrow> uint64 list \<Rightarrow> bool" where
  "freelist_rep m p [] \<longleftrightarrow> p = 0"
| "freelist_rep m p (x # xs) \<longleftrightarrow> p = x \<and> x \<noteq> 0 \<and> freelist_rep m (load64 m x) xs"

definition page_ok :: "uint64 \<Rightarrow> uint64 \<Rightarrow> bool" where
  "page_ok e p \<longleftrightarrow> aligned p \<and> e \<le> p \<and> p < PHYSTOP"

definition kmem_inv :: "'z kmem_state_scheme \<Rightarrow> uint64 list \<Rightarrow> bool" where
  "kmem_inv s ps \<longleftrightarrow>
     freelist_rep (mem s) (freelist s) ps \<and> distinct ps \<and> 0 < kend s \<and>
     (\<forall>p\<in>set ps. page_ok (kend s) p)"

lemma kmem_inv_touch [simp]: "kmem_inv (touch s) ps = kmem_inv s ps"
  by (simp add: kmem_inv_def)

lemma freelist_rep_cong:
  "(\<And>p. p \<in> set ps \<Longrightarrow> load64 m' p = load64 m p) \<Longrightarrow>
     freelist_rep m' x ps = freelist_rep m x ps"
  by (induction ps arbitrary: x) auto

lemma freelist_rep_unique: "freelist_rep m x ps \<Longrightarrow> freelist_rep m x qs \<Longrightarrow> ps = qs"
proof (induction ps arbitrary: x qs)
  case Nil
  then show ?case by (cases qs) auto
next
  case (Cons p ps)
  then show ?case by (cases qs) auto
qed

lemma page_ok_nonzero: "kmem_inv s ps \<Longrightarrow> page_ok (kend s) p \<Longrightarrow> p \<noteq> 0"
  by (auto simp: kmem_inv_def page_ok_def)

text \<open>Filling or linking one page leaves the links stored in other pages alone.\<close>

lemma load64_memset_other:
  "aligned p \<Longrightarrow> aligned q \<Longrightarrow> p \<noteq> q \<Longrightarrow> load64 (memset m q c PGSIZE) p = load64 m p"
  by (simp add: memset_eq PGSIZE_def load64_write_other disjoint_pages)

lemma load64_store64_other:
  "aligned p \<Longrightarrow> aligned q \<Longrightarrow> p \<noteq> q \<Longrightarrow> load64 (store64 m q w) p = load64 m p"
  by (simp add: store64_def load64_write_other disjoint_pages)

definition kfreed :: "uint64 \<Rightarrow> 'z kmem_state_scheme \<Rightarrow> 'z kmem_state_scheme" where
  "kfreed pa s =
     (touch s)\<lparr>mem := store64 (memset (mem s) pa 1 PGSIZE) pa (freelist s), freelist := pa\<rparr>"

definition kalloced :: "uint64 \<Rightarrow> 'z kmem_state_scheme \<Rightarrow> 'z kmem_state_scheme" where
  "kalloced p s =
     (touch s)\<lparr>freelist := load64 (mem s) p, mem := memset (mem s) p 5 PGSIZE\<rparr>"

lemma kfree_eq:
  assumes "holds H s" "Lk_kmem \<notin> H" "page_ok (kend s) pa"
  shows "kfree pa s = Ret () (kfreed pa s)"
proof -
  have h: "holds H (s\<lparr>mem := memset (mem s) pa 1 PGSIZE\<rparr>)" using assms(1) by simp
  have c: "\<not> (pa mod 4096 \<noteq> 0 \<or> pa < kend s \<or> PHYSTOP \<le> pa)"
    using assms(3) by (auto simp: page_ok_def aligned_mod)
  show ?thesis
    using assms(1,2) h c
    by (simp add: kfree_def set_mem_def kfreed_def with_lock_eq [OF h])
qed

lemma kfree_bad:
  assumes "\<not> page_ok (kend s) pa"
  shows "kfree pa s = Halt (Panic ''kfree'') s"
  using assms by (auto simp: kfree_def page_ok_def aligned_mod)

lemma kalloc_eq:
  assumes "holds H s" "Lk_kmem \<notin> H"
  shows "kalloc s = (if freelist s = 0 then Ret 0 (touch s)
                     else Ret (freelist s) (kalloced (freelist s) s))"
  using assms by (auto simp: kalloc_def kalloced_def set_mem_def with_lock_eq [OF assms])

lemma kfreed_inv:
  assumes "kmem_inv s ps" "page_ok (kend s) pa" "pa \<notin> set ps"
  shows "kmem_inv (kfreed pa s) (pa # ps)"
proof -
  have ok: "aligned p" "p \<noteq> pa" if "p \<in> set ps" for p
    using assms that by (auto simp: kmem_inv_def page_ok_def)
  have "aligned pa" using assms(2) by (simp add: page_ok_def)
  with ok have "freelist_rep (store64 (memset (mem s) pa 1 PGSIZE) pa (freelist s)) (freelist s) ps
      = freelist_rep (mem s) (freelist s) ps"
    by (intro freelist_rep_cong) (simp add: load64_store64_other load64_memset_other)
  then show ?thesis
    using assms page_ok_nonzero [OF assms(1,2)] by (auto simp: kmem_inv_def kfreed_def)
qed

lemma kalloced_inv:
  assumes "kmem_inv s (p # ps)"
  shows "kmem_inv (kalloced p s) ps"
proof -
  have ok: "aligned q" "q \<noteq> p" if "q \<in> set ps" for q
    using assms that by (auto simp: kmem_inv_def page_ok_def)
  have "aligned p" using assms by (simp add: kmem_inv_def page_ok_def)
  with ok have "freelist_rep (memset (mem s) p 5 PGSIZE) (load64 (mem s) p) ps
      = freelist_rep (mem s) (load64 (mem s) p) ps"
    by (intro freelist_rep_cong) (simp add: load64_memset_other)
  then show ?thesis using assms by (auto simp: kmem_inv_def kalloced_def)
qed

lemma kend_alloc_free [simp]:
  "kend (kfreed pa s) = kend s" "kend (kalloced p s) = kend s"
  "holds H (kfreed pa s) = holds H s" "holds H (kalloced p s) = holds H s"
  by (simp_all add: kfreed_def kalloced_def)

subsection \<open>The interface\<close>

text \<open>
  \<open>avail s ps\<close>: the allocator's free pages are \<open>ps\<close>, the next one to be handed out first.
  \<open>valid s p\<close>: \<open>p\<close> is a page the allocator may be given.
\<close>

locale page_allocator =
  fixes alloc :: "('s, uint64) km"
    and free :: "uint64 \<Rightarrow> ('s, unit) km"
    and avail :: "'s \<Rightarrow> uint64 list \<Rightarrow> bool"
    and valid :: "'s \<Rightarrow> uint64 \<Rightarrow> bool"
  assumes alloc_empty: "avail s [] \<Longrightarrow> \<exists>t. alloc s = Ret 0 t \<and> avail t [] \<and> valid t = valid s"
    and alloc_page: "avail s (p # ps) \<Longrightarrow> \<exists>t. alloc s = Ret p t \<and> avail t ps \<and> valid t = valid s"
    and free_page: "avail s ps \<Longrightarrow> valid s p \<Longrightarrow> p \<notin> set ps \<Longrightarrow>
      \<exists>t. free p s = Ret () t \<and> avail t (p # ps) \<and> valid t = valid s"
    and avail_distinct: "avail s ps \<Longrightarrow> distinct ps"
    and avail_valid: "avail s ps \<Longrightarrow> p \<in> set ps \<Longrightarrow> valid s p \<and> p \<noteq> 0"
begin

lemma alloc_many:
  "avail s ps \<Longrightarrow> n \<le> length ps \<Longrightarrow>
     \<exists>t. krepeat n alloc s = Ret (take n ps) t \<and> avail t (drop n ps) \<and> valid t = valid s"
proof (induction n arbitrary: s ps)
  case 0
  then show ?case by simp
next
  case (Suc n)
  then obtain p qs where ps: "ps = p # qs" by (cases ps) auto
  with Suc.prems(1) obtain t where t: "alloc s = Ret p t" "avail t qs" "valid t = valid s"
    using alloc_page by blast
  from Suc.IH [OF t(2)] Suc.prems(2) ps obtain u where
    "krepeat n alloc t = Ret (take n qs) u" "avail u (drop n qs)" "valid u = valid t" by auto
  with t ps show ?case by simp
qed

lemma alloc_fresh:
  assumes "avail s ps" "n \<le> length ps"
  shows "\<exists>xs t. krepeat n alloc s = Ret xs t \<and> length xs = n \<and> distinct xs \<and> 0 \<notin> set xs
    \<and> (\<forall>p\<in>set xs. valid s p) \<and> avail t (drop n ps) \<and> set xs \<inter> set (drop n ps) = {}"
proof -
  from alloc_many [OF assms] obtain t where
    t: "krepeat n alloc s = Ret (take n ps) t" "avail t (drop n ps)" by blast
  have "distinct ps" using assms(1) by (rule avail_distinct)
  then have "set (take n ps) \<inter> set (drop n ps) = {}" by (rule set_take_disj_set_drop_if_distinct) simp
  moreover have "\<forall>p\<in>set (take n ps). valid s p \<and> p \<noteq> 0"
    using avail_valid [OF assms(1)] by (meson in_set_takeD)
  ultimately show ?thesis using t assms(2) \<open>distinct ps\<close>
    by (intro exI [of _ "take n ps"] exI [of _ t]) auto
qed

lemma free_then_alloc:
  assumes "avail s ps" "valid s p" "p \<notin> set ps"
  shows "\<exists>t u. free p s = Ret () t \<and> alloc t = Ret p u \<and> avail u ps"
  using free_page [OF assms] alloc_page by blast

lemma free_many:
  assumes "avail s ps" "distinct qs" "set qs \<inter> set ps = {}" "\<forall>q\<in>set qs. valid s q"
  shows "\<exists>t. kiter free qs s = Ret () t \<and> avail t (rev qs @ ps) \<and> valid t = valid s"
  using assms
proof (induction qs arbitrary: s ps)
  case Nil
  then show ?case by simp
next
  case (Cons q qs)
  then obtain t where t: "free q s = Ret () t" "avail t (q # ps)" "valid t = valid s"
    using free_page [of s ps q] by auto
  moreover have "\<exists>u. kiter free qs t = Ret () u \<and> avail u (rev qs @ q # ps) \<and> valid u = valid t"
    using Cons.prems t by (intro Cons.IH) auto
  ultimately show ?case by auto
qed

end

definition kavail :: "lockid set \<Rightarrow> 'z kmem_state_scheme \<Rightarrow> uint64 list \<Rightarrow> bool" where
  "kavail H s ps \<longleftrightarrow> Lk_kmem \<notin> H \<and> holds H s \<and> kmem_inv s ps"

interpretation km: page_allocator kalloc kfree "kavail H" "\<lambda>s. page_ok (kend s)" for H
proof
  fix s :: "'a kmem_state_scheme" and p ps
  show "\<exists>t. kalloc s = Ret 0 t \<and> kavail H t [] \<and> page_ok (kend t) = page_ok (kend s)"
    if "kavail H s []"
    using that by (auto simp: kavail_def kalloc_eq kmem_inv_def)
  show "\<exists>t. kalloc s = Ret p t \<and> kavail H t ps \<and> page_ok (kend t) = page_ok (kend s)"
    if "kavail H s (p # ps)"
    using that kalloced_inv [of s p ps] by (auto simp: kavail_def kalloc_eq kmem_inv_def)
  show "\<exists>t. kfree p s = Ret () t \<and> kavail H t (p # ps) \<and> page_ok (kend t) = page_ok (kend s)"
    if "kavail H s ps" "page_ok (kend s) p" "p \<notin> set ps"
    using that by (auto simp: kavail_def kfree_eq kfreed_inv)
  show "distinct ps" if "kavail H s ps"
    using that by (auto simp: kavail_def kmem_inv_def)
  show "page_ok (kend s) p \<and> p \<noteq> 0" if "kavail H s ps" "p \<in> set ps"
    using that page_ok_nonzero [of s ps p] by (auto simp: kavail_def kmem_inv_def)
qed

subsection \<open>The initial free list\<close>

lemma unat_PHYSTOP: "unat PHYSTOP = 2281701376"
  by (simp add: PHYSTOP_def KERNBASE_def)

lemma page_seq_nth:
  fixes p e :: uint64
  assumes "i < (unat e - unat p) div 4096"
  shows "unat (p + of_nat (i * 4096)) = unat p + i * 4096"
proof -
  have "i * 4096 < unat e - unat p" using assms by (simp add: less_eq_div_iff_mult_less_eq less_mult_imp_div_less)
  then have "unat p + i * 4096 < 2 ^ 64" using unat64_less [of e] by simp
  then show ?thesis by (simp add: unat_word_ariths unat_of_nat take_bit_nat_eq_self)
qed

lemma page_seq_distinct: "distinct (page_seq p e)"
proof -
  have "inj_on (\<lambda>i. p + of_nat (i * 4096)) {0..<(unat e - unat p) div 4096}"
  proof (rule inj_onI)
    fix i j assume "i \<in> {0..<(unat e - unat p) div 4096}" "j \<in> {0..<(unat e - unat p) div 4096}"
      and "p + of_nat (i * 4096) = p + of_nat (j * 4096)"
    then have "unat p + i * 4096 = unat p + j * 4096"
      using page_seq_nth [of i e p] page_seq_nth [of j e p] by (metis atLeastLessThan_iff)
    then show "i = j" by simp
  qed
  then show ?thesis by (simp add: page_seq_def distinct_map)
qed

lemma set_page_seq:
  assumes "aligned p" "aligned e"
  shows "set (page_seq p e) = {q. aligned q \<and> p \<le> q \<and> q < e}"
proof (rule set_eqI)
  fix q
  show "q \<in> set (page_seq p e) \<longleftrightarrow> q \<in> {q. aligned q \<and> p \<le> q \<and> q < e}"
  proof
    assume "q \<in> set (page_seq p e)"
    then obtain i where i: "i < (unat e - unat p) div 4096" and q: "q = p + of_nat (i * 4096)"
      by (auto simp: page_seq_def)
    have "i * 4096 < unat e - unat p" using i by (simp add: less_mult_imp_div_less)
    then show "q \<in> {q. aligned q \<and> p \<le> q \<and> q < e}"
      using page_seq_nth [OF i] assms unfolding q
      by (simp add: aligned_def word_le_nat_alt word_less_nat_alt del: of_nat_mult)
  next
    assume "q \<in> {q. aligned q \<and> p \<le> q \<and> q < e}"
    then have q: "4096 dvd unat q" "unat p \<le> unat q" "unat q < unat e"
      by (auto simp: aligned_def word_le_nat_alt word_less_nat_alt)
    then obtain i where i: "unat q - unat p = i * 4096"
      using assms(1) by (metis aligned_def dvd_diff_nat dvd_div_mult_self)
    obtain k where k: "unat e - unat p = k * 4096"
      using assms by (metis aligned_def dvd_diff_nat dvd_div_mult_self)
    have lt: "i < (unat e - unat p) div 4096" using q i k by auto
    have "unat q = unat (p + of_nat (i * 4096))" using page_seq_nth [OF lt] q i by simp
    then have "q = p + of_nat (i * 4096)" by (simp only: word_unat_eq_iff)
    then show "q \<in> set (page_seq p e)" using lt by (auto simp: page_seq_def)
  qed
qed

lemma le_PGROUNDUP:
  assumes "unat x + 4095 < 2 ^ 64" "aligned q"
  shows "PGROUNDUP x \<le> q \<longleftrightarrow> x \<le> q"
proof -
  obtain k where k: "unat q = k * 4096" using assms(2) by (metis aligned_def dvd_div_mult_self)
  have "(unat x + 4095) div 4096 * 4096 \<le> k * 4096 \<longleftrightarrow> unat x \<le> k * 4096" by simp linarith
  then show ?thesis using assms(1) k by (simp add: word_le_nat_alt unat_PGROUNDUP)
qed

lemma set_free_pages:
  assumes "kend (s :: 'z kmem_state_scheme) \<le> PHYSTOP"
  shows "set (page_seq (PGROUNDUP (kend s)) PHYSTOP) = {p. page_ok (kend s) p}"
proof -
  have "unat (kend s) + 4095 < 2 ^ 64"
    using assms by (simp add: word_le_nat_alt unat_PHYSTOP)
  moreover have "aligned PHYSTOP" by (simp add: aligned_def unat_PHYSTOP)
  ultimately show ?thesis by (auto simp: set_page_seq le_PGROUNDUP page_ok_def)
qed

lemma kavail_initlock:
  assumes "holds {} s" "freelist s = 0" "0 < kend s"
  shows "\<exists>t. initlock Lk_kmem ''kmem'' s = Ret () t \<and> kavail {} t [] \<and> kend t = kend s"
  using assms by (auto simp: initlock_def upd_lock_def kavail_def kmem_inv_def holds_def lock_free_def)

subsection \<open>Properties\<close>

definition kmem_ex :: kmem_state where
  "kmem_ex =
     \<lparr>locks = (\<lambda>_. \<lparr>locked = False, lkname = [], lkcpu = None\<rparr>),
      cpus = (\<lambda>_. \<lparr>cproc = None, noff = 0, intena = False\<rparr>),
      sie = (\<lambda>_. False), tp = 0,
      mem = (\<lambda>_. 0), freelist = 0, kend = PHYSTOP - 9000\<rparr>"

lemma kmem_ex_holds [simp]: "holds {} kmem_ex"
  by (simp add: kmem_ex_def holds_def lock_free_def)

lemma kmem_ex_avail: "kavail {} (kfreed 0x87ffe000 kmem_ex) [0x87ffe000]"
proof -
  have "kmem_inv kmem_ex []" by (simp add: kmem_inv_def kmem_ex_def PHYSTOP_def KERNBASE_def)
  moreover have "page_ok (kend kmem_ex) 0x87ffe000"
    by (simp add: page_ok_def kmem_ex_def PHYSTOP_def KERNBASE_def aligned_def)
  ultimately show ?thesis using kfreed_inv [of kmem_ex "[]"] by (simp add: kavail_def)
qed

text \<open>
  C25. Boot: \<^verbatim>\<open>kinit\<close>, run on a zeroed free list, returns with the free list holding, once each,
  exactly the page-aligned addresses from the end of the kernel image to \<^verbatim>\<open>PHYSTOP\<close>: no page is
  lost, none overlaps the kernel, and the lock is free again.
\<close>

theorem kinit_frees_all:
  assumes "holds {} s" "freelist s = 0" "0 < kend s" "kend s \<le> PHYSTOP"
  shows "\<exists>t ps. kinit s = Ret () t \<and> kavail {} t ps \<and> distinct ps
    \<and> set ps = {p. aligned p \<and> kend s \<le> p \<and> p < PHYSTOP}"
proof -
  obtain t where t: "initlock Lk_kmem ''kmem'' s = Ret () t" "kavail {} t []" "kend t = kend s"
    using kavail_initlock [OF assms(1-3)] by blast
  let ?qs = "page_seq (PGROUNDUP (kend t)) PHYSTOP"
  have qs: "set ?qs = {p. page_ok (kend t) p}" using assms(4) t(3) by (intro set_free_pages) simp
  have "\<exists>u. kiter kfree ?qs t = Ret () u \<and> kavail {} u (rev ?qs @ []) \<and>
      page_ok (kend u) = page_ok (kend t)"
    by (rule km.free_many [OF t(2) page_seq_distinct]) (simp_all add: qs)
  then obtain u where u: "kiter kfree ?qs t = Ret () u" "kavail {} u (rev ?qs)" by auto
  then have "kinit s = Ret () u" using t by (simp add: kinit_def freerange_def)
  then show ?thesis
    using u(2) qs t(3) by (intro exI [of _ u] exI [of _ "rev ?qs"])
      (auto simp: page_seq_distinct page_ok_def)
qed

theorem kinit_frees_all_witness:
  "\<exists>t ps. kinit kmem_ex = Ret () t \<and> kavail {} t ps \<and> distinct ps
    \<and> set ps = {p. aligned p \<and> 0x87ffdcd8 \<le> p \<and> p < PHYSTOP}"
proof -
  have e: "kend kmem_ex = 0x87ffdcd8" by (simp add: kmem_ex_def PHYSTOP_def KERNBASE_def)
  have "freelist kmem_ex = 0" by (simp add: kmem_ex_def)
  moreover have "0 < kend kmem_ex" "kend kmem_ex \<le> PHYSTOP"
    by (simp_all add: e PHYSTOP_def KERNBASE_def)
  ultimately show ?thesis using kinit_frees_all [of kmem_ex] unfolding e by simp
qed

text \<open>
  C26. Exclusive pages: while the free list holds at least \<open>n\<close> pages, \<open>n\<close> calls of \<^verbatim>\<open>kalloc\<close> all
  succeed and return \<open>n\<close> different, aligned, non-null pages between the kernel's end and
  \<^verbatim>\<open>PHYSTOP\<close>, none of which is still free afterwards; the rest of the list is as it was.
\<close>

theorem kalloc_exclusive:
  assumes "kavail H s ps" "n \<le> length ps"
  shows "\<exists>xs t. krepeat n kalloc s = Ret xs t \<and> length xs = n \<and> distinct xs \<and> 0 \<notin> set xs
    \<and> (\<forall>p\<in>set xs. aligned p \<and> kend s \<le> p \<and> p < PHYSTOP)
    \<and> kavail H t (drop n ps) \<and> set xs \<inter> set (drop n ps) = {}"
  using km.alloc_fresh [OF assms] by (simp add: page_ok_def)

theorem kalloc_exclusive_witness:
  "\<exists>xs t. krepeat 1 kalloc (kfreed 0x87ffe000 kmem_ex) = Ret xs t \<and> length xs = 1
    \<and> 0 \<notin> set xs \<and> kavail {} t []"
  using kalloc_exclusive [OF kmem_ex_avail, of 1] by auto

text \<open>
  \<^verbatim>\<open>kfree\<close> and \<^verbatim>\<open>kalloc\<close> are inverse, and \<^verbatim>\<open>kfree\<close> refuses what is not a page of the
  allocator: a misaligned address, one inside the kernel image or one at or above \<^verbatim>\<open>PHYSTOP\<close>
  panics and changes nothing; any other page that is not free is added, and the next \<^verbatim>\<open>kalloc\<close>
  returns it, filled with the byte 5, and restores the list.
\<close>

theorem kfree_kalloc:
  assumes "kavail H s ps" "p \<notin> set ps"
  shows "if aligned p \<and> kend s \<le> p \<and> p < PHYSTOP
    then \<exists>t u. kfree p s = Ret () t \<and> kavail H t (p # ps) \<and> kalloc t = Ret p u
      \<and> kavail H u ps \<and> mem_read (mem u) p PGSIZE = replicate PGSIZE 5
    else kfree p s = Halt (Panic ''kfree'') s"
proof (cases "page_ok (kend s) p")
  case True
  then obtain t where t: "kfree p s = Ret () t" "kavail H t (p # ps)"
    using km.free_page [OF assms(1) _ assms(2)] by blast
  then have k: "kalloc t = Ret p (kalloced p t)"
    by (auto simp: kavail_def kalloc_eq kmem_inv_def)
  have "kavail H (kalloced p t) ps" using t(2) by (auto simp: kavail_def intro: kalloced_inv)
  moreover have "mem_read (mem (kalloced p t)) p PGSIZE = replicate PGSIZE 5"
  proof -
    have n: "PGSIZE \<le> 2 ^ 64" by (simp add: PGSIZE_def)
    then have "length (replicate PGSIZE (5 :: uint8)) \<le> 2 ^ 64" by simp
    from mem_read_write_same [OF this] show ?thesis by (simp add: kalloced_def memset_eq [OF n])
  qed
  ultimately show ?thesis using True t k by (auto simp: page_ok_def)
next
  case False
  then show ?thesis by (auto simp: page_ok_def kfree_bad)
qed

theorem kfree_kalloc_witness:
  "kfree 12345 kmem_ex = Halt (Panic ''kfree'') kmem_ex \<and>
   (\<exists>t u. kfree 0x87fff000 (kfreed 0x87ffe000 kmem_ex) = Ret () t
      \<and> kalloc t = Ret 0x87fff000 u \<and> kavail {} u [0x87ffe000])"
proof -
  have 0: "kavail {} kmem_ex []"
    by (simp add: kavail_def kmem_inv_def kmem_ex_def PHYSTOP_def KERNBASE_def holds_def lock_free_def)
  have "kend (kfreed 0x87ffe000 kmem_ex) = PHYSTOP - 9000" by (simp add: kmem_ex_def)
  then show ?thesis
    using kfree_kalloc [OF 0, where p = "12345"] kfree_kalloc [OF kmem_ex_avail, where p = "0x87fff000"]
    by (auto simp: aligned_def PHYSTOP_def KERNBASE_def)
qed

end
