(* ===== verification/Proc.thy ===== *)
theory Proc
  imports Kalloc
begin

section \<open>Processes: the table, sleep and wakeup\<close>

text \<open>
  The part of \<^verbatim>\<open>kernel/proc.c\<close> that needs no page tables: the process table of
  \<^verbatim>\<open>kernel/proc.h\<close>, \<^verbatim>\<open>procinit\<close>, \<^verbatim>\<open>myproc\<close>, \<^verbatim>\<open>allocpid\<close>, \<^verbatim>\<open>sched\<close>, \<^verbatim>\<open>yield\<close>,
  \<^verbatim>\<open>sleep\<close>, \<^verbatim>\<open>wakeup\<close>, \<^verbatim>\<open>kkill\<close>, \<^verbatim>\<open>setkilled\<close>, \<^verbatim>\<open>killed\<close> and the choice of the next
  process in \<^verbatim>\<open>scheduler\<close>. A process is named by its index in the table. A call of \<^verbatim>\<open>swtch\<close>
  ends the run of the thread (\<open>Halt Switch\<close>) with the state the scheduler continues from; what
  the thread does once it is scheduled again is a definition of its own (\<open>sched_resume\<close>,
  \<open>sleep_resume\<close>). \<^verbatim>\<open>int\<close> fields that count or are copied to user memory keep their 32 bits.
\<close>

datatype procstate = UNUSED | USED | SLEEPING | RUNNABLE | RUNNING | ZOMBIE

record kcontext =
  ctx_ra :: uint64
  ctx_sp :: uint64
  callee_saved :: "uint64 list"

record proc =
  pstate :: procstate
  chan :: "chan option"
  killed_flag :: int
  xstate :: uint32
  pid :: uint32
  parent :: "nat option"
  kstack :: uint64
  psz :: uint64
  ppagetable :: uint64
  ptrapframe :: uint64
  pcontext :: kcontext
  ofile :: "nat \<Rightarrow> nat option"
  cwd :: "nat option"
  pname :: bytes

record proc_state = kmem_state +
  procs :: "nat \<Rightarrow> proc"
  nextpid :: uint32
  initproc :: "nat option"

definition MAXVA :: uint64 where "MAXVA = push_bit (9 + 9 + 9 + 12 - 1) 1"
definition TRAMPOLINE :: uint64 where "TRAMPOLINE = MAXVA - 4096"
definition TRAPFRAME :: uint64 where "TRAPFRAME = TRAMPOLINE - 4096"

definition KSTACK :: "nat \<Rightarrow> uint64" where
  "KSTACK p = TRAMPOLINE - (of_nat p + 1) * 2 * 4096"

definition upd_proc :: "nat \<Rightarrow> (proc \<Rightarrow> proc) \<Rightarrow> ('z proc_state_scheme, unit) km" where
  "upd_proc p f = kmod (\<lambda>s. s\<lparr>procs := (procs s)(p := f (procs s p))\<rparr>)"

subsection \<open>Operations\<close>

definition procinit :: "('z proc_state_scheme, unit) km" where
  "procinit = kdo [
     initlock Lk_pid ''nextpid'',
     initlock Lk_wait ''wait_lock'',
     kiter (\<lambda>p. kdo [
       initlock (Lk_proc p) ''proc'',
       upd_proc p (\<lambda>x. x\<lparr>pstate := UNUSED\<rparr>),
       upd_proc p (\<lambda>x. x\<lparr>kstack := KSTACK p\<rparr>)]) [0..<NPROC]]"

definition myproc :: "('z machine_scheme, nat option) km" where
  "myproc =
     kseq push_off (
     kbind mycpu (\<lambda>c.
     kbind (kget (\<lambda>s. cproc (cpus s c))) (\<lambda>p.
     kseq pop_off (kret p))))"

text \<open>\<^verbatim>\<open>struct proc *p = myproc()\<close> where the code goes on to dereference \<^verbatim>\<open>p\<close>.\<close>

definition curproc :: "('z machine_scheme, nat) km" where
  "curproc = kbind myproc (\<lambda>p. case p of None \<Rightarrow> khalt Fault | Some i \<Rightarrow> kret i)"

definition allocpid :: "('z proc_state_scheme, uint32) km" where
  "allocpid =
     with_lock Lk_pid (
       kbind (kget nextpid) (\<lambda>n.
       kseq (kmod (\<lambda>s. s\<lparr>nextpid := n + 1\<rparr>)) (kret n)))"

definition sched :: "('z proc_state_scheme, 'a) km" where
  "sched =
     kbind curproc (\<lambda>p.
     kbind (holding (Lk_proc p)) (\<lambda>h.
     kseq (kwhen (\<not> h) (panic ''sched p->lock'')) (
     kbind mycpu (\<lambda>c.
     kbind (kget (\<lambda>s. noff (cpus s c))) (\<lambda>n.
     kseq (kwhen (n \<noteq> 1) (panic ''sched locks'')) (
     kbind (kget (\<lambda>s. pstate (procs s p))) (\<lambda>st.
     kseq (kwhen (st = RUNNING) (panic ''sched RUNNING'')) (
     kbind intr_get (\<lambda>i.
     kseq (kwhen i (panic ''sched interruptible''))
          (khalt Switch))))))))))"

text \<open>After \<^verbatim>\<open>swtch\<close> comes back: the thread's own \<^verbatim>\<open>intena\<close> is put into the CPU it runs on now.\<close>

definition sched_resume :: "bool \<Rightarrow> ('z proc_state_scheme, unit) km" where
  "sched_resume i = kbind mycpu (\<lambda>c. upd_cpu c (\<lambda>x. x\<lparr>intena := i\<rparr>))"

text \<open>
  The statements of \<^verbatim>\<open>yield\<close> and \<^verbatim>\<open>sleep\<close> before and after the call of \<^verbatim>\<open>sched\<close>, as lists: another hart
  can run between any two of them.
\<close>

definition yield_code :: "nat \<Rightarrow> ('z proc_state_scheme, unit) km list" where
  "yield_code p = [acquire (Lk_proc p), upd_proc p (\<lambda>x. x\<lparr>pstate := RUNNABLE\<rparr>)]"

definition yield :: "('z proc_state_scheme, unit) km" where
  "yield = kbind curproc (\<lambda>p. kseq (kdo (yield_code p)) sched)"

definition yield_resume_code :: "bool \<Rightarrow> nat \<Rightarrow> ('z proc_state_scheme, unit) km list" where
  "yield_resume_code i p = [sched_resume i, release (Lk_proc p)]"

definition yield_resume :: "bool \<Rightarrow> nat \<Rightarrow> ('z proc_state_scheme, unit) km" where
  "yield_resume i p = kdo (yield_resume_code i p)"

definition sleep_code :: "nat \<Rightarrow> chan \<Rightarrow> lockid \<Rightarrow> ('z proc_state_scheme, unit) km list" where
  "sleep_code p c lk = [
     acquire (Lk_proc p),
     release lk,
     upd_proc p (\<lambda>x. x\<lparr>chan := Some c\<rparr>),
     upd_proc p (\<lambda>x. x\<lparr>pstate := SLEEPING\<rparr>)]"

definition sleep :: "chan \<Rightarrow> lockid \<Rightarrow> ('z proc_state_scheme, 'a) km" where
  "sleep c lk = kbind curproc (\<lambda>p. kseq (kdo (sleep_code p c lk)) sched)"

definition sleep_resume_code :: "bool \<Rightarrow> nat \<Rightarrow> lockid \<Rightarrow> ('z proc_state_scheme, unit) km list" where
  "sleep_resume_code i p lk = [
     sched_resume i,
     upd_proc p (\<lambda>x. x\<lparr>chan := None\<rparr>),
     release (Lk_proc p),
     acquire lk]"

definition sleep_resume :: "bool \<Rightarrow> nat \<Rightarrow> lockid \<Rightarrow> ('z proc_state_scheme, unit) km" where
  "sleep_resume i p lk = kdo (sleep_resume_code i p lk)"

text \<open>The body of the loop over the table in \<^verbatim>\<open>wakeup\<close>, and in \<^verbatim>\<open>kkill\<close>.\<close>

definition wakeup_code :: "chan option \<Rightarrow> nat \<Rightarrow> ('z proc_state_scheme, unit) km list" where
  "wakeup_code c p = [
     acquire (Lk_proc p),
     kbind (kget (\<lambda>s. procs s p)) (\<lambda>x.
       kwhen (pstate x = SLEEPING \<and> chan x = c) (upd_proc p (\<lambda>x. x\<lparr>pstate := RUNNABLE\<rparr>))),
     release (Lk_proc p)]"

definition wakeup_one :: "chan option \<Rightarrow> nat \<Rightarrow> ('z proc_state_scheme, unit) km" where
  "wakeup_one c p = kbind myproc (\<lambda>me. kwhen (Some p \<noteq> me) (kdo (wakeup_code c p)))"

definition wakeup :: "chan option \<Rightarrow> ('z proc_state_scheme, unit) km" where
  "wakeup c = kiter (wakeup_one c) [0..<NPROC]"

definition kkill_one :: "uint32 \<Rightarrow> nat \<Rightarrow> ('z proc_state_scheme, int option) km" where
  "kkill_one n p =
     with_lock (Lk_proc p) (
       kbind (kget (\<lambda>s. procs s p)) (\<lambda>x.
       if pid x = n
       then kseq (upd_proc p (\<lambda>x. x\<lparr>killed_flag := 1\<rparr>)) (
            kseq (kwhen (pstate x = SLEEPING) (upd_proc p (\<lambda>x. x\<lparr>pstate := RUNNABLE\<rparr>)))
                 (kret (Some 0)))
       else kret None))"

definition kkill :: "uint32 \<Rightarrow> ('z proc_state_scheme, int) km" where
  "kkill n =
     kbind (kscan (kkill_one n) [0..<NPROC]) (\<lambda>r.
     kret (case r of Some v \<Rightarrow> v | None \<Rightarrow> -1))"

definition setkilled :: "nat \<Rightarrow> ('z proc_state_scheme, unit) km" where
  "setkilled p = with_lock (Lk_proc p) (upd_proc p (\<lambda>x. x\<lparr>killed_flag := 1\<rparr>))"

definition killed :: "nat \<Rightarrow> ('z proc_state_scheme, int) km" where
  "killed p = with_lock (Lk_proc p) (kget (\<lambda>s. killed_flag (procs s p)))"

text \<open>
  One turn of the inner loop of \<^verbatim>\<open>scheduler\<close> up to \<^verbatim>\<open>swtch\<close>: a runnable process is marked running
  and put on the CPU with its lock still held (\<open>Halt Switch\<close>); otherwise the lock is released and
  the loop goes on. \<open>scheduler_resume\<close> is the rest of the turn once the process has switched back.
\<close>

definition scheduler_turn :: "nat \<Rightarrow> ('z proc_state_scheme, unit) km" where
  "scheduler_turn p =
     kseq (acquire (Lk_proc p)) (
     kbind mycpu (\<lambda>c.
     kbind (kget (\<lambda>s. pstate (procs s p))) (\<lambda>st.
     kseq (kwhen (st = RUNNABLE) (kdo [
             upd_proc p (\<lambda>x. x\<lparr>pstate := RUNNING\<rparr>),
             upd_cpu c (\<lambda>x. x\<lparr>cproc := Some p\<rparr>),
             khalt Switch]))
          (release (Lk_proc p)))))"

definition scheduler_resume :: "nat \<Rightarrow> ('z proc_state_scheme, unit) km" where
  "scheduler_resume p =
     kbind mycpu (\<lambda>c. kdo [upd_cpu c (\<lambda>x. x\<lparr>cproc := None\<rparr>), release (Lk_proc p)])"

text \<open>One round of the outer loop: interrupts on and off again, then the table from its start.\<close>

definition scheduler_round :: "('z proc_state_scheme, unit) km" where
  "scheduler_round = kdo [intr_on, intr_off, kiter scheduler_turn [0..<NPROC]]"

text \<open>
  After process \<open>p\<close> has switched back: the rest of the table, with a process found, so that the
  hart starts the next round without waiting for an interrupt.
\<close>

definition scheduler_continue :: "nat \<Rightarrow> ('z proc_state_scheme, unit) km" where
  "scheduler_continue p = kdo [scheduler_resume p, kiter scheduler_turn [Suc p..<NPROC]]"

definition scheduler_enter :: "('z proc_state_scheme, unit) km" where
  "scheduler_enter = kbind mycpu (\<lambda>c. kseq (upd_cpu c (\<lambda>x. x\<lparr>cproc := None\<rparr>)) scheduler_round)"

subsection \<open>Machine operations and the new fields\<close>

lemma proc_touch [simp]:
  "procs (touch s) = procs s" "nextpid (touch s) = nextpid s" "initproc (touch s) = initproc s"
  "touch (s\<lparr>procs := x\<rparr>) = (touch s)\<lparr>procs := x\<rparr>"
  "touch (s\<lparr>nextpid := n\<rparr>) = (touch s)\<lparr>nextpid := n\<rparr>"
  "touch (s\<lparr>initproc := i\<rparr>) = (touch s)\<lparr>initproc := i\<rparr>"
  by (simp_all add: touch_def)

lemma proc_entered [simp]:
  "procs (entered lk s) = procs s" "nextpid (entered lk s) = nextpid s"
  "initproc (entered lk s) = initproc s"
  "entered lk (s\<lparr>procs := x\<rparr>) = (entered lk s)\<lparr>procs := x\<rparr>"
  "entered lk (s\<lparr>nextpid := n\<rparr>) = (entered lk s)\<lparr>nextpid := n\<rparr>"
  "entered lk (s\<lparr>initproc := i\<rparr>) = (entered lk s)\<lparr>initproc := i\<rparr>"
  by (simp_all add: entered_def)

lemma proc_left [simp]:
  "procs (left lk s) = procs s" "nextpid (left lk s) = nextpid s"
  "initproc (left lk s) = initproc s"
  "left lk (s\<lparr>procs := x\<rparr>) = (left lk s)\<lparr>procs := x\<rparr>"
  "left lk (s\<lparr>nextpid := n\<rparr>) = (left lk s)\<lparr>nextpid := n\<rparr>"
  "left lk (s\<lparr>initproc := i\<rparr>) = (left lk s)\<lparr>initproc := i\<rparr>"
  by (simp_all add: left_def)

lemma proc_held [simp]:
  "held (s\<lparr>procs := x\<rparr>) = held s" "held (s\<lparr>nextpid := n\<rparr>) = held s"
  "held (s\<lparr>initproc := i\<rparr>) = held s"
  by (simp_all add: held_def lock_mine_def)

lemma proc_lkok [simp]:
  "lkok (s\<lparr>procs := x\<rparr>) = lkok s" "lkok (s\<lparr>nextpid := n\<rparr>) = lkok s"
  "lkok (s\<lparr>initproc := i\<rparr>) = lkok s"
  by (simp_all add: lkok_def holds_def lock_mine_def lock_free_def)

abbreviation myp :: "'z machine_scheme \<Rightarrow> nat option" where
  "myp s \<equiv> cproc (cpus s (tp s))"

lemma myproc_eq [simp]:
  assumes "lkok s"
  shows "myproc s = Ret (myp s) (touch s)"
proof -
  have "0 \<le> mynoff s" "0 < mynoff s \<longrightarrow> \<not> sie s (tp s)"
    using lkok_noff [OF assms] by auto
  from pop_off_pushed [OF this] show ?thesis
    by (simp add: myproc_def push_off_eq mycpu_def cpuid_def) (simp add: pushed_def)
qed

lemma curproc_eq [simp]:
  "lkok s \<Longrightarrow> myp s = Some p \<Longrightarrow> curproc s = Ret p (touch s)"
  by (simp add: curproc_def)

lemma curproc_none: "lkok s \<Longrightarrow> myp s = None \<Longrightarrow> curproc s = Halt Fault (touch s)"
  by (simp add: curproc_def)

subsection \<open>Wakeup\<close>

definition woken :: "chan option \<Rightarrow> proc \<Rightarrow> proc" where
  "woken c x = (if pstate x = SLEEPING \<and> chan x = c then x\<lparr>pstate := RUNNABLE\<rparr> else x)"

lemma wakeup_one_eq:
  assumes "lkok s" "Lk_proc p \<notin> held s"
  shows "wakeup_one c p s =
    Ret () ((touch s)\<lparr>procs := (procs s)(p := if Some p \<noteq> myp s then woken c (procs s p)
                                            else procs s p)\<rparr>)"
  using assms by (auto simp: wakeup_one_def wakeup_code_def woken_def upd_proc_def)

lemma wakeup_list:
  assumes "lkok s" "\<And>p. p \<in> set ps \<Longrightarrow> Lk_proc p \<notin> held s" "distinct ps"
  shows "kiter (wakeup_one c) ps s = Ret () (if ps = [] then s else
    (touch s)\<lparr>procs := (\<lambda>p. if p \<in> set ps \<and> Some p \<noteq> myp s then woken c (procs s p)
                              else procs s p)\<rparr>)"
  using assms
proof (induction ps arbitrary: s)
  case Nil
  then show ?case by simp
next
  case (Cons p ps)
  let ?t = "(touch s)\<lparr>procs := (procs s)(p := if Some p \<noteq> myp s then woken c (procs s p)
                                            else procs s p)\<rparr>"
  have 1: "wakeup_one c p s = Ret () ?t" using Cons.prems by (intro wakeup_one_eq) auto
  have 2: "kiter (wakeup_one c) ps ?t = Ret () (if ps = [] then ?t else
    (touch ?t)\<lparr>procs := (\<lambda>p. if p \<in> set ps \<and> Some p \<noteq> myp ?t then woken c (procs ?t p)
                              else procs ?t p)\<rparr>)"
    using Cons.prems by (intro Cons.IH) auto
  have 3: "(\<lambda>q. if q \<in> set ps \<and> Some q \<noteq> myp ?t then woken c (procs ?t q) else procs ?t q)
    = (\<lambda>q. if q \<in> set (p # ps) \<and> Some q \<noteq> myp s then woken c (procs s q) else procs s q)"
    using Cons.prems(3) by (auto simp: fun_eq_iff)
  show ?case using 1 2 3
    by (cases ps) (auto simp: fun_eq_iff fun_upd_def)
qed

lemma wakeup_eq:
  assumes "lkok s" "\<And>p. Lk_proc p \<notin> held s"
  shows "wakeup c s = Ret () ((touch s)\<lparr>procs :=
    (\<lambda>p. if p < NPROC \<and> Some p \<noteq> myp s then woken c (procs s p) else procs s p)\<rparr>)"
  using wakeup_list [OF assms(1), of "[0..<NPROC]" c] assms(2)
  by (simp add: wakeup_def NPROC_def)

subsection \<open>Giving up the CPU\<close>

lemma sched_eq:
  assumes "lkok s" "myp s = Some p" "Lk_proc p \<in> held s" "mynoff s = 1"
    "pstate (procs s p) \<noteq> RUNNING"
  shows "sched s = Halt Switch s"
proof -
  have [simp]: "touch s = s" using assms by (auto intro: touch_in)
  have "\<not> sie s (tp s)" using lkok_noff [OF assms(1)] assms(4) by simp
  then show ?thesis using assms by (simp add: sched_def mycpu_def cpuid_def intr_get_def)
qed

lemma sched_locks:
  assumes "lkok s" "myp s = Some p" "Lk_proc p \<in> held s" "mynoff s \<noteq> 1"
  shows "sched s = Halt (Panic ''sched locks'') s"
proof -
  have [simp]: "touch s = s" using assms by (auto intro: touch_in)
  show ?thesis using assms by (simp add: sched_def mycpu_def cpuid_def)
qed

definition asleep :: "chan \<Rightarrow> lockid \<Rightarrow> nat \<Rightarrow> 'z proc_state_scheme \<Rightarrow> 'z proc_state_scheme" where
  "asleep c lk p s =
     (left lk (entered (Lk_proc p) s))
       \<lparr>procs := (procs s)(p := (procs s p)\<lparr>chan := Some c, pstate := SLEEPING\<rparr>)\<rparr>"

lemma sleep_run:
  assumes "lkok s" "myp s = Some p" "lk \<in> held s" "Lk_proc p \<notin> held s"
  shows "sleep c lk s = sched (asleep c lk p s)"
proof -
  have [simp]: "touch s = s" using assms by (auto intro: touch_in)
  show ?thesis using assms by (simp add: sleep_def sleep_code_def asleep_def upd_proc_def)
qed

lemma asleep_simps [simp]:
  assumes "lkok s" "lk \<in> held s" "Lk_proc p \<notin> held s"
  shows "lkok (asleep c lk p s)" "held (asleep c lk p s) = insert (Lk_proc p) (held s - {lk})"
    "noff (cpus (asleep c lk p s) h) = noff (cpus s h)"
    "cproc (cpus (asleep c lk p s) h) = cproc (cpus s h)"
    "tp (asleep c lk p s) = tp s"
    "procs (asleep c lk p s) = (procs s)(p := (procs s p)\<lparr>chan := Some c, pstate := SLEEPING\<rparr>)"
  using assms by (auto simp: asleep_def)

lemma sleep_eq:
  assumes "lkok s" "myp s = Some p" "lk \<in> held s" "Lk_proc p \<notin> held s"
  shows "sleep c lk s = (if mynoff s = 1 then Halt Switch (asleep c lk p s)
    else Halt (Panic ''sched locks'') (asleep c lk p s))"
  using assms
  by (simp add: sleep_run sched_eq [of "asleep c lk p s" p] sched_locks [of "asleep c lk p s" p])

definition unscheduled :: "nat \<Rightarrow> 'z proc_state_scheme \<Rightarrow> 'z proc_state_scheme" where
  "unscheduled p s =
     left (Lk_proc p) (s\<lparr>cpus := (cpus s)(tp s := (cpus s (tp s))\<lparr>cproc := None\<rparr>)\<rparr>)"

lemma scheduler_resume_eq:
  "lkok s \<Longrightarrow> Lk_proc p \<in> held s \<Longrightarrow> scheduler_resume p s = Ret () (unscheduled p s)"
  by (simp add: scheduler_resume_def unscheduled_def mycpu_def cpuid_def upd_cpu_def)

lemma unscheduled_simps [simp]:
  assumes "lkok s" "Lk_proc p \<in> held s"
  shows "lkok (unscheduled p s)" "held (unscheduled p s) = held s - {Lk_proc p}"
    "noff (cpus (unscheduled p s) h) = noff (cpus s h) - (if h = tp s then 1 else 0)"
    "cproc (cpus (unscheduled p s) h) = (if h = tp s then None else cproc (cpus s h))"
    "tp (unscheduled p s) = tp s" "procs (unscheduled p s) = procs s"
  using assms by (auto simp: unscheduled_def)

definition scheduled :: "nat \<Rightarrow> 'z proc_state_scheme \<Rightarrow> 'z proc_state_scheme" where
  "scheduled p s =
     (entered (Lk_proc p) s)
       \<lparr>procs := (procs s)(p := (procs s p)\<lparr>pstate := RUNNING\<rparr>),
        cpus := (cpus (entered (Lk_proc p) s))
          (tp s := (cpus (entered (Lk_proc p) s) (tp s))\<lparr>cproc := Some p\<rparr>)\<rparr>"

lemma scheduler_turn_eq:
  "lkok s \<Longrightarrow> Lk_proc p \<notin> held s \<Longrightarrow>
     scheduler_turn p s = (if pstate (procs s p) = RUNNABLE then Halt Switch (scheduled p s)
       else Ret () (touch s))"
  by (simp add: scheduler_turn_def mycpu_def cpuid_def upd_proc_def upd_cpu_def scheduled_def)

lemma scheduled_simps [simp]:
  assumes "lkok s" "Lk_proc p \<notin> held s"
  shows "lkok (scheduled p s)" "held (scheduled p s) = insert (Lk_proc p) (held s)"
    "noff (cpus (scheduled p s) h) = noff (cpus s h) + (if h = tp s then 1 else 0)"
    "cproc (cpus (scheduled p s) h) = (if h = tp s then Some p else cproc (cpus s h))"
    "tp (scheduled p s) = tp s"
    "procs (scheduled p s) = (procs s)(p := (procs s p)\<lparr>pstate := RUNNING\<rparr>)"
  using assms by (auto simp: scheduled_def)

definition resumed :: "bool \<Rightarrow> nat \<Rightarrow> 'z proc_state_scheme \<Rightarrow> 'z proc_state_scheme" where
  "resumed i p s =
     left (Lk_proc p) (s\<lparr>cpus := (cpus s)(tp s := (cpus s (tp s))\<lparr>intena := i\<rparr>)\<rparr>)"

lemma yield_resume_eq:
  "lkok s \<Longrightarrow> Lk_proc p \<in> held s \<Longrightarrow> yield_resume i p s = Ret () (resumed i p s)"
  by (simp add: yield_resume_def yield_resume_code_def sched_resume_def resumed_def mycpu_def cpuid_def upd_cpu_def)

lemma sleep_resume_eq:
  assumes "lkok s" "Lk_proc p \<in> held s" "lk \<notin> held s"
  shows "sleep_resume i p lk s =
    Ret () (entered lk ((resumed i p s)\<lparr>procs := (procs s)(p := (procs s p)\<lparr>chan := None\<rparr>)\<rparr>))"
proof -
  let ?u = "(s\<lparr>cpus := (cpus s)(tp s := (cpus s (tp s))\<lparr>intena := i\<rparr>)\<rparr>)
      \<lparr>procs := (procs s)(p := (procs s p)\<lparr>chan := None\<rparr>)\<rparr>"
  have "release (Lk_proc p) ?u = Ret () (left (Lk_proc p) ?u)" using assms by (intro lkok_release) auto
  then show ?thesis
    using assms by (simp add: sleep_resume_def sleep_resume_code_def sched_resume_def resumed_def mycpu_def cpuid_def
        upd_cpu_def upd_proc_def)
qed

lemma resumed_simps [simp]:
  assumes "lkok s" "Lk_proc p \<in> held s"
  shows "lkok (resumed i p s)" "held (resumed i p s) = held s - {Lk_proc p}"
    "noff (cpus (resumed i p s) h) = noff (cpus s h) - (if h = tp s then 1 else 0)"
    "cproc (cpus (resumed i p s) h) = cproc (cpus s h)"
    "tp (resumed i p s) = tp s" "procs (resumed i p s) = procs s"
  using assms by (auto simp: resumed_def)

definition yielded :: "nat \<Rightarrow> 'z proc_state_scheme \<Rightarrow> 'z proc_state_scheme" where
  "yielded p s =
     (entered (Lk_proc p) s)\<lparr>procs := (procs s)(p := (procs s p)\<lparr>pstate := RUNNABLE\<rparr>)\<rparr>"

lemma yielded_simps [simp]:
  assumes "lkok s" "Lk_proc p \<notin> held s"
  shows "lkok (yielded p s)" "held (yielded p s) = insert (Lk_proc p) (held s)"
    "noff (cpus (yielded p s) h) = noff (cpus s h) + (if h = tp s then 1 else 0)"
    "cproc (cpus (yielded p s) h) = cproc (cpus s h)"
    "tp (yielded p s) = tp s"
    "procs (yielded p s) = (procs s)(p := (procs s p)\<lparr>pstate := RUNNABLE\<rparr>)"
  using assms by (auto simp: yielded_def)

lemma yield_eq:
  assumes "lkok s" "myp s = Some p" "Lk_proc p \<notin> held s" "mynoff s = 0"
  shows "yield s = Halt Switch (yielded p s)"
proof -
  have "(sched :: (_, unit) km) (yielded p s) = Halt Switch (yielded p s)"
    using assms by (intro sched_eq [of _ p]) auto
  then show ?thesis using assms by (simp add: yield_def yield_code_def upd_proc_def yielded_def)
qed

definition wakeall :: "chan option \<Rightarrow> 'z proc_state_scheme \<Rightarrow> 'z proc_state_scheme" where
  "wakeall c s = (touch s)\<lparr>procs :=
    (\<lambda>p. if p < NPROC \<and> Some p \<noteq> myp s then woken c (procs s p) else procs s p)\<rparr>"

lemma wakeup_wakeall [simp]:
  "lkok s \<Longrightarrow> (\<And>p. Lk_proc p \<notin> held s) \<Longrightarrow> wakeup c s = Ret () (wakeall c s)"
  by (simp add: wakeup_eq wakeall_def)

lemma wakeall_mem [simp]: "mem (wakeall c s) = mem s" "kend (wakeall c s) = kend s" "freelist (wakeall c s) = freelist s"
  by (simp_all add: wakeall_def)

lemma wakeall_simps [simp]:
  "lkok (wakeall c s) = lkok s" "held (wakeall c s) = held s" "tp (wakeall c s) = tp s"
  "noff (cpus (wakeall c s) h) = noff (cpus s h)" "cproc (cpus (wakeall c s) h) = cproc (cpus s h)"
  "procs (wakeall c s) =
    (\<lambda>p. if p < NPROC \<and> Some p \<noteq> myp s then woken c (procs s p) else procs s p)"
  by (simp_all add: wakeall_def)

lemma with_lock_wakeup:
  assumes "lkok s" "held s = {}" "\<And>p. lk \<noteq> Lk_proc p"
  shows "with_lock lk (wakeup c) s = Ret () (left lk (wakeall c (entered lk s)))"
proof -
  have "wakeup c (entered lk s) = Ret () (wakeall c (entered lk s))"
    using assms by (intro wakeup_wakeall) auto
  then show ?thesis using assms by simp
qed

lemma scheduler_loop_skips:
  assumes "lkok s" "\<And>p. p \<in> set ps \<Longrightarrow> Lk_proc p \<notin> held s"
    "\<And>p. p \<in> set ps \<Longrightarrow> pstate (procs s p) \<noteq> RUNNABLE"
  shows "kiter scheduler_turn ps s = Ret () (if ps = [] then s else touch s)"
  using assms
proof (induction ps arbitrary: s)
  case Nil
  then show ?case by simp
next
  case (Cons p ps)
  have "kiter scheduler_turn ps (touch s) = Ret () (if ps = [] then touch s else touch (touch s))"
    using Cons.prems by (intro Cons.IH) auto
  then show ?case using Cons.prems by (simp add: scheduler_turn_eq)
qed

lemma sleeper_scheduled:
  assumes "lkok t" "held t = {}" "procs t p = x\<lparr>chan := Some c, pstate := RUNNABLE\<rparr>"
    "Lk_proc p \<noteq> lk"
  shows "\<exists>t8 t9. scheduler_turn p t = Halt Switch t8 \<and> sleep_resume j p lk t8 = Ret () t9
       \<and> held t9 = {lk} \<and> lkok t9 \<and> procs t9 p = x\<lparr>chan := None, pstate := RUNNING\<rparr>"
proof -
  let ?t8 = "scheduled p t"
  let ?t9 = "entered lk ((resumed j p ?t8)
    \<lparr>procs := (procs ?t8)(p := (procs ?t8 p)\<lparr>chan := None\<rparr>)\<rparr>)"
  have "scheduler_turn p t = Halt Switch ?t8" using assms by (simp add: scheduler_turn_eq)
  moreover have "sleep_resume j p lk ?t8 = Ret () ?t9"
    using assms by (intro sleep_resume_eq) auto
  moreover have "held ?t9 = {lk}" "lkok ?t9" "procs ?t9 p = x\<lparr>chan := None, pstate := RUNNING\<rparr>"
    using assms by simp_all
  ultimately show ?thesis by blast
qed

definition killed_proc :: "proc \<Rightarrow> proc" where
  "killed_proc x = x\<lparr>killed_flag := 1,
     pstate := if pstate x = SLEEPING then RUNNABLE else pstate x\<rparr>"

lemma kkill_one_eq:
  assumes "lkok s" "Lk_proc p \<notin> held s"
  shows "kkill_one n p s = (if pid (procs s p) = n
    then Ret (Some 0) ((touch s)\<lparr>procs := (procs s)(p := killed_proc (procs s p))\<rparr>)
    else Ret None (touch s))"
  using assms by (auto simp: kkill_one_def upd_proc_def killed_proc_def)

lemma kkill_scan:
  assumes "lkok s" "\<And>p. p \<in> set ps \<Longrightarrow> Lk_proc p \<notin> held s"
  shows "kscan (kkill_one n) ps s = (case find (\<lambda>p. pid (procs s p) = n) ps of
      Some p \<Rightarrow> Ret (Some 0) ((touch s)\<lparr>procs := (procs s)(p := killed_proc (procs s p))\<rparr>)
    | None \<Rightarrow> Ret None (if ps = [] then s else touch s))"
  using assms
proof (induction ps arbitrary: s)
  case Nil
  then show ?case by simp
next
  case (Cons p ps)
  have "kscan (kkill_one n) ps (touch s) = (case find (\<lambda>p. pid (procs (touch s) p) = n) ps of
      Some p \<Rightarrow> Ret (Some 0) ((touch (touch s))\<lparr>procs := (procs (touch s))
        (p := killed_proc (procs (touch s) p))\<rparr>)
    | None \<Rightarrow> Ret None (if ps = [] then touch s else touch (touch s)))"
    using Cons.prems by (intro Cons.IH) auto
  then show ?case using Cons.prems by (auto simp: kkill_one_eq split: option.splits)
qed

lemma allocpid_eq:
  "lkok s \<Longrightarrow> Lk_pid \<notin> held s \<Longrightarrow>
     allocpid s = Ret (nextpid s) ((touch s)\<lparr>nextpid := nextpid s + 1\<rparr>)"
  by (simp add: allocpid_def)

lemma allocpid_many:
  "lkok s \<Longrightarrow> Lk_pid \<notin> held s \<Longrightarrow>
     \<exists>t. krepeat n allocpid s = Ret (map (\<lambda>i. nextpid s + of_nat i) [0..<n]) t"
proof (induction n arbitrary: s)
  case 0
  then show ?case by simp
next
  case (Suc n)
  let ?t = "(touch s)\<lparr>nextpid := nextpid s + 1\<rparr>"
  obtain u where "krepeat n allocpid ?t = Ret (map (\<lambda>i. nextpid ?t + of_nat i) [0..<n]) u"
    using Suc.IH [of ?t] Suc.prems by auto
  then show ?case using Suc.prems
    by (simp add: allocpid_eq upt_conv_Cons map_Suc_upt [symmetric] ac_simps del: upt_Suc map_Suc_upt)
qed

subsection \<open>Properties\<close>

definition idle_proc :: proc where
  "idle_proc = \<lparr>pstate = UNUSED, chan = None, killed_flag = 0, xstate = 0, pid = 0, parent = None,
     kstack = 0, psz = 0, ppagetable = 0, ptrapframe = 0,
     pcontext = \<lparr>ctx_ra = 0, ctx_sp = 0, callee_saved = []\<rparr>,
     ofile = (\<lambda>_. None), cwd = None, pname = []\<rparr>"

text \<open>A running system: process 3 runs on hart 0, 4 is ready, 5 sleeps on the clock.\<close>

definition proc_ex :: proc_state where
  "proc_ex = kmem_state.extend kmem_ex
     \<lparr>procs = (\<lambda>_. idle_proc)(3 := idle_proc\<lparr>pstate := RUNNING, pid := 7\<rparr>,
        4 := idle_proc\<lparr>pstate := RUNNABLE, pid := 8\<rparr>,
        5 := idle_proc\<lparr>pstate := SLEEPING, chan := Some Ch_ticks, pid := 9\<rparr>),
      nextpid = 10, initproc = Some 1\<rparr>"

definition proc_ex_run :: proc_state where
  "proc_ex_run = proc_ex\<lparr>cpus := (\<lambda>_. \<lparr>cproc = None, noff = 0, intena = False\<rparr>)
     (0 := \<lparr>cproc = Some 3, noff = 0, intena = False\<rparr>)\<rparr>"

lemma proc_ex_simps [simp]:
  "lkok proc_ex_run" "held proc_ex_run = {}" "tp proc_ex_run = 0"
  "cproc (cpus proc_ex_run 0) = Some 3" "noff (cpus proc_ex_run 0) = 0" "nextpid proc_ex_run = 10"
  "procs proc_ex_run = (\<lambda>_. idle_proc)(3 := idle_proc\<lparr>pstate := RUNNING, pid := 7\<rparr>,
        4 := idle_proc\<lparr>pstate := RUNNABLE, pid := 8\<rparr>,
        5 := idle_proc\<lparr>pstate := SLEEPING, chan := Some Ch_ticks, pid := 9\<rparr>)"
proof -
  have "holds {} proc_ex_run"
    by (simp add: proc_ex_run_def proc_ex_def kmem_ex_def kmem_state.extend_def holds_def
        lock_free_def)
  then show "lkok proc_ex_run" "held proc_ex_run = {}" by (simp_all add: holds_iff)
qed (simp_all add: proc_ex_run_def proc_ex_def kmem_ex_def kmem_state.extend_def)

text \<open>
  \<^verbatim>\<open>wakeup\<close> is exact: called with no process lock held it returns, makes runnable exactly the
  processes of the table that sleep on the channel (never the caller itself), changes no other
  process, and leaves the set of held locks as it was.
\<close>

theorem wakeup_exact:
  assumes "lkok s" "\<And>p. Lk_proc p \<notin> held s"
  shows "\<exists>t. wakeup c s = Ret () t \<and> held t = held s \<and> lkok t
    \<and> {p. procs t p \<noteq> procs s p} = {p. p < NPROC \<and> Some p \<noteq> myp s
        \<and> pstate (procs s p) = SLEEPING \<and> chan (procs s p) = c}
    \<and> (\<forall>p. procs t p \<noteq> procs s p \<longrightarrow> procs t p = (procs s p)\<lparr>pstate := RUNNABLE\<rparr>)"
proof -
  have ne: "x\<lparr>pstate := RUNNABLE\<rparr> \<noteq> x" if "pstate x = SLEEPING" for x
  proof
    assume "x\<lparr>pstate := RUNNABLE\<rparr> = x"
    from arg_cong [OF this, of pstate] that show False by simp
  qed
  show ?thesis using assms by (auto simp: woken_def dest: ne split: if_splits)
qed

theorem wakeup_exact_witness:
  "\<exists>t. wakeup (Some Ch_ticks) proc_ex_run = Ret () t \<and> held t = {} \<and> lkok t
    \<and> {p. procs t p \<noteq> procs proc_ex_run p} = {5}"
proof -
  have "{p. p < NPROC \<and> Some p \<noteq> myp proc_ex_run \<and> pstate (procs proc_ex_run p) = SLEEPING
      \<and> chan (procs proc_ex_run p) = Some Ch_ticks} = {5}"
    by (auto simp: NPROC_def idle_proc_def split: if_splits)
  with wakeup_exact [of proc_ex_run "Some Ch_ticks"] show ?thesis by fastforce
qed

text \<open>
  C30. Sleep and wakeup through a full context switch. A process \<open>p\<close> that holds only the condition
  lock sleeps on \<open>c\<close>; the scheduler runs \<open>q\<close>, which wakes channel \<open>d\<close> under the same lock and
  yields; the scheduler looks at \<open>p\<close> again. Every step succeeds. If \<open>d = c\<close> the process is
  running again, holds exactly the condition lock and waits on no channel; otherwise the scheduler
  passes it by and it still sleeps on \<open>c\<close>. At the moment \<open>p\<close> gives up the CPU it holds its own
  lock and no other, so that no wakeup can come between.
\<close>

theorem sleep_wakeup_cycle:
  assumes s: "lkok s" "held s = {lk}" "mynoff s = 1" "myp s = Some p"
    and pq: "p < NPROC" "p \<noteq> q" "\<And>x. lk \<noteq> Lk_proc x" "pstate (procs s q) = RUNNABLE"
  shows "\<exists>t1 t2 t3 t4 t5 t6 t7.
    sleep c lk s = Halt Switch t1 \<and> held t1 = {Lk_proc p} \<and>
    scheduler_resume p t1 = Ret () t2 \<and> scheduler_turn q t2 = Halt Switch t3 \<and>
    yield_resume i q t3 = Ret () t4 \<and> with_lock lk (wakeup (Some d)) t4 = Ret () t5 \<and>
    yield t5 = Halt Switch t6 \<and> scheduler_resume q t6 = Ret () t7 \<and>
    (if d = c
     then \<exists>t8 t9. scheduler_turn p t7 = Halt Switch t8 \<and> sleep_resume j p lk t8 = Ret () t9
       \<and> held t9 = {lk} \<and> lkok t9 \<and> procs t9 p = (procs s p)\<lparr>chan := None, pstate := RUNNING\<rparr>
     else scheduler_turn p t7 = Ret () (touch t7) \<and> pstate (procs t7 p) = SLEEPING
       \<and> chan (procs t7 p) = Some c)"
proof -
  define t1 where "t1 = asleep c lk p s"
  define t2 where "t2 = unscheduled p t1"
  define t3 where "t3 = scheduled q t2"
  define t4 where "t4 = resumed i q t3"
  define t5 where "t5 = left lk (wakeall (Some d) (entered lk t4))"
  define t6 where "t6 = yielded q t5"
  define t7 where "t7 = unscheduled q t6"
  have pl: "Lk_proc p \<noteq> lk" "Lk_proc q \<noteq> lk" using pq(3) by metis+
  have 1: "sleep c lk s = Halt Switch t1" "lkok t1" "held t1 = {Lk_proc p}" "tp t1 = tp s"
    "noff (cpus t1 (tp s)) = 1"
    "procs t1 = (procs s)(p := (procs s p)\<lparr>chan := Some c, pstate := SLEEPING\<rparr>)"
    using s pl by (simp_all add: t1_def sleep_eq [where p = p])
  have 2: "scheduler_resume p t1 = Ret () t2" "lkok t2" "held t2 = {}" "tp t2 = tp s"
    "noff (cpus t2 (tp s)) = 0" "procs t2 = procs t1"
    using 1 by (simp_all add: t2_def scheduler_resume_eq)
  have 3: "scheduler_turn q t2 = Halt Switch t3" "lkok t3" "held t3 = {Lk_proc q}" "tp t3 = tp s"
    "noff (cpus t3 (tp s)) = 1" "cproc (cpus t3 (tp s)) = Some q"
    "procs t3 = (procs t2)(q := (procs t2 q)\<lparr>pstate := RUNNING\<rparr>)"
    using 1(6) 2 pq by (simp_all add: t3_def scheduler_turn_eq)
  have 4: "yield_resume i q t3 = Ret () t4" "lkok t4" "held t4 = {}" "tp t4 = tp s"
    "noff (cpus t4 (tp s)) = 0" "cproc (cpus t4 (tp s)) = Some q" "procs t4 = procs t3"
    using 3 by (simp_all add: t4_def yield_resume_eq)
  have 5: "with_lock lk (wakeup (Some d)) t4 = Ret () t5" "lkok t5" "held t5 = {}" "tp t5 = tp s"
    "noff (cpus t5 (tp s)) = 0" "cproc (cpus t5 (tp s)) = Some q"
    "procs t5 p = woken (Some d) (procs t4 p)"
    using 4 pq with_lock_wakeup [of t4 lk "Some d"] by (simp_all add: t5_def)
  have 6: "yield t5 = Halt Switch t6" "lkok t6" "held t6 = {Lk_proc q}" "tp t6 = tp s"
    "noff (cpus t6 (tp s)) = 1" "procs t6 p = procs t5 p"
    using 5 pq by (simp_all add: t6_def yield_eq [where p = q])
  have 7: "scheduler_resume q t6 = Ret () t7" "lkok t7" "held t7 = {}" "procs t7 p = procs t6 p"
    using 6 by (simp_all add: t7_def scheduler_resume_eq)
  have p7: "procs t7 p = woken (Some d) ((procs s p)\<lparr>chan := Some c, pstate := SLEEPING\<rparr>)"
    using 1(6) 2(6) 3(7) 4(7) 5(7) 6(6) 7(4) pq(2) by simp
  have 8: "\<exists>t8 t9. scheduler_turn p t7 = Halt Switch t8 \<and> sleep_resume j p lk t8 = Ret () t9
       \<and> held t9 = {lk} \<and> lkok t9 \<and> procs t9 p = (procs s p)\<lparr>chan := None, pstate := RUNNING\<rparr>"
    if "d = c"
    using 7(2,3) p7 that pl by (intro sleeper_scheduled) (simp_all add: woken_def)
  have 9: "scheduler_turn p t7 = Ret () (touch t7) \<and> pstate (procs t7 p) = SLEEPING
      \<and> chan (procs t7 p) = Some c" if "d \<noteq> c"
    using 7(2,3) p7 that by (simp add: scheduler_turn_eq woken_def)
  have "if d = c
     then \<exists>t8 t9. scheduler_turn p t7 = Halt Switch t8 \<and> sleep_resume j p lk t8 = Ret () t9
       \<and> held t9 = {lk} \<and> lkok t9 \<and> procs t9 p = (procs s p)\<lparr>chan := None, pstate := RUNNING\<rparr>
     else scheduler_turn p t7 = Ret () (touch t7) \<and> pstate (procs t7 p) = SLEEPING
       \<and> chan (procs t7 p) = Some c"
    using 8 9 by (cases "d = c") (simp_all only: if_True if_False simp_thms)
  with 1(1,3) 2(1) 3(1) 4(1) 5(1) 6(1) 7(1) show ?thesis by blast
qed

theorem sleep_wakeup_cycle_witness:
  "\<exists>t1 t2 t3 t4 t5 t6 t7 t8 t9. sleep Ch_log Lk_log (entered Lk_log proc_ex_run) = Halt Switch t1
    \<and> scheduler_resume 3 t1 = Ret () t2 \<and> scheduler_turn 4 t2 = Halt Switch t3
    \<and> yield_resume True 4 t3 = Ret () t4 \<and> with_lock Lk_log (wakeup (Some Ch_log)) t4 = Ret () t5
    \<and> yield t5 = Halt Switch t6 \<and> scheduler_resume 4 t6 = Ret () t7
    \<and> scheduler_turn 3 t7 = Halt Switch t8 \<and> sleep_resume False 3 Lk_log t8 = Ret () t9
    \<and> held t9 = {Lk_log} \<and> pstate (procs t9 3) = RUNNING"
proof -
  let ?s = "entered Lk_log proc_ex_run"
  have "lkok ?s" "held ?s = {Lk_log}" "mynoff ?s = 1" "myp ?s = Some 3"
    "pstate (procs ?s 4) = RUNNABLE" "(3::nat) < NPROC"
    by (simp_all add: NPROC_def idle_proc_def)
  then show ?thesis
    using sleep_wakeup_cycle [of ?s Lk_log 3 4 Ch_log True Ch_log False] by fastforce
qed

text \<open>
  \<^verbatim>\<open>kkill\<close>: called with no process lock held it finds the first process of the table with the
  given id, sets its \<^verbatim>\<open>killed\<close> flag, makes it runnable if it sleeps, changes nothing else in the
  table and returns 0; if there is no such process it returns -1 and the table is as it was.
\<close>

theorem kkill_correct:
  assumes "lkok s" "\<And>p. Lk_proc p \<notin> held s"
  shows "\<exists>t. held t = held s \<and> lkok t \<and> (case find (\<lambda>p. pid (procs s p) = n) [0..<NPROC] of
      Some p \<Rightarrow> kkill n s = Ret 0 t \<and> procs t = (procs s)(p := (procs s p)\<lparr>killed_flag := 1,
        pstate := if pstate (procs s p) = SLEEPING then RUNNABLE else pstate (procs s p)\<rparr>)
    | None \<Rightarrow> kkill n s = Ret (-1) t \<and> procs t = procs s)"
  using kkill_scan [OF assms(1), of "[0..<NPROC]" n] assms
  by (cases "find (\<lambda>p. pid (procs s p) = n) [0..<NPROC]")
     (simp_all add: kkill_def killed_proc_def NPROC_def)

theorem kkill_correct_witness:
  "\<exists>t. kkill 9 proc_ex_run = Ret 0 t \<and> pstate (procs t 5) = RUNNABLE
    \<and> killed_flag (procs t 5) = 1"
proof -
  have "find (\<lambda>p. pid (procs proc_ex_run p) = 9) [0..<NPROC] = Some 5"
    by (simp add: NPROC_def upt_conv_Cons idle_proc_def)
  then show ?thesis using kkill_correct [of proc_ex_run 9] by (auto simp: idle_proc_def)
qed

text \<open>
  Process ids: any \<open>n\<close> calls of \<^verbatim>\<open>allocpid\<close>, \<open>n\<close> up to \<open>2^32\<close>, return \<open>n\<close> different ids, the
  32-bit counter wrapping around; after \<open>2^32\<close> calls the first id comes back.
\<close>

theorem allocpid_distinct:
  assumes "lkok s" "Lk_pid \<notin> held s" "n \<le> 2 ^ 32"
  shows "\<exists>xs t. krepeat n allocpid s = Ret xs t \<and> length xs = n \<and> distinct xs
    \<and> (nextpid s + of_nat n \<in> set xs \<longleftrightarrow> n = 2 ^ 32)"
proof -
  let ?xs = "map (\<lambda>i. nextpid s + of_nat i) [0..<n]"
  have u: "unat (of_nat i :: uint32) = i" if "i < 2 ^ 32" for i
    using that by (simp add: unat_of_nat take_bit_nat_eq_self)
  have "inj_on (\<lambda>i. nextpid s + of_nat i) {0..<n}"
  proof (rule inj_onI)
    fix i j assume "i \<in> {0..<n}" "j \<in> {0..<n}" "nextpid s + of_nat i = nextpid s + of_nat j"
    then have "(of_nat i :: uint32) = of_nat j" "i < 2 ^ 32" "j < 2 ^ 32" using assms(3) by auto
    then show "i = j" using u [of i] u [of j] by metis
  qed
  then have d: "distinct ?xs" by (simp add: distinct_map)
  have w: "(of_nat n :: uint32) = of_nat i \<longleftrightarrow> n = 2 ^ 32 \<and> i = 0" if "i < n" for i
    using that assms(3) u [of i] u [of n]
    by (cases "n = 2 ^ 32") (auto simp: word_unat_eq_iff unsigned_of_nat take_bit_nat_def)
  have "nextpid s + of_nat n \<in> set ?xs \<longleftrightarrow> n = 2 ^ 32"
    using w by fastforce
  then show ?thesis using allocpid_many [OF assms(1,2), of n] d by auto
qed

theorem allocpid_distinct_witness:
  "\<exists>xs t. krepeat 5 allocpid proc_ex_run = Ret xs t \<and> length xs = 5 \<and> distinct xs"
  using allocpid_distinct [of proc_ex_run 5] by auto

end
