(* ===== verification/Vm.thy ===== *)
theory Vm
  imports Proc
begin

section \<open>Virtual memory\<close>

text \<open>
  \<^verbatim>\<open>kernel/vm.c\<close>. A page table is what it is in the source: pages of physical memory that hold
  512 64-bit entries each, read with \<open>load64\<close> and written with \<open>store64\<close>; \<^verbatim>\<open>walk\<close> returns the
  address of an entry. Linker symbols (\<^verbatim>\<open>etext\<close>, \<^verbatim>\<open>trampoline\<close>, the
  address of \<^verbatim>\<open>forkret\<close>) are fields of the state; \<open>scratch\<close> is the object on the kernel stack that
  a caller lets a callee fill through a pointer. A loop
  \<^verbatim>\<open>for(a = lo; a < hi; a += PGSIZE)\<close> runs over the list \<open>addr_seq lo hi\<close>; \<open>walk\<close> panics on
  addresses from \<^verbatim>\<open>MAXVA\<close> on, so \<^verbatim>\<open>a\<close> cannot wrap around.

  A kernel buffer that is copied to or from user space is a list of bytes. \<open>copyout\<close> takes it as
  an argument; \<open>copyin\<close> and \<open>copyinstr\<close> return the bytes they have stored in the destination,
  also when they fail halfway.
\<close>

record vm_state = proc_state +
  kernel_pagetable :: uint64
  etext :: uint64
  trampoline :: uint64
  forkret_pc :: uint64
  satp :: "nat \<Rightarrow> uint64"
  scratch :: bytes

definition PTE_V :: uint64 where "PTE_V = 1"
definition PTE_R :: uint64 where "PTE_R = 2"
definition PTE_W :: uint64 where "PTE_W = 4"
definition PTE_X :: uint64 where "PTE_X = 8"
definition PTE_U :: uint64 where "PTE_U = 16"

definition PA2PTE :: "uint64 \<Rightarrow> uint64" where
  "PA2PTE pa = push_bit 10 (drop_bit 12 pa)"

definition PTE2PA :: "uint64 \<Rightarrow> uint64" where
  "PTE2PA pte = push_bit 12 (drop_bit 10 pte)"

definition PTE_FLAGS :: "uint64 \<Rightarrow> uint64" where
  "PTE_FLAGS pte = and pte 0x3FF"

definition PX :: "nat \<Rightarrow> uint64 \<Rightarrow> uint64" where
  "PX level va = and (drop_bit (12 + 9 * level) va) 0x1FF"

definition MAKE_SATP :: "uint64 \<Rightarrow> uint64" where
  "MAKE_SATP pagetable = or (push_bit 60 8) (drop_bit 12 pagetable)"

definition pte_addr :: "uint64 \<Rightarrow> uint64 \<Rightarrow> uint64" where
  "pte_addr pagetable i = pagetable + 8 * i"

definition addr_seq :: "uint64 \<Rightarrow> uint64 \<Rightarrow> uint64 list" where
  "addr_seq lo hi =
     map (\<lambda>i. lo + of_nat (i * 4096)) [0..<(unat hi - unat lo + 4095) div 4096]"

definition UART0 :: uint64 where "UART0 = 0x10000000"
definition VIRTIO0 :: uint64 where "VIRTIO0 = 0x10001000"
definition PLIC :: uint64 where "PLIC = 0x0c000000"

subsection \<open>Walking a page table\<close>

text \<open>
  One level of \<^verbatim>\<open>walk\<close>: the next page table, newly allocated if it is missing and \<open>alloc\<close> is
  set; \<open>None\<close> for \<^verbatim>\<open>return 0\<close>.
\<close>

definition walk_level :: "bool \<Rightarrow> uint64 \<Rightarrow> nat \<Rightarrow> uint64 \<Rightarrow> ('z kmem_state_scheme, uint64 option) km" where
  "walk_level alloc va level pagetable =
     (let pte = pte_addr pagetable (PX level va) in
      kbind (kget (\<lambda>s. load64 (mem s) pte)) (\<lambda>e.
      if and e PTE_V \<noteq> 0 then kret (Some (PTE2PA e))
      else if \<not> alloc then kret None
      else kbind kalloc (\<lambda>p.
        if p = 0 then kret None
        else kseq (set_mem (\<lambda>m. memset m p 0 PGSIZE)) (
             kseq (set_mem (\<lambda>m. store64 m pte (or (PA2PTE p) PTE_V)))
                  (kret (Some p))))))"

definition walk :: "uint64 \<Rightarrow> uint64 \<Rightarrow> bool \<Rightarrow> ('z kmem_state_scheme, uint64) km" where
  "walk pagetable va alloc =
     kseq (kwhen (MAXVA \<le> va) (panic ''walk'')) (
     kbind (walk_level alloc va 2 pagetable) (\<lambda>p2.
     case p2 of None \<Rightarrow> kret 0 | Some pt1 \<Rightarrow>
     kbind (walk_level alloc va 1 pt1) (\<lambda>p1.
     case p1 of None \<Rightarrow> kret 0 | Some pt0 \<Rightarrow>
     kret (pte_addr pt0 (PX 0 va)))))"

definition walkaddr :: "uint64 \<Rightarrow> uint64 \<Rightarrow> ('z kmem_state_scheme, uint64) km" where
  "walkaddr pagetable va =
     (if MAXVA \<le> va then kret 0
      else kbind (walk pagetable va False) (\<lambda>pte.
        if pte = 0 then kret 0
        else kbind (kget (\<lambda>s. load64 (mem s) pte)) (\<lambda>e.
          if and e PTE_V = 0 then kret 0
          else if and e PTE_U = 0 then kret 0
          else kret (PTE2PA e))))"

definition mappages_one ::
  "uint64 \<Rightarrow> uint64 \<Rightarrow> uint64 \<Rightarrow> uint64 \<Rightarrow> ('z kmem_state_scheme, int option) km" where
  "mappages_one pagetable a pa perm =
     kbind (walk pagetable a True) (\<lambda>pte.
     if pte = 0 then kret (Some (-1))
     else kbind (kget (\<lambda>s. load64 (mem s) pte)) (\<lambda>e.
       kseq (kwhen (and e PTE_V \<noteq> 0) (panic ''mappages: remap'')) (
       kseq (set_mem (\<lambda>m. store64 m pte (or (or (PA2PTE pa) perm) PTE_V)))
            (kret None))))"

definition mappages ::
  "uint64 \<Rightarrow> uint64 \<Rightarrow> uint64 \<Rightarrow> uint64 \<Rightarrow> uint64 \<Rightarrow> ('z kmem_state_scheme, int) km" where
  "mappages pagetable va len pa perm =
     kseq (kwhen (va mod 4096 \<noteq> 0) (panic ''mappages: va not aligned'')) (
     kseq (kwhen (len mod 4096 \<noteq> 0) (panic ''mappages: size not aligned'')) (
     kseq (kwhen (len = 0) (panic ''mappages: size'')) (
     kbind (kscan (\<lambda>i. mappages_one pagetable (va + of_nat (i * 4096)) (pa + of_nat (i * 4096)) perm)
              [0..<unat len div 4096]) (\<lambda>r.
     kret (case r of Some v \<Rightarrow> v | None \<Rightarrow> 0)))))"

subsection \<open>User page tables\<close>

definition uvmcreate :: "('z kmem_state_scheme, uint64) km" where
  "uvmcreate =
     kbind kalloc (\<lambda>p.
     if p = 0 then kret 0
     else kseq (set_mem (\<lambda>m. memset m p 0 PGSIZE)) (kret p))"

definition uvmunmap_one :: "uint64 \<Rightarrow> bool \<Rightarrow> uint64 \<Rightarrow> ('z kmem_state_scheme, unit) km" where
  "uvmunmap_one pagetable do_free a =
     kbind (walk pagetable a False) (\<lambda>pte.
     kwhen (pte \<noteq> 0) (
       kbind (kget (\<lambda>s. load64 (mem s) pte)) (\<lambda>e.
       kwhen (and e PTE_V \<noteq> 0) (kdo [
         kwhen do_free (kfree (PTE2PA e)),
         set_mem (\<lambda>m. store64 m pte 0)]))))"

definition uvmunmap :: "uint64 \<Rightarrow> uint64 \<Rightarrow> uint64 \<Rightarrow> bool \<Rightarrow> ('z kmem_state_scheme, unit) km" where
  "uvmunmap pagetable va npages do_free = kdo [
     kwhen (va mod 4096 \<noteq> 0) (panic ''uvmunmap: not aligned''),
     kiter (uvmunmap_one pagetable do_free) (addr_seq va (va + npages * 4096))]"

text \<open>\<^verbatim>\<open>npages\<close> is an \<^verbatim>\<open>int\<close> that is passed on as a \<^verbatim>\<open>uint64\<close>.\<close>

definition uvmdealloc :: "uint64 \<Rightarrow> uint64 \<Rightarrow> uint64 \<Rightarrow> ('z kmem_state_scheme, uint64) km" where
  "uvmdealloc pagetable oldsz newsz =
     (if oldsz \<le> newsz then kret oldsz
      else kseq (kwhen (PGROUNDUP newsz < PGROUNDUP oldsz)
             (let npages = scast (ucast ((PGROUNDUP oldsz - PGROUNDUP newsz) div 4096) :: uint32)
              in uvmunmap pagetable (PGROUNDUP newsz) npages True))
           (kret newsz))"

definition uvmalloc :: "uint64 \<Rightarrow> uint64 \<Rightarrow> uint64 \<Rightarrow> uint64 \<Rightarrow> ('z kmem_state_scheme, uint64) km" where
  "uvmalloc pagetable oldsz newsz xperm =
     (if newsz < oldsz then kret oldsz
      else let oldsz = PGROUNDUP oldsz in
        kbind (kscan (\<lambda>a.
          kbind kalloc (\<lambda>m.
          if m = 0 then kseq (uvmdealloc pagetable a oldsz) (kret (Some 0))
          else kseq (set_mem (\<lambda>mm. memset mm m 0 PGSIZE)) (
               kbind (mappages pagetable a 4096 m (or (or PTE_R PTE_U) xperm)) (\<lambda>r.
               if r \<noteq> 0
               then kseq (kfree m) (kseq (uvmdealloc pagetable a oldsz) (kret (Some 0)))
               else kret None)))) (addr_seq oldsz newsz)) (\<lambda>r.
        kret (case r of Some v \<Rightarrow> v | None \<Rightarrow> newsz)))"

text \<open>
  \<^verbatim>\<open>freewalk\<close> recurses into every entry that points to a lower table. The first argument bounds the
  depth; a table of the three levels of Sv39 needs depth 3, a deeper (cyclic) one ends in \<open>Fault\<close>,
  which stands for the exhausted kernel stack.
\<close>

primrec freewalk :: "nat \<Rightarrow> uint64 \<Rightarrow> ('z kmem_state_scheme, unit) km" where
  "freewalk 0 pagetable = khalt Fault"
| "freewalk (Suc d) pagetable =
     kseq (kiter (\<lambda>i.
       kbind (kget (\<lambda>s. load64 (mem s) (pte_addr pagetable (of_nat i)))) (\<lambda>pte.
       if and pte PTE_V \<noteq> 0 \<and> and pte (or (or PTE_R PTE_W) PTE_X) = 0
       then kseq (freewalk d (PTE2PA pte))
                 (set_mem (\<lambda>m. store64 m (pte_addr pagetable (of_nat i)) 0))
       else kwhen (and pte PTE_V \<noteq> 0) (panic ''freewalk: leaf''))) [0..<512])
     (kfree pagetable)"

definition uvmfree :: "uint64 \<Rightarrow> uint64 \<Rightarrow> ('z kmem_state_scheme, unit) km" where
  "uvmfree pagetable sz = kdo [
     kwhen (0 < sz) (uvmunmap pagetable 0 (PGROUNDUP sz div 4096) True),
     freewalk 3 pagetable]"

definition uvmcopy_one :: "uint64 \<Rightarrow> uint64 \<Rightarrow> uint64 \<Rightarrow> ('z kmem_state_scheme, int option) km" where
  "uvmcopy_one old new i =
     (let err = kseq (uvmunmap new 0 (i div 4096) True) (kret (Some (-1))) in
      kbind (walk old i False) (\<lambda>pte.
      if pte = 0 then kret None
      else kbind (kget (\<lambda>s. load64 (mem s) pte)) (\<lambda>e.
        if and e PTE_V = 0 then kret None
        else kbind kalloc (\<lambda>m.
          if m = 0 then err
          else kseq (set_mem (\<lambda>mm. memmove mm m (PTE2PA e) PGSIZE)) (
               kbind (mappages new i 4096 m (PTE_FLAGS e)) (\<lambda>r.
               if r \<noteq> 0 then kseq (kfree m) err else kret None))))))"

definition uvmcopy :: "uint64 \<Rightarrow> uint64 \<Rightarrow> uint64 \<Rightarrow> ('z kmem_state_scheme, int) km" where
  "uvmcopy old new sz =
     kbind (kscan (uvmcopy_one old new) (addr_seq 0 sz)) (\<lambda>r.
     kret (case r of Some v \<Rightarrow> v | None \<Rightarrow> 0))"

definition uvmclear :: "uint64 \<Rightarrow> uint64 \<Rightarrow> ('z kmem_state_scheme, unit) km" where
  "uvmclear pagetable va =
     kbind (walk pagetable va False) (\<lambda>pte. kdo [
       kwhen (pte = 0) (panic ''uvmclear''),
       set_mem (\<lambda>m. store64 m pte (and (load64 m pte) (not PTE_U)))])"

subsection \<open>Lazily allocated memory and copies between user and kernel\<close>

definition ismapped :: "uint64 \<Rightarrow> uint64 \<Rightarrow> ('z kmem_state_scheme, bool) km" where
  "ismapped pagetable va =
     kbind (walk pagetable va False) (\<lambda>pte.
     if pte = 0 then kret False
     else kget (\<lambda>s. and (load64 (mem s) pte) PTE_V \<noteq> 0))"

text \<open>The parameter \<^verbatim>\<open>read\<close> of \<^verbatim>\<open>vmfault\<close> is not used by its body.\<close>

definition vmfault :: "uint64 \<Rightarrow> uint64 \<Rightarrow> ('z proc_state_scheme, uint64) km" where
  "vmfault pagetable va =
     kbind curproc (\<lambda>p.
     kbind (kget (\<lambda>s. procs s p)) (\<lambda>x.
     if psz x \<le> va then kret 0
     else let va = PGROUNDDOWN va in
       kbind (ismapped pagetable va) (\<lambda>mapped.
       if mapped then kret 0
       else kbind kalloc (\<lambda>m.
         if m = 0 then kret 0
         else kseq (set_mem (\<lambda>mm. memset mm m 0 PGSIZE)) (
              kbind (mappages (ppagetable x) va 4096 m (or (or PTE_W PTE_U) PTE_R)) (\<lambda>r.
              if r \<noteq> 0 then kseq (kfree m) (kret 0)
              else kret m))))))"

text \<open>The bytes from \<open>va\<close> to the end of its page: \<^verbatim>\<open>PGSIZE - (va - va0)\<close>.\<close>

definition page_room :: "uint64 \<Rightarrow> nat" where
  "page_room va = unat (4096 - (va - PGROUNDDOWN va))"

definition fault_in :: "uint64 \<Rightarrow> uint64 \<Rightarrow> ('z proc_state_scheme, uint64) km" where
  "fault_in pagetable va0 =
     kbind (walkaddr pagetable va0) (\<lambda>pa0.
     if pa0 = 0 then vmfault pagetable va0 else kret pa0)"

lemma page_offset_unat: "unat (va - PGROUNDDOWN va) = unat va mod 4096"
proof -
  have "unat (PGROUNDDOWN va) \<le> unat va" by (simp add: unat_PGROUNDDOWN)
  then have "unat (va - PGROUNDDOWN va) = unat va - unat va div 4096 * 4096"
    by (simp add: unat_sub word_le_nat_alt unat_PGROUNDDOWN)
  then show ?thesis by (simp add: minus_div_mult_eq_mod)
qed

lemma page_room_eq: "page_room va = 4096 - unat va mod 4096"
proof -
  have "unat (va - PGROUNDDOWN va) < 4096" by (simp add: page_offset_unat)
  then have "unat (4096 - (va - PGROUNDDOWN va)) = 4096 - unat (va - PGROUNDDOWN va)"
    by (subst unat_sub) (simp_all add: word_le_nat_alt)
  then show ?thesis by (simp add: page_room_def page_offset_unat)
qed

lemma page_room_pos [simp]: "0 < page_room va"
  by (simp add: page_room_eq)

function copyout :: "uint64 \<Rightarrow> uint64 \<Rightarrow> bytes \<Rightarrow> ('z proc_state_scheme, int) km" where
  "copyout pagetable dstva src =
     (if src = [] then kret 0
      else let va0 = PGROUNDDOWN dstva in
        if MAXVA \<le> va0 then kret (-1)
        else kbind (fault_in pagetable va0) (\<lambda>pa0.
          if pa0 = 0 then kret (-1)
          else kbind (walk pagetable va0 False) (\<lambda>pte.
            if pte = 0 then khalt Fault
            else kbind (kget (\<lambda>s. load64 (mem s) pte)) (\<lambda>e.
              if and e PTE_W = 0 then kret (-1)
              else let n = min (page_room dstva) (length src) in
                kseq (set_mem (\<lambda>m. mem_write m (pa0 + (dstva - va0)) (take n src)))
                     (copyout pagetable (va0 + 4096) (drop n src))))))"
  by pat_completeness auto
termination
  by (relation "measure (\<lambda>(p, d, src). length src)") auto

text \<open>The result of \<^verbatim>\<open>copyin\<close> and the bytes stored in \<^verbatim>\<open>dst\<close>.\<close>

function copyin :: "uint64 \<Rightarrow> uint64 \<Rightarrow> nat \<Rightarrow> ('z proc_state_scheme, int \<times> bytes) km" where
  "copyin pagetable srcva len =
     (if len = 0 then kret (0, [])
      else let va0 = PGROUNDDOWN srcva in
        kbind (fault_in pagetable va0) (\<lambda>pa0.
        if pa0 = 0 then kret (-1, [])
        else let n = min (page_room srcva) len in
          kbind (kget (\<lambda>s. mem_read (mem s) (pa0 + (srcva - va0)) n)) (\<lambda>bs.
          kbind (copyin pagetable (va0 + 4096) (len - n)) (\<lambda>(r, rest).
          kret (r, bs @ rest)))))"
  by pat_completeness auto
termination
  by (relation "measure (\<lambda>(p, d, len). len)") auto

declare copyout.simps [simp del] copyin.simps [simp del]

text \<open>The inner loop of \<^verbatim>\<open>copyinstr\<close> on the bytes of one page: what it stores, and \<^verbatim>\<open>got_null\<close>.\<close>

fun copy_until_nul :: "bytes \<Rightarrow> bytes \<times> bool" where
  "copy_until_nul [] = ([], False)"
| "copy_until_nul (b # bs) =
     (if b = 0 then ([0], True)
      else case copy_until_nul bs of (xs, got) \<Rightarrow> (b # xs, got))"

function copyinstr :: "uint64 \<Rightarrow> uint64 \<Rightarrow> nat \<Rightarrow> ('z kmem_state_scheme, int \<times> bytes) km" where
  "copyinstr pagetable srcva lim =
     (if lim = 0 then kret (-1, [])
      else let va0 = PGROUNDDOWN srcva in
        kbind (walkaddr pagetable va0) (\<lambda>pa0.
        if pa0 = 0 then kret (-1, [])
        else let n = min (page_room srcva) lim in
          kbind (kget (\<lambda>s. copy_until_nul (mem_read (mem s) (pa0 + (srcva - va0)) n))) (\<lambda>(bs, got).
          if got then kret (0, bs)
          else kbind (copyinstr pagetable (va0 + 4096) (lim - n)) (\<lambda>(r, rest).
            kret (r, bs @ rest)))))"
  by pat_completeness auto
termination
  by (relation "measure (\<lambda>(p, d, lim). lim)") auto

declare copyinstr.simps [simp del]

subsection \<open>The kernel's page table\<close>

definition kvmmap ::
  "uint64 \<Rightarrow> uint64 \<Rightarrow> uint64 \<Rightarrow> uint64 \<Rightarrow> uint64 \<Rightarrow> ('z kmem_state_scheme, unit) km" where
  "kvmmap kpgtbl va pa len perm =
     kbind (mappages kpgtbl va len pa perm) (\<lambda>r. kwhen (r \<noteq> 0) (panic ''kvmmap''))"

definition proc_mapstacks :: "uint64 \<Rightarrow> ('z kmem_state_scheme, unit) km" where
  "proc_mapstacks kpgtbl =
     kiter (\<lambda>p.
       kbind kalloc (\<lambda>pa. kdo [
         kwhen (pa = 0) (panic ''kalloc''),
         kvmmap kpgtbl (KSTACK p) pa 4096 (or PTE_R PTE_W)])) [0..<NPROC]"

definition kvmmake :: "('z vm_state_scheme, uint64) km" where
  "kvmmake =
     kbind kalloc (\<lambda>kpgtbl.
     kseq (kwhen (kpgtbl = 0) (khalt Fault)) (
     kseq (set_mem (\<lambda>m. memset m kpgtbl 0 PGSIZE)) (
     kbind (kget etext) (\<lambda>et.
     kbind (kget trampoline) (\<lambda>tr.
     kseq (kdo [
       kvmmap kpgtbl UART0 UART0 4096 (or PTE_R PTE_W),
       kvmmap kpgtbl VIRTIO0 VIRTIO0 4096 (or PTE_R PTE_W),
       kvmmap kpgtbl PLIC PLIC 0x4000000 (or PTE_R PTE_W),
       kvmmap kpgtbl KERNBASE KERNBASE (et - KERNBASE) (or PTE_R PTE_X),
       kvmmap kpgtbl et et (PHYSTOP - et) (or PTE_R PTE_W),
       kvmmap kpgtbl TRAMPOLINE tr 4096 (or PTE_R PTE_X),
       proc_mapstacks kpgtbl])
     (kret kpgtbl))))))"

definition kvminit :: "('z vm_state_scheme, unit) km" where
  "kvminit = kbind kvmmake (\<lambda>pt. kmod (\<lambda>s. s\<lparr>kernel_pagetable := pt\<rparr>))"

definition kvminithart :: "('z vm_state_scheme, unit) km" where
  "kvminithart = kmod (\<lambda>s. s\<lparr>satp := (satp s)(tp s := MAKE_SATP (kernel_pagetable s))\<rparr>)"

end
