(* ===== verification/Procmem.thy ===== *)
theory Procmem
  imports Vm
begin

section \<open>Processes and their memory\<close>

text \<open>
  The part of \<^verbatim>\<open>kernel/proc.c\<close> that allocates and frees a process with its page table:
  \<^verbatim>\<open>proc_pagetable\<close>, \<^verbatim>\<open>proc_freepagetable\<close>, \<^verbatim>\<open>freeproc\<close>, \<^verbatim>\<open>allocproc\<close>, \<^verbatim>\<open>growproc\<close>, and the
  copies that go to a user or a kernel address, \<^verbatim>\<open>either_copyout\<close> and \<^verbatim>\<open>either_copyin\<close>.

  A pointer with its flag \<^verbatim>\<open>user_dst\<close> or \<^verbatim>\<open>user_src\<close> is a \<open>kptr\<close>: a user virtual address, a
  physical page of the kernel, or a position in the caller's object on the kernel stack, which is
  \<open>scratch\<close>.
\<close>

definition proc_pagetable :: "nat \<Rightarrow> ('z vm_state_scheme, uint64) km" where
  "proc_pagetable p =
     kbind uvmcreate (\<lambda>pagetable.
     if pagetable = 0 then kret 0
     else kbind (kget trampoline) (\<lambda>tr.
       kbind (mappages pagetable TRAMPOLINE 4096 tr (or PTE_R PTE_X)) (\<lambda>r.
       if r < 0 then kseq (uvmfree pagetable 0) (kret 0)
       else kbind (kget (\<lambda>s. ptrapframe (procs s p))) (\<lambda>tf.
         kbind (mappages pagetable TRAPFRAME 4096 tf (or PTE_R PTE_W)) (\<lambda>r.
         if r < 0
         then kseq (uvmunmap pagetable TRAMPOLINE 1 False) (
              kseq (uvmfree pagetable 0) (kret 0))
         else kret pagetable)))))"

definition proc_freepagetable :: "uint64 \<Rightarrow> uint64 \<Rightarrow> ('z kmem_state_scheme, unit) km" where
  "proc_freepagetable pagetable sz = kdo [
     uvmunmap pagetable TRAMPOLINE 1 False,
     uvmunmap pagetable TRAPFRAME 1 False,
     uvmfree pagetable sz]"

definition freeproc :: "nat \<Rightarrow> ('z vm_state_scheme, unit) km" where
  "freeproc p =
     kbind (kget (\<lambda>s. procs s p)) (\<lambda>x. kdo [
       kwhen (ptrapframe x \<noteq> 0) (kfree (ptrapframe x)),
       upd_proc p (\<lambda>x. x\<lparr>ptrapframe := 0\<rparr>),
       kwhen (ppagetable x \<noteq> 0) (proc_freepagetable (ppagetable x) (psz x)),
       upd_proc p (\<lambda>x. x\<lparr>ppagetable := 0, psz := 0, pid := 0, parent := None,
         pname := (pname x)[0 := 0], chan := None, killed_flag := 0, xstate := 0,
         pstate := UNUSED\<rparr>)])"

text \<open>The label \<^verbatim>\<open>found\<close> of \<^verbatim>\<open>allocproc\<close>, reached with the lock of \<open>p\<close> held.\<close>

definition allocproc_found :: "nat \<Rightarrow> ('z vm_state_scheme, nat option) km" where
  "allocproc_found p =
     (let fail = kseq (freeproc p) (kseq (release (Lk_proc p)) (kret None)) in
      kbind allocpid (\<lambda>n.
      kseq (upd_proc p (\<lambda>x. x\<lparr>pid := n\<rparr>)) (
      kseq (upd_proc p (\<lambda>x. x\<lparr>pstate := USED\<rparr>)) (
      kbind kalloc (\<lambda>tf.
      kseq (upd_proc p (\<lambda>x. x\<lparr>ptrapframe := tf\<rparr>)) (
      if tf = 0 then fail
      else kbind (proc_pagetable p) (\<lambda>pt.
        kseq (upd_proc p (\<lambda>x. x\<lparr>ppagetable := pt\<rparr>)) (
        if pt = 0 then fail
        else kbind (kget forkret_pc) (\<lambda>fr.
          kseq (upd_proc p (\<lambda>x. x\<lparr>pcontext := \<lparr>ctx_ra = 0, ctx_sp = 0,
                  callee_saved = replicate 12 0\<rparr>\<rparr>)) (
          kseq (upd_proc p (\<lambda>x. x\<lparr>pcontext := (pcontext x)\<lparr>ctx_ra := fr\<rparr>\<rparr>)) (
          kseq (upd_proc p (\<lambda>x. x\<lparr>pcontext := (pcontext x)\<lparr>ctx_sp := kstack x + 4096\<rparr>\<rparr>))
               (kret (Some p)))))))))))))"

definition allocproc :: "('z vm_state_scheme, nat option) km" where
  "allocproc =
     kbind (kscan (\<lambda>p.
       kseq (acquire (Lk_proc p)) (
       kbind (kget (\<lambda>s. pstate (procs s p))) (\<lambda>st.
       if st = UNUSED then kret (Some p)
       else kseq (release (Lk_proc p)) (kret None)))) [0..<NPROC]) (\<lambda>r.
     case r of None \<Rightarrow> kret None | Some p \<Rightarrow> allocproc_found p)"

text \<open>\<open>sz + n\<close> adds the sign-extended \<^verbatim>\<open>int\<close> to the unsigned size.\<close>

definition growproc :: "uint32 \<Rightarrow> ('z vm_state_scheme, int) km" where
  "growproc n =
     kbind curproc (\<lambda>p.
     kbind (kget (\<lambda>s. procs s p)) (\<lambda>x.
     let sz = psz x; set_sz = (\<lambda>v. kseq (upd_proc p (\<lambda>x. x\<lparr>psz := v\<rparr>)) (kret 0)) in
     if 0 < sint n
     then kbind (uvmalloc (ppagetable x) sz (sz + scast n) PTE_W) (\<lambda>v.
       if v = 0 then kret (-1) else set_sz v)
     else if sint n < 0
     then kbind (uvmdealloc (ppagetable x) sz (sz + scast n)) set_sz
     else set_sz sz))"

datatype kptr = User uint64 | Kern uint64 | Local nat

fun kptr_add :: "kptr \<Rightarrow> nat \<Rightarrow> kptr" where
  "kptr_add (User a) n = User (a + of_nat n)"
| "kptr_add (Kern a) n = Kern (a + of_nat n)"
| "kptr_add (Local i) n = Local (i + n)"

definition splice :: "nat \<Rightarrow> bytes \<Rightarrow> bytes \<Rightarrow> bytes" where
  "splice i src xs = take i xs @ src @ drop (i + length src) xs"

fun either_copyout :: "kptr \<Rightarrow> bytes \<Rightarrow> ('z vm_state_scheme, int) km" where
  "either_copyout (User dst) src =
     kbind curproc (\<lambda>p.
     kbind (kget (\<lambda>s. ppagetable (procs s p))) (\<lambda>pt.
     copyout pt dst src))"
| "either_copyout (Kern dst) src =
     kseq myproc (kseq (set_mem (\<lambda>m. mem_write m dst src)) (kret 0))"
| "either_copyout (Local i) src =
     kseq myproc (kseq (kmod (\<lambda>s. s\<lparr>scratch := splice i src (scratch s)\<rparr>)) (kret 0))"

text \<open>The result and the bytes stored in \<^verbatim>\<open>dst\<close>.\<close>

fun either_copyin :: "kptr \<Rightarrow> nat \<Rightarrow> ('z vm_state_scheme, int \<times> bytes) km" where
  "either_copyin (User src) len =
     kbind curproc (\<lambda>p.
     kbind (kget (\<lambda>s. ppagetable (procs s p))) (\<lambda>pt.
     copyin pt src len))"
| "either_copyin (Kern src) len =
     kseq myproc (kget (\<lambda>s. (0, mem_read (mem s) src len)))"
| "either_copyin (Local i) len =
     kseq myproc (kget (\<lambda>s. (0, take len (drop i (scratch s)))))"

subsection \<open>Machine operations and the fields of virtual memory\<close>

lemma vm_touch [simp]:
  "kernel_pagetable (touch s) = kernel_pagetable s" "etext (touch s) = etext s"
  "trampoline (touch s) = trampoline s" "forkret_pc (touch s) = forkret_pc s"
  "satp (touch s) = satp s" "scratch (touch s) = scratch s"
  "touch (s\<lparr>scratch := x\<rparr>) = (touch s)\<lparr>scratch := x\<rparr>"
  by (simp_all add: touch_def)

lemma vm_entered [simp]:
  "scratch (entered lk s) = scratch s"
  "entered lk (s\<lparr>scratch := x\<rparr>) = (entered lk s)\<lparr>scratch := x\<rparr>"
  by (simp_all add: entered_def)

lemma vm_left [simp]:
  "scratch (left lk s) = scratch s"
  "left lk (s\<lparr>scratch := x\<rparr>) = (left lk s)\<lparr>scratch := x\<rparr>"
  by (simp_all add: left_def)

lemma vm_lkok [simp]: "held (s\<lparr>scratch := x\<rparr>) = held s" "lkok (s\<lparr>scratch := x\<rparr>) = lkok s"
  by (simp_all add: held_def lkok_def holds_def lock_mine_def lock_free_def)

end
