(* ===== verification/Sleeplock.thy ===== *)
theory Sleeplock
  imports Procmem
begin

section \<open>Sleep locks\<close>

text \<open>
  \<^verbatim>\<open>kernel/sleeplock.c\<close>. The loop of \<^verbatim>\<open>acquiresleep\<close> is \<open>acquiresleep_loop\<close>: a process that finds
  the lock taken sleeps, which ends its run with \<open>Halt Switch\<close>; scheduled again it runs
  \<open>sleep_resume\<close> and then the loop once more. The step relation \<open>sl_step\<close> interleaves any number
  of processes that take, wait for and release sleep locks in this way.
\<close>

record sleeplock =
  slocked :: bool
  slname :: string
  slpid :: uint32

record sl_state = vm_state +
  slocks :: "slid \<Rightarrow> sleeplock"

definition upd_sl :: "slid \<Rightarrow> (sleeplock \<Rightarrow> sleeplock) \<Rightarrow> ('z sl_state_scheme, unit) km" where
  "upd_sl sl f = kmod (\<lambda>s. s\<lparr>slocks := (slocks s)(sl := f (slocks s sl))\<rparr>)"

definition initsleeplock :: "slid \<Rightarrow> string \<Rightarrow> ('z sl_state_scheme, unit) km" where
  "initsleeplock sl name = kdo [
     initlock (Lk_sleep sl) ''sleep lock'',
     upd_sl sl (\<lambda>l. l\<lparr>slname := name\<rparr>),
     upd_sl sl (\<lambda>l. l\<lparr>slocked := False\<rparr>),
     upd_sl sl (\<lambda>l. l\<lparr>slpid := 0\<rparr>)]"

text \<open>The statements of \<^verbatim>\<open>acquiresleep\<close> after the loop, and those of \<^verbatim>\<open>releasesleep\<close> around \<^verbatim>\<open>wakeup\<close>.\<close>

definition acquiresleep_code :: "slid \<Rightarrow> ('z sl_state_scheme, unit) km list" where
  "acquiresleep_code sl = [
     upd_sl sl (\<lambda>l. l\<lparr>slocked := True\<rparr>),
     kbind curproc (\<lambda>p.
       kbind (kget (\<lambda>s. pid (procs s p))) (\<lambda>n. upd_sl sl (\<lambda>l. l\<lparr>slpid := n\<rparr>))),
     release (Lk_sleep sl)]"

definition acquiresleep_loop :: "slid \<Rightarrow> ('z sl_state_scheme, unit) km" where
  "acquiresleep_loop sl =
     kbind (kget (\<lambda>s. slocked (slocks s sl))) (\<lambda>l.
     if l then sleep (Ch_sleeplock sl) (Lk_sleep sl) else kdo (acquiresleep_code sl))"

definition acquiresleep :: "slid \<Rightarrow> ('z sl_state_scheme, unit) km" where
  "acquiresleep sl = kdo [acquire (Lk_sleep sl), acquiresleep_loop sl]"

definition releasesleep_code :: "slid \<Rightarrow> ('z sl_state_scheme, unit) km list" where
  "releasesleep_code sl = [
     acquire (Lk_sleep sl),
     upd_sl sl (\<lambda>l. l\<lparr>slocked := False\<rparr>),
     upd_sl sl (\<lambda>l. l\<lparr>slpid := 0\<rparr>)]"

definition releasesleep :: "slid \<Rightarrow> ('z sl_state_scheme, unit) km" where
  "releasesleep sl = kdo (releasesleep_code sl @ [wakeup (Some (Ch_sleeplock sl)), release (Lk_sleep sl)])"

definition holdingsleep :: "slid \<Rightarrow> ('z sl_state_scheme, bool) km" where
  "holdingsleep sl =
     with_lock (Lk_sleep sl) (
       kbind (kget (\<lambda>s. slocked (slocks s sl))) (\<lambda>l.
       if l then kbind curproc (\<lambda>p. kget (\<lambda>s. slpid (slocks s sl) = pid (procs s p)))
       else kret False))"

subsection \<open>Machine operations and the new field\<close>

lemma sl_touch [simp]:
  "slocks (touch s) = slocks s" "touch (s\<lparr>slocks := x\<rparr>) = (touch s)\<lparr>slocks := x\<rparr>"
  by (simp_all add: touch_def)

lemma sl_entered [simp]:
  "slocks (entered lk s) = slocks s"
  "entered lk (s\<lparr>slocks := x\<rparr>) = (entered lk s)\<lparr>slocks := x\<rparr>"
  by (simp_all add: entered_def)

lemma sl_left [simp]:
  "slocks (left lk s) = slocks s" "left lk (s\<lparr>slocks := x\<rparr>) = (left lk s)\<lparr>slocks := x\<rparr>"
  by (simp_all add: left_def)

lemma sl_lkok [simp]: "held (s\<lparr>slocks := x\<rparr>) = held s" "lkok (s\<lparr>slocks := x\<rparr>) = lkok s"
  by (simp_all add: held_def lkok_def holds_def lock_mine_def lock_free_def)

lemma sl_wakeall [simp]: "slocks (wakeall c s) = slocks s"
  by (simp add: wakeall_def)

subsection \<open>What the operations do\<close>

definition sl_taken :: "slid \<Rightarrow> uint32 \<Rightarrow> 'z sl_state_scheme \<Rightarrow> 'z sl_state_scheme" where
  "sl_taken sl n s = s\<lparr>slocks := (slocks s)(sl := (slocks s sl)\<lparr>slocked := True, slpid := n\<rparr>)\<rparr>"

definition sl_dropped :: "slid \<Rightarrow> 'z sl_state_scheme \<Rightarrow> 'z sl_state_scheme" where
  "sl_dropped sl s = s\<lparr>slocks := (slocks s)(sl := (slocks s sl)\<lparr>slocked := False, slpid := 0\<rparr>)\<rparr>"

lemma acquiresleep_loop_free:
  assumes "lkok s" "Lk_sleep sl \<in> held s" "\<not> slocked (slocks s sl)" "myp s = Some p"
  shows "acquiresleep_loop sl s = Ret () (left (Lk_sleep sl) (sl_taken sl (pid (procs s p)) s))"
proof -
  have [simp]: "touch s = s" using assms by (auto intro: touch_in)
  show ?thesis using assms by (simp add: acquiresleep_loop_def acquiresleep_code_def upd_sl_def sl_taken_def)
qed

lemma acquiresleep_loop_busy:
  assumes "lkok s" "Lk_sleep sl \<in> held s" "slocked (slocks s sl)" "myp s = Some p"
    "Lk_proc p \<notin> held s" "mynoff s = 1"
  shows "acquiresleep_loop sl s = Halt Switch (asleep (Ch_sleeplock sl) (Lk_sleep sl) p s)"
  using assms by (simp add: acquiresleep_loop_def sleep_eq)

lemma acquiresleep_free:
  assumes "lkok s" "Lk_sleep sl \<notin> held s" "\<not> slocked (slocks s sl)" "myp s = Some p"
  shows "acquiresleep sl s = Ret () (touch (sl_taken sl (pid (procs s p)) s))"
  using assms
  by (simp add: acquiresleep_def acquiresleep_loop_free [where p = p]) (simp add: sl_taken_def)

lemma acquiresleep_busy:
  assumes "lkok s" "Lk_sleep sl \<notin> held s" "slocked (slocks s sl)" "myp s = Some p"
    "Lk_proc p \<notin> held s" "mynoff s = 0"
  shows "acquiresleep sl s =
    Halt Switch (asleep (Ch_sleeplock sl) (Lk_sleep sl) p (entered (Lk_sleep sl) s))"
  using assms by (simp add: acquiresleep_def acquiresleep_loop_busy [where p = p])

lemma releasesleep_eq:
  assumes "lkok s" "Lk_sleep sl \<notin> held s" "\<And>p. Lk_proc p \<notin> held s"
  shows "releasesleep sl s =
    Ret () (touch (sl_dropped sl s)\<lparr>procs := (\<lambda>p. if p < NPROC \<and> Some p \<noteq> myp s
       then woken (Some (Ch_sleeplock sl)) (procs s p) else procs s p)\<rparr>)"
  using assms by (simp add: releasesleep_def releasesleep_code_def upd_sl_def wakeall_def sl_dropped_def cong: if_cong)

lemma holdingsleep_eq:
  assumes "lkok s" "Lk_sleep sl \<notin> held s" "myp s = Some p"
  shows "holdingsleep sl s =
    Ret (slocked (slocks s sl) \<and> slpid (slocks s sl) = pid (procs s p)) (touch s)"
  using assms by (simp add: holdingsleep_def)

subsection \<open>Many processes\<close>

text \<open>
  The scheduler puts process \<open>p\<close> on the executing hart.
\<close>

definition run_as :: "nat \<Rightarrow> 'z proc_state_scheme \<Rightarrow> 'z proc_state_scheme" where
  "run_as p s =
     s\<lparr>cpus := (cpus s)(tp s := (cpus s (tp s))\<lparr>cproc := Some p\<rparr>),
       procs := (procs s)(p := (procs s p)\<lparr>pstate := RUNNING\<rparr>)\<rparr>"

lemma run_as_simps [simp]:
  "lkok (run_as p s) = lkok s" "held (run_as p s) = held s" "tp (run_as p s) = tp s"
  "cproc (cpus (run_as p s) (tp s)) = Some p" "noff (cpus (run_as p s) h) = noff (cpus s h)"
  "procs (run_as p s) = (procs s)(p := (procs s p)\<lparr>pstate := RUNNING\<rparr>)"
  by (simp_all add: run_as_def)

lemma sl_run_as [simp]: "slocks (run_as p s) = slocks s"
  by (simp add: run_as_def)

datatype slpc = Outside | Waiting slid

record sl_sys =
  slk :: sl_state
  slpcs :: "nat \<Rightarrow> slpc"
  inside_sl :: "nat \<Rightarrow> slid set"

definition sl_init :: "sl_sys \<Rightarrow> bool" where
  "sl_init x \<longleftrightarrow>
     lkok (slk x) \<and> held (slk x) = {} \<and> mynoff (slk x) = 0 \<and>
     (\<forall>sl. \<not> slocked (slocks (slk x) sl)) \<and>
     inj_on (\<lambda>p. pid (procs (slk x) p)) {..<NPROC} \<and>
     (\<forall>p<NPROC. pstate (procs (slk x) p) \<noteq> SLEEPING) \<and>
     slpcs x = (\<lambda>_. Outside) \<and> inside_sl x = (\<lambda>_. {})"

inductive sl_step :: "sl_sys \<Rightarrow> sl_sys \<Rightarrow> bool" where
  sl_take: "p < NPROC \<Longrightarrow> slpcs x p = Outside \<Longrightarrow>
    acquiresleep sl (run_as p (slk x)) = Ret () t \<Longrightarrow>
    sl_step x (x\<lparr>slk := t, inside_sl := (inside_sl x)(p := insert sl (inside_sl x p))\<rparr>)"
| sl_block: "p < NPROC \<Longrightarrow> slpcs x p = Outside \<Longrightarrow>
    acquiresleep sl (run_as p (slk x)) = Halt Switch t \<Longrightarrow> scheduler_resume p t = Ret () u \<Longrightarrow>
    sl_step x (x\<lparr>slk := u, slpcs := (slpcs x)(p := Waiting sl)\<rparr>)"
| sl_retake: "p < NPROC \<Longrightarrow> slpcs x p = Waiting sl \<Longrightarrow>
    scheduler_turn p (slk x) = Halt Switch t \<Longrightarrow> sleep_resume i p (Lk_sleep sl) t = Ret () u \<Longrightarrow>
    acquiresleep_loop sl u = Ret () v \<Longrightarrow>
    sl_step x (x\<lparr>slk := v, slpcs := (slpcs x)(p := Outside),
                 inside_sl := (inside_sl x)(p := insert sl (inside_sl x p))\<rparr>)"
| sl_reblock: "p < NPROC \<Longrightarrow> slpcs x p = Waiting sl \<Longrightarrow>
    scheduler_turn p (slk x) = Halt Switch t \<Longrightarrow> sleep_resume i p (Lk_sleep sl) t = Ret () u \<Longrightarrow>
    acquiresleep_loop sl u = Halt Switch v \<Longrightarrow> scheduler_resume p v = Ret () w \<Longrightarrow>
    sl_step x (x\<lparr>slk := w\<rparr>)"
| sl_drop: "p < NPROC \<Longrightarrow> slpcs x p = Outside \<Longrightarrow> sl \<in> inside_sl x p \<Longrightarrow>
    releasesleep sl (run_as p (slk x)) = Ret () t \<Longrightarrow>
    sl_step x (x\<lparr>slk := t, inside_sl := (inside_sl x)(p := inside_sl x p - {sl})\<rparr>)"

inductive sl_reach :: "sl_sys \<Rightarrow> bool" where
  sl_start: "sl_init x \<Longrightarrow> sl_reach x"
| sl_more: "sl_reach x \<Longrightarrow> sl_step x y \<Longrightarrow> sl_reach y"

definition quiet :: "'z machine_scheme \<Rightarrow> bool" where
  "quiet s \<longleftrightarrow> lkok s \<and> held s = {} \<and> mynoff s = 0"

definition sl_inv :: "sl_sys \<Rightarrow> bool" where
  "sl_inv x \<longleftrightarrow>
     quiet (slk x) \<and> inj_on (\<lambda>p. pid (procs (slk x) p)) {..<NPROC} \<and>
     (\<forall>p. NPROC \<le> p \<longrightarrow> inside_sl x p = {}) \<and>
     (\<forall>sl. slocked (slocks (slk x) sl) \<longleftrightarrow> (\<exists>p. sl \<in> inside_sl x p)) \<and>
     (\<forall>sl p. sl \<in> inside_sl x p \<longrightarrow> slpid (slocks (slk x) sl) = pid (procs (slk x) p)) \<and>
     (\<forall>p<NPROC. pstate (procs (slk x) p) = SLEEPING \<longrightarrow>
        (\<exists>sl. slpcs x p = Waiting sl \<and> chan (procs (slk x) p) = Some (Ch_sleeplock sl) \<and>
              slocked (slocks (slk x) sl))) \<and>
     (\<forall>p sl. slpcs x p = Waiting sl \<longrightarrow>
        p < NPROC \<and> (pstate (procs (slk x) p) = SLEEPING \<or> pstate (procs (slk x) p) = RUNNABLE))"

lemma sl_inv_unique:
  assumes "sl_inv x" "sl \<in> inside_sl x p" "sl \<in> inside_sl x q"
  shows "p = q"
proof -
  have "p < NPROC" "q < NPROC" using assms by (auto simp: sl_inv_def not_less [symmetric])
  moreover have "pid (procs (slk x) p) = pid (procs (slk x) q)"
    using assms unfolding sl_inv_def by metis
  ultimately show ?thesis using assms(1) by (auto simp: sl_inv_def inj_on_def)
qed

lemma sl_init_inv: "sl_init x \<Longrightarrow> sl_inv x"
  by (auto simp: sl_init_def sl_inv_def quiet_def)

lemma sl_taken_simps [simp]:
  "lkok (sl_taken sl n s) = lkok s" "held (sl_taken sl n s) = held s" "tp (sl_taken sl n s) = tp s"
  "cpus (sl_taken sl n s) = cpus s" "procs (sl_taken sl n s) = procs s"
  "slocks (sl_taken sl n s) = (slocks s)(sl := (slocks s sl)\<lparr>slocked := True, slpid := n\<rparr>)"
  by (simp_all add: sl_taken_def)

lemma sl_dropped_simps [simp]:
  "lkok (sl_dropped sl s) = lkok s" "held (sl_dropped sl s) = held s"
  "tp (sl_dropped sl s) = tp s" "cpus (sl_dropped sl s) = cpus s" "procs (sl_dropped sl s) = procs s"
  "slocks (sl_dropped sl s) = (slocks s)(sl := (slocks s sl)\<lparr>slocked := False, slpid := 0\<rparr>)"
  by (simp_all add: sl_dropped_def)

lemma sl_sched_simps [simp]:
  "slocks (unscheduled p s) = slocks s" "slocks (scheduled p s) = slocks s"
  "slocks (resumed i p s) = slocks s" "slocks (asleep c lk p s) = slocks s"
  by (simp_all add: unscheduled_def scheduled_def resumed_def asleep_def)

text \<open>What each step does to a state in which no spinlock is held.\<close>

lemma take_result:
  assumes "quiet s" "acquiresleep sl (run_as p s) = Ret () t"
  shows "\<not> slocked (slocks s sl)" "quiet t"
    "procs t = (procs s)(p := (procs s p)\<lparr>pstate := RUNNING\<rparr>)"
    "slocks t = (slocks s)(sl := (slocks s sl)\<lparr>slocked := True, slpid := pid (procs s p)\<rparr>)"
proof -
  have s: "lkok (run_as p s)" "held (run_as p s) = {}" "mynoff (run_as p s) = 0"
    "myp (run_as p s) = Some p" using assms(1) by (auto simp: quiet_def)
  show n: "\<not> slocked (slocks s sl)"
    using assms(2) acquiresleep_busy [of "run_as p s" sl p] s by auto
  have "t = touch (sl_taken sl (pid (procs s p)) (run_as p s))"
    using assms(2) acquiresleep_free [of "run_as p s" sl p] s n by simp
  then show "quiet t" "procs t = (procs s)(p := (procs s p)\<lparr>pstate := RUNNING\<rparr>)"
    "slocks t = (slocks s)(sl := (slocks s sl)\<lparr>slocked := True, slpid := pid (procs s p)\<rparr>)"
    using s by (simp_all add: quiet_def)
qed

lemma block_result:
  assumes "quiet s" "acquiresleep sl (run_as p s) = Halt Switch t" "scheduler_resume p t = Ret () u"
  shows "slocked (slocks s sl)" "quiet u" "slocks u = slocks s"
    "procs u = (procs s)(p := (procs s p)\<lparr>chan := Some (Ch_sleeplock sl), pstate := SLEEPING\<rparr>)"
proof -
  let ?e = "entered (Lk_sleep sl) (run_as p s)"
  have s: "lkok (run_as p s)" "held (run_as p s) = {}" "mynoff (run_as p s) = 0"
    "myp (run_as p s) = Some p" using assms(1) by (auto simp: quiet_def)
  show l: "slocked (slocks s sl)"
    using assms(2) acquiresleep_free [of "run_as p s" sl p] s by auto
  have t: "t = asleep (Ch_sleeplock sl) (Lk_sleep sl) p ?e"
    using assms(2) acquiresleep_busy [of "run_as p s" sl p] s l by simp
  have a: "lkok t" "held t = {Lk_proc p}" "tp t = tp s" "noff (cpus t (tp s)) = 1"
    "slocks t = slocks s"
    "procs t = (procs s)(p := (procs s p)\<lparr>chan := Some (Ch_sleeplock sl), pstate := SLEEPING\<rparr>)"
    using s by (auto simp: t)
  have "u = unscheduled p t" using assms(3) a scheduler_resume_eq [of t p] by simp
  then show "quiet u" "slocks u = slocks s"
    "procs u = (procs s)(p := (procs s p)\<lparr>chan := Some (Ch_sleeplock sl), pstate := SLEEPING\<rparr>)"
    using a by (simp_all add: quiet_def)
qed

lemma resume_result:
  assumes "quiet s" "scheduler_turn p s = Halt Switch t" "sleep_resume i p (Lk_sleep sl) t = Ret () u"
  shows "lkok u" "held u = {Lk_sleep sl}" "mynoff u = 1" "myp u = Some p" "slocks u = slocks s"
    "procs u = (procs s)(p := (procs s p)\<lparr>pstate := RUNNING, chan := None\<rparr>)"
proof -
  have s: "lkok s" "held s = {}" "mynoff s = 0" using assms(1) by (auto simp: quiet_def)
  have t: "t = scheduled p s"
    using assms(2) scheduler_turn_eq [of s p] s by (auto split: if_splits)
  have a: "lkok t" "held t = {Lk_proc p}" "tp t = tp s" "noff (cpus t (tp s)) = 1"
    "cproc (cpus t (tp s)) = Some p" "slocks t = slocks s"
    "procs t = (procs s)(p := (procs s p)\<lparr>pstate := RUNNING\<rparr>)"
    using s by (auto simp: t)
  have "u = entered (Lk_sleep sl) ((resumed i p t)\<lparr>procs := (procs t)(p := (procs t p)\<lparr>chan := None\<rparr>)\<rparr>)"
    using assms(3) a sleep_resume_eq [of t p "Lk_sleep sl" i] by simp
  then show "lkok u" "held u = {Lk_sleep sl}" "mynoff u = 1" "myp u = Some p" "slocks u = slocks s"
    "procs u = (procs s)(p := (procs s p)\<lparr>pstate := RUNNING, chan := None\<rparr>)"
    using a by simp_all
qed

lemma retake_result:
  assumes u: "lkok u" "held u = {Lk_sleep sl}" "mynoff u = 1" "myp u = Some p"
    and run: "acquiresleep_loop sl u = Ret () v"
  shows "\<not> slocked (slocks u sl)" "quiet v" "procs v = procs u"
    "slocks v = (slocks u)(sl := (slocks u sl)\<lparr>slocked := True, slpid := pid (procs u p)\<rparr>)"
proof -
  show n: "\<not> slocked (slocks u sl)"
    using run acquiresleep_loop_busy [of u sl p] u by auto
  have "v = left (Lk_sleep sl) (sl_taken sl (pid (procs u p)) u)"
    using run acquiresleep_loop_free [of u sl p] u n by simp
  then show "quiet v" "procs v = procs u"
    "slocks v = (slocks u)(sl := (slocks u sl)\<lparr>slocked := True, slpid := pid (procs u p)\<rparr>)"
    using u by (simp_all add: quiet_def)
qed

lemma reblock_result:
  assumes u: "lkok u" "held u = {Lk_sleep sl}" "mynoff u = 1" "myp u = Some p"
    and run: "acquiresleep_loop sl u = Halt Switch v" "scheduler_resume p v = Ret () w"
  shows "slocked (slocks u sl)" "quiet w" "slocks w = slocks u"
    "procs w = (procs u)(p := (procs u p)\<lparr>chan := Some (Ch_sleeplock sl), pstate := SLEEPING\<rparr>)"
proof -
  show l: "slocked (slocks u sl)"
    using run(1) acquiresleep_loop_free [of u sl p] u by auto
  have v: "v = asleep (Ch_sleeplock sl) (Lk_sleep sl) p u"
    using run(1) acquiresleep_loop_busy [of u sl p] u l by simp
  have a: "lkok v" "held v = {Lk_proc p}" "tp v = tp u" "noff (cpus v (tp u)) = 1"
    "slocks v = slocks u"
    "procs v = (procs u)(p := (procs u p)\<lparr>chan := Some (Ch_sleeplock sl), pstate := SLEEPING\<rparr>)"
    using u by (auto simp: v)
  have "w = unscheduled p v" using run(2) a scheduler_resume_eq [of v p] by simp
  then show "quiet w" "slocks w = slocks u"
    "procs w = (procs u)(p := (procs u p)\<lparr>chan := Some (Ch_sleeplock sl), pstate := SLEEPING\<rparr>)"
    using a by (simp_all add: quiet_def)
qed

lemma drop_result:
  assumes "quiet s" "releasesleep sl (run_as p s) = Ret () t"
  shows "quiet t"
    "slocks t = (slocks s)(sl := (slocks s sl)\<lparr>slocked := False, slpid := 0\<rparr>)"
    "procs t = (\<lambda>q. if q < NPROC \<and> q \<noteq> p then woken (Some (Ch_sleeplock sl)) (procs s q)
       else procs (run_as p s) q)"
proof -
  have s: "lkok (run_as p s)" "held (run_as p s) = {}" "mynoff (run_as p s) = 0"
    "myp (run_as p s) = Some p" using assms(1) by (auto simp: quiet_def)
  have "t = touch (sl_dropped sl (run_as p s))\<lparr>procs := (\<lambda>q. if q < NPROC \<and> Some q \<noteq> Some p
       then woken (Some (Ch_sleeplock sl)) (procs (run_as p s) q) else procs (run_as p s) q)\<rparr>"
    using assms(2) releasesleep_eq [of "run_as p s" sl] s by simp
  then show "quiet t"
    "slocks t = (slocks s)(sl := (slocks s sl)\<lparr>slocked := False, slpid := 0\<rparr>)"
    "procs t = (\<lambda>q. if q < NPROC \<and> q \<noteq> p then woken (Some (Ch_sleeplock sl)) (procs s q)
       else procs (run_as p s) q)"
    using s by (auto simp: quiet_def fun_eq_iff)
qed

lemma sl_inv_gain:
  assumes inv: "sl_inv x" and p: "p < NPROC" "\<not> slocked (slocks (slk x) sl)" "pcs p = Outside"
    and v: "quiet v" "\<And>r. pid (procs v r) = pid (procs (slk x) r)" "pstate (procs v p) = RUNNING"
      "\<And>r. r \<noteq> p \<Longrightarrow> procs v r = procs (slk x) r" "\<And>r. r \<noteq> p \<Longrightarrow> pcs r = slpcs x r"
      "slocks v = (slocks (slk x))
        (sl := (slocks (slk x) sl)\<lparr>slocked := True, slpid := pid (procs (slk x) p)\<rparr>)"
  shows "sl_inv (x\<lparr>slk := v, slpcs := pcs,
    inside_sl := (inside_sl x)(p := insert sl (inside_sl x p))\<rparr>)"
proof -
  have none: "sl \<notin> inside_sl x r" for r using inv p(2) by (auto simp: sl_inv_def)
  have "slocked (slocks v l) \<longleftrightarrow> (\<exists>r. l \<in> ((inside_sl x)(p := insert sl (inside_sl x p))) r)" for l
    using inv v(6) by (cases "l = sl") (auto simp: sl_inv_def split: if_splits)
  moreover have "slpid (slocks v l) = pid (procs v r)"
    if "l \<in> ((inside_sl x)(p := insert sl (inside_sl x p))) r" for l r
    using inv none that v(2,6) by (auto simp: sl_inv_def split: if_splits)
  moreover have "\<exists>l. pcs r = Waiting l \<and> chan (procs v r) = Some (Ch_sleeplock l) \<and> slocked (slocks v l)"
    if rN: "r < NPROC" and rs: "pstate (procs v r) = SLEEPING" for r
  proof -
    have "r \<noteq> p" using rs v(3) by auto
    then have "pstate (procs (slk x) r) = SLEEPING" using rs v(4) by simp
    then obtain l where "slpcs x r = Waiting l" "chan (procs (slk x) r) = Some (Ch_sleeplock l)"
      "slocked (slocks (slk x) l)" using inv rN unfolding sl_inv_def by blast
    then show ?thesis using v(4-6) \<open>r \<noteq> p\<close> p(2) by auto
  qed
  moreover have "r < NPROC \<and> (pstate (procs v r) = SLEEPING \<or> pstate (procs v r) = RUNNABLE)"
    if "pcs r = Waiting l" for r l
  proof -
    have "r \<noteq> p" using that p(3) by auto
    then show ?thesis using inv that v(4,5) by (auto simp: sl_inv_def)
  qed
  ultimately show ?thesis using inv v(1,2) p(1) by (simp add: sl_inv_def)
qed

lemma sl_inv_sleep:
  assumes inv: "sl_inv x" and l: "slocked (slocks (slk x) sl)"
    and v: "quiet v" "\<And>r. pid (procs v r) = pid (procs (slk x) r)" "slocks v = slocks (slk x)"
      "chan (procs v p) = Some (Ch_sleeplock sl)" "\<And>r. r \<noteq> p \<Longrightarrow> procs v r = procs (slk x) r"
      "pstate (procs v p) = SLEEPING" "p < NPROC" "pcs = (slpcs x)(p := Waiting sl)"
  shows "sl_inv (x\<lparr>slk := v, slpcs := pcs\<rparr>)"
proof -
  have "\<exists>l. pcs r = Waiting l \<and> chan (procs v r) = Some (Ch_sleeplock l) \<and> slocked (slocks v l)"
    if "r < NPROC" "pstate (procs v r) = SLEEPING" for r
    using inv that v(3-8) l by (cases "r = p") (auto simp: sl_inv_def)
  moreover have "r < NPROC \<and> (pstate (procs v r) = SLEEPING \<or> pstate (procs v r) = RUNNABLE)"
    if "pcs r = Waiting k" for r k
    using inv that v(5-8) by (cases "r = p") (auto simp: sl_inv_def)
  ultimately show ?thesis using inv v(1-3) by (simp add: sl_inv_def)
qed

lemma sl_inv_lose:
  assumes inv: "sl_inv x" and p: "p < NPROC" "sl \<in> inside_sl x p" "slpcs x p = Outside"
    and v: "quiet v" "\<And>r. pid (procs v r) = pid (procs (slk x) r)"
      "slocks v = (slocks (slk x))(sl := (slocks (slk x) sl)\<lparr>slocked := False, slpid := 0\<rparr>)"
      "pstate (procs v p) = RUNNING"
      "\<And>r. r < NPROC \<Longrightarrow> r \<noteq> p \<Longrightarrow> procs v r = woken (Some (Ch_sleeplock sl)) (procs (slk x) r)"
  shows "sl_inv (x\<lparr>slk := v, inside_sl := (inside_sl x)(p := inside_sl x p - {sl})\<rparr>)"
proof -
  have only: "sl \<in> inside_sl x r \<longleftrightarrow> r = p" for r
    using sl_inv_unique [OF inv] p(2) by blast
  define I where "I = (inside_sl x)(p := inside_sl x p - {sl})"
  have ins: "l \<in> I r \<longleftrightarrow> l \<in> inside_sl x r \<and> l \<noteq> sl" for l r
    using only [of r] by (auto simp: I_def)
  have "slocked (slocks v l) \<longleftrightarrow> (\<exists>r. l \<in> inside_sl x r \<and> l \<noteq> sl)" for l
    using inv v(3) by (cases "l = sl") (auto simp: sl_inv_def)
  moreover have "slpid (slocks v l) = pid (procs v r)" if "l \<in> inside_sl x r" "l \<noteq> sl" for l r
    using inv that v(2,3) by (auto simp: sl_inv_def)
  moreover have "\<exists>l. slpcs x r = Waiting l \<and> chan (procs v r) = Some (Ch_sleeplock l) \<and>
      slocked (slocks v l)" if rN: "r < NPROC" and rs: "pstate (procs v r) = SLEEPING" for r
  proof -
    have r: "r \<noteq> p" using rs v(4) by auto
    then have w: "pstate (procs (slk x) r) = SLEEPING" "chan (procs (slk x) r) \<noteq> Some (Ch_sleeplock sl)"
      "procs v r = procs (slk x) r"
      using rN rs v(5) by (auto simp: woken_def split: if_splits)
    then obtain l where "slpcs x r = Waiting l" "chan (procs (slk x) r) = Some (Ch_sleeplock l)"
      "slocked (slocks (slk x) l)" using inv rN unfolding sl_inv_def by blast
    then show ?thesis using w v(3) by auto
  qed
  moreover have "r < NPROC \<and> (pstate (procs v r) = SLEEPING \<or> pstate (procs v r) = RUNNABLE)"
    if "slpcs x r = Waiting l" for r l
  proof -
    have "r \<noteq> p" using that p(3) by auto
    then show ?thesis using inv that v(5) by (auto simp: sl_inv_def woken_def)
  qed
  moreover have "\<forall>r\<ge>NPROC. I r = {}"
    using inv p(1) by (auto simp: sl_inv_def I_def)
  ultimately show ?thesis
    using inv v(1,2) unfolding I_def [symmetric] by (simp add: sl_inv_def ins)
qed

lemma sl_step_inv: "sl_step x y \<Longrightarrow> sl_inv x \<Longrightarrow> sl_inv y"
proof (induction rule: sl_step.induct)
  case (sl_take p x sl t)
  have q: "quiet (slk x)" using sl_take by (simp add: sl_inv_def)
  note r = take_result [OF q sl_take(3)]
  show ?case using sl_inv_gain [OF sl_take(4,1) r(1), of "slpcs x" t] sl_take(2) r(2-4) by simp
next
  case (sl_block p x sl t u)
  have q: "quiet (slk x)" using sl_block by (simp add: sl_inv_def)
  note r = block_result [OF q sl_block(3,4)]
  show ?case using r(3,4) sl_block(1) by (intro sl_inv_sleep [OF sl_block(5) r(1,2)]) auto
next
  case (sl_retake p x sl t i u v)
  have q: "quiet (slk x)" using sl_retake by (simp add: sl_inv_def)
  note m = resume_result [OF q sl_retake(3,4)]
  note r = retake_result [OF m(1-4) sl_retake(5)]
  show ?case using r m(5,6) by (intro sl_inv_gain [OF sl_retake(6,1)]) auto
next
  case (sl_reblock p x sl t i u v w)
  have q: "quiet (slk x)" using sl_reblock by (simp add: sl_inv_def)
  note m = resume_result [OF q sl_reblock(3,4)]
  note r = reblock_result [OF m(1-4) sl_reblock(5,6)]
  have "(slpcs x)(p := Waiting sl) = slpcs x" using sl_reblock(2) by auto
  then show ?case
    using sl_inv_sleep [OF sl_reblock(7), of sl w p "slpcs x"] r m(5,6) sl_reblock(1) by simp
next
  case (sl_drop p x sl t)
  have q: "quiet (slk x)" using sl_drop by (simp add: sl_inv_def)
  note r = drop_result [OF q sl_drop(4)]
  show ?case using r by (intro sl_inv_lose [OF sl_drop(5,1,3,2)]) (auto simp: woken_def)
qed

lemma sl_reach_inv: "sl_reach x \<Longrightarrow> sl_inv x"
  by (induction rule: sl_reach.induct) (auto intro: sl_init_inv sl_step_inv)

subsection \<open>Properties\<close>

definition sl_ex :: sl_sys where
  "sl_ex = \<lparr>slk = vm_state.extend (proc_state.extend (proc_ex_run\<lparr>procs := (\<lambda>p. idle_proc\<lparr>pid := of_nat p\<rparr>)\<rparr>)
     \<lparr>kernel_pagetable = 0, etext = 0, trampoline = 0, forkret_pc = 0, satp = (\<lambda>_. 0), scratch = []\<rparr>)
       \<lparr>slocks = (\<lambda>_. \<lparr>slocked = False, slname = [], slpid = 0\<rparr>)\<rparr>,
     slpcs = (\<lambda>_. Outside), inside_sl = (\<lambda>_. {})\<rparr>"

lemma sl_ex_init: "sl_init sl_ex"
proof -
  have h: "holds {} proc_ex_run" by (simp add: holds_iff)
  have "holds {} (slk sl_ex)"
    using h by (simp add: sl_ex_def vm_state.extend_def proc_state.extend_def holds_def lock_free_def)
  then have l: "lkok (slk sl_ex)" "held (slk sl_ex) = {}" by (simp_all add: holds_iff)
  have "inj_on (\<lambda>p. of_nat p :: uint32) {..<NPROC}"
  proof (rule inj_onI)
    fix i j :: nat
    assume "i \<in> {..<NPROC}" "j \<in> {..<NPROC}" "(of_nat i :: uint32) = of_nat j"
    then have "unat (of_nat i :: uint32) = unat (of_nat j :: uint32)" "i < 64" "j < 64"
      by (auto simp: NPROC_def)
    then show "i = j" by (simp add: unat_of_nat take_bit_nat_eq_self)
  qed
  then show ?thesis
    using l by (simp add: sl_init_def) (simp add: sl_ex_def vm_state.extend_def proc_state.extend_def
      idle_proc_def)
qed

definition sl_ex2 :: sl_sys where
  "sl_ex2 = sl_ex\<lparr>slk := touch (sl_taken (Sl_inode 4) 2 (run_as 2 (slk sl_ex))),
     inside_sl := (inside_sl sl_ex)(2 := insert (Sl_inode 4) (inside_sl sl_ex 2))\<rparr>"

lemma sl_ex2_reach: "sl_reach sl_ex2"
proof -
  have i: "lkok (slk sl_ex)" "held (slk sl_ex) = {}" "\<not> slocked (slocks (slk sl_ex) (Sl_inode 4))"
    using sl_ex_init by (auto simp: sl_init_def)
  have p: "pid (procs (slk sl_ex) 2) = 2"
    by (simp add: sl_ex_def vm_state.extend_def proc_state.extend_def idle_proc_def)
  have "acquiresleep (Sl_inode 4) (run_as 2 (slk sl_ex)) =
      Ret () (touch (sl_taken (Sl_inode 4) 2 (run_as 2 (slk sl_ex))))"
    using i p acquiresleep_free [of "run_as 2 (slk sl_ex)" "Sl_inode 4" 2] by simp
  moreover have "slpcs sl_ex 2 = Outside" by (simp add: sl_ex_def)
  ultimately have "sl_step sl_ex sl_ex2"
    unfolding sl_ex2_def by (intro sl_step.sl_take) (auto simp: NPROC_def)
  then show ?thesis using sl_start [OF sl_ex_init] sl_more by blast
qed

text \<open>
  C32. Sleep locks exclude each other: in every state that any interleaving of processes taking,
  waiting for, retrying and releasing sleep locks can reach, the process inside a sleep lock is the
  only one, the lock is marked taken, and its \<^verbatim>\<open>pid\<close> field is that process's, so that
  \<^verbatim>\<open>holdingsleep\<close> answers truthfully for every process.
\<close>

theorem sleeplock_exclusion:
  assumes "sl_reach x" "sl \<in> inside_sl x p"
  shows "{q. sl \<in> inside_sl x q} = {p} \<and> slocked (slocks (slk x) sl)
    \<and> slpid (slocks (slk x) sl) = pid (procs (slk x) p)
    \<and> (\<forall>q<NPROC. \<exists>t. holdingsleep sl (run_as q (slk x)) = Ret (q = p) t)"
proof -
  have inv: "sl_inv x" using assms(1) by (rule sl_reach_inv)
  have p: "p < NPROC" using inv assms(2) by (auto simp: sl_inv_def not_less [symmetric])
  have l: "slocked (slocks (slk x) sl)" "slpid (slocks (slk x) sl) = pid (procs (slk x) p)"
    using inv assms(2) unfolding sl_inv_def by blast+
  have "holdingsleep sl (run_as q (slk x)) = Ret (q = p) (touch (run_as q (slk x)))"
    if "q < NPROC" for q
  proof -
    have "pid (procs (slk x) p) = pid (procs (slk x) q) \<longleftrightarrow> q = p"
      using inv p that by (auto simp: sl_inv_def inj_on_def)
    then show ?thesis
      using l inv holdingsleep_eq [of "run_as q (slk x)" sl q]
      by (simp add: sl_inv_def quiet_def)
  qed
  moreover have "{q. sl \<in> inside_sl x q} = {p}"
    using sl_inv_unique [OF inv _ assms(2)] assms(2) by blast
  ultimately show ?thesis using l by blast
qed

theorem sleeplock_exclusion_witness:
  "sl_reach sl_ex2 \<and> Sl_inode 4 \<in> inside_sl sl_ex2 2 \<and> {q. Sl_inode 4 \<in> inside_sl sl_ex2 q} = {2}
   \<and> slocked (slocks (slk sl_ex2) (Sl_inode 4))"
proof -
  have "Sl_inode 4 \<in> inside_sl sl_ex2 2" by (simp add: sl_ex2_def)
  then show ?thesis using sl_ex2_reach sleeplock_exclusion [OF sl_ex2_reach] by blast
qed

end
