(* ===== verification/Printf.thy ===== *)
theory Printf
  imports Sleeplock
begin

section \<open>Kernel printf\<close>

text \<open>
  \<^verbatim>\<open>kernel/printf.c\<close>. \<open>printf_out\<close> is the loop over the format: the characters it gives to
  \<^verbatim>\<open>consputc\<close>, or \<open>None\<close> where C leaves the behaviour undefined (an argument that was not passed,
  or a number that does not fit \<^verbatim>\<open>buf[20]\<close>). The variable arguments are a list; an integer
  argument is the 64-bit register it is passed in. \<open>printf\<close> sends the characters to the UART
  one by one under the lock \<^verbatim>\<open>pr.lock\<close>. \<^verbatim>\<open>consputc\<close> and \<^verbatim>\<open>uartputc_sync\<close> are here too.
\<close>

record pr_state = sl_state +
  kout :: string

datatype varg = Vint uint64 | Vstr "string option"

definition NUL :: char where "NUL = CHR 0x00"

definition BACKSPACE :: int where "BACKSPACE = 0x100"

definition consputc_out :: "int \<Rightarrow> string" where
  "consputc_out c =
     (if c = BACKSPACE then [CHR 0x08, CHR 0x20, CHR 0x08]
      else [char_of (nat (c mod 256))])"

text \<open>
  \<^verbatim>\<open>uartputc_sync\<close> spins until the transmitter is idle and then stores the byte in the transmit
  register. The device becomes idle by itself, so the model goes on at once; the characters stored
  are \<open>kout\<close>. The tests of \<^verbatim>\<open>panicking\<close> and \<^verbatim>\<open>panicked\<close> are about a machine that has stopped, which
  in the model runs no more code.
\<close>

definition uartputc_sync :: "char \<Rightarrow> ('z pr_state_scheme, unit) km" where
  "uartputc_sync c = kdo [push_off, kmod (\<lambda>s. s\<lparr>kout := kout s @ [c]\<rparr>), pop_off]"

definition consputc :: "int \<Rightarrow> ('z pr_state_scheme, unit) km" where
  "consputc c = kiter uartputc_sync (consputc_out c)"

subsection \<open>Numbers\<close>

definition kdigits :: string where "kdigits = ''0123456789abcdef''"

text \<open>
  The \<^verbatim>\<open>do\<close> loop that fills \<^verbatim>\<open>buf\<close>: \<open>room\<close> is the number of unused elements of the array.
\<close>

fun digits_loop :: "string \<Rightarrow> nat \<Rightarrow> nat \<Rightarrow> nat \<Rightarrow> string option" where
  "digits_loop ds 0 base x = None"
| "digits_loop ds (Suc room) base x =
     (if x div base = 0 then Some [ds ! (x mod base)]
      else map_option (\<lambda>r. ds ! (x mod base) # r) (digits_loop ds room base (x div base)))"

definition buf_int :: "string \<Rightarrow> uint64 \<Rightarrow> nat \<Rightarrow> bool \<Rightarrow> string option" where
  "buf_int ds xx base sign =
     (let neg = sign \<and> sint xx < 0;
          x = (if neg then - xx else xx)
      in case digits_loop ds 20 base (unat x) of
           None \<Rightarrow> None
         | Some buf \<Rightarrow>
             if neg then (if length buf < 20 then Some (buf @ ''-'') else None)
             else Some buf)"

definition printint :: "uint64 \<Rightarrow> nat \<Rightarrow> bool \<Rightarrow> string option" where
  "printint xx base sign = map_option rev (buf_int kdigits xx base sign)"

definition printptr :: "uint64 \<Rightarrow> string" where
  "printptr x = ''0x'' @ map (\<lambda>i. kdigits ! unat (drop_bit 60 (push_bit (4 * i) x))) [0..<16]"

subsection \<open>Formats\<close>

text \<open>\<^verbatim>\<open>va_arg\<close> at type \<^verbatim>\<open>int\<close> (sign extended), \<^verbatim>\<open>uint32\<close>, \<^verbatim>\<open>uint64\<close> and \<^verbatim>\<open>char *\<close>.\<close>

fun va_int :: "varg list \<Rightarrow> (uint64 \<times> varg list) option" where
  "va_int (Vint x # ap) = Some (scast (ucast x :: uint32), ap)"
| "va_int ap = None"

fun va_uint32 :: "varg list \<Rightarrow> (uint64 \<times> varg list) option" where
  "va_uint32 (Vint x # ap) = Some (ucast (ucast x :: uint32), ap)"
| "va_uint32 ap = None"

fun va_uint64 :: "varg list \<Rightarrow> (uint64 \<times> varg list) option" where
  "va_uint64 (Vint x # ap) = Some (x, ap)"
| "va_uint64 ap = None"

fun va_str :: "varg list \<Rightarrow> (string option \<times> varg list) option" where
  "va_str (Vstr s # ap) = Some (s, ap)"
| "va_str ap = None"

text \<open>
  One conversion, for the characters \<open>c0\<close>, \<open>c1\<close>, \<open>c2\<close> after the percent sign: the output, the
  number of characters of the format it uses, and the arguments left.
\<close>

definition conv_int :: "(varg list \<Rightarrow> (uint64 \<times> varg list) option) \<Rightarrow> nat \<Rightarrow> bool \<Rightarrow> nat
    \<Rightarrow> varg list \<Rightarrow> (string \<times> nat \<times> varg list) option" where
  "conv_int va base sign n ap =
     (case va ap of
        None \<Rightarrow> None
      | Some (x, ap') \<Rightarrow>
          (case printint x base sign of None \<Rightarrow> None | Some out \<Rightarrow> Some (out, n, ap')))"

definition convert :: "char \<Rightarrow> char \<Rightarrow> char \<Rightarrow> varg list \<Rightarrow> (string \<times> nat \<times> varg list) option" where
  "convert c0 c1 c2 ap =
     (if c0 = CHR ''d'' then conv_int va_int 10 True 1 ap
      else if c0 = CHR ''l'' \<and> c1 = CHR ''d'' then conv_int va_uint64 10 True 2 ap
      else if c0 = CHR ''l'' \<and> c1 = CHR ''l'' \<and> c2 = CHR ''d'' then conv_int va_uint64 10 True 3 ap
      else if c0 = CHR ''u'' then conv_int va_uint32 10 False 1 ap
      else if c0 = CHR ''l'' \<and> c1 = CHR ''u'' then conv_int va_uint64 10 False 2 ap
      else if c0 = CHR ''l'' \<and> c1 = CHR ''l'' \<and> c2 = CHR ''u'' then conv_int va_uint64 10 False 3 ap
      else if c0 = CHR ''x'' then conv_int va_uint32 16 False 1 ap
      else if c0 = CHR ''l'' \<and> c1 = CHR ''x'' then conv_int va_uint64 16 False 2 ap
      else if c0 = CHR ''l'' \<and> c1 = CHR ''l'' \<and> c2 = CHR ''x'' then conv_int va_uint64 16 False 3 ap
      else if c0 = CHR ''p'' then
        map_option (\<lambda>(x, ap'). (printptr x, 1, ap')) (va_uint64 ap)
      else if c0 = CHR ''c'' then
        map_option (\<lambda>(x, ap'). (consputc_out (sint (ucast x :: uint32)), 1, ap')) (va_uint32 ap)
      else if c0 = CHR ''s'' then
        map_option (\<lambda>(s, ap'). (case s of None \<Rightarrow> ''(null)'' | Some t \<Rightarrow> takeWhile (\<lambda>c. c \<noteq> NUL) t, 1, ap'))
          (va_str ap)
      else if c0 = CHR ''%'' then Some (''%'', 1, ap)
      else Some ([CHR ''%'', c0], 1, ap))"

definition char_at :: "string \<Rightarrow> nat \<Rightarrow> char" where
  "char_at fmt i = (if i < length fmt then fmt ! i else NUL)"

text \<open>\<open>n\<close> is at least the number of characters left.\<close>

fun printf_loop :: "nat \<Rightarrow> string \<Rightarrow> nat \<Rightarrow> varg list \<Rightarrow> string option" where
  "printf_loop 0 fmt i ap = None"
| "printf_loop (Suc n) fmt i ap =
     (let cx = char_at fmt i in
      if cx = NUL then Some []
      else if cx \<noteq> CHR ''%'' then map_option (\<lambda>r. cx # r) (printf_loop n fmt (i + 1) ap)
      else
        let c0 = char_at fmt (i + 1);
            c1 = (if c0 \<noteq> NUL then char_at fmt (i + 2) else NUL);
            c2 = (if c1 \<noteq> NUL then char_at fmt (i + 3) else NUL)
        in if c0 = NUL then Some []
           else (case convert c0 c1 c2 ap of
                   None \<Rightarrow> None
                 | Some (out, m, ap') \<Rightarrow> map_option (\<lambda>r. out @ r) (printf_loop n fmt (i + 1 + m) ap')))"

definition printf_out :: "string \<Rightarrow> varg list \<Rightarrow> string option" where
  "printf_out fmt ap = printf_loop (Suc (length fmt)) fmt 0 ap"

definition printf :: "string \<Rightarrow> varg list \<Rightarrow> ('z pr_state_scheme, int) km" where
  "printf fmt ap =
     kseq (acquire Lk_pr) (
     case printf_out fmt ap of
       None \<Rightarrow> khalt Fault
     | Some out \<Rightarrow> kseq (kiter uartputc_sync out) (kseq (release Lk_pr) (kret 0)))"

definition printfinit :: "('z pr_state_scheme, unit) km" where
  "printfinit = initlock Lk_pr ''pr''"

subsection \<open>Printed numbers read back\<close>

text \<open>Reading a printed number, most significant digit first.\<close>

definition digit_val :: "char \<Rightarrow> nat" where
  "digit_val c = length (takeWhile (\<lambda>d. d \<noteq> c) kdigits)"

definition read_nat :: "nat \<Rightarrow> string \<Rightarrow> nat" where
  "read_nat base s = foldl (\<lambda>a c. a * base + digit_val c) 0 s"

definition read_int :: "nat \<Rightarrow> string \<Rightarrow> int" where
  "read_int base s =
     (case s of [] \<Rightarrow> 0
      | c # cs \<Rightarrow> if c = CHR ''-'' then - int (read_nat base cs) else int (read_nat base s))"

lemma digit_val_nth [simp]: "d < 16 \<Longrightarrow> digit_val (kdigits ! d) = d"
  by (auto simp: digit_val_def kdigits_def numeral_eq_Suc less_Suc_eq)

lemma kdigits_not_minus [simp]: "d < 16 \<Longrightarrow> kdigits ! d \<noteq> CHR ''-''"
  by (auto simp: kdigits_def numeral_eq_Suc less_Suc_eq)

lemma read_nat_snoc [simp]: "read_nat base (s @ [c]) = read_nat base s * base + digit_val c"
  by (simp add: read_nat_def)

lemma digits_loop_ok:
  assumes "1 < base" "base \<le> 16" "x < base ^ n" "0 < n"
  shows "\<exists>buf. digits_loop kdigits n base x = Some buf \<and> buf \<noteq> [] \<and> length buf \<le> n
    \<and> read_nat base (rev buf) = x \<and> last buf \<noteq> CHR ''-''"
  using assms
proof (induction n arbitrary: x)
  case (Suc n)
  show ?case
  proof (cases "x div base = 0")
    case True
    then show ?thesis using Suc.prems by (simp add: read_nat_def div_eq_0_iff)
  next
    case False
    then have "0 < n" using Suc.prems by (cases n) auto
    moreover have "x div base < base ^ n"
      using Suc.prems by (simp add: less_mult_imp_div_less mult.commute)
    ultimately obtain buf where "digits_loop kdigits n base (x div base) = Some buf" "buf \<noteq> []"
      "length buf \<le> n" "read_nat base (rev buf) = x div base" "last buf \<noteq> CHR ''-''"
      using Suc by blast
    moreover have "x mod base < 16" using Suc.prems mod_less_divisor [of base x] by linarith
    ultimately show ?thesis using False Suc.prems by simp
  qed
qed simp

lemma buf_fits:
  "unat (x :: uint64) < 10 ^ 20" "unat (x :: uint64) < 16 ^ 20"
  "sint x < 0 \<Longrightarrow> unat (- x) < 10 ^ 19" "sint x < 0 \<Longrightarrow> unat (- x) < 16 ^ 19"
  "sint x < 0 \<Longrightarrow> int (unat (- x)) = - sint x"
proof -
  show "unat x < 10 ^ 20" "unat x < 16 ^ 20" using unat64_less [of x] by simp_all
  assume n: "sint x < 0"
  have lo: "- (2 ^ 63) \<le> sint x" using sint_greater_eq [of x] by simp
  have "- x = word_of_int (- sint x)" by simp
  then have "uint (- x) = uint (word_of_int (- sint x) :: uint64)" by metis
  also have "\<dots> = (- sint x) mod 2 ^ 64" by (simp only: uint_word_of_int) simp
  also have "\<dots> = - sint x" using n lo by (intro mod_pos_pos_trivial) auto
  finally have u: "uint (- x) = - sint x" .
  then show "int (unat (- x)) = - sint x" by simp
  show "unat (- x) < 10 ^ 19" "unat (- x) < 16 ^ 19"
    using lo u by (simp_all add: unat_eq_nat_uint nat_less_iff)
qed

lemma sint_nonneg_uint:
  assumes "0 \<le> sint (x :: uint64)"
  shows "sint x = uint x"
proof -
  have "uint x = uint (word_of_int (sint x) :: uint64)" by simp
  also have "\<dots> = sint x mod 2 ^ 64" by (simp only: uint_word_of_int) simp
  also have "\<dots> = sint x" using assms sint_less [of x] by (intro mod_pos_pos_trivial) auto
  finally show ?thesis by simp
qed

lemma digits_loop_room:
  "digits_loop ds n base x = Some buf \<Longrightarrow> digits_loop ds (n + k) base x = Some buf"
  by (induction n arbitrary: x buf) (auto split: if_splits)

lemma printint_ok:
  assumes "base = 10 \<or> base = 16"
  shows "\<exists>out. printint x base sign = Some out \<and> length out \<le> 20
    \<and> read_int base out = (if sign then sint x else uint x)"
proof (cases "sign \<and> sint x < 0")
  case True
  have b: "1 < base" "base \<le> 16" using assms by auto
  have f: "unat (- x) < base ^ 19" using assms True buf_fits(3,4) [of x] by auto
  obtain buf where buf: "digits_loop kdigits 19 base (unat (- x)) = Some buf"
      "length buf \<le> 19" "read_nat base (rev buf) = unat (- x)"
    using digits_loop_ok [OF b f zero_less_numeral] by blast
  have "digits_loop kdigits 20 base (unat (- x)) = Some buf"
    using digits_loop_room [OF buf(1), of 1] by simp
  then show ?thesis
    using True buf buf_fits(5) [of x] by (simp add: printint_def buf_int_def read_int_def)
next
  case False
  have b: "1 < base" "base \<le> 16" using assms by auto
  have f: "unat x < base ^ 20" using assms buf_fits(1,2) [of x] by auto
  obtain buf where buf: "digits_loop kdigits 20 base (unat x) = Some buf" "buf \<noteq> []"
      "length buf \<le> 20" "read_nat base (rev buf) = unat x" "last buf \<noteq> CHR ''-''"
    using digits_loop_ok [OF b f zero_less_numeral] by blast
  have "sint x = uint x" if "sign"
    using False that by (simp add: sint_nonneg_uint)
  then show ?thesis using False buf
    by (auto simp: printint_def buf_int_def read_int_def hd_rev neq_Nil_conv split: list.splits)
qed

text \<open>
  C34. Number formatting. For the bases the kernel uses, \<^verbatim>\<open>printint\<close> never writes outside its
  buffer \<^verbatim>\<open>buf[20]\<close>, and the characters it prints read back as the number it was given, taken as
  signed or unsigned as requested; this includes the most negative 64-bit number.
\<close>

theorem printint_correct:
  assumes "base = 10 \<or> base = 16"
  shows "\<exists>out. printint x base sign = Some out \<and> length out \<le> 20
    \<and> read_int base out = (if sign then sint x else uint x)"
  by (rule printint_ok [OF assms])

theorem printint_correct_witness:
  "\<exists>out. printint (- 42) 10 True = Some out \<and> length out \<le> 20 \<and> read_int 10 out = - 42"
  using printint_correct [of 10 "- 42" True] by simp

lemma pr_touch [simp]:
  "kout (touch s) = kout s" "touch (s\<lparr>kout := x0\<rparr>) = (touch s)\<lparr>kout := x0\<rparr>"
  by (simp_all add: touch_def)

lemma pr_entered [simp]:
  "kout (entered lk s) = kout s" "entered lk (s\<lparr>kout := x0\<rparr>) = (entered lk s)\<lparr>kout := x0\<rparr>"
  by (simp_all add: entered_def)

lemma pr_left [simp]:
  "kout (left lk s) = kout s" "left lk (s\<lparr>kout := x0\<rparr>) = (left lk s)\<lparr>kout := x0\<rparr>"
  by (simp_all add: left_def)

lemma pr_lkok [simp]:
  "held (s\<lparr>kout := x0\<rparr>) = held s" "lkok (s\<lparr>kout := x0\<rparr>) = lkok s"
  by (simp_all add: held_def lkok_def holds_def lock_mine_def lock_free_def)

lemma pr_wakeall [simp]:
  "kout (wakeall c s) = kout s" "wakeall c (s\<lparr>kout := x0\<rparr>) = (wakeall c s)\<lparr>kout := x0\<rparr>"
  by (simp_all add: wakeall_def cong: if_cong)

subsection \<open>Running printf\<close>

lemma uartputc_sync_eq [simp]:
  assumes "lkok s"
  shows "uartputc_sync c s = Ret () ((touch s)\<lparr>kout := kout s @ [c]\<rparr>)"
proof -
  have "0 \<le> mynoff s" "0 < mynoff s \<longrightarrow> \<not> sie s (tp s)"
    using lkok_noff [OF assms] by auto
  then have 0: "0 \<le> mynoff (s\<lparr>kout := kout s @ [c]\<rparr>)"
    "0 < mynoff (s\<lparr>kout := kout s @ [c]\<rparr>) \<longrightarrow> \<not> sie (s\<lparr>kout := kout s @ [c]\<rparr>) (tp (s\<lparr>kout := kout s @ [c]\<rparr>))"
    by auto
  have "(pushed s)\<lparr>kout := kout (pushed s) @ [c]\<rparr> = pushed (s\<lparr>kout := kout s @ [c]\<rparr>)"
    by (simp add: pushed_def)
  then show ?thesis using pop_off_pushed [OF 0] by (simp add: uartputc_sync_def push_off_eq)
qed

lemma uartputc_list:
  "lkok s \<Longrightarrow> kiter uartputc_sync cs s = Ret () (if cs = [] then s else (touch s)\<lparr>kout := kout s @ cs\<rparr>)"
  by (induction cs arbitrary: s) auto

lemma printf_eq:
  assumes "printf_out fmt ap = Some out" "lkok s" "Lk_pr \<notin> held s"
  shows "printf fmt ap s = Ret 0 ((touch s)\<lparr>kout := kout s @ out\<rparr>)"
  using assms by (simp add: printf_def uartputc_list)

lemma conv_int_total:
  "base = 10 \<or> base = 16 \<Longrightarrow> va ap = Some (x, ap') \<Longrightarrow>
     \<exists>out. conv_int va base sign n ap = Some (out, n, ap')"
  using printint_ok [of base x sign] by (auto simp: conv_int_def)

end
