(* ===== verification/Bio.thy ===== *)
theory Bio
  imports Printf
begin

section \<open>Buffer cache\<close>

text \<open>
  \<^verbatim>\<open>kernel/bio.c\<close>. The links \<^verbatim>\<open>prev\<close> and \<^verbatim>\<open>next\<close> of the buffers and of the list head are the
  functions \<open>bprev\<close> and \<open>bnext\<close> on list nodes; a loop along them is \<open>bscan\<close>, whose fuel is one more
  than the number of buffers (enough for every list of \<open>NBUF\<close> buffers, see \<open>bscan_list\<close>).

  \<open>disk_rw\<close> is what the cache relies on of \<^verbatim>\<open>virtio_disk_rw\<close>: the block is transferred when the
  call returns. \<open>disk\<close> is the content of the disk; \<open>dlog\<close> records the writes in the order in which
  they reach it, which is what a crash can cut short.
\<close>

record buf =
  bvalid :: bool
  bdev :: nat
  blockno :: nat
  refcnt :: uint32
  bdata :: bytes

datatype bnode = BHead | Buf nat

record bio_state = pr_state +
  bufs :: "nat \<Rightarrow> buf"
  bnext :: "bnode \<Rightarrow> bnode"
  bprev :: "bnode \<Rightarrow> bnode"
  disk :: "nat \<Rightarrow> bytes"
  dlog :: "(nat \<times> bytes) list"

definition BSIZE :: nat where "BSIZE = 1024"

definition upd_buf :: "nat \<Rightarrow> (buf \<Rightarrow> buf) \<Rightarrow> ('z bio_state_scheme, unit) km" where
  "upd_buf i f = kmod (\<lambda>s. s\<lparr>bufs := (bufs s)(i := f (bufs s i))\<rparr>)"

definition set_next :: "bnode \<Rightarrow> bnode \<Rightarrow> ('z bio_state_scheme, unit) km" where
  "set_next b v = kmod (\<lambda>s. s\<lparr>bnext := (bnext s)(b := v)\<rparr>)"

definition set_prev :: "bnode \<Rightarrow> bnode \<Rightarrow> ('z bio_state_scheme, unit) km" where
  "set_prev b v = kmod (\<lambda>s. s\<lparr>bprev := (bprev s)(b := v)\<rparr>)"

definition disk_rw :: "nat \<Rightarrow> bool \<Rightarrow> ('z bio_state_scheme, unit) km" where
  "disk_rw i wr =
     (if wr
      then kmod (\<lambda>s. s\<lparr>disk := (disk s)(blockno (bufs s i) := bdata (bufs s i)),
                       dlog := dlog s @ [(blockno (bufs s i), bdata (bufs s i))]\<rparr>)
      else kmod (\<lambda>s. s\<lparr>bufs := (bufs s)(i := (bufs s i)\<lparr>bdata := disk s (blockno (bufs s i))\<rparr>)\<rparr>))"

subsection \<open>Operations\<close>

text \<open>Putting \<open>b\<close> at the head of the list: the last four assignments of \<^verbatim>\<open>brelse\<close>, and of \<^verbatim>\<open>binit\<close>.\<close>

definition link_head :: "bnode \<Rightarrow> ('z bio_state_scheme, unit) km" where
  "link_head b =
     kbind (kget (\<lambda>s. bnext s BHead)) (\<lambda>h. kdo [
       set_next b h,
       set_prev b BHead,
       set_prev h b,
       set_next BHead b])"

definition binit_one :: "nat \<Rightarrow> ('z bio_state_scheme, unit) km" where
  "binit_one i =
     kbind (kget (\<lambda>s. bnext s BHead)) (\<lambda>h. kdo [
       set_next (Buf i) h,
       set_prev (Buf i) BHead,
       initsleeplock (Sl_buf i) ''buffer'',
       set_prev h (Buf i),
       set_next BHead (Buf i)])"

definition binit :: "('z bio_state_scheme, unit) km" where
  "binit = kdo [
     initlock Lk_bcache ''bcache'',
     set_prev BHead BHead,
     set_next BHead BHead,
     kiter binit_one [0..<NBUF]]"

fun bscan :: "nat \<Rightarrow> (bnode \<Rightarrow> bnode) \<Rightarrow> (nat \<Rightarrow> bool) \<Rightarrow> bnode \<Rightarrow> nat option option" where
  "bscan 0 step P b = None"
| "bscan (Suc n) step P BHead = Some None"
| "bscan (Suc n) step P (Buf i) = (if P i then Some (Some i) else bscan n step P (step (Buf i)))"

definition bget_take :: "nat \<Rightarrow> ('z bio_state_scheme, nat) km" where
  "bget_take i =
     kseq (release Lk_bcache) (kseq (acquiresleep (Sl_buf i)) (kret i))"

definition bget :: "nat \<Rightarrow> nat \<Rightarrow> ('z bio_state_scheme, nat) km" where
  "bget dev bno =
     kseq (acquire Lk_bcache) (
     kbind (kget (\<lambda>s. bscan (Suc NBUF) (bnext s)
              (\<lambda>i. bdev (bufs s i) = dev \<and> blockno (bufs s i) = bno) (bnext s BHead))) (\<lambda>r.
     case r of
       None \<Rightarrow> khalt Fault
     | Some (Some i) \<Rightarrow>
         kseq (upd_buf i (\<lambda>b. b\<lparr>refcnt := refcnt b + 1\<rparr>)) (bget_take i)
     | Some None \<Rightarrow>
         kbind (kget (\<lambda>s. bscan (Suc NBUF) (bprev s) (\<lambda>i. refcnt (bufs s i) = 0) (bprev s BHead))) (\<lambda>r.
         case r of
           None \<Rightarrow> khalt Fault
         | Some (Some i) \<Rightarrow>
             kseq (upd_buf i (\<lambda>b. b\<lparr>bdev := dev, blockno := bno, bvalid := False, refcnt := 1\<rparr>))
                  (bget_take i)
         | Some None \<Rightarrow> panic ''bget: no buffers'')))"

definition bread :: "nat \<Rightarrow> nat \<Rightarrow> ('z bio_state_scheme, nat) km" where
  "bread dev bno =
     kbind (bget dev bno) (\<lambda>i.
     kbind (kget (\<lambda>s. bvalid (bufs s i))) (\<lambda>v.
     kseq (kwhen (\<not> v) (kdo [disk_rw i False, upd_buf i (\<lambda>b. b\<lparr>bvalid := True\<rparr>)]))
          (kret i)))"

definition bwrite :: "nat \<Rightarrow> ('z bio_state_scheme, unit) km" where
  "bwrite i =
     kbind (holdingsleep (Sl_buf i)) (\<lambda>h. kdo [
       kwhen (\<not> h) (panic ''bwrite''),
       disk_rw i True])"

definition brelse :: "nat \<Rightarrow> ('z bio_state_scheme, unit) km" where
  "brelse i =
     kbind (holdingsleep (Sl_buf i)) (\<lambda>h. kdo [
       kwhen (\<not> h) (panic ''brelse''),
       releasesleep (Sl_buf i),
       acquire Lk_bcache,
       upd_buf i (\<lambda>b. b\<lparr>refcnt := refcnt b - 1\<rparr>),
       kbind (kget (\<lambda>s. refcnt (bufs s i))) (\<lambda>r.
       kwhen (r = 0) (
         kbind (kget (\<lambda>s. (bnext s (Buf i), bprev s (Buf i)))) (\<lambda>(n, p). kdo [
           set_prev n p,
           set_next p n,
           link_head (Buf i)]))),
       release Lk_bcache])"

definition bpin :: "nat \<Rightarrow> ('z bio_state_scheme, unit) km" where
  "bpin i = with_lock Lk_bcache (upd_buf i (\<lambda>b. b\<lparr>refcnt := refcnt b + 1\<rparr>))"

definition bunpin :: "nat \<Rightarrow> ('z bio_state_scheme, unit) km" where
  "bunpin i = with_lock Lk_bcache (upd_buf i (\<lambda>b. b\<lparr>refcnt := refcnt b - 1\<rparr>))"

text \<open>Reading and changing the bytes of a buffer the caller has locked.\<close>

definition bytes_of :: "nat \<Rightarrow> ('z bio_state_scheme, bytes) km" where
  "bytes_of i = kget (\<lambda>s. bdata (bufs s i))"

definition set_bytes :: "nat \<Rightarrow> (bytes \<Rightarrow> bytes) \<Rightarrow> ('z bio_state_scheme, unit) km" where
  "set_bytes i f = upd_buf i (\<lambda>b. b\<lparr>bdata := f (bdata b)\<rparr>)"

subsection \<open>Machine operations and the new fields\<close>

lemma bio_touch [simp]:
  "bufs (touch s) = bufs s" "touch (s\<lparr>bufs := x0\<rparr>) = (touch s)\<lparr>bufs := x0\<rparr>"
  "bnext (touch s) = bnext s" "touch (s\<lparr>bnext := x1\<rparr>) = (touch s)\<lparr>bnext := x1\<rparr>"
  "bprev (touch s) = bprev s" "touch (s\<lparr>bprev := x2\<rparr>) = (touch s)\<lparr>bprev := x2\<rparr>"
  "disk (touch s) = disk s" "touch (s\<lparr>disk := x3\<rparr>) = (touch s)\<lparr>disk := x3\<rparr>"
  "dlog (touch s) = dlog s" "touch (s\<lparr>dlog := x4\<rparr>) = (touch s)\<lparr>dlog := x4\<rparr>"
  by (simp_all add: touch_def)

lemma bio_entered [simp]:
  "bufs (entered lk s) = bufs s" "entered lk (s\<lparr>bufs := x0\<rparr>) = (entered lk s)\<lparr>bufs := x0\<rparr>"
  "bnext (entered lk s) = bnext s" "entered lk (s\<lparr>bnext := x1\<rparr>) = (entered lk s)\<lparr>bnext := x1\<rparr>"
  "bprev (entered lk s) = bprev s" "entered lk (s\<lparr>bprev := x2\<rparr>) = (entered lk s)\<lparr>bprev := x2\<rparr>"
  "disk (entered lk s) = disk s" "entered lk (s\<lparr>disk := x3\<rparr>) = (entered lk s)\<lparr>disk := x3\<rparr>"
  "dlog (entered lk s) = dlog s" "entered lk (s\<lparr>dlog := x4\<rparr>) = (entered lk s)\<lparr>dlog := x4\<rparr>"
  by (simp_all add: entered_def)

lemma bio_left [simp]:
  "bufs (left lk s) = bufs s" "left lk (s\<lparr>bufs := x0\<rparr>) = (left lk s)\<lparr>bufs := x0\<rparr>"
  "bnext (left lk s) = bnext s" "left lk (s\<lparr>bnext := x1\<rparr>) = (left lk s)\<lparr>bnext := x1\<rparr>"
  "bprev (left lk s) = bprev s" "left lk (s\<lparr>bprev := x2\<rparr>) = (left lk s)\<lparr>bprev := x2\<rparr>"
  "disk (left lk s) = disk s" "left lk (s\<lparr>disk := x3\<rparr>) = (left lk s)\<lparr>disk := x3\<rparr>"
  "dlog (left lk s) = dlog s" "left lk (s\<lparr>dlog := x4\<rparr>) = (left lk s)\<lparr>dlog := x4\<rparr>"
  by (simp_all add: left_def)

lemma bio_lkok [simp]:
  "held (s\<lparr>bufs := x0\<rparr>) = held s" "lkok (s\<lparr>bufs := x0\<rparr>) = lkok s"
  "held (s\<lparr>bnext := x1\<rparr>) = held s" "lkok (s\<lparr>bnext := x1\<rparr>) = lkok s"
  "held (s\<lparr>bprev := x2\<rparr>) = held s" "lkok (s\<lparr>bprev := x2\<rparr>) = lkok s"
  "held (s\<lparr>disk := x3\<rparr>) = held s" "lkok (s\<lparr>disk := x3\<rparr>) = lkok s"
  "held (s\<lparr>dlog := x4\<rparr>) = held s" "lkok (s\<lparr>dlog := x4\<rparr>) = lkok s"
  by (simp_all add: held_def lkok_def holds_def lock_mine_def lock_free_def)

lemma bio_wakeall [simp]:
  "bufs (wakeall c s) = bufs s" "wakeall c (s\<lparr>bufs := x0\<rparr>) = (wakeall c s)\<lparr>bufs := x0\<rparr>"
  "bnext (wakeall c s) = bnext s" "wakeall c (s\<lparr>bnext := x1\<rparr>) = (wakeall c s)\<lparr>bnext := x1\<rparr>"
  "bprev (wakeall c s) = bprev s" "wakeall c (s\<lparr>bprev := x2\<rparr>) = (wakeall c s)\<lparr>bprev := x2\<rparr>"
  "disk (wakeall c s) = disk s" "wakeall c (s\<lparr>disk := x3\<rparr>) = (wakeall c s)\<lparr>disk := x3\<rparr>"
  "dlog (wakeall c s) = dlog s" "wakeall c (s\<lparr>dlog := x4\<rparr>) = (wakeall c s)\<lparr>dlog := x4\<rparr>"
  by (simp_all add: wakeall_def cong: if_cong)

subsection \<open>The list of buffers\<close>

text \<open>
  \<open>seg nx b is c\<close>: following \<open>nx\<close> from the node \<open>b\<close> visits the buffers \<open>is\<close> and then \<open>c\<close>.
\<close>

fun seg :: "(bnode \<Rightarrow> bnode) \<Rightarrow> bnode \<Rightarrow> nat list \<Rightarrow> bnode \<Rightarrow> bool" where
  "seg nx b [] c \<longleftrightarrow> nx b = c"
| "seg nx b (i # is) c \<longleftrightarrow> nx b = Buf i \<and> seg nx (Buf i) is c"

definition lru :: "'z bio_state_scheme \<Rightarrow> nat list \<Rightarrow> bool" where
  "lru s xs \<longleftrightarrow> distinct xs \<and> set xs = {..<NBUF} \<and> seg (bnext s) BHead xs BHead
     \<and> seg (bprev s) BHead (rev xs) BHead"

lemma lru_cong: "bnext t = bnext s \<Longrightarrow> bprev t = bprev s \<Longrightarrow> lru t = lru s"
  by (rule ext) (simp add: lru_def)

lemma bscan_list:
  "seg nx b is BHead \<Longrightarrow> length is < n \<Longrightarrow> bscan n nx P (nx b) = Some (find P is)"
proof (induction "is" arbitrary: b n)
  case Nil
  then show ?case by (cases n) auto
next
  case (Cons i "is")
  then obtain m where m: "n = Suc m" by (cases n) auto
  have "bscan m nx P (nx (Buf i)) = Some (find P is)" using Cons m by auto
  then show ?case using Cons.prems m by simp
qed

lemma lru_length: "lru s xs \<Longrightarrow> length xs = NBUF"
  unfolding lru_def by (metis card_lessThan distinct_card)

lemma bscan_next: "lru s xs \<Longrightarrow> bscan (Suc NBUF) (bnext s) P (bnext s BHead) = Some (find P xs)"
  using lru_length [of s xs] by (intro bscan_list) (auto simp: lru_def)

lemma bscan_prev: "lru s xs \<Longrightarrow> bscan (Suc NBUF) (bprev s) P (bprev s BHead) = Some (find P (rev xs))"
  using lru_length [of s xs] by (intro bscan_list) (auto simp: lru_def)

lemma seg_append: "seg nx b (as @ i # bs) c \<longleftrightarrow> seg nx b as (Buf i) \<and> seg nx (Buf i) bs c"
  by (induction as arbitrary: b) auto

lemma seg_upd: "x \<noteq> b \<Longrightarrow> x \<notin> Buf ` set is \<Longrightarrow> seg (nx(x := v)) b is c = seg nx b is c"
  by (induction "is" arbitrary: b) auto

text \<open>The last node of a segment, and changing where it points.\<close>

definition seg_end :: "bnode \<Rightarrow> nat list \<Rightarrow> bnode" where
  "seg_end b is = (if is = [] then b else Buf (last is))"

lemma seg_end_Cons [simp]: "seg_end b (i # is) = seg_end (Buf i) is"
  by (simp add: seg_end_def)

lemma seg_end_Nil [simp]: "seg_end b [] = b"
  by (simp add: seg_end_def)

lemma seg_redirect:
  "seg nx b is c \<Longrightarrow> distinct is \<Longrightarrow> b \<notin> Buf ` set is \<Longrightarrow> seg (nx(seg_end b is := d)) b is d"
proof (induction "is" arbitrary: b)
  case (Cons i "is")
  have e: "seg_end (Buf i) is \<noteq> b" using Cons.prems by (auto simp: seg_end_def)
  have "seg (nx(seg_end (Buf i) is := d)) (Buf i) is d"
    by (intro Cons.IH) (use Cons.prems in auto)
  then show ?case using Cons.prems e by (simp add: fun_upd_def)
qed simp

lemma seg_join: "seg nx b as c \<Longrightarrow> nx x = c \<Longrightarrow> seg nx x bs d \<Longrightarrow> seg nx (seg_end b as) bs d
    \<Longrightarrow> seg nx b (as @ bs) d"
  by (induction as arbitrary: b) auto

lemma seg_fst: "seg nx b is c \<Longrightarrow> nx b = (case is of [] \<Rightarrow> c | i # _ \<Rightarrow> Buf i)"
  by (cases "is") auto

lemma seg_change_start: "seg nx b is c \<Longrightarrow> nx b' = nx b \<Longrightarrow> seg nx b' is c"
  by (cases "is") auto

lemma seg_unlink:
  assumes "seg nx BHead (as @ i # bs) c" "distinct (as @ i # bs)"
  shows "seg (nx(seg_end BHead as := nx (Buf i))) BHead (as @ bs) c"
proof -
  let ?e = "seg_end BHead as" and ?n = "nx (Buf i)"
  let ?nx = "nx(?e := ?n)"
  have a: "seg nx BHead as (Buf i)" and b: "seg nx (Buf i) bs c" using assms(1) by (auto simp: seg_append)
  have 1: "seg ?nx BHead as ?n" using seg_redirect [OF a] assms(2) by auto
  have l: "last as \<notin> set bs \<and> last as \<noteq> i" if "as \<noteq> []"
    using assms(2) last_in_set [OF that] by auto
  have "?e \<notin> Buf ` set bs" "?e \<noteq> Buf i" using l by (auto simp: seg_end_def)
  then have 2: "seg ?nx (Buf i) bs c" using b by (simp add: seg_upd)
  have 3: "seg ?nx ?e bs c" by (rule seg_change_start [OF 2]) (use \<open>?e \<noteq> Buf i\<close> in auto)
  show ?thesis by (rule seg_join [OF 1 _ 2 3]) (use \<open>?e \<noteq> Buf i\<close> in auto)
qed

lemma seg_link_front:
  assumes "seg nx BHead is c" "i \<notin> set is"
  shows "seg (nx(Buf i := nx BHead, BHead := Buf i)) BHead (i # is) c"
proof -
  have "seg (nx(Buf i := nx BHead)) BHead is c" using assms by (subst seg_upd) auto
  then have "seg (nx(Buf i := nx BHead)) (Buf i) is c" by (rule seg_change_start) auto
  moreover have "BHead \<notin> Buf ` set is" by auto
  ultimately show ?thesis by (simp add: seg_upd)
qed

lemma seg_link_end:
  assumes "seg nx BHead is BHead" "i \<notin> set is" "distinct is"
  shows "seg (nx(Buf i := BHead, seg_end BHead is := Buf i)) BHead (is @ [i]) BHead"
proof -
  have e: "seg_end BHead is \<noteq> Buf i" using assms(2) by (auto simp: seg_end_def)
  have "seg (nx(Buf i := BHead)) BHead is BHead" using assms by (subst seg_upd) auto
  then have "seg (nx(Buf i := BHead, seg_end BHead is := Buf i)) BHead is (Buf i)"
    using assms by (intro seg_redirect) auto
  then show ?thesis using e by (simp add: seg_append)
qed
definition relinked :: "nat \<Rightarrow> 'z bio_state_scheme \<Rightarrow> 'z bio_state_scheme" where
  "relinked i s =
     (let n = bnext s (Buf i); p = bprev s (Buf i);
          nx = (bnext s)(p := n); pv = (bprev s)(n := p); h = nx BHead
      in s\<lparr>bprev := pv(Buf i := BHead, h := Buf i), bnext := nx(Buf i := h, BHead := Buf i)\<rparr>)"

lemma lru_relinked:
  assumes "lru s xs" "i \<in> set xs"
  shows "lru (relinked i s) (i # remove1 i xs)"
proof -
  from assms(2) obtain as bs where xs: "xs = as @ i # bs" "i \<notin> set as" by (meson split_list_first)
  have d: "distinct (as @ i # bs)" and nx: "seg (bnext s) BHead (as @ i # bs) BHead"
    and pv: "seg (bprev s) BHead (rev bs @ i # rev as) BHead" using assms(1) xs by (auto simp: lru_def)
  have rm: "remove1 i xs = as @ bs" using xs by (simp add: remove1_append)
  have p: "bprev s (Buf i) = seg_end BHead as" and n: "bnext s (Buf i) = seg_end BHead (rev bs)"
    using pv nx unfolding seg_append
    by (auto dest!: seg_fst simp: seg_end_def last_rev hd_rev split: list.splits)
  let ?nx = "(bnext s)(seg_end BHead as := bnext s (Buf i))"
  let ?pv = "(bprev s)(seg_end BHead (rev bs) := bprev s (Buf i))"
  have 1: "seg ?nx BHead (as @ bs) BHead" by (rule seg_unlink [OF nx d])
  have 2: "seg ?pv BHead (rev bs @ rev as) BHead" by (rule seg_unlink [OF pv]) (use d in auto)
  have h: "?nx BHead = seg_end BHead (rev bs @ rev as)"
    using seg_fst [OF 1]
    by (cases "as @ bs") (auto simp: seg_end_def last_rev simp flip: rev_append simp del: fun_upd_apply)
  have i: "i \<notin> set (as @ bs)" "distinct (as @ bs)" using d by auto
  have 3: "seg (?nx(Buf i := ?nx BHead, BHead := Buf i)) BHead (i # as @ bs) BHead"
    by (rule seg_link_front [OF 1]) (use i in auto)
  have 4: "seg (?pv(Buf i := BHead, ?nx BHead := Buf i)) BHead (rev (i # as @ bs)) BHead"
    unfolding h using seg_link_end [OF 2, of i] i by (simp add: Int_commute)
  show ?thesis unfolding lru_def rm relinked_def p n Let_def
    using 3 4 d assms(1) xs p n by (auto simp: lru_def)
qed
subsection \<open>What the rest of the kernel relies on\<close>

text \<open>
  \<open>bio_frame s t\<close>: nothing differs between the two states but locks, run states of processes, sleep
  locks, the console's output, the cache and the disk. \<open>steady s t\<close>: the thread holds the same spinlocks, is the same
  process, and processes differ at most in their run state; \<open>calm s t\<close>: and the sleep locks of inodes are the same. \<open>idle p s\<close>: process \<open>p\<close> runs and holds no
  spinlock, which is where the buffer cache is called.
\<close>

definition bio_restore :: "'z bio_state_scheme \<Rightarrow> 'z bio_state_scheme \<Rightarrow> 'z bio_state_scheme" where
  "bio_restore s t =
     t\<lparr>locks := locks s, cpus := cpus s, sie := sie s, procs := procs s, slocks := slocks s,
       kout := kout s, bufs := bufs s, bnext := bnext s, bprev := bprev s, disk := disk s, dlog := dlog s\<rparr>"

definition bio_frame :: "'z bio_state_scheme \<Rightarrow> 'z bio_state_scheme \<Rightarrow> bool" where
  "bio_frame s t \<longleftrightarrow> bio_restore s t = s"

definition steady :: "'z proc_state_scheme \<Rightarrow> 'z proc_state_scheme \<Rightarrow> bool" where
  "steady s t \<longleftrightarrow> (lkok s \<longrightarrow> lkok t) \<and> held t = held s \<and> myp t = myp s
     \<and> (\<forall>q. (procs t q)\<lparr>pstate := pstate (procs s q)\<rparr> = procs s q)"

definition calm :: "'z sl_state_scheme \<Rightarrow> 'z sl_state_scheme \<Rightarrow> bool" where
  "calm s t \<longleftrightarrow> (lkok s \<longrightarrow> lkok t) \<and> held t = held s \<and> myp t = myp s
     \<and> (\<forall>q. (procs t q)\<lparr>pstate := pstate (procs s q)\<rparr> = procs s q)
     \<and> (\<forall>k. slocks t (Sl_inode k) = slocks s (Sl_inode k))"

definition idle :: "nat \<Rightarrow> 'z machine_scheme \<Rightarrow> bool" where
  "idle p s \<longleftrightarrow> lkok s \<and> held s = {} \<and> myp s = Some p"

lemma bio_frame_refl [simp]: "bio_frame s s"
  by (simp add: bio_frame_def bio_restore_def)

lemma bio_frame_trans: "bio_frame s t \<Longrightarrow> bio_frame t u \<Longrightarrow> bio_frame s u"
proof -
  have "bio_restore s (bio_restore t u) = bio_restore s u" by (simp add: bio_restore_def)
  then show "bio_frame s t \<Longrightarrow> bio_frame t u \<Longrightarrow> bio_frame s u" by (metis bio_frame_def)
qed

lemma calm_refl [simp]: "calm s s"
  by (simp add: calm_def)

lemma calm_steady: "calm s t \<longleftrightarrow> steady s t \<and> (\<forall>k. slocks t (Sl_inode k) = slocks s (Sl_inode k))"
  by (simp add: calm_def steady_def)

lemma steady_trans:
  assumes "steady s t" "steady t u"
  shows "steady s u"
proof -
  have "(procs u q)\<lparr>pstate := pstate (procs s q)\<rparr> = procs s q" for q
  proof -
    have "(procs u q)\<lparr>pstate := pstate (procs s q)\<rparr>
      = ((procs u q)\<lparr>pstate := pstate (procs t q)\<rparr>)\<lparr>pstate := pstate (procs s q)\<rparr>" by simp
    then show ?thesis using assms unfolding steady_def by metis
  qed
  then show ?thesis using assms by (auto simp: steady_def)
qed

lemma calm_trans: "calm s t \<Longrightarrow> calm t u \<Longrightarrow> calm s u"
  using steady_trans by (auto simp: calm_steady)

lemma steady_idle: "steady s t \<Longrightarrow> idle p s \<Longrightarrow> idle p t"
  by (auto simp: steady_def idle_def)

lemma calm_idle: "calm s t \<Longrightarrow> idle p s \<Longrightarrow> idle p t"
  by (auto simp: calm_def idle_def)

lemma steady_procs:
  assumes "steady s t"
  shows "pid (procs t q) = pid (procs s q)" "cwd (procs t q) = cwd (procs s q)"
    "ofile (procs t q) = ofile (procs s q)" "parent (procs t q) = parent (procs s q)"
    "ppagetable (procs t q) = ppagetable (procs s q)" "psz (procs t q) = psz (procs s q)"
proof -
  have "procs s q = (procs t q)\<lparr>pstate := pstate (procs s q)\<rparr>" using assms by (simp add: steady_def)
  then show "pid (procs t q) = pid (procs s q)" "cwd (procs t q) = cwd (procs s q)"
    "ofile (procs t q) = ofile (procs s q)" "parent (procs t q) = parent (procs s q)"
    "ppagetable (procs t q) = ppagetable (procs s q)" "psz (procs t q) = psz (procs s q)"
    by (metis proc.ext_inject proc.surjective proc.update_convs(1))+
qed

lemma calm_procs:
  assumes "calm s t"
  shows "pid (procs t q) = pid (procs s q)" "cwd (procs t q) = cwd (procs s q)"
    "ofile (procs t q) = ofile (procs s q)" "parent (procs t q) = parent (procs s q)"
    "ppagetable (procs t q) = ppagetable (procs s q)" "psz (procs t q) = psz (procs s q)"
  using assms steady_procs [of s t q] by (simp_all add: calm_steady)

end
