(* ===== verification/Blockcache.thy ===== *)
theory Blockcache
  imports Bio
begin

section \<open>Correctness of the buffer cache\<close>

text \<open>
  What the callers of \<^verbatim>\<open>kernel/bio.c\<close> rely on. \<open>bio_ok P H s\<close> is the invariant of the cache,
  \<open>blk s b\<close> the content of a block as the kernel sees it; the lemmas \<open>bread_ok\<close>, \<open>brelse_ok\<close>,
  \<open>bwrite_ok\<close>, \<open>bpin_ok\<close>, \<open>bunpin_ok\<close> and \<open>set_bytes_ok\<close> say what each call does to them.
\<close>

subsection \<open>Getting a block\<close>

definition bgot :: "nat \<Rightarrow> buf \<Rightarrow> nat \<Rightarrow> 'z bio_state_scheme \<Rightarrow> 'z bio_state_scheme" where
  "bgot i b p s = touch (sl_taken (Sl_buf i) (pid (procs s p)) (s\<lparr>bufs := (bufs s)(i := b)\<rparr>))"

lemma touch_twice [simp]: "lkok s \<Longrightarrow> touch (touch s) = touch s"
  by (simp add: touch_def)

lemma bget_hit:
  assumes "idle p s" "lru s xs" "\<not> slocked (slocks s (Sl_buf i))"
    "find (\<lambda>i. bdev (bufs s i) = dev \<and> blockno (bufs s i) = bno) xs = Some i"
  shows "bget dev bno s = Ret i (bgot i ((bufs s i)\<lparr>refcnt := refcnt (bufs s i) + 1\<rparr>) p s)"
proof -
  have s: "lkok s" "held s = {}" "myp s = Some p" using assms(1) by (auto simp: idle_def)
  let ?s = "touch s\<lparr>bufs := (bufs s)(i := (bufs s i)\<lparr>refcnt := refcnt (bufs s i) + 1\<rparr>)\<rparr>"
  have "acquiresleep (Sl_buf i) ?s = Ret () (touch (sl_taken (Sl_buf i) (pid (procs ?s p)) ?s))"
    using s assms(3) by (intro acquiresleep_free) auto
  then show ?thesis using s bscan_next [OF assms(2)] assms(4)
    by (simp add: bget_def bget_take_def upd_buf_def bgot_def sl_taken_def)
qed

lemma bget_miss:
  assumes "idle p s" "lru s xs" "\<not> slocked (slocks s (Sl_buf i))"
    "find (\<lambda>i. bdev (bufs s i) = dev \<and> blockno (bufs s i) = bno) xs = None"
    "find (\<lambda>i. refcnt (bufs s i) = 0) (rev xs) = Some i"
  shows "bget dev bno s =
    Ret i (bgot i ((bufs s i)\<lparr>bdev := dev, blockno := bno, bvalid := False, refcnt := 1\<rparr>) p s)"
proof -
  have s: "lkok s" "held s = {}" "myp s = Some p" using assms(1) by (auto simp: idle_def)
  let ?s = "touch s\<lparr>bufs := (bufs s)(i :=
     (bufs s i)\<lparr>bdev := dev, blockno := bno, bvalid := False, refcnt := 1\<rparr>)\<rparr>"
  have "acquiresleep (Sl_buf i) ?s = Ret () (touch (sl_taken (Sl_buf i) (pid (procs ?s p)) ?s))"
    using s assms(3) by (intro acquiresleep_free) auto
  then show ?thesis using s bscan_next [OF assms(2)] bscan_prev [OF assms(2)] assms(4,5)
    by (simp add: bget_def bget_take_def upd_buf_def bgot_def sl_taken_def)
qed

lemma bget_full:
  assumes "idle p s" "lru s xs"
    "find (\<lambda>i. bdev (bufs s i) = dev \<and> blockno (bufs s i) = bno) xs = None"
    "find (\<lambda>i. refcnt (bufs s i) = 0) (rev xs) = None"
  shows "bget dev bno s = Halt (Panic ''bget: no buffers'') (entered Lk_bcache s)"
  using assms bscan_next [OF assms(2)] bscan_prev [OF assms(2)]
  by (simp add: bget_def idle_def)

lemma bgot_simps [simp]:
  "bufs (bgot i b p s) = (bufs s)(i := b)" "disk (bgot i b p s) = disk s"
  "dlog (bgot i b p s) = dlog s" "bnext (bgot i b p s) = bnext s" "bprev (bgot i b p s) = bprev s"
  "procs (bgot i b p s) = procs s"
  "slocks (bgot i b p s) = (slocks s)(Sl_buf i := (slocks s (Sl_buf i))\<lparr>slocked := True, slpid := pid (procs s p)\<rparr>)"
  "bgot i b p s\<lparr>bufs := (bufs s)(i := b')\<rparr> = bgot i b' p s"
  by (simp_all add: bgot_def sl_taken_def)

lemma calm_bgot [simp]: "lkok s \<Longrightarrow> calm s (bgot i b p s)"
  by (simp add: calm_def bgot_def sl_taken_def)

lemma bio_frame_bgot [simp]: "bio_frame s (bgot i b p s)"
  by (simp add: bio_frame_def bio_restore_def bgot_def sl_taken_def touch_def)

lemma bread_hit:
  assumes "idle p s" "lru s xs" "\<not> slocked (slocks s (Sl_buf i))" "bvalid (bufs s i)"
    "find (\<lambda>i. bdev (bufs s i) = dev \<and> blockno (bufs s i) = bno) xs = Some i"
  shows "bread dev bno s = Ret i (bgot i ((bufs s i)\<lparr>refcnt := refcnt (bufs s i) + 1\<rparr>) p s)"
  using assms by (simp add: bread_def bget_hit)

lemma bread_miss:
  assumes "idle p s" "lru s xs" "\<not> slocked (slocks s (Sl_buf i))"
    "find (\<lambda>i. bdev (bufs s i) = dev \<and> blockno (bufs s i) = bno) xs = None"
    "find (\<lambda>i. refcnt (bufs s i) = 0) (rev xs) = Some i"
  shows "bread dev bno s = Ret i (bgot i ((bufs s i)\<lparr>bdev := dev, blockno := bno,
    refcnt := 1, bdata := disk s bno, bvalid := True\<rparr>) p s)"
  using assms by (simp add: bread_def bget_miss disk_rw_def upd_buf_def)

text \<open>
  The state of the cache between calls of one process: it has locked the buffers \<open>H\<close>, the buffers
  \<open>P\<close> are pinned, and these are all the references there are. Every other buffer that holds a
  block holds what the disk holds.
\<close>

definition mypid :: "'z proc_state_scheme \<Rightarrow> uint32" where
  "mypid s = pid (procs s (the (myp s)))"

definition bio_ok :: "nat set \<Rightarrow> nat set \<Rightarrow> 'z bio_state_scheme \<Rightarrow> bool" where
  "bio_ok P H s \<longleftrightarrow> (\<exists>xs. lru s xs) \<and> P \<subseteq> {..<NBUF} \<and> H \<subseteq> {..<NBUF}
     \<and> (\<forall>i<NBUF. refcnt (bufs s i) = of_bool (i \<in> P) + of_bool (i \<in> H))
     \<and> (\<forall>i<NBUF. slocked (slocks s (Sl_buf i)) \<longleftrightarrow> i \<in> H)
     \<and> (\<forall>i\<in>H. slpid (slocks s (Sl_buf i)) = mypid s)
     \<and> (\<forall>i<NBUF. bvalid (bufs s i) \<longleftrightarrow> bdev (bufs s i) = ROOTDEV)
     \<and> (\<forall>i<NBUF. \<forall>j<NBUF. bvalid (bufs s i) \<and> bvalid (bufs s j)
          \<and> blockno (bufs s i) = blockno (bufs s j) \<longrightarrow> i = j)
     \<and> (\<forall>i\<in>P \<union> H. bvalid (bufs s i))
     \<and> (\<forall>i<NBUF. bvalid (bufs s i) \<and> i \<notin> P \<union> H \<longrightarrow> bdata (bufs s i) = disk s (blockno (bufs s i)))
     \<and> (\<forall>i<NBUF. bvalid (bufs s i) \<longrightarrow> length (bdata (bufs s i)) = BSIZE)
     \<and> (\<forall>b. length (disk s b) = BSIZE)"

text \<open>The content of a block as the kernel sees it: its buffer, or the disk when it has none.\<close>

definition blk :: "'z bio_state_scheme \<Rightarrow> nat \<Rightarrow> bytes" where
  "blk s b =
     (case find (\<lambda>i. bvalid (bufs s i) \<and> blockno (bufs s i) = b) [0..<NBUF] of
        Some i \<Rightarrow> bdata (bufs s i) | None \<Rightarrow> disk s b)"

lemma blk_cached:
  assumes "bio_ok P H s" "i < NBUF" "bvalid (bufs s i)" "blockno (bufs s i) = b"
  shows "blk s b = bdata (bufs s i)"
proof -
  have "find (\<lambda>i. bvalid (bufs s i) \<and> blockno (bufs s i) = b) [0..<NBUF] \<noteq> None"
    using assms by (auto simp: find_None_iff)
  then obtain j where j: "find (\<lambda>i. bvalid (bufs s i) \<and> blockno (bufs s i) = b) [0..<NBUF] = Some j"
    by auto
  then have "j < NBUF" "bvalid (bufs s j)" "blockno (bufs s j) = b"
    by (auto simp: find_Some_iff)
  then have "j = i" using assms unfolding bio_ok_def by metis
  then show ?thesis using j by (simp add: blk_def)
qed

lemma blk_uncached:
  "(\<And>i. i < NBUF \<Longrightarrow> bvalid (bufs s i) \<Longrightarrow> blockno (bufs s i) \<noteq> b) \<Longrightarrow> blk s b = disk s b"
  by (fastforce simp: blk_def find_Some_iff split: option.splits)

lemma bio_okD:
  assumes "bio_ok P H s"
  shows "P \<subseteq> {..<NBUF}" "H \<subseteq> {..<NBUF}"
    "i < NBUF \<Longrightarrow> refcnt (bufs s i) = of_bool (i \<in> P) + of_bool (i \<in> H)"
    "i < NBUF \<Longrightarrow> slocked (slocks s (Sl_buf i)) \<longleftrightarrow> i \<in> H"
    "i \<in> H \<Longrightarrow> slpid (slocks s (Sl_buf i)) = mypid s"
    "i < NBUF \<Longrightarrow> bvalid (bufs s i) \<longleftrightarrow> bdev (bufs s i) = ROOTDEV"
    "i < NBUF \<Longrightarrow> j < NBUF \<Longrightarrow> bvalid (bufs s i) \<Longrightarrow> bvalid (bufs s j) \<Longrightarrow>
       blockno (bufs s i) = blockno (bufs s j) \<Longrightarrow> i = j"
    "i \<in> P \<or> i \<in> H \<Longrightarrow> bvalid (bufs s i)"
    "i < NBUF \<Longrightarrow> bvalid (bufs s i) \<Longrightarrow> i \<notin> P \<Longrightarrow> i \<notin> H \<Longrightarrow>
       bdata (bufs s i) = disk s (blockno (bufs s i))"
    "i < NBUF \<Longrightarrow> bvalid (bufs s i) \<Longrightarrow> length (bdata (bufs s i)) = BSIZE"
    "length (disk s b) = BSIZE" "i \<in> P \<or> i \<in> H \<Longrightarrow> i < NBUF"
proof -
  have c: "P \<subseteq> {..<NBUF}" "H \<subseteq> {..<NBUF}"
    "\<forall>i<NBUF. refcnt (bufs s i) = of_bool (i \<in> P) + of_bool (i \<in> H)"
    "\<forall>i<NBUF. slocked (slocks s (Sl_buf i)) \<longleftrightarrow> i \<in> H"
    "\<forall>i\<in>H. slpid (slocks s (Sl_buf i)) = mypid s"
    "\<forall>i<NBUF. bvalid (bufs s i) \<longleftrightarrow> bdev (bufs s i) = ROOTDEV"
    "\<forall>i<NBUF. \<forall>j<NBUF. bvalid (bufs s i) \<and> bvalid (bufs s j)
          \<and> blockno (bufs s i) = blockno (bufs s j) \<longrightarrow> i = j"
    "\<forall>i\<in>P \<union> H. bvalid (bufs s i)"
    "\<forall>i<NBUF. bvalid (bufs s i) \<and> i \<notin> P \<union> H \<longrightarrow> bdata (bufs s i) = disk s (blockno (bufs s i))"
    "\<forall>i<NBUF. bvalid (bufs s i) \<longrightarrow> length (bdata (bufs s i)) = BSIZE"
    "\<forall>b. length (disk s b) = BSIZE"
    using assms unfolding bio_ok_def by - (elim conjE, assumption)+
  show "P \<subseteq> {..<NBUF}" "H \<subseteq> {..<NBUF}" "length (disk s b) = BSIZE" using c(1,2,11) by auto
  show "i < NBUF \<Longrightarrow> refcnt (bufs s i) = of_bool (i \<in> P) + of_bool (i \<in> H)" using c(3) by blast
  show "i < NBUF \<Longrightarrow> slocked (slocks s (Sl_buf i)) \<longleftrightarrow> i \<in> H" using c(4) by blast
  show "i \<in> H \<Longrightarrow> slpid (slocks s (Sl_buf i)) = mypid s" using c(5) by blast
  show "i < NBUF \<Longrightarrow> bvalid (bufs s i) \<longleftrightarrow> bdev (bufs s i) = ROOTDEV" using c(6) by blast
  show "i < NBUF \<Longrightarrow> j < NBUF \<Longrightarrow> bvalid (bufs s i) \<Longrightarrow> bvalid (bufs s j) \<Longrightarrow>
       blockno (bufs s i) = blockno (bufs s j) \<Longrightarrow> i = j" using c(7) by blast
  show "i \<in> P \<or> i \<in> H \<Longrightarrow> bvalid (bufs s i)" using c(8) by blast
  show "i < NBUF \<Longrightarrow> bvalid (bufs s i) \<Longrightarrow> i \<notin> P \<Longrightarrow> i \<notin> H \<Longrightarrow>
       bdata (bufs s i) = disk s (blockno (bufs s i))" using c(9) by blast
  show "i < NBUF \<Longrightarrow> bvalid (bufs s i) \<Longrightarrow> length (bdata (bufs s i)) = BSIZE" using c(10) by blast
  show "i \<in> P \<or> i \<in> H \<Longrightarrow> i < NBUF" using c(1,2) by blast
qed

lemma bio_okI:
  assumes "\<exists>xs. lru s xs" "P \<subseteq> {..<NBUF}" "H \<subseteq> {..<NBUF}"
    "\<And>i. i < NBUF \<Longrightarrow> refcnt (bufs s i) = of_bool (i \<in> P) + of_bool (i \<in> H)"
    "\<And>i. i < NBUF \<Longrightarrow> slocked (slocks s (Sl_buf i)) \<longleftrightarrow> i \<in> H"
    "\<And>i. i \<in> H \<Longrightarrow> slpid (slocks s (Sl_buf i)) = mypid s"
    "\<And>i. i < NBUF \<Longrightarrow> bvalid (bufs s i) \<longleftrightarrow> bdev (bufs s i) = ROOTDEV"
    "\<And>i j. i < NBUF \<Longrightarrow> j < NBUF \<Longrightarrow> bvalid (bufs s i) \<Longrightarrow> bvalid (bufs s j) \<Longrightarrow>
       blockno (bufs s i) = blockno (bufs s j) \<Longrightarrow> i = j"
    "\<And>i. i \<in> P \<or> i \<in> H \<Longrightarrow> bvalid (bufs s i)"
    "\<And>i. i < NBUF \<Longrightarrow> bvalid (bufs s i) \<Longrightarrow> i \<notin> P \<Longrightarrow> i \<notin> H \<Longrightarrow>
       bdata (bufs s i) = disk s (blockno (bufs s i))"
    "\<And>i. i < NBUF \<Longrightarrow> bvalid (bufs s i) \<Longrightarrow> length (bdata (bufs s i)) = BSIZE"
    "\<And>b. length (disk s b) = BSIZE"
  shows "bio_ok P H s"
  unfolding bio_ok_def using assms by simp

lemma find_SomeD: "find Q xs = Some x \<Longrightarrow> x \<in> set xs \<and> Q x"
  by (induction xs) (auto split: if_splits)

lemma bio_ok_bgot:
  assumes "bio_ok P H s" "idle p s" "i < NBUF" "i \<notin> H" "bvalid b" "bdev b = ROOTDEV"
    "refcnt b = of_bool (i \<in> P) + 1" "length (bdata b) = BSIZE"
    "\<And>j. j < NBUF \<Longrightarrow> j \<noteq> i \<Longrightarrow> bvalid (bufs s j) \<Longrightarrow> blockno (bufs s j) \<noteq> blockno b"
  shows "bio_ok P (insert i H) (bgot i b p s)"
proof -
  have m: "mypid (bgot i b p s) = mypid s" "mypid s = pid (procs s p)"
    using assms(2) by (simp_all add: mypid_def idle_def bgot_def sl_taken_def)
  obtain xs where "lru s xs" using assms(1) by (auto simp: bio_ok_def)
  then have l: "lru (bgot i b p s) xs" by (simp add: lru_def)
  show ?thesis unfolding bio_ok_def
  proof (intro conjI)
    show "\<forall>j<NBUF. \<forall>k<NBUF. bvalid (bufs (bgot i b p s) j) \<and> bvalid (bufs (bgot i b p s) k)
      \<and> blockno (bufs (bgot i b p s) j) = blockno (bufs (bgot i b p s) k) \<longrightarrow> j = k"
      using assms(1,9) by (simp add: bio_ok_def) metis
  qed (use assms l m in \<open>auto simp: bio_ok_def\<close>)
qed

lemma blk_bgot:
  assumes "bio_ok P H s" "bio_ok P' H' (bgot i b p s)" "i < NBUF" "bvalid b" "bdata b = blk s (blockno b)"
    "bvalid (bufs s i) \<Longrightarrow> blockno (bufs s i) = blockno b \<or> i \<notin> P \<union> H"
  shows "blk (bgot i b p s) = blk s"
proof
  fix c
  let ?t = "bgot i b p s"
  consider "c = blockno b" | j where "c \<noteq> blockno b" "j < NBUF" "j \<noteq> i" "bvalid (bufs s j)" "blockno (bufs s j) = c"
    | "c \<noteq> blockno b" "\<And>j. j < NBUF \<Longrightarrow> j \<noteq> i \<Longrightarrow> bvalid (bufs s j) \<Longrightarrow> blockno (bufs s j) \<noteq> c" by blast
  then show "blk ?t c = blk s c"
  proof cases
    case 1
    then show ?thesis using blk_cached [OF assms(2), of i c] assms by simp
  next
    case 2
    then show ?thesis using blk_cached [OF assms(2), of j c] blk_cached [OF assms(1), of j c] by simp
  next
    case 3
    have t: "blk ?t c = disk s c" using 3 by (subst blk_uncached) (auto split: if_splits)
    show ?thesis
    proof (cases "bvalid (bufs s i) \<and> blockno (bufs s i) = c")
      case True
      then have "i \<notin> P \<union> H" using assms(6) 3(1) by auto
      then have "bdata (bufs s i) = disk s c" using True assms(1,3) by (auto simp: bio_ok_def)
      then show ?thesis using t True blk_cached [OF assms(1,3), of c] by simp
    next
      case False
      then have "blk s c = disk s c" using 3(2) by (intro blk_uncached) metis
      then show ?thesis using t by simp
    qed
  qed
qed

text \<open>What is known after a block has been read and its buffer locked.\<close>

definition bread_post :: "nat set \<Rightarrow> nat set \<Rightarrow> nat \<Rightarrow> 'z bio_state_scheme \<Rightarrow> nat \<Rightarrow> 'z bio_state_scheme \<Rightarrow> bool" where
  "bread_post P H b s i t \<longleftrightarrow> i < NBUF \<and> i \<notin> H \<and> bio_ok P (insert i H) t \<and> blockno (bufs t i) = b
     \<and> bdata (bufs t i) = blk s b \<and> blk t = blk s \<and> disk t = disk s \<and> dlog t = dlog s
     \<and> (\<forall>j\<in>P \<union> H. blockno (bufs t j) = blockno (bufs s j) \<and> bdata (bufs t j) = bdata (bufs s j))
     \<and> (i \<in> P \<longleftrightarrow> (\<exists>j\<in>P. blockno (bufs s j) = b)) \<and> bio_frame s t \<and> calm s t"

lemma bread_ok:
  assumes "bio_ok P H s" "idle p s" "\<And>i. i \<in> H \<Longrightarrow> blockno (bufs s i) \<noteq> b"
    "card (P \<union> H) < NBUF \<or> (\<exists>i\<in>P. blockno (bufs s i) = b)"
  shows "\<exists>i t. bread ROOTDEV b s = Ret i t \<and> bread_post P H b s i t"
proof -
  let ?hit = "\<lambda>i. bdev (bufs s i) = ROOTDEV \<and> blockno (bufs s i) = b"
  obtain xs where xs: "lru s xs" using assms(1) by (auto simp: bio_ok_def)
  have set: "set xs = {..<NBUF}" using xs by (simp add: lru_def)
  have ok: "\<And>i. i < NBUF \<Longrightarrow> bvalid (bufs s i) \<longleftrightarrow> bdev (bufs s i) = ROOTDEV"
    "\<And>i. i < NBUF \<Longrightarrow> slocked (slocks s (Sl_buf i)) \<longleftrightarrow> i \<in> H"
    "\<And>i. i < NBUF \<Longrightarrow> refcnt (bufs s i) = of_bool (i \<in> P) + of_bool (i \<in> H)"
    "\<And>b. length (disk s b) = BSIZE" "P \<subseteq> {..<NBUF}" "lkok s"
    using assms(1,2) by (auto simp: bio_ok_def idle_def)
  show ?thesis
  proof (cases "find ?hit xs")
    case (Some i)
    have i: "i < NBUF" "?hit i" using find_SomeD [OF Some] set by auto
    have "i \<notin> H" using assms(3) i by auto
    let ?b = "(bufs s i)\<lparr>refcnt := refcnt (bufs s i) + 1\<rparr>" let ?t = "bgot i ?b p s"
    have u: "j = i" if "j < NBUF" "bvalid (bufs s j)" "blockno (bufs s j) = b" for j
      using that i assms(1) ok(1) unfolding bio_ok_def by metis
    have 1: "bread ROOTDEV b s = Ret i ?t"
      using bread_hit [OF assms(2) xs _ _ Some] i ok \<open>i \<notin> H\<close> by simp
    have v: "bvalid (bufs s i)" "refcnt (bufs s i) = of_bool (i \<in> P)" "length (bdata (bufs s i)) = BSIZE"
      using i(2) ok(1,3) [OF i(1)] \<open>i \<notin> H\<close> bio_okD(10) [OF assms(1) i(1)] by simp_all
    have 2: "bio_ok P (insert i H) ?t"
    proof (rule bio_ok_bgot [OF assms(1,2) i(1) \<open>i \<notin> H\<close>])
      show "blockno (bufs s j) \<noteq> blockno ?b" if "j < NBUF" "j \<noteq> i" "bvalid (bufs s j)" for j
        using u [OF that(1,3)] that(2) i(2) by auto
    qed (use v i(2) in simp_all)
    have d: "bdata (bufs s i) = blk s b" using blk_cached [OF assms(1) i(1)] i ok by simp
    have 3: "blk ?t = blk s" using i ok d by (intro blk_bgot [OF assms(1) 2]) auto
    have "i \<in> P \<longleftrightarrow> (\<exists>j\<in>P. blockno (bufs s j) = b)"
      using i u bio_okD(8,12) [OF assms(1)] by blast
    then have "bread_post P H b s i ?t" using 2 3 i \<open>i \<notin> H\<close> d ok(6) by (simp add: bread_post_def)
    then show ?thesis using 1 by blast
  next
    case None
    then have n: "\<not> ?hit j" if "j < NBUF" for j using that set by (auto simp: find_None_iff)
    have np: "\<not> (\<exists>j\<in>P. blockno (bufs s j) = b)" using n ok(1) bio_okD(8,12) [OF assms(1)] by blast
    then have "card (P \<union> H) < NBUF" using assms(4) by blast
    moreover have "finite (P \<union> H)" using bio_okD(1,2) [OF assms(1)] finite_subset by blast
    ultimately have "\<not> {..<NBUF} \<subseteq> P \<union> H" using card_mono [of "P \<union> H" "{..<NBUF}"] by auto
    then obtain j where "j < NBUF" "j \<notin> P \<union> H" by auto
    then have "find (\<lambda>i. refcnt (bufs s i) = 0) (rev xs) \<noteq> None" using set ok(3) by (auto simp: find_None_iff)
    then obtain i where f: "find (\<lambda>i. refcnt (bufs s i) = 0) (rev xs) = Some i" by auto
    then have i: "i < NBUF" "refcnt (bufs s i) = 0" using find_SomeD [OF f] set by auto
    then have iPH: "i \<notin> P \<union> H" using ok(3) [OF i(1)] by (cases "i \<in> P"; cases "i \<in> H") simp_all
    let ?b = "(bufs s i)\<lparr>bdev := ROOTDEV, blockno := b, refcnt := 1, bdata := disk s b, bvalid := True\<rparr>"
    let ?t = "bgot i ?b p s"
    have 1: "bread ROOTDEV b s = Ret i ?t"
      using bread_miss [OF assms(2) xs _ None f] i ok(2) iPH by simp
    have 2: "bio_ok P (insert i H) ?t"
      by (rule bio_ok_bgot [OF assms(1,2) i(1)]) (use i ok iPH n in auto)
    have d: "blk s b = disk s b" using n ok(1) by (intro blk_uncached) auto
    have 3: "blk ?t = blk s" using i iPH d by (intro blk_bgot [OF assms(1) 2]) auto
    have "bread_post P H b s i ?t" using 2 3 i iPH d np ok(6) by (auto simp: bread_post_def)
    then show ?thesis using 1 by blast
  qed
qed

subsection \<open>Giving a block back\<close>

definition bgone :: "nat \<Rightarrow> 'z bio_state_scheme \<Rightarrow> 'z bio_state_scheme" where
  "bgone i s =
     (let w = (touch (sl_dropped (Sl_buf i) s))\<lparr>
            procs := (\<lambda>p. if p < NPROC \<and> Some p \<noteq> myp s
               then woken (Some (Ch_sleeplock (Sl_buf i))) (procs s p) else procs s p),
            bufs := (bufs s)(i := (bufs s i)\<lparr>refcnt := refcnt (bufs s i) - 1\<rparr>)\<rparr>
      in if refcnt (bufs s i) - 1 = 0 then relinked i w else w)"

lemma brelse_eq:
  assumes "bio_ok P H s" "idle p s" "i \<in> H"
  shows "brelse i s = Ret () (bgone i s)"
proof -
  have s: "lkok s" "held s = {}" "myp s = Some p" using assms(2) by (auto simp: idle_def)
  have i: "i < NBUF" "slocked (slocks s (Sl_buf i))" "slpid (slocks s (Sl_buf i)) = pid (procs s p)"
    using bio_okD(4,5,12) [OF assms(1)] assms(3) s(3) by (auto simp: mypid_def)
  have h: "holdingsleep (Sl_buf i) s = Ret True (touch s)"
    using holdingsleep_eq [of s "Sl_buf i" p] s i by simp
  have r: "releasesleep (Sl_buf i) (touch s) = Ret () (touch (sl_dropped (Sl_buf i) s)\<lparr>
      procs := (\<lambda>p. if p < NPROC \<and> Some p \<noteq> myp s
         then woken (Some (Ch_sleeplock (Sl_buf i))) (procs s p) else procs s p)\<rparr>)"
    using releasesleep_eq [of "touch s" "Sl_buf i"] s by (simp add: sl_dropped_def cong: if_cong)
  show ?thesis using s
    by (simp add: brelse_def h r upd_buf_def sl_dropped_def bgone_def Let_def set_next_def set_prev_def
        link_head_def relinked_def cong: if_cong)
qed

lemma relinked_simps [simp]:
  "bufs (relinked i s) = bufs s" "disk (relinked i s) = disk s" "dlog (relinked i s) = dlog s"
  "slocks (relinked i s) = slocks s" "procs (relinked i s) = procs s" "lkok (relinked i s) = lkok s"
  "held (relinked i s) = held s" "cpus (relinked i s) = cpus s" "tp (relinked i s) = tp s"
  by (simp_all add: relinked_def Let_def)

lemma bgone_simps [simp]:
  "bufs (bgone i s) = (bufs s)(i := (bufs s i)\<lparr>refcnt := refcnt (bufs s i) - 1\<rparr>)"
  "disk (bgone i s) = disk s" "dlog (bgone i s) = dlog s"
  "slocks (bgone i s) = (slocks s)(Sl_buf i := (slocks s (Sl_buf i))\<lparr>slocked := False, slpid := 0\<rparr>)"
  by (simp_all add: bgone_def Let_def sl_dropped_def)

lemma bgone_buf:
  "bvalid (bufs (bgone i s) j) = bvalid (bufs s j)" "bdev (bufs (bgone i s) j) = bdev (bufs s j)"
  "blockno (bufs (bgone i s) j) = blockno (bufs s j)" "bdata (bufs (bgone i s) j) = bdata (bufs s j)"
  by simp_all

lemma calm_bgone [simp]: "calm s (bgone i s)"
  by (simp add: calm_def bgone_def Let_def sl_dropped_def woken_def)

lemma bio_frame_bgone [simp]: "bio_frame s (bgone i s)"
  by (simp add: bio_frame_def bio_restore_def bgone_def Let_def sl_dropped_def relinked_def touch_def)

lemma lru_bgone:
  assumes "lru s xs" "i \<in> set xs"
  shows "lru (bgone i s) (if refcnt (bufs s i) - 1 = 0 then i # remove1 i xs else xs)"
proof (cases "refcnt (bufs s i) - 1 = 0")
  case True
  define w where "w = (touch (sl_dropped (Sl_buf i) s))\<lparr>
            procs := (\<lambda>p. if p < NPROC \<and> Some p \<noteq> myp s
               then woken (Some (Ch_sleeplock (Sl_buf i))) (procs s p) else procs s p),
            bufs := (bufs s)(i := (bufs s i)\<lparr>refcnt := refcnt (bufs s i) - 1\<rparr>)\<rparr>"
  have "bgone i s = relinked i w" using True by (simp add: bgone_def w_def)
  moreover have "lru w xs" using assms by (simp add: lru_def w_def sl_dropped_def)
  ultimately show ?thesis using lru_relinked [of w xs i] assms True by simp
next
  case False
  then show ?thesis using assms by (simp add: lru_def bgone_def sl_dropped_def)
qed

lemma mypid_calm: "calm s t \<Longrightarrow> mypid t = mypid s"
  using calm_procs(1) [of s t] by (simp add: mypid_def calm_def)

lemma bio_ok_bgone:
  assumes ok: "bio_ok P H s" and iH: "i \<in> H"
    and cl: "i \<in> P \<or> bdata (bufs s i) = disk s (blockno (bufs s i))"
  shows "bio_ok P (H - {i}) (bgone i s)"
proof -
  note d = bio_okD [OF ok]
  have i: "i < NBUF" using iH d(2) by auto
  obtain xs where "lru s xs" using ok by (auto simp: bio_ok_def)
  then have l: "\<exists>ys. lru (bgone i s) ys" using lru_bgone [of s xs i] i by (metis lru_def lessThan_iff)
  have m: "mypid (bgone i s) = mypid s" by (rule mypid_calm) simp
  show ?thesis
  proof (rule bio_okI [OF l])
    fix j assume j: "j < NBUF"
    show "refcnt (bufs (bgone i s) j) = of_bool (j \<in> P) + of_bool (j \<in> H - {i})"
      using d(3) [OF j] iH by (cases "j = i") (auto split: if_splits)
    show "slocked (slocks (bgone i s) (Sl_buf j)) \<longleftrightarrow> j \<in> H - {i}" using d(4) [OF j] by simp
    show "bvalid (bufs (bgone i s) j) \<longleftrightarrow> bdev (bufs (bgone i s) j) = ROOTDEV"
      using d(6) [OF j] unfolding bgone_buf .
    assume v: "bvalid (bufs (bgone i s) j)"
    then show "length (bdata (bufs (bgone i s) j)) = BSIZE" using d(10) [OF j] unfolding bgone_buf by blast
    show "j \<notin> P \<Longrightarrow> j \<notin> H - {i} \<Longrightarrow>
        bdata (bufs (bgone i s) j) = disk (bgone i s) (blockno (bufs (bgone i s) j))"
      using v d(9) [OF j] cl unfolding bgone_buf bgone_simps(2) by blast
    fix k assume "k < NBUF" "bvalid (bufs (bgone i s) k)"
      "blockno (bufs (bgone i s) j) = blockno (bufs (bgone i s) k)"
    then show "j = k" using v d(7) [OF j] unfolding bgone_buf by blast
  next
    fix j
    show "j \<in> P \<or> j \<in> H - {i} \<Longrightarrow> bvalid (bufs (bgone i s) j)" using d(8) [of j] unfolding bgone_buf by blast
    show "j \<in> H - {i} \<Longrightarrow> slpid (slocks (bgone i s) (Sl_buf j)) = mypid (bgone i s)" using d(5) [of j] m by simp
  qed (use d(1,2,11) in auto)
qed

lemma blk_bufs:
  assumes "disk t = disk s" "\<And>i. i < NBUF \<Longrightarrow> bvalid (bufs t i) = bvalid (bufs s i)"
    "\<And>i. i < NBUF \<Longrightarrow> blockno (bufs t i) = blockno (bufs s i)"
    "\<And>i. i < NBUF \<Longrightarrow> bdata (bufs t i) = bdata (bufs s i)"
  shows "blk t = blk s"
proof
  fix b
  have "find (\<lambda>i. bvalid (bufs t i) \<and> blockno (bufs t i) = b) [0..<NBUF] =
        find (\<lambda>i. bvalid (bufs s i) \<and> blockno (bufs s i) = b) [0..<NBUF]"
    using assms by (intro find_cong) auto
  then show "blk t b = blk s b"
    using assms by (auto simp: blk_def dest!: find_SomeD split: option.splits)
qed

text \<open>After a buffer has been given back.\<close>

definition same_blocks :: "'z bio_state_scheme \<Rightarrow> 'z bio_state_scheme \<Rightarrow> bool" where
  "same_blocks s t \<longleftrightarrow> (\<forall>j. blockno (bufs t j) = blockno (bufs s j) \<and> bdata (bufs t j) = bdata (bufs s j)
     \<and> bvalid (bufs t j) = bvalid (bufs s j)) \<and> bio_frame s t \<and> calm s t"

lemma brelse_ok:
  assumes "bio_ok P H s" "idle p s" "i \<in> H" "i \<in> P \<or> bdata (bufs s i) = disk s (blockno (bufs s i))"
  shows "\<exists>t. brelse i s = Ret () t \<and> bio_ok P (H - {i}) t \<and> same_blocks s t \<and> blk t = blk s
    \<and> disk t = disk s \<and> dlog t = dlog s"
proof -
  have "blk (bgone i s) = blk s" by (rule blk_bufs) auto
  then show ?thesis
    using brelse_eq [OF assms(1-3)] bio_ok_bgone [OF assms(1,3,4)] by (simp add: same_blocks_def)
qed

subsection \<open>Changing, writing and pinning a block\<close>

lemma bio_ok_change:
  assumes ok: "bio_ok P H s" and iH: "i \<in> H"
    and st: "bnext t = bnext s" "bprev t = bprev s" "slocks t = slocks s" "mypid t = mypid s"
    and b: "bufs t = (bufs s)(i := b)" "bvalid b" "bdev b = ROOTDEV" "blockno b = blockno (bufs s i)"
      "refcnt b = of_bool (i \<in> P') + 1" "length (bdata b) = BSIZE"
    and P: "P' - {i} = P - {i}"
    and dk: "\<And>c. c \<noteq> blockno b \<Longrightarrow> disk t c = disk s c" "length (disk t (blockno b)) = BSIZE"
  shows "bio_ok P' H t"
proof -
  note d = bio_okD [OF ok]
  have i: "i < NBUF" "bvalid (bufs s i)" using iH d(8,12) by auto
  have same: "bvalid (bufs t j) = bvalid (bufs s j)" "blockno (bufs t j) = blockno (bufs s j)" for j
    using b i by simp_all
  have P': "j \<in> P' \<longleftrightarrow> j \<in> P" if "j \<noteq> i" for j using P that by blast
  obtain xs where "lru s xs" using ok by (auto simp: bio_ok_def)
  then have l: "\<exists>xs. lru t xs" using lru_cong [OF st(1,2)] by metis
  show ?thesis
  proof (rule bio_okI [OF l])
    show "P' \<subseteq> {..<NBUF}" using d(1) i(1) P by auto
    show "H \<subseteq> {..<NBUF}" by (rule d(2))
    show "length (disk t c) = BSIZE" for c using dk d(11) by (cases "c = blockno b") auto
    fix j assume j: "j < NBUF"
    show "refcnt (bufs t j) = of_bool (j \<in> P') + of_bool (j \<in> H)"
      using d(3) [OF j] b(1,5) iH P' [of j] by (cases "j = i") auto
    show "slocked (slocks t (Sl_buf j)) \<longleftrightarrow> j \<in> H" using d(4) [OF j] st(3) by simp
    show "bvalid (bufs t j) \<longleftrightarrow> bdev (bufs t j) = ROOTDEV" using d(6) [OF j] b by auto
    assume v: "bvalid (bufs t j)"
    then show "length (bdata (bufs t j)) = BSIZE" using d(10) [OF j] b same by auto
    show "bdata (bufs t j) = disk t (blockno (bufs t j))" if "j \<notin> P'" "j \<notin> H"
    proof -
      have "j \<noteq> i" using iH that by blast
      then have "blockno (bufs s j) \<noteq> blockno b" using d(7) [OF j i(1)] v i(2) b(4) same by metis
      then show ?thesis using d(9) [OF j] v that P' \<open>j \<noteq> i\<close> same b(1) dk(1) by simp
    qed
    fix k assume "k < NBUF" "bvalid (bufs t k)" "blockno (bufs t j) = blockno (bufs t k)"
    then show "j = k" using v d(7) [OF j] unfolding same by blast
  next
    fix j
    show "j \<in> P' \<or> j \<in> H \<Longrightarrow> bvalid (bufs t j)" using d(8) [of j] i P' [of j] unfolding same by metis
    show "j \<in> H \<Longrightarrow> slpid (slocks t (Sl_buf j)) = mypid t" using d(5) [of j] st by simp
  qed
qed

text \<open>Changing the bytes of a locked buffer.\<close>

lemma set_bytes_ok:
  assumes "bio_ok P H s" "i \<in> H" "length (f (bdata (bufs s i))) = BSIZE"
  shows "\<exists>t. set_bytes i f s = Ret () t \<and> bio_ok P H t \<and> blk t = (blk s)(blockno (bufs s i) := f (bdata (bufs s i)))
    \<and> bufs t = (bufs s)(i := (bufs s i)\<lparr>bdata := f (bdata (bufs s i))\<rparr>)
    \<and> disk t = disk s \<and> dlog t = dlog s \<and> bio_frame s t \<and> (lkok s \<longrightarrow> calm s t)"
proof -
  let ?b = "(bufs s i)\<lparr>bdata := f (bdata (bufs s i))\<rparr>"
  let ?t = "s\<lparr>bufs := (bufs s)(i := ?b)\<rparr>"
  have i: "i < NBUF" "bvalid (bufs s i)" "bdev (bufs s i) = ROOTDEV" "refcnt (bufs s i) = of_bool (i \<in> P) + 1"
    using assms(2) bio_okD(3,6,8,12) [OF assms(1)] by auto
  have ok: "bio_ok P H ?t"
    by (rule bio_ok_change [OF assms(1,2), where b = ?b]) (use i assms bio_okD(11) [OF assms(1)] in \<open>auto simp: mypid_def\<close>)
  have "blk ?t c = ((blk s)(blockno (bufs s i) := f (bdata (bufs s i)))) c" for c
  proof (cases "\<exists>j<NBUF. bvalid (bufs s j) \<and> blockno (bufs s j) = c")
    case True
    then obtain j where j: "j < NBUF" "bvalid (bufs s j)" "blockno (bufs s j) = c" by blast
    have e: "blockno (bufs s i) = c \<longleftrightarrow> j = i" using j i bio_okD(7) [OF assms(1)] by blast
    show ?thesis using blk_cached [OF ok j(1)] blk_cached [OF assms(1) j] j e i by (auto split: if_splits)
  next
    case False
    have "blk ?t c = disk s c" using False by (subst blk_uncached) (auto split: if_splits)
    moreover have "blk s c = disk s c" using False by (intro blk_uncached) auto
    ultimately show ?thesis using False i by auto
  qed
  then have "blk ?t = (blk s)(blockno (bufs s i) := f (bdata (bufs s i)))" by blast
  then show ?thesis using ok
    by (simp add: set_bytes_def upd_buf_def bio_frame_def bio_restore_def calm_def)
qed

lemma blk_disk:
  assumes "bio_ok P H s" "i < NBUF" "bvalid (bufs s i)" "bio_ok P' H' t"
    "\<And>j. j < NBUF \<Longrightarrow> bvalid (bufs t j) = bvalid (bufs s j)" "\<And>j. j < NBUF \<Longrightarrow> blockno (bufs t j) = blockno (bufs s j)"
    "\<And>j. j < NBUF \<Longrightarrow> bdata (bufs t j) = bdata (bufs s j)"
    "\<And>c. c \<noteq> blockno (bufs s i) \<Longrightarrow> disk t c = disk s c"
  shows "blk t = blk s"
proof
  fix c
  show "blk t c = blk s c"
  proof (cases "\<exists>j<NBUF. bvalid (bufs s j) \<and> blockno (bufs s j) = c")
    case True
    then obtain j where j: "j < NBUF" "bvalid (bufs s j)" "blockno (bufs s j) = c" by blast
    show ?thesis using blk_cached [OF assms(4) j(1)] blk_cached [OF assms(1) j] assms(5-7) j by simp
  next
    case False
    have "blk t c = disk t c" using False assms(5,6) by (intro blk_uncached) auto
    moreover have "blk s c = disk s c" using False by (intro blk_uncached) auto
    ultimately show ?thesis using False assms(2,3,8) by metis
  qed
qed

lemma bwrite_ok:
  assumes "bio_ok P H s" "idle p s" "i \<in> H"
  shows "\<exists>t. bwrite i s = Ret () t \<and> bio_ok P H t \<and> blk t = blk s \<and> bufs t = bufs s
    \<and> disk t = (disk s)(blockno (bufs s i) := bdata (bufs s i))
    \<and> dlog t = dlog s @ [(blockno (bufs s i), bdata (bufs s i))] \<and> bio_frame s t \<and> calm s t"
proof -
  have s: "lkok s" "held s = {}" "myp s = Some p" using assms(2) by (auto simp: idle_def)
  note d = bio_okD [OF assms(1)]
  have i: "i < NBUF" "bvalid (bufs s i)" "bdev (bufs s i) = ROOTDEV" "refcnt (bufs s i) = of_bool (i \<in> P) + 1"
      "slocked (slocks s (Sl_buf i))" "slpid (slocks s (Sl_buf i)) = pid (procs s p)"
    using assms(3) d(3-6,8,12) s(3) by (auto simp: mypid_def)
  have h: "holdingsleep (Sl_buf i) s = Ret True (touch s)"
    using holdingsleep_eq [of s "Sl_buf i" p] s i by simp
  let ?t = "touch s\<lparr>disk := (disk s)(blockno (bufs s i) := bdata (bufs s i)),
      dlog := dlog s @ [(blockno (bufs s i), bdata (bufs s i))]\<rparr>"
  have ok: "bio_ok P H ?t"
    by (rule bio_ok_change [OF assms(1,3), where b = "bufs s i"])
       (use i s d(10) [OF i(1,2)] in \<open>auto simp: mypid_def\<close>)
  have "blk ?t = blk s" by (rule blk_disk [OF assms(1) i(1,2) ok]) auto
  then show ?thesis using ok s
    by (simp add: bwrite_def h disk_rw_def bio_frame_def bio_restore_def calm_def touch_def)
qed

lemma bpin_ok:
  assumes "bio_ok P H s" "lkok s" "Lk_bcache \<notin> held s" "i \<in> H" "i \<notin> P"
  shows "\<exists>t. bpin i s = Ret () t \<and> bio_ok (insert i P) H t \<and> blk t = blk s \<and> same_blocks s t
    \<and> disk t = disk s \<and> dlog t = dlog s"
proof -
  note d = bio_okD [OF assms(1)]
  have i: "i < NBUF" "bvalid (bufs s i)" "bdev (bufs s i) = ROOTDEV" "refcnt (bufs s i) = 1"
    using assms(4,5) d(3,6,8,12) by auto
  let ?t = "touch s\<lparr>bufs := (bufs s)(i := (bufs s i)\<lparr>refcnt := refcnt (bufs s i) + 1\<rparr>)\<rparr>"
  have ok: "bio_ok (insert i P) H ?t"
    by (rule bio_ok_change [OF assms(1,4), where b = "(bufs s i)\<lparr>refcnt := refcnt (bufs s i) + 1\<rparr>"])
       (use i assms d(10) [OF i(1,2)] d(11) in \<open>auto simp: mypid_def\<close>)
  have "blk ?t = blk s" by (rule blk_bufs) auto
  then show ?thesis using ok assms(2,3)
    by (simp add: bpin_def upd_buf_def same_blocks_def bio_frame_def bio_restore_def calm_def touch_def)
qed

lemma bunpin_ok:
  assumes "bio_ok P H s" "lkok s" "Lk_bcache \<notin> held s" "i \<in> H" "i \<in> P"
  shows "\<exists>t. bunpin i s = Ret () t \<and> bio_ok (P - {i}) H t \<and> blk t = blk s \<and> same_blocks s t
    \<and> disk t = disk s \<and> dlog t = dlog s"
proof -
  note d = bio_okD [OF assms(1)]
  have i: "i < NBUF" "bvalid (bufs s i)" "bdev (bufs s i) = ROOTDEV" "refcnt (bufs s i) = 2"
    using assms(4,5) d(3,6,8,12) by auto
  let ?t = "touch s\<lparr>bufs := (bufs s)(i := (bufs s i)\<lparr>refcnt := refcnt (bufs s i) - 1\<rparr>)\<rparr>"
  have ok: "bio_ok (P - {i}) H ?t"
    by (rule bio_ok_change [OF assms(1,4), where b = "(bufs s i)\<lparr>refcnt := refcnt (bufs s i) - 1\<rparr>"])
       (use i assms d(10) [OF i(1,2)] d(11) in \<open>auto simp: mypid_def\<close>)
  have "blk ?t = blk s" by (rule blk_bufs) auto
  then show ?thesis using ok assms(2,3)
    by (simp add: bunpin_def upd_buf_def same_blocks_def bio_frame_def bio_restore_def calm_def touch_def)
qed

lemma bio_ok_cong:
  assumes "bufs t = bufs s" "bnext t = bnext s" "bprev t = bprev s" "disk t = disk s" "slocks t = slocks s" "mypid t = mypid s"
  shows "bio_ok P H t = bio_ok P H s" "blk t = blk s"
proof -
  show "bio_ok P H t = bio_ok P H s" using assms lru_cong [OF assms(2,3)] by (simp add: bio_ok_def)
  show "blk t = blk s" by (rule ext) (simp add: blk_def assms cong: option.case_cong)
qed

lemma bio_ok_machine [simp]:
  "bio_ok P H (touch s) = bio_ok P H s" "bio_ok P H (entered lk s) = bio_ok P H s"
  "bio_ok P H (left lk s) = bio_ok P H s" "bio_ok P H (wakeall c s) = bio_ok P H s"
  "blk (touch s) = blk s" "blk (entered lk s) = blk s" "blk (left lk s) = blk s" "blk (wakeall c s) = blk s"
  by (rule bio_ok_cong; simp add: mypid_def wakeall_def woken_def)+

subsection \<open>Initialisation\<close>

text \<open>After \<open>k\<close> turns of the loop of \<open>binit\<close>: the first \<open>k\<close> buffers are linked, the last in front.\<close>

definition blinked :: "nat \<Rightarrow> 'z bio_state_scheme \<Rightarrow> 'z bio_state_scheme \<Rightarrow> bool" where
  "blinked k s t \<longleftrightarrow> seg (bnext t) BHead (rev [0..<k]) BHead \<and> seg (bprev t) BHead [0..<k] BHead
     \<and> lkok t \<and> held t = {} \<and> myp t = myp s \<and> (\<forall>i<k. \<not> slocked (slocks t (Sl_buf i)))
     \<and> bufs t = bufs s \<and> disk t = disk s \<and> dlog t = dlog s"

lemma binit_turn:
  assumes "blinked k s t"
  shows "\<exists>u. binit_one k t = Ret () u \<and> blinked (Suc k) s u"
proof -
  have t: "seg (bnext t) BHead (rev [0..<k]) BHead" "seg (bprev t) BHead [0..<k] BHead" "lkok t" "held t = {}"
    using assms by (auto simp: blinked_def)
  let ?h = "bnext t BHead"
  let ?t = "t\<lparr>bnext := (bnext t)(Buf k := ?h), bprev := (bprev t)(Buf k := BHead)\<rparr>"
  let ?l = "(locks t (Lk_sleep (Sl_buf k)))\<lparr>lkname := ''sleep lock'', locked := False, lkcpu := None\<rparr>"
  let ?v = "t\<lparr>locks := (locks t)(Lk_sleep (Sl_buf k) := ?l)\<rparr>"
  have lk: "lkok ?v" "held ?v = {}" using lkok_free_lock [OF t(3), of _ ?l] t(4) by simp_all
  have h: "?h = seg_end BHead [0..<k]"
    using seg_fst [OF t(1)] by (cases k) (simp_all add: seg_end_def)
  have 1: "seg ((bnext t)(Buf k := ?h, BHead := Buf k)) BHead (rev [0..<Suc k]) BHead"
    using seg_link_front [OF t(1), of k] by simp
  have 2: "seg ((bprev t)(Buf k := BHead, ?h := Buf k)) BHead [0..<Suc k] BHead"
    unfolding h using seg_link_end [OF t(2), of k] by simp
  let ?u = "?v\<lparr>slocks := (slocks t)(Sl_buf k := (slocks t (Sl_buf k))\<lparr>slname := ''buffer'', slocked := False, slpid := 0\<rparr>),
     bprev := (bprev t)(Buf k := BHead, ?h := Buf k), bnext := (bnext t)(Buf k := ?h, BHead := Buf k)\<rparr>"
  have "lkok ?u" "held ?u = {}" using lkok_cong [of ?u ?v] lk by simp_all
  then have "blinked (Suc k) s ?u"
    using 1 2 assms by (simp add: blinked_def less_Suc_eq)
  then show ?thesis
    by (auto simp: binit_one_def set_next_def set_prev_def initsleeplock_def upd_sl_def initlock_def upd_lock_def)
qed

lemma binit_loop: "blinked 0 s t \<Longrightarrow> \<exists>u. kiter binit_one [0..<k] t = Ret () u \<and> blinked k s u"
proof (induction k)
  case (Suc k)
  then obtain u where u: "kiter binit_one [0..<k] t = Ret () u" "blinked k s u" by blast
  show ?case using binit_turn [OF u(2)] u(1) by (auto simp: kiter_append)
qed simp

lemma binit_ok:
  assumes "lkok s" "held s = {}"
  shows "\<exists>t. binit s = Ret () t \<and> blinked NBUF s t"
proof -
  have lk: "Lk_bcache \<notin> held s" using assms(2) by simp
  obtain l where l: "initlock Lk_bcache ''bcache'' s = Ret () (s\<lparr>locks := (locks s)(Lk_bcache := l)\<rparr>)"
      "lkok (s\<lparr>locks := (locks s)(Lk_bcache := l)\<rparr>)" "held (s\<lparr>locks := (locks s)(Lk_bcache := l)\<rparr>) = held s"
    using initlock_eq [OF assms(1) lk, of "''bcache''"] by blast
  let ?u = "s\<lparr>locks := (locks s)(Lk_bcache := l), bprev := (bprev s)(BHead := BHead), bnext := (bnext s)(BHead := BHead)\<rparr>"
  have "blinked 0 s ?u" using l(2,3) assms(2) by (simp add: blinked_def)
  from binit_loop [OF this, of NBUF] show ?thesis
    using l(1) by (auto simp: binit_def set_prev_def [of BHead] set_next_def [of BHead BHead])
qed

subsection \<open>An example cache\<close>

text \<open>The cache as \<^verbatim>\<open>binit\<close> leaves it, with process 3 running and every block of the disk zero.\<close>

definition bio_ex :: bio_state where
  "bio_ex = pr_state.extend (sl_state.extend (slk sl_ex) \<lparr>kout = []\<rparr>)
     \<lparr>bufs = (\<lambda>_. \<lparr>bvalid = False, bdev = 0, blockno = 0, refcnt = 0, bdata = []\<rparr>),
      bnext = (\<lambda>b. case b of BHead \<Rightarrow> Buf 0 | Buf i \<Rightarrow> if i < 29 then Buf (i + 1) else BHead),
      bprev = (\<lambda>b. case b of BHead \<Rightarrow> Buf 29 | Buf i \<Rightarrow> if i = 0 then BHead else Buf (i - 1)),
      disk = (\<lambda>_. replicate BSIZE 0), dlog = []\<rparr>"

lemma bio_ex_lru: "lru bio_ex [0..<30]"
proof -
  have "set [0..<30] = {..<NBUF}" by (auto simp: param_defs)
  moreover have "seg (bnext bio_ex) BHead [0..<30] BHead" "seg (bprev bio_ex) BHead (rev [0..<30]) BHead"
    by (simp_all add: bio_ex_def pr_state.extend_def upt_rec)
  ultimately show ?thesis unfolding lru_def by simp
qed

lemma bio_ex_idle: "idle 3 bio_ex"
proof -
  have "holds {} (slk sl_ex)" using sl_ex_init by (simp add: holds_iff sl_init_def)
  then have "holds {} bio_ex"
    by (simp add: bio_ex_def pr_state.extend_def sl_state.extend_def holds_def lock_free_def)
  moreover have "myp bio_ex = Some 3"
    by (simp add: bio_ex_def pr_state.extend_def sl_state.extend_def sl_ex_def vm_state.extend_def proc_state.extend_def)
  ultimately show ?thesis by (simp add: idle_def holds_iff)
qed

lemma bio_ex_unlocked [simp]: "\<not> slocked (slocks bio_ex sl)"
  by (simp add: bio_ex_def pr_state.extend_def sl_state.extend_def sl_ex_def vm_state.extend_def)

lemma bio_ex_fields [simp]:
  "disk bio_ex b = replicate BSIZE 0" "bufs bio_ex i = \<lparr>bvalid = False, bdev = 0, blockno = 0, refcnt = 0, bdata = []\<rparr>"
  by (simp_all add: bio_ex_def pr_state.extend_def)

lemma bio_ex_ok: "bio_ok {} {} bio_ex"
  using bio_ex_lru by (auto simp: bio_ok_def ROOTDEV_def)

lemma find_last_split:
  assumes "find Q (rev xs) = Some j"
  shows "\<exists>ys zs. xs = ys @ j # zs \<and> Q j \<and> (\<forall>k\<in>set zs. \<not> Q k)"
proof -
  obtain n where n: "n < length xs" "Q (rev xs ! n)" "j = rev xs ! n" "\<And>m. m < n \<Longrightarrow> \<not> Q (rev xs ! m)"
    using assms by (auto simp: find_Some_iff)
  have "rev xs = take n (rev xs) @ j # drop (Suc n) (rev xs)" using n(1,3) by (simp add: id_take_nth_drop)
  then have "xs = rev (drop (Suc n) (rev xs)) @ j # rev (take n (rev xs))"
    by (metis append.assoc append_Cons append_Nil rev.simps(2) rev_append rev_rev_ident)
  moreover have "\<not> Q k" if "k \<in> set (take n (rev xs))" for k
    using that n(1,4) by (auto simp: in_set_conv_nth)
  ultimately show ?thesis using n(2,3) by (metis set_rev)
qed

subsection \<open>Properties\<close>

text \<open>
  C14. The cache is coherent: whether or not the block is cached, \<open>bread\<close> returns a buffer locked by the caller that holds
  the block's current content, that is what was last written to the block through the cache; it changes the content of no block,
  writes nothing to the disk, and keeps the invariant of the cache, in which a block is never cached twice.
\<close>

theorem bread_coherent:
  assumes "bio_ok P H s" "idle p s" "\<And>i. i \<in> H \<Longrightarrow> blockno (bufs s i) \<noteq> b" "card (P \<union> H) < NBUF"
  shows "\<exists>i t. bread ROOTDEV b s = Ret i t \<and> bio_ok P (insert i H) t \<and> i \<notin> H \<and> blockno (bufs t i) = b
    \<and> bdata (bufs t i) = blk s b \<and> (\<forall>c. blk t c = blk s c) \<and> dlog t = dlog s \<and> held t = {}"
proof -
  obtain i t where "bread ROOTDEV b s = Ret i t" "bread_post P H b s i t"
    using bread_ok [OF assms(1-3)] assms(4) by blast
  then show ?thesis using assms(2) by (auto simp: bread_post_def calm_def idle_def)
qed

theorem bread_coherent_witness: "\<exists>i t. bread ROOTDEV 7 bio_ex = Ret i t \<and> bdata (bufs t i) = replicate BSIZE 0"
proof -
  have "blk bio_ex 7 = replicate BSIZE 0" using blk_uncached [of bio_ex 7] by simp
  then show ?thesis using bread_coherent [OF bio_ex_ok bio_ex_idle, of 7] by (auto simp: param_defs)
qed

text \<open>
  C13. The doubly linked list is a least-recently-used list: \<open>brelse\<close> by the last holder moves the buffer to the front and keeps
  the others in order, a pinned buffer keeps its place, and a miss of \<open>bread\<close> recycles the buffer nobody holds that is
  nearest to the end.
\<close>

theorem cache_is_lru:
  assumes "bio_ok P H s" "idle p s" "lru s xs" "i \<in> H"
    and "\<And>j. j < NBUF \<Longrightarrow> bvalid (bufs s j) \<Longrightarrow> blockno (bufs s j) \<noteq> b" "card (P \<union> H) < NBUF"
  shows "(\<exists>t. brelse i s = Ret () t \<and> lru t (if i \<in> P then xs else i # remove1 i xs))
    \<and> (\<exists>j t ys zs. bread ROOTDEV b s = Ret j t \<and> lru t xs \<and> xs = ys @ j # zs \<and> j \<notin> P \<union> H \<and> set zs \<subseteq> P \<union> H)"
proof
  have i: "i \<in> set xs" "refcnt (bufs s i) - 1 = 0 \<longleftrightarrow> i \<notin> P"
    using assms(3,4) bio_okD(3,12) [OF assms(1), of i] by (auto simp: lru_def)
  show "\<exists>t. brelse i s = Ret () t \<and> lru t (if i \<in> P then xs else i # remove1 i xs)"
    using brelse_eq [OF assms(1,2,4)] lru_bgone [OF assms(3) i(1)] i(2) by auto
  have set: "set xs = {..<NBUF}" using assms(3) by (simp add: lru_def)
  have miss: "find (\<lambda>i. bdev (bufs s i) = ROOTDEV \<and> blockno (bufs s i) = b) xs = None"
    using assms(5) bio_okD(6) [OF assms(1)] set by (auto simp: find_None_iff)
  have rc: "refcnt (bufs s j) = 0 \<longleftrightarrow> j \<notin> P \<union> H" if "j \<in> set xs" for j
    using bio_okD(3) [OF assms(1)] that set by auto
  have "\<not> {..<NBUF} \<subseteq> P \<union> H"
    using assms(6) card_mono [of "P \<union> H" "{..<NBUF}"] finite_subset bio_okD(1,2) [OF assms(1)] by fastforce
  then have "find (\<lambda>j. refcnt (bufs s j) = 0) (rev xs) \<noteq> None" using rc set by (auto simp: find_None_iff)
  then obtain j where j: "find (\<lambda>j. refcnt (bufs s j) = 0) (rev xs) = Some j" by auto
  obtain ys zs where yz: "xs = ys @ j # zs" "refcnt (bufs s j) = 0" "\<And>k. k \<in> set zs \<Longrightarrow> refcnt (bufs s k) \<noteq> 0"
    using find_last_split [OF j] by blast
  then have jP: "j \<notin> P \<union> H" "set zs \<subseteq> P \<union> H" "\<not> slocked (slocks s (Sl_buf j))"
    using rc bio_okD(4) [OF assms(1), of j] set by auto
  have "bread ROOTDEV b s = Ret j (bgot j ((bufs s j)\<lparr>bdev := ROOTDEV, blockno := b, refcnt := 1, bdata := disk s b, bvalid := True\<rparr>) p s)"
    using bread_miss [OF assms(2,3) jP(3) miss j] by simp
  moreover have "lru (bgot j c p s) xs" for c using assms(3) lru_cong [of "bgot j c p s" s] by simp
  ultimately show "\<exists>j t ys zs. bread ROOTDEV b s = Ret j t \<and> lru t xs \<and> xs = ys @ j # zs \<and> j \<notin> P \<union> H \<and> set zs \<subseteq> P \<union> H"
    using yz(1) jP by blast
qed

theorem cache_is_lru_witness:
  "\<exists>u t. bread ROOTDEV 7 bio_ex = Ret 29 u \<and> brelse 29 u = Ret () t \<and> lru t (29 # remove1 29 [0..<30])
    \<and> (\<exists>j v ys zs. bread ROOTDEV 9 u = Ret j v \<and> [0..<30] = ys @ j # zs \<and> j \<noteq> 29 \<and> set zs \<subseteq> {29})"
proof -
  let ?b = "\<lparr>bvalid = True, bdev = ROOTDEV, blockno = 7, refcnt = 1, bdata = replicate BSIZE 0\<rparr>"
  let ?u = "bgot 29 ?b 3 bio_ex"
  have r: "bread ROOTDEV 7 bio_ex = Ret 29 ?u"
    using bread_miss [OF bio_ex_idle bio_ex_lru, of 29 ROOTDEV 7] by (simp add: upt_rec ROOTDEV_def)
  then obtain i t where p: "bread_post {} {} 7 bio_ex i t" "Ret 29 ?u = Ret i t"
    using bread_ok [OF bio_ex_ok bio_ex_idle, of 7] by (auto simp: param_defs)
  then have ok: "bio_ok {} {29} ?u" by (auto simp: bread_post_def)
  have id: "idle 3 ?u" using p bio_ex_idle by (auto simp: bread_post_def intro: calm_idle)
  have l: "lru ?u [0..<30]" using bio_ex_lru lru_cong [of ?u bio_ex] by simp
  have n: "blockno (bufs ?u j) \<noteq> 9" if "j < NBUF" "bvalid (bufs ?u j)" for j
    using that by (auto split: if_splits)
  show ?thesis using cache_is_lru [OF ok id l _ n] r by (auto simp: param_defs)
qed

text \<open>
  Boot: \<open>binit\<close>, run on the zeroed buffers, links all of them once into the list, unlocked, and establishes the
  invariant of the cache with no block cached.
\<close>

theorem binit_establishes:
  assumes "lkok s" "held s = {}" "\<And>i. i < NBUF \<Longrightarrow> \<not> bvalid (bufs s i) \<and> bdev (bufs s i) = 0 \<and> refcnt (bufs s i) = 0"
    "\<And>b. length (disk s b) = BSIZE"
  shows "\<exists>t. binit s = Ret () t \<and> lru t (rev [0..<NBUF]) \<and> bio_ok {} {} t \<and> blk t = disk s \<and> held t = {}"
proof -
  obtain t where t: "binit s = Ret () t" "blinked NBUF s t" using binit_ok [OF assms(1,2)] by blast
  have l: "lru t (rev [0..<NBUF])" using t(2) by (auto simp: blinked_def lru_def)
  then have ok: "bio_ok {} {} t" using t(2) assms(3,4) by (auto simp: bio_ok_def blinked_def ROOTDEV_def)
  have "blk t b = disk s b" for b
    using t(2) assms(3) blk_uncached [of t b] by (auto simp: blinked_def)
  then show ?thesis using t l ok by (auto simp: blinked_def)
qed

theorem binit_establishes_witness: "\<exists>t. binit bio_ex = Ret () t \<and> lru t (rev [0..<NBUF]) \<and> bio_ok {} {} t"
  using binit_establishes [of bio_ex] bio_ex_idle by (auto simp: idle_def)

end
