(* ===== verification/Log.thy ===== *)
theory Log
  imports Blockcache
begin

section \<open>The write-ahead log\<close>

text \<open>
  \<^verbatim>\<open>kernel/log.c\<close>. \<open>log_state\<close> is \<^verbatim>\<open>struct log\<close>; \<open>lh_n\<close> and \<open>lh_block\<close> are its in-memory
  \<^verbatim>\<open>struct logheader\<close>. The on-disk header is the block's bytes, read and written as 32-bit
  little-endian integers by \<open>get32\<close> and \<open>put32\<close>. An access to \<^verbatim>\<open>lh.block\<close> outside the array is
  a \<open>Fault\<close>. The loop of \<^verbatim>\<open>begin_op\<close> is \<open>begin_op_loop\<close>: a process that has to wait sleeps
  (\<open>Halt Switch\<close>), and runs the loop again after \<open>sleep_resume\<close>.
\<close>

record log_state = bio_state +
  log_start :: nat
  outstanding :: int
  committing :: bool
  log_dev :: nat
  lh_n :: int
  lh_block :: "nat list"

definition get32 :: "nat \<Rightarrow> bytes \<Rightarrow> uint32" where
  "get32 i bs = le_word (take 4 (drop (4 * i) bs))"

definition put32 :: "nat \<Rightarrow> uint32 \<Rightarrow> bytes \<Rightarrow> bytes" where
  "put32 i w bs = splice (4 * i) (le_bytes 4 w) bs"

text \<open>\<^verbatim>\<open>sizeof(struct logheader)\<close>: the counter and the array.\<close>

definition sizeof_logheader :: nat where
  "sizeof_logheader = 4 + 4 * LOGBLOCKS"

definition get_lh_block :: "nat \<Rightarrow> ('z log_state_scheme, nat) km" where
  "get_lh_block i =
     kbind (kget lh_block) (\<lambda>bs. if i < length bs then kret (bs ! i) else khalt Fault)"

definition set_lh_block :: "nat \<Rightarrow> nat \<Rightarrow> ('z log_state_scheme, unit) km" where
  "set_lh_block i b =
     kbind (kget lh_block) (\<lambda>bs.
     if i < length bs then kmod (\<lambda>s. s\<lparr>lh_block := bs[i := b]\<rparr>) else khalt Fault)"

subsection \<open>Installing, reading and writing the header\<close>

definition install_trans_one :: "bool \<Rightarrow> nat \<Rightarrow> ('z log_state_scheme, unit) km" where
  "install_trans_one recovering tail =
     kseq (kwhen recovering
       (kbind (get_lh_block tail) (\<lambda>b.
        kseq (printf (''recovering tail %d dst %d'' @ [CHR 0x0A])
                [Vint (of_nat tail), Vint (of_nat b)]) kskip))) (
     kbind (kget log_dev) (\<lambda>dev.
     kbind (kget log_start) (\<lambda>start.
     kbind (bread dev (start + tail + 1)) (\<lambda>lbuf.
     kbind (get_lh_block tail) (\<lambda>b.
     kbind (bread dev b) (\<lambda>dbuf.
     kbind (bytes_of lbuf) (\<lambda>bs. kdo [
       set_bytes dbuf (\<lambda>_. bs),
       bwrite dbuf,
       kwhen (\<not> recovering) (bunpin dbuf),
       brelse lbuf,
       brelse dbuf])))))))"

definition install_trans :: "bool \<Rightarrow> ('z log_state_scheme, unit) km" where
  "install_trans recovering =
     kbind (kget lh_n) (\<lambda>n. kiter (install_trans_one recovering) [0..<nat n])"

definition read_head :: "('z log_state_scheme, unit) km" where
  "read_head =
     kbind (kget log_dev) (\<lambda>dev.
     kbind (kget log_start) (\<lambda>start.
     kbind (bread dev start) (\<lambda>buf.
     kbind (bytes_of buf) (\<lambda>bs. kdo [
       kmod (\<lambda>s. s\<lparr>lh_n := sint (get32 0 bs)\<rparr>),
       kiter (\<lambda>i. set_lh_block i (unat (get32 (Suc i) bs))) [0..<nat (sint (get32 0 bs))],
       brelse buf]))))"

definition write_head :: "('z log_state_scheme, unit) km" where
  "write_head =
     kbind (kget log_dev) (\<lambda>dev.
     kbind (kget log_start) (\<lambda>start.
     kbind (bread dev start) (\<lambda>buf.
     kbind (kget lh_n) (\<lambda>n. kdo [
       set_bytes buf (put32 0 (of_int n)),
       kiter (\<lambda>i. kbind (get_lh_block i) (\<lambda>b. set_bytes buf (put32 (Suc i) (of_nat b))))
         [0..<nat n],
       bwrite buf,
       brelse buf]))))"

definition recover_from_log :: "('z log_state_scheme, unit) km" where
  "recover_from_log = kdo [
     read_head,
     install_trans True,
     kmod (\<lambda>s. s\<lparr>lh_n := 0\<rparr>),
     write_head]"

definition initlog :: "nat \<Rightarrow> nat \<Rightarrow> ('z log_state_scheme, unit) km" where
  "initlog dev logstart = kdo [
     kwhen (sizeof_logheader \<ge> BSIZE) (panic ''initlog: too big logheader''),
     initlock Lk_log ''log'',
     kmod (\<lambda>s. s\<lparr>log_start := logstart\<rparr>),
     kmod (\<lambda>s. s\<lparr>log_dev := dev\<rparr>),
     recover_from_log]"

subsection \<open>Transactions\<close>

definition begin_op_loop :: "('z log_state_scheme, unit) km" where
  "begin_op_loop =
     kbind (kget (\<lambda>s. (committing s, lh_n s, outstanding s))) (\<lambda>(c, n, out).
     if c then sleep Ch_log Lk_log
     else if n + (out + 1) * int MAXOPBLOCKS > int LOGBLOCKS then sleep Ch_log Lk_log
     else kdo [kmod (\<lambda>s. s\<lparr>outstanding := outstanding s + 1\<rparr>), release Lk_log])"

definition begin_op :: "('z log_state_scheme, unit) km" where
  "begin_op = kdo [acquire Lk_log, begin_op_loop]"

definition begin_op_resume :: "bool \<Rightarrow> nat \<Rightarrow> ('z log_state_scheme, unit) km" where
  "begin_op_resume i p = kdo [sleep_resume i p Lk_log, begin_op_loop]"

definition write_log_one :: "nat \<Rightarrow> ('z log_state_scheme, unit) km" where
  "write_log_one tail =
     kbind (kget log_dev) (\<lambda>dev.
     kbind (kget log_start) (\<lambda>start.
     kbind (bread dev (start + tail + 1)) (\<lambda>to.
     kbind (get_lh_block tail) (\<lambda>b.
     kbind (bread dev b) (\<lambda>from.
     kbind (bytes_of from) (\<lambda>bs. kdo [
       set_bytes to (\<lambda>_. bs),
       bwrite to,
       brelse from,
       brelse to]))))))"

definition write_log :: "('z log_state_scheme, unit) km" where
  "write_log = kbind (kget lh_n) (\<lambda>n. kiter write_log_one [0..<nat n])"

text \<open>
  The statements of \<^verbatim>\<open>commit\<close>, and the two critical sections of \<^verbatim>\<open>end_op\<close>, between which other processes run.
\<close>

definition commit_code :: "('z log_state_scheme, unit) km list" where
  "commit_code = [
     write_log,
     write_head,
     install_trans False,
     kmod (\<lambda>s. s\<lparr>lh_n := 0\<rparr>),
     write_head]"

definition commit :: "('z log_state_scheme, unit) km" where
  "commit = kbind (kget lh_n) (\<lambda>n. kwhen (n > 0) (kdo commit_code))"

definition end_op_first :: "('z log_state_scheme, bool) km" where
  "end_op_first =
     kseq (acquire Lk_log) (
     kseq (kmod (\<lambda>s. s\<lparr>outstanding := outstanding s - 1\<rparr>)) (
     kbind (kget committing) (\<lambda>c.
     kseq (kwhen c (panic ''log.committing'')) (
     kbind (kget (\<lambda>s. outstanding s = 0)) (\<lambda>do_commit.
     kseq (if do_commit then kmod (\<lambda>s. s\<lparr>committing := True\<rparr>) else wakeup (Some Ch_log)) (
     kseq (release Lk_log) (kret do_commit)))))))"

definition end_op_last :: "('z log_state_scheme, unit) km" where
  "end_op_last = kdo [
     acquire Lk_log,
     kmod (\<lambda>s. s\<lparr>committing := False\<rparr>),
     wakeup (Some Ch_log),
     release Lk_log]"

definition end_op :: "('z log_state_scheme, unit) km" where
  "end_op = kbind end_op_first (\<lambda>do_commit. kwhen do_commit (kdo [commit, end_op_last]))"

lemmas end_op_defs = end_op_def end_op_first_def end_op_last_def

definition log_write :: "nat \<Rightarrow> ('z log_state_scheme, unit) km" where
  "log_write b =
     kseq (acquire Lk_log) (
     kbind (kget (\<lambda>s. (lh_n s, outstanding s))) (\<lambda>(n, out).
     kseq (kwhen (n \<ge> int LOGBLOCKS) (panic ''too big a transaction'')) (
     kseq (kwhen (out < 1) (panic ''log_write outside of trans'')) (
     kbind (kget (\<lambda>s. blockno (bufs s b))) (\<lambda>bno.
     kbind (kscan (\<lambda>i. kbind (get_lh_block i) (\<lambda>x. kret (if x = bno then Some i else None)))
              [0..<nat n]) (\<lambda>r.
     let i = (case r of Some i \<Rightarrow> i | None \<Rightarrow> nat n) in kdo [
       set_lh_block i bno,
       kwhen (int i = n) (kdo [bpin b, kmod (\<lambda>s. s\<lparr>lh_n := lh_n s + 1\<rparr>)]),
       release Lk_log]))))))"

subsection \<open>Machine operations and the fields of the log\<close>

lemma log_touch [simp]:
  "log_start (touch s) = log_start s" "touch (s\<lparr>log_start := x0\<rparr>) = (touch s)\<lparr>log_start := x0\<rparr>"
  "outstanding (touch s) = outstanding s" "touch (s\<lparr>outstanding := x1\<rparr>) = (touch s)\<lparr>outstanding := x1\<rparr>"
  "committing (touch s) = committing s" "touch (s\<lparr>committing := x2\<rparr>) = (touch s)\<lparr>committing := x2\<rparr>"
  "log_dev (touch s) = log_dev s" "touch (s\<lparr>log_dev := x3\<rparr>) = (touch s)\<lparr>log_dev := x3\<rparr>"
  "lh_n (touch s) = lh_n s" "touch (s\<lparr>lh_n := x4\<rparr>) = (touch s)\<lparr>lh_n := x4\<rparr>"
  "lh_block (touch s) = lh_block s" "touch (s\<lparr>lh_block := x5\<rparr>) = (touch s)\<lparr>lh_block := x5\<rparr>"
  by (simp_all add: touch_def)

lemma log_entered [simp]:
  "log_start (entered lk s) = log_start s" "entered lk (s\<lparr>log_start := x0\<rparr>) = (entered lk s)\<lparr>log_start := x0\<rparr>"
  "outstanding (entered lk s) = outstanding s" "entered lk (s\<lparr>outstanding := x1\<rparr>) = (entered lk s)\<lparr>outstanding := x1\<rparr>"
  "committing (entered lk s) = committing s" "entered lk (s\<lparr>committing := x2\<rparr>) = (entered lk s)\<lparr>committing := x2\<rparr>"
  "log_dev (entered lk s) = log_dev s" "entered lk (s\<lparr>log_dev := x3\<rparr>) = (entered lk s)\<lparr>log_dev := x3\<rparr>"
  "lh_n (entered lk s) = lh_n s" "entered lk (s\<lparr>lh_n := x4\<rparr>) = (entered lk s)\<lparr>lh_n := x4\<rparr>"
  "lh_block (entered lk s) = lh_block s" "entered lk (s\<lparr>lh_block := x5\<rparr>) = (entered lk s)\<lparr>lh_block := x5\<rparr>"
  by (simp_all add: entered_def)

lemma log_left [simp]:
  "log_start (left lk s) = log_start s" "left lk (s\<lparr>log_start := x0\<rparr>) = (left lk s)\<lparr>log_start := x0\<rparr>"
  "outstanding (left lk s) = outstanding s" "left lk (s\<lparr>outstanding := x1\<rparr>) = (left lk s)\<lparr>outstanding := x1\<rparr>"
  "committing (left lk s) = committing s" "left lk (s\<lparr>committing := x2\<rparr>) = (left lk s)\<lparr>committing := x2\<rparr>"
  "log_dev (left lk s) = log_dev s" "left lk (s\<lparr>log_dev := x3\<rparr>) = (left lk s)\<lparr>log_dev := x3\<rparr>"
  "lh_n (left lk s) = lh_n s" "left lk (s\<lparr>lh_n := x4\<rparr>) = (left lk s)\<lparr>lh_n := x4\<rparr>"
  "lh_block (left lk s) = lh_block s" "left lk (s\<lparr>lh_block := x5\<rparr>) = (left lk s)\<lparr>lh_block := x5\<rparr>"
  by (simp_all add: left_def)

lemma log_lkok [simp]:
  "held (s\<lparr>log_start := x0\<rparr>) = held s" "lkok (s\<lparr>log_start := x0\<rparr>) = lkok s"
  "held (s\<lparr>outstanding := x1\<rparr>) = held s" "lkok (s\<lparr>outstanding := x1\<rparr>) = lkok s"
  "held (s\<lparr>committing := x2\<rparr>) = held s" "lkok (s\<lparr>committing := x2\<rparr>) = lkok s"
  "held (s\<lparr>log_dev := x3\<rparr>) = held s" "lkok (s\<lparr>log_dev := x3\<rparr>) = lkok s"
  "held (s\<lparr>lh_n := x4\<rparr>) = held s" "lkok (s\<lparr>lh_n := x4\<rparr>) = lkok s"
  "held (s\<lparr>lh_block := x5\<rparr>) = held s" "lkok (s\<lparr>lh_block := x5\<rparr>) = lkok s"
  by (simp_all add: held_def lkok_def holds_def lock_mine_def lock_free_def)

lemma log_wakeall [simp]:
  "log_start (wakeall c s) = log_start s" "wakeall c (s\<lparr>log_start := x0\<rparr>) = (wakeall c s)\<lparr>log_start := x0\<rparr>"
  "outstanding (wakeall c s) = outstanding s" "wakeall c (s\<lparr>outstanding := x1\<rparr>) = (wakeall c s)\<lparr>outstanding := x1\<rparr>"
  "committing (wakeall c s) = committing s" "wakeall c (s\<lparr>committing := x2\<rparr>) = (wakeall c s)\<lparr>committing := x2\<rparr>"
  "log_dev (wakeall c s) = log_dev s" "wakeall c (s\<lparr>log_dev := x3\<rparr>) = (wakeall c s)\<lparr>log_dev := x3\<rparr>"
  "lh_n (wakeall c s) = lh_n s" "wakeall c (s\<lparr>lh_n := x4\<rparr>) = (wakeall c s)\<lparr>lh_n := x4\<rparr>"
  "lh_block (wakeall c s) = lh_block s" "wakeall c (s\<lparr>lh_block := x5\<rparr>) = (wakeall c s)\<lparr>lh_block := x5\<rparr>"
  by (simp_all add: wakeall_def cong: if_cong)

end
