(* ===== verification/Fs.thy ===== *)
theory Fs
  imports Log
begin

section \<open>The file system: blocks, inodes, directories, paths\<close>

text \<open>
  \<^verbatim>\<open>kernel/fs.c\<close>, in the order of the source. An inode of the table \<^verbatim>\<open>itable\<close> is named by its
  index; a null pointer is \<open>None\<close>. Block and inode numbers are naturals (the code's \<^verbatim>\<open>uint\<close> values
  below the size of the file system); sizes and offsets of files keep their 32 bits where the code
  tests for overflow. The structures on disk are the bytes of a block: \<open>decode_dinode\<close> and
  \<open>encode_dinode\<close> read and write a \<^verbatim>\<open>struct dinode\<close>.
\<close>

subsection \<open>State\<close>

record superblock =
  sb_magic :: nat
  sb_size :: nat
  sb_nblocks :: nat
  sb_ninodes :: nat
  sb_nlog :: nat
  sb_logstart :: nat
  sb_inodestart :: nat
  sb_bmapstart :: nat

record dinode =
  dtype :: uint16
  dmajor :: uint16
  dminor :: uint16
  dnlink :: uint16
  dsize :: uint32
  daddrs :: "nat list"

record inode =
  idev :: nat
  inum :: nat
  iref :: int
  ivalid :: bool
  itype :: uint16
  imajor :: uint16
  iminor :: uint16
  inlink :: uint16
  isize :: uint32
  iaddrs :: "nat list"

record fs_state = log_state +
  sb :: superblock
  inodes :: "nat \<Rightarrow> inode"

definition FSMAGIC :: nat where "FSMAGIC = 0x10203040"
definition ROOTINO :: nat where "ROOTINO = 1"
definition NDIRECT :: nat where "NDIRECT = 12"
definition NINDIRECT :: nat where "NINDIRECT = BSIZE div 4"
definition MAXFILE :: nat where "MAXFILE = NDIRECT + NINDIRECT"
definition IPB :: nat where "IPB = BSIZE div 64"
definition BPB :: nat where "BPB = BSIZE * 8"
definition DIRSIZ :: nat where "DIRSIZ = 14"
definition T_DIR :: uint16 where "T_DIR = 1"
definition T_FILE :: uint16 where "T_FILE = 2"
definition T_DEVICE :: uint16 where "T_DEVICE = 3"

definition IBLOCK :: "nat \<Rightarrow> superblock \<Rightarrow> nat" where
  "IBLOCK i b = i div IPB + sb_inodestart b"

definition BBLOCK :: "nat \<Rightarrow> superblock \<Rightarrow> nat" where
  "BBLOCK i b = i div BPB + sb_bmapstart b"

text \<open>The structures on disk.\<close>

definition get16 :: "nat \<Rightarrow> bytes \<Rightarrow> uint16" where
  "get16 i bs = le_word (take 2 (drop i bs))"

definition decode_dinode :: "bytes \<Rightarrow> dinode" where
  "decode_dinode bs = \<lparr>dtype = get16 0 bs, dmajor = get16 2 bs, dminor = get16 4 bs,
     dnlink = get16 6 bs, dsize = get32 2 bs,
     daddrs = map (\<lambda>i. unat (get32 (3 + i) bs)) [0..<Suc NDIRECT]\<rparr>"

definition encode_dinode :: "dinode \<Rightarrow> bytes" where
  "encode_dinode d =
     le_bytes 2 (dtype d) @ le_bytes 2 (dmajor d) @ le_bytes 2 (dminor d) @ le_bytes 2 (dnlink d)
     @ le_bytes 4 (dsize d) @ concat (map (\<lambda>a. le_bytes 4 (of_nat a :: uint32)) (daddrs d))"

definition dinode_at :: "nat \<Rightarrow> bytes \<Rightarrow> dinode" where
  "dinode_at n bs = decode_dinode (take 64 (drop (64 * (n mod IPB)) bs))"

definition put_dinode :: "nat \<Rightarrow> dinode \<Rightarrow> bytes \<Rightarrow> bytes" where
  "put_dinode n d bs = splice (64 * (n mod IPB)) (encode_dinode d) bs"

definition decode_sb :: "bytes \<Rightarrow> superblock" where
  "decode_sb bs = \<lparr>sb_magic = unat (get32 0 bs), sb_size = unat (get32 1 bs),
     sb_nblocks = unat (get32 2 bs), sb_ninodes = unat (get32 3 bs), sb_nlog = unat (get32 4 bs),
     sb_logstart = unat (get32 5 bs), sb_inodestart = unat (get32 6 bs),
     sb_bmapstart = unat (get32 7 bs)\<rparr>"

definition upd_inode :: "nat \<Rightarrow> (inode \<Rightarrow> inode) \<Rightarrow> ('z fs_state_scheme, unit) km" where
  "upd_inode i f = kmod (\<lambda>s. s\<lparr>inodes := (inodes s)(i := f (inodes s i))\<rparr>)"

text \<open>An unsigned 32-bit count returned as an \<^verbatim>\<open>int\<close>.\<close>

definition to_int :: "nat \<Rightarrow> int" where
  "to_int n = sint (of_nat n :: uint32)"

subsection \<open>Blocks\<close>

definition readsb :: "nat \<Rightarrow> ('z fs_state_scheme, unit) km" where
  "readsb dev =
     kbind (bread dev 1) (\<lambda>bp.
     kbind (bytes_of bp) (\<lambda>bs.
     kseq (kmod (\<lambda>s. s\<lparr>sb := decode_sb bs\<rparr>)) (brelse bp)))"

definition bzero :: "nat \<Rightarrow> nat \<Rightarrow> ('z log_state_scheme, unit) km" where
  "bzero dev bno =
     kbind (bread dev bno) (\<lambda>bp. kdo [
       set_bytes bp (\<lambda>_. replicate BSIZE 0),
       log_write bp,
       brelse bp])"

text \<open>The bit \<^verbatim>\<open>1 << (bi % 8)\<close> of the byte \<^verbatim>\<open>data[bi / 8]\<close>.\<close>

definition bit_used :: "bytes \<Rightarrow> nat \<Rightarrow> bool" where
  "bit_used bs bi \<longleftrightarrow> bs ! (bi div 8) AND push_bit (bi mod 8) 1 \<noteq> 0"

definition bit_set :: "nat \<Rightarrow> bytes \<Rightarrow> bytes" where
  "bit_set bi bs = bs[bi div 8 := bs ! (bi div 8) OR push_bit (bi mod 8) 1]"

definition bit_clear :: "nat \<Rightarrow> bytes \<Rightarrow> bytes" where
  "bit_clear bi bs = bs[bi div 8 := bs ! (bi div 8) AND NOT (push_bit (bi mod 8) 1)]"

definition balloc_group :: "nat \<Rightarrow> nat \<Rightarrow> ('z fs_state_scheme, nat option) km" where
  "balloc_group dev b =
     kbind (kget sb) (\<lambda>sblk.
     kbind (bread dev (BBLOCK b sblk)) (\<lambda>bp.
     kbind (bytes_of bp) (\<lambda>bs.
     case find (\<lambda>bi. \<not> bit_used bs bi) [0..<min BPB (sb_size sblk - b)] of
       Some bi \<Rightarrow>
         kseq (set_bytes bp (bit_set bi)) (
         kseq (log_write bp) (
         kseq (brelse bp) (
         kseq (bzero dev (b + bi)) (kret (Some (b + bi))))))
     | None \<Rightarrow> kseq (brelse bp) (kret None))))"

definition group_starts :: "nat \<Rightarrow> nat list" where
  "group_starts sz = map (\<lambda>k. k * BPB) [0..<(sz + BPB - 1) div BPB]"

definition balloc :: "nat \<Rightarrow> ('z fs_state_scheme, nat) km" where
  "balloc dev =
     kbind (kget (\<lambda>s. sb_size (sb s))) (\<lambda>sz.
     kbind (kscan (balloc_group dev) (group_starts sz)) (\<lambda>r.
     case r of Some b \<Rightarrow> kret b
     | None \<Rightarrow> kseq (printf (''balloc: out of blocks'' @ [CHR 0x0A]) []) (kret 0)))"

definition bfree :: "nat \<Rightarrow> nat \<Rightarrow> ('z fs_state_scheme, unit) km" where
  "bfree dev b =
     kbind (kget sb) (\<lambda>sblk.
     kbind (bread dev (BBLOCK b sblk)) (\<lambda>bp.
     kbind (bytes_of bp) (\<lambda>bs. kdo [
       kwhen (\<not> bit_used bs (b mod BPB)) (panic ''freeing free block''),
       set_bytes bp (bit_clear (b mod BPB)),
       log_write bp,
       brelse bp])))"

subsection \<open>Inodes\<close>

definition iinit :: "('z fs_state_scheme, unit) km" where
  "iinit = kdo [
     initlock Lk_itable ''itable'',
     kiter (\<lambda>i. initsleeplock (Sl_inode i) ''inode'') [0..<NINODE]]"

text \<open>
  The scan of \<^verbatim>\<open>iget\<close>: the first entry in use for this inode (\<open>Inl\<close>), else the first empty entry.
\<close>

fun iget_scan :: "(nat \<Rightarrow> inode) \<Rightarrow> nat \<Rightarrow> nat \<Rightarrow> nat option \<Rightarrow> nat list \<Rightarrow> nat + nat option" where
  "iget_scan t dev n hole [] = Inr hole"
| "iget_scan t dev n hole (i # is) =
     (if iref (t i) > 0 \<and> idev (t i) = dev \<and> inum (t i) = n then Inl i
      else iget_scan t dev n (if hole = None \<and> iref (t i) = 0 then Some i else hole) is)"

definition iget :: "nat \<Rightarrow> nat \<Rightarrow> ('z fs_state_scheme, nat) km" where
  "iget dev n =
     kseq (acquire Lk_itable) (
     kbind (kget (\<lambda>s. iget_scan (inodes s) dev n None [0..<NINODE])) (\<lambda>r.
     case r of
       Inl i \<Rightarrow>
         kseq (upd_inode i (\<lambda>x. x\<lparr>iref := iref x + 1\<rparr>)) (kseq (release Lk_itable) (kret i))
     | Inr None \<Rightarrow> panic ''iget: no inodes''
     | Inr (Some i) \<Rightarrow>
         kseq (upd_inode i (\<lambda>x. x\<lparr>idev := dev, inum := n, iref := 1, ivalid := False\<rparr>)) (
         kseq (release Lk_itable) (kret i))))"

definition zero_dinode :: dinode where
  "zero_dinode = \<lparr>dtype = 0, dmajor = 0, dminor = 0, dnlink = 0, dsize = 0,
     daddrs = replicate (Suc NDIRECT) 0\<rparr>"

definition ialloc_try :: "nat \<Rightarrow> uint16 \<Rightarrow> nat \<Rightarrow> ('z fs_state_scheme, nat option) km" where
  "ialloc_try dev ty n =
     kbind (kget sb) (\<lambda>sblk.
     kbind (bread dev (IBLOCK n sblk)) (\<lambda>bp.
     kbind (bytes_of bp) (\<lambda>bs.
     if dtype (dinode_at n bs) = 0 then
       kseq (set_bytes bp (put_dinode n (zero_dinode\<lparr>dtype := ty\<rparr>))) (
       kseq (log_write bp) (
       kseq (brelse bp) (
       kbind (iget dev n) (\<lambda>i. kret (Some i)))))
     else kseq (brelse bp) (kret None))))"

definition ialloc :: "nat \<Rightarrow> uint16 \<Rightarrow> ('z fs_state_scheme, nat option) km" where
  "ialloc dev ty =
     kbind (kget (\<lambda>s. sb_ninodes (sb s))) (\<lambda>m.
     kbind (kscan (ialloc_try dev ty) [1..<m]) (\<lambda>r.
     case r of Some i \<Rightarrow> kret (Some i)
     | None \<Rightarrow> kseq (printf (''ialloc: no inodes'' @ [CHR 0x0A]) []) (kret None)))"

definition to_dinode :: "inode \<Rightarrow> dinode" where
  "to_dinode x = \<lparr>dtype = itype x, dmajor = imajor x, dminor = iminor x, dnlink = inlink x,
     dsize = isize x, daddrs = iaddrs x\<rparr>"

definition iupdate :: "nat \<Rightarrow> ('z fs_state_scheme, unit) km" where
  "iupdate ip =
     kbind (kget sb) (\<lambda>sblk.
     kbind (kget (\<lambda>s. inodes s ip)) (\<lambda>x.
     kbind (bread (idev x) (IBLOCK (inum x) sblk)) (\<lambda>bp. kdo [
       set_bytes bp (put_dinode (inum x) (to_dinode x)),
       log_write bp,
       brelse bp])))"

definition idup :: "nat \<Rightarrow> ('z fs_state_scheme, nat) km" where
  "idup ip =
     kseq (acquire Lk_itable) (
     kseq (upd_inode ip (\<lambda>x. x\<lparr>iref := iref x + 1\<rparr>)) (
     kseq (release Lk_itable) (kret ip)))"

definition load_dinode :: "dinode \<Rightarrow> inode \<Rightarrow> inode" where
  "load_dinode d x = x\<lparr>itype := dtype d, imajor := dmajor d, iminor := dminor d,
     inlink := dnlink d, isize := dsize d, iaddrs := daddrs d\<rparr>"

definition ilock :: "nat option \<Rightarrow> ('z fs_state_scheme, unit) km" where
  "ilock ipp =
     (case ipp of None \<Rightarrow> panic ''ilock'' | Some ip \<Rightarrow>
      kbind (kget (\<lambda>s. iref (inodes s ip))) (\<lambda>r. kdo [
        kwhen (r < 1) (panic ''ilock''),
        acquiresleep (Sl_inode ip),
        kbind (kget (\<lambda>s. (inodes s ip, sb s))) (\<lambda>(x, sblk).
        kwhen (\<not> ivalid x) (
          kbind (bread (idev x) (IBLOCK (inum x) sblk)) (\<lambda>bp.
          kbind (bytes_of bp) (\<lambda>bs. kdo [
            upd_inode ip (load_dinode (dinode_at (inum x) bs)),
            brelse bp,
            upd_inode ip (\<lambda>x. x\<lparr>ivalid := True\<rparr>),
            kbind (kget (\<lambda>s. itype (inodes s ip))) (\<lambda>t.
            kwhen (t = 0) (panic ''ilock: no type''))]))))]))"

definition iunlock :: "nat option \<Rightarrow> ('z fs_state_scheme, unit) km" where
  "iunlock ipp =
     (case ipp of None \<Rightarrow> panic ''iunlock'' | Some ip \<Rightarrow>
      kbind (holdingsleep (Sl_inode ip)) (\<lambda>h.
      kbind (kget (\<lambda>s. iref (inodes s ip))) (\<lambda>r. kdo [
        kwhen (\<not> h \<or> r < 1) (panic ''iunlock''),
        releasesleep (Sl_inode ip)])))"

text \<open>\<^verbatim>\<open>itrunc\<close> stands before \<^verbatim>\<open>iput\<close>, which calls it.\<close>

definition itrunc :: "nat \<Rightarrow> ('z fs_state_scheme, unit) km" where
  "itrunc ip = kdo [
     kiter (\<lambda>i.
       kbind (kget (\<lambda>s. inodes s ip)) (\<lambda>x.
       kwhen (iaddrs x ! i \<noteq> 0) (kdo [
         bfree (idev x) (iaddrs x ! i),
         upd_inode ip (\<lambda>x. x\<lparr>iaddrs := (iaddrs x)[i := 0]\<rparr>)]))) [0..<NDIRECT],
     kbind (kget (\<lambda>s. inodes s ip)) (\<lambda>x.
     kwhen (iaddrs x ! NDIRECT \<noteq> 0) (
       kbind (bread (idev x) (iaddrs x ! NDIRECT)) (\<lambda>bp. kdo [
         kiter (\<lambda>j.
           kbind (bytes_of bp) (\<lambda>bs.
           kwhen (get32 j bs \<noteq> 0) (bfree (idev x) (unat (get32 j bs))))) [0..<NINDIRECT],
         brelse bp,
         bfree (idev x) (iaddrs x ! NDIRECT),
         upd_inode ip (\<lambda>x. x\<lparr>iaddrs := (iaddrs x)[NDIRECT := 0]\<rparr>)]))),
     upd_inode ip (\<lambda>x. x\<lparr>isize := 0\<rparr>),
     iupdate ip]"

definition iput :: "nat \<Rightarrow> ('z fs_state_scheme, unit) km" where
  "iput ip = kdo [
     acquire Lk_itable,
     kbind (kget (\<lambda>s. inodes s ip)) (\<lambda>x.
     kwhen (iref x = 1 \<and> ivalid x \<and> inlink x = 0) (kdo [
       acquiresleep (Sl_inode ip),
       release Lk_itable,
       itrunc ip,
       upd_inode ip (\<lambda>x. x\<lparr>itype := 0\<rparr>),
       iupdate ip,
       upd_inode ip (\<lambda>x. x\<lparr>ivalid := False\<rparr>),
       releasesleep (Sl_inode ip),
       acquire Lk_itable])),
     upd_inode ip (\<lambda>x. x\<lparr>iref := iref x - 1\<rparr>),
     release Lk_itable]"

definition iunlockput :: "nat \<Rightarrow> ('z fs_state_scheme, unit) km" where
  "iunlockput ip = kdo [iunlock (Some ip), iput ip]"

definition ireclaim_one :: "nat \<Rightarrow> nat \<Rightarrow> ('z fs_state_scheme, unit) km" where
  "ireclaim_one dev n =
     kbind (kget sb) (\<lambda>sblk.
     kbind (bread dev (IBLOCK n sblk)) (\<lambda>bp.
     kbind (bytes_of bp) (\<lambda>bs.
     let d = dinode_at n bs in
     kbind (if dtype d \<noteq> 0 \<and> dnlink d = 0
            then kseq (printf (''ireclaim: orphaned inode %d'' @ [CHR 0x0A]) [Vint (of_nat n)])
                   (kbind (iget dev n) (\<lambda>ip. kret (Some ip)))
            else kret None) (\<lambda>r.
     kseq (brelse bp) (
     case r of None \<Rightarrow> kskip
     | Some ip \<Rightarrow> kdo [begin_op, ilock (Some ip), iunlock (Some ip), iput ip, end_op])))))"

definition ireclaim :: "nat \<Rightarrow> ('z fs_state_scheme, unit) km" where
  "ireclaim dev =
     kbind (kget (\<lambda>s. sb_ninodes (sb s))) (\<lambda>m. kiter (ireclaim_one dev) [1..<m])"

definition fsinit :: "nat \<Rightarrow> ('z fs_state_scheme, unit) km" where
  "fsinit dev = kdo [
     readsb dev,
     kbind (kget sb) (\<lambda>b. kdo [
       kwhen (sb_magic b \<noteq> FSMAGIC) (panic ''invalid file system''),
       initlog dev (sb_logstart b)]),
     ireclaim dev]"

subsection \<open>Inode content\<close>

definition bmap :: "nat \<Rightarrow> nat \<Rightarrow> ('z fs_state_scheme, nat) km" where
  "bmap ip bn =
     kbind (kget (\<lambda>s. inodes s ip)) (\<lambda>x.
     let slot = (\<lambda>i. if iaddrs x ! i \<noteq> 0 then kret (iaddrs x ! i)
           else kbind (balloc (idev x)) (\<lambda>addr.
             if addr = 0 then kret 0
             else kseq (upd_inode ip (\<lambda>x. x\<lparr>iaddrs := (iaddrs x)[i := addr]\<rparr>)) (kret addr)))
     in
     if bn < NDIRECT then slot bn
     else if bn - NDIRECT < NINDIRECT then
       kbind (slot NDIRECT) (\<lambda>ind.
       if ind = 0 then kret 0
       else
         kbind (bread (idev x) ind) (\<lambda>bp.
         kbind (bytes_of bp) (\<lambda>bs.
         kbind (if get32 (bn - NDIRECT) bs \<noteq> 0 then kret (unat (get32 (bn - NDIRECT) bs))
                else kbind (balloc (idev x)) (\<lambda>addr.
                  kseq (kwhen (addr \<noteq> 0) (kdo [
                          set_bytes bp (put32 (bn - NDIRECT) (of_nat addr)),
                          log_write bp]))
                       (kret addr))) (\<lambda>addr.
         kseq (brelse bp) (kret addr)))))
     else panic ''bmap: out of range'')"

record stat_t =
  st_dev :: nat
  st_ino :: nat
  st_type :: uint16
  st_nlink :: uint16
  st_size :: uint64

definition stati :: "nat \<Rightarrow> ('z fs_state_scheme, stat_t) km" where
  "stati ip = kget (\<lambda>s. let x = inodes s ip in
     \<lparr>st_dev = idev x, st_ino = inum x, st_type = itype x, st_nlink = inlink x,
      st_size = ucast (isize x)\<rparr>)"

text \<open>
  The loops of \<^verbatim>\<open>readi\<close> and \<^verbatim>\<open>writei\<close>. Every iteration but the first starts at a block boundary,
  so \<open>n div BSIZE + 2\<close> iterations are enough (\<open>rw_fuel\<close>); running out of them would be a \<open>Fault\<close>.
  \<open>readi_loop\<close> returns the final \<^verbatim>\<open>tot\<close>, \<open>-1\<close> after a failed copy; \<open>writei_loop\<close> the number of
  bytes written.
\<close>

definition rw_fuel :: "nat \<Rightarrow> nat" where
  "rw_fuel n = n div BSIZE + 3"

fun readi_loop :: "nat \<Rightarrow> nat \<Rightarrow> kptr \<Rightarrow> nat \<Rightarrow> nat \<Rightarrow> nat \<Rightarrow> ('z fs_state_scheme, int) km" where
  "readi_loop 0 ip dst off n tot = khalt Fault"
| "readi_loop (Suc k) ip dst off n tot =
     (if \<not> tot < n then kret (to_int tot)
      else
        kbind (bmap ip (off div BSIZE)) (\<lambda>addr.
        if addr = 0 then kret (to_int tot)
        else
          kbind (kget (\<lambda>s. idev (inodes s ip))) (\<lambda>dev.
          kbind (bread dev addr) (\<lambda>bp.
          let m = min (n - tot) (BSIZE - off mod BSIZE) in
          kbind (bytes_of bp) (\<lambda>bs.
          kbind (either_copyout dst (take m (drop (off mod BSIZE) bs))) (\<lambda>r.
          kseq (brelse bp) (
          if r = -1 then kret (-1)
          else readi_loop k ip (kptr_add dst m) (off + m) n (tot + m))))))))"

definition readi :: "nat \<Rightarrow> kptr \<Rightarrow> uint32 \<Rightarrow> uint32 \<Rightarrow> ('z fs_state_scheme, int) km" where
  "readi ip dst off n =
     kbind (kget (\<lambda>s. isize (inodes s ip))) (\<lambda>sz.
     if off > sz \<or> off + n < off then kret 0
     else let n' = (if off + n > sz then sz - off else n) in
       readi_loop (rw_fuel (unat n')) ip dst (unat off) (unat n') 0)"

text \<open>
  \<^verbatim>\<open>either_copyin\<close> stores into the buffer what it copied before it failed.
\<close>

fun writei_loop :: "nat \<Rightarrow> nat \<Rightarrow> kptr \<Rightarrow> nat \<Rightarrow> nat \<Rightarrow> nat \<Rightarrow> ('z fs_state_scheme, nat) km" where
  "writei_loop 0 ip src off n tot = khalt Fault"
| "writei_loop (Suc k) ip src off n tot =
     (if \<not> tot < n then kret tot
      else
        kbind (bmap ip (off div BSIZE)) (\<lambda>addr.
        if addr = 0 then kret tot
        else
          kbind (kget (\<lambda>s. idev (inodes s ip))) (\<lambda>dev.
          kbind (bread dev addr) (\<lambda>bp.
          let m = min (n - tot) (BSIZE - off mod BSIZE) in
          kbind (either_copyin src m) (\<lambda>(r, bs).
          kseq (set_bytes bp (splice (off mod BSIZE) bs)) (
          if r = -1 then kseq (brelse bp) (kret tot)
          else kseq (log_write bp) (kseq (brelse bp)
            (writei_loop k ip (kptr_add src m) (off + m) n (tot + m)))))))))"

definition writei :: "nat \<Rightarrow> kptr \<Rightarrow> uint32 \<Rightarrow> uint32 \<Rightarrow> ('z fs_state_scheme, int) km" where
  "writei ip src off n =
     kbind (kget (\<lambda>s. isize (inodes s ip))) (\<lambda>sz.
     if off > sz \<or> off + n < off then kret (-1)
     else if unat (off + n) > MAXFILE * BSIZE then kret (-1)
     else
       kbind (writei_loop (rw_fuel (unat n)) ip src (unat off) (unat n) 0) (\<lambda>tot.
       kbind (kget (\<lambda>s. isize (inodes s ip))) (\<lambda>sz.
       let off' = off + of_nat tot in
       kseq (kwhen (off' > sz) (upd_inode ip (\<lambda>x. x\<lparr>isize := off'\<rparr>))) (
       kseq (iupdate ip) (kret (to_int tot))))))"

subsection \<open>Directories\<close>

definition namecmp :: "bytes \<Rightarrow> bytes \<Rightarrow> int" where
  "namecmp s t = strncmp (arr s) (arr t) DIRSIZ"

text \<open>A \<^verbatim>\<open>struct dirent\<close>: the inode number and \<open>DIRSIZ\<close> bytes of name.\<close>

definition de_inum :: "bytes \<Rightarrow> nat" where
  "de_inum de = unat (get16 0 de)"

definition de_name :: "bytes \<Rightarrow> bytes" where
  "de_name de = take DIRSIZ (drop 2 de)"

definition de_starts :: "nat \<Rightarrow> nat list" where
  "de_starts sz = map (\<lambda>k. 16 * k) [0..<(sz + 15) div 16]"

text \<open>\<^verbatim>\<open>readi\<close> of one directory entry into the local \<^verbatim>\<open>de\<close>, with the check the callers make.\<close>

definition read_de :: "string \<Rightarrow> nat \<Rightarrow> nat \<Rightarrow> ('z fs_state_scheme, bytes) km" where
  "read_de msg dp off =
     kbind (readi dp (Local 0) (of_nat off) 16) (\<lambda>r.
     kseq (kwhen (r \<noteq> 16) (panic msg)) (kget (\<lambda>s. take 16 (scratch s))))"

text \<open>The inode found and \<^verbatim>\<open>*poff\<close>.\<close>

definition dirlookup :: "nat \<Rightarrow> bytes \<Rightarrow> ('z fs_state_scheme, (nat \<times> nat) option) km" where
  "dirlookup dp name =
     kbind (kget (\<lambda>s. inodes s dp)) (\<lambda>x.
     kseq (kwhen (itype x \<noteq> T_DIR) (panic ''dirlookup not DIR'')) (
     kscan (\<lambda>off.
       kbind (read_de ''dirlookup read'' dp off) (\<lambda>de.
       if de_inum de = 0 then kret None
       else if namecmp name (de_name de) = 0
       then kbind (iget (idev x) (de_inum de)) (\<lambda>ip. kret (Some (ip, off)))
       else kret None)) (de_starts (unat (isize x)))))"

definition make_de :: "bytes \<Rightarrow> bytes \<Rightarrow> nat \<Rightarrow> bytes" where
  "make_de de name n =
     le_bytes 2 (of_nat n :: uint16) @ map (strncpy (arr (de_name de)) (arr name) (int DIRSIZ)) [0..<DIRSIZ]"

definition dirlink :: "nat \<Rightarrow> bytes \<Rightarrow> nat \<Rightarrow> ('z fs_state_scheme, int) km" where
  "dirlink dp name n =
     kbind (dirlookup dp name) (\<lambda>r.
     case r of
       Some (ip, _) \<Rightarrow> kseq (iput ip) (kret (-1))
     | None \<Rightarrow>
         kbind (kget (\<lambda>s. unat (isize (inodes s dp)))) (\<lambda>sz.
         kbind (kscan (\<lambda>off.
           kbind (read_de ''dirlink read'' dp off) (\<lambda>de.
           kret (if de_inum de = 0 then Some off else None))) (de_starts sz)) (\<lambda>r.
         let off = (case r of Some off \<Rightarrow> off | None \<Rightarrow> 16 * ((sz + 15) div 16)) in
         kseq (kmod (\<lambda>s. s\<lparr>scratch := splice 0 (make_de (take 16 (scratch s)) name n) (scratch s)\<rparr>)) (
         kbind (writei dp (Local 0) (of_nat off) 16) (\<lambda>w.
         kret (if w \<noteq> 16 then -1 else 0))))))"

subsection \<open>Paths\<close>

text \<open>
  A path is the bytes before the terminating NUL. \<open>skipelem path name\<close> is the rest of the path and
  the new content of the array \<^verbatim>\<open>name\<close>.
\<close>

definition SLASH :: uint8 where "SLASH = 47"

definition skipelem :: "bytes \<Rightarrow> bytes \<Rightarrow> (bytes \<times> bytes) option" where
  "skipelem path name =
     (let p = dropWhile (\<lambda>c. c = SLASH) path in
      if p = [] then None
      else
        let s = takeWhile (\<lambda>c. c \<noteq> SLASH) p;
            rest = drop (length s) p;
            name' = (if length s \<ge> DIRSIZ then splice 0 (take DIRSIZ s) name
                     else splice 0 (s @ [0]) name)
        in Some (dropWhile (\<lambda>c. c = SLASH) rest, name'))"

text \<open>
  The loop of \<^verbatim>\<open>namex\<close>: each iteration takes an element off the path, so the length of the path
  bounds the iterations.
\<close>

fun namex_loop :: "nat \<Rightarrow> nat \<Rightarrow> bytes \<Rightarrow> bool \<Rightarrow> bytes
    \<Rightarrow> ('z fs_state_scheme, nat option \<times> bytes) km" where
  "namex_loop 0 ip path par name = khalt Fault"
| "namex_loop (Suc k) ip path par name =
     (case skipelem path name of
        None \<Rightarrow> if par then kseq (iput ip) (kret (None, name)) else kret (Some ip, name)
      | Some (path', name') \<Rightarrow>
          kseq (ilock (Some ip)) (
          kbind (kget (\<lambda>s. itype (inodes s ip))) (\<lambda>t.
          if t \<noteq> T_DIR then kseq (iunlockput ip) (kret (None, name'))
          else if par \<and> path' = [] then kseq (iunlock (Some ip)) (kret (Some ip, name'))
          else
            kbind (dirlookup ip name') (\<lambda>r.
            kseq (iunlockput ip) (
            case r of
              None \<Rightarrow> kret (None, name')
            | Some (next, _) \<Rightarrow> namex_loop k next path' par name')))))"

definition namex :: "bytes \<Rightarrow> bool \<Rightarrow> bytes \<Rightarrow> ('z fs_state_scheme, nat option \<times> bytes) km" where
  "namex path par name =
     kbind (if take 1 path = [SLASH] then iget ROOTDEV ROOTINO
            else kbind curproc (\<lambda>p.
              kbind (kget (\<lambda>s. cwd (procs s p))) (\<lambda>c.
              case c of None \<Rightarrow> khalt Fault | Some ip \<Rightarrow> idup ip))) (\<lambda>ip.
     namex_loop (Suc (length path)) ip path par name)"

definition namei :: "bytes \<Rightarrow> ('z fs_state_scheme, nat option) km" where
  "namei path = kbind (namex path False (replicate DIRSIZ 0)) (\<lambda>(r, _). kret r)"

definition nameiparent :: "bytes \<Rightarrow> bytes \<Rightarrow> ('z fs_state_scheme, nat option \<times> bytes) km" where
  "nameiparent path name = namex path True name"

end
