(* ===== verification/Console.thy ===== *)
theory Console
  imports Fs
begin

section \<open>Console and UART\<close>

text \<open>
  \<^verbatim>\<open>kernel/uart.c\<close>, \<^verbatim>\<open>kernel/console.c\<close> and \<^verbatim>\<open>procdump\<close> of \<^verbatim>\<open>kernel/proc.c\<close>. The device is the
  registers written at boot (\<open>uart_reg\<close>), the bytes that wait in its receive register (\<open>uart_rx\<close>),
  the transmitter-idle bit of its line status (\<open>tx_idle\<close>) and the bytes it was given to send
  (\<open>kout\<close>). The input buffer \<^verbatim>\<open>cons.buf\<close> is a list of \<open>INPUT_BUF_SIZE\<close> bytes with the 32-bit
  indices \<open>cr\<close>, \<open>cw\<close>, \<open>ce\<close>. A loop that sleeps is a definition over its local variables: it ends
  with \<open>Halt Switch\<close>, and the same definition is what runs after \<open>sleep_resume\<close>.

  \<open>devsw_read\<close> and \<open>devsw_write\<close> are the table \<^verbatim>\<open>devsw\<close>, which holds the console's functions or null.
\<close>

datatype devfn = Dev_console

record cons_state = fs_state +
  uart_reg :: "nat \<Rightarrow> uint8"
  uart_rx :: bytes
  tx_idle :: bool
  tx_busy :: bool
  cbuf :: bytes
  cr :: uint32
  cw :: uint32
  ce :: uint32
  devsw_read :: "nat \<Rightarrow> devfn option"
  devsw_write :: "nat \<Rightarrow> devfn option"

definition INPUT_BUF_SIZE :: nat where "INPUT_BUF_SIZE = 128"
definition CONSOLE :: nat where "CONSOLE = 1"

text \<open>\<^verbatim>\<open>C('D')\<close>, \<^verbatim>\<open>C('H')\<close>, \<^verbatim>\<open>C('P')\<close>, \<^verbatim>\<open>C('U')\<close>.\<close>

definition Ctl_D :: int where "Ctl_D = 4"
definition Ctl_H :: int where "Ctl_H = 8"
definition Ctl_P :: int where "Ctl_P = 16"
definition Ctl_U :: int where "Ctl_U = 21"
definition NEWLINE :: int where "NEWLINE = 10"

subsection \<open>UART\<close>

definition WriteReg :: "nat \<Rightarrow> uint8 \<Rightarrow> ('z cons_state_scheme, unit) km" where
  "WriteReg r v = kmod (\<lambda>s. s\<lparr>uart_reg := (uart_reg s)(r := v)\<rparr>)"

text \<open>\<^verbatim>\<open>IER\<close> is 1, \<^verbatim>\<open>FCR\<close> 2, \<^verbatim>\<open>LCR\<close> 3.\<close>

definition uartinit :: "('z cons_state_scheme, unit) km" where
  "uartinit = kdo [
     WriteReg 1 0x00,
     WriteReg 3 0x80,
     WriteReg 0 0x03,
     WriteReg 1 0x00,
     WriteReg 3 0x03,
     WriteReg 2 (0x01 OR 0x06),
     WriteReg 1 (0x02 OR 0x01),
     initlock Lk_uart ''uart'']"

primrec uartwrite_loop :: "bytes \<Rightarrow> ('z cons_state_scheme, unit) km" where
  "uartwrite_loop [] = release Lk_uart"
| "uartwrite_loop (c # cs) =
     kbind (kget tx_busy) (\<lambda>busy.
     if busy then sleep Ch_tx_chan Lk_uart
     else kseq (kmod (\<lambda>s. s\<lparr>kout := kout s @ [char_of (unat c)]\<rparr>)) (
          kseq (kmod (\<lambda>s. s\<lparr>tx_busy := True\<rparr>)) (uartwrite_loop cs)))"

definition uartwrite :: "bytes \<Rightarrow> ('z cons_state_scheme, unit) km" where
  "uartwrite buf = kdo [acquire Lk_uart, uartwrite_loop buf]"

definition uartgetc :: "('z cons_state_scheme, int) km" where
  "uartgetc =
     kbind (kget uart_rx) (\<lambda>rx.
     case rx of
       [] \<Rightarrow> kret (-1)
     | c # cs \<Rightarrow> kseq (kmod (\<lambda>s. s\<lparr>uart_rx := cs\<rparr>)) (kret (uint c)))"

subsection \<open>Process listing\<close>

fun state_name :: "procstate \<Rightarrow> string" where
  "state_name UNUSED = ''unused''"
| "state_name USED = ''used''"
| "state_name SLEEPING = ''sleep ''"
| "state_name RUNNABLE = ''runble''"
| "state_name RUNNING = ''run   ''"
| "state_name ZOMBIE = ''zombie''"

definition string_of :: "bytes \<Rightarrow> string" where
  "string_of bs = map (\<lambda>b. char_of (unat b)) bs"

definition procdump :: "('z pr_state_scheme, unit) km" where
  "procdump = kdo [
     kseq (printf [CHR 0x0A] []) kskip,
     kiter (\<lambda>p.
       kbind (kget (\<lambda>s. procs s p)) (\<lambda>x.
       kwhen (pstate x \<noteq> UNUSED) (kdo [
         kseq (printf ''%d %s %s'' [Vint (ucast (pid x)), Vstr (Some (state_name (pstate x))),
                 Vstr (Some (string_of (pname x)))]) kskip,
         kseq (printf [CHR 0x0A] []) kskip]))) [0..<NPROC]]"

subsection \<open>Console input\<close>

definition cons_char :: "uint32 \<Rightarrow> 'z cons_state_scheme \<Rightarrow> uint8" where
  "cons_char i s = cbuf s ! (unat i mod INPUT_BUF_SIZE)"

text \<open>The \<^verbatim>\<open>while\<close> loop of control-U, which runs at most \<open>e - w\<close> times.\<close>

primrec kill_line :: "nat \<Rightarrow> ('z cons_state_scheme, unit) km" where
  "kill_line 0 = kskip"
| "kill_line (Suc n) =
     kbind (kget (\<lambda>s. ce s \<noteq> cw s \<and> uint (cons_char (ce s - 1) s) \<noteq> NEWLINE)) (\<lambda>go.
     kwhen go (kdo [
       kmod (\<lambda>s. s\<lparr>ce := ce s - 1\<rparr>),
       consputc BACKSPACE,
       kill_line n]))"

definition cons_put :: "uint8 \<Rightarrow> 'z cons_state_scheme \<Rightarrow> 'z cons_state_scheme" where
  "cons_put c s = s\<lparr>cbuf := (cbuf s)[unat (ce s) mod INPUT_BUF_SIZE := c], ce := ce s + 1\<rparr>"

definition cons_get :: "'z cons_state_scheme \<Rightarrow> uint8 \<times> 'z cons_state_scheme" where
  "cons_get s = (cons_char (cr s) s, s\<lparr>cr := cr s + 1\<rparr>)"

definition cons_store :: "int \<Rightarrow> ('z cons_state_scheme, unit) km" where
  "cons_store c0 =
     (let c = (if c0 = 13 then NEWLINE else c0) in kdo [
        consputc c,
        kmod (cons_put (of_int c)),
        kbind (kget (\<lambda>s. c = NEWLINE \<or> c = Ctl_D \<or> ce s - cr s = of_nat INPUT_BUF_SIZE)) (\<lambda>b.
        kwhen b (kdo [
          kmod (\<lambda>s. s\<lparr>cw := ce s\<rparr>),
          wakeup (Some Ch_cons_r)]))])"

definition consoleintr :: "int \<Rightarrow> ('z cons_state_scheme, unit) km" where
  "consoleintr c = kdo [
     acquire Lk_cons,
     (if c = Ctl_P then procdump
      else if c = Ctl_U then kbind (kget (\<lambda>s. unat (ce s - cw s))) kill_line
      else if c = Ctl_H \<or> c = 0x7f then
        kbind (kget (\<lambda>s. ce s \<noteq> cw s)) (\<lambda>b.
        kwhen b (kdo [kmod (\<lambda>s. s\<lparr>ce := ce s - 1\<rparr>), consputc BACKSPACE]))
      else
        kbind (kget (\<lambda>s. ce s - cr s < of_nat INPUT_BUF_SIZE)) (\<lambda>room.
        kwhen (c \<noteq> 0 \<and> room) (cons_store c))),
     release Lk_cons]"

text \<open>The loop over the received characters; the receive register holds finitely many.\<close>

primrec uartintr_loop :: "nat \<Rightarrow> ('z cons_state_scheme, unit) km" where
  "uartintr_loop 0 = kskip"
| "uartintr_loop (Suc n) =
     kbind uartgetc (\<lambda>c. kwhen (c \<noteq> -1) (kdo [consoleintr c, uartintr_loop n]))"

definition uartintr :: "('z cons_state_scheme, unit) km" where
  "uartintr = kdo [
     acquire Lk_uart,
     kbind (kget tx_idle) (\<lambda>idle.
     kwhen idle (kdo [
       kmod (\<lambda>s. s\<lparr>tx_busy := False\<rparr>),
       wakeup (Some Ch_tx_chan)])),
     release Lk_uart,
     kbind (kget (\<lambda>s. Suc (length (uart_rx s)))) uartintr_loop]"

subsection \<open>Reads and writes of the console\<close>

text \<open>The offsets \<open>0, k, 2k, ...\<close> below \<open>n\<close>.\<close>

definition chunk_starts :: "nat \<Rightarrow> nat \<Rightarrow> nat list" where
  "chunk_starts k n = map (\<lambda>j. j * k) [0..<(n + k - 1) div k]"

definition consolewrite :: "kptr \<Rightarrow> int \<Rightarrow> ('z cons_state_scheme, int) km" where
  "consolewrite src n =
     kbind (kscan (\<lambda>i.
       kbind (either_copyin (kptr_add src i) (min 32 (nat n - i))) (\<lambda>(r, buf).
       if r = -1 then kret (Some i) else kseq (uartwrite buf) (kret None)))
       (chunk_starts 32 (nat n))) (\<lambda>r.
     kret (case r of Some i \<Rightarrow> int i | None \<Rightarrow> int (nat n)))"

text \<open>
  \<open>target\<close> is the count asked for and the last argument the count \<^verbatim>\<open>n\<close> still to read. The loop ends
  with \<open>cons_finish\<close>, which releases the lock and returns \<^verbatim>\<open>target - n\<close>.
\<close>

definition cons_finish :: "nat \<Rightarrow> nat \<Rightarrow> ('z cons_state_scheme, int) km" where
  "cons_finish target n = kseq (release Lk_cons) (kret (int target - int n))"

fun consoleread_loop :: "nat \<Rightarrow> kptr \<Rightarrow> nat \<Rightarrow> ('z cons_state_scheme, int) km" where
  "consoleread_loop target dst 0 = cons_finish target 0"
| "consoleread_loop target dst (Suc n) =
     kbind (kget (\<lambda>s. cr s = cw s)) (\<lambda>none.
     if none then
       kbind curproc (\<lambda>p.
       kbind (killed p) (\<lambda>k.
       if k \<noteq> 0 then kseq (release Lk_cons) (kret (-1))
       else sleep Ch_cons_r Lk_cons))
     else
       kbind (kget (\<lambda>s. fst (cons_get s))) (\<lambda>c.
       kseq (kmod (\<lambda>s. snd (cons_get s))) (
       if uint c = Ctl_D then
         kseq (kwhen (Suc n < target) (kmod (\<lambda>s. s\<lparr>cr := cr s - 1\<rparr>)))
              (cons_finish target (Suc n))
       else
         kbind (either_copyout dst [c]) (\<lambda>r.
         if r = -1 then cons_finish target (Suc n)
         else if uint c = NEWLINE then cons_finish target n
         else consoleread_loop target (kptr_add dst 1) n))))"

definition consoleread :: "kptr \<Rightarrow> int \<Rightarrow> ('z cons_state_scheme, int) km" where
  "consoleread dst n = kseq (acquire Lk_cons) (consoleread_loop (nat n) dst (nat n))"

definition consoleinit :: "('z cons_state_scheme, unit) km" where
  "consoleinit = kdo [
     initlock Lk_cons ''cons'',
     uartinit,
     kmod (\<lambda>s. s\<lparr>devsw_read := (devsw_read s)(CONSOLE := Some Dev_console)\<rparr>),
     kmod (\<lambda>s. s\<lparr>devsw_write := (devsw_write s)(CONSOLE := Some Dev_console)\<rparr>)]"

subsection \<open>Machine operations and the fields of the console\<close>

lemma cons_touch [simp]:
  "uart_rx (touch s) = uart_rx s" "touch (s\<lparr>uart_rx := x0\<rparr>) = (touch s)\<lparr>uart_rx := x0\<rparr>"
  "tx_busy (touch s) = tx_busy s" "touch (s\<lparr>tx_busy := x1\<rparr>) = (touch s)\<lparr>tx_busy := x1\<rparr>"
  "cbuf (touch s) = cbuf s" "touch (s\<lparr>cbuf := x2\<rparr>) = (touch s)\<lparr>cbuf := x2\<rparr>"
  "cr (touch s) = cr s" "touch (s\<lparr>cr := x3\<rparr>) = (touch s)\<lparr>cr := x3\<rparr>"
  "cw (touch s) = cw s" "touch (s\<lparr>cw := x4\<rparr>) = (touch s)\<lparr>cw := x4\<rparr>"
  "ce (touch s) = ce s" "touch (s\<lparr>ce := x5\<rparr>) = (touch s)\<lparr>ce := x5\<rparr>"
  by (simp_all add: touch_def)

lemma cons_entered [simp]:
  "uart_rx (entered lk s) = uart_rx s" "entered lk (s\<lparr>uart_rx := x0\<rparr>) = (entered lk s)\<lparr>uart_rx := x0\<rparr>"
  "tx_busy (entered lk s) = tx_busy s" "entered lk (s\<lparr>tx_busy := x1\<rparr>) = (entered lk s)\<lparr>tx_busy := x1\<rparr>"
  "cbuf (entered lk s) = cbuf s" "entered lk (s\<lparr>cbuf := x2\<rparr>) = (entered lk s)\<lparr>cbuf := x2\<rparr>"
  "cr (entered lk s) = cr s" "entered lk (s\<lparr>cr := x3\<rparr>) = (entered lk s)\<lparr>cr := x3\<rparr>"
  "cw (entered lk s) = cw s" "entered lk (s\<lparr>cw := x4\<rparr>) = (entered lk s)\<lparr>cw := x4\<rparr>"
  "ce (entered lk s) = ce s" "entered lk (s\<lparr>ce := x5\<rparr>) = (entered lk s)\<lparr>ce := x5\<rparr>"
  by (simp_all add: entered_def)

lemma cons_left [simp]:
  "uart_rx (left lk s) = uart_rx s" "left lk (s\<lparr>uart_rx := x0\<rparr>) = (left lk s)\<lparr>uart_rx := x0\<rparr>"
  "tx_busy (left lk s) = tx_busy s" "left lk (s\<lparr>tx_busy := x1\<rparr>) = (left lk s)\<lparr>tx_busy := x1\<rparr>"
  "cbuf (left lk s) = cbuf s" "left lk (s\<lparr>cbuf := x2\<rparr>) = (left lk s)\<lparr>cbuf := x2\<rparr>"
  "cr (left lk s) = cr s" "left lk (s\<lparr>cr := x3\<rparr>) = (left lk s)\<lparr>cr := x3\<rparr>"
  "cw (left lk s) = cw s" "left lk (s\<lparr>cw := x4\<rparr>) = (left lk s)\<lparr>cw := x4\<rparr>"
  "ce (left lk s) = ce s" "left lk (s\<lparr>ce := x5\<rparr>) = (left lk s)\<lparr>ce := x5\<rparr>"
  by (simp_all add: left_def)

lemma cons_lkok [simp]:
  "held (s\<lparr>uart_rx := x0\<rparr>) = held s" "lkok (s\<lparr>uart_rx := x0\<rparr>) = lkok s"
  "held (s\<lparr>tx_busy := x1\<rparr>) = held s" "lkok (s\<lparr>tx_busy := x1\<rparr>) = lkok s"
  "held (s\<lparr>cbuf := x2\<rparr>) = held s" "lkok (s\<lparr>cbuf := x2\<rparr>) = lkok s"
  "held (s\<lparr>cr := x3\<rparr>) = held s" "lkok (s\<lparr>cr := x3\<rparr>) = lkok s"
  "held (s\<lparr>cw := x4\<rparr>) = held s" "lkok (s\<lparr>cw := x4\<rparr>) = lkok s"
  "held (s\<lparr>ce := x5\<rparr>) = held s" "lkok (s\<lparr>ce := x5\<rparr>) = lkok s"
  by (simp_all add: held_def lkok_def holds_def lock_mine_def lock_free_def)

lemma cons_wakeall [simp]:
  "uart_rx (wakeall c s) = uart_rx s" "wakeall c (s\<lparr>uart_rx := x0\<rparr>) = (wakeall c s)\<lparr>uart_rx := x0\<rparr>"
  "tx_busy (wakeall c s) = tx_busy s" "wakeall c (s\<lparr>tx_busy := x1\<rparr>) = (wakeall c s)\<lparr>tx_busy := x1\<rparr>"
  "cbuf (wakeall c s) = cbuf s" "wakeall c (s\<lparr>cbuf := x2\<rparr>) = (wakeall c s)\<lparr>cbuf := x2\<rparr>"
  "cr (wakeall c s) = cr s" "wakeall c (s\<lparr>cr := x3\<rparr>) = (wakeall c s)\<lparr>cr := x3\<rparr>"
  "cw (wakeall c s) = cw s" "wakeall c (s\<lparr>cw := x4\<rparr>) = (wakeall c s)\<lparr>cw := x4\<rparr>"
  "ce (wakeall c s) = ce s" "wakeall c (s\<lparr>ce := x5\<rparr>) = (wakeall c s)\<lparr>ce := x5\<rparr>"
  by (simp_all add: wakeall_def cong: if_cong)

end
