(* ===== verification/File.thy ===== *)
theory File
  imports Console
begin

section \<open>Open files and pipes\<close>

text \<open>
  \<^verbatim>\<open>kernel/file.c\<close> and \<^verbatim>\<open>kernel/pipe.c\<close>. An open file is an index of \<^verbatim>\<open>ftable\<close>. A pipe lives in a
  page from \<^verbatim>\<open>kalloc\<close> and is named by that page's address: \<open>pipes\<close> gives the \<^verbatim>\<open>struct pipe\<close> stored
  there, with its lock \<open>Lk_pipe\<close>. The counters \<open>nread\<close> and \<open>nwrite\<close> are 32-bit and wrap around.
\<close>

datatype ftype = FD_NONE | FD_PIPE | FD_INODE | FD_DEVICE

record fileent =
  ftyp :: ftype
  fref :: int
  readable :: bool
  writable :: bool
  fpipe :: uint64
  fip :: "nat option"
  foff :: uint32
  fmajor :: uint16

record pipe =
  pdata :: bytes
  nread :: uint32
  nwrite :: uint32
  readopen :: bool
  writeopen :: bool

record file_state = cons_state +
  files :: "nat \<Rightarrow> fileent"
  pipes :: "uint64 \<Rightarrow> pipe"

definition PIPESIZE :: nat where "PIPESIZE = 512"

definition upd_file :: "nat \<Rightarrow> (fileent \<Rightarrow> fileent) \<Rightarrow> ('z file_state_scheme, unit) km" where
  "upd_file f g = kmod (\<lambda>s. s\<lparr>files := (files s)(f := g (files s f))\<rparr>)"

definition upd_pipe :: "uint64 \<Rightarrow> (pipe \<Rightarrow> pipe) \<Rightarrow> ('z file_state_scheme, unit) km" where
  "upd_pipe pi g = kmod (\<lambda>s. s\<lparr>pipes := (pipes s)(pi := g (pipes s pi))\<rparr>)"

subsection \<open>The file table\<close>

definition fileinit :: "('z file_state_scheme, unit) km" where
  "fileinit = initlock Lk_ftable ''ftable''"

definition filealloc :: "('z file_state_scheme, nat option) km" where
  "filealloc =
     with_lock Lk_ftable (
       kscan (\<lambda>f.
         kbind (kget (\<lambda>s. fref (files s f))) (\<lambda>r.
         if r = 0 then kseq (upd_file f (\<lambda>x. x\<lparr>fref := 1\<rparr>)) (kret (Some f))
         else kret None)) [0..<NFILE])"

definition filedup :: "nat \<Rightarrow> ('z file_state_scheme, nat) km" where
  "filedup f =
     with_lock Lk_ftable (
       kbind (kget (\<lambda>s. fref (files s f))) (\<lambda>r.
       kseq (kwhen (r < 1) (panic ''filedup'')) (
       kseq (upd_file f (\<lambda>x. x\<lparr>fref := fref x + 1\<rparr>)) (kret f))))"

subsection \<open>Pipes\<close>

definition pipeclose :: "uint64 \<Rightarrow> bool \<Rightarrow> ('z file_state_scheme, unit) km" where
  "pipeclose pi wr = kdo [
     acquire (Lk_pipe pi),
     (if wr then kdo [upd_pipe pi (\<lambda>x. x\<lparr>writeopen := False\<rparr>), wakeup (Some (Ch_pipe_nread pi))]
      else kdo [upd_pipe pi (\<lambda>x. x\<lparr>readopen := False\<rparr>), wakeup (Some (Ch_pipe_nwrite pi))]),
     kbind (kget (\<lambda>s. pipes s pi)) (\<lambda>x.
     if \<not> readopen x \<and> \<not> writeopen x
     then kdo [release (Lk_pipe pi), kfree pi]
     else release (Lk_pipe pi))]"

definition pipe_put :: "uint8 \<Rightarrow> pipe \<Rightarrow> pipe" where
  "pipe_put ch x = x\<lparr>pdata := (pdata x)[unat (nwrite x) mod PIPESIZE := ch], nwrite := nwrite x + 1\<rparr>"

definition pipe_get :: "pipe \<Rightarrow> uint8 \<times> pipe" where
  "pipe_get x = (pdata x ! (unat (nread x) mod PIPESIZE), x\<lparr>nread := nread x + 1\<rparr>)"

definition pipewrite_end :: "uint64 \<Rightarrow> nat \<Rightarrow> ('z file_state_scheme, int) km" where
  "pipewrite_end pi i = kseq (wakeup (Some (Ch_pipe_nread pi))) (kseq (release (Lk_pipe pi)) (kret (int i)))"

text \<open>\<open>pipewrite_loop pr pi addr i k\<close>: \<open>i\<close> bytes are written and \<open>k\<close> are left.\<close>

fun pipewrite_loop :: "nat \<Rightarrow> uint64 \<Rightarrow> uint64 \<Rightarrow> nat \<Rightarrow> nat \<Rightarrow> ('z file_state_scheme, int) km" where
  "pipewrite_loop pr pi addr i 0 = pipewrite_end pi i"
| "pipewrite_loop pr pi addr i (Suc k) =
     kbind (kget (\<lambda>s. readopen (pipes s pi))) (\<lambda>ro.
     kbind (if ro then killed pr else kret 1) (\<lambda>kd.
     if kd \<noteq> 0 then kseq (release (Lk_pipe pi)) (kret (-1))
     else
       kbind (kget (\<lambda>s. pipes s pi)) (\<lambda>x.
       if nwrite x = nread x + of_nat PIPESIZE
       then kseq (wakeup (Some (Ch_pipe_nread pi))) (sleep (Ch_pipe_nwrite pi) (Lk_pipe pi))
       else
         kbind (kget (\<lambda>s. ppagetable (procs s pr))) (\<lambda>pt.
         kbind (copyin pt (addr + of_nat i) 1) (\<lambda>(r, bs).
         if r = -1 then pipewrite_end pi i
         else kseq (upd_pipe pi (pipe_put (bs ! 0))) (pipewrite_loop pr pi addr (Suc i) k))))))"

definition pipewrite :: "uint64 \<Rightarrow> uint64 \<Rightarrow> int \<Rightarrow> ('z file_state_scheme, int) km" where
  "pipewrite pi addr n =
     kbind curproc (\<lambda>pr.
     kseq (acquire (Lk_pipe pi)) (pipewrite_loop pr pi addr 0 (nat n)))"

fun piperead_copy :: "nat \<Rightarrow> uint64 \<Rightarrow> uint64 \<Rightarrow> nat \<Rightarrow> nat \<Rightarrow> ('z file_state_scheme, nat) km" where
  "piperead_copy pr pi addr i 0 = kret i"
| "piperead_copy pr pi addr i (Suc k) =
     kbind (kget (\<lambda>s. pipes s pi)) (\<lambda>x.
     if nread x = nwrite x then kret i
     else
       kseq (upd_pipe pi (\<lambda>x. snd (pipe_get x))) (
       kbind (kget (\<lambda>s. ppagetable (procs s pr))) (\<lambda>pt.
       kbind (copyout pt (addr + of_nat i) [fst (pipe_get x)]) (\<lambda>r.
       if r = -1 then kret i else piperead_copy pr pi addr (Suc i) k))))"

text \<open>The loop at the head of \<^verbatim>\<open>piperead\<close> and, once there is data or no writer, the rest of it.\<close>

definition piperead_loop :: "nat \<Rightarrow> uint64 \<Rightarrow> uint64 \<Rightarrow> int \<Rightarrow> ('z file_state_scheme, int) km" where
  "piperead_loop pr pi addr n =
     kbind (kget (\<lambda>s. pipes s pi)) (\<lambda>x.
     if nread x = nwrite x \<and> writeopen x then
       kbind (killed pr) (\<lambda>kd.
       if kd \<noteq> 0 then kseq (release (Lk_pipe pi)) (kret (-1))
       else sleep (Ch_pipe_nread pi) (Lk_pipe pi))
     else
       kbind (piperead_copy pr pi addr 0 (nat n)) (\<lambda>i.
       kseq (wakeup (Some (Ch_pipe_nwrite pi))) (
       kseq (release (Lk_pipe pi)) (kret (int i)))))"

definition piperead :: "uint64 \<Rightarrow> uint64 \<Rightarrow> int \<Rightarrow> ('z file_state_scheme, int) km" where
  "piperead pi addr n =
     kbind curproc (\<lambda>pr.
     kseq (acquire (Lk_pipe pi)) (piperead_loop pr pi addr n))"

subsection \<open>Closing, reading and writing files\<close>

definition fileclose :: "nat \<Rightarrow> ('z file_state_scheme, unit) km" where
  "fileclose f =
     kseq (acquire Lk_ftable) (
     kbind (kget (\<lambda>s. fref (files s f))) (\<lambda>r.
     kseq (kwhen (r < 1) (panic ''fileclose'')) (
     kseq (upd_file f (\<lambda>x. x\<lparr>fref := fref x - 1\<rparr>)) (
     kbind (kget (\<lambda>s. files s f)) (\<lambda>ff.
     if fref ff > 0 then release Lk_ftable
     else kdo [
       upd_file f (\<lambda>x. x\<lparr>fref := 0\<rparr>),
       upd_file f (\<lambda>x. x\<lparr>ftyp := FD_NONE\<rparr>),
       release Lk_ftable,
       (if ftyp ff = FD_PIPE then pipeclose (fpipe ff) (writable ff)
        else if ftyp ff = FD_INODE \<or> ftyp ff = FD_DEVICE
        then kdo [begin_op,
               (case fip ff of None \<Rightarrow> khalt Fault | Some ip \<Rightarrow> iput ip),
               end_op]
        else kskip)])))))"

text \<open>
  \<^verbatim>\<open>pipealloc\<close> returns the code's result and the two files. \<open>pipealloc_bad\<close> is the part after the
  label \<^verbatim>\<open>bad\<close>.
\<close>

definition pipealloc_bad :: "uint64 \<Rightarrow> nat option \<Rightarrow> nat option
    \<Rightarrow> ('z file_state_scheme, int \<times> nat option \<times> nat option) km" where
  "pipealloc_bad pi f0 f1 =
     kseq (kwhen (pi \<noteq> 0) (kfree pi)) (
     kseq (case f0 of None \<Rightarrow> kskip | Some f \<Rightarrow> fileclose f) (
     kseq (case f1 of None \<Rightarrow> kskip | Some f \<Rightarrow> fileclose f)
          (kret (-1, f0, f1))))"

definition pipe_end :: "bool \<Rightarrow> uint64 \<Rightarrow> fileent \<Rightarrow> fileent" where
  "pipe_end wr pi x = x\<lparr>ftyp := FD_PIPE, readable := \<not> wr, writable := wr, fpipe := pi\<rparr>"

definition pipealloc :: "('z file_state_scheme, int \<times> nat option \<times> nat option) km" where
  "pipealloc =
     kbind filealloc (\<lambda>r0.
     case r0 of None \<Rightarrow> pipealloc_bad 0 None None | Some f0 \<Rightarrow>
     kbind filealloc (\<lambda>r1.
     case r1 of None \<Rightarrow> pipealloc_bad 0 (Some f0) None | Some f1 \<Rightarrow>
     kbind kalloc (\<lambda>pi.
     if pi = 0 then pipealloc_bad 0 (Some f0) (Some f1)
     else
       kseq (upd_pipe pi (\<lambda>x. x\<lparr>readopen := True, writeopen := True, nwrite := 0, nread := 0\<rparr>)) (
       kseq (initlock (Lk_pipe pi) ''pipe'') (
       kseq (upd_file f0 (pipe_end False pi)) (
       kseq (upd_file f1 (pipe_end True pi)) (kret (0, Some f0, Some f1))))))))"

text \<open>
  \<^verbatim>\<open>struct stat\<close> is 24 bytes, of which the four after \<^verbatim>\<open>nlink\<close> are padding: they keep what the
  stack holds.
\<close>

definition encode_stat :: "bytes \<Rightarrow> stat_t \<Rightarrow> bytes" where
  "encode_stat pad st =
     le_bytes 4 (of_nat (st_dev st) :: uint32) @ le_bytes 4 (of_nat (st_ino st) :: uint32)
     @ le_bytes 2 (st_type st) @ le_bytes 2 (st_nlink st) @ pad @ le_bytes 8 (st_size st)"

definition filestat :: "nat \<Rightarrow> uint64 \<Rightarrow> ('z file_state_scheme, int) km" where
  "filestat f addr =
     kbind curproc (\<lambda>p.
     kbind (kget (\<lambda>s. files s f)) (\<lambda>x.
     if ftyp x = FD_INODE \<or> ftyp x = FD_DEVICE then
       kseq (ilock (fip x)) (
       case fip x of None \<Rightarrow> khalt Fault | Some ip \<Rightarrow>
       kbind (stati ip) (\<lambda>st.
       kseq (iunlock (fip x)) (
       kbind (kget (\<lambda>s. (ppagetable (procs s p), map (arr (scratch s)) [12..<16]))) (\<lambda>(pt, pad).
       kbind (copyout pt addr (encode_stat pad st)) (\<lambda>r.
       kret (if r < 0 then -1 else 0))))))
     else kret (-1)))"

definition dev_of :: "fileent \<Rightarrow> (nat \<Rightarrow> devfn option) \<Rightarrow> devfn option" where
  "dev_of x tab =
     (if sint (fmajor x) < 0 \<or> sint (fmajor x) \<ge> int NDEV then None else tab (unat (fmajor x)))"

definition fileread :: "nat \<Rightarrow> uint64 \<Rightarrow> int \<Rightarrow> ('z file_state_scheme, int) km" where
  "fileread f addr n =
     kbind (kget (\<lambda>s. (files s f, dev_of (files s f) (devsw_read s)))) (\<lambda>(x, dev).
     if \<not> readable x then kret (-1)
     else if ftyp x = FD_PIPE then piperead (fpipe x) addr n
     else if ftyp x = FD_DEVICE then
       (case dev of None \<Rightarrow> kret (-1) | Some Dev_console \<Rightarrow> consoleread (User addr) n)
     else if ftyp x = FD_INODE then
       kseq (ilock (fip x)) (
       case fip x of None \<Rightarrow> khalt Fault | Some ip \<Rightarrow>
       kbind (kget (\<lambda>s. foff (files s f))) (\<lambda>off.
       kbind (readi ip (User addr) off (of_int n)) (\<lambda>r.
       kseq (kwhen (r > 0) (upd_file f (\<lambda>x. x\<lparr>foff := foff x + of_int r\<rparr>))) (
       kseq (iunlock (fip x)) (kret r)))))
     else panic ''fileread'')"

text \<open>One turn of the loop of \<^verbatim>\<open>filewrite\<close>: \<open>Some i\<close> leaves the loop at \<open>i\<close>.\<close>

definition filewrite_max :: nat where
  "filewrite_max = ((MAXOPBLOCKS - 1 - 1 - 2) div 2) * BSIZE"

definition filewrite_one :: "nat \<Rightarrow> nat \<Rightarrow> uint64 \<Rightarrow> nat \<Rightarrow> nat \<Rightarrow> ('z file_state_scheme, nat option) km" where
  "filewrite_one f ip addr n i =
     (let n1 = min (n - i) filewrite_max in
      kseq begin_op (
      kseq (ilock (Some ip)) (
      kbind (kget (\<lambda>s. foff (files s f))) (\<lambda>off.
      kbind (writei ip (User (addr + of_nat i)) off (of_nat n1)) (\<lambda>r.
      kseq (kwhen (r > 0) (upd_file f (\<lambda>x. x\<lparr>foff := foff x + of_int r\<rparr>))) (
      kseq (iunlock (Some ip)) (
      kseq end_op (
      kret (if r \<noteq> int n1 then Some i else None)))))))))"

definition filewrite :: "nat \<Rightarrow> uint64 \<Rightarrow> int \<Rightarrow> ('z file_state_scheme, int) km" where
  "filewrite f addr n =
     kbind (kget (\<lambda>s. (files s f, dev_of (files s f) (devsw_write s)))) (\<lambda>(x, dev).
     if \<not> writable x then kret (-1)
     else if ftyp x = FD_PIPE then pipewrite (fpipe x) addr n
     else if ftyp x = FD_DEVICE then
       (case dev of None \<Rightarrow> kret (-1) | Some Dev_console \<Rightarrow> consolewrite (User addr) n)
     else if ftyp x = FD_INODE then
       (case fip x of
          None \<Rightarrow>
            if n > 0 then kseq begin_op (kseq (ilock None) (khalt Fault))
            else kret (if n = 0 then 0 else -1)
        | Some ip \<Rightarrow>
            kbind (kscan (filewrite_one f ip addr (nat n)) (chunk_starts filewrite_max (nat n))) (\<lambda>r.
            let i = (case r of Some i \<Rightarrow> int i | None \<Rightarrow> int (nat n)) in
            kret (if i = n then n else -1)))
     else panic ''filewrite'')"

subsection \<open>Machine operations and the fields of files and pipes\<close>

lemma file_touch [simp]:
  "files (touch s) = files s" "touch (s\<lparr>files := x0\<rparr>) = (touch s)\<lparr>files := x0\<rparr>"
  "pipes (touch s) = pipes s" "touch (s\<lparr>pipes := x1\<rparr>) = (touch s)\<lparr>pipes := x1\<rparr>"
  by (simp_all add: touch_def)

lemma file_entered [simp]:
  "files (entered lk s) = files s" "entered lk (s\<lparr>files := x0\<rparr>) = (entered lk s)\<lparr>files := x0\<rparr>"
  "pipes (entered lk s) = pipes s" "entered lk (s\<lparr>pipes := x1\<rparr>) = (entered lk s)\<lparr>pipes := x1\<rparr>"
  by (simp_all add: entered_def)

lemma file_left [simp]:
  "files (left lk s) = files s" "left lk (s\<lparr>files := x0\<rparr>) = (left lk s)\<lparr>files := x0\<rparr>"
  "pipes (left lk s) = pipes s" "left lk (s\<lparr>pipes := x1\<rparr>) = (left lk s)\<lparr>pipes := x1\<rparr>"
  by (simp_all add: left_def)

lemma file_lkok [simp]:
  "held (s\<lparr>files := x0\<rparr>) = held s" "lkok (s\<lparr>files := x0\<rparr>) = lkok s"
  "held (s\<lparr>pipes := x1\<rparr>) = held s" "lkok (s\<lparr>pipes := x1\<rparr>) = lkok s"
  by (simp_all add: held_def lkok_def holds_def lock_mine_def lock_free_def)

lemma file_wakeall [simp]:
  "files (wakeall c s) = files s" "wakeall c (s\<lparr>files := x0\<rparr>) = (wakeall c s)\<lparr>files := x0\<rparr>"
  "pipes (wakeall c s) = pipes s" "wakeall c (s\<lparr>pipes := x1\<rparr>) = (wakeall c s)\<lparr>pipes := x1\<rparr>"
  by (simp_all add: wakeall_def cong: if_cong)

subsection \<open>An example state\<close>

text \<open>The kernel of \<open>t\<close> with its static data zero, as at boot, and the list of buffers linked.\<close>

definition file_of :: "proc_state \<Rightarrow> file_state" where
  "file_of t = cons_state.extend (fs_state.extend (log_state.extend (bio_state.extend (pr_state.extend
     (sl_state.extend (vm_state.extend (proc_state.extend t
     \<lparr>kernel_pagetable = 0, etext = 0, trampoline = 0, forkret_pc = 0, satp = (\<lambda>_. 0), scratch = []\<rparr>)
     \<lparr>slocks = (\<lambda>_. \<lparr>slocked = False, slname = [], slpid = 0\<rparr>)\<rparr>)
     \<lparr>kout = []\<rparr>)
     \<lparr>bufs = bufs bio_ex, bnext = bnext bio_ex, bprev = bprev bio_ex, disk = disk bio_ex, dlog = []\<rparr>)
     \<lparr>log_start = 2, outstanding = 0, committing = False, log_dev = ROOTDEV, lh_n = 0, lh_block = replicate 30 0\<rparr>)
     \<lparr>sb = \<lparr>sb_magic = FSMAGIC, sb_size = 2000, sb_nblocks = 1953, sb_ninodes = 200, sb_nlog = 31, sb_logstart = 2,
        sb_inodestart = 33, sb_bmapstart = 46\<rparr>,
      inodes = (\<lambda>_. \<lparr>idev = 0, inum = 0, iref = 0, ivalid = False, itype = 0, imajor = 0, iminor = 0, inlink = 0,
        isize = 0, iaddrs = replicate 13 0\<rparr>)\<rparr>)
     \<lparr>uart_reg = (\<lambda>_. 0), uart_rx = [], tx_idle = True, tx_busy = False, cbuf = replicate 128 0, cr = 0, cw = 0, ce = 0,
      devsw_read = (\<lambda>_. None), devsw_write = (\<lambda>_. None)\<rparr>)
     \<lparr>files = (\<lambda>_. \<lparr>ftyp = FD_NONE, fref = 0, readable = False, writable = False, fpipe = 0, fip = None, foff = 0, fmajor = 0\<rparr>),
      pipes = (\<lambda>_. \<lparr>pdata = replicate 512 0, nread = 0, nwrite = 0, readopen = False, writeopen = False\<rparr>)\<rparr>"

lemmas file_of_extend = file_of_def proc_state.extend_def vm_state.extend_def sl_state.extend_def pr_state.extend_def
  bio_state.extend_def log_state.extend_def fs_state.extend_def cons_state.extend_def

lemma file_of_simps [simp]:
  "procs (file_of t) = procs t" "mem (file_of t) = mem t" "kend (file_of t) = kend t" "freelist (file_of t) = freelist t"
  "cpus (file_of t) = cpus t" "tp (file_of t) = tp t"
  by (simp_all add: file_of_extend)

lemma file_of_locks [simp]: "lkok (file_of t) = lkok t" "held (file_of t) = held t"
proof -
  have "holds H (file_of t) = holds H t" for H by (simp add: holds_def lock_free_def lock_mine_def file_of_extend)
  moreover show "held (file_of t) = held t" by (simp add: held_def lock_mine_def file_of_extend)
  ultimately show "lkok (file_of t) = lkok t" by (simp add: lkok_def)
qed

end
