(* ===== verification/Ringbuf.thy ===== *)
theory Ringbuf
  imports Xv6_Prelude
begin

section \<open>Ring buffers\<close>

text \<open>
  The pipe and the console keep bytes in an array indexed by free-running 32-bit counters modulo its
  size. \<open>ring cap buf r n\<close> is the queue of the \<open>n\<close> bytes from the counter \<open>r\<close> on; the locale
  \<open>ring_buffer\<close> is what a buffer with a reading and a writing counter promises to its users. The
  size divides \<open>2 ^ 32\<close>, so that the queue survives the counters' wrap-around.
\<close>

definition ring :: "nat \<Rightarrow> 'b list \<Rightarrow> 32 word \<Rightarrow> nat \<Rightarrow> 'b list" where
  "ring cap buf r n = map (\<lambda>k. buf ! (unat (r + of_nat k) mod cap)) [0..<n]"

lemma ring_pos: "cap dvd 2 ^ 32 \<Longrightarrow> unat (r + of_nat k :: 32 word) mod cap = (unat r + k) mod cap"
  by (simp add: unat_word_ariths unat_of_nat take_bit_eq_mod mod_mod_cancel mod_simps)

lemma ring_length [simp]: "length (ring cap buf r n) = n"
  by (simp add: ring_def)

lemma ring_0 [simp]: "ring cap buf r 0 = []"
  by (simp add: ring_def)

lemma ring_add: "ring cap buf r (m + n) = ring cap buf r m @ ring cap buf (r + of_nat m) n"
  by (induction n) (simp_all add: ring_def algebra_simps)

lemma ring_Suc: "ring cap buf r (Suc n) = buf ! (unat r mod cap) # ring cap buf (r + 1) n"
  using ring_add [of cap buf r 1 n] by (simp add: ring_def)

lemma ring_put_other:
  assumes "cap dvd 2 ^ 32" "m \<le> n" "n < cap"
  shows "ring cap (buf[unat (r + of_nat n) mod cap := c]) r m = ring cap buf r m"
proof -
  have "unat (r + of_nat k) mod cap \<noteq> unat (r + of_nat n) mod cap" if "k < m" for k
  proof
    assume "unat (r + of_nat k) mod cap = unat (r + of_nat n) mod cap"
    then have "(unat r + k) mod cap = (unat r + n) mod cap" using assms(1) by (simp add: ring_pos)
    then have "cap dvd n - k" using mod_eq_dvd_iff_nat [of "unat r + k" "unat r + n" cap] that assms(2) by simp
    then show False using that assms(2,3) by (auto dest: dvd_imp_le)
  qed
  then have "buf[unat (r + of_nat n) mod cap := c] ! (unat (r + of_nat k) mod cap) = buf ! (unat (r + of_nat k) mod cap)"
    if "k < m" for k using that by (metis nth_list_update_neq)
  then show ?thesis by (simp add: ring_def)
qed

lemma ring_put:
  assumes "cap dvd 2 ^ 32" "n < cap" "length buf = cap"
  shows "ring cap (buf[unat (r + of_nat n) mod cap := c]) r (Suc n) = ring cap buf r n @ [c]"
proof -
  have "unat (r + of_nat n) mod cap < length buf" using assms(2,3) by simp
  then show ?thesis
    using ring_add [of cap "buf[unat (r + of_nat n) mod cap := c]" r n 1] ring_put_other [OF assms(1) order_refl assms(2)]
    by (simp add: ring_def)
qed

locale ring_buffer =
  fixes cap :: nat
    and dat :: "'s \<Rightarrow> 'b list"
    and rd :: "'s \<Rightarrow> 32 word"
    and wr :: "'s \<Rightarrow> 32 word"
    and put :: "'b \<Rightarrow> 's \<Rightarrow> 's"
    and get :: "'s \<Rightarrow> 'b \<times> 's"
  assumes cap_dvd: "cap dvd 2 ^ 32" and cap_less: "cap < 2 ^ 32"
    and put_dat: "dat (put c s) = (dat s)[unat (wr s) mod cap := c]"
    and put_rd: "rd (put c s) = rd s" and put_wr: "wr (put c s) = wr s + 1"
    and get_fst: "fst (get s) = dat s ! (unat (rd s) mod cap)"
    and get_dat: "dat (snd (get s)) = dat s"
    and get_rd: "rd (snd (get s)) = rd s + 1" and get_wr: "wr (snd (get s)) = wr s"
begin

text \<open>The buffer has its size and holds no more than it.\<close>

lemma full_iff:
  assumes "unat (wr s - rd s) \<le> cap"
  shows "wr s = rd s + of_nat cap \<longleftrightarrow> unat (wr s - rd s) = cap"
proof -
  have c: "unat (of_nat cap :: 32 word) = cap" using cap_less by (simp add: unat_of_nat take_bit_nat_eq_self)
  have "wr s = rd s + of_nat cap \<longleftrightarrow> wr s - rd s = of_nat cap" by (auto simp: algebra_simps)
  also have "\<dots> \<longleftrightarrow> unat (wr s - rd s) = cap" using c by (metis unat_of_nat word_nat_cases word_unat_eq_iff)
  finally show ?thesis .
qed

lemma empty_iff: "rd s = wr s \<longleftrightarrow> unat (wr s - rd s) = 0"
  by (auto simp: unat_eq_zero)

lemma put_count:
  assumes "unat (wr s - rd s) < cap"
  shows "unat (wr (put c s) - rd (put c s)) = Suc (unat (wr s - rd s))"
proof -
  have "wr (put c s) - rd (put c s) = (wr s - rd s) + 1" by (simp add: put_wr put_rd)
  then show ?thesis using assms cap_less by (simp add: unat_word_ariths)
qed

lemma put_contents:
  assumes "length (dat s) = cap" "unat (wr s - rd s) < cap"
  shows "ring cap (dat (put c s)) (rd (put c s)) (unat (wr (put c s) - rd (put c s)))
    = ring cap (dat s) (rd s) (unat (wr s - rd s)) @ [c]"
proof -
  have "rd s + of_nat (unat (wr s - rd s)) = wr s" by simp
  then show ?thesis
    using ring_put [OF cap_dvd assms(2,1), of "rd s" c] put_count [OF assms(2), of c]
    by (simp add: put_dat put_rd)
qed

lemma get_contents:
  assumes "rd s \<noteq> wr s"
  shows "ring cap (dat s) (rd s) (unat (wr s - rd s))
    = fst (get s) # ring cap (dat (snd (get s))) (rd (snd (get s))) (unat (wr (snd (get s)) - rd (snd (get s))))"
proof -
  have "unat (wr s - rd s) \<noteq> 0" using assms empty_iff by blast
  then obtain n where n: "unat (wr s - rd s) = Suc n" by (cases "unat (wr s - rd s)") auto
  have "unat (wr s - (rd s + 1)) = n"
  proof -
    have "wr s - (rd s + 1) = (wr s - rd s) - 1" by simp
    then show ?thesis using n by (metis diff_Suc_1 unat_minus_one unat_eq_zero nat.distinct(1))
  qed
  then show ?thesis using n by (simp add: ring_Suc get_fst get_dat get_rd get_wr)
qed

lemma get_count:
  assumes "rd s \<noteq> wr s"
  shows "unat (wr s - rd s) = Suc (unat (wr (snd (get s)) - rd (snd (get s))))"
  using arg_cong [OF get_contents [OF assms], of length] by simp

end

end
