(* ===== verification/Pagetable.thy ===== *)
theory Pagetable
  imports Vm
begin

section \<open>Page tables as trees\<close>

text \<open>
  What \<^verbatim>\<open>walk\<close> does to memory. A page table is a tree of three levels of pages; \<open>wf_table\<close> says
  that its pages are different, aligned and inside the kernel's memory, \<open>vmok\<close> that moreover none
  of them is free. \<open>leaf m pt va\<close> is the entry that a walk for \<open>va\<close> finds, 0 if there is none. A
  walk that allocates keeps all of this and changes no leaf (\<open>walk_grows\<close>).
\<close>

subsection \<open>Page table entries\<close>

lemma bit_perm: "perm < 1024 \<Longrightarrow> bit (perm :: uint64) n \<Longrightarrow> n < 10"
proof (rule ccontr)
  assume p: "perm < 1024" and b: "bit perm n" "\<not> n < 10"
  have "perm = take_bit 10 perm"
    using p by (simp add: take_bit_eq_mod word_less_nat_alt word_unat_eq_iff unat_mod)
  then show False using b by (metis bit_take_bit_iff)
qed

lemma PTE2PA_make:
  assumes "aligned pa" "pa < 2 ^ 54" "perm < 1024"
  shows "PTE2PA (or (or (PA2PTE pa) perm) PTE_V) = pa"
proof -
  have lo: "\<not> bit pa n" if "n < 12" for n
  proof -
    have "pa = PGROUNDDOWN pa" using assms(1) by simp
    also have "\<dots> = push_bit 12 (drop_bit 12 pa)" by (rule PGROUNDDOWN_shift)
    finally show ?thesis using that by (metis bit_push_bit_iff not_le)
  qed
  have hi: "n < 54" if "bit pa n" for n
  proof (rule ccontr)
    assume "\<not> n < 54"
    moreover have "pa = take_bit 54 pa"
      using assms(2) by (simp add: take_bit_eq_mod word_less_nat_alt word_unat_eq_iff unat_mod)
    ultimately show False using that by (metis bit_take_bit_iff)
  qed
  have ge: "12 \<le> n" if "bit pa n" for n using lo that by (metis not_le)
  show ?thesis
  proof (rule bit_word_eqI)
    fix n assume "n < LENGTH(64)"
    then show "bit (PTE2PA (or (or (PA2PTE pa) perm) PTE_V)) n = bit pa n"
      using ge [of n] hi [of n] bit_perm [OF assms(3), of "n - 12 + 10"]
      by (auto simp: PTE2PA_def PA2PTE_def PTE_V_def bit_simps)
  qed
qed

lemma PTE_V_make: "and (or x PTE_V) PTE_V \<noteq> 0"
proof -
  have "bit (and (or x PTE_V) PTE_V) 0" by (simp add: PTE_V_def bit_simps)
  then show ?thesis by auto
qed

lemma PX_lt: "PX l va < 512"
proof -
  have "PX l va = take_bit 9 (drop_bit (12 + 9 * l) va)"
    by (simp add: PX_def take_bit_eq_mask mask_eq_exp_minus_1)
  then show ?thesis by (simp add: take_bit_eq_mod word_less_nat_alt unat_mod)
qed

lemma unat_PX: "unat (PX l va) = unat va div 2 ^ (12 + 9 * l) mod 512"
proof -
  have "PX l va = take_bit 9 (drop_bit (12 + 9 * l) va)"
    by (simp add: PX_def take_bit_eq_mask mask_eq_exp_minus_1)
  then show ?thesis by (simp add: take_bit_eq_mod unat_mod unat_drop_bit_eq flip: drop_bit_eq_div)
qed

text \<open>Entries in memory: different entries do not overlap.\<close>

lemma unat_pte_addr:
  assumes "aligned r" "k < 512"
  shows "unat (pte_addr r k) = unat r + 8 * unat k"
proof -
  have "unat r \<le> 2 ^ 64 - 4096"
  proof -
    obtain n where n: "unat r = 4096 * n" using assms(1) by (auto simp: aligned_def dvd_def)
    then have "n < 2 ^ 52" using unat64_less [of r] by simp
    then show ?thesis using n by simp
  qed
  moreover have "unat k < 512" using assms(2) by (simp add: word_less_nat_alt)
  ultimately show ?thesis by (simp add: pte_addr_def unat_word_ariths)
qed

lemma pte_addr_inject:
  assumes "aligned r" "aligned r'" "k < 512" "k' < 512"
  shows "pte_addr r k = pte_addr r' k' \<longleftrightarrow> r = r' \<and> k = k'"
proof
  assume eq: "pte_addr r k = pte_addr r' k'"
  obtain m n where mn: "unat r = 4096 * m" "unat r' = 4096 * n"
    using assms by (auto simp: aligned_def dvd_def)
  have "unat k < 512" "unat k' < 512" using assms(3,4) by (simp_all add: word_less_nat_alt)
  moreover have e: "512 * m + unat k = 512 * n + unat k'"
    using eq mn assms unat_pte_addr [of r k] unat_pte_addr [of r' k'] by simp
  ultimately have "m = n" using arg_cong [OF e, of "\<lambda>x. x div 512"] by simp
  with e have "m = n \<and> unat k = unat k'" by simp
  then show "r = r' \<and> k = k'" using mn by (simp add: word_unat_eq_iff)
qed simp

lemma load64_store64_pte:
  assumes "aligned r" "aligned r'" "k < 512" "k' < 512"
  shows "load64 (store64 m (pte_addr r k) w) (pte_addr r' k') =
    (if r = r' \<and> k = k' then w else load64 m (pte_addr r' k'))"
proof (cases "r = r' \<and> k = k'")
  case False
  have "8 dvd unat (pte_addr r k)" "8 dvd unat (pte_addr r' k')"
    using assms by (auto simp: unat_pte_addr aligned_def intro: dvd_trans [of 8 4096])
  then have "disjoint_range (pte_addr r' k') 8 (pte_addr r k) 8"
    using False pte_addr_inject [OF assms]
    unfolding disjoint_range_def by (intro allI impI dvd_apart) auto
  then show ?thesis using False by (auto simp: store64_def load64_write_other)
qed auto

lemma pte_in_page:
  assumes "aligned p" "aligned r" "p \<noteq> r" "k < 512"
  shows "disjoint_range (pte_addr r k) 8 p 4096"
  unfolding disjoint_range_def
proof (intro allI impI)
  fix i :: nat assume i: "i < 8"
  have k: "unat k < 512" using assms(4) by (simp add: word_less_nat_alt)
  have "of_nat (8 * unat k + i) = 8 * k + (of_nat i :: uint64)" by simp
  then have "pte_addr r k + of_nat i - p = r + of_nat (8 * unat k + i) - p"
    by (simp add: pte_addr_def add.assoc)
  moreover have "4096 \<le> unat (r + of_nat (8 * unat k + i) - p)"
    using assms i k by (intro pages_disjoint) auto
  ultimately show "4096 \<le> unat (pte_addr r k + of_nat i - p)" by (simp only:)
qed

lemma load64_memset_pte:
  "aligned p \<Longrightarrow> aligned r \<Longrightarrow> p \<noteq> r \<Longrightarrow> k < 512 \<Longrightarrow>
     load64 (memset m p c PGSIZE) (pte_addr r k) = load64 m (pte_addr r k)"
  by (simp add: memset_eq PGSIZE_def load64_write_other pte_in_page)

lemma load64_zero_page:
  assumes "k < 512"
  shows "load64 (memset m p 0 PGSIZE) (pte_addr p k) = 0"
proof -
  have k: "unat k < 512" using assms by (simp add: word_less_nat_alt)
  have "memset m p 0 PGSIZE (pte_addr p k + of_nat i) = 0" if "i < 8" for i
  proof -
    have "of_nat (8 * unat k + i) = 8 * k + (of_nat i :: uint64)" by simp
    then have "pte_addr p k + of_nat i - p = of_nat (8 * unat k + i)" by (simp add: pte_addr_def)
    then have "unat (pte_addr p k + of_nat i - p) = 8 * unat k + i"
      using that k by (simp add: unat_of_nat take_bit_nat_eq_self del: of_nat_add of_nat_mult)
    then show ?thesis using that k by (simp add: memset_eq PGSIZE_def mem_write_def)
  qed
  then have "mem_read (memset m p 0 PGSIZE) (pte_addr p k) 8 = replicate 8 0"
    by (intro nth_equalityI) auto
  then show ?thesis by (simp add: load64_def le_word_zeros)
qed

subsection \<open>The tree of tables\<close>

text \<open>
  The tables below \<open>pt\<close> by their indices: \<open>next_table m pt i\<close> is the level-1 table, \<open>tab0 m pt i j\<close>
  the level-0 table, \<open>entry m pt i j k\<close> the leaf entry (0 if a table on the way is missing).
\<close>

definition next_table :: "memory \<Rightarrow> uint64 \<Rightarrow> uint64 \<Rightarrow> uint64 option" where
  "next_table m pt i =
     (let e = load64 m (pte_addr pt i) in if and e PTE_V \<noteq> 0 then Some (PTE2PA e) else None)"

definition tab0 :: "memory \<Rightarrow> uint64 \<Rightarrow> uint64 \<Rightarrow> uint64 \<Rightarrow> uint64 option" where
  "tab0 m pt i j = (case next_table m pt i of None \<Rightarrow> None | Some q \<Rightarrow> next_table m q j)"

definition entry :: "memory \<Rightarrow> uint64 \<Rightarrow> uint64 \<Rightarrow> uint64 \<Rightarrow> uint64 \<Rightarrow> uint64" where
  "entry m pt i j k = (case tab0 m pt i j of None \<Rightarrow> 0 | Some r \<Rightarrow> load64 m (pte_addr r k))"

definition table_pages :: "memory \<Rightarrow> uint64 \<Rightarrow> uint64 set" where
  "table_pages m pt =
     {pt} \<union> {q. \<exists>i<512. next_table m pt i = Some q} \<union> {r. \<exists>i<512. \<exists>j<512. tab0 m pt i j = Some r}"

definition wf_table :: "uint64 \<Rightarrow> memory \<Rightarrow> uint64 \<Rightarrow> bool" where
  "wf_table e m pt \<longleftrightarrow>
     (\<forall>p\<in>table_pages m pt. page_ok e p) \<and>
     (\<forall>i<512. next_table m pt i \<noteq> Some pt) \<and>
     (\<forall>i<512. \<forall>i'<512. next_table m pt i = next_table m pt i' \<longrightarrow> next_table m pt i = None \<or> i = i') \<and>
     (\<forall>i<512. \<forall>j<512. tab0 m pt i j \<noteq> Some pt) \<and>
     (\<forall>i<512. \<forall>j<512. \<forall>i'<512. tab0 m pt i j = next_table m pt i' \<longrightarrow> tab0 m pt i j = None) \<and>
     (\<forall>i<512. \<forall>j<512. \<forall>i'<512. \<forall>j'<512. tab0 m pt i j = tab0 m pt i' j' \<longrightarrow>
        tab0 m pt i j = None \<or> i = i' \<and> j = j')"

lemma wf_table_aligned: "wf_table e m pt \<Longrightarrow> p \<in> table_pages m pt \<Longrightarrow> aligned p"
  by (auto simp: wf_table_def page_ok_def)

lemma table_pages_pt [simp]: "pt \<in> table_pages m pt"
  by (simp add: table_pages_def)

lemma table_pages_next: "i < 512 \<Longrightarrow> next_table m pt i = Some q \<Longrightarrow> q \<in> table_pages m pt"
  by (auto simp: table_pages_def)

lemma table_pages_tab0: "i < 512 \<Longrightarrow> j < 512 \<Longrightarrow> tab0 m pt i j = Some r \<Longrightarrow> r \<in> table_pages m pt"
  by (auto simp: table_pages_def)

text \<open>The tree depends only on the entries in its own pages.\<close>

lemma tree_cong:
  assumes "\<And>p k. p \<in> table_pages m pt \<Longrightarrow> k < 512 \<Longrightarrow>
      load64 m' (pte_addr p k) = load64 m (pte_addr p k)"
  shows "i < 512 \<Longrightarrow> next_table m' pt i = next_table m pt i"
    and "i < 512 \<Longrightarrow> j < 512 \<Longrightarrow> tab0 m' pt i j = tab0 m pt i j"
    and "i < 512 \<Longrightarrow> j < 512 \<Longrightarrow> k < 512 \<Longrightarrow> entry m' pt i j k = entry m pt i j k"
proof -
  show n: "next_table m' pt i = next_table m pt i" if "i < 512" for i
    using that assms by (simp add: next_table_def)
  show t: "tab0 m' pt i j = tab0 m pt i j" if "i < 512" "j < 512" for i j
  proof (cases "next_table m pt i")
    case (Some q)
    then have "q \<in> table_pages m pt" using that by (auto intro: table_pages_next)
    then show ?thesis using Some n that assms by (simp add: tab0_def next_table_def)
  qed (simp add: tab0_def n that)
  show "entry m' pt i j k = entry m pt i j k" if "i < 512" "j < 512" "k < 512" for i j k
  proof (cases "tab0 m pt i j")
    case (Some r)
    then have "r \<in> table_pages m pt" using that by (auto intro: table_pages_tab0)
    then show ?thesis using Some t that assms by (simp add: entry_def)
  qed (simp add: entry_def t that)
qed

lemma tree_cong_wf:
  assumes n: "\<And>i. i < 512 \<Longrightarrow> next_table m' pt i = next_table m pt i"
    and t: "\<And>i j. i < 512 \<Longrightarrow> j < 512 \<Longrightarrow> tab0 m' pt i j = tab0 m pt i j"
  shows "table_pages m' pt = table_pages m pt" and "wf_table e m' pt = wf_table e m pt"
proof -
  show pages: "table_pages m' pt = table_pages m pt"
    using n t by (auto simp: table_pages_def)
  show "wf_table e m' pt = wf_table e m pt"
    using n t unfolding wf_table_def pages by (simp cong: conj_cong imp_cong)
qed

lemma wf_insert2:
  assumes wf: "wf_table e m pt" and p: "page_ok e p" "p \<notin> table_pages m pt"
    and i: "i < 512" "next_table m pt i = None"
    and n: "\<And>i'. i' < 512 \<Longrightarrow> next_table m' pt i' = (if i' = i then Some p else next_table m pt i')"
    and t: "\<And>i' j. i' < 512 \<Longrightarrow> j < 512 \<Longrightarrow> tab0 m' pt i' j = tab0 m pt i' j"
  shows "table_pages m' pt = insert p (table_pages m pt)" and "wf_table e m' pt"
proof -
  have fresh: "p \<noteq> pt" "\<And>i. i < 512 \<Longrightarrow> next_table m pt i \<noteq> Some p"
    "\<And>i j. i < 512 \<Longrightarrow> j < 512 \<Longrightarrow> tab0 m pt i j \<noteq> Some p"
    using p(2) by (auto simp: table_pages_def)
  show pages: "table_pages m' pt = insert p (table_pages m pt)"
  proof (rule set_eqI)
    fix x
    have "(\<exists>a<512. next_table m' pt a = Some x) \<longleftrightarrow> x = p \<or> (\<exists>a<512. next_table m pt a = Some x)"
      using i n by (metis option.distinct(1) option.inject)
    moreover have "(\<exists>a<512. \<exists>b<512. tab0 m' pt a b = Some x) \<longleftrightarrow>
        (\<exists>a<512. \<exists>b<512. tab0 m pt a b = Some x)"
      using t by metis
    ultimately show "x \<in> table_pages m' pt \<longleftrightarrow> x \<in> insert p (table_pages m pt)"
      unfolding table_pages_def by auto
  qed
  show "wf_table e m' pt"
    unfolding wf_table_def pages
  proof (intro conjI allI impI ballI)
    fix q assume "q \<in> insert p (table_pages m pt)"
    then show "page_ok e q" using wf p(1) by (auto simp: wf_table_def)
  next
    fix i' :: uint64 assume "i' < 512"
    then show "next_table m' pt i' \<noteq> Some pt" using wf fresh(1) by (auto simp: wf_table_def n)
  next
    fix a b :: uint64 assume ab: "a < 512" "b < 512" "next_table m' pt a = next_table m' pt b"
    then show "next_table m' pt a = None \<or> a = b"
      using wf fresh(2) [of a] fresh(2) [of b] by (auto simp: wf_table_def n split: if_splits)
  next
    fix a b :: uint64 assume "a < 512" "b < 512"
    then show "tab0 m' pt a b \<noteq> Some pt" using wf by (auto simp: wf_table_def t)
  next
    fix a b c :: uint64 assume "a < 512" "b < 512" "c < 512" "tab0 m' pt a b = next_table m' pt c"
    then show "tab0 m' pt a b = None"
      using wf fresh(3) [of a b] by (auto simp: wf_table_def n t split: if_splits)
  next
    fix a b c d :: uint64
    assume "a < 512" "b < 512" "c < 512" "d < 512" "tab0 m' pt a b = tab0 m' pt c d"
    then show "tab0 m' pt a b = None \<or> a = c \<and> b = d" using wf by (auto simp: wf_table_def t)
  qed
qed

lemma wf_insert1:
  assumes wf: "wf_table e m pt" and p: "page_ok e p" "p \<notin> table_pages m pt"
    and i: "i < 512" "j < 512" "tab0 m pt i j = None"
    and n: "\<And>i'. i' < 512 \<Longrightarrow> next_table m' pt i' = next_table m pt i'"
    and t: "\<And>i' j'. i' < 512 \<Longrightarrow> j' < 512 \<Longrightarrow>
      tab0 m' pt i' j' = (if i' = i \<and> j' = j then Some p else tab0 m pt i' j')"
  shows "table_pages m' pt = insert p (table_pages m pt)" and "wf_table e m' pt"
proof -
  have fresh: "p \<noteq> pt" "\<And>i. i < 512 \<Longrightarrow> next_table m pt i \<noteq> Some p"
    "\<And>i j. i < 512 \<Longrightarrow> j < 512 \<Longrightarrow> tab0 m pt i j \<noteq> Some p"
    using p(2) by (auto simp: table_pages_def)
  have t': "tab0 m' pt i j = Some p" using i t by simp
  show pages: "table_pages m' pt = insert p (table_pages m pt)"
  proof (rule set_eqI)
    fix x
    show "x \<in> table_pages m' pt \<longleftrightarrow> x \<in> insert p (table_pages m pt)"
      using i n t t' unfolding table_pages_def
      by (auto split: if_splits) (metis option.distinct(1))+
  qed
  show "wf_table e m' pt"
    unfolding wf_table_def pages
  proof (intro conjI allI impI ballI)
    fix q assume "q \<in> insert p (table_pages m pt)"
    then show "page_ok e q" using wf p(1) by (auto simp: wf_table_def)
  next
    fix i' :: uint64 assume "i' < 512"
    then show "next_table m' pt i' \<noteq> Some pt" using wf by (auto simp: wf_table_def n)
  next
    fix a b :: uint64 assume ab: "a < 512" "b < 512" "next_table m' pt a = next_table m' pt b"
    then show "next_table m' pt a = None \<or> a = b" using wf by (auto simp: wf_table_def n)
  next
    fix a b :: uint64 assume "a < 512" "b < 512"
    then show "tab0 m' pt a b \<noteq> Some pt" using wf fresh(1) by (auto simp: wf_table_def t)
  next
    fix a b c :: uint64 assume "a < 512" "b < 512" "c < 512" "tab0 m' pt a b = next_table m' pt c"
    then show "tab0 m' pt a b = None"
      using wf fresh(2) [of c] by (auto simp: wf_table_def n t split: if_splits)
  next
    fix a b c d :: uint64
    assume "a < 512" "b < 512" "c < 512" "d < 512" "tab0 m' pt a b = tab0 m' pt c d"
    then show "tab0 m' pt a b = None \<or> a = c \<and> b = d"
      using wf fresh(3) [of a b] fresh(3) [of c d] by (auto simp: wf_table_def t split: if_splits)
  qed
qed

lemmas wf_table_parts =
  wf_table_def [THEN iffD1, THEN conjunct2, THEN conjunct2, THEN conjunct1]
  wf_table_def [THEN iffD1, THEN conjunct2, THEN conjunct2, THEN conjunct2, THEN conjunct2,
    THEN conjunct1]
  wf_table_def [THEN iffD1, THEN conjunct2, THEN conjunct2, THEN conjunct2, THEN conjunct2,
    THEN conjunct2]

lemma wf_next_inj:
  "wf_table e m pt \<Longrightarrow> i < 512 \<Longrightarrow> i' < 512 \<Longrightarrow> next_table m pt i = Some q \<Longrightarrow>
     next_table m pt i' = Some q \<Longrightarrow> i = i'"
  by (drule wf_table_parts(1)) force

lemma wf_tab0_next:
  "wf_table e m pt \<Longrightarrow> i < 512 \<Longrightarrow> j < 512 \<Longrightarrow> i' < 512 \<Longrightarrow> tab0 m pt i j = Some r \<Longrightarrow>
     next_table m pt i' = Some q \<Longrightarrow> r \<noteq> q"
  by (drule wf_table_parts(2)) force

lemma wf_tab0_inj:
  assumes "wf_table e m pt" "i < 512" "j < 512" "i' < 512" "j' < 512"
    "tab0 m pt i j = Some r" "tab0 m pt i' j' = Some r"
  shows "i = i' \<and> j = j'"
  using wf_table_parts(3) [OF assms(1), rule_format, OF assms(2-5)] assms(6,7) by simp

lemma PHYSTOP_small: "page_ok e p \<Longrightarrow> p < 2 ^ 54"
  by (auto simp: page_ok_def word_less_nat_alt unat_PHYSTOP)

lemma new_table_entry:
  assumes "page_ok e p"
  shows "PTE2PA (or (PA2PTE p) PTE_V) = p" "and (or (PA2PTE p) PTE_V) PTE_V \<noteq> 0"
  using PTE2PA_make [of p 0] PHYSTOP_small [OF assms] assms PTE_V_make
  by (auto simp: page_ok_def)

lemma next_table_zero: "load64 m (pte_addr p j) = 0 \<Longrightarrow> next_table m p j = None"
  by (simp add: next_table_def)

definition linked :: "uint64 \<Rightarrow> uint64 \<Rightarrow> uint64 \<Rightarrow> memory \<Rightarrow> memory" where
  "linked p q i m = store64 (memset m p 0 PGSIZE) (pte_addr q i) (or (PA2PTE p) PTE_V)"

lemma load64_linked:
  assumes "aligned p" "aligned q" "p \<noteq> q" "i < 512" "aligned x" "k < 512"
  shows "load64 (linked p q i m) (pte_addr x k) =
    (if x = q \<and> k = i then or (PA2PTE p) PTE_V
     else if x = p then 0 else load64 m (pte_addr x k))"
  using assms by (auto simp: linked_def load64_store64_pte load64_zero_page load64_memset_pte)

lemma next_table_linked:
  assumes "page_ok e p" "aligned q" "p \<noteq> q" "i < 512" "aligned x" "k < 512"
  shows "next_table (linked p q i m) x k =
    (if x = q \<and> k = i then Some p else if x = p then None else next_table m x k)"
  using assms new_table_entry [OF assms(1)]
  by (auto simp: next_table_def Let_def load64_linked page_ok_def)

lemma link2:
  assumes wf: "wf_table e m pt" and p: "page_ok e p" "p \<notin> table_pages m pt"
    and i: "i < 512" "next_table m pt i = None"
  defines "m' \<equiv> linked p pt i m"
  shows "i' < 512 \<Longrightarrow> next_table m' pt i' = (if i' = i then Some p else next_table m pt i')"
    and "i' < 512 \<Longrightarrow> j < 512 \<Longrightarrow> tab0 m' pt i' j = tab0 m pt i' j"
    and "i' < 512 \<Longrightarrow> j < 512 \<Longrightarrow> k < 512 \<Longrightarrow> entry m' pt i' j k = entry m pt i' j k"
proof -
  have al: "aligned x" "x \<noteq> p" if "x \<in> table_pages m pt" for x
    using wf_table_aligned [OF wf that] p(2) that by auto
  have pt: "aligned pt" "p \<noteq> pt" using al [of pt] by auto
  have pa: "aligned p" using p(1) by (simp add: page_ok_def)
  show n: "next_table m' pt i' = (if i' = i then Some p else next_table m pt i')"
    if "i' < 512" for i'
    using that pt i by (simp add: m'_def next_table_linked [OF p(1)])
  show t: "tab0 m' pt i' j = tab0 m pt i' j" if "i' < 512" "j < 512" for i' j
  proof (cases "next_table m pt i'")
    case None
    then show ?thesis using n that pt pa i
      by (auto simp: tab0_def m'_def next_table_linked [OF p(1)])
  next
    case (Some q)
    then have "q \<noteq> pt" "i' \<noteq> i" using wf that i by (auto simp: wf_table_def)
    moreover have "aligned q" "q \<noteq> p" using Some al that by (auto intro: table_pages_next)
    ultimately show ?thesis using Some n that pt i
      by (simp add: tab0_def m'_def next_table_linked [OF p(1)])
  qed
  show "entry m' pt i' j k = entry m pt i' j k" if "i' < 512" "j < 512" "k < 512"
  proof (cases "tab0 m pt i' j")
    case (Some r)
    then have "r \<noteq> pt" using wf that by (auto simp: wf_table_def)
    moreover have "aligned r" "r \<noteq> p" using Some al that by (auto intro: table_pages_tab0)
    ultimately show ?thesis using Some t that pt i pa by (simp add: entry_def m'_def load64_linked)
  qed (simp add: entry_def t that)
qed

lemma link1:
  assumes wf: "wf_table e m pt" and p: "page_ok e p" "p \<notin> table_pages m pt"
    and i: "i < 512" "j < 512" "next_table m pt i = Some q" "next_table m q j = None"
  defines "m' \<equiv> linked p q j m"
  shows "i' < 512 \<Longrightarrow> next_table m' pt i' = next_table m pt i'"
    and "i' < 512 \<Longrightarrow> j' < 512 \<Longrightarrow>
      tab0 m' pt i' j' = (if i' = i \<and> j' = j then Some p else tab0 m pt i' j')"
    and "i' < 512 \<Longrightarrow> j' < 512 \<Longrightarrow> k < 512 \<Longrightarrow> entry m' pt i' j' k = entry m pt i' j' k"
proof -
  have al: "aligned x" "x \<noteq> p" if "x \<in> table_pages m pt" for x
    using wf_table_aligned [OF wf that] p(2) that by auto
  have pt: "aligned pt" "p \<noteq> pt" using al [of pt] by auto
  have pa: "aligned p" using p(1) by (simp add: page_ok_def)
  have q: "aligned q" "q \<noteq> p" "q \<noteq> pt"
    using al [OF table_pages_next [OF i(1,3)]] wf i(1,3) by (auto simp: wf_table_def)
  show n: "next_table m' pt i' = next_table m pt i'" if "i' < 512" for i'
    using that pt q i by (simp add: m'_def next_table_linked [OF p(1)])
  show t: "tab0 m' pt i' j' = (if i' = i \<and> j' = j then Some p else tab0 m pt i' j')"
    if "i' < 512" "j' < 512" for i' j'
  proof (cases "next_table m pt i'")
    case None
    then show ?thesis using n that i by (auto simp: tab0_def)
  next
    case (Some r)
    have "aligned r" "r \<noteq> p" using Some al that by (auto intro: table_pages_next)
    moreover have "r = q \<longleftrightarrow> i' = i"
      using wf_next_inj [OF wf that(1) i(1) Some] Some i(3) by auto
    ultimately show ?thesis using Some n that q i
      by (auto simp: tab0_def m'_def next_table_linked [OF p(1)])
  qed
  have none: "tab0 m pt i j = None" using i by (simp add: tab0_def)
  show "entry m' pt i' j' k = entry m pt i' j' k" if "i' < 512" "j' < 512" "k < 512"
  proof (cases "tab0 m pt i' j'")
    case None
    then show ?thesis using that t q pa i by (auto simp: entry_def m'_def load64_linked)
  next
    case (Some r)
    then have "r \<noteq> q" using wf_tab0_next [OF wf that(1,2) i(1) _ i(3)] by auto
    moreover have "aligned r" "r \<noteq> p" using Some al that by (auto intro: table_pages_tab0)
    ultimately show ?thesis using Some t that q i pa none
      by (auto simp: entry_def m'_def load64_linked)
  qed
qed

lemma set_leaf:
  fixes w :: uint64
  assumes wf: "wf_table e m pt" and i: "i < 512" "j < 512" "k < 512" "tab0 m pt i j = Some r"
  defines "m' \<equiv> store64 m (pte_addr r k) w"
  shows "i' < 512 \<Longrightarrow> next_table m' pt i' = next_table m pt i'"
    and "i' < 512 \<Longrightarrow> j' < 512 \<Longrightarrow> tab0 m' pt i' j' = tab0 m pt i' j'"
    and "i' < 512 \<Longrightarrow> j' < 512 \<Longrightarrow> k' < 512 \<Longrightarrow>
      entry m' pt i' j' k' = (if i' = i \<and> j' = j \<and> k' = k then w else entry m pt i' j' k')"
proof -
  have al: "aligned x" if "x \<in> table_pages m pt" for x using wf_table_aligned [OF wf that] .
  have r: "aligned r" "r \<noteq> pt" using al [OF table_pages_tab0 [OF i(1,2,4)]] wf i
    by (auto simp: wf_table_def)
  show n: "next_table m' pt i' = next_table m pt i'" if "i' < 512" for i'
    using that r i al [of pt] by (simp add: next_table_def m'_def load64_store64_pte)
  show t: "tab0 m' pt i' j' = tab0 m pt i' j'" if "i' < 512" "j' < 512" for i' j'
  proof (cases "next_table m pt i'")
    case (Some q)
    have "q \<noteq> r" using wf_tab0_next [OF wf i(1,2) that(1) i(4) Some] by simp
    moreover have "aligned q" using Some al that by (auto intro: table_pages_next)
    ultimately show ?thesis using Some n that r i
      by (simp add: tab0_def next_table_def m'_def load64_store64_pte)
  qed (simp add: tab0_def n that)
  show "entry m' pt i' j' k' = (if i' = i \<and> j' = j \<and> k' = k then w else entry m pt i' j' k')"
    if "i' < 512" "j' < 512" "k' < 512"
  proof (cases "tab0 m pt i' j'")
    case None
    then show ?thesis using t that i by (auto simp: entry_def)
  next
    case (Some x)
    have "x = r \<longleftrightarrow> i' = i \<and> j' = j"
      using wf_tab0_inj [OF wf that(1,2) i(1,2) Some] Some i(4) by auto
    moreover have "aligned x" using Some al that by (auto intro: table_pages_tab0)
    ultimately show ?thesis using Some t that r i by (auto simp: entry_def m'_def load64_store64_pte)
  qed
qed

subsection \<open>Walking with allocation\<close>

definition leaf :: "memory \<Rightarrow> uint64 \<Rightarrow> uint64 \<Rightarrow> uint64" where
  "leaf m pt va = entry m pt (PX 2 va) (PX 1 va) (PX 0 va)"

definition vmok :: "'z kmem_state_scheme \<Rightarrow> uint64 \<Rightarrow> uint64 list \<Rightarrow> bool" where
  "vmok s pt ps \<longleftrightarrow>
     lkok s \<and> Lk_kmem \<notin> held s \<and> kmem_inv s ps \<and> wf_table (kend s) (mem s) pt \<and>
     table_pages (mem s) pt \<inter> set ps = {}"

text \<open>Nothing but memory and the free list (and the saved interrupt flag) has changed.\<close>

definition kmem_only :: "'z kmem_state_scheme \<Rightarrow> 'z kmem_state_scheme \<Rightarrow> bool" where
  "kmem_only s t \<longleftrightarrow>
     t\<lparr>mem := mem s, freelist := freelist s\<rparr> = s \<or>
     t\<lparr>mem := mem s, freelist := freelist s\<rparr> = touch s"

definition same_but :: "uint64 set \<Rightarrow> memory \<Rightarrow> memory \<Rightarrow> bool" where
  "same_but X m m' \<longleftrightarrow> (\<forall>a. PGROUNDDOWN a \<notin> X \<longrightarrow> m' a = m a)"

lemma kmem_only_refl [simp]: "kmem_only s s" "kmem_only s (touch s)"
  by (simp_all add: kmem_only_def)

lemma kmem_only_upd [simp]:
  "kmem_only s (t\<lparr>mem := m\<rparr>) = kmem_only s t" "kmem_only s (t\<lparr>freelist := f\<rparr>) = kmem_only s t"
  by (simp_all add: kmem_only_def)

lemma kmem_only_trans:
  assumes "kmem_only s t" "kmem_only t u"
  shows "kmem_only s u"
proof -
  let ?r = "\<lambda>x. x\<lparr>mem := mem s, freelist := freelist s\<rparr>"
  have "?r u = ?r (u\<lparr>mem := mem t, freelist := freelist t\<rparr>)" by simp
  moreover have "?r (touch t) = touch (?r t)" by simp
  ultimately have "?r u = ?r t \<or> ?r u = touch (?r t)"
    using assms(2) unfolding kmem_only_def by metis
  then show ?thesis using assms(1) unfolding kmem_only_def by (metis touch_touch)
qed

lemma kmem_only_kalloced [simp]: "kmem_only s (kalloced p s)" "kmem_only s (kfreed p s)"
  by (simp_all add: kalloced_def kfreed_def)

lemma kmem_only_simps:
  assumes "kmem_only s t"
  shows "kend t = kend s" "held t = held s" "lkok t = lkok s" "tp t = tp s"
    "cproc (cpus t c) = cproc (cpus s c)" "noff (cpus t c) = noff (cpus s c)"
proof -
  let ?r = "t\<lparr>mem := mem s, freelist := freelist s\<rparr>"
  have "kend ?r = kend s" "held ?r = held s" "lkok ?r = lkok s" "tp ?r = tp s"
    "cproc (cpus ?r c) = cproc (cpus s c)" "noff (cpus ?r c) = noff (cpus s c)"
    using assms unfolding kmem_only_def by (auto simp only: kmem_touch held_touch lkok_touch
      tp_simps cproc_simps mynoff_simps)
  then show "kend t = kend s" "held t = held s" "lkok t = lkok s" "tp t = tp s"
    "cproc (cpus t c) = cproc (cpus s c)" "noff (cpus t c) = noff (cpus s c)" by simp_all
qed

lemma walk_level_hit:
  "next_table (mem s) q (PX l va) = Some r \<Longrightarrow> walk_level alloc va l q s = Ret (Some r) s"
  by (auto simp: walk_level_def next_table_def Let_def split: if_splits)

lemma walk_level_miss:
  "next_table (mem s) q (PX l va) = None \<Longrightarrow> walk_level False va l q s = Ret None s"
  by (auto simp: walk_level_def next_table_def Let_def split: if_splits)

lemma walk_level_new:
  assumes "lkok s" "Lk_kmem \<notin> held s" "next_table (mem s) q (PX l va) = None"
  shows "walk_level True va l q s = (if freelist s = 0 then Ret None (touch s)
    else let p = freelist s; t = kalloced p s in
      Ret (Some p) (t\<lparr>mem := linked p q (PX l va) (mem t)\<rparr>))"
proof -
  have k: "kalloc s = (if freelist s = 0 then Ret 0 (touch s)
      else Ret (freelist s) (kalloced (freelist s) s))"
    using assms(1,2) by (intro kalloc_eq [of "held s"]) (auto simp: lkok_def)
  show ?thesis
    using assms(3)
    by (auto simp: walk_level_def next_table_def Let_def k set_mem_def linked_def split: if_splits)
qed

lemma same_but_trans:
  "same_but X m m' \<Longrightarrow> same_but Y m' m'' \<Longrightarrow> X \<subseteq> Z \<Longrightarrow> Y \<subseteq> Z \<Longrightarrow> same_but Z m m''"
  unfolding same_but_def by (metis subsetD)

lemma same_but_refl [simp]: "same_but X m m"
  by (simp add: same_but_def)

lemma unat_add_small:
  fixes a b :: uint64
  shows "unat a + unat b < 2 ^ 64 \<Longrightarrow> unat (a + b) = unat a + unat b"
  by (simp add: unat_word_ariths)

lemma PGROUNDDOWN_in_page:
  assumes "aligned p" "unat (a - p) < 4096"
  shows "PGROUNDDOWN a = p"
proof -
  have "unat a = unat p + unat (a - p)"
  proof -
    obtain n where n: "unat p = 4096 * n" using assms(1) by (auto simp: aligned_def dvd_def)
    then have "n < 2 ^ 52" using unat64_less [of p] by simp
    then have "unat p + unat (a - p) < 2 ^ 64" using n assms(2) by simp
    then have "unat (p + (a - p)) = unat p + unat (a - p)" by (rule unat_add_small)
    moreover have "p + (a - p) = a" by simp
    ultimately show ?thesis by metis
  qed
  then have "unat a div 4096 * 4096 = unat p"
    using assms by (auto simp: aligned_def dvd_def)
  then show ?thesis by (simp add: word_unat_eq_iff unat_PGROUNDDOWN)
qed

lemma same_but_memset: "aligned p \<Longrightarrow> same_but {p} m (memset m p c PGSIZE)"
  by (auto simp: same_but_def memset_eq PGSIZE_def mem_write_def intro: PGROUNDDOWN_in_page)

lemma same_but_store_pte:
  assumes "aligned q" "k < 512"
  shows "same_but {q} m (store64 m (pte_addr q k) w)"
  unfolding same_but_def
proof (intro allI impI)
  fix a assume a: "PGROUNDDOWN a \<notin> {q}"
  have k: "unat k < 512" using assms(2) by (simp add: word_less_nat_alt)
  have "\<not> unat (a - pte_addr q k) < 8"
  proof
    assume 8: "unat (a - pte_addr q k) < 8"
    have k8: "unat (8 * k) = 8 * unat k" using k by (simp add: unat_word_ariths)
    then have "unat (8 * k + (a - pte_addr q k)) = 8 * unat k + unat (a - pte_addr q k)"
      using 8 k by (subst unat_add_small) auto
    moreover have "8 * k + (a - pte_addr q k) = a - q" by (simp add: pte_addr_def)
    ultimately have "unat (a - q) = 8 * unat k + unat (a - pte_addr q k)" by metis
    then have "unat (a - q) < 4096" using 8 k by simp
    then show False using a assms(1) PGROUNDDOWN_in_page by simp
  qed
  then show "store64 m (pte_addr q k) w a = m a" by (simp add: store64_def mem_write_def)
qed

lemma same_but_linked:
  "aligned p \<Longrightarrow> aligned q \<Longrightarrow> k < 512 \<Longrightarrow> same_but {p, q} m (linked p q k m)"
  unfolding linked_def
  by (rule same_but_trans [OF same_but_memset same_but_store_pte]) auto

lemma freelist_linked:
  assumes "page_ok e p" "aligned q" "p \<noteq> q" "i < 512"
    "\<And>x. x \<in> set ps \<Longrightarrow> aligned x \<and> x \<noteq> p \<and> x \<noteq> q"
  shows "freelist_rep (linked p q i m) f ps = freelist_rep m f ps"
proof (rule freelist_rep_cong)
  fix x assume "x \<in> set ps"
  then show "load64 (linked p q i m) x = load64 m x"
    using assms load64_linked [of p q i x 0 m] by (simp add: page_ok_def pte_addr_def)
qed

text \<open>The allocator hands out a page that the tree does not use, and the tree is as it was.\<close>

lemma vmok_kalloced:
  assumes "vmok s pt (p # ps)"
  shows "vmok (kalloced p s) pt ps" "page_ok (kend s) p" "p \<notin> set ps"
    "p \<notin> table_pages (mem s) pt"
    "table_pages (mem (kalloced p s)) pt = table_pages (mem s) pt"
    "i < 512 \<Longrightarrow> next_table (mem (kalloced p s)) pt i = next_table (mem s) pt i"
    "i < 512 \<Longrightarrow> j < 512 \<Longrightarrow> tab0 (mem (kalloced p s)) pt i j = tab0 (mem s) pt i j"
    "i < 512 \<Longrightarrow> j < 512 \<Longrightarrow> k < 512 \<Longrightarrow>
      entry (mem (kalloced p s)) pt i j k = entry (mem s) pt i j k"
proof -
  have wf: "wf_table (kend s) (mem s) pt" and inv: "kmem_inv s (p # ps)"
    using assms by (auto simp: vmok_def)
  show p: "page_ok (kend s) p" and "p \<notin> set ps" using inv by (auto simp: kmem_inv_def)
  show fresh: "p \<notin> table_pages (mem s) pt" using assms by (auto simp: vmok_def)
  have al: "aligned p" using p by (simp add: page_ok_def)
  have ld: "load64 (mem (kalloced p s)) (pte_addr q k) = load64 (mem s) (pte_addr q k)"
    if "q \<in> table_pages (mem s) pt" "k < 512" for q k
  proof -
    have "p \<noteq> q" using that fresh by auto
    then show ?thesis using al wf_table_aligned [OF wf that(1)] that(2)
      by (simp add: kalloced_def load64_memset_pte)
  qed
  note c = tree_cong [OF ld]
  show "i < 512 \<Longrightarrow> next_table (mem (kalloced p s)) pt i = next_table (mem s) pt i"
    "i < 512 \<Longrightarrow> j < 512 \<Longrightarrow> tab0 (mem (kalloced p s)) pt i j = tab0 (mem s) pt i j"
    "i < 512 \<Longrightarrow> j < 512 \<Longrightarrow> k < 512 \<Longrightarrow>
      entry (mem (kalloced p s)) pt i j k = entry (mem s) pt i j k"
    using c by auto
  note w = tree_cong_wf [of "mem (kalloced p s)" pt "mem s", OF c(1,2)]
  show tp: "table_pages (mem (kalloced p s)) pt = table_pages (mem s) pt" using w(1) by simp
  have "wf_table (kend s) (mem (kalloced p s)) pt" using w(2) wf by simp
  then show "vmok (kalloced p s) pt ps"
    using assms kalloced_inv [OF inv] tp
    by (auto simp: vmok_def kmem_only_simps [OF kmem_only_kalloced(1)])
qed

definition extends ::
  "uint64 \<Rightarrow> 'z kmem_state_scheme \<Rightarrow> uint64 list \<Rightarrow> 'z kmem_state_scheme \<Rightarrow> uint64 list \<Rightarrow> bool" where
  "extends pt s ps t ps' \<longleftrightarrow>
     vmok t pt ps' \<and> kmem_only s t \<and> (\<exists>us. ps = us @ ps') \<and>
     table_pages (mem s) pt \<subseteq> table_pages (mem t) pt \<and>
     table_pages (mem t) pt \<subseteq> table_pages (mem s) pt \<union> set ps \<and>
     same_but (table_pages (mem s) pt \<union> set ps) (mem s) (mem t)"

definition grows ::
  "uint64 \<Rightarrow> 'z kmem_state_scheme \<Rightarrow> uint64 list \<Rightarrow> 'z kmem_state_scheme \<Rightarrow> uint64 list \<Rightarrow> bool" where
  "grows pt s ps t ps' \<longleftrightarrow>
     extends pt s ps t ps' \<and> (\<forall>va. leaf (mem t) pt va = leaf (mem s) pt va)"

lemma vmok_touch [simp]: "vmok (touch s) pt ps = vmok s pt ps"
  by (simp add: vmok_def)

lemma extends_refl: "vmok s pt ps \<Longrightarrow> extends pt s ps s ps"
  by (simp add: extends_def)

lemma grows_refl: "vmok s pt ps \<Longrightarrow> grows pt s ps s ps" "vmok s pt ps \<Longrightarrow> grows pt s ps (touch s) ps"
  by (simp_all add: grows_def extends_def)

lemma extends_trans:
  assumes "extends pt s ps t qs" "extends pt t qs u rs"
  shows "extends pt s ps u rs"
proof -
  obtain us vs where ps: "ps = us @ qs" "qs = vs @ rs" using assms by (auto simp: extends_def)
  have "same_but (table_pages (mem s) pt \<union> set ps) (mem s) (mem u)"
  proof (rule same_but_trans)
    show "same_but (table_pages (mem s) pt \<union> set ps) (mem s) (mem t)"
      "same_but (table_pages (mem t) pt \<union> set qs) (mem t) (mem u)"
      using assms by (simp_all add: extends_def)
    show "table_pages (mem t) pt \<union> set qs \<subseteq> table_pages (mem s) pt \<union> set ps"
      using assms(1) ps by (auto simp: extends_def)
  qed simp
  moreover have "kmem_only s u" using assms by (auto simp: extends_def intro: kmem_only_trans)
  moreover have "table_pages (mem s) pt \<subseteq> table_pages (mem u) pt"
    "table_pages (mem u) pt \<subseteq> table_pages (mem s) pt \<union> set ps"
    using assms ps by (auto simp: extends_def)
  ultimately show ?thesis using assms ps by (simp add: extends_def)
qed

lemma grows_trans: "grows pt s ps t qs \<Longrightarrow> grows pt t qs u rs \<Longrightarrow> grows pt s ps u rs"
  by (auto simp: grows_def intro: extends_trans)

lemma PX_512 [simp]: "PX l va < 512"
  by (rule PX_lt)

lemma leaf_entry: "(\<And>i j k. i < 512 \<Longrightarrow> j < 512 \<Longrightarrow> k < 512 \<Longrightarrow> entry m' pt i j k = entry m pt i j k)
   \<Longrightarrow> leaf m' pt va = leaf m pt va"
  by (simp add: leaf_def)

text \<open>The state after one missing table has been allocated and linked into table \<open>q\<close>.\<close>

lemma grows_linked:
  assumes ok: "vmok s pt (p # ps)" and q: "q \<in> table_pages (mem s) pt" "i < 512"
    and t: "t = (kalloced p s)\<lparr>mem := linked p q i (mem (kalloced p s))\<rparr>"
    and pages: "table_pages (mem t) pt = insert p (table_pages (mem s) pt)"
    and wf: "wf_table (kend s) (mem t) pt"
    and leaf: "\<And>va. leaf (mem t) pt va = leaf (mem s) pt va"
  shows "grows pt s (p # ps) t ps"
proof -
  note k = vmok_kalloced [OF ok]
  have al: "aligned q" using ok q(1) by (auto simp: vmok_def dest: wf_table_aligned)
  have pq: "p \<noteq> q" "aligned p" using k(2,4) q(1) by (auto simp: page_ok_def)
  have inv: "kmem_inv (kalloced p s) ps" using k(1) by (simp add: vmok_def)
  have ps: "aligned x \<and> x \<noteq> p \<and> x \<noteq> q" if "x \<in> set ps" for x
    using that inv ok k(3) q(1) by (auto simp: kmem_inv_def page_ok_def vmok_def)
  have "kmem_inv t ps"
    using inv freelist_linked [OF k(2) al pq(1) q(2) ps] by (auto simp: kmem_inv_def t)
  moreover have "insert p (table_pages (mem s) pt) \<inter> set ps = {}"
    using k(3) ok by (auto simp: vmok_def)
  moreover have "kmem_only s t" by (simp add: t)
  moreover have "same_but (table_pages (mem s) pt \<union> set (p # ps)) (mem s) (mem t)"
  proof (rule same_but_trans)
    show "same_but {p} (mem s) (mem (kalloced p s))"
      using pq(2) by (simp add: kalloced_def same_but_memset)
    show "same_but {p, q} (mem (kalloced p s)) (mem t)"
      using pq al q(2) by (simp add: t same_but_linked)
  qed (use q in auto)
  ultimately show ?thesis
    using ok wf leaf unfolding grows_def extends_def vmok_def pages by (auto simp: kmem_only_simps)
qed

lemma level2_grows:
  assumes "vmok s pt ps"
  shows "\<exists>r t ps'. walk_level True va 2 pt s = Ret r t \<and> grows pt s ps t ps' \<and>
    length ps \<le> Suc (length ps') \<and>
    (case r of None \<Rightarrow> ps = [] | Some q \<Rightarrow> next_table (mem t) pt (PX 2 va) = Some q)"
proof (cases "next_table (mem s) pt (PX 2 va)")
  case (Some q)
  then show ?thesis using assms by (auto simp: walk_level_hit intro!: exI grows_refl)
next
  case None
  have w: "walk_level True va 2 pt s = (if freelist s = 0 then Ret None (touch s)
    else let p = freelist s; t = kalloced p s in
      Ret (Some p) (t\<lparr>mem := linked p pt (PX 2 va) (mem t)\<rparr>))"
    using assms None by (intro walk_level_new) (auto simp: vmok_def)
  show ?thesis
  proof (cases ps)
    case Nil
    then have "freelist s = 0" using assms by (auto simp: vmok_def kmem_inv_def)
    then show ?thesis using w assms Nil by (auto intro!: exI grows_refl)
  next
    case (Cons p ps')
    have ok: "vmok s pt (p # ps')" using assms Cons by simp
    note k = vmok_kalloced [OF ok]
    define t where "t = (kalloced p s)\<lparr>mem := linked p pt (PX 2 va) (mem (kalloced p s))\<rparr>"
    have run: "walk_level True va 2 pt s = Ret (Some p) t"
      using w ok by (auto simp: t_def Let_def vmok_def kmem_inv_def)
    have wfk: "wf_table (kend s) (mem (kalloced p s)) pt" using k(1) by (simp add: vmok_def)
    note l = link2 [OF wfk k(2), unfolded k(5), OF k(4) PX_512, unfolded k(6) [OF PX_512], OF None]
    note wi = wf_insert2 [OF wfk k(2), unfolded k(5), OF k(4) PX_512, unfolded k(6) [OF PX_512],
        OF None, of "mem t"]
    have "next_table (mem t) pt i' = (if i' = PX 2 va then Some p else next_table (mem s) pt i')"
      if "i' < 512" for i' using l(1) [OF that] that k(6) by (simp add: t_def)
    moreover have "tab0 (mem t) pt i' j = tab0 (mem (kalloced p s)) pt i' j"
      if "i' < 512" "j < 512" for i' j using l(2) [OF that] by (simp add: t_def)
    ultimately have pages: "table_pages (mem t) pt = insert p (table_pages (mem s) pt)"
        "wf_table (kend s) (mem t) pt"
      using wi k(6) by simp_all
    have "leaf (mem t) pt va' = leaf (mem s) pt va'" for va'
      using l(3) k(8) by (intro leaf_entry) (simp add: t_def)
    then have "grows pt s (p # ps') t ps'"
      using ok t_def pages by (intro grows_linked) auto
    moreover have "next_table (mem t) pt (PX 2 va) = Some p"
      using l(1) [OF PX_512, of 2 va] by (simp add: t_def)
    ultimately show ?thesis using run Cons by auto
  qed
qed

lemma level1_grows:
  assumes "vmok s pt ps" and q: "next_table (mem s) pt (PX 2 va) = Some q"
  shows "\<exists>r t ps'. walk_level True va 1 q s = Ret r t \<and> grows pt s ps t ps' \<and>
    length ps \<le> Suc (length ps') \<and>
    (case r of None \<Rightarrow> ps = [] | Some r \<Rightarrow> tab0 (mem t) pt (PX 2 va) (PX 1 va) = Some r)"
proof (cases "next_table (mem s) q (PX 1 va)")
  case (Some r)
  then show ?thesis using assms
    by (auto simp: walk_level_hit tab0_def intro!: exI grows_refl)
next
  case None
  have w: "walk_level True va 1 q s = (if freelist s = 0 then Ret None (touch s)
    else let p = freelist s; t = kalloced p s in
      Ret (Some p) (t\<lparr>mem := linked p q (PX 1 va) (mem t)\<rparr>))"
    using assms None by (intro walk_level_new) (auto simp: vmok_def)
  show ?thesis
  proof (cases ps)
    case Nil
    then have "freelist s = 0" using assms by (auto simp: vmok_def kmem_inv_def)
    then show ?thesis using w assms Nil by (auto intro!: exI grows_refl)
  next
    case (Cons p ps')
    have ok: "vmok s pt (p # ps')" using assms Cons by simp
    note k = vmok_kalloced [OF ok]
    define t where "t = (kalloced p s)\<lparr>mem := linked p q (PX 1 va) (mem (kalloced p s))\<rparr>"
    have run: "walk_level True va 1 q s = Ret (Some p) t"
      using w ok by (auto simp: t_def Let_def vmok_def kmem_inv_def)
    have wfk: "wf_table (kend s) (mem (kalloced p s)) pt" using k(1) by (simp add: vmok_def)
    have fresh: "p \<notin> table_pages (mem (kalloced p s)) pt" using k(4,5) by simp
    have q': "next_table (mem (kalloced p s)) pt (PX 2 va) = Some q" using q k(6) by simp
    have none: "next_table (mem (kalloced p s)) q (PX 1 va) = None"
      using k(7) [OF PX_512 PX_512, of 2 va 1 va] None q q' by (simp add: tab0_def)
    note l = link1 [OF wfk k(2) fresh PX_512 PX_512 q' none]
    have t0: "tab0 (mem (kalloced p s)) pt (PX 2 va) (PX 1 va) = None"
      using q' none by (simp add: tab0_def)
    have "next_table (mem t) pt i' = next_table (mem (kalloced p s)) pt i'"
      if "i' < 512" for i' using l(1) [OF that] by (simp add: t_def)
    moreover have "tab0 (mem t) pt i' j' = (if i' = PX 2 va \<and> j' = PX 1 va then Some p
        else tab0 (mem (kalloced p s)) pt i' j')"
      if "i' < 512" "j' < 512" for i' j' using l(2) [OF that] by (simp add: t_def)
    ultimately have pages: "table_pages (mem t) pt = insert p (table_pages (mem s) pt)"
        "wf_table (kend s) (mem t) pt"
      using wf_insert1 [OF wfk k(2) fresh PX_512 PX_512 t0, of "mem t"] k(5) by simp_all
    have "leaf (mem t) pt va' = leaf (mem s) pt va'" for va'
      using l(3) k(8) by (intro leaf_entry) (simp add: t_def)
    then have "grows pt s (p # ps') t ps'"
      using ok t_def pages table_pages_next [OF PX_512 q] by (intro grows_linked) auto
    moreover have "tab0 (mem t) pt (PX 2 va) (PX 1 va) = Some p"
      using l(2) [OF PX_512 PX_512, of 2 va 1 va] by (simp add: t_def)
    ultimately show ?thesis using run Cons by auto
  qed
qed

lemma pte_addr_nonzero: "page_ok e r \<Longrightarrow> 0 < e \<Longrightarrow> pte_addr r (PX l va) \<noteq> 0"
  using unat_pte_addr [OF _ PX_512, of r l va]
  by (auto simp: page_ok_def word_less_nat_alt word_le_nat_alt word_unat_eq_iff)

lemma tab0_page_ok:
  "vmok s pt ps \<Longrightarrow> tab0 (mem s) pt (PX 2 va) (PX 1 va) = Some r \<Longrightarrow>
     page_ok (kend s) r \<and> 0 < kend s"
  using table_pages_tab0 [OF PX_512 PX_512]
  by (fastforce simp: vmok_def wf_table_def kmem_inv_def)

lemma walk_grows:
  assumes "vmok s pt ps" "va < MAXVA"
  shows "\<exists>pte t ps'. walk pt va True s = Ret pte t \<and> grows pt s ps t ps' \<and>
    length ps \<le> length ps' + 2 \<and>
    (if pte = 0 then length ps < 2
     else \<exists>r. tab0 (mem t) pt (PX 2 va) (PX 1 va) = Some r \<and> pte = pte_addr r (PX 0 va))"
proof -
  have m: "\<not> MAXVA \<le> va" using assms(2) by simp
  obtain r2 t2 ps2 where 2: "walk_level True va 2 pt s = Ret r2 t2" "grows pt s ps t2 ps2"
    "case r2 of None \<Rightarrow> ps = [] | Some q \<Rightarrow> next_table (mem t2) pt (PX 2 va) = Some q"
    "length ps \<le> Suc (length ps2)"
    using level2_grows [OF assms(1)] by blast
  show ?thesis
  proof (cases r2)
    case None
    then show ?thesis using 2 m by (auto simp: walk_def)
  next
    case (Some q)
    have "vmok t2 pt ps2" using 2(2) by (simp add: grows_def extends_def)
    then obtain r1 t1 ps1 where 1: "walk_level True va 1 q t2 = Ret r1 t1" "grows pt t2 ps2 t1 ps1"
      "length ps2 \<le> Suc (length ps1)"
      "case r1 of None \<Rightarrow> ps2 = [] | Some r \<Rightarrow> tab0 (mem t1) pt (PX 2 va) (PX 1 va) = Some r"
      using level1_grows [of t2 pt ps2 va q] 2(3) Some by auto
    have g: "grows pt s ps t1 ps1" using grows_trans [OF 2(2) 1(2)] .
    show ?thesis
    proof (cases r1)
      case None
      then show ?thesis using 1 2 Some m g by (auto simp: walk_def)
    next
      case (Some r)
      then have "tab0 (mem t1) pt (PX 2 va) (PX 1 va) = Some r" using 1(4) by simp
      moreover from this have "pte_addr r (PX 0 va) \<noteq> 0"
        using tab0_page_ok [of t1 pt ps1 va r] 1(2) by (auto simp: grows_def extends_def pte_addr_nonzero)
      moreover have "walk pt va True s = Ret (pte_addr r (PX 0 va)) t1"
        using 1(1) 2(1) \<open>r2 = Some q\<close> Some m by (simp add: walk_def)
      ultimately show ?thesis using g 1(3) 2(4) by auto
    qed
  qed
qed

lemma walk_look:
  assumes "va < MAXVA"
  shows "walk pt va False s = Ret (case tab0 (mem s) pt (PX 2 va) (PX 1 va) of None \<Rightarrow> 0
    | Some r \<Rightarrow> pte_addr r (PX 0 va)) s"
proof -
  have m: "\<not> MAXVA \<le> va" using assms by simp
  show ?thesis
  proof (cases "next_table (mem s) pt (PX 2 va)")
    case None
    then show ?thesis using m by (simp add: walk_def walk_level_miss tab0_def)
  next
    case (Some q)
    then show ?thesis using m
      by (cases "next_table (mem s) q (PX 1 va)")
        (simp_all add: walk_def walk_level_miss walk_level_hit tab0_def)
  qed
qed

end
