(* ===== verification/Usermem.thy ===== *)
theory Usermem
  imports Pagetable
begin

section \<open>Mappings and user memory\<close>

text \<open>
  The contracts of \<^verbatim>\<open>mappages\<close>, \<^verbatim>\<open>copyin\<close>, \<^verbatim>\<open>copyout\<close> and \<^verbatim>\<open>vmfault\<close> over the tree of
  page tables: which leaf entries change, which bytes of memory are read and written, and that all
  others stay. \<open>phys m pt va\<close> is the physical address of a user address.
\<close>

subsection \<open>Mapping pages\<close>

lemma PX_page:
  assumes "va < MAXVA" "va' < MAXVA"
  shows "PX 2 va' = PX 2 va \<and> PX 1 va' = PX 1 va \<and> PX 0 va' = PX 0 va \<longleftrightarrow>
    PGROUNDDOWN va' = PGROUNDDOWN va"
proof -
  have 38: "unat va < 2 ^ 38" "unat va' < 2 ^ 38"
    using assms by (simp_all add: MAXVA_def word_less_nat_alt)
  let ?x = "unat va div 4096" and ?y = "unat va' div 4096"
  have lt: "?x < 2 ^ 26" "?y < 2 ^ 26" using 38 by auto
  have px: "unat (PX 0 v) = unat v div 4096 mod 512" "unat (PX 1 v) = unat v div 4096 div 512 mod 512"
    "unat (PX 2 v) = unat v div 4096 div 512 div 512 mod 512" for v
    by (simp_all add: unat_PX div_mult2_eq [symmetric])
  have split: "x = x mod 512 + 512 * (x div 512 mod 512 + 512 * (x div 512 div 512 mod 512))"
    if "x < 2 ^ 26" for x :: nat
  proof -
    have "x div 512 div 512 < 512" using that by simp
    then show ?thesis by (simp add: mod_mult_div_eq flip: add_mult_distrib2)
  qed
  have "PX 2 va' = PX 2 va \<and> PX 1 va' = PX 1 va \<and> PX 0 va' = PX 0 va \<longleftrightarrow> ?y = ?x"
  proof
    assume "PX 2 va' = PX 2 va \<and> PX 1 va' = PX 1 va \<and> PX 0 va' = PX 0 va"
    then have "?y mod 512 = ?x mod 512" "?y div 512 mod 512 = ?x div 512 mod 512"
      "?y div 512 div 512 mod 512 = ?x div 512 div 512 mod 512"
      using px [of va] px [of va'] by metis+
    then show "?y = ?x" using split [OF lt(1)] split [OF lt(2)] by metis
  next
    assume "?y = ?x"
    then show "PX 2 va' = PX 2 va \<and> PX 1 va' = PX 1 va \<and> PX 0 va' = PX 0 va"
      by (simp only: word_unat_eq_iff px)
  qed
  also have "\<dots> \<longleftrightarrow> PGROUNDDOWN va' = PGROUNDDOWN va"
    by (simp add: word_unat_eq_iff unat_PGROUNDDOWN)
  finally show ?thesis .
qed

definition mk_pte :: "uint64 \<Rightarrow> uint64 \<Rightarrow> uint64" where
  "mk_pte pa perm = or (or (PA2PTE pa) perm) PTE_V"

lemma leaf_tab0: "tab0 m pt (PX 2 va) (PX 1 va) = Some r \<Longrightarrow> leaf m pt va = load64 m (pte_addr r (PX 0 va))"
  by (simp add: leaf_def entry_def)

text \<open>Writing the leaf entry of \<open>va\<close>.\<close>

lemma set_leaf_extends:
  fixes w :: uint64
  assumes ok: "vmok s pt ps" and va: "va < MAXVA"
    and r: "tab0 (mem s) pt (PX 2 va) (PX 1 va) = Some r"
  defines "t \<equiv> s\<lparr>mem := store64 (mem s) (pte_addr r (PX 0 va)) w\<rparr>"
  shows "extends pt s ps t ps"
    and "va' < MAXVA \<Longrightarrow> leaf (mem t) pt va' =
      (if PGROUNDDOWN va' = PGROUNDDOWN va then w else leaf (mem s) pt va')"
proof -
  have wf: "wf_table (kend s) (mem s) pt" and inv: "kmem_inv s ps"
    and dj: "table_pages (mem s) pt \<inter> set ps = {}" using ok by (auto simp: vmok_def)
  note l = set_leaf [OF wf PX_512 PX_512 PX_512 [of 0 va] r, where w = w]
  note lw = tree_cong_wf [of "mem t" pt "mem s"]
  have c: "table_pages (mem t) pt = table_pages (mem s) pt" "wf_table e (mem t) pt = wf_table e (mem s) pt" for e
    using lw l(1,2) by (simp_all add: t_def)
  have rt: "r \<in> table_pages (mem s) pt" by (rule table_pages_tab0 [OF PX_512 PX_512 r])
  then have ra: "aligned r" using wf wf_table_aligned by blast
  have "load64 (mem t) x = load64 (mem s) x" if "x \<in> set ps" for x
    using that inv dj rt ra load64_store64_pte [of r x "PX 0 va" 0 "mem s" w]
    by (auto simp: t_def kmem_inv_def page_ok_def pte_addr_def)
  then have "freelist_rep (mem t) (freelist s) ps = freelist_rep (mem s) (freelist s) ps"
    by (intro freelist_rep_cong)
  moreover have "freelist t = freelist s" "kend t = kend s" by (simp_all add: t_def)
  ultimately have "kmem_inv t ps" using inv by (simp add: kmem_inv_def)
  moreover have "same_but (table_pages (mem s) pt \<union> set ps) (mem s) (mem t)"
    using same_but_trans [OF same_but_store_pte [OF ra PX_512] same_but_refl, of _ "{}"] rt
    by (simp add: t_def)
  ultimately show "extends pt s ps t ps"
    using ok c by (auto simp: extends_def vmok_def t_def)
  show "leaf (mem t) pt va' = (if PGROUNDDOWN va' = PGROUNDDOWN va then w else leaf (mem s) pt va')"
    if "va' < MAXVA"
    using l(3) [of "PX 2 va'" "PX 1 va'" "PX 0 va'"] PX_page [OF va that] by (simp add: leaf_def t_def)
qed

definition unmapped :: "memory \<Rightarrow> uint64 \<Rightarrow> uint64 \<Rightarrow> bool" where
  "unmapped m pt va \<longleftrightarrow> and (leaf m pt va) PTE_V = 0"

lemma mappages_one_ok:
  assumes ok: "vmok s pt ps" and va: "va < MAXVA" "unmapped (mem s) pt va"
  shows "\<exists>r t ps'. mappages_one pt va pa perm s = Ret r t \<and> extends pt s ps t ps' \<and>
    length ps \<le> length ps' + 2 \<and>
    (case r of
       None \<Rightarrow> \<forall>va'<MAXVA. leaf (mem t) pt va' =
         (if PGROUNDDOWN va' = PGROUNDDOWN va then mk_pte pa perm else leaf (mem s) pt va')
     | Some c \<Rightarrow> c = -1 \<and> length ps < 2 \<and> (\<forall>va'. leaf (mem t) pt va' = leaf (mem s) pt va'))"
proof -
  obtain pte t ps' where w: "walk pt va True s = Ret pte t" "grows pt s ps t ps'" "length ps \<le> length ps' + 2"
    "if pte = 0 then length ps < 2
     else \<exists>r. tab0 (mem t) pt (PX 2 va) (PX 1 va) = Some r \<and> pte = pte_addr r (PX 0 va)"
    using walk_grows [OF ok va(1)] by blast
  show ?thesis
  proof (cases "pte = 0")
    case True
    then show ?thesis using w by (auto simp: mappages_one_def grows_def)
  next
    case False
    then obtain r where r: "tab0 (mem t) pt (PX 2 va) (PX 1 va) = Some r" "pte = pte_addr r (PX 0 va)"
      using w(4) by auto
    have un: "and (load64 (mem t) pte) PTE_V = 0"
      using va(2) w(2) leaf_tab0 [OF r(1)] by (simp add: unmapped_def grows_def r(2))
    let ?u = "t\<lparr>mem := store64 (mem t) (pte_addr r (PX 0 va)) (mk_pte pa perm)\<rparr>"
    have "vmok t pt ps'" using w(2) by (simp add: grows_def extends_def)
    note sl = set_leaf_extends [OF this va(1) r(1), where w = "mk_pte pa perm"]
    have "mappages_one pt va pa perm s = Ret None ?u"
      using w(1) False un r by (simp add: mappages_one_def set_mem_def mk_pte_def)
    moreover have "extends pt s ps ?u ps'"
      using extends_trans sl(1) w(2) by (auto simp: grows_def)
    ultimately show ?thesis using sl(2) w(2,3)
      by (auto simp: grows_def intro!: exI [of _ ?u])
  qed
qed

lemma extends_vmok: "extends pt s ps t ps' \<Longrightarrow> vmok t pt ps'"
  by (simp add: extends_def)

lemma mappages_scan:
  assumes "vmok s pt ps" "distinct is"
    and "\<And>i. i \<in> set is \<Longrightarrow> a i < MAXVA \<and> aligned (a i) \<and> unmapped (mem s) pt (a i)"
    and "inj_on a (set is)"
  shows "\<exists>r t ps'. kscan (\<lambda>i. mappages_one pt (a i) (p i) perm) is s = Ret r t \<and>
    extends pt s ps t ps' \<and> length ps \<le> length ps' + 2 * length is \<and>
    (case r of
       None \<Rightarrow> \<forall>va'<MAXVA. leaf (mem t) pt va' =
         (case find (\<lambda>i. PGROUNDDOWN va' = a i) is of
            Some i \<Rightarrow> mk_pte (p i) perm | None \<Rightarrow> leaf (mem s) pt va')
     | Some c \<Rightarrow> c = -1 \<and> length ps < 2 * length is)"
  using assms
proof (induction "is" arbitrary: s ps)
  case Nil
  then show ?case by (auto intro!: exI extends_refl)
next
  case (Cons i "is")
  obtain r t qs where 1: "mappages_one pt (a i) (p i) perm s = Ret r t" "extends pt s ps t qs"
    "length ps \<le> length qs + 2"
    "case r of
       None \<Rightarrow> \<forall>va'<MAXVA. leaf (mem t) pt va' =
         (if PGROUNDDOWN va' = PGROUNDDOWN (a i) then mk_pte (p i) perm else leaf (mem s) pt va')
     | Some c \<Rightarrow> c = -1 \<and> length ps < 2 \<and> (\<forall>va'. leaf (mem t) pt va' = leaf (mem s) pt va')"
    using mappages_one_ok [OF Cons.prems(1), of "a i" "p i" perm] Cons.prems(3) [of i] by auto
  show ?case
  proof (cases r)
    case (Some c)
    then show ?thesis using 1 by auto
  next
    case None
    then have l: "leaf (mem t) pt va' =
        (if PGROUNDDOWN va' = a i then mk_pte (p i) perm else leaf (mem s) pt va')"
      if "va' < MAXVA" for va' using 1(4) Cons.prems(3) [of i] that by simp
    have a: "a j \<noteq> a i" if "j \<in> set is" for j
      using that Cons.prems(2,4) by (auto simp: inj_on_def)
    have u: "unmapped (mem t) pt (a j)" if "j \<in> set is" for j
      using that a [OF that] Cons.prems(3) [of j] l [of "a j"] by (simp add: unmapped_def)
    obtain r' u qs' where 2: "kscan (\<lambda>i. mappages_one pt (a i) (p i) perm) is t = Ret r' u"
      "extends pt t qs u qs'" "length qs \<le> length qs' + 2 * length is"
      "case r' of
       None \<Rightarrow> \<forall>va'<MAXVA. leaf (mem u) pt va' =
         (case find (\<lambda>i. PGROUNDDOWN va' = a i) is of
            Some i \<Rightarrow> mk_pte (p i) perm | None \<Rightarrow> leaf (mem t) pt va')
     | Some c \<Rightarrow> c = -1 \<and> length qs < 2 * length is"
      using Cons.IH [OF extends_vmok [OF 1(2)]] Cons.prems u by (auto simp: inj_on_def)
    have e: "extends pt s ps u qs'" using extends_trans [OF 1(2) 2(2)] .
    have nf: "find (\<lambda>j. PGROUNDDOWN va' = a j) is = None" if "PGROUNDDOWN va' = a i" for va'
    proof -
      have "\<not> (\<exists>x. x \<in> set is \<and> PGROUNDDOWN va' = a x)" using that a by metis
      then show ?thesis by (simp add: find_None_iff)
    qed
    show ?thesis
    proof (cases r')
      case (Some c)
      then show ?thesis using 1(1,3) 2 None e by auto
    next
      case r': None
      have "leaf (mem u) pt va' = (case find (\<lambda>i. PGROUNDDOWN va' = a i) (i # is) of
            Some i \<Rightarrow> mk_pte (p i) perm | None \<Rightarrow> leaf (mem s) pt va')" if "va' < MAXVA" for va'
        using 2(4) r' that l [OF that] nf [of va'] by (auto split: option.splits)
      then show ?thesis using 1(1,3) 2(1,3) None r' e by (intro exI [of _ None] exI [of _ u]) auto
    qed
  qed
qed

lemma MAXVA_unat: "va < MAXVA \<longleftrightarrow> unat va < 2 ^ 38"
  by (simp add: MAXVA_def word_less_nat_alt)

lemma unat_page_step:
  fixes va :: uint64
  assumes "unat va + n * 4096 \<le> 2 ^ 38" "i < n"
  shows "unat (va + of_nat (i * 4096)) = unat va + i * 4096"
proof -
  have "i * 4096 + 4096 \<le> n * 4096" using assms(2) by simp
  then have "unat va + i * 4096 < 2 ^ 38" using assms(1) by linarith
  then show ?thesis by (simp add: unat_word_ariths unat_of_nat take_bit_nat_eq_self)
qed

lemma mappages_ok:
  assumes ok: "vmok s pt ps" and al: "aligned va" "aligned len" "0 < len"
    and top: "unat va + unat len \<le> 2 ^ 38"
    and un: "\<And>i. i < unat len div 4096 \<Longrightarrow> unmapped (mem s) pt (va + of_nat (i * 4096))"
  shows "\<exists>r t ps'. mappages pt va len pa perm s = Ret r t \<and> extends pt s ps t ps' \<and>
    (if r = 0 then \<forall>va'<MAXVA. leaf (mem t) pt va' =
        (case find (\<lambda>i. PGROUNDDOWN va' = va + of_nat (i * 4096)) [0..<unat len div 4096] of
           Some i \<Rightarrow> mk_pte (pa + of_nat (i * 4096)) perm | None \<Rightarrow> leaf (mem s) pt va')
     else r = -1 \<and> length ps < 2 * (unat len div 4096))"
proof -
  define n where "n = unat len div 4096"
  have len: "unat len = n * 4096" using al(2) by (simp add: n_def aligned_def)
  have u: "unat (va + of_nat (i * 4096)) = unat va + i * 4096" if "i < n" for i
    using unat_page_step [of va n i] top len that by simp
  have "va + of_nat (i * 4096) < MAXVA \<and> aligned (va + of_nat (i * 4096))" if "i < n" for i
  proof -
    have "unat va + i * 4096 < 2 ^ 38" using that top len by (simp add: less_mult_imp_div_less)
    then show ?thesis using u [OF that] al(1)
      by (simp add: MAXVA_unat aligned_def del: of_nat_mult)
  qed
  moreover have "inj_on (\<lambda>i. va + of_nat (i * 4096)) {0..<n}"
  proof (rule inj_onI)
    fix i j assume "i \<in> {0..<n}" "j \<in> {0..<n}" "va + of_nat (i * 4096) = va + of_nat (j * 4096)"
    then show "i = j" using u [of i] u [of j] by simp
  qed
  ultimately obtain r t ps' where
    "kscan (\<lambda>i. mappages_one pt (va + of_nat (i * 4096)) (pa + of_nat (i * 4096)) perm) [0..<n] s
      = Ret r t" "extends pt s ps t ps'"
    "case r of
       None \<Rightarrow> \<forall>va'<MAXVA. leaf (mem t) pt va' =
         (case find (\<lambda>i. PGROUNDDOWN va' = va + of_nat (i * 4096)) [0..<n] of
            Some i \<Rightarrow> mk_pte (pa + of_nat (i * 4096)) perm | None \<Rightarrow> leaf (mem s) pt va')
     | Some c \<Rightarrow> c = -1 \<and> length ps < 2 * length [0..<n]"
    using mappages_scan [OF ok, of "[0..<n]" "\<lambda>i. va + of_nat (i * 4096)"
        "\<lambda>i. pa + of_nat (i * 4096)" perm] un by (auto simp: n_def)
  moreover have "va mod 4096 = 0" "len mod 4096 = 0" "len \<noteq> 0"
    using al by (simp_all add: aligned_mod)
  ultimately show ?thesis
    unfolding n_def [symmetric] by (cases r) (auto simp: mappages_def n_def)
qed

subsection \<open>User addresses\<close>

definition user_pte :: "memory \<Rightarrow> uint64 \<Rightarrow> uint64 \<Rightarrow> bool" where
  "user_pte m pt va \<longleftrightarrow> va < MAXVA \<and> and (leaf m pt va) PTE_V \<noteq> 0 \<and> and (leaf m pt va) PTE_U \<noteq> 0"

definition phys :: "memory \<Rightarrow> uint64 \<Rightarrow> uint64 \<Rightarrow> uint64" where
  "phys m pt va = PTE2PA (leaf m pt va) + (va - PGROUNDDOWN va)"

lemma leaf_none: "tab0 m pt (PX 2 va) (PX 1 va) = None \<Longrightarrow> leaf m pt va = 0"
  by (simp add: leaf_def entry_def)

lemma walk_pte:
  assumes "vmok s pt ps" "va < MAXVA"
  obtains "walk pt va False s = Ret 0 s" "leaf (mem s) pt va = 0"
  | r where "walk pt va False s = Ret (pte_addr r (PX 0 va)) s" "pte_addr r (PX 0 va) \<noteq> 0"
      "tab0 (mem s) pt (PX 2 va) (PX 1 va) = Some r"
      "leaf (mem s) pt va = load64 (mem s) (pte_addr r (PX 0 va))"
proof (cases "tab0 (mem s) pt (PX 2 va) (PX 1 va)")
  case None
  have "walk pt va False s = Ret 0 s" using walk_look [OF assms(2), of pt s] None by simp
  then show thesis using that(1) leaf_none [OF None] by blast
next
  case (Some r)
  have "walk pt va False s = Ret (pte_addr r (PX 0 va)) s"
    using walk_look [OF assms(2), of pt s] Some by simp
  then show thesis
    using that(2) leaf_tab0 [OF Some] tab0_page_ok [OF assms(1) Some] pte_addr_nonzero Some by blast
qed

lemma walkaddr_eq:
  assumes "vmok s pt ps"
  shows "walkaddr pt va s = Ret (if user_pte (mem s) pt va then PTE2PA (leaf (mem s) pt va) else 0) s"
proof (cases "va < MAXVA")
  case True
  then have m: "\<not> MAXVA \<le> va" by simp
  show ?thesis
    using walk_pte [OF assms True] m True
    by cases (auto simp: walkaddr_def user_pte_def)
next
  case False
  then have "MAXVA \<le> va" by simp
  then show ?thesis using False by (simp add: walkaddr_def user_pte_def)
qed

lemma leaf_PGROUNDDOWN:
  assumes "va < MAXVA"
  shows "leaf m pt (PGROUNDDOWN va) = leaf m pt va"
proof -
  have "PGROUNDDOWN va < MAXVA"
    using assms unat_PGROUNDDOWN [of va] by (auto simp: MAXVA_unat intro: le_less_trans)
  then show ?thesis using PX_page [OF assms, of "PGROUNDDOWN va"] by (simp add: leaf_def)
qed

lemma PGROUNDDOWN_le: "PGROUNDDOWN va \<le> va"
  by (simp add: word_le_nat_alt unat_PGROUNDDOWN)

lemma aligned_PTE2PA: "aligned (PTE2PA e)"
proof -
  have "PTE2PA e = PGROUNDDOWN (PTE2PA e)"
    by (rule bit_word_eqI) (auto simp: PGROUNDDOWN_shift PTE2PA_def bit_simps)
  then show ?thesis by (metis aligned_PGROUNDDOWN)
qed

text \<open>Addresses in the page of \<open>va\<close>, from \<open>va\<close> on.\<close>

lemma in_page_step:
  assumes "i < page_room va" "unat va + i < 2 ^ 64"
  shows "PGROUNDDOWN (va + of_nat i) = PGROUNDDOWN va"
    and "unat (va + of_nat i) = unat va + i"
proof -
  have i: "i < 4096" using assms(1) by (simp add: page_room_eq)
  then have "unat (of_nat i :: uint64) = i" by (simp add: unat_of_nat take_bit_nat_eq_self)
  then show u: "unat (va + of_nat i) = unat va + i" using assms(2) by (subst unat_add_small) auto
  have "(unat va + i) div 4096 = unat va div 4096"
  proof -
    have "unat va mod 4096 + i < 4096" using assms(1) by (simp add: page_room_eq)
    then show ?thesis using i by (subst div_add1_eq) simp
  qed
  then show "PGROUNDDOWN (va + of_nat i) = PGROUNDDOWN va"
    by (simp add: word_unat_eq_iff unat_PGROUNDDOWN u)
qed

definition user_range :: "memory \<Rightarrow> uint64 \<Rightarrow> uint64 \<Rightarrow> nat \<Rightarrow> bool" where
  "user_range m pt va n \<longleftrightarrow> unat va + n \<le> 2 ^ 38 \<and>
     (\<forall>i<n. user_pte m pt (va + of_nat i) \<and> PTE2PA (leaf m pt (va + of_nat i)) \<noteq> 0)"

lemma user_range_drop:
  assumes "user_range m pt va n" "page_room va \<le> n"
  shows "user_range m pt (PGROUNDDOWN va + 4096) (n - page_room va)"
    and "PGROUNDDOWN va + 4096 = va + of_nat (page_room va)"
proof -
  show eq: "PGROUNDDOWN va + 4096 = va + of_nat (page_room va)"
    by (simp add: page_room_def)
  have "page_room va \<le> 4096" by (simp add: page_room_eq)
  then have "unat (of_nat (page_room va) :: uint64) = page_room va"
    by (simp add: unat_of_nat take_bit_nat_eq_self)
  then have "unat (va + of_nat (page_room va)) \<le> unat va + page_room va"
    by (metis unat_word_ariths(1) mod_less_eq_dividend)
  moreover have "unat va + n \<le> 2 ^ 38" using assms(1) by (simp add: user_range_def)
  ultimately have "unat (PGROUNDDOWN va + 4096) + (n - page_room va) \<le> 2 ^ 38"
    using assms(2) unfolding eq by linarith
  moreover have "user_pte m pt (va + of_nat (page_room va) + of_nat i) \<and>
      PTE2PA (leaf m pt (va + of_nat (page_room va) + of_nat i)) \<noteq> 0"
    if "i < n - page_room va" for i
  proof -
    have "page_room va + i < n" using that by simp
    then have "user_pte m pt (va + of_nat (page_room va + i)) \<and>
      PTE2PA (leaf m pt (va + of_nat (page_room va + i))) \<noteq> 0"
      using assms(1) unfolding user_range_def by blast
    then show ?thesis by (simp add: add.assoc)
  qed
  ultimately show "user_range m pt (PGROUNDDOWN va + 4096) (n - page_room va)"
    unfolding user_range_def eq by auto
qed

text \<open>Inside one page, physical addresses follow the virtual ones.\<close>

lemma phys_step:
  assumes "user_range m pt va n" "i < n" "i < page_room va"
  shows "phys m pt (va + of_nat i) = phys m pt va + of_nat i"
    and "PTE2PA (leaf m pt (va + of_nat i)) = PTE2PA (leaf m pt va)"
proof -
  have n: "unat va + n \<le> 2 ^ 38" "user_pte m pt (va + of_nat i)"
    using assms(1,2) by (auto simp: user_range_def)
  have p: "PGROUNDDOWN (va + of_nat i) = PGROUNDDOWN va"
    using in_page_step(1) [OF assms(3)] n(1) assms(2) by simp
  have "user_pte m pt (va + of_nat 0)" using assms(1,2) by (fastforce simp: user_range_def)
  then have "leaf m pt (va + of_nat i) = leaf m pt va"
    using leaf_PGROUNDDOWN [of va] leaf_PGROUNDDOWN [of "va + of_nat i"] n(2) p
    by (simp add: user_pte_def)
  then show "phys m pt (va + of_nat i) = phys m pt va + of_nat i"
    "PTE2PA (leaf m pt (va + of_nat i)) = PTE2PA (leaf m pt va)"
    using p by (simp_all add: phys_def)
qed

lemma fault_in_mapped:
  assumes "vmok s pt ps" "user_pte (mem s) pt va" "PTE2PA (leaf (mem s) pt va) \<noteq> 0"
  shows "fault_in pt (PGROUNDDOWN va) s = Ret (PTE2PA (leaf (mem s) pt va)) s"
proof -
  have "PGROUNDDOWN va < MAXVA"
    using assms(2) PGROUNDDOWN_le [of va] by (auto simp: user_pte_def)
  then have "user_pte (mem s) pt (PGROUNDDOWN va)"
    "leaf (mem s) pt (PGROUNDDOWN va) = leaf (mem s) pt va"
    using assms(2) leaf_PGROUNDDOWN [of va] by (auto simp: user_pte_def)
  then show ?thesis using assms(3) by (simp add: fault_in_def walkaddr_eq [OF assms(1)])
qed

lemma copyin_ok:
  assumes "vmok s pt ps" "user_range (mem s) pt va n"
  shows "copyin pt va n s = Ret (0, map (\<lambda>i. mem s (phys (mem s) pt (va + of_nat i))) [0..<n]) s"
  using assms(2)
proof (induction n arbitrary: va rule: less_induct)
  case (less n)
  show ?case
  proof (cases "n = 0")
    case True
    then show ?thesis by (simp add: copyin.simps)
  next
    case False
    define k where "k = min (page_room va) n"
    have k: "0 < k" "k \<le> n" "k \<le> page_room va" using False by (auto simp: k_def)
    have u0: "user_pte (mem s) pt (va + of_nat 0)" "PTE2PA (leaf (mem s) pt (va + of_nat 0)) \<noteq> 0"
      using less.prems False unfolding user_range_def by blast+
    then have f: "fault_in pt (PGROUNDDOWN va) s = Ret (PTE2PA (leaf (mem s) pt va)) s"
      using fault_in_mapped [OF assms(1), of va] by simp
    have b: "mem_read (mem s) (phys (mem s) pt va) k =
        map (\<lambda>i. mem s (phys (mem s) pt (va + of_nat i))) [0..<k]"
      using k phys_step(1) [OF less.prems] by (auto simp: mem_read_def)
    have r: "copyin pt (PGROUNDDOWN va + 4096) (n - k) s =
        Ret (0, map (\<lambda>i. mem s (phys (mem s) pt (va + of_nat i))) [k..<n]) s"
    proof (cases "page_room va \<le> n")
      case True
      then have kr: "k = page_room va" by (simp add: k_def)
      have "copyin pt (PGROUNDDOWN va + 4096) (n - k) s = Ret (0, map (\<lambda>i. mem s
          (phys (mem s) pt (PGROUNDDOWN va + 4096 + of_nat i))) [0..<n - k]) s"
        using less.IH [of "n - k"] k user_range_drop(1) [OF less.prems True] kr by simp
      moreover have "[k..<n] = map (\<lambda>i. i + k) [0..<n - k]" using k by (simp add: map_add_upt)
      ultimately show ?thesis
        using user_range_drop(2) [OF less.prems True] kr by (simp add: ac_simps)
    next
      case False
      then show ?thesis by (simp add: k_def copyin.simps)
    qed
    have "[0..<n] = [0..<k] @ [k..<n]" using k by (metis le_add_diff_inverse le0 upt_add_eq_append)
    then show ?thesis
      using False f b r u0 unfolding phys_def
      by (subst copyin.simps) (simp add: k_def [symmetric] Let_def)
  qed
qed

lemma PGROUNDDOWN_pte:
  assumes "aligned q" "k < 512" "i < 8"
  shows "PGROUNDDOWN (pte_addr q k + of_nat i) = q"
proof (rule PGROUNDDOWN_in_page [OF assms(1)])
  have k: "unat k < 512" using assms(2) by (simp add: word_less_nat_alt)
  have "of_nat (8 * unat k + i) = 8 * k + (of_nat i :: uint64)" by simp
  then have "pte_addr q k + of_nat i - q = of_nat (8 * unat k + i)" by (simp add: pte_addr_def)
  moreover have "unat (of_nat (8 * unat k + i) :: uint64) = 8 * unat k + i"
    using k assms(3) by (simp add: unat_of_nat take_bit_nat_eq_self del: of_nat_add of_nat_mult)
  ultimately have "unat (pte_addr q k + of_nat i - q) = 8 * unat k + i" by metis
  then show "unat (pte_addr q k + of_nat i - q) < 4096" using k assms(3) by simp
qed

lemma load64_same_but:
  assumes "same_but X m m'" "aligned q" "k < 512" "q \<notin> X"
  shows "load64 m' (pte_addr q k) = load64 m (pte_addr q k)"
proof -
  have "mem_read m' (pte_addr q k) 8 = mem_read m (pte_addr q k) 8"
    using assms PGROUNDDOWN_pte [OF assms(2,3)]
    by (auto simp: mem_read_def same_but_def)
  then show ?thesis by (simp add: load64_def)
qed

text \<open>Changing pages that are neither tables nor free changes no mapping.\<close>

lemma vmok_data:
  assumes ok: "vmok s pt ps" and m: "same_but X (mem s) m" "X \<inter> (table_pages (mem s) pt \<union> set ps) = {}"
  shows "vmok (s\<lparr>mem := m\<rparr>) pt ps" "leaf m pt va = leaf (mem s) pt va"
    "table_pages m pt = table_pages (mem s) pt"
proof -
  have wf: "wf_table (kend s) (mem s) pt" and inv: "kmem_inv s ps" using ok by (auto simp: vmok_def)
  have ld: "load64 m (pte_addr q k) = load64 (mem s) (pte_addr q k)"
    if "q \<in> table_pages (mem s) pt \<or> q \<in> set ps" "k < 512" for q k
    using that m inv wf wf_table_aligned [OF wf, of q]
    by (intro load64_same_but [OF m(1)]) (auto simp: kmem_inv_def page_ok_def)
  note c = tree_cong [of "mem s" pt m, OF ld]
  show "leaf m pt va = leaf (mem s) pt va" using c(3) by (intro leaf_entry) auto
  note w = tree_cong_wf [of m pt "mem s"]
  show tp: "table_pages m pt = table_pages (mem s) pt" using w(1) c(1,2) by auto
  have "wf_table (kend s) m pt" using w(2) c(1,2) wf by auto
  moreover have "freelist_rep m (freelist s) ps = freelist_rep (mem s) (freelist s) ps"
    using ld [of _ 0] by (intro freelist_rep_cong) (simp add: pte_addr_def)
  ultimately show "vmok (s\<lparr>mem := m\<rparr>) pt ps"
    using ok tp by (simp add: vmok_def kmem_inv_def)
qed

definition writable_range :: "memory \<Rightarrow> uint64 \<Rightarrow> uint64 list \<Rightarrow> uint64 \<Rightarrow> nat \<Rightarrow> bool" where
  "writable_range m pt ps va n \<longleftrightarrow> user_range m pt va n \<and>
     (\<forall>i<n. and (leaf m pt (va + of_nat i)) PTE_W \<noteq> 0 \<and>
        PTE2PA (leaf m pt (va + of_nat i)) \<notin> table_pages m pt \<union> set ps) \<and>
     inj_on (\<lambda>i. phys m pt (va + of_nat i)) {..<n}"

lemma writable_range_drop:
  assumes "writable_range m pt ps va n" "page_room va \<le> n"
  shows "writable_range m pt ps (PGROUNDDOWN va + 4096) (n - page_room va)"
proof -
  have r: "user_range m pt va n" using assms(1) by (simp add: writable_range_def)
  note eq = user_range_drop(2) [OF r assms(2)]
  have shift: "PGROUNDDOWN va + 4096 + of_nat i = va + of_nat (i + page_room va)" for i
    unfolding eq by (simp add: ac_simps)
  have "inj_on (\<lambda>i. phys m pt (PGROUNDDOWN va + 4096 + of_nat i)) {..<n - page_room va}"
  proof (rule inj_onI)
    fix i j assume ij: "i \<in> {..<n - page_room va}" "j \<in> {..<n - page_room va}"
      and "phys m pt (PGROUNDDOWN va + 4096 + of_nat i) = phys m pt (PGROUNDDOWN va + 4096 + of_nat j)"
    then have "i + page_room va = j + page_room va"
      using assms(1) unfolding writable_range_def shift
      by (intro inj_onD [of "\<lambda>i. phys m pt (va + of_nat i)" "{..<n}"]) auto
    then show "i = j" by simp
  qed
  moreover have "and (leaf m pt (va + of_nat (i + page_room va))) PTE_W \<noteq> 0 \<and>
      PTE2PA (leaf m pt (va + of_nat (i + page_room va))) \<notin> table_pages m pt \<union> set ps"
    if "i < n - page_room va" for i
  proof -
    have "i + page_room va < n" using that by simp
    then show ?thesis using assms(1) unfolding writable_range_def by blast
  qed
  ultimately show ?thesis
    using user_range_drop(1) [OF r assms(2)] unfolding writable_range_def shift by blast
qed

text \<open>The first page of a copy: what it writes and what it leaves.\<close>

lemma copyout_chunk:
  assumes ok: "vmok s pt ps" and w: "writable_range (mem s) pt ps va n"
    and k: "0 < k" "k \<le> n" "k \<le> page_room va" "length src = k"
  defines "m \<equiv> mem_write (mem s) (phys (mem s) pt va) src"
  shows "i < k \<Longrightarrow> m (phys (mem s) pt (va + of_nat i)) = src ! i"
    and "(\<And>i. i < k \<Longrightarrow> x \<noteq> phys (mem s) pt (va + of_nat i)) \<Longrightarrow> m x = mem s x"
    and "same_but {PTE2PA (leaf (mem s) pt va)} (mem s) m"
proof -
  have r: "user_range (mem s) pt va n" using w by (simp add: writable_range_def)
  have ph: "phys (mem s) pt (va + of_nat i) = phys (mem s) pt va + of_nat i" if "i < k" for i
    using phys_step(1) [OF r, of i] that k by simp
  have room: "page_room va \<le> 4096" by (simp add: page_room_eq)
  have un: "unat (of_nat i :: uint64) = i" if "i < k" for i
    using that k room by (simp add: unat_of_nat take_bit_nat_eq_self)
  show "m (phys (mem s) pt (va + of_nat i)) = src ! i" if "i < k"
    using that un [OF that] k by (simp add: m_def ph mem_write_def)
  show "m x = mem s x" if "\<And>i. i < k \<Longrightarrow> x \<noteq> phys (mem s) pt (va + of_nat i)"
  proof (cases "unat (x - phys (mem s) pt va) < k")
    case True
    have "x = phys (mem s) pt va + of_nat (unat (x - phys (mem s) pt va))" by simp
    then have False using that [OF True] ph [OF True] by metis
    then show ?thesis ..
  next
    case False
    then show ?thesis using k by (simp add: m_def mem_write_def)
  qed
  have "PGROUNDDOWN x = PTE2PA (leaf (mem s) pt va)" if x: "unat (x - phys (mem s) pt va) < k" for x
  proof (rule PGROUNDDOWN_in_page [OF aligned_PTE2PA])
    let ?o = "va - PGROUNDDOWN va" and ?y = "x - phys (mem s) pt va"
    have "unat ?o + unat ?y < 4096"
      using x k page_offset_unat [of va] by (simp add: page_room_eq)
    then have "unat (?o + ?y) < 4096" by (subst unat_add_small) auto
    moreover have "?o + ?y = x - PTE2PA (leaf (mem s) pt va)" by (simp add: phys_def)
    ultimately show "unat (x - PTE2PA (leaf (mem s) pt va)) < 4096" by metis
  qed
  then show "same_but {PTE2PA (leaf (mem s) pt va)} (mem s) m"
    using k by (auto simp: same_but_def m_def mem_write_def)
qed

lemma same_but_mono: "same_but X m m' \<Longrightarrow> X \<subseteq> Y \<Longrightarrow> same_but Y m m'"
  by (auto simp: same_but_def)

lemma writable_range_first:
  assumes "writable_range m pt ps va n" "0 < n"
  shows "user_pte m pt va" "PTE2PA (leaf m pt va) \<noteq> 0" "and (leaf m pt va) PTE_W \<noteq> 0"
    "PTE2PA (leaf m pt va) \<notin> table_pages m pt \<union> set ps"
proof -
  have "\<forall>i<n. user_pte m pt (va + of_nat i) \<and> PTE2PA (leaf m pt (va + of_nat i)) \<noteq> 0"
    "\<forall>i<n. and (leaf m pt (va + of_nat i)) PTE_W \<noteq> 0 \<and>
        PTE2PA (leaf m pt (va + of_nat i)) \<notin> table_pages m pt \<union> set ps"
    using assms(1) unfolding writable_range_def user_range_def by blast+
  from this [rule_format, OF assms(2)]
  show "user_pte m pt va" "PTE2PA (leaf m pt va) \<noteq> 0" "and (leaf m pt va) PTE_W \<noteq> 0"
    "PTE2PA (leaf m pt va) \<notin> table_pages m pt \<union> set ps" by simp_all
qed

lemma walk_writable:
  assumes ok: "vmok s pt ps" and u: "user_pte (mem s) pt va"
  shows "\<exists>pte. walk pt (PGROUNDDOWN va) False s = Ret pte s \<and> pte \<noteq> 0 \<and>
    load64 (mem s) pte = leaf (mem s) pt va"
proof -
  have va: "va < MAXVA" using u by (simp add: user_pte_def)
  have "PGROUNDDOWN va < MAXVA" using va PGROUNDDOWN_le [of va] by (metis le_less_trans)
  from walk_pte [OF ok this] show ?thesis
  proof cases
    case 1
    then show ?thesis using u leaf_PGROUNDDOWN [OF va] by (simp add: user_pte_def)
  next
    case (2 r)
    then show ?thesis using leaf_PGROUNDDOWN [OF va] by auto
  qed
qed

lemma copyout_ok:
  assumes "vmok s pt ps" "writable_range (mem s) pt ps va (length src)"
  shows "\<exists>m'. copyout pt va src s = Ret 0 (s\<lparr>mem := m'\<rparr>) \<and>
    (\<forall>i<length src. m' (phys (mem s) pt (va + of_nat i)) = src ! i) \<and>
    (\<forall>x. (\<forall>i<length src. x \<noteq> phys (mem s) pt (va + of_nat i)) \<longrightarrow> m' x = mem s x) \<and>
    same_but ((\<lambda>i. PTE2PA (leaf (mem s) pt (va + of_nat i))) ` {..<length src}) (mem s) m'"
  using assms
proof (induction "length src" arbitrary: src va s rule: less_induct)
  case less
  let ?n = "length src" and ?ph = "\<lambda>va. phys (mem s) pt va"
  note w = less.prems(2)
  show ?case
  proof (cases "src = []")
    case True
    then show ?thesis by (intro exI [of _ "mem s"]) (simp add: copyout.simps)
  next
    case False
    define k where "k = min (page_room va) ?n"
    define m where "m = mem_write (mem s) (?ph va) (take k src)"
    let ?s = "s\<lparr>mem := m\<rparr>" and ?va = "PGROUNDDOWN va + 4096"
    have k: "0 < k" "k \<le> ?n" "k \<le> page_room va" "length (take k src) = k"
      using False by (auto simp: k_def)
    have r: "user_range (mem s) pt va ?n" using w by (simp add: writable_range_def)
    have u: "user_pte (mem s) pt va" "PTE2PA (leaf (mem s) pt va) \<noteq> 0"
      "and (leaf (mem s) pt va) PTE_W \<noteq> 0"
      "PTE2PA (leaf (mem s) pt va) \<notin> table_pages (mem s) pt \<union> set ps"
      using writable_range_first [OF w] False by simp_all
    have va: "\<not> MAXVA \<le> PGROUNDDOWN va"
      using u(1) PGROUNDDOWN_le [of va] by (auto simp: user_pte_def)
    obtain pte where pte: "walk pt (PGROUNDDOWN va) False s = Ret pte s" "pte \<noteq> 0"
      "load64 (mem s) pte = leaf (mem s) pt va" using walk_writable [OF less.prems(1) u(1)] by blast
    have step: "copyout pt va src s = copyout pt ?va (drop k src) ?s"
      using False va pte u fault_in_mapped [OF less.prems(1) u(1,2)]
      by (subst copyout.simps) (simp add: Let_def k_def m_def set_mem_def phys_def)
    note c = copyout_chunk [OF less.prems(1) w k, folded m_def]
    note d = vmok_data [OF less.prems(1) c(3)]
    have ok: "vmok ?s pt ps" and lf: "\<And>va. leaf m pt va = leaf (mem s) pt va"
      and tpg: "table_pages m pt = table_pages (mem s) pt" using d u(4) by auto
    have first: "{PTE2PA (leaf (mem s) pt va)}
        \<subseteq> (\<lambda>i. PTE2PA (leaf (mem s) pt (va + of_nat i))) ` {..<?n}"
      using False by (auto intro!: image_eqI [of _ _ 0])
    have ph: "phys m pt = ?ph" by (simp add: phys_def lf fun_eq_iff)
    show ?thesis
    proof (cases "page_room va < ?n")
      case False
      then have "k = ?n" by (simp add: k_def)
      moreover from this have "copyout pt va src s = Ret 0 ?s" using step by (simp add: copyout.simps)
      ultimately show ?thesis using c(1,2) same_but_mono [OF c(3) first] by (intro exI [of _ m]) auto
    next
      case True
      then have kr: "k = page_room va" by (simp add: k_def)
      have va': "?va + of_nat i = va + of_nat (k + i)" for i
        using user_range_drop(2) [OF r] True kr by (simp add: ac_simps)
      have "writable_range m pt ps ?va (?n - k)"
        using writable_range_drop [OF w] True kr
        by (simp add: writable_range_def user_range_def user_pte_def lf tpg ph)
      moreover have lt: "length (drop k src) < ?n" using k False by simp
      ultimately have "\<exists>m'. copyout pt ?va (drop k src) ?s = Ret 0 (?s\<lparr>mem := m'\<rparr>) \<and>
        (\<forall>i<?n - k. m' (?ph (va + of_nat (k + i))) = src ! (k + i)) \<and>
        (\<forall>x. (\<forall>i<?n - k. x \<noteq> ?ph (va + of_nat (k + i))) \<longrightarrow> m' x = m x) \<and>
        same_but ((\<lambda>i. PTE2PA (leaf (mem s) pt (va + of_nat (k + i)))) ` {..<?n - k}) m m'"
        using less.hyps [OF lt, of ?s ?va] ok k(2) by (simp add: ph lf va' del: of_nat_add)
      then obtain m' where m': "copyout pt ?va (drop k src) ?s = Ret 0 (?s\<lparr>mem := m'\<rparr>)"
        "\<And>i. i < ?n - k \<Longrightarrow> m' (?ph (va + of_nat (k + i))) = src ! (k + i)"
        "\<And>x. (\<forall>i<?n - k. x \<noteq> ?ph (va + of_nat (k + i))) \<Longrightarrow> m' x = m x"
        "same_but ((\<lambda>i. PTE2PA (leaf (mem s) pt (va + of_nat (k + i)))) ` {..<?n - k}) m m'"
        by blast
      have inj: "?ph (va + of_nat i) \<noteq> ?ph (va + of_nat (k + j))" if "i < k" "j < ?n - k" for i j
      proof
        assume "?ph (va + of_nat i) = ?ph (va + of_nat (k + j))"
        then have "i = k + j" using w that k(2) unfolding writable_range_def
          by (intro inj_onD [of "\<lambda>i. ?ph (va + of_nat i)" "{..<?n}"]) auto
        then show False using that by simp
      qed
      have a: "m' (?ph (va + of_nat i)) = src ! i" if "i < ?n" for i
      proof (cases "i < k")
        case True
        then show ?thesis using m'(3) [of "?ph (va + of_nat i)"] inj c(1) by simp
      next
        case False
        then show ?thesis using m'(2) [of "i - k"] that k(2) by simp
      qed
      have b: "m' x = mem s x" if x: "\<forall>i<?n. x \<noteq> ?ph (va + of_nat i)" for x
      proof -
        have "m' x = m x" using x k(2) by (intro m'(3)) (auto simp del: of_nat_add)
        also have "\<dots> = mem s x" using x k(2) by (intro c(2)) auto
        finally show ?thesis .
      qed
      have "same_but ((\<lambda>i. PTE2PA (leaf (mem s) pt (va + of_nat i))) ` {..<?n}) (mem s) m'"
        using k by (intro same_but_trans [OF c(3) m'(4) first]) (auto simp del: of_nat_add)
      then show ?thesis using step m'(1) a b by auto
    qed
  qed
qed

subsection \<open>New tables and lazily allocated pages\<close>

lemma zero_table:
  assumes "lkok s" "Lk_kmem \<notin> held s" "kmem_inv s ps" "page_ok (kend s) pt" "pt \<notin> set ps"
    and z: "\<And>k. k < 512 \<Longrightarrow> load64 (mem s) (pte_addr pt k) = 0"
  shows "vmok s pt ps" "leaf (mem s) pt va = 0" "table_pages (mem s) pt = {pt}"
proof -
  have n: "next_table (mem s) pt i = None" if "i < 512" for i
    using z that by (intro next_table_zero)
  then have t: "tab0 (mem s) pt i j = None" if "i < 512" for i j using that by (simp add: tab0_def)
  show pages: "table_pages (mem s) pt = {pt}" using n t by (auto simp: table_pages_def)
  have "wf_table (kend s) (mem s) pt" unfolding wf_table_def pages using n t assms(4) by simp
  then show "vmok s pt ps" using assms pages by (simp add: vmok_def)
  show "leaf (mem s) pt va = 0" using t by (simp add: leaf_def entry_def)
qed

lemma same_but_zero_page:
  assumes "aligned p" "k < 4096"
  shows "memset m p 0 PGSIZE (p + of_nat k) = 0"
proof -
  have "unat (of_nat k :: uint64) = k" using assms(2) by (simp add: unat_of_nat take_bit_nat_eq_self)
  then show ?thesis using assms(2) by (simp add: memset_eq PGSIZE_def mem_write_def)
qed

lemma kmem_inv_memset:
  assumes "kmem_inv s ps" "aligned p" "p \<notin> set ps"
  shows "kmem_inv (s\<lparr>mem := memset (mem s) p c PGSIZE\<rparr>) ps"
proof -
  have "freelist_rep (memset (mem s) p c PGSIZE) (freelist s) ps = freelist_rep (mem s) (freelist s) ps"
    using assms by (intro freelist_rep_cong load64_memset_other) (auto simp: kmem_inv_def page_ok_def)
  then show ?thesis using assms(1) by (simp add: kmem_inv_def)
qed

lemma kalloc_vm:
  "lkok s \<Longrightarrow> Lk_kmem \<notin> held s \<Longrightarrow> kmem_inv s (p # ps) \<Longrightarrow> kalloc s = Ret p (kalloced p s)"
  "lkok s \<Longrightarrow> Lk_kmem \<notin> held s \<Longrightarrow> kmem_inv s [] \<Longrightarrow> kalloc s = Ret 0 (touch s)"
  by (auto simp: kalloc_eq [of "held s"] lkok_def kmem_inv_def)

lemma uvmcreate_ok:
  assumes "lkok s" "Lk_kmem \<notin> held s" "kmem_inv s (p # ps)"
  shows "\<exists>t. uvmcreate s = Ret p t \<and> vmok t p ps \<and> kmem_only s t \<and>
    (\<forall>va. leaf (mem t) p va = 0) \<and> table_pages (mem t) p = {p}"
proof -
  let ?k = "kalloced p s" and ?t = "(kalloced p s)\<lparr>mem := memset (mem (kalloced p s)) p 0 PGSIZE\<rparr>"
  have p: "page_ok (kend s) p" "p \<notin> set ps" "p \<noteq> 0" "aligned p"
    using assms(3) by (auto simp: kmem_inv_def page_ok_def)
  have only: "kmem_only s ?t" by simp
  have inv: "kmem_inv ?t ps" using kalloced_inv [OF assms(3)] p by (intro kmem_inv_memset) auto
  have z: "load64 (mem ?t) (pte_addr p k) = 0" if "k < 512" for k
    using that by (simp add: load64_zero_page)
  note zt = zero_table [OF _ _ inv _ _ z, unfolded kmem_only_simps [OF only], OF assms(1,2) p(1,2)]
  have "uvmcreate s = Ret p ?t"
    using kalloc_vm(1) [OF assms] p(3) by (simp add: uvmcreate_def set_mem_def)
  then show ?thesis using zt only by blast
qed

lemma vmok_memset:
  assumes "vmok s pt ps" "aligned p" "p \<notin> table_pages (mem s) pt" "p \<notin> set ps"
  shows "vmok (s\<lparr>mem := memset (mem s) p c PGSIZE\<rparr>) pt ps"
    "leaf (memset (mem s) p c PGSIZE) pt va = leaf (mem s) pt va"
    "table_pages (memset (mem s) p c PGSIZE) pt = table_pages (mem s) pt"
  using vmok_data [OF assms(1) same_but_memset [OF assms(2)]] assms(3,4) by auto

text \<open>A page that is neither a table nor free can be freed.\<close>

lemma vmok_kfreed:
  assumes "vmok s pt ps" "page_ok (kend s) p" "p \<notin> table_pages (mem s) pt" "p \<notin> set ps"
  shows "kfree p s = Ret () (kfreed p s)" "vmok (kfreed p s) pt (p # ps)"
    "leaf (mem (kfreed p s)) pt va = leaf (mem s) pt va"
    "table_pages (mem (kfreed p s)) pt = table_pages (mem s) pt"
proof -
  have inv: "kmem_inv s ps" "lkok s" "Lk_kmem \<notin> held s" using assms(1) by (auto simp: vmok_def)
  have al: "aligned p" using assms(2) by (simp add: page_ok_def)
  show "kfree p s = Ret () (kfreed p s)"
    using inv assms(2) by (intro kfree_eq [of "held s"]) (auto simp: lkok_def)
  have "same_but {p} (mem s) (mem (kfreed p s))"
    using same_but_trans [OF same_but_memset [OF al] same_but_store_pte [OF al, of 0],
        of "{p}" "mem s" 1 "freelist s"]
    by (simp add: kfreed_def pte_addr_def)
  note d = vmok_data [OF assms(1) this]
  show "leaf (mem (kfreed p s)) pt va = leaf (mem s) pt va"
    and tp: "table_pages (mem (kfreed p s)) pt = table_pages (mem s) pt"
    using d(2,3) assms(3,4) by auto
  have "vmok (s\<lparr>mem := mem (kfreed p s)\<rparr>) pt ps" using d(1) assms(3,4) by auto
  then show "vmok (kfreed p s) pt (p # ps)"
    using kfreed_inv [OF inv(1) assms(2,4)] tp assms(3) inv
    by (auto simp: vmok_def kmem_only_simps [OF kmem_only_kalloced(2)])
qed

lemma kmem_only_procs:
  assumes "kmem_only s t"
  shows "procs t = procs s" "nextpid t = nextpid s" "initproc t = initproc s"
proof -
  let ?r = "t\<lparr>mem := mem s, freelist := freelist s\<rparr>"
  have "procs ?r = procs s" "nextpid ?r = nextpid s" "initproc ?r = initproc s"
    using assms unfolding kmem_only_def by (auto simp only: proc_touch)
  then show "procs t = procs s" "nextpid t = nextpid s" "initproc t = initproc s" by simp_all
qed

lemma ismapped_eq:
  assumes "vmok s pt ps" "va < MAXVA"
  shows "ismapped pt va s = Ret (\<not> unmapped (mem s) pt va) s"
  using walk_pte [OF assms] by cases (auto simp: ismapped_def unmapped_def)

lemma mappages_page:
  assumes "vmok s pt ps" "aligned va" "va < MAXVA" "unmapped (mem s) pt va"
  shows "\<exists>r t ps'. mappages pt va 4096 pa perm s = Ret r t \<and> extends pt s ps t ps' \<and>
    (if r = 0 then \<forall>va'<MAXVA. leaf (mem t) pt va' =
        (if PGROUNDDOWN va' = va then mk_pte pa perm else leaf (mem s) pt va')
     else r = -1 \<and> length ps < 2 \<and> (\<forall>va'. leaf (mem t) pt va' = leaf (mem s) pt va'))"
proof -
  have "va mod 4096 = 0" using assms(2) by (simp add: aligned_mod)
  then have "mappages pt va 4096 pa perm s =
      (case mappages_one pt va pa perm s of
         Ret r t \<Rightarrow> Ret (case r of Some v \<Rightarrow> v | None \<Rightarrow> 0) t | Halt e t \<Rightarrow> Halt e t)"
    by (auto simp: mappages_def split: outcome.splits option.splits)
  moreover obtain r t ps' where "mappages_one pt va pa perm s = Ret r t" "extends pt s ps t ps'"
    "case r of
       None \<Rightarrow> \<forall>va'<MAXVA. leaf (mem t) pt va' =
         (if PGROUNDDOWN va' = PGROUNDDOWN va then mk_pte pa perm else leaf (mem s) pt va')
     | Some c \<Rightarrow> c = -1 \<and> length ps < 2 \<and> (\<forall>va'. leaf (mem t) pt va' = leaf (mem s) pt va')"
    using mappages_one_ok [OF assms(1,3,4), of pa perm] by blast
  ultimately show ?thesis using assms(2) by (cases r) auto
qed

lemma vmfault_map:
  assumes ok: "vmok s pt (p # ps)" and va: "aligned va" "va < MAXVA" "unmapped (mem s) pt va"
  defines "u \<equiv> (kalloced p s)\<lparr>mem := memset (mem (kalloced p s)) p 0 PGSIZE\<rparr>"
  shows "\<exists>r t ps'. mappages pt va 4096 p perm u = Ret r t \<and> vmok t pt ps' \<and> kmem_only s t \<and>
    p \<notin> set ps' \<and> p \<notin> table_pages (mem t) pt \<and> (\<forall>k<4096. mem t (p + of_nat k) = 0) \<and>
    (if r = 0 then \<forall>va'<MAXVA. leaf (mem t) pt va' =
        (if PGROUNDDOWN va' = va then mk_pte p perm else leaf (mem s) pt va')
     else r = -1 \<and> length ps < 2 \<and> (\<forall>va'. leaf (mem t) pt va' = leaf (mem s) pt va'))"
proof -
  note k = vmok_kalloced [OF ok]
  have al: "aligned p" using k(2) by (simp add: page_ok_def)
  have lk: "leaf (mem (kalloced p s)) pt va' = leaf (mem s) pt va'" for va'
    using k(8) by (intro leaf_entry)
  have fresh: "p \<notin> table_pages (mem (kalloced p s)) pt" using k(4,5) by simp
  note m = vmok_memset [OF k(1) al fresh k(3), of 0]
  have u: "vmok u pt ps" "\<And>va'. leaf (mem u) pt va' = leaf (mem s) pt va'"
    "table_pages (mem u) pt = table_pages (mem s) pt" "kmem_only s u"
    using m lk k(5) by (simp_all add: u_def)
  have "unmapped (mem u) pt va" using va(3) u(2) by (simp add: unmapped_def)
  then obtain r t ps' where t: "mappages pt va 4096 p perm u = Ret r t" "extends pt u ps t ps'"
    "if r = 0 then \<forall>va'<MAXVA. leaf (mem t) pt va' =
        (if PGROUNDDOWN va' = va then mk_pte p perm else leaf (mem u) pt va')
     else r = -1 \<and> length ps < 2 \<and> (\<forall>va'. leaf (mem t) pt va' = leaf (mem u) pt va')"
    using mappages_page [OF u(1) va(1,2), of p perm] by blast
  have tp: "p \<notin> table_pages (mem u) pt \<union> set ps" using k(3,4) u(3) by simp
  have z: "mem t (p + of_nat k) = 0" if "k < 4096" for k
  proof -
    have "unat (p + of_nat k - p) < 4096"
      using that by (simp add: unat_of_nat take_bit_nat_eq_self)
    then have "PGROUNDDOWN (p + of_nat k) = p" by (intro PGROUNDDOWN_in_page [OF al])
    then have "mem t (p + of_nat k) = mem u (p + of_nat k)"
      using t(2) tp by (auto simp: extends_def same_but_def)
    then show ?thesis using same_but_zero_page [OF al that] by (simp add: u_def)
  qed
  have "p \<notin> set ps'" "p \<notin> table_pages (mem t) pt" using t(2) tp by (auto simp: extends_def)
  moreover have "kmem_only s t" "vmok t pt ps'"
    using t(2) u(4) by (auto simp: extends_def intro: kmem_only_trans)
  ultimately show ?thesis using t(1,3) z u(2) by (intro exI [of _ r] exI [of _ t] exI [of _ ps']) auto
qed

lemma vmfault_ok:
  assumes ok: "vmok s pt ps" and p: "myp s = Some i" "ppagetable (procs s i) = pt"
    and va: "va < psz (procs s i)" "va < MAXVA" "unmapped (mem s) pt va"
  shows "\<exists>r t ps'. vmfault pt va s = Ret r t \<and> vmok t pt ps' \<and> procs t = procs s \<and>
    (if r = 0 then length ps < 3 \<and> (ps \<noteq> [] \<longrightarrow> hd ps \<in> set ps') \<and> (\<forall>va'. leaf (mem t) pt va' = leaf (mem s) pt va')
     else r \<in> set ps \<and> r \<notin> set ps' \<and> (\<forall>k<4096. mem t (r + of_nat k) = 0) \<and>
       (\<forall>va'<MAXVA. leaf (mem t) pt va' =
         (if PGROUNDDOWN va' = PGROUNDDOWN va then mk_pte r (or (or PTE_W PTE_U) PTE_R)
          else leaf (mem s) pt va')))"
proof -
  let ?va = "PGROUNDDOWN va" and ?perm = "or (or PTE_W PTE_U) PTE_R"
  let ?s = "touch s"
  have va0: "?va < MAXVA" using va(2) PGROUNDDOWN_le [of va] by (metis le_less_trans)
  have un: "unmapped (mem ?s) pt ?va" using va(3) leaf_PGROUNDDOWN [OF va(2)] by (simp add: unmapped_def)
  have lk: "lkok s" "Lk_kmem \<notin> held s" "kmem_inv s ps" using ok by (auto simp: vmok_def)
  have start: "vmfault pt va s = kbind kalloc (\<lambda>m.
         if m = 0 then kret 0
         else kseq (set_mem (\<lambda>mm. memset mm m 0 PGSIZE)) (
              kbind (mappages pt ?va 4096 m ?perm) (\<lambda>r.
              if r \<noteq> 0 then kseq (kfree m) (kret 0) else kret m))) ?s"
    using p va(1) ismapped_eq [of ?s pt ps ?va] ok va0 un lk
    by (simp add: vmfault_def Let_def not_le [symmetric] cong: outcome.case_cong if_cong)
  show ?thesis
  proof (cases ps)
    case Nil
    then show ?thesis using start ok lk kalloc_vm(2) [of ?s]
      by (auto intro!: exI [of _ 0] exI [of _ "touch s"] exI [of _ "[]"])
  next
    case (Cons q qs)
    have ok': "vmok ?s pt (q # qs)" using ok Cons by simp
    have q: "q \<noteq> 0" "page_ok (kend s) q" "q \<notin> set qs"
      using vmok_kalloced(2,3) [OF ok'] page_ok_nonzero [of s ps q] lk(3) by auto
    obtain r t ps' where t: "mappages pt ?va 4096 q ?perm
        ((kalloced q ?s)\<lparr>mem := memset (mem (kalloced q ?s)) q 0 PGSIZE\<rparr>) = Ret r t"
      "vmok t pt ps'" "kmem_only ?s t" "q \<notin> set ps'" "q \<notin> table_pages (mem t) pt"
      "\<forall>k<4096. mem t (q + of_nat k) = 0"
      "if r = 0 then \<forall>va'<MAXVA. leaf (mem t) pt va' =
        (if PGROUNDDOWN va' = ?va then mk_pte q ?perm else leaf (mem ?s) pt va')
     else r = -1 \<and> length qs < 2 \<and> (\<forall>va'. leaf (mem t) pt va' = leaf (mem ?s) pt va')"
      using vmfault_map [OF ok' aligned_PGROUNDDOWN va0 un, of ?perm] by blast
    have run: "vmfault pt va s = (if r \<noteq> 0 then kseq (kfree q) (kret 0) t else Ret q t)"
      using start kalloc_vm(1) [of ?s q qs] lk Cons q(1) t(1) by (simp add: set_mem_def)
    note ks = kmem_only_simps [OF t(3)] kmem_only_procs [OF t(3)]
    show ?thesis
    proof (cases "r = 0")
      case True
      then show ?thesis using run t q(1) ks Cons
        by (intro exI [of _ q] exI [of _ t] exI [of _ ps']) auto
    next
      case False
      have "page_ok (kend t) q" using q(2) ks(1) by simp
      note f = vmok_kfreed [OF t(2) this t(5,4)]
      have "procs (kfreed q t) = procs s" using ks by (simp add: kfreed_def)
      then show ?thesis using False run t(7) f Cons
        by (intro exI [of _ 0] exI [of _ "kfreed q t"] exI [of _ "q # ps'"]) auto
    qed
  qed
qed

lemma find_unique:
  assumes "i \<in> set xs" "P i" "\<And>j. j \<in> set xs \<Longrightarrow> P j \<Longrightarrow> j = i"
  shows "find P xs = Some i"
proof (cases "find P xs")
  case None
  then show ?thesis using assms(1,2) by (auto simp: find_None_iff)
next
  case (Some j)
  then have "j \<in> set xs" "P j" by (auto simp: find_Some_iff)
  then show ?thesis using Some assms(3) by simp
qed

subsection \<open>Properties\<close>

text \<open>
  A state to evaluate on: process 3 runs with an empty page table at \<open>0x87001000\<close> and a size of
  three pages, and four pages are free.
\<close>

definition vm_ex0 :: proc_state where
  "vm_ex0 = proc_ex_run\<lparr>kend := 0x87000000, procs := (\<lambda>_. idle_proc)
     (3 := idle_proc\<lparr>pstate := RUNNING, ppagetable := 0x87001000, psz := 0x3000\<rparr>)\<rparr>"

definition vm_ex :: proc_state where
  "vm_ex = kfreed 0x87005000 (kfreed 0x87004000 (kfreed 0x87003000 (kfreed 0x87002000 vm_ex0)))"

lemma same_but_kfreed: "aligned p \<Longrightarrow> same_but {p} (mem s) (mem (kfreed p s))"
  using same_but_trans [OF same_but_memset same_but_store_pte [of p 0],
      of p "{p}" "mem s" 1 "freelist s"]
  by (simp add: kfreed_def pte_addr_def)

lemma vm_ex_aligned:
  "aligned 0x87001000" "aligned 0x87002000" "aligned 0x87003000" "aligned 0x87004000"
  "aligned 0x87005000" "aligned 0x87010000"
  by (simp_all add: aligned_def)

lemma vm_ex_ok:
  "vmok vm_ex 0x87001000 [0x87005000, 0x87004000, 0x87003000, 0x87002000]"
  "leaf (mem vm_ex) 0x87001000 va = 0" "table_pages (mem vm_ex) 0x87001000 = {0x87001000}"
proof -
  have k: "kend vm_ex0 = 0x87000000" "freelist vm_ex0 = 0" "mem vm_ex0 = (\<lambda>_. 0)"
    by (simp_all add: vm_ex0_def proc_ex_run_def proc_ex_def kmem_ex_def kmem_state.extend_def)
  have "kmem_inv vm_ex0 []" by (simp add: kmem_inv_def k)
  then have inv: "kmem_inv vm_ex [0x87005000, 0x87004000, 0x87003000, 0x87002000]"
    unfolding vm_ex_def
    by (intro kfreed_inv) (simp_all add: k page_ok_def vm_ex_aligned PHYSTOP_def KERNBASE_def)
  have h: "holds {} proc_ex_run" by (simp add: holds_iff)
  have "holds {} vm_ex0"
    using h by (simp add: vm_ex0_def holds_def lock_free_def)
  then have lk: "lkok vm_ex" "held vm_ex = {}"
    by (simp_all add: vm_ex_def holds_iff kmem_only_simps [OF kmem_only_kalloced(2)])
  let ?X = "{0x87002000, 0x87003000, 0x87004000, 0x87005000 :: uint64}"
  have sb: "same_but ?X (mem vm_ex0) (mem vm_ex)" unfolding vm_ex_def
    by (rule same_but_trans [OF same_but_trans [OF same_but_trans
          [OF same_but_kfreed same_but_kfreed, where Z = ?X] same_but_kfreed, where Z = ?X]
          same_but_kfreed]) (simp_all add: vm_ex_aligned)
  have "load64 (mem vm_ex) (pte_addr 0x87001000 k) = 0" if "k < 512" for k
  proof -
    have "load64 (mem vm_ex) (pte_addr 0x87001000 k) = load64 (mem vm_ex0) (pte_addr 0x87001000 k)"
      using that vm_ex_aligned by (intro load64_same_but [OF sb]) auto
    also have "\<dots> = 0" by (simp add: k load64_def mem_read_def map_replicate_const)
    finally show ?thesis .
  qed
  note z = zero_table [OF lk(1) _ inv _ _ this]
  have "kend vm_ex = 0x87000000" by (simp add: vm_ex_def k)
  then have pg: "page_ok (kend vm_ex) 0x87001000"
    by (simp add: page_ok_def vm_ex_aligned PHYSTOP_def KERNBASE_def)
  show "vmok vm_ex 0x87001000 [0x87005000, 0x87004000, 0x87003000, 0x87002000]"
    "leaf (mem vm_ex) 0x87001000 va = 0" "table_pages (mem vm_ex) 0x87001000 = {0x87001000}"
    by (intro z; simp add: lk pg)+
qed

text \<open>
  C27. \<^verbatim>\<open>mappages\<close> on a well-formed page table and unmapped, aligned addresses below \<^verbatim>\<open>MAXVA\<close> never
  panics. If it returns 0, every page of the range is mapped to the corresponding physical page
  with the given permissions, and every address outside the range is mapped as before; if it
  returns -1, fewer pages than the tables may need were free. The table stays a tree of its own
  pages, and memory outside the tables and the pages that were free is unchanged.
\<close>

theorem mappages_correct:
  assumes "vmok s pt ps" "aligned va" "aligned len" "0 < len" "unat va + unat len \<le> 2 ^ 38"
    and "\<And>i. i < unat len div 4096 \<Longrightarrow> unmapped (mem s) pt (va + of_nat (i * 4096))"
  shows "\<exists>r t ps'. mappages pt va len pa perm s = Ret r t \<and> vmok t pt ps' \<and> kmem_only s t \<and>
    same_but (table_pages (mem s) pt \<union> set ps) (mem s) (mem t) \<and>
    (if r = 0 then
       (\<forall>i<unat len div 4096. leaf (mem t) pt (va + of_nat (i * 4096)) =
          or (or (PA2PTE (pa + of_nat (i * 4096))) perm) PTE_V) \<and>
       (\<forall>va'<MAXVA. unat va' < unat va \<or> unat va + unat len \<le> unat va' \<longrightarrow>
          leaf (mem t) pt va' = leaf (mem s) pt va')
     else r = -1 \<and> length ps < 2 * (unat len div 4096))"
proof -
  define n where "n = unat len div 4096"
  define a where "a i = va + of_nat (i * 4096)" for i
  have len: "unat len = n * 4096" using assms(3) by (simp add: n_def aligned_def)
  have u: "unat (a i) = unat va + i * 4096" if "i < n" for i
    using unat_page_step [of va n i] assms(5) len that by (simp add: a_def)
  obtain r t ps' where t: "mappages pt va len pa perm s = Ret r t" "extends pt s ps t ps'"
    "if r = 0 then \<forall>va'<MAXVA. leaf (mem t) pt va' = (case find (\<lambda>i. PGROUNDDOWN va' = a i) [0..<n] of
       Some i \<Rightarrow> mk_pte (pa + of_nat (i * 4096)) perm | None \<Rightarrow> leaf (mem s) pt va')
     else r = -1 \<and> length ps < 2 * n"
    using mappages_ok [OF assms, of pa perm] unfolding n_def a_def by blast
  have in_range: "leaf (mem t) pt (a i) = mk_pte (pa + of_nat (i * 4096)) perm" if "i < n" "r = 0" for i
  proof -
    have "i * 4096 + 4096 \<le> n * 4096" using that by simp
    then have "a i < MAXVA" "aligned (a i)"
      using u [OF that(1)] assms(2,5) len by (auto simp: MAXVA_unat aligned_def)
    moreover have "find (\<lambda>j. a i = a j) [0..<n] = Some i"
    proof (rule find_unique)
      show "i \<in> set [0..<n]" "a i = a i" using that by simp_all
      fix j assume "j \<in> set [0..<n]" and eq: "a i = a j"
      then have "unat va + i * 4096 = unat va + j * 4096"
        using u [of i] u [of j] that by (metis atLeastLessThan_iff set_upt)
      then show "j = i" by simp
    qed
    ultimately show ?thesis using t(3) that by simp
  qed
  have out: "leaf (mem t) pt va' = leaf (mem s) pt va'"
    if "va' < MAXVA" "unat va' < unat va \<or> unat va + unat len \<le> unat va'" "r = 0" for va'
  proof -
    have "PGROUNDDOWN va' \<noteq> a i" if "i < n" for i
    proof
      assume eq: "PGROUNDDOWN va' = a i"
      obtain k where k: "unat va = 4096 * k" using assms(2) by (auto simp: aligned_def dvd_def)
      have "unat va' div 4096 * 4096 = (k + i) * 4096"
        using u [OF that] k unat_PGROUNDDOWN [of va'] eq by simp
      moreover have "unat va' mod 4096 < 4096" by simp
      ultimately have "4096 * (k + i) \<le> unat va'" "unat va' < 4096 * (k + i) + 4096"
        using div_mult_mod_eq [of "unat va'" 4096] by linarith+
      moreover have "4096 * (k + i) + 4096 \<le> 4096 * k + n * 4096" using that by simp
      ultimately show False using \<open>unat va' < unat va \<or> _\<close> k len by auto
    qed
    then have "find (\<lambda>i. PGROUNDDOWN va' = a i) [0..<n] = None" by (auto simp: find_None_iff)
    then show ?thesis using t(3) that by simp
  qed
  show ?thesis
    using t in_range out unfolding n_def [symmetric] a_def [symmetric] mk_pte_def [symmetric]
    by (intro exI [of _ r] exI [of _ t] exI [of _ ps']) (auto simp: extends_def)
qed

theorem mappages_correct_witness:
  "\<exists>t ps'. mappages 0x87001000 0 4096 0x87010000 22 vm_ex = Ret 0 t \<and> vmok t 0x87001000 ps'
    \<and> leaf (mem t) 0x87001000 0 = 0x21C04017 \<and> leaf (mem t) 0x87001000 0x2000 = 0"
proof -
  have "unmapped (mem vm_ex) 0x87001000 va" for va by (simp add: unmapped_def vm_ex_ok(2))
  then obtain r t ps' where t: "mappages 0x87001000 0 4096 0x87010000 22 vm_ex = Ret r t"
    "vmok t 0x87001000 ps'"
    "if r = 0 then
       (\<forall>i<unat (4096 :: uint64) div 4096. leaf (mem t) 0x87001000 (0 + of_nat (i * 4096)) =
          or (or (PA2PTE (0x87010000 + of_nat (i * 4096))) 22) PTE_V) \<and>
       (\<forall>va'<MAXVA. unat va' < unat (0 :: uint64) \<or> unat (0 :: uint64) + unat (4096 :: uint64) \<le> unat va'
          \<longrightarrow> leaf (mem t) 0x87001000 va' = leaf (mem vm_ex) 0x87001000 va')
     else r = -1 \<and> length [0x87005000, 0x87004000, 0x87003000, 0x87002000 :: uint64]
       < 2 * (unat (4096 :: uint64) div 4096)"
    using mappages_correct [OF vm_ex_ok(1), of 0 4096 "0x87010000" 22] by (auto simp: aligned_def)
  then have r: "r = 0" by (auto split: if_splits)
  have "leaf (mem t) 0x87001000 0 = or (or (PA2PTE 0x87010000) 22) PTE_V" using t(3) r by simp
  then have "leaf (mem t) 0x87001000 0 = 0x21C04017" by (simp add: PA2PTE_def PTE_V_def)
  moreover have "leaf (mem t) 0x87001000 0x2000 = 0"
    using t(3) r by (simp add: MAXVA_unat vm_ex_ok(2))
  ultimately show ?thesis using t(1,2) r by auto
qed

text \<open>
  C28. User copies: on a range of user addresses that are mapped, accessible and writable, to
  different bytes of pages that are neither page tables nor free, \<^verbatim>\<open>copyout\<close> returns 0, across any
  number of page boundaries; \<^verbatim>\<open>copyin\<close> of the same range then returns exactly the bytes copied.
  Every byte of memory outside the range's physical addresses and every mapping is unchanged.
\<close>

theorem copyout_copyin:
  assumes "vmok s pt ps" "writable_range (mem s) pt ps va (length src)"
  shows "\<exists>t. copyout pt va src s = Ret 0 t \<and> copyin pt va (length src) t = Ret (0, src) t \<and>
    vmok t pt ps \<and> (\<forall>va'. leaf (mem t) pt va' = leaf (mem s) pt va') \<and>
    (\<forall>x. x \<notin> (\<lambda>i. phys (mem s) pt (va + of_nat i)) ` {..<length src} \<longrightarrow> mem t x = mem s x)"
proof -
  let ?X = "(\<lambda>i. PTE2PA (leaf (mem s) pt (va + of_nat i))) ` {..<length src}"
  obtain m where m: "copyout pt va src s = Ret 0 (s\<lparr>mem := m\<rparr>)"
    "\<forall>i<length src. m (phys (mem s) pt (va + of_nat i)) = src ! i"
    "\<forall>x. (\<forall>i<length src. x \<noteq> phys (mem s) pt (va + of_nat i)) \<longrightarrow> m x = mem s x"
    "same_but ?X (mem s) m" using copyout_ok [OF assms] by blast
  have "?X \<inter> (table_pages (mem s) pt \<union> set ps) = {}"
    using assms(2) by (auto simp: writable_range_def)
  note d = vmok_data [OF assms(1) m(4) this]
  have ph: "phys m pt = phys (mem s) pt" by (simp add: phys_def d(2) fun_eq_iff)
  have "user_range m pt va (length src)"
    using assms(2) by (simp add: writable_range_def user_range_def user_pte_def d(2))
  then have "copyin pt va (length src) (s\<lparr>mem := m\<rparr>) =
      Ret (0, map (\<lambda>i. m (phys m pt (va + of_nat i))) [0..<length src]) (s\<lparr>mem := m\<rparr>)"
    using copyin_ok [OF d(1)] by simp
  moreover have "map (\<lambda>i. m (phys m pt (va + of_nat i))) [0..<length src] = src"
    using m(2) ph by (intro nth_equalityI) auto
  ultimately show ?thesis using m(1,3) d by (intro exI [of _ "s\<lparr>mem := m\<rparr>"]) auto
qed

lemma vm_ex_mapped:
  "\<exists>(t :: proc_state) ps'. vmok t 0x87001000 ps' \<and> writable_range (mem t) 0x87001000 ps' 5 3 \<and> kmem_only vm_ex t"
proof -
  have "unmapped (mem vm_ex) 0x87001000 0" by (simp add: unmapped_def vm_ex_ok(2))
  then obtain r t ps' where "mappages 0x87001000 0 4096 0x87010000 22 vm_ex = Ret r t"
    and t: "extends 0x87001000 vm_ex [0x87005000, 0x87004000, 0x87003000, 0x87002000] t ps'"
    "if r = 0 then \<forall>va'<MAXVA. leaf (mem t) 0x87001000 va' =
        (if PGROUNDDOWN va' = 0 then mk_pte 0x87010000 22 else leaf (mem vm_ex) 0x87001000 va')
     else r = -1 \<and> length [0x87005000, 0x87004000, 0x87003000, 0x87002000 :: uint64] < 2 \<and>
       (\<forall>va'. leaf (mem t) 0x87001000 va' = leaf (mem vm_ex) 0x87001000 va')"
    using mappages_page [OF vm_ex_ok(1), of 0 "0x87010000" 22]
    by (auto simp: aligned_def MAXVA_unat)
  then have r: "r = 0" by (auto split: if_splits)
  have un: "unat (5 + of_nat i :: uint64) = 5 + i" if "i < 3" for i
    using that by (simp add: unat_word_ariths unat_of_nat take_bit_nat_eq_self)
  have pg: "PGROUNDDOWN (5 + of_nat i) = 0" if "i < 3" for i
    using un [OF that] that by (simp add: word_unat_eq_iff unat_PGROUNDDOWN)
  have lf: "leaf (mem t) 0x87001000 (5 + of_nat i) = 0x21C04017" if "i < 3" for i
  proof -
    have "leaf (mem t) 0x87001000 (5 + of_nat i) = mk_pte 0x87010000 22"
      using t(2) r that pg [OF that] un [OF that] by (simp add: MAXVA_unat)
    then show ?thesis by (simp add: mk_pte_def PA2PTE_def PTE_V_def)
  qed
  have pa: "PTE2PA 0x21C04017 = 0x87010000" by (simp add: PTE2PA_def)
  have "0x87010000 \<notin> table_pages (mem t) 0x87001000 \<union> set ps'"
  proof -
    obtain us where "[0x87005000, 0x87004000, 0x87003000, 0x87002000] = us @ ps'"
      using t(1) by (auto simp: extends_def)
    then have "set ps' \<subseteq> {0x87005000, 0x87004000, 0x87003000, 0x87002000}"
      by (metis Un_upper2 empty_set list.simps(15) set_append)
    moreover have "table_pages (mem t) 0x87001000
        \<subseteq> {0x87001000, 0x87005000, 0x87004000, 0x87003000, 0x87002000}"
      using t(1) vm_ex_ok(3) by (auto simp: extends_def)
    ultimately show ?thesis by auto
  qed
  moreover have "inj_on (\<lambda>i. phys (mem t) 0x87001000 (5 + of_nat i)) {..<3}"
  proof (rule inj_onI)
    fix i j :: nat
    assume ij: "i \<in> {..<3}" "j \<in> {..<3}"
      and eq: "phys (mem t) 0x87001000 (5 + of_nat i) = phys (mem t) 0x87001000 (5 + of_nat j)"
    then have "(5 + of_nat i :: uint64) = 5 + of_nat j" by (simp add: phys_def lf pa pg)
    then have "5 + i = 5 + j" using un [of i] un [of j] ij by (metis lessThan_iff)
    then show "i = j" by simp
  qed
  ultimately have "writable_range (mem t) 0x87001000 ps' 5 3"
    using lf pa un by (simp add: writable_range_def user_range_def user_pte_def PTE_V_def PTE_U_def
      PTE_W_def MAXVA_unat)
  then show ?thesis using t(1) by (auto simp: extends_def)
qed

theorem copyout_copyin_witness:
  "\<exists>(s :: proc_state) t ps. writable_range (mem s) 0x87001000 ps 5 3 \<and> copyout 0x87001000 5 [1, 2, 3] s = Ret 0 t
    \<and> copyin 0x87001000 5 3 t = Ret (0, [1, 2, 3]) t"
proof -
  obtain s :: proc_state and ps where s: "vmok s 0x87001000 ps" "writable_range (mem s) 0x87001000 ps 5 3"
    using vm_ex_mapped by blast
  moreover have "length [1, 2, 3 :: uint8] = 3" by simp
  ultimately show ?thesis using copyout_copyin [of s "0x87001000" ps 5 "[1, 2, 3]"] by metis
qed

text \<open>
  A fault at an address above \<^verbatim>\<open>MAXVA\<close> but below the size of the process stops the kernel. The size gets there by
  \<^verbatim>\<open>sys_sbrk\<close> with lazy allocation, which tests only for overflow.
\<close>

lemma vmfault_beyond:
  assumes "lkok s" "myp s = Some i" "va < psz (procs s i)" "MAXVA \<le> PGROUNDDOWN va"
  shows "vmfault pt va s = Halt (Panic ''walk'') (touch s)"
  using assms by (simp add: vmfault_def ismapped_def walk_def Let_def not_le [symmetric])

text \<open>
  C29. Lazy allocation: \<^verbatim>\<open>vmfault\<close> for an unmapped address below the process's size and \<^verbatim>\<open>MAXVA\<close>
  takes one of the free pages, fills it with zeros, maps it at the address's page readable,
  writable and accessible to the user, changes no other mapping and returns it. It returns 0 only
  when fewer than three pages were free (the page and two tables), and then no mapping changes and
  the page it had taken, the first of the free list, is free again.
\<close>

theorem vmfault_correct:
  assumes "vmok s pt ps" "myp s = Some i" "ppagetable (procs s i) = pt"
    "va < psz (procs s i)" "va < MAXVA" "unmapped (mem s) pt va"
  shows "\<exists>r t ps'. vmfault pt va s = Ret r t \<and> vmok t pt ps' \<and> procs t = procs s \<and>
    (if r = 0 then length ps < 3 \<and> (ps \<noteq> [] \<longrightarrow> hd ps \<in> set ps') \<and> (\<forall>va'. leaf (mem t) pt va' = leaf (mem s) pt va')
     else r \<in> set ps \<and> r \<notin> set ps' \<and> (\<forall>k<4096. mem t (r + of_nat k) = 0) \<and>
       (\<forall>va'<MAXVA. leaf (mem t) pt va' =
         (if PGROUNDDOWN va' = PGROUNDDOWN va
          then or (or (PA2PTE r) (or (or PTE_W PTE_U) PTE_R)) PTE_V else leaf (mem s) pt va')))"
  using vmfault_ok [OF assms] unfolding mk_pte_def .

theorem vmfault_correct_witness:
  "\<exists>r t ps'. vmfault 0x87001000 0x1234 vm_ex = Ret r t \<and> r \<noteq> 0 \<and> vmok t 0x87001000 ps'
    \<and> mem t (r + of_nat 7) = 0"
proof -
  have p: "myp vm_ex = Some 3" "ppagetable (procs vm_ex 3) = 0x87001000"
    "psz (procs vm_ex 3) = 0x3000"
    by (simp_all add: vm_ex_def vm_ex0_def kfreed_def)
  have "unmapped (mem vm_ex) 0x87001000 0x1234" by (simp add: unmapped_def vm_ex_ok(2))
  then obtain r t ps' where r: "vmfault 0x87001000 0x1234 vm_ex = Ret r t" "vmok t 0x87001000 ps'"
    "if r = 0 then length [0x87005000, 0x87004000, 0x87003000, 0x87002000 :: uint64] < 3 \<and>
       ([0x87005000, 0x87004000, 0x87003000, 0x87002000 :: uint64] \<noteq> [] \<longrightarrow> hd [0x87005000, 0x87004000, 0x87003000, 0x87002000 :: uint64] \<in> set ps') \<and>
       (\<forall>va'. leaf (mem t) 0x87001000 va' = leaf (mem vm_ex) 0x87001000 va')
     else r \<in> set [0x87005000, 0x87004000, 0x87003000, 0x87002000] \<and> r \<notin> set ps' \<and>
       (\<forall>k<4096. mem t (r + of_nat k) = 0) \<and>
       (\<forall>va'<MAXVA. leaf (mem t) 0x87001000 va' =
         (if PGROUNDDOWN va' = PGROUNDDOWN 0x1234
          then or (or (PA2PTE r) (or (or PTE_W PTE_U) PTE_R)) PTE_V
          else leaf (mem vm_ex) 0x87001000 va'))"
    using vmfault_correct [OF vm_ex_ok(1) p(1,2), of "0x1234"] p(3) by (auto simp: MAXVA_unat)
  then have "r \<noteq> 0" by (cases "r = 0") simp_all
  then have "\<forall>k<4096. mem t (r + of_nat k) = 0" using r(3) unfolding if_not_P [OF \<open>r \<noteq> 0\<close>] by blast
  then have "mem t (r + of_nat 7) = 0" by (rule allE [of _ 7]) simp
  then show ?thesis using r(1,2) \<open>r \<noteq> 0\<close> by blast
qed

end
