(* ===== verification/Userbuf.thy ===== *)
theory Userbuf
  imports Usermem
begin

section \<open>Buffers in user memory\<close>

text \<open>
  Reading and filling a buffer of the running process one byte at a time, as the pipe and the console do:
  \<open>user_bytes\<close> is what a range of user addresses holds, \<open>delivered\<close> says that bytes have arrived there.
\<close>

definition user_bytes :: "memory \<Rightarrow> uint64 \<Rightarrow> uint64 \<Rightarrow> nat \<Rightarrow> bytes" where
  "user_bytes m pt va n = map (\<lambda>i. m (phys m pt (va + of_nat i))) [0..<n]"

lemma user_bytes_0 [simp]: "user_bytes m pt va 0 = []"
  by (simp add: user_bytes_def)

lemma length_user_bytes [simp]: "length (user_bytes m pt va n) = n"
  by (simp add: user_bytes_def)

lemma user_bytes_Suc: "user_bytes m pt va (Suc n) = m (phys m pt va) # user_bytes m pt (va + 1) n"
  by (simp add: user_bytes_def upt_conv_Cons map_Suc_upt [symmetric] ac_simps del: upt_Suc map_Suc_upt)

lemma user_range_Suc:
  assumes "user_range m pt va (Suc n)"
  shows "user_range m pt va 1" "user_range m pt (va + 1) n"
proof -
  show "user_range m pt va 1" using assms by (auto simp: user_range_def)
  have "unat va + 1 < 2 ^ 64" using assms by (simp add: user_range_def)
  then have "unat (va + 1) = unat va + 1" by (simp add: unat_word_ariths)
  moreover have "va + 1 + of_nat i = va + of_nat (Suc i)" for i by simp
  ultimately show "user_range m pt (va + 1) n" using assms unfolding user_range_def by (metis Suc_less_eq add.assoc add_Suc_right plus_1_eq_Suc)
qed

text \<open>
  \<open>delivered\<close>: the bytes \<open>bs\<close> are in the process's memory from \<open>va\<close> on and nothing else of memory
  and no mapping has changed.
\<close>

definition delivered :: "uint64 \<Rightarrow> uint64 \<Rightarrow> bytes \<Rightarrow> memory \<Rightarrow> memory \<Rightarrow> bool" where
  "delivered pt va bs m m' \<longleftrightarrow> user_bytes m' pt va (length bs) = bs
     \<and> (\<forall>a. leaf m' pt a = leaf m pt a)
     \<and> (\<forall>x. x \<notin> (\<lambda>i. phys m pt (va + of_nat i)) ` {..<length bs} \<longrightarrow> m' x = m x)"

lemma phys_leaf: "(\<And>a. leaf m' pt a = leaf m pt a) \<Longrightarrow> phys m' pt = phys m pt"
  by (simp add: phys_def fun_eq_iff)

lemma writable_range_Suc:
  assumes "writable_range m pt ps va (Suc n)"
  shows "writable_range m pt ps va 1" "writable_range m pt ps (va + 1) n"
    "\<And>i. i < n \<Longrightarrow> phys m pt (va + 1 + of_nat i) \<noteq> phys m pt va"
proof -
  have r: "user_range m pt va (Suc n)" and inj: "inj_on (\<lambda>i. phys m pt (va + of_nat i)) {..<Suc n}"
    using assms by (auto simp: writable_range_def)
  have e: "va + 1 + of_nat i = va + of_nat (Suc i)" for i by simp
  show "writable_range m pt ps va 1" using assms user_range_Suc(1) [OF r] by (auto simp: writable_range_def lessThan_Suc)
  have "inj_on (\<lambda>i. phys m pt (va + of_nat (Suc i))) {..<n}"
    using inj_onD [OF inj, of "Suc _" "Suc _"] by (intro inj_onI) fastforce
  then show "writable_range m pt ps (va + 1) n"
    using assms user_range_Suc(2) [OF r] unfolding writable_range_def e by auto
  show "phys m pt (va + 1 + of_nat i) \<noteq> phys m pt va" if "i < n" for i
    using inj_onD [OF inj, of "Suc i" 0] that unfolding e by auto
qed

lemma copyout_byte:
  assumes "vmok s pt ps" "writable_range (mem s) pt ps va 1"
  shows "\<exists>m. copyout pt va [c] s = Ret 0 (s\<lparr>mem := m\<rparr>) \<and> m (phys (mem s) pt va) = c
    \<and> (\<forall>x. x \<noteq> phys (mem s) pt va \<longrightarrow> m x = mem s x) \<and> vmok (s\<lparr>mem := m\<rparr>) pt ps
    \<and> (\<forall>a. leaf m pt a = leaf (mem s) pt a) \<and> table_pages m pt = table_pages (mem s) pt"
proof -
  obtain m where m: "copyout pt va [c] s = Ret 0 (s\<lparr>mem := m\<rparr>)" "m (phys (mem s) pt va) = c"
      "\<forall>x. x \<noteq> phys (mem s) pt va \<longrightarrow> m x = mem s x" "same_but {PTE2PA (leaf (mem s) pt va)} (mem s) m"
    using copyout_ok [OF assms(1), of va "[c]"] assms(2) by (auto simp: lessThan_Suc)
  have "{PTE2PA (leaf (mem s) pt va)} \<inter> (table_pages (mem s) pt \<union> set ps) = {}"
    using assms(2) by (auto simp: writable_range_def)
  then show ?thesis using m vmok_data [OF assms(1) m(4)] by auto
qed


lemma writable_range_leaf:
  assumes "\<And>a. leaf m' pt a = leaf m pt a" "table_pages m' pt = table_pages m pt"
  shows "writable_range m' pt ps va n = writable_range m pt ps va n"
  using assms phys_leaf [OF assms(1)] by (simp add: writable_range_def user_range_def user_pte_def)

lemma delivered_Cons:
  assumes d: "delivered pt (va + 1) cs m m'" and m: "m (phys m0 pt va) = c" "\<And>x. x \<noteq> phys m0 pt va \<Longrightarrow> m x = m0 x"
    "\<And>a. leaf m pt a = leaf m0 pt a" and ne: "\<And>i. i < length cs \<Longrightarrow> phys m0 pt (va + 1 + of_nat i) \<noteq> phys m0 pt va"
  shows "delivered pt va (c # cs) m0 m'"
proof -
  have ph: "phys m pt = phys m0 pt" "phys m' pt = phys m0 pt"
    using d m(3) by (auto simp: delivered_def intro: phys_leaf)
  have "m' (phys m0 pt va) = c" using d m(1) ne unfolding delivered_def ph by (force simp: image_iff)
  then have "user_bytes m' pt va (length (c # cs)) = c # cs"
    using d by (simp add: user_bytes_Suc ph delivered_def)
  moreover have "m' x = m0 x" if "x \<notin> (\<lambda>i. phys m0 pt (va + of_nat i)) ` {..<length (c # cs)}" for x
  proof -
    have "x \<noteq> phys m0 pt (va + of_nat 0)" "\<And>i. i < length cs \<Longrightarrow> x \<noteq> phys m0 pt (va + of_nat (Suc i))"
      using that by force+
    then have "x \<noteq> phys m0 pt va" "x \<notin> (\<lambda>i. phys m pt (va + 1 + of_nat i)) ` {..<length cs}"
      unfolding ph by (auto simp: ac_simps)
    then show ?thesis using d m(2) by (simp add: delivered_def)
  qed
  ultimately show ?thesis using d m(3) by (simp add: delivered_def)
qed

end
