(* ===== verification/Pipe.thy ===== *)
theory Pipe
  imports File Ringbuf Userbuf
begin

section \<open>Correctness of pipes\<close>

text \<open>
  A pipe is a queue of at most \<^verbatim>\<open>PIPESIZE\<close> bytes: \<open>pipe_contents\<close> is the queue, \<open>pipe_ok\<close> the
  invariant of the array and the two counters. The pipe interprets \<open>ring_buffer\<close>.
\<close>

definition pipe_contents :: "pipe \<Rightarrow> bytes" where
  "pipe_contents x = ring PIPESIZE (pdata x) (nread x) (unat (nwrite x - nread x))"

definition pipe_ok :: "pipe \<Rightarrow> bool" where
  "pipe_ok x \<longleftrightarrow> length (pdata x) = PIPESIZE \<and> unat (nwrite x - nread x) \<le> PIPESIZE"

interpretation pq: ring_buffer PIPESIZE pdata nread nwrite pipe_put pipe_get
  by unfold_locales (simp_all add: PIPESIZE_def pipe_put_def pipe_get_def)

lemma pipe_length: "length (pipe_contents x) = unat (nwrite x - nread x)"
  by (simp add: pipe_contents_def)

lemma pipe_full: "pipe_ok x \<Longrightarrow> nwrite x = nread x + of_nat PIPESIZE \<longleftrightarrow> length (pipe_contents x) = PIPESIZE"
  using pq.full_iff [of x] by (simp add: pipe_ok_def pipe_length)

lemma pipe_empty: "nread x = nwrite x \<longleftrightarrow> pipe_contents x = []"
  using pq.empty_iff [of x] pipe_length [of x] by auto

lemma pipe_put_ok:
  assumes "pipe_ok x" "length (pipe_contents x) < PIPESIZE"
  shows "pipe_ok (pipe_put c x)" "pipe_contents (pipe_put c x) = pipe_contents x @ [c]"
    "readopen (pipe_put c x) = readopen x" "writeopen (pipe_put c x) = writeopen x"
  using assms pq.put_contents [of x c] pq.put_count [of x c]
  by (simp_all add: pipe_ok_def pipe_length) (simp_all add: pipe_contents_def pipe_put_def)

lemma pipe_get_ok:
  assumes "pipe_ok x" "pipe_contents x = c # cs"
  shows "fst (pipe_get x) = c" "pipe_ok (snd (pipe_get x))" "pipe_contents (snd (pipe_get x)) = cs"
    "readopen (snd (pipe_get x)) = readopen x" "writeopen (snd (pipe_get x)) = writeopen x"
proof -
  have ne: "nread x \<noteq> nwrite x" using assms(2) pipe_empty by auto
  show "fst (pipe_get x) = c" "pipe_contents (snd (pipe_get x)) = cs"
    using pq.get_contents [OF ne] assms(2) by (simp_all add: pipe_contents_def)
  show "pipe_ok (snd (pipe_get x))"
    using assms(1) pq.get_count [OF ne] by (simp add: pipe_ok_def) (simp add: pipe_get_def)
qed (simp_all add: pipe_get_def)

lemma pipe_puts:
  "pipe_ok x \<Longrightarrow> length (pipe_contents x) + length bs \<le> PIPESIZE \<Longrightarrow>
     pipe_ok (fold pipe_put bs x) \<and> pipe_contents (fold pipe_put bs x) = pipe_contents x @ bs
     \<and> readopen (fold pipe_put bs x) = readopen x \<and> writeopen (fold pipe_put bs x) = writeopen x"
  by (induction bs arbitrary: x) (simp_all add: pipe_put_ok)

subsection \<open>Writing\<close>

text \<open>Process \<open>pr\<close>, alive and with page table \<open>pt\<close>, inside the pipe's critical section.\<close>

definition in_pipe :: "uint64 \<Rightarrow> nat \<Rightarrow> uint64 \<Rightarrow> uint64 list \<Rightarrow> 'z file_state_scheme \<Rightarrow> bool" where
  "in_pipe pi pr pt ps s \<longleftrightarrow> vmok s pt ps \<and> held s = {Lk_pipe pi} \<and> ppagetable (procs s pr) = pt
     \<and> killed_flag (procs s pr) = 0 \<and> pipe_ok (pipes s pi)"

lemma killed_eq:
  assumes "lkok s" "Lk_proc p \<notin> held s" "held s \<noteq> {}"
  shows "killed p s = Ret (killed_flag (procs s p)) s"
  using assms touch_in [of s] by (auto simp: killed_def)

lemma in_pipe_upd:
  assumes "in_pipe pi pr pt ps s" "pipe_ok x"
  shows "in_pipe pi pr pt ps (s\<lparr>pipes := (pipes s)(pi := x)\<rparr>)"
  using assms by (simp add: in_pipe_def vmok_def kmem_inv_def)

lemma pipewrite_loop_puts:
  assumes "in_pipe pi pr pt ps s" "readopen (pipes s pi)" "user_range (mem s) pt (addr + of_nat i) a"
    "length (pipe_contents (pipes s pi)) + a \<le> PIPESIZE"
  shows "pipewrite_loop pr pi addr i (a + b) s = pipewrite_loop pr pi addr (i + a) b
    (s\<lparr>pipes := (pipes s)(pi := fold pipe_put (user_bytes (mem s) pt (addr + of_nat i) a) (pipes s pi))\<rparr>)"
  using assms
proof (induction a arbitrary: i s)
  case (Suc a)
  let ?va = "addr + of_nat i" let ?c = "mem s (phys (mem s) pt ?va)"
  let ?t = "s\<lparr>pipes := (pipes s)(pi := pipe_put ?c (pipes s pi))\<rparr>"
  have s: "vmok s pt ps" "lkok s" "held s = {Lk_pipe pi}" "ppagetable (procs s pr) = pt" "killed_flag (procs s pr) = 0"
      "pipe_ok (pipes s pi)"
    using Suc.prems(1) by (auto simp: in_pipe_def vmok_def)
  note r = user_range_Suc [OF Suc.prems(3)]
  have full: "nwrite (pipes s pi) \<noteq> nread (pipes s pi) + of_nat PIPESIZE"
    using pipe_full [OF s(6)] Suc.prems(4) by simp
  have c: "copyin pt ?va 1 s = Ret (0, [?c]) s" using copyin_ok [OF s(1) r(1)] by simp
  have p: "pipe_ok (pipe_put ?c (pipes s pi))" "pipe_contents (pipe_put ?c (pipes s pi)) = pipe_contents (pipes s pi) @ [?c]"
      "readopen (pipe_put ?c (pipes s pi)) = readopen (pipes s pi)"
    using pipe_put_ok [OF s(6), of ?c] Suc.prems(4) by simp_all
  have e: "addr + of_nat (Suc i) = ?va + 1" by (simp add: algebra_simps)
  have "pipewrite_loop pr pi addr i (Suc a + b) s = pipewrite_loop pr pi addr (Suc i) (a + b) ?t"
    using s full c Suc.prems(2) killed_eq [of s pr] by (simp add: upd_pipe_def)
  also have "\<dots> = pipewrite_loop pr pi addr (Suc i + a) b (?t\<lparr>pipes := (pipes ?t)(pi :=
      fold pipe_put (user_bytes (mem ?t) pt (addr + of_nat (Suc i)) a) (pipes ?t pi))\<rparr>)"
    using in_pipe_upd [OF Suc.prems(1) p(1)] Suc.prems(2,4) r(2) p e by (intro Suc.IH) (auto simp: ac_simps)
  finally show ?case unfolding e by (simp add: user_bytes_Suc fun_upd_def cong: if_cong del: pipewrite_loop.simps)
qed simp

text \<open>A process that calls the pipe.\<close>

definition pipe_user :: "uint64 \<Rightarrow> nat \<Rightarrow> uint64 \<Rightarrow> uint64 list \<Rightarrow> 'z file_state_scheme \<Rightarrow> bool" where
  "pipe_user pi pr pt ps s \<longleftrightarrow> idle pr s \<and> mynoff s = 0 \<and> vmok s pt ps \<and> ppagetable (procs s pr) = pt
     \<and> killed_flag (procs s pr) = 0 \<and> pipe_ok (pipes s pi)"

lemma in_pipe_entered:
  "pipe_user pi pr pt ps s \<Longrightarrow> in_pipe pi pr pt ps (entered (Lk_pipe pi) s)"
  by (simp add: pipe_user_def in_pipe_def vmok_def kmem_inv_def idle_def)

lemma pipewrite_enter:
  "idle pr s \<Longrightarrow> pipewrite pi addr n s = pipewrite_loop pr pi addr 0 (nat n) (entered (Lk_pipe pi) s)"
  by (simp add: pipewrite_def idle_def)

lemma pipewrite_end_eq:
  assumes "lkok s" "held s = {Lk_pipe pi}"
  shows "pipewrite_end pi i s = Ret (int i) (left (Lk_pipe pi) (wakeall (Some (Ch_pipe_nread pi)) s))"
  using assms by (simp add: pipewrite_end_def)


lemma pipewrite_fits:
  assumes u: "pipe_user pi pr pt ps s" and ro: "readopen (pipes s pi)" and r: "user_range (mem s) pt addr n"
    and fit: "length (pipe_contents (pipes s pi)) + n \<le> PIPESIZE"
  defines "x \<equiv> fold pipe_put (user_bytes (mem s) pt addr n) (pipes s pi)"
  shows "pipewrite pi addr (int n) s = Ret (int n) (left (Lk_pipe pi) (wakeall (Some (Ch_pipe_nread pi))
    ((entered (Lk_pipe pi) s)\<lparr>pipes := (pipes s)(pi := x)\<rparr>)))"
proof -
  let ?s = "entered (Lk_pipe pi) s"
  have s: "lkok s" "held s = {}" "idle pr s" using u by (auto simp: pipe_user_def idle_def)
  have "pipewrite_loop pr pi addr 0 (n + 0) ?s = pipewrite_end pi n (?s\<lparr>pipes := (pipes s)(pi := x)\<rparr>)"
    using pipewrite_loop_puts [OF in_pipe_entered [OF u], of addr 0 n 0] ro r fit by (simp add: x_def)
  then show ?thesis using s pipewrite_enter [OF s(3)] by (simp add: pipewrite_end_eq)
qed

lemma pipewrite_blocks:
  assumes u: "pipe_user pi pr pt ps s" and ro: "readopen (pipes s pi)" and r: "user_range (mem s) pt addr n"
    and full: "PIPESIZE < length (pipe_contents (pipes s pi)) + n"
  defines "x \<equiv> fold pipe_put (user_bytes (mem s) pt addr (PIPESIZE - length (pipe_contents (pipes s pi)))) (pipes s pi)"
  shows "pipewrite pi addr (int n) s = Halt Switch (asleep (Ch_pipe_nwrite pi) (Lk_pipe pi) pr
    (wakeall (Some (Ch_pipe_nread pi)) ((entered (Lk_pipe pi) s)\<lparr>pipes := (pipes s)(pi := x)\<rparr>)))"
proof -
  let ?s = "entered (Lk_pipe pi) s" and ?a = "PIPESIZE - length (pipe_contents (pipes s pi))"
  have s: "lkok s" "held s = {}" "idle pr s" "mynoff s = 0" "myp s = Some pr" "pipe_ok (pipes s pi)"
      "killed_flag (procs s pr) = 0"
    using u by (auto simp: pipe_user_def idle_def)
  have le: "length (pipe_contents (pipes s pi)) \<le> PIPESIZE" using s(6) by (simp add: pipe_ok_def pipe_length)
  define b where "b = length (pipe_contents (pipes s pi)) + n - PIPESIZE - 1"
  have n: "n = ?a + Suc b" using full le by (simp add: b_def)
  have ra: "user_range (mem s) pt addr ?a" using r n by (auto simp: user_range_def)
  have x: "pipe_ok x" "length (pipe_contents x) = PIPESIZE" "readopen x"
    using pipe_puts [OF s(6), of "user_bytes (mem s) pt addr ?a"] le ro by (auto simp: x_def)
  let ?t = "?s\<lparr>pipes := (pipes s)(pi := x)\<rparr>"
  have "pipewrite_loop pr pi addr 0 (?a + Suc b) ?s = pipewrite_loop pr pi addr ?a (Suc b) ?t"
    using pipewrite_loop_puts [OF in_pipe_entered [OF u], of addr 0 ?a "Suc b"] ro ra le by (simp add: x_def)
  also have "\<dots> = Halt Switch (asleep (Ch_pipe_nwrite pi) (Lk_pipe pi) pr (wakeall (Some (Ch_pipe_nread pi)) ?t))"
    using s x pipe_full [OF x(1)] killed_eq [of ?t pr]
    by (simp add: sleep_eq [of _ pr])
  finally show ?thesis unfolding n [symmetric] using pipewrite_enter [OF s(3), of pi addr "int n"] by simp
qed


subsection \<open>Reading\<close>

lemma piperead_copy_ok:
  assumes "in_pipe pi pr pt ps s" "writable_range (mem s) pt ps (addr + of_nat i) k"
  defines "bs \<equiv> pipe_contents (pipes s pi)"
  shows "\<exists>x m. piperead_copy pr pi addr i k s = Ret (i + min k (length bs)) (s\<lparr>mem := m, pipes := (pipes s)(pi := x)\<rparr>)
    \<and> pipe_contents x = drop k bs \<and> pipe_ok x \<and> readopen x = readopen (pipes s pi) \<and> writeopen x = writeopen (pipes s pi)
    \<and> delivered pt (addr + of_nat i) (take k bs) (mem s) m"
  using assms(1,2) unfolding bs_def
proof (induction k arbitrary: i s)
  case 0
  have "s = s\<lparr>mem := mem s, pipes := (pipes s)(pi := pipes s pi)\<rparr>" by simp
  then show ?case using 0 by (intro exI [of _ "pipes s pi"] exI [of _ "mem s"]) (simp add: in_pipe_def delivered_def)
next
  case (Suc k)
  let ?va = "addr + of_nat i" and ?x = "pipes s pi"
  have s: "vmok s pt ps" "held s = {Lk_pipe pi}" "ppagetable (procs s pr) = pt" "pipe_ok ?x"
    using Suc.prems(1) by (auto simp: in_pipe_def)
  show ?case
  proof (cases "pipe_contents ?x")
    case Nil
    then show ?thesis using s(4) pipe_empty [of ?x]
      by (intro exI [of _ ?x] exI [of _ "mem s"]) (simp add: delivered_def)
  next
    case (Cons c cs)
    note g = pipe_get_ok [OF s(4) Cons] and w = writable_range_Suc [OF Suc.prems(2)]
    let ?s = "s\<lparr>pipes := (pipes s)(pi := snd (pipe_get ?x))\<rparr>"
    have in1: "in_pipe pi pr pt ps ?s" by (rule in_pipe_upd [OF Suc.prems(1) g(2)])
    then have v1: "vmok ?s pt ps" by (simp add: in_pipe_def)
    obtain m where m: "copyout pt ?va [c] ?s = Ret 0 (?s\<lparr>mem := m\<rparr>)" "m (phys (mem s) pt ?va) = c"
        "\<And>x. x \<noteq> phys (mem s) pt ?va \<Longrightarrow> m x = mem s x" "vmok (?s\<lparr>mem := m\<rparr>) pt ps"
        "\<And>a. leaf m pt a = leaf (mem s) pt a" "table_pages m pt = table_pages (mem s) pt"
      using copyout_byte [OF v1, of ?va c] w(1) by auto
    let ?t = "?s\<lparr>mem := m\<rparr>"
    have in2: "in_pipe pi pr pt ps ?t" using in1 m(4) by (simp add: in_pipe_def vmok_def)
    have e: "addr + of_nat (Suc i) = ?va + 1" by (simp add: algebra_simps)
    have wr: "writable_range (mem ?t) pt ps (addr + of_nat (Suc i)) k"
      unfolding e using w(2) writable_range_leaf [OF m(5,6)] by simp
    have q: "pipe_contents (pipes ?t pi) = cs" "mem ?t = m" using g(3) by simp_all
    obtain x m' where r0: "piperead_copy pr pi addr (Suc i) k ?t = Ret (Suc i + min k (length (pipe_contents (pipes ?t pi))))
          (?t\<lparr>mem := m', pipes := (pipes ?t)(pi := x)\<rparr>)"
        "pipe_contents x = drop k (pipe_contents (pipes ?t pi))" "pipe_ok x" "readopen x = readopen (pipes ?t pi)"
        "writeopen x = writeopen (pipes ?t pi)"
        "delivered pt (addr + of_nat (Suc i)) (take k (pipe_contents (pipes ?t pi))) (mem ?t) m'"
      using Suc.IH [OF in2 wr] by blast
    note r = r0 [unfolded q e]
    have "delivered pt ?va (c # take k cs) (mem s) m'"
      by (rule delivered_Cons [OF r(6) m(2,3,5)]) (use w(3) in auto)
    moreover have "piperead_copy pr pi addr i (Suc k) s = Ret (Suc i + min k (length cs))
        (s\<lparr>mem := m', pipes := (pipes s)(pi := x)\<rparr>)"
      using Cons pipe_empty [of ?x] s(3) m(1) g(1) r(1) by (simp add: upd_pipe_def)
    ultimately show ?thesis using Cons r(2-5) g(4,5) by (intro exI [of _ x] exI [of _ m']) (simp add: fun_upd_def)
  qed
qed


lemma piperead_loop_ok:
  assumes in1: "in_pipe pi pr pt ps s" and ready: "pipe_contents (pipes s pi) \<noteq> [] \<or> \<not> writeopen (pipes s pi)"
    and w: "writable_range (mem s) pt ps addr n"
  defines "bs \<equiv> pipe_contents (pipes s pi)"
  shows "\<exists>x m. piperead_loop pr pi addr (int n) s = Ret (int (min n (length bs)))
      (left (Lk_pipe pi) (wakeall (Some (Ch_pipe_nwrite pi)) (s\<lparr>mem := m, pipes := (pipes s)(pi := x)\<rparr>)))
    \<and> pipe_contents x = drop n bs \<and> pipe_ok x \<and> delivered pt addr (take n bs) (mem s) m"
proof -
  have s: "lkok s" "held s = {Lk_pipe pi}" using in1 by (auto simp: in_pipe_def vmok_def)
  have w0: "writable_range (mem s) pt ps (addr + of_nat 0) n" using w by simp
  obtain x m where x: "piperead_copy pr pi addr 0 n s = Ret (0 + min n (length bs)) (s\<lparr>mem := m, pipes := (pipes s)(pi := x)\<rparr>)"
      "pipe_contents x = drop n bs" "pipe_ok x" "delivered pt (addr + of_nat 0) (take n bs) (mem s) m"
    using piperead_copy_ok [OF in1 w0] unfolding bs_def by blast
  have "\<not> (nread (pipes s pi) = nwrite (pipes s pi) \<and> writeopen (pipes s pi))"
    using ready pipe_empty [of "pipes s pi"] by auto
  then have "piperead_loop pr pi addr (int n) s = Ret (int (min n (length bs)))
      (left (Lk_pipe pi) (wakeall (Some (Ch_pipe_nwrite pi)) (s\<lparr>mem := m, pipes := (pipes s)(pi := x)\<rparr>)))"
    using x(1) s by (auto simp: piperead_loop_def)
  then show ?thesis using x by auto
qed

subsection \<open>Properties\<close>

text \<open>A pipe that holds the byte 9 and whose writing counter is about to wrap around.\<close>

definition pipe_ex :: pipe where
  "pipe_ex = \<lparr>pdata = (replicate 512 0)[510 := 9], nread = 0xfffffffe, nwrite = 0xffffffff, readopen = True, writeopen = True\<rparr>"

lemma pipe_ex_ok: "pipe_ok pipe_ex" "pipe_contents pipe_ex = [9]"
  by (simp_all add: pipe_ok_def pipe_ex_def PIPESIZE_def pipe_contents_def ring_def)

lemma pipe_user_ex:
  "\<exists>s ps. pipe_user 0x87006000 3 0x87001000 ps (s\<lparr>pipes := (\<lambda>_. pipe_ex)\<rparr> :: file_state)
    \<and> writable_range (mem s) 0x87001000 ps 5 3"
proof -
  obtain t :: proc_state and ps where t: "vmok t 0x87001000 ps" "writable_range (mem t) 0x87001000 ps 5 3" "kmem_only vm_ex t"
    using vm_ex_mapped by blast
  have h: "held vm_ex = {}"
    by (simp add: held_def lock_mine_def vm_ex_def vm_ex0_def kfreed_def touch_def proc_ex_run_def proc_ex_def kmem_ex_def
        kmem_state.extend_def)
  have v: "myp vm_ex = Some 3" "mynoff vm_ex = 0" "ppagetable (procs vm_ex 3) = 0x87001000"
      "killed_flag (procs vm_ex 3) = 0"
    by (simp_all add: vm_ex_def vm_ex0_def kfreed_def) (simp_all add: idle_proc_def)
  have "pipe_user 0x87006000 3 0x87001000 ps ((file_of t)\<lparr>pipes := (\<lambda>_. pipe_ex)\<rparr>)"
    using t(1) h v kmem_only_simps [OF t(3)] kmem_only_procs [OF t(3)] pipe_ex_ok(1)
    by (simp add: pipe_user_def idle_def vmok_def kmem_inv_def)
  then show ?thesis using t(2) by (intro exI [of _ "file_of t"] exI [of _ ps]) simp
qed

text \<open>
  C15. Writing appends: \<open>pipewrite\<close> of \<open>n\<close> accessible bytes by a live process returns \<open>n\<close> with exactly these bytes appended
  to the queue when they fit, and otherwise puts the process to sleep with the queue full of the first of them; in
  both cases the sleeping readers are woken. It holds for every value of the counters, across their wrap-around.
\<close>

theorem pipewrite_appends:
  assumes "pipe_user pi pr pt ps s" "readopen (pipes s pi)" "user_range (mem s) pt addr n"
  defines "q \<equiv> pipe_contents (pipes s pi)" and "bs \<equiv> user_bytes (mem s) pt addr n"
  shows "if length q + n \<le> PIPESIZE
    then \<exists>t. pipewrite pi addr (int n) s = Ret (int n) t \<and> pipe_contents (pipes t pi) = q @ bs \<and> held t = {}
      \<and> (\<forall>p<NPROC. p \<noteq> pr \<and> pstate (procs s p) = SLEEPING \<and> chan (procs s p) = Some (Ch_pipe_nread pi)
          \<longrightarrow> pstate (procs t p) = RUNNABLE)
    else \<exists>t. pipewrite pi addr (int n) s = Halt Switch t \<and> pipe_contents (pipes t pi) = q @ take (PIPESIZE - length q) bs
      \<and> pstate (procs t pr) = SLEEPING \<and> chan (procs t pr) = Some (Ch_pipe_nwrite pi) \<and> Lk_pipe pi \<notin> held t
      \<and> (\<forall>p<NPROC. p \<noteq> pr \<and> pstate (procs s p) = SLEEPING \<and> chan (procs s p) = Some (Ch_pipe_nread pi)
          \<longrightarrow> pstate (procs t p) = RUNNABLE)"
proof (cases "length q + n \<le> PIPESIZE")
  case True
  have s: "pipe_ok (pipes s pi)" "lkok s" "held s = {}" "myp s = Some pr"
    using assms(1) by (auto simp: pipe_user_def idle_def)
  have "pipe_contents (fold pipe_put bs (pipes s pi)) = q @ bs"
    using pipe_puts [OF s(1), of bs] True by (simp add: q_def bs_def)
  then show ?thesis
    using True pipewrite_fits [OF assms(1-3)] s unfolding q_def [symmetric] bs_def [symmetric] by (simp add: woken_def)
next
  case False
  have s: "pipe_ok (pipes s pi)" "lkok s" "held s = {}" "myp s = Some pr"
    using assms(1) by (auto simp: pipe_user_def idle_def)
  let ?a = "PIPESIZE - length q"
  have le: "length q \<le> PIPESIZE" using s(1) by (simp add: q_def pipe_ok_def pipe_length)
  have t: "user_bytes (mem s) pt addr ?a = take ?a bs"
    using False by (simp add: user_bytes_def bs_def take_map)
  have "pipe_contents (fold pipe_put (take ?a bs) (pipes s pi)) = q @ take ?a bs"
    using pipe_puts [OF s(1), of "take ?a bs"] le unfolding q_def [symmetric] by simp
  then show ?thesis
    using False pipewrite_blocks [OF assms(1-3)] s t unfolding q_def [symmetric]
    by (simp add: woken_def asleep_def)
qed

theorem pipewrite_appends_witness:
  "\<exists>(s :: file_state) t bs. length bs = 3 \<and> pipewrite 0x87006000 5 3 s = Ret 3 t
    \<and> pipe_contents (pipes s 0x87006000) = [9] \<and> pipe_contents (pipes t 0x87006000) = 9 # bs"
proof -
  obtain s :: file_state and ps where s: "pipe_user 0x87006000 3 0x87001000 ps (s\<lparr>pipes := (\<lambda>_. pipe_ex)\<rparr>)"
      "writable_range (mem s) 0x87001000 ps 5 3"
    using pipe_user_ex by blast
  let ?s = "s\<lparr>pipes := (\<lambda>_. pipe_ex)\<rparr>"
  have "user_range (mem ?s) 0x87001000 5 3" "readopen (pipes ?s 0x87006000)"
    using s(2) by (simp_all add: writable_range_def pipe_ex_def)
  from pipewrite_appends [OF s(1) this(2,1)] pipe_ex_ok(2)
  obtain t where "pipewrite 0x87006000 5 3 ?s = Ret 3 t"
      "pipe_contents (pipes t 0x87006000) = 9 # user_bytes (mem s) 0x87001000 5 3"
    by (auto simp: PIPESIZE_def)
  moreover have "pipe_contents (pipes ?s 0x87006000) = [9]" using pipe_ex_ok(2) by simp
  ultimately show ?thesis using length_user_bytes [of "mem s" "0x87001000" 5 3] by blast
qed

text \<open>
  C16. Reading takes from the front: when the queue has bytes or no writer is left, \<open>piperead\<close> returns the number of bytes
  it moved, at most \<open>n\<close> and at most what the queue holds; these are the first bytes of the queue, in order, now in the
  process's memory and no longer in the queue, and nothing else of memory has changed. In particular it returns 0 at the
  end of a pipe whose writers have closed it.
\<close>

theorem piperead_takes:
  assumes "pipe_user pi pr pt ps s" "writable_range (mem s) pt ps addr n"
    "pipe_contents (pipes s pi) \<noteq> [] \<or> \<not> writeopen (pipes s pi)"
  defines "q \<equiv> pipe_contents (pipes s pi)"
  shows "\<exists>t. piperead pi addr (int n) s = Ret (int (min n (length q))) t \<and> pipe_contents (pipes t pi) = drop n q
    \<and> user_bytes (mem t) pt addr (min n (length q)) = take n q \<and> held t = {}
    \<and> (\<forall>x. x \<notin> (\<lambda>i. phys (mem s) pt (addr + of_nat i)) ` {..<n} \<longrightarrow> mem t x = mem s x)"
proof -
  let ?s = "entered (Lk_pipe pi) s"
  have s: "lkok s" "held s = {}" "myp s = Some pr" using assms(1) by (auto simp: pipe_user_def idle_def)
  obtain x m where x: "piperead_loop pr pi addr (int n) ?s = Ret (int (min n (length q)))
      (left (Lk_pipe pi) (wakeall (Some (Ch_pipe_nwrite pi)) (?s\<lparr>mem := m, pipes := (pipes s)(pi := x)\<rparr>)))"
      "pipe_contents x = drop n q" "delivered pt addr (take n q) (mem s) m"
    using piperead_loop_ok [OF in_pipe_entered [OF assms(1)], of addr n] assms(2,3) by (auto simp: q_def)
  have "piperead pi addr (int n) s = piperead_loop pr pi addr (int n) ?s" using s by (simp add: piperead_def)
  moreover have "m y = mem s y" if "y \<notin> (\<lambda>i. phys (mem s) pt (addr + of_nat i)) ` {..<n}" for y
  proof -
    have "y \<notin> (\<lambda>i. phys (mem s) pt (addr + of_nat i)) ` {..<length (take n q)}" using that by auto
    then show ?thesis using x(3) unfolding delivered_def by blast
  qed
  moreover have "user_bytes m pt addr (min n (length q)) = take n q" using x(3) by (simp add: delivered_def min.commute)
  ultimately show ?thesis using x(1,2) s by simp
qed



theorem piperead_takes_witness:
  "\<exists>(s :: file_state) t. piperead 0x87006000 5 3 s = Ret 1 t \<and> pipe_contents (pipes t 0x87006000) = []
    \<and> user_bytes (mem t) 0x87001000 5 1 = [9]"
proof -
  obtain s :: file_state and ps where s: "pipe_user 0x87006000 3 0x87001000 ps (s\<lparr>pipes := (\<lambda>_. pipe_ex)\<rparr>)"
      "writable_range (mem s) 0x87001000 ps 5 3"
    using pipe_user_ex by blast
  then have "writable_range (mem (s\<lparr>pipes := (\<lambda>_. pipe_ex)\<rparr>)) 0x87001000 ps 5 3" by simp
  from piperead_takes [OF s(1) this] pipe_ex_ok(2)
  obtain t where "piperead 0x87006000 5 3 (s\<lparr>pipes := (\<lambda>_. pipe_ex)\<rparr>) = Ret 1 t"
      "pipe_contents (pipes t 0x87006000) = []" "user_bytes (mem t) 0x87001000 5 1 = [9]"
    by auto
  then show ?thesis by blast
qed

end
