(* ===== verification/Terminal.thy ===== *)
theory Terminal
  imports Pipe
begin

section \<open>Line editing on the console\<close>

text \<open>
  The input buffer is two queues in one ring: \<open>cons_ready\<close>, the finished lines a reader may take, and
  \<open>cons_line\<close>, the line being edited. \<open>edit_key\<close> is what a key does to them, and the interrupt handler
  implements it.
\<close>

definition cons_ready :: "'z cons_state_scheme \<Rightarrow> bytes" where
  "cons_ready s = ring INPUT_BUF_SIZE (cbuf s) (cr s) (unat (cw s - cr s))"

definition cons_line :: "'z cons_state_scheme \<Rightarrow> bytes" where
  "cons_line s = ring INPUT_BUF_SIZE (cbuf s) (cw s) (unat (ce s - cw s))"

definition ends_line :: "uint8 \<Rightarrow> bool" where
  "ends_line b \<longleftrightarrow> b = 10 \<or> b = 4"

definition cons_ok :: "'z cons_state_scheme \<Rightarrow> bool" where
  "cons_ok s \<longleftrightarrow> length (cbuf s) = INPUT_BUF_SIZE \<and> unat (ce s - cr s) = unat (cw s - cr s) + unat (ce s - cw s)
     \<and> unat (ce s - cr s) \<le> INPUT_BUF_SIZE \<and> (\<forall>b\<in>set (cons_line s). \<not> ends_line b)"

definition edit_key :: "int \<Rightarrow> bytes \<times> bytes \<Rightarrow> bytes \<times> bytes" where
  "edit_key c = (\<lambda>(rdy, ln).
     if c = Ctl_U then (rdy, [])
     else if c = Ctl_H \<or> c = 0x7f then (rdy, butlast ln)
     else if c = 0 \<or> length rdy + length ln = INPUT_BUF_SIZE then (rdy, ln)
     else let b = (if c = 13 then 10 else of_int c); ln' = ln @ [b] in
       if ends_line b \<or> length rdy + length ln' = INPUT_BUF_SIZE then (rdy @ ln', []) else (rdy, ln'))"

interpretation cq: ring_buffer INPUT_BUF_SIZE cbuf cr ce cons_put cons_get
  by unfold_locales (simp_all add: INPUT_BUF_SIZE_def cons_put_def cons_get_def cons_char_def)

lemma cons_lengths: "length (cons_ready s) = unat (cw s - cr s)" "length (cons_line s) = unat (ce s - cw s)"
  by (simp_all add: cons_ready_def cons_line_def)

lemma consputc_eq:
  assumes "lkok s" "held s \<noteq> {}"
  shows "consputc c s = Ret () (s\<lparr>kout := kout s @ consputc_out c\<rparr>)"
proof -
  have "touch s = s" using assms touch_in [of s] by auto
  then show ?thesis using assms(1) by (simp add: consputc_def uartputc_list consputc_out_def)
qed

text \<open>Erasing the last character of the line.\<close>

definition erased :: "'z cons_state_scheme \<Rightarrow> 'z cons_state_scheme" where
  "erased s = s\<lparr>ce := ce s - 1, kout := kout s @ consputc_out BACKSPACE\<rparr>"

lemma erased_line:
  assumes "cons_ok s" "ce s \<noteq> cw s"
  shows "cons_ok (erased s)" "cons_line s = cons_line (erased s) @ [cons_char (ce s - 1) s]"
    "cons_ready (erased s) = cons_ready s"
proof -
  have "unat (ce s - cw s) \<noteq> 0" using assms(2) by (simp add: unat_eq_zero)
  then obtain n where n: "unat (ce s - cw s) = Suc n" by (cases "unat (ce s - cw s)") auto
  have d: "ce s - 1 - cw s = (ce s - cw s) - 1" "ce s - 1 - cr s = (ce s - cr s) - 1" by simp_all
  have n': "unat (ce s - 1 - cw s) = n" unfolding d using n by (metis diff_Suc_1 unat_minus_one unat_eq_zero nat.distinct(1))
  have m: "unat (ce s - cr s) = Suc (unat (cw s - cr s) + n)" using assms(1) n by (simp add: cons_ok_def)
  have m': "unat (ce s - 1 - cr s) = unat (cw s - cr s) + n"
    unfolding d using m by (metis diff_Suc_1 unat_minus_one unat_eq_zero nat.distinct(1))
  have "cw s + of_nat (unat (ce s - 1 - cw s)) = ce s - 1" by simp
  then have e: "cw s + of_nat n = ce s - 1" unfolding n' .
  show l: "cons_line s = cons_line (erased s) @ [cons_char (ce s - 1) s]"
    using ring_add [of INPUT_BUF_SIZE "cbuf s" "cw s" n 1] n n' e
    by (simp add: cons_line_def erased_def cons_char_def ring_def)
  show "cons_ready (erased s) = cons_ready s" by (simp add: cons_ready_def erased_def)
  show "cons_ok (erased s)"
    using assms(1) l n' m m' by (auto simp: cons_ok_def erased_def)
qed

lemma kill_line_eq:
  assumes "cons_ok s" "unat (ce s - cw s) = n" "lkok s" "held s \<noteq> {}"
  shows "\<exists>t. kill_line n s = Ret () t \<and> cons_ok t \<and> cons_line t = [] \<and> cons_ready t = cons_ready s
    \<and> lkok t \<and> held t = held s"
  using assms
proof (induction n arbitrary: s)
  case 0
  then show ?case by (auto simp: cons_line_def)
next
  case (Suc n)
  have ne: "ce s \<noteq> cw s" using Suc.prems(2) by auto
  note e = erased_line [OF Suc.prems(1) ne]
  have "\<not> ends_line (cons_char (ce s - 1) s)"
    using Suc.prems(1) e(2) by (simp add: cons_ok_def)
  then have c: "uint (cons_char (ce s - 1) s) \<noteq> NEWLINE" by (auto simp: ends_line_def NEWLINE_def word_uint_eq_iff)
  have l: "lkok (erased s)" "held (erased s) = held s" "cw (erased s) = cw s" "ce (erased s) = ce s - 1"
    using Suc.prems(3) by (simp_all add: erased_def)
  have "unat (ce (erased s) - cw (erased s)) = n"
    using arg_cong [OF e(2), of length] Suc.prems(2) by (simp add: cons_lengths)
  from Suc.IH [OF e(1) this] obtain t where t: "kill_line n (erased s) = Ret () t" "cons_ok t" "cons_line t = []"
      "cons_ready t = cons_ready s" "lkok t" "held t = held s"
    using l Suc.prems(4) e(3) by auto
  have "kill_line (Suc n) s = kill_line n (erased s)"
    using ne c consputc_eq [of "s\<lparr>ce := ce s - 1\<rparr>" BACKSPACE] Suc.prems(3,4)
    by (cases "kill_line n (erased s)") (simp_all add: erased_def)
  then show ?case using t by simp
qed

lemma cons_put_ok:
  assumes "cons_ok s" "unat (ce s - cr s) < INPUT_BUF_SIZE"
  shows "cons_line (cons_put b s) = cons_line s @ [b]" "cons_ready (cons_put b s) = cons_ready s"
    "unat (ce (cons_put b s) - cr s) = Suc (unat (ce s - cr s))" "length (cbuf (cons_put b s)) = INPUT_BUF_SIZE"
    "unat (ce (cons_put b s) - cw s) = Suc (unat (ce s - cw s))"
proof -
  have s: "length (cbuf s) = INPUT_BUF_SIZE" "unat (ce s - cr s) = unat (cw s - cr s) + unat (ce s - cw s)"
    using assms(1) by (auto simp: cons_ok_def)
  have e: "cw s + of_nat (unat (ce s - cw s)) = ce s" "cr s + of_nat (unat (ce s - cr s)) = ce s" by simp_all
  show u: "unat (ce (cons_put b s) - cr s) = Suc (unat (ce s - cr s))"
    using cq.put_count [OF assms(2), of b] by (simp add: cons_put_def)
  have "unat (ce (cons_put b s) - cw s) = unat ((ce s - cw s) + 1)" by (simp add: cons_put_def algebra_simps)
  also have "\<dots> = Suc (unat (ce s - cw s))"
    using assms(2) s(2) by (subst unat_word_ariths) (simp add: INPUT_BUF_SIZE_def)
  finally show w: "unat (ce (cons_put b s) - cw s) = Suc (unat (ce s - cw s))" .
  show "length (cbuf (cons_put b s)) = INPUT_BUF_SIZE" using s(1) by (simp add: cons_put_def)
  show "cons_line (cons_put b s) = cons_line s @ [b]"
    using ring_put [OF cq.cap_dvd _ s(1), of "unat (ce s - cw s)" "cw s" b] assms(2) s(2) w e(1)
    by (simp add: cons_line_def) (simp add: cons_put_def)
  show "cons_ready (cons_put b s) = cons_ready s"
    using ring_put_other [OF cq.cap_dvd _ assms(2), of "unat (cw s - cr s)" "cbuf s" "cr s" b] s(2) e(2)
    by (simp add: cons_ready_def cons_put_def)
qed

lemma cons_room: "cons_ok s \<Longrightarrow> ce s - cr s < of_nat INPUT_BUF_SIZE \<longleftrightarrow> unat (ce s - cr s) < INPUT_BUF_SIZE"
  by (simp add: word_less_nat_alt INPUT_BUF_SIZE_def)

lemma cons_store_ok:
  assumes ok: "cons_ok s" and room: "unat (ce s - cr s) < INPUT_BUF_SIZE" and lk: "lkok s" "held s = {Lk_cons}"
    and c: "0 \<le> c" "c < 256"
  defines "b \<equiv> (if c = 13 then 10 else of_int c)"
  shows "\<exists>t. cons_store c s = Ret () t \<and> cons_ok t \<and> lkok t \<and> held t = held s
    \<and> (cons_ready t, cons_line t) = (if ends_line b \<or> Suc (unat (ce s - cr s)) = INPUT_BUF_SIZE
         then (cons_ready s @ cons_line s @ [b], []) else (cons_ready s, cons_line s @ [b]))"
proof -
  let ?c = "if c = 13 then NEWLINE else c"
  let ?s = "s\<lparr>kout := kout s @ consputc_out ?c\<rparr>"
  have b: "of_int ?c = b" by (simp add: b_def NEWLINE_def)
  have "uint (of_int c :: uint8) = c" using c by (simp add: uint_word_of_int)
  then have e: "ends_line b \<longleftrightarrow> ?c = NEWLINE \<or> ?c = Ctl_D"
    using c by (auto simp: b_def ends_line_def NEWLINE_def Ctl_D_def word_uint_eq_iff)
  have ok': "cons_ok ?s" using ok by (simp add: cons_ok_def cons_line_def)
  note p = cons_put_ok [OF ok', of b]
  let ?t = "cons_put b ?s"
  have t: "cr ?t = cr s" "cw ?t = cw s" "lkok ?t" "held ?t = {Lk_cons}" "ce ?t = ce s + 1"
    using lk by (simp_all add: cons_put_def)
  have pl: "cons_line ?t = cons_line s @ [b]" "cons_ready ?t = cons_ready s"
      "unat (ce ?t - cr s) = Suc (unat (ce s - cr s))" "length (cbuf ?t) = INPUT_BUF_SIZE"
      "unat (ce ?t - cw s) = Suc (unat (ce s - cw s))"
    using p room by (simp_all add: cons_line_def cons_ready_def)
  have full: "ce ?t - cr ?t = of_nat INPUT_BUF_SIZE \<longleftrightarrow> Suc (unat (ce s - cr s)) = INPUT_BUF_SIZE"
    unfolding t(1) using pl(3) by (simp add: word_unat_eq_iff INPUT_BUF_SIZE_def)
  have run: "cons_store c s = (if ends_line b \<or> Suc (unat (ce s - cr s)) = INPUT_BUF_SIZE
      then Ret () (wakeall (Some Ch_cons_r) (?t\<lparr>cw := ce ?t\<rparr>)) else Ret () ?t)"
    using consputc_eq [OF lk(1), of ?c] lk full e b t by (simp add: cons_store_def Let_def)
  have d: "unat (ce s - cr s) = unat (cw s - cr s) + unat (ce s - cw s)" using ok by (simp add: cons_ok_def)
  show ?thesis
  proof (cases "ends_line b \<or> Suc (unat (ce s - cr s)) = INPUT_BUF_SIZE")
    case True
    let ?u = "wakeall (Some Ch_cons_r) (?t\<lparr>cw := ce ?t\<rparr>)"
    have "cons_ready ?u = ring INPUT_BUF_SIZE (cbuf ?t) (cr s) (unat (cw s - cr s) + unat (ce ?t - cw s))"
      using t pl(3,5) d by (simp add: cons_ready_def)
    also have "\<dots> = cons_ready s @ cons_line s @ [b]"
      unfolding ring_add using pl(1,2) t(1,2) by (simp add: cons_ready_def cons_line_def)
    finally have r: "cons_ready ?u = cons_ready s @ cons_line s @ [b]" .
    have l: "cons_line ?u = []" by (simp add: cons_line_def)
    have "cons_ok ?u" using l pl(3,4) room t by (simp add: cons_ok_def)
    then show ?thesis using run True r l t lk by simp
  next
    case False
    then have "cons_ok ?t" using ok pl t d room by (auto simp: cons_ok_def)
    then show ?thesis using run False pl t lk by simp
  qed
qed

subsection \<open>Reading a line\<close>

text \<open>
  What a read of at most \<open>n\<close> bytes takes from the finished lines: up to and including a newline, up to a
  control-D (which stays if bytes came before it), or \<open>n\<close> bytes; \<open>None\<close> if it has to wait.
\<close>

fun read_line :: "nat \<Rightarrow> bool \<Rightarrow> bytes \<Rightarrow> (bytes \<times> bytes) option" where
  "read_line 0 got q = Some ([], q)"
| "read_line (Suc n) got [] = None"
| "read_line (Suc n) got (c # q) =
     (if c = 4 then Some ([], if got then c # q else q)
      else if c = 10 then Some ([c], q)
      else map_option (\<lambda>(l, r). (c # l, r)) (read_line n True q))"

lemma cons_get_ok:
  assumes "cons_ok s" "cons_ready s = c # q"
  shows "fst (cons_get s) = c" "cons_ready (snd (cons_get s)) = q" "cons_line (snd (cons_get s)) = cons_line s"
    "cons_ok (snd (cons_get s))" "cr s \<noteq> cw s"
proof -
  define n where "n = length q"
  have n: "unat (cw s - cr s) = Suc n" using assms(2) cons_lengths(1) [of s] by (simp add: n_def)
  have d: "cw s - (cr s + 1) = (cw s - cr s) - 1" "ce s - (cr s + 1) = (ce s - cr s) - 1" by simp_all
  have n': "unat (cw s - (cr s + 1)) = n" unfolding d using n by (metis diff_Suc_1 unat_minus_one unat_eq_zero nat.distinct(1))
  have m: "unat (ce s - cr s) = Suc (n + unat (ce s - cw s))" using assms(1) n by (simp add: cons_ok_def)
  have m': "unat (ce s - (cr s + 1)) = n + unat (ce s - cw s)"
    unfolding d using m by (metis diff_Suc_1 unat_minus_one unat_eq_zero nat.distinct(1))
  have "cons_ready s = cons_char (cr s) s # ring INPUT_BUF_SIZE (cbuf s) (cr s + 1) n"
    unfolding cons_ready_def n by (simp add: ring_Suc cons_char_def)
  then show "fst (cons_get s) = c" "cons_ready (snd (cons_get s)) = q"
    using assms(2) n' by (simp_all add: cons_get_def) (simp add: cons_ready_def)
  show l: "cons_line (snd (cons_get s)) = cons_line s" by (simp add: cons_get_def cons_line_def)
  show "cons_ok (snd (cons_get s))"
    using assms(1) l m m' n' by (auto simp: cons_ok_def cons_get_def)
  show "cr s \<noteq> cw s" using n by auto
qed

definition in_cons :: "nat \<Rightarrow> uint64 \<Rightarrow> uint64 list \<Rightarrow> 'z cons_state_scheme \<Rightarrow> bool" where
  "in_cons pr pt ps s \<longleftrightarrow> vmok s pt ps \<and> held s = {Lk_cons} \<and> myp s = Some pr \<and> ppagetable (procs s pr) = pt \<and> cons_ok s"

lemma cons_mem [simp]:
  "cons_ok (s\<lparr>mem := m\<rparr>) = cons_ok s" "cons_ready (s\<lparr>mem := m\<rparr>) = cons_ready s" "cons_line (s\<lparr>mem := m\<rparr>) = cons_line s"
  by (simp_all add: cons_ok_def cons_ready_def cons_line_def)

lemma cons_locks [simp]:
  "cons_ok (entered lk s) = cons_ok s" "cons_ready (entered lk s) = cons_ready s" "cons_line (entered lk s) = cons_line s"
  "cons_ok (left lk s) = cons_ok s" "cons_ready (left lk s) = cons_ready s" "cons_line (left lk s) = cons_line s"
  by (simp_all add: cons_ok_def cons_ready_def cons_line_def)

text \<open>Taking one byte of the line and storing it at \<open>va\<close>.\<close>

lemma cons_deliver:
  assumes in0: "in_cons pr pt ps s" and cr: "cons_ready s = c # r" and wr: "writable_range (mem s) pt ps va (Suc n)"
  shows "\<exists>t. either_copyout (User va) [c] (snd (cons_get s)) = Ret 0 t \<and> in_cons pr pt ps t \<and> cons_ready t = r
    \<and> cons_line t = cons_line s \<and> writable_range (mem t) pt ps (va + 1) n
    \<and> (\<forall>l m. delivered pt (va + 1) l (mem t) m \<and> length l \<le> n \<longrightarrow> delivered pt va (c # l) (mem s) m)"
proof -
  let ?s = "snd (cons_get s)"
  have ok: "cons_ok s" using in0 by (simp add: in_cons_def)
  note g = cons_get_ok [OF ok cr] and w = writable_range_Suc [OF wr]
  have e: "?s = s\<lparr>cr := cr s + 1\<rparr>" by (simp add: cons_get_def)
  have in1: "in_cons pr pt ps ?s" using in0 g(4) by (simp add: in_cons_def e vmok_def kmem_inv_def)
  then have v1: "vmok ?s pt ps" "lkok ?s" "held ?s = {Lk_cons}" by (auto simp: in_cons_def vmok_def)
  obtain m where m: "copyout pt va [c] ?s = Ret 0 (?s\<lparr>mem := m\<rparr>)" "m (phys (mem s) pt va) = c"
      "\<And>x. x \<noteq> phys (mem s) pt va \<Longrightarrow> m x = mem s x" "vmok (?s\<lparr>mem := m\<rparr>) pt ps"
      "\<And>a. leaf m pt a = leaf (mem s) pt a" "table_pages m pt = table_pages (mem s) pt"
    using copyout_byte [OF v1(1), of va c] w(1) by (auto simp: e)
  let ?t = "?s\<lparr>mem := m\<rparr>"
  have "in_cons pr pt ps ?t" using in1 m(4) by (simp add: in_cons_def)
  moreover have "touch ?s = ?s" using v1 touch_in [of ?s Lk_cons] by simp
  then have "either_copyout (User va) [c] ?s = Ret 0 ?t" using in1 m(1) v1(2) by (simp add: in_cons_def)
  moreover have "writable_range (mem ?t) pt ps (va + 1) n" using w(2) writable_range_leaf [OF m(5,6)] by simp
  moreover have "delivered pt va (c # l) (mem s) m'" if "delivered pt (va + 1) l m m'" "length l \<le> n" for l m'
    by (rule delivered_Cons [OF that(1) m(2,3,5)]) (use w(3) that(2) in auto)
  ultimately show ?thesis using g(2,3) by (intro exI [of _ ?t]) simp
qed

lemma consoleread_loop_ok:
  assumes "in_cons pr pt ps s" "writable_range (mem s) pt ps va n" "n \<le> target"
    "read_line n (n < target) (cons_ready s) = Some (bs, q)"
  shows "\<exists>t. consoleread_loop target (User va) n s = Ret (int target - int n + int (length bs)) (left Lk_cons t)
    \<and> length bs \<le> n \<and> in_cons pr pt ps t \<and> cons_ready t = q \<and> cons_line t = cons_line s \<and> delivered pt va bs (mem s) (mem t)"
  using assms
proof (induction n arbitrary: s va bs)
  case 0
  have "lkok s" "held s = {Lk_cons}" using "0.prems"(1) by (auto simp: in_cons_def vmok_def)
  then show ?case using 0 by (intro exI [of _ s]) (auto simp: cons_finish_def delivered_def)
next
  case (Suc n)
  have s: "vmok s pt ps" "lkok s" "held s = {Lk_cons}" "myp s = Some pr" "ppagetable (procs s pr) = pt" "cons_ok s"
    using Suc.prems(1) by (auto simp: in_cons_def vmok_def)
  obtain c r where cr: "cons_ready s = c # r" using Suc.prems(4) by (cases "cons_ready s") auto
  note g = cons_get_ok [OF s(6) cr]
  let ?s = "snd (cons_get s)"
  have e: "?s = s\<lparr>cr := cr s + 1\<rparr>" by (simp add: cons_get_def)
  have in1: "in_cons pr pt ps ?s" using Suc.prems(1) g(4) by (simp add: in_cons_def e vmok_def kmem_inv_def)
  have lk: "lkok ?s" "held ?s = {Lk_cons}" using in1 by (auto simp: in_cons_def vmok_def)
  show ?case
  proof (cases "c = 4")
    case True
    have "s\<lparr>cr := cr s\<rparr> = s" by (rule cons_state.equality) simp_all
    then have undo: "?s\<lparr>cr := cr ?s - 1\<rparr> = s" by (simp add: e)
    let ?t = "if Suc n < target then s else ?s"
    have "consoleread_loop target (User va) (Suc n) s = Ret (int target - int (Suc n)) (left Lk_cons ?t)"
      using g(1,5) True undo lk s(2,3) by (simp add: cons_finish_def Ctl_D_def)
    moreover have "bs = []" "cons_ready ?t = q" "in_cons pr pt ps ?t" "mem ?t = mem s" "cons_line ?t = cons_line s"
      using Suc.prems(1,4) cr True g(2,3) in1 by (auto simp: e split: if_splits)
    ultimately show ?thesis by (intro exI [of _ ?t]) (simp add: delivered_def)
  next
    case False
    obtain t where t: "either_copyout (User va) [c] ?s = Ret 0 t" "in_cons pr pt ps t" "cons_ready t = r"
        "cons_line t = cons_line s" "writable_range (mem t) pt ps (va + 1) n"
        "\<And>l m. delivered pt (va + 1) l (mem t) m \<Longrightarrow> length l \<le> n \<Longrightarrow> delivered pt va (c # l) (mem s) m"
      using cons_deliver [OF Suc.prems(1) cr Suc.prems(2)] by blast
    have lt: "lkok t" "held t = {Lk_cons}" using t(2) by (auto simp: in_cons_def vmok_def)
    have c4: "uint c \<noteq> Ctl_D" using False by (simp add: Ctl_D_def word_uint_eq_iff)
    show ?thesis
    proof (cases "c = 10")
      case True
      have "consoleread_loop target (User va) (Suc n) s = Ret (int target - int n) (left Lk_cons t)"
        using g(1,5) True t(1) c4 lt by (simp add: cons_finish_def NEWLINE_def)
      moreover have "bs = [c]" "q = r" using Suc.prems(4) cr True by simp_all
      moreover have "delivered pt va [c] (mem s) (mem t)" using t(6) [of "[]" "mem t"] by (simp add: delivered_def)
      ultimately show ?thesis using t(2-4) by (intro exI [of _ t]) simp
    next
      case False
      then have c10: "uint c \<noteq> NEWLINE" by (simp add: NEWLINE_def word_uint_eq_iff)
      obtain l where l: "read_line n True r = Some (l, q)" "bs = c # l"
        using Suc.prems(4) cr False \<open>c \<noteq> 4\<close> by auto
      have "read_line n (n < target) (cons_ready t) = Some (l, q)" using l(1) t(3) Suc.prems(3) by simp
      then obtain u where u: "consoleread_loop target (User (va + 1)) n t = Ret (int target - int n + int (length l)) (left Lk_cons u)"
          "length l \<le> n" "in_cons pr pt ps u" "cons_ready u = q" "cons_line u = cons_line t" "delivered pt (va + 1) l (mem t) (mem u)"
        using Suc.IH [OF t(2,5)] Suc.prems(3) by auto
      have "consoleread_loop target (User va) (Suc n) s = consoleread_loop target (User (va + 1)) n t"
        using g(1,5) t(1) c4 c10 by simp
      then show ?thesis using u t(4) l(2) t(6) [OF u(6,2)] by (intro exI [of _ u]) simp
    qed
  qed
qed

subsection \<open>Handling a key\<close>

text \<open>What \<open>consoleintr\<close> has to establish for the key \<open>c\<close>, the console's lock still held.\<close>

definition key_post :: "int \<Rightarrow> 'z cons_state_scheme \<Rightarrow> 'z cons_state_scheme \<Rightarrow> bool" where
  "key_post c s t \<longleftrightarrow> consoleintr c s = Ret () (left Lk_cons t) \<and> cons_ok t \<and> lkok t \<and> held t = {Lk_cons}
     \<and> (cons_ready t, cons_line t) = edit_key c (cons_ready s, cons_line s)"

lemma erase_keys:
  assumes "cons_ok s" "lkok s" "held s = {}" "c = Ctl_U \<or> c = Ctl_H \<or> c = 0x7f"
  shows "\<exists>t. key_post c s t"
proof -
  let ?s = "entered Lk_cons s"
  have e: "cons_ok ?s" "lkok ?s" "held ?s = {Lk_cons}" using assms(1-3) by simp_all
  consider (kill) "c = Ctl_U" | (erase) "c \<noteq> Ctl_U" "c = Ctl_H \<or> c = 0x7f" "ce s \<noteq> cw s"
    | (none) "c \<noteq> Ctl_U" "c = Ctl_H \<or> c = 0x7f" "ce s = cw s" using assms(4) by blast
  then show ?thesis
  proof cases
    case kill
    then show ?thesis
      using kill_line_eq [OF e(1) refl] e(2,3) assms(2,3)
      by (auto simp: key_post_def consoleintr_def edit_key_def Ctl_U_def Ctl_P_def)
  next
    case erase
    have l: "lkok (erased ?s)" "held (erased ?s) = {Lk_cons}" using e(2,3) by (simp_all add: erased_def)
    have "consputc BACKSPACE (?s\<lparr>ce := ce ?s - 1\<rparr>) = Ret () (erased ?s)"
      using consputc_eq [of "?s\<lparr>ce := ce ?s - 1\<rparr>"] e(2,3) by (simp add: erased_def)
    then have "consoleintr c s = Ret () (left Lk_cons (erased ?s))"
      using erase assms(2,3) l by (auto simp: consoleintr_def Ctl_H_def Ctl_P_def Ctl_U_def)
    moreover have "ce ?s \<noteq> cw ?s" using erase(3) by simp
    note er = erased_line [OF e(1) this]
    ultimately show ?thesis
      using er l erase(1,2) by (intro exI [of _ "erased ?s"]) (simp add: key_post_def edit_key_def butlast_append)
  next
    case none
    then show ?thesis
      using e assms(2,3) by (intro exI [of _ ?s])
        (auto simp: key_post_def consoleintr_def edit_key_def cons_line_def Ctl_H_def Ctl_P_def Ctl_U_def)
  qed
qed

lemma plain_keys:
  assumes "cons_ok s" "lkok s" "held s = {}" "0 \<le> c" "c < 256" "c \<noteq> Ctl_P" "\<not> (c = Ctl_U \<or> c = Ctl_H \<or> c = 0x7f)"
  shows "\<exists>t. key_post c s t"
proof -
  let ?s = "entered Lk_cons s"
  have e: "cons_ok ?s" "lkok ?s" "held ?s = {Lk_cons}" using assms(1-3) by simp_all
  have len: "length (cons_ready s) + length (cons_line s) = unat (ce s - cr s)" "unat (ce s - cr s) \<le> INPUT_BUF_SIZE"
    using assms(1) by (auto simp: cons_lengths cons_ok_def)
  show ?thesis
  proof (cases "c = 0 \<or> unat (ce s - cr s) = INPUT_BUF_SIZE")
    case True
    then have "\<not> (c \<noteq> 0 \<and> ce s - cr s < of_nat INPUT_BUF_SIZE)" using cons_room [OF assms(1)] by auto
    then show ?thesis
      using True assms(2,3,6,7) e len by (intro exI [of _ ?s]) (auto simp: key_post_def consoleintr_def edit_key_def)
  next
    case False
    then have room: "unat (ce ?s - cr ?s) < INPUT_BUF_SIZE" using len(2) by simp
    from cons_store_ok [OF e(1) room e(2,3) assms(4,5)] obtain t where t: "cons_store c ?s = Ret () t" "cons_ok t" "lkok t"
        "held t = {Lk_cons}" "(cons_ready t, cons_line t) = edit_key c (cons_ready s, cons_line s)"
      using False assms(7) len(1) e(3) by (auto simp: edit_key_def Let_def)
    then show ?thesis
      using False room assms(2,3,6,7) cons_room [OF assms(1)] by (intro exI [of _ t]) (simp add: key_post_def consoleintr_def)
  qed
qed

lemma edit_key_ready: "\<exists>more. fst (edit_key c (r, l)) = r @ more"
  by (auto simp: edit_key_def Let_def)

subsection \<open>Properties\<close>

text \<open>
  C17. The console's interrupt handler is a line editor: for every key but control-P, \<open>consoleintr\<close> returns with the finished
  lines and the line being edited changed exactly as \<open>edit_key\<close> says (erase, kill, echo of an ordinary key, a line finished by
  newline, control-D or a full buffer), and a finished line is never altered by later editing.
\<close>

theorem consoleintr_edits:
  assumes "cons_ok s" "lkok s" "held s = {}" "0 \<le> c" "c < 256" "c \<noteq> Ctl_P"
  shows "\<exists>t. consoleintr c s = Ret () t \<and> cons_ok t \<and> held t = {}
    \<and> (cons_ready t, cons_line t) = edit_key c (cons_ready s, cons_line s)
    \<and> (\<exists>more. cons_ready t = cons_ready s @ more)"
proof -
  obtain t where t: "key_post c s t"
    using erase_keys [OF assms(1-3)] plain_keys [OF assms] by blast
  then have "cons_ready t = fst (edit_key c (cons_ready s, cons_line s))" by (metis fst_conv key_post_def)
  then show ?thesis
    using t edit_key_ready [of c "cons_ready s" "cons_line s"]
    by (intro exI [of _ "left Lk_cons t"]) (simp add: key_post_def)
qed

text \<open>An editor that holds the unfinished line \<open>ls\<close>.\<close>

definition cons_ex :: file_state where
  "cons_ex = (file_of proc_ex_run)\<lparr>cbuf := [108, 115] @ replicate 126 0, cr := 0, cw := 0, ce := 2\<rparr>"

lemma cons_ex_ok: "cons_ok cons_ex" "lkok cons_ex" "held cons_ex = {}" "cons_ready cons_ex = []" "cons_line cons_ex = [108, 115]"
proof -
  show "cons_ready cons_ex = []" by (simp add: cons_ready_def cons_ex_def)
  show l: "cons_line cons_ex = [108, 115]"
    by (simp add: cons_line_def cons_ex_def ring_def INPUT_BUF_SIZE_def upt_rec)
  show "cons_ok cons_ex" using l by (simp add: cons_ok_def) (simp add: cons_ex_def INPUT_BUF_SIZE_def ends_line_def)
qed (simp_all add: cons_ex_def)

theorem consoleintr_edits_witness:
  "\<exists>t. consoleintr 13 cons_ex = Ret () t \<and> cons_ready t = [108, 115, 10] \<and> cons_line t = []"
  using consoleintr_edits [OF cons_ex_ok(1-3), of 13] cons_ex_ok(4,5)
  by (auto simp: edit_key_def Ctl_P_def Ctl_U_def Ctl_H_def INPUT_BUF_SIZE_def ends_line_def)

text \<open>
  C18. Reading the console takes a line: when the finished lines suffice for the read, \<open>consoleread\<close> of at most \<open>n\<close> bytes into
  writable user memory returns the number of bytes \<open>read_line\<close> takes, has put exactly these bytes there, leaves the rest for the
  next read and does not touch the line being edited; a control-D after some bytes ends the read and stays, so that the next
  read returns 0.
\<close>

theorem consoleread_line:
  assumes "vmok s pt ps" "held s = {}" "myp s = Some pr" "ppagetable (procs s pr) = pt" "cons_ok s"
    "writable_range (mem s) pt ps va n" "read_line n False (cons_ready s) = Some (bs, q)"
  shows "\<exists>t. consoleread (User va) (int n) s = Ret (int (length bs)) t \<and> user_bytes (mem t) pt va (length bs) = bs
    \<and> cons_ready t = q \<and> cons_line t = cons_line s \<and> cons_ok t \<and> held t = {}"
proof -
  let ?s = "entered Lk_cons s"
  have lk: "lkok s" using assms(1) by (simp add: vmok_def)
  have "in_cons pr pt ps ?s" using assms(1-5) by (simp add: in_cons_def vmok_def kmem_inv_def)
  from consoleread_loop_ok [OF this, of va n n bs q] obtain t
    where t: "consoleread_loop n (User va) n ?s = Ret (int (length bs)) (left Lk_cons t)" "in_cons pr pt ps t"
      "cons_ready t = q" "cons_line t = cons_line s" "delivered pt va bs (mem s) (mem t)"
    using assms(6,7) by auto
  then show ?thesis
    using lk assms(2) by (intro exI [of _ "left Lk_cons t"]) (auto simp: consoleread_def in_cons_def delivered_def)
qed

theorem consoleread_line_witness:
  "\<exists>(s :: file_state) t. consoleread (User 5) 3 s = Ret 2 t \<and> user_bytes (mem t) 0x87001000 5 2 = [65, 10] \<and> cons_ready t = [66]"
proof -
  obtain s0 :: file_state and ps where s0: "pipe_user 0x87006000 3 0x87001000 ps (s0\<lparr>pipes := (\<lambda>_. pipe_ex)\<rparr>)"
      "writable_range (mem s0) 0x87001000 ps 5 3"
    using pipe_user_ex by blast
  let ?s = "s0\<lparr>cbuf := [65, 10, 66] @ replicate 125 0, cr := 0, cw := 3, ce := 3\<rparr>"
  have r: "cons_ready ?s = [65, 10, 66]" "cons_line ?s = []"
    by (simp_all add: cons_ready_def cons_line_def ring_def INPUT_BUF_SIZE_def upt_rec)
  have ok: "cons_ok ?s" using r(2) by (simp add: cons_ok_def) (simp add: INPUT_BUF_SIZE_def)
  have "vmok ?s 0x87001000 ps" "held ?s = {}" "myp ?s = Some 3" "ppagetable (procs ?s 3) = 0x87001000"
    using s0(1) by (simp_all add: pipe_user_def idle_def vmok_def kmem_inv_def)
  note c = consoleread_line [OF this ok, of 5 3 "[65, 10]" "[66]"]
  have "read_line 3 False [65, 10, 66] = Some ([65, 10], [66])" by (simp add: numeral_3_eq_3)
  then obtain t where "consoleread (User 5) 3 ?s = Ret 2 t" "user_bytes (mem t) 0x87001000 5 2 = [65, 10]" "cons_ready t = [66]"
    using c s0(2) unfolding r(1) by (auto simp: numeral_2_eq_2)
  then show ?thesis by blast
qed

end
