(* ===== verification/Recovery.thy ===== *)
theory Recovery
  imports Log
begin

section \<open>Commit and recovery of the log\<close>

text \<open>
  What \<open>commit\<close> writes to the disk, what \<open>recover_from_log\<close> makes of a disk it finds, and that a
  crash between any two writes leaves either the whole transaction or none of it.
\<close>

subsection \<open>Reading and writing pairs of blocks\<close>

lemma bio_frame_log:
  assumes "bio_frame s t"
  shows "log_start t = log_start s" "log_dev t = log_dev s" "lh_n t = lh_n s" "lh_block t = lh_block s"
    "outstanding t = outstanding s" "committing t = committing s" "log_state.more t = log_state.more s"
proof -
  have "log_start (bio_restore s t) = log_start t" "log_dev (bio_restore s t) = log_dev t"
    "lh_n (bio_restore s t) = lh_n t" "lh_block (bio_restore s t) = lh_block t"
    "outstanding (bio_restore s t) = outstanding t" "committing (bio_restore s t) = committing t"
    "log_state.more (bio_restore s t) = log_state.more t"
    by (simp_all add: bio_restore_def)
  then show "log_start t = log_start s" "log_dev t = log_dev s" "lh_n t = lh_n s" "lh_block t = lh_block s"
    "outstanding t = outstanding s" "committing t = committing s" "log_state.more t = log_state.more s"
    using assms by (simp_all add: bio_frame_def)
qed

text \<open>
  What a sequence of cache operations that leaves no buffer locked has done: \<open>ws\<close> are the blocks
  written to the disk, in order, and the pinned buffers \<open>P\<close> still hold the same blocks.
\<close>

fun apply_writes :: "(nat \<Rightarrow> bytes) \<Rightarrow> (nat \<times> bytes) list \<Rightarrow> nat \<Rightarrow> bytes" where
  "apply_writes d [] = d"
| "apply_writes d ((b, x) # ws) = apply_writes (d(b := x)) ws"

definition wrote :: "(nat \<times> bytes) list \<Rightarrow> nat set \<Rightarrow> 'z bio_state_scheme \<Rightarrow> 'z bio_state_scheme \<Rightarrow> bool" where
  "wrote ws P s t \<longleftrightarrow> disk t = apply_writes (disk s) ws \<and> dlog t = dlog s @ ws
     \<and> blk t = apply_writes (blk s) ws \<and> (\<forall>j\<in>P. blockno (bufs t j) = blockno (bufs s j))
     \<and> bio_frame s t \<and> calm s t"

lemma apply_writes_append [simp]: "apply_writes d (xs @ ys) = apply_writes (apply_writes d xs) ys"
  by (induction xs arbitrary: d) auto

lemma wrote_refl [simp]: "wrote [] P s s"
  by (simp add: wrote_def)

lemma wrote_trans: "wrote ws P s t \<Longrightarrow> wrote ws' P t u \<Longrightarrow> wrote (ws @ ws') P s u"
  by (auto simp: wrote_def intro: bio_frame_trans calm_trans)

lemma wrote_idle: "wrote ws P s t \<Longrightarrow> idle p s \<Longrightarrow> idle p t"
  by (auto simp: wrote_def intro: calm_idle)

lemma wrote_mono: "wrote ws P s t \<Longrightarrow> Q \<subseteq> P \<Longrightarrow> wrote ws Q s t"
  by (auto simp: wrote_def)

lemma same_blocks_trans: "same_blocks s t \<Longrightarrow> same_blocks t u \<Longrightarrow> same_blocks s u"
  by (auto simp: same_blocks_def intro: bio_frame_trans calm_trans)

lemma blk_clean:
  assumes "bio_ok P {} s" "\<And>i. i \<in> P \<Longrightarrow> blockno (bufs s i) \<noteq> b"
  shows "blk s b = disk s b"
proof (cases "\<exists>i<NBUF. bvalid (bufs s i) \<and> blockno (bufs s i) = b")
  case True
  then obtain i where i: "i < NBUF" "bvalid (bufs s i)" "blockno (bufs s i) = b" by blast
  then have "i \<notin> P" using assms(2) by blast
  then show ?thesis using blk_cached [OF assms(1) i] bio_okD(9) [OF assms(1) i(1,2)] i(3) by simp
next
  case False
  then show ?thesis by (intro blk_uncached) auto
qed

text \<open>Two buffers locked at once: the block \<open>l\<close>, not pinned, and the block \<open>b\<close>.\<close>

definition pair_post :: "nat set \<Rightarrow> nat \<Rightarrow> nat \<Rightarrow> 'z bio_state_scheme \<Rightarrow> nat \<Rightarrow> nat \<Rightarrow> 'z bio_state_scheme \<Rightarrow> bool" where
  "pair_post P l b s i j t \<longleftrightarrow> bio_ok P {j, i} t \<and> i \<notin> P \<and> (j \<in> P \<longleftrightarrow> (\<exists>k\<in>P. blockno (bufs s k) = b)) \<and> j \<noteq> i
     \<and> blockno (bufs t i) = l \<and> blockno (bufs t j) = b \<and> bdata (bufs t i) = blk s l \<and> bdata (bufs t j) = blk s b
     \<and> (\<forall>k\<in>P. blockno (bufs t k) = blockno (bufs s k))
     \<and> blk t = blk s \<and> disk t = disk s \<and> dlog t = dlog s \<and> bio_frame s t \<and> calm s t"

lemma read_pair:
  assumes ok: "bio_ok P {} s" and id: "idle p s" and card: "card P < NBUF" and ne: "l \<noteq> b"
    and pin: "(\<exists>i\<in>P. blockno (bufs s i) = b) \<or> Suc (card P) < NBUF"
    and out: "\<And>i. i \<in> P \<Longrightarrow> blockno (bufs s i) \<noteq> l"
  shows "\<exists>i u j t. bread ROOTDEV l s = Ret i u \<and> bread ROOTDEV b u = Ret j t \<and> bio_frame s u
    \<and> pair_post P l b s i j t"
proof -
  obtain i u where 1: "bread ROOTDEV l s = Ret i u" and p1: "bread_post P {} l s i u"
    using bread_ok [OF ok id, of l] card by auto
  have b1: "bio_ok P {i} u" "i \<notin> P" "blockno (bufs u i) = l" "bdata (bufs u i) = blk s l"
      "blk u = blk s" "disk u = disk s" "dlog u = dlog s" "bio_frame s u" "calm s u"
      "\<And>k. k \<in> P \<Longrightarrow> blockno (bufs u k) = blockno (bufs s k)"
    using p1 out by (auto simp: bread_post_def)
  have f: "finite P" using bio_okD(1) [OF ok] finite_subset by blast
  have pin1: "card (P \<union> {i}) < NBUF \<or> (\<exists>k\<in>P. blockno (bufs u k) = b)"
    using pin b1(2,10) f by auto
  obtain j t where 2: "bread ROOTDEV b u = Ret j t" and p2: "bread_post P {i} b u j t"
    using bread_ok [OF b1(1) calm_idle [OF b1(9) id] _ pin1] b1(3) ne by auto
  have "bio_frame s t" "calm s t"
    using p2 b1(8,9) by (auto simp: bread_post_def intro: bio_frame_trans calm_trans)
  moreover have "\<And>k. k \<in> P \<Longrightarrow> blockno (bufs t k) = blockno (bufs s k)"
    using p2 b1(10) by (auto simp: bread_post_def)
  ultimately have "pair_post P l b s i j t"
    using p2 b1 unfolding bread_post_def pair_post_def by auto
  then show ?thesis using 1 2 b1(8) by blast
qed

text \<open>Filling a locked buffer and writing it to the disk.\<close>

lemma store_ok:
  assumes "bio_ok P H s" "idle p s" "i \<in> H" "length d = BSIZE" "blockno (bufs s i) = b"
  shows "\<exists>u t. set_bytes i (\<lambda>_. d) s = Ret () u \<and> bwrite i u = Ret () t \<and> bio_ok P H t \<and> idle p t
    \<and> bufs t = (bufs s)(i := (bufs s i)\<lparr>bdata := d\<rparr>) \<and> disk t = (disk s)(b := d) \<and> dlog t = dlog s @ [(b, d)]
    \<and> blk t = (blk s)(b := d) \<and> bio_frame s t \<and> calm s t"
proof -
  obtain u where u: "set_bytes i (\<lambda>_. d) s = Ret () u" "bio_ok P H u" "blk u = (blk s)(b := d)"
      "bufs u = (bufs s)(i := (bufs s i)\<lparr>bdata := d\<rparr>)" "disk u = disk s" "dlog u = dlog s" "bio_frame s u"
      "lkok s \<longrightarrow> calm s u"
    using set_bytes_ok [OF assms(1,3), of "\<lambda>_. d"] assms(4,5) by auto
  have c: "calm s u" using u(8) assms(2) by (simp add: idle_def)
  obtain t where t: "bwrite i u = Ret () t" "bio_ok P H t" "blk t = blk u" "bufs t = bufs u"
      "disk t = (disk s)(b := d)" "dlog t = dlog s @ [(b, d)]" "bio_frame u t" "calm u t"
    using bwrite_ok [OF u(2) calm_idle [OF c assms(2)] assms(3)] u assms(5) by auto
  have "idle p t" by (rule calm_idle [OF t(8) calm_idle [OF c assms(2)]])
  then show ?thesis
    using u t bio_frame_trans [OF u(7) t(7)] calm_trans [OF c t(8)] by auto
qed

text \<open>Giving back two buffers that hold what the disk holds, or are pinned.\<close>

lemma release_pair:
  assumes "bio_ok P {j, i} s" "idle p s" "i \<noteq> j" "\<And>k. k = i \<or> k = j \<Longrightarrow> k \<in> P \<or> bdata (bufs s k) = disk s (blockno (bufs s k))"
  shows "\<exists>u t. brelse i s = Ret () u \<and> brelse j u = Ret () t \<and> bio_ok P {} t \<and> same_blocks s t
    \<and> blk t = blk s \<and> disk t = disk s \<and> dlog t = dlog s"
proof -
  obtain u where u: "brelse i s = Ret () u" "bio_ok P {j} u" "same_blocks s u" "blk u = blk s" "disk u = disk s"
      "dlog u = dlog s"
    using brelse_ok [OF assms(1,2), of i] assms(3,4) by (auto simp: insert_Diff_if)
  have c: "calm s u" using u(3) by (simp add: same_blocks_def)
  have k: "j \<in> P \<or> bdata (bufs u j) = disk u (blockno (bufs u j))"
    using assms(4) [of j] u(3,5) by (simp add: same_blocks_def)
  obtain t where "brelse j u = Ret () t" "bio_ok P {} t" "same_blocks u t" "blk t = blk u" "disk t = disk u"
      "dlog t = dlog u"
    using brelse_ok [OF u(2) calm_idle [OF c assms(2)] _ k] by auto
  then show ?thesis using u same_blocks_trans [OF u(3)] by auto
qed

lemma write_log_one_ok:
  assumes ok: "bio_ok P {} s" and id: "idle p s" and dev: "log_dev s = ROOTDEV" and card: "card P < NBUF"
    and tl: "tail < length (lh_block s)" and pin: "\<exists>i\<in>P. blockno (bufs s i) = lh_block s ! tail"
    and out: "\<And>i. i \<in> P \<Longrightarrow> blockno (bufs s i) \<noteq> log_start s + tail + 1"
  shows "\<exists>t. write_log_one tail s = Ret () t \<and> bio_ok P {} t
    \<and> wrote [(log_start s + tail + 1, blk s (lh_block s ! tail))] P s t"
proof -
  let ?l = "log_start s + tail + 1" and ?b = "lh_block s ! tail"
  have ne: "?l \<noteq> ?b" using pin out by auto
  obtain i u j t where r: "bread ROOTDEV ?l s = Ret i u" "bread ROOTDEV ?b u = Ret j t" "bio_frame s u"
      "pair_post P ?l ?b s i j t"
    using read_pair [OF ok id card ne _ out] pin by blast
  have t: "bio_ok P {j, i} t" "i \<notin> P" "j \<in> P" "j \<noteq> i" "blockno (bufs t i) = ?l" "bdata (bufs t j) = blk s ?b"
      "blk t = blk s" "disk t = disk s" "dlog t = dlog s" "bio_frame s t" "calm s t"
      "\<And>k. k \<in> P \<Longrightarrow> blockno (bufs t k) = blockno (bufs s k)"
    using r(4) pin by (auto simp: pair_post_def)
  have len: "length (blk s ?b) = BSIZE" using t(6) bio_okD(8,10,12) [OF t(1), of j] by auto
  obtain v w where w: "set_bytes i (\<lambda>_. blk s ?b) t = Ret () v" "bwrite i v = Ret () w" "bio_ok P {j, i} w" "idle p w"
      "bufs w = (bufs t)(i := (bufs t i)\<lparr>bdata := blk s ?b\<rparr>)" "disk w = (disk s)(?l := blk s ?b)"
      "dlog w = dlog s @ [(?l, blk s ?b)]" "blk w = (blk s)(?l := blk s ?b)" "bio_frame t w" "calm t w"
    using store_ok [OF t(1) calm_idle [OF t(11) id], of i "blk s ?b" ?l] len t by auto
  have cl: "k \<in> P \<or> bdata (bufs w k) = disk w (blockno (bufs w k))" if "k = j \<or> k = i" for k
    using that w(5,6) t(3,5) by auto
  obtain x y where y: "brelse j w = Ret () x" "brelse i x = Ret () y" "bio_ok P {} y" "same_blocks w y"
      "blk y = blk w" "disk y = disk w" "dlog y = dlog w"
    using release_pair [OF w(3) [unfolded insert_commute [of j]] w(4) t(4) cl] by blast
  have fr: "bio_frame s y" "calm s y"
    using y(4) bio_frame_trans [OF t(10) w(9)] calm_trans [OF t(11) w(10)]
    by (auto simp: same_blocks_def intro: bio_frame_trans calm_trans)
  have "write_log_one tail s = Ret () y"
    using r(1,2) w(1,2) y(1,2) dev tl t(6) bio_frame_log(4) [OF r(3)]
    by (simp add: write_log_one_def get_lh_block_def bytes_of_def)
  moreover have "wrote [(?l, blk s ?b)] P s y"
    using fr y(4-7) w(5-8) t by (auto simp: wrote_def same_blocks_def)
  ultimately show ?thesis using y(3) by blast
qed

lemma install_trans_one_ok:
  assumes ok: "bio_ok P {} s" and id: "idle p s" and dev: "log_dev s = ROOTDEV" and card: "card P < NBUF"
    and tl: "tail < length (lh_block s)" and pin: "\<exists>i\<in>P. blockno (bufs s i) = lh_block s ! tail"
    and out: "\<And>i. i \<in> P \<Longrightarrow> blockno (bufs s i) \<noteq> log_start s + tail + 1"
  shows "\<exists>t. install_trans_one False tail s = Ret () t
    \<and> bio_ok {i \<in> P. blockno (bufs s i) \<noteq> lh_block s ! tail} {} t
    \<and> wrote [(lh_block s ! tail, disk s (log_start s + tail + 1))] P s t"
proof -
  let ?l = "log_start s + tail + 1" and ?b = "lh_block s ! tail"
  have ls: "blk s ?l = disk s ?l" by (rule blk_clean [OF ok out])
  have ne: "?l \<noteq> ?b" using pin out by auto
  obtain i u j t where r: "bread ROOTDEV ?l s = Ret i u" "bread ROOTDEV ?b u = Ret j t" "bio_frame s u"
      "pair_post P ?l ?b s i j t"
    using read_pair [OF ok id card ne _ out] pin by blast
  have t: "bio_ok P {j, i} t" "i \<notin> P" "j \<in> P" "j \<noteq> i" "blockno (bufs t i) = ?l" "blockno (bufs t j) = ?b"
      "bdata (bufs t i) = disk s ?l" "blk t = blk s" "disk t = disk s" "dlog t = dlog s" "bio_frame s t" "calm s t"
      "\<And>k. k \<in> P \<Longrightarrow> blockno (bufs t k) = blockno (bufs s k)"
    using r(4) pin ls by (auto simp: pair_post_def)
  obtain v w where w: "set_bytes j (\<lambda>_. disk s ?l) t = Ret () v" "bwrite j v = Ret () w" "bio_ok P {j, i} w" "idle p w"
      "bufs w = (bufs t)(j := (bufs t j)\<lparr>bdata := disk s ?l\<rparr>)" "disk w = (disk s)(?b := disk s ?l)"
      "dlog w = dlog s @ [(?b, disk s ?l)]" "blk w = (blk s)(?b := disk s ?l)" "bio_frame t w" "calm t w"
    using store_ok [OF t(1) calm_idle [OF t(12) id], of j "disk s ?l" ?b] bio_okD(11) [OF ok] t by auto
  obtain q where q: "bunpin j w = Ret () q" "bio_ok (P - {j}) {j, i} q" "same_blocks w q" "blk q = blk w" "disk q = disk w"
      "dlog q = dlog w"
    using bunpin_ok [OF w(3), of j] w(4) t by (auto simp: idle_def)
  have id': "idle p q" using q(3) w(4) by (auto simp: same_blocks_def intro: calm_idle)
  have cl: "k \<in> P - {j} \<or> bdata (bufs q k) = disk q (blockno (bufs q k))" if "k = i \<or> k = j" for k
    using that q(3,5) w(5,6) t(4-7) ne by (auto simp: same_blocks_def)
  obtain x y where y: "brelse i q = Ret () x" "brelse j x = Ret () y" "bio_ok (P - {j}) {} y" "same_blocks q y"
      "blk y = blk q" "disk y = disk q" "dlog y = dlog q"
    using release_pair [OF q(2) id' t(4) [symmetric] cl] by blast
  have sb: "same_blocks w y" by (rule same_blocks_trans [OF q(3) y(4)])
  have fr: "bio_frame s y" "calm s y"
    using sb bio_frame_trans [OF t(11) w(9)] calm_trans [OF t(12) w(10)]
    by (auto simp: same_blocks_def intro: bio_frame_trans calm_trans)
  have run: "install_trans_one False tail s = Ret () y"
    using r(1,2) w(1,2) q(1) y(1,2) dev tl t(7) bio_frame_log(4) [OF r(3)]
    by (simp add: install_trans_one_def get_lh_block_def bytes_of_def)
  have wr: "wrote [(?b, disk s ?l)] P s y"
    using fr sb y(5-7) q(4-6) w(5-8) t by (auto simp: wrote_def same_blocks_def)
  have e: "blockno (bufs s j) = ?b" using t(13) [OF t(3)] t(6) by simp
  have "k = j" if "k \<in> P" "blockno (bufs s k) = ?b" for k
    using bio_okD(7) [OF t(1), of k j] bio_okD(8,12) [OF t(1), of k] bio_okD(8,12) [OF t(1), of j]
      t(3,6) t(13) [OF that(1)] that by simp
  then have "P - {j} = {k \<in> P. blockno (bufs s k) \<noteq> ?b}" using e by blast
  then show ?thesis using run wr y(3) by metis
qed

subsection \<open>The header\<close>

lemma length_splice [simp]: "i + length src \<le> length xs \<Longrightarrow> length (splice i src xs) = length xs"
  by (simp add: splice_def)

lemma length_put32 [simp]: "4 * i + 4 \<le> length h \<Longrightarrow> length (put32 i w h) = length h"
  by (simp add: put32_def)

lemma get32_put32 [simp]: "4 * i + 4 \<le> length h \<Longrightarrow> get32 i (put32 i w h) = w"
  by (simp add: get32_def put32_def splice_def)

lemma get32_put32_other:
  assumes "4 * i + 4 \<le> length h" "4 * j + 4 \<le> length h" "i \<noteq> j"
  shows "get32 j (put32 i w h) = get32 j h"
proof -
  have "take 4 (drop (4 * j) (splice (4 * i) (le_bytes 4 w) h)) = take 4 (drop (4 * j) h)"
  proof (rule nth_equalityI)
    fix k assume "k < length (take 4 (drop (4 * j) (splice (4 * i) (le_bytes 4 w) h)))"
    then have k: "k < 4" by simp
    have "4 * j + k < 4 * i \<or> 4 * i + 4 \<le> 4 * j + k" using assms(3) k by linarith
    then show "take 4 (drop (4 * j) (splice (4 * i) (le_bytes 4 w) h)) ! k = take 4 (drop (4 * j) h) ! k"
      using assms k by (auto simp: splice_def nth_append)
  qed (use assms in simp)
  then show ?thesis by (simp add: get32_def put32_def)
qed

text \<open>The header block that lists \<open>bs\<close>, made from what the block held before.\<close>

primrec put_blocks :: "nat list \<Rightarrow> nat \<Rightarrow> bytes \<Rightarrow> bytes" where
  "put_blocks bs 0 h = h"
| "put_blocks bs (Suc n) h = put32 (Suc n) (of_nat (bs ! n)) (put_blocks bs n h)"

definition put_header :: "nat list \<Rightarrow> bytes \<Rightarrow> bytes" where
  "put_header bs h = put_blocks bs (length bs) (put32 0 (of_nat (length bs)) h)"

lemma length_put_blocks [simp]: "4 * n + 4 \<le> length h \<Longrightarrow> length (put_blocks bs n h) = length h"
  by (induction n) auto

lemma get32_put_blocks:
  "4 * n + 4 \<le> length h \<Longrightarrow> k \<le> n \<Longrightarrow>
     get32 k (put_blocks bs n h) = (if k = 0 then get32 0 h else of_nat (bs ! (k - 1)))"
proof (induction n)
  case (Suc n)
  show ?case
  proof (cases "k = Suc n")
    case True
    then show ?thesis using Suc.prems by simp
  next
    case False
    have "get32 k (put32 (Suc n) (of_nat (bs ! n)) (put_blocks bs n h)) = get32 k (put_blocks bs n h)"
      using Suc.prems False by (intro get32_put32_other) auto
    then show ?thesis using Suc False by simp
  qed
qed simp

lemma log_fits: "n \<le> LOGBLOCKS \<Longrightarrow> 4 * n + 4 \<le> BSIZE"
  by (simp add: param_defs BSIZE_def)

lemma length_put_header: "length bs \<le> LOGBLOCKS \<Longrightarrow> length h = BSIZE \<Longrightarrow> length (put_header bs h) = BSIZE"
  using log_fits [of "length bs"] by (simp add: put_header_def)

lemma header_count:
  assumes "length bs \<le> LOGBLOCKS" "length h = BSIZE"
  shows "get32 0 (put_header bs h) = of_nat (length bs)"
  using log_fits [OF assms(1)] assms(2) by (simp add: put_header_def get32_put_blocks)

lemma header_block:
  assumes "length bs \<le> LOGBLOCKS" "length h = BSIZE" "i < length bs"
  shows "get32 (Suc i) (put_header bs h) = of_nat (bs ! i)"
  using log_fits [OF assms(1)] assms by (simp add: put_header_def get32_put_blocks)

subsection \<open>Changing one block on the disk\<close>

lemma rewrite_ok:
  assumes ok: "bio_ok P {} s" and id: "idle p s" and card: "card P < NBUF"
    and out: "\<And>i. i \<in> P \<Longrightarrow> blockno (bufs s i) \<noteq> b" and len: "length (f (disk s b)) = BSIZE"
  shows "\<exists>i u v w t. bread ROOTDEV b s = Ret i u \<and> bio_frame s u \<and> bdata (bufs u i) = disk s b \<and> i < NBUF
    \<and> set_bytes i f u = Ret () v \<and> bwrite i v = Ret () w \<and> brelse i w = Ret () t
    \<and> bio_ok P {} t \<and> wrote [(b, f (disk s b))] P s t"
proof -
  have ls: "blk s b = disk s b" by (rule blk_clean [OF ok out])
  obtain i u where u: "bread ROOTDEV b s = Ret i u" and p: "bread_post P {} b s i u"
    using bread_ok [OF ok id, of b] card by auto
  have b: "bio_ok P {i} u" "i \<notin> P" "blockno (bufs u i) = b" "bdata (bufs u i) = disk s b" "i < NBUF"
      "blk u = blk s" "disk u = disk s" "dlog u = dlog s" "bio_frame s u" "calm s u"
      "\<And>k. k \<in> P \<Longrightarrow> blockno (bufs u k) = blockno (bufs s k)"
    using p out ls by (auto simp: bread_post_def)
  have sb: "set_bytes i f u = set_bytes i (\<lambda>_. f (disk s b)) u"
    using b(4) by (simp add: set_bytes_def upd_buf_def)
  obtain v w where w: "set_bytes i (\<lambda>_. f (disk s b)) u = Ret () v" "bwrite i v = Ret () w" "bio_ok P {i} w" "idle p w"
      "bufs w = (bufs u)(i := (bufs u i)\<lparr>bdata := f (disk s b)\<rparr>)" "disk w = (disk s)(b := f (disk s b))"
      "dlog w = dlog s @ [(b, f (disk s b))]" "blk w = (blk s)(b := f (disk s b))" "bio_frame u w" "calm u w"
    using store_ok [OF b(1) calm_idle [OF b(10) id] _ len b(3)] b by auto
  have cl: "i \<in> P \<or> bdata (bufs w i) = disk w (blockno (bufs w i))" using w(5,6) b(3) by simp
  obtain t where t: "brelse i w = Ret () t" "bio_ok P {} t" "same_blocks w t" "blk t = blk w" "disk t = disk w"
      "dlog t = dlog w"
    using brelse_ok [OF w(3,4) _ cl] by auto
  have "bio_frame s t" "calm s t"
    using t(3) bio_frame_trans [OF b(9) w(9)] calm_trans [OF b(10) w(10)]
    by (auto simp: same_blocks_def intro: bio_frame_trans calm_trans)
  then have "wrote [(b, f (disk s b))] P s t"
    using t(3-6) w(5-8) b(2,11) by (auto simp: wrote_def same_blocks_def)
  then show ?thesis using u b(4,5,9) w(1,2) t(1,2) sb by auto
qed

text \<open>The block numbers the in-memory header lists, and the shape of the log's state.\<close>

definition logged :: "'z log_state_scheme \<Rightarrow> nat list" where
  "logged s = take (nat (lh_n s)) (lh_block s)"

definition log_wf :: "'z log_state_scheme \<Rightarrow> bool" where
  "log_wf s \<longleftrightarrow> log_dev s = ROOTDEV \<and> 0 \<le> lh_n s \<and> lh_n s \<le> int LOGBLOCKS \<and> length (lh_block s) = LOGBLOCKS"

lemma length_logged: "log_wf s \<Longrightarrow> length (logged s) = nat (lh_n s)"
  by (auto simp: log_wf_def logged_def)

lemma logged_le: "log_wf s \<Longrightarrow> length (logged s) \<le> LOGBLOCKS"
  by (auto simp: log_wf_def logged_def)

lemma put_blocks_take: "put_blocks (take n bs) n h = put_blocks bs n h"
proof -
  have "put_blocks (take n bs) k h = put_blocks bs k h" if "k \<le> n" for k
    using that by (induction k) auto
  then show ?thesis by simp
qed

lemma write_head_loop:
  "n \<le> length (lh_block s) \<Longrightarrow>
   kiter (\<lambda>i. kbind (get_lh_block i) (\<lambda>b. set_bytes buf (put32 (Suc i) (of_nat b)))) [0..<n] s
     = set_bytes buf (put_blocks (lh_block s) n) s"
  by (induction n) (auto simp: kiter_append get_lh_block_def set_bytes_def upd_buf_def)

lemma write_head_ok:
  assumes ok: "bio_ok P {} s" and id: "idle p s" and wf: "log_wf s" and card: "card P < NBUF"
    and out: "\<And>i. i \<in> P \<Longrightarrow> blockno (bufs s i) \<noteq> log_start s"
  shows "\<exists>t. write_head s = Ret () t \<and> bio_ok P {} t
    \<and> wrote [(log_start s, put_header (logged s) (disk s (log_start s)))] P s t"
proof -
  let ?h = "put_header (logged s)"
  have len: "length (?h (disk s (log_start s))) = BSIZE"
    using length_put_header [OF logged_le [OF wf]] bio_okD(11) [OF ok] by simp
  obtain i u v w t where r: "bread ROOTDEV (log_start s) s = Ret i u" "bio_frame s u"
      "set_bytes i ?h u = Ret () v" "bwrite i v = Ret () w" "brelse i w = Ret () t"
      "bio_ok P {} t" "wrote [(log_start s, ?h (disk s (log_start s)))] P s t"
    using rewrite_ok [where f = ?h, OF ok id card out len] by blast
  have f: "log_dev s = ROOTDEV" "lh_n u = lh_n s" "lh_block u = lh_block s"
      "nat (lh_n s) \<le> length (lh_block s)" "0 \<le> lh_n s"
    using wf bio_frame_log [OF r(2)] by (auto simp: log_wf_def)
  have "?h = put_blocks (lh_block s) (nat (lh_n s)) \<circ> put32 0 (of_int (lh_n s))"
    using f length_logged [OF wf]
    by (auto simp: put_header_def fun_eq_iff logged_def put_blocks_take)
  then obtain x where e: "set_bytes i (put32 0 (of_int (lh_n s))) u = Ret () x"
      "set_bytes i (put_blocks (lh_block s) (nat (lh_n s))) x = Ret () v" "lh_block x = lh_block s"
    using r(3) f(3) by (simp add: set_bytes_def upd_buf_def)
  show ?thesis
    using r(1,4-7) e f by (simp add: write_head_def write_head_loop)
qed

subsection \<open>The loops of commit\<close>

lemma apply_writes_other: "b \<notin> fst ` set ws \<Longrightarrow> apply_writes d ws b = d b"
  by (induction d ws rule: apply_writes.induct) auto

text \<open>
  A transaction ready to commit: the header lists each block once, the pinned buffers are exactly
  those of the listed blocks, and no listed block is in the log area itself.
\<close>

definition txn_ok :: "nat set \<Rightarrow> 'z log_state_scheme \<Rightarrow> bool" where
  "txn_ok P s \<longleftrightarrow> log_wf s \<and> distinct (logged s)
     \<and> (\<forall>b\<in>set (logged s). \<exists>i\<in>P. blockno (bufs s i) = b)
     \<and> (\<forall>i\<in>P. blockno (bufs s i) \<in> set (logged s))
     \<and> (\<forall>b\<in>set (logged s). b < log_start s \<or> log_start s + LOGBLOCKS < b)"

lemma logged_nth: "log_wf s \<Longrightarrow> k < length (logged s) \<Longrightarrow> k < length (lh_block s) \<and> lh_block s ! k = logged s ! k"
  by (auto simp: logged_def)

lemma wrote_log:
  assumes "wrote ws P s t"
  shows "log_start t = log_start s" "lh_block t = lh_block s" "lh_n t = lh_n s" "log_wf t = log_wf s" "logged t = logged s"
  using bio_frame_log [of s t] assms by (auto simp: wrote_def log_wf_def logged_def)

lemma txn_block: "txn_ok P s \<Longrightarrow> b \<in> set (logged s) \<Longrightarrow> b < log_start s \<or> log_start s + LOGBLOCKS < b"
  by (auto simp: txn_ok_def)

lemma txn_outside:
  assumes "txn_ok P s" "k \<le> LOGBLOCKS" "i \<in> P"
  shows "blockno (bufs s i) \<noteq> log_start s + k"
  using assms by (fastforce simp: txn_ok_def)

lemma write_log_loop:
  assumes ok: "bio_ok P {} s" and id: "idle p s" and tx: "txn_ok P s" and card: "card P < NBUF"
  shows "k \<le> length (logged s) \<Longrightarrow> \<exists>t. kiter write_log_one [0..<k] s = Ret () t \<and> bio_ok P {} t
    \<and> wrote (map (\<lambda>j. (log_start s + j + 1, blk s (logged s ! j))) [0..<k]) P s t"
proof (induction k)
  case (Suc k)
  let ?ws = "map (\<lambda>j. (log_start s + j + 1, blk s (logged s ! j))) [0..<k]"
  obtain t where t: "kiter write_log_one [0..<k] s = Ret () t" "bio_ok P {} t" "wrote ?ws P s t"
    using Suc by auto
  have wf: "log_wf s" and k: "k < LOGBLOCKS" using tx logged_le [of s] Suc.prems by (auto simp: txn_ok_def)
  note l = wrote_log [OF t(3)] logged_nth [OF wf, of k]
  have b: "logged s ! k \<in> set (logged s)" using Suc.prems by simp
  have P: "blockno (bufs t i) = blockno (bufs s i)" if "i \<in> P" for i using t(3) that by (simp add: wrote_def)
  have blk: "blk t (logged s ! k) = blk s (logged s ! k)"
    using t(3) tx b k by (subst apply_writes_other [symmetric, of _ ?ws]) (auto simp: wrote_def txn_ok_def)
  have "\<exists>i\<in>P. blockno (bufs t i) = lh_block t ! k" using tx b P l Suc.prems by (auto simp: txn_ok_def)
  moreover have "blockno (bufs t i) \<noteq> log_start t + k + 1" if "i \<in> P" for i
    using txn_outside [OF tx, of "k + 1"] k P [OF that] that l(1) by simp
  ultimately obtain u where "write_log_one k t = Ret () u" "bio_ok P {} u"
      "wrote [(log_start t + k + 1, blk t (lh_block t ! k))] P t u"
    using write_log_one_ok [OF t(2) wrote_idle [OF t(3) id], of k] card l wf Suc.prems
    by (auto simp: log_wf_def)
  then show ?case
    using t(1) wrote_trans [OF t(3)] l blk Suc.prems by (auto simp: kiter_append)
qed (use ok in simp)

text \<open>The buffers still pinned once the first \<open>k\<close> blocks are installed.\<close>

definition unpinned :: "nat \<Rightarrow> nat set \<Rightarrow> 'z log_state_scheme \<Rightarrow> nat set" where
  "unpinned k P s = {i \<in> P. blockno (bufs s i) \<notin> set (take k (logged s))}"

lemma install_loop:
  assumes ok: "bio_ok P {} s" and id: "idle p s" and tx: "txn_ok P s" and card: "card P < NBUF"
  shows "k \<le> length (logged s) \<Longrightarrow> \<exists>t. kiter (install_trans_one False) [0..<k] s = Ret () t \<and> bio_ok (unpinned k P s) {} t
    \<and> wrote (map (\<lambda>j. (logged s ! j, disk s (log_start s + j + 1))) [0..<k]) (unpinned k P s) s t"
proof (induction k)
  case 0
  have "unpinned 0 P s = P" by (simp add: unpinned_def)
  then show ?case using ok by simp
next
  case (Suc k)
  let ?ws = "map (\<lambda>j. (logged s ! j, disk s (log_start s + j + 1))) [0..<k]" and ?P = "unpinned k P s"
  obtain t where t: "kiter (install_trans_one False) [0..<k] s = Ret () t" "bio_ok ?P {} t" "wrote ?ws ?P s t"
    using Suc by auto
  have wf: "log_wf s" and k: "k < LOGBLOCKS" "k < length (logged s)" and d: "distinct (logged s)"
    using tx logged_le [of s] Suc.prems by (auto simp: txn_ok_def)
  note l = wrote_log [OF t(3)] logged_nth [OF wf k(2)]
  have b: "logged s ! k \<in> set (logged s)" "logged s ! k \<notin> set (take k (logged s))"
    using k(2) d by (auto simp: in_set_conv_nth nth_eq_iff_index_eq)
  have P: "blockno (bufs t i) = blockno (bufs s i)" if "i \<in> ?P" for i using t(3) that by (simp add: wrote_def)
  have sub: "?P \<subseteq> P" by (auto simp: unpinned_def)
  have fin: "finite P" using finite_subset [OF bio_okD(1) [OF ok]] by simp
  have sp: "{i \<in> ?P. blockno (bufs t i) \<noteq> lh_block t ! k} = unpinned (Suc k) P s"
    using P l k by (auto simp: unpinned_def take_Suc_conv_app_nth)
  have "fst ` set ?ws \<subseteq> set (logged s)" using k by auto
  then have "log_start s + k + 1 \<notin> fst ` set ?ws"
    using txn_block [OF tx, of "log_start s + k + 1"] k by auto
  then have dk: "disk t (log_start s + k + 1) = disk s (log_start s + k + 1)"
    using t(3) apply_writes_other [of _ ?ws] by (simp add: wrote_def)
  have "\<exists>i\<in>?P. blockno (bufs t i) = lh_block t ! k" using tx b P l by (fastforce simp: txn_ok_def unpinned_def)
  moreover have "blockno (bufs t i) \<noteq> log_start t + k + 1" if "i \<in> ?P" for i
    using txn_outside [OF tx, of "k + 1" i] k P [OF that] that l(1) sub by auto
  moreover have "card ?P < NBUF" using card_mono [OF fin sub] card by simp
  ultimately obtain u where "install_trans_one False k t = Ret () u" "bio_ok (unpinned (Suc k) P s) {} u"
      and w: "wrote [(lh_block t ! k, disk t (log_start t + k + 1))] ?P t u"
    using install_trans_one_ok [OF t(2) wrote_idle [OF t(3) id], of k] l wf sp
    by (auto simp: log_wf_def)
  moreover have "wrote (?ws @ [(lh_block t ! k, disk t (log_start t + k + 1))]) (unpinned (Suc k) P s) s u"
    by (rule wrote_mono [OF wrote_trans [OF t(3) w]]) (use sp in auto)
  ultimately show ?case
    using t(1) l dk by (auto simp: kiter_append)
qed

subsection \<open>Commit\<close>

lemma bio_ok_log [simp]:
  "bio_ok P H (s\<lparr>lh_n := n\<rparr>) = bio_ok P H s" "bio_ok P H (s\<lparr>lh_block := bs\<rparr>) = bio_ok P H s"
  "bio_ok P H (s\<lparr>outstanding := x\<rparr>) = bio_ok P H s" "bio_ok P H (s\<lparr>committing := c\<rparr>) = bio_ok P H s"
  "blk (s\<lparr>lh_n := n\<rparr>) = blk s" "blk (s\<lparr>lh_block := bs\<rparr>) = blk s"
  "blk (s\<lparr>outstanding := x\<rparr>) = blk s" "blk (s\<lparr>committing := c\<rparr>) = blk s"
  by (rule bio_ok_cong; simp add: mypid_def)+

lemma calm_log [simp]:
  "calm s (t\<lparr>lh_n := n\<rparr>) = calm s t" "calm (s\<lparr>lh_n := n\<rparr>) t = calm s t"
  "calm s (t\<lparr>lh_block := bs\<rparr>) = calm s t" "calm (s\<lparr>lh_block := bs\<rparr>) t = calm s t"
  "calm s (t\<lparr>outstanding := x\<rparr>) = calm s t" "calm (s\<lparr>outstanding := x\<rparr>) t = calm s t"
  "calm s (t\<lparr>committing := c\<rparr>) = calm s t" "calm (s\<lparr>committing := c\<rparr>) t = calm s t"
  "idle p (s\<lparr>lh_n := n\<rparr>) = idle p s" "idle p (s\<lparr>lh_block := bs\<rparr>) = idle p s"
  "idle p (s\<lparr>outstanding := x\<rparr>) = idle p s" "idle p (s\<lparr>committing := c\<rparr>) = idle p s"
  by (simp_all add: calm_def idle_def)

lemma wrote_txn: "wrote ws P s t \<Longrightarrow> txn_ok P t = txn_ok P s"
  using wrote_log [of ws P s t] by (auto simp: txn_ok_def wrote_def)

lemma apply_writes_map:
  "inj_on a {..<n} \<Longrightarrow> i < n \<Longrightarrow> apply_writes d (map (\<lambda>j. (a j, v j)) [0..<n]) (a i) = v i"
proof (induction n)
  case (Suc n)
  have "inj_on a {..<n}" using Suc.prems(1) by (rule inj_on_subset) auto
  moreover have "a i \<noteq> a n" if "i < n" using inj_onD [OF Suc.prems(1), of i n] that by auto
  ultimately show ?case using Suc by (cases "i = n") auto
qed simp

definition commit_writes :: "nat \<Rightarrow> nat list \<Rightarrow> bytes list \<Rightarrow> bytes \<Rightarrow> (nat \<times> bytes) list" where
  "commit_writes start bs vs h =
     map (\<lambda>j. (start + j + 1, vs ! j)) [0..<length bs] @ [(start, put_header bs h)]
     @ map (\<lambda>j. (bs ! j, vs ! j)) [0..<length bs] @ [(start, put_header [] (put_header bs h))]"

lemma commit_logged:
  assumes ok: "bio_ok P {} s" and id: "idle p s" and tx: "txn_ok P s" and card: "card P < NBUF"
  defines "ws \<equiv> map (\<lambda>j. (log_start s + j + 1, map (blk s) (logged s) ! j)) [0..<length (logged s)]
    @ [(log_start s, put_header (logged s) (disk s (log_start s)))]"
  shows "\<exists>t u. write_log s = Ret () t \<and> write_head t = Ret () u \<and> bio_ok P {} u \<and> wrote ws P s u
    \<and> (\<forall>j<length (logged s). disk u (log_start s + j + 1) = blk s (logged s ! j))
    \<and> disk u (log_start s) = put_header (logged s) (disk s (log_start s))"
proof -
  let ?n = "length (logged s)" and ?h = "log_start s"
  let ?w = "map (\<lambda>j. (?h + j + 1, map (blk s) (logged s) ! j)) [0..<?n]"
  have wf: "log_wf s" and ln: "nat (lh_n s) = ?n" using tx length_logged [of s] by (auto simp: txn_ok_def)
  have w: "?w = map (\<lambda>j. (?h + j + 1, blk s (logged s ! j))) [0..<?n]" by simp
  obtain t where t: "write_log s = Ret () t" "bio_ok P {} t" "wrote ?w P s t"
    using write_log_loop [OF ok id tx card order_refl] ln unfolding w write_log_def by auto
  have "?h \<notin> fst ` set ?w" by auto
  then have d: "disk t ?h = disk s ?h" using t(3) apply_writes_other [of ?h ?w] by (simp add: wrote_def)
  note tx1 = tx [folded wrote_txn [OF t(3)]] and l = wrote_log [OF t(3)]
  obtain u where u: "write_head t = Ret () u" "bio_ok P {} u"
      "wrote [(?h, put_header (logged s) (disk s ?h))] P t u"
    using write_head_ok [OF t(2) wrote_idle [OF t(3) id] _ card] txn_outside [OF tx1, of 0] d l wf by auto
  have "disk u (?h + j + 1) = blk s (logged s ! j)" if "j < ?n" for j
    using apply_writes_map [of "\<lambda>j. ?h + j + 1" ?n j "disk s" "\<lambda>j. map (blk s) (logged s) ! j"] that
      t(3) u(3) by (simp add: wrote_def inj_on_def)
  moreover have "disk u ?h = put_header (logged s) (disk s ?h)" using u(3) by (simp add: wrote_def)
  ultimately show ?thesis using wrote_trans [OF t(3) u(3)] t(1) u(1,2) unfolding ws_def by auto
qed

lemma bio_frame_lh_n:
  assumes "bio_frame s t"
  shows "bio_frame (s\<lparr>lh_n := n\<rparr>) (t\<lparr>lh_n := n\<rparr>)"
proof -
  have "bio_restore (s\<lparr>lh_n := n\<rparr>) (t\<lparr>lh_n := n\<rparr>) = (bio_restore s t)\<lparr>lh_n := n\<rparr>" by (simp add: bio_restore_def)
  then show ?thesis using assms by (simp add: bio_frame_def)
qed

lemma commit_ok:
  assumes ok: "bio_ok P {} s" and id: "idle p s" and tx: "txn_ok P s" and card: "card P < NBUF" and n: "lh_n s > 0"
  defines "ws \<equiv> commit_writes (log_start s) (logged s) (map (blk s) (logged s)) (disk s (log_start s))"
  shows "\<exists>t. commit s = Ret () t \<and> bio_ok {} {} t \<and> lh_n t = 0 \<and> calm s t \<and> bio_frame (s\<lparr>lh_n := 0\<rparr>) t
    \<and> disk t = apply_writes (disk s) ws \<and> dlog t = dlog s @ ws \<and> blk t = apply_writes (blk s) ws"
proof -
  let ?n = "length (logged s)" and ?h = "log_start s"
  let ?w3 = "map (\<lambda>j. (logged s ! j, map (blk s) (logged s) ! j)) [0..<?n]"
  have wf: "log_wf s" and ln: "nat (lh_n s) = ?n" using tx length_logged [of s] by (auto simp: txn_ok_def)
  obtain t1 t2 ws1 where t1: "write_log s = Ret () t1" "write_head t1 = Ret () t2" "bio_ok P {} t2" "wrote ws1 P s t2"
      and d: "\<forall>j<?n. disk t2 (?h + j + 1) = blk s (logged s ! j)" "disk t2 ?h = put_header (logged s) (disk s ?h)"
      and ws1: "ws1 = map (\<lambda>j. (?h + j + 1, map (blk s) (logged s) ! j)) [0..<?n]
        @ [(?h, put_header (logged s) (disk s ?h))]"
    using commit_logged [OF ok id tx card] by blast
  note tx2 = tx [folded wrote_txn [OF t1(4)]] and l2 = wrote_log [OF t1(4)]
  have w3: "?w3 = map (\<lambda>j. (logged t2 ! j, disk t2 (log_start t2 + j + 1))) [0..<?n]" using d l2 by simp
  have un: "unpinned ?n P t2 = {}" using tx2 l2 by (auto simp: unpinned_def txn_ok_def)
  obtain t3 where t3: "install_trans False t2 = Ret () t3" "bio_ok {} {} t3" "wrote ?w3 {} t2 t3"
    using install_loop [OF t1(3) wrote_idle [OF t1(4) id] tx2 card, of ?n] l2 ln un
    unfolding w3 install_trans_def by auto
  note w = wrote_trans [OF wrote_mono [OF t1(4)] t3(3), simplified]
  have "fst ` set ?w3 \<subseteq> set (logged s)" by auto
  then have "?h \<notin> fst ` set ?w3" using txn_block [OF tx, of ?h] by auto
  then have d3: "disk t3 ?h = put_header (logged s) (disk s ?h)"
    using t3(3) d(2) apply_writes_other [of ?h ?w3] by (simp add: wrote_def)
  let ?t = "t3\<lparr>lh_n := 0\<rparr>"
  have l3: "log_start ?t = ?h" "logged ?t = []" "log_wf ?t" "idle p ?t"
    using wrote_log [OF w] wf wrote_idle [OF w id] by (auto simp: logged_def log_wf_def idle_def)
  obtain t4 where t4: "write_head ?t = Ret () t4" "bio_ok {} {} t4"
      "wrote [(?h, put_header [] (put_header (logged s) (disk s ?h)))] {} ?t t4"
    using write_head_ok [OF _ l3(4,3), of "{}"] t3(2) d3 l3 by (auto simp: param_defs)
  have "commit s = Ret () t4" using n t1 t3(1) t4(1) by (simp add: commit_def commit_code_def)
  moreover have "lh_n t4 = 0" using wrote_log(3) [OF t4(3)] by simp
  moreover have "calm s t4" using w t4(3) by (auto simp: wrote_def intro: calm_trans)
  moreover have "bio_frame (s\<lparr>lh_n := 0\<rparr>) t4"
    using w t4(3) bio_frame_lh_n [of s t3 0] by (auto simp: wrote_def intro: bio_frame_trans)
  ultimately show ?thesis using w t4(2,3) unfolding ws_def commit_writes_def ws1 by (auto simp: wrote_def)
qed

subsection \<open>Recovery\<close>

lemma recovering_out:
  "\<exists>out. printf_out (''recovering tail %d dst %d'' @ [CHR 0x0A]) [Vint x, Vint y] = Some out"
proof -
  obtain o1 where 1: "conv_int va_int 10 True 1 [Vint x, Vint y] = Some (o1, 1, [Vint y])"
    using conv_int_total [of 10 va_int "[Vint x, Vint y]" _ "[Vint y]" True 1] by auto
  obtain o2 where 2: "conv_int va_int 10 True 1 [Vint y] = Some (o2, 1, [])"
    using conv_int_total [of 10 va_int "[Vint y]" _ "[]" True 1] by auto
  show ?thesis
    by (simp add: printf_out_def char_at_def NUL_def convert_def Let_def 1 [simplified] 2 [simplified])
qed

lemma bio_ok_printed:
  fixes out :: string
  assumes "lkok s"
  defines "t \<equiv> (touch s)\<lparr>kout := kout s @ out\<rparr>"
  shows "bio_ok P H t = bio_ok P H s" "wrote [] Q s t"
proof -
  show "bio_ok P H t = bio_ok P H s" by (rule bio_ok_cong) (simp_all add: mypid_def t_def)
  have "blk t = blk s" by (rule bio_ok_cong) (simp_all add: mypid_def t_def)
  then show "wrote [] Q s t"
    using assms(1) by (simp add: wrote_def bio_frame_def bio_restore_def calm_def t_def touch_def [of s])
qed

lemma install_one_ok:
  assumes ok: "bio_ok {} {} s" and id: "idle p s" and dev: "log_dev s = ROOTDEV"
    and tl: "tail < length (lh_block s)" and ne: "log_start s + tail + 1 \<noteq> lh_block s ! tail"
    and pr: "printf (''recovering tail %d dst %d'' @ [CHR 0x0A]) [Vint (of_nat tail), Vint (of_nat (lh_block s ! tail))] s' = Ret 0 s"
    and bl: "lh_block s' = lh_block s"
  shows "\<exists>t. install_trans_one True tail s' = Ret () t
    \<and> bio_ok {} {} t \<and> wrote [(lh_block s ! tail, disk s (log_start s + tail + 1))] {} s t"
proof -
  let ?l = "log_start s + tail + 1" and ?b = "lh_block s ! tail"
  have ls: "blk s ?l = disk s ?l" by (rule blk_clean [OF ok]) simp
  obtain i u j t where r: "bread ROOTDEV ?l s = Ret i u" "bread ROOTDEV ?b u = Ret j t" "bio_frame s u"
      "pair_post {} ?l ?b s i j t"
    using read_pair [OF ok id _ ne] by (auto simp: param_defs)
  have t: "bio_ok {} {j, i} t" "j \<noteq> i" "blockno (bufs t i) = ?l" "blockno (bufs t j) = ?b"
      "bdata (bufs t i) = disk s ?l" "blk t = blk s" "disk t = disk s" "dlog t = dlog s" "bio_frame s t" "calm s t"
    using r(4) ls by (auto simp: pair_post_def)
  obtain v w where w: "set_bytes j (\<lambda>_. disk s ?l) t = Ret () v" "bwrite j v = Ret () w" "bio_ok {} {j, i} w" "idle p w"
      "bufs w = (bufs t)(j := (bufs t j)\<lparr>bdata := disk s ?l\<rparr>)" "disk w = (disk s)(?b := disk s ?l)"
      "dlog w = dlog s @ [(?b, disk s ?l)]" "blk w = (blk s)(?b := disk s ?l)" "bio_frame t w" "calm t w"
    using store_ok [OF t(1) calm_idle [OF t(10) id], of j "disk s ?l" ?b] bio_okD(11) [OF ok] t by auto
  have cl: "k \<in> {} \<or> bdata (bufs w k) = disk w (blockno (bufs w k))" if "k = i \<or> k = j" for k
    using that w(5,6) t(2-5) ne by auto
  obtain x y where y: "brelse i w = Ret () x" "brelse j x = Ret () y" "bio_ok {} {} y" "same_blocks w y"
      "blk y = blk w" "disk y = disk w" "dlog y = dlog w"
    using release_pair [OF w(3,4) t(2) [symmetric] cl] by blast
  have "bio_frame s y" "calm s y"
    using y(4) bio_frame_trans [OF t(9) w(9)] calm_trans [OF t(10) w(10)]
    by (auto simp: same_blocks_def intro: bio_frame_trans calm_trans)
  then have "wrote [(?b, disk s ?l)] {} s y"
    using y(5-7) w(6-8) by (auto simp: wrote_def)
  then show ?thesis
    using r(1,2) w(1,2) y(1-3) dev tl t(5) bl pr bio_frame_log(4) [OF r(3)]
    by (simp add: install_trans_one_def get_lh_block_def bytes_of_def)
qed

lemma install_trans_one_recovering:
  assumes ok: "bio_ok {} {} s" and id: "idle p s" and dev: "log_dev s = ROOTDEV"
    and tl: "tail < length (lh_block s)" and ne: "log_start s + tail + 1 \<noteq> lh_block s ! tail"
  shows "\<exists>t. install_trans_one True tail s = Ret () t \<and> bio_ok {} {} t
    \<and> wrote [(lh_block s ! tail, disk s (log_start s + tail + 1))] {} s t"
proof -
  obtain out where out: "printf_out (''recovering tail %d dst %d'' @ [CHR 0x0A])
      [Vint (of_nat tail), Vint (of_nat (lh_block s ! tail))] = Some out"
    using recovering_out by blast
  let ?s = "(touch s)\<lparr>kout := kout s @ out\<rparr>"
  have lk: "lkok s" "held s = {}" using id by (auto simp: idle_def)
  note w = bio_ok_printed(2) [OF lk(1), of "{}" out]
  have "bio_ok {} {} ?s" using bio_ok_printed(1) [OF lk(1)] ok by blast
  moreover have "printf (''recovering tail %d dst %d'' @ [CHR 0x0A])
      [Vint (of_nat tail), Vint (of_nat (lh_block ?s ! tail))] s = Ret 0 ?s"
    using printf_eq [OF out lk(1)] lk(2) by simp
  moreover have "log_dev ?s = ROOTDEV" "tail < length (lh_block ?s)"
      "log_start ?s + tail + 1 \<noteq> lh_block ?s ! tail" "lh_block s = lh_block ?s"
    using dev tl ne by simp_all
  ultimately obtain t where t: "bio_ok {} {} t" "wrote [(lh_block ?s ! tail, disk ?s (log_start ?s + tail + 1))] {} ?s t"
    and r: "install_trans_one True tail s = Ret () t"
    using install_one_ok [OF _ wrote_idle [OF w id]] by blast
  show ?thesis using wrote_trans [OF w t(2)] t(1) r by simp
qed

lemma install_recovering_loop:
  assumes ok: "bio_ok {} {} s" and id: "idle p s" and wf: "log_wf s"
    and out: "\<And>b. b \<in> set (logged s) \<Longrightarrow> b < log_start s \<or> log_start s + LOGBLOCKS < b"
  shows "k \<le> length (logged s) \<Longrightarrow> \<exists>t. kiter (install_trans_one True) [0..<k] s = Ret () t \<and> bio_ok {} {} t
    \<and> wrote (map (\<lambda>j. (logged s ! j, disk s (log_start s + j + 1))) [0..<k]) {} s t"
proof (induction k)
  case (Suc k)
  let ?ws = "map (\<lambda>j. (logged s ! j, disk s (log_start s + j + 1))) [0..<k]"
  obtain t where t: "kiter (install_trans_one True) [0..<k] s = Ret () t" "bio_ok {} {} t" "wrote ?ws {} s t"
    using Suc by auto
  have k: "k < LOGBLOCKS" "k < length (logged s)" using logged_le [OF wf] Suc.prems by auto
  note l = wrote_log [OF t(3)] logged_nth [OF wf k(2)]
  have "fst ` set ?ws \<subseteq> set (logged s)" using k by auto
  then have "log_start s + k + 1 \<notin> fst ` set ?ws" using out [of "log_start s + k + 1"] k by auto
  then have dk: "disk t (log_start s + k + 1) = disk s (log_start s + k + 1)"
    using t(3) apply_writes_other [of _ ?ws] by (simp add: wrote_def)
  have "log_start t + k + 1 \<noteq> lh_block t ! k" using out [of "logged s ! k"] k l by auto
  then obtain u where "install_trans_one True k t = Ret () u" "bio_ok {} {} u"
      "wrote [(lh_block t ! k, disk t (log_start t + k + 1))] {} t u"
    using install_trans_one_recovering [OF t(2) wrote_idle [OF t(3) id], of k] l wf by (auto simp: log_wf_def)
  then show ?case using t(1) wrote_trans [OF t(3)] l dk by (auto simp: kiter_append)
qed (use ok in simp)

lemma read_head_loop:
  "n \<le> length (lh_block s) \<Longrightarrow>
   kiter (\<lambda>i. set_lh_block i (f i)) [0..<n] s = Ret () (s\<lparr>lh_block := map f [0..<n] @ drop n (lh_block s)\<rparr>)"
proof (induction n)
  case (Suc n)
  have "(map f [0..<n] @ drop n (lh_block s))[n := f n] = map f [0..<Suc n] @ drop (Suc n) (lh_block s)"
    using Suc.prems by (simp add: list_update_append Cons_nth_drop_Suc [symmetric])
  then show ?case using Suc by (simp add: kiter_append set_lh_block_def)
qed simp

definition header_blocks :: "bytes \<Rightarrow> nat list" where
  "header_blocks h = map (\<lambda>i. unat (get32 (Suc i) h)) [0..<nat (sint (get32 0 h))]"

text \<open>A header recovery can use: its counter is in range and it lists no block of the log.\<close>

definition header_ok :: "nat \<Rightarrow> bytes \<Rightarrow> bool" where
  "header_ok start h \<longleftrightarrow> 0 \<le> sint (get32 0 h) \<and> sint (get32 0 h) \<le> int LOGBLOCKS
     \<and> (\<forall>b\<in>set (header_blocks h). b < start \<or> start + LOGBLOCKS < b)"

definition recover_writes :: "nat \<Rightarrow> (nat \<Rightarrow> bytes) \<Rightarrow> (nat \<times> bytes) list" where
  "recover_writes start d =
     (let bs = header_blocks (d start) in
      map (\<lambda>j. (bs ! j, d (start + j + 1))) [0..<length bs] @ [(start, put_header [] (d start))])"

lemma read_head_ok:
  assumes ok: "bio_ok {} {} s" and id: "idle p s" and dev: "log_dev s = ROOTDEV"
    and len: "length (lh_block s) = LOGBLOCKS" and h: "header_ok (log_start s) (disk s (log_start s))"
  shows "\<exists>t. read_head s = Ret () t \<and> bio_ok {} {} t \<and> log_wf t \<and> logged t = header_blocks (disk s (log_start s))
    \<and> log_start t = log_start s \<and> disk t = disk s \<and> dlog t = dlog s \<and> blk t = blk s \<and> calm s t"
proof -
  let ?h = "disk s (log_start s)" let ?n = "sint (get32 0 ?h)"
  have ls: "blk s (log_start s) = ?h" by (rule blk_clean [OF ok]) simp
  obtain i u where u: "bread ROOTDEV (log_start s) s = Ret i u" and p: "bread_post {} {} (log_start s) s i u"
    using bread_ok [OF ok id, of "log_start s"] by (auto simp: param_defs)
  have b: "bio_ok {} {i} u" "bdata (bufs u i) = ?h" "blockno (bufs u i) = log_start s"
      "blk u = blk s" "disk u = disk s" "dlog u = dlog s" "bio_frame s u" "calm s u"
    using p ls by (auto simp: bread_post_def)
  have n: "nat ?n \<le> length (lh_block u)" "0 \<le> ?n" "?n \<le> int LOGBLOCKS" "length (lh_block u) = LOGBLOCKS"
    using h len bio_frame_log(4) [OF b(7)] by (auto simp: header_ok_def)
  let ?v = "u\<lparr>lh_n := ?n, lh_block := header_blocks ?h @ drop (nat ?n) (lh_block u)\<rparr>"
  have v: "bio_ok {} {i} ?v" "idle p ?v" "bdata (bufs ?v i) = disk ?v (blockno (bufs ?v i))"
    using b calm_idle [OF b(8) id] by auto
  obtain t where t: "brelse i ?v = Ret () t" "bio_ok {} {} t" "same_blocks ?v t" "blk t = blk ?v"
      "disk t = disk ?v" "dlog t = dlog ?v"
    using brelse_ok [OF v(1,2), of i] v(3) by auto
  have fr: "bio_frame ?v t" "calm ?v t" using t(3) by (auto simp: same_blocks_def)
  have "read_head s = Ret () t"
    using u t(1) b(2) dev n(1) read_head_loop [of "nat ?n" "u\<lparr>lh_n := ?n\<rparr>" "\<lambda>i. unat (get32 (Suc i) ?h)"]
    by (simp add: read_head_def bytes_of_def header_blocks_def)
  moreover have "log_wf t" "logged t = header_blocks ?h" "log_start t = log_start s"
    using bio_frame_log [OF fr(1)] bio_frame_log [OF b(7)] n dev
    by (auto simp: log_wf_def logged_def header_blocks_def)
  moreover have "calm s t" using b(8) fr(2) by (auto intro: calm_trans)
  ultimately show ?thesis using t b by simp
qed

lemma put_header_nil: "length h = BSIZE \<Longrightarrow> length (put_header [] h) = BSIZE"
  by (rule length_put_header) simp

lemma recover_from_log_ok:
  assumes ok: "bio_ok {} {} s" and id: "idle p s" and dev: "log_dev s = ROOTDEV"
    and len: "length (lh_block s) = LOGBLOCKS" and h: "header_ok (log_start s) (disk s (log_start s))"
  defines "ws \<equiv> recover_writes (log_start s) (disk s)"
  shows "\<exists>t. recover_from_log s = Ret () t \<and> bio_ok {} {} t \<and> log_wf t \<and> lh_n t = 0 \<and> log_start t = log_start s \<and> calm s t
    \<and> disk t = apply_writes (disk s) ws \<and> dlog t = dlog s @ ws \<and> blk t = disk t"
proof -
  let ?h = "log_start s" let ?bs = "header_blocks (disk s ?h)"
  obtain t1 where t1: "read_head s = Ret () t1" "bio_ok {} {} t1" "log_wf t1" "logged t1 = ?bs"
      "log_start t1 = ?h" "disk t1 = disk s" "dlog t1 = dlog s" "blk t1 = blk s" "calm s t1"
    using read_head_ok [OF ok id dev len h] by blast
  note id1 = calm_idle [OF t1(9) id]
  let ?w = "map (\<lambda>j. (?bs ! j, disk s (?h + j + 1))) [0..<length ?bs]"
  have out: "b < ?h \<or> ?h + LOGBLOCKS < b" if "b \<in> set ?bs" for b using h that by (simp add: header_ok_def)
  have n: "nat (lh_n t1) = length ?bs" using length_logged [OF t1(3)] t1(4) by simp
  obtain t2 where t2: "install_trans True t1 = Ret () t2" "bio_ok {} {} t2" "wrote ?w {} t1 t2"
    using install_recovering_loop [OF t1(2) id1 t1(3) _ order_refl] out t1(4-6) n by (auto simp: install_trans_def)
  have "fst ` set ?w \<subseteq> set ?bs" by auto
  then have "?h \<notin> fst ` set ?w" using out [of ?h] by auto
  then have d: "disk t2 ?h = disk s ?h" using t2(3) apply_writes_other [of ?h ?w] t1(6) by (simp add: wrote_def)
  let ?t = "t2\<lparr>lh_n := 0\<rparr>"
  have l: "log_start ?t = ?h" "logged ?t = []" "log_wf ?t" "idle p ?t"
    using wrote_log [OF t2(3)] t1(3,5) wrote_idle [OF t2(3) id1] by (auto simp: logged_def log_wf_def)
  obtain t3 where t3: "write_head ?t = Ret () t3" "bio_ok {} {} t3" "wrote [(?h, put_header [] (disk s ?h))] {} ?t t3"
    using write_head_ok [OF _ l(4,3), of "{}"] t2(2) d l by (auto simp: param_defs)
  have "blk t3 = disk t3" by (rule ext, rule blk_clean [OF t3(2)]) simp
  moreover have "calm s t3" using t1(9) t2(3) t3(3) by (auto simp: wrote_def intro: calm_trans)
  moreover have "lh_n t3 = 0" "log_wf t3" "log_start t3 = ?h" using wrote_log [OF t3(3)] l(1,3) by auto
  ultimately show ?thesis
    using t1 t2 t3 unfolding ws_def recover_writes_def Let_def by (simp add: recover_from_log_def wrote_def)
qed

subsection \<open>Crashes\<close>

text \<open>
  A machine just started: nothing is cached, no lock is taken, and \<open>initlog\<close> can run.
\<close>

definition rebooted :: "'z log_state_scheme \<Rightarrow> bool" where
  "rebooted v \<longleftrightarrow> bio_ok {} {} v \<and> (\<exists>q. idle q v) \<and> length (lh_block v) = LOGBLOCKS"

text \<open>
  The disks a crash can leave: the machine stops after any number of the writes of the commit, is started
  again from that disk, and stops again after any number of the disk writes that \<open>initlog\<close> makes (whether or
  not it would have returned), any number of times.
\<close>

inductive crashed :: "nat \<Rightarrow> (nat \<Rightarrow> bytes) \<Rightarrow> (nat \<times> bytes) list \<Rightarrow> (nat \<Rightarrow> bytes) \<Rightarrow> bool"
  for start d ws where
  in_commit: "crashed start d ws (apply_writes d (take k ws))"
| in_recovery: "crashed start d ws (disk v) \<Longrightarrow> rebooted (v :: log_state) \<Longrightarrow>
    dlog (final (initlog ROOTDEV start v)) = dlog v @ rs \<Longrightarrow> crashed start d ws (apply_writes (disk v) (take k rs))"

definition outside :: "nat \<Rightarrow> nat \<Rightarrow> bool" where
  "outside start b \<longleftrightarrow> b < start \<or> start + LOGBLOCKS < b"

definition log_empty :: "nat \<Rightarrow> (nat \<Rightarrow> bytes) \<Rightarrow> bool" where
  "log_empty start d \<longleftrightarrow> get32 0 (d start) = 0 \<and> length (d start) = BSIZE"

definition log_full :: "nat \<Rightarrow> nat list \<Rightarrow> bytes list \<Rightarrow> (nat \<Rightarrow> bytes) \<Rightarrow> bool" where
  "log_full start bs vs d \<longleftrightarrow> get32 0 (d start) = of_nat (length bs) \<and> header_blocks (d start) = bs
     \<and> length (d start) = BSIZE \<and> (\<forall>j<length bs. d (start + j + 1) = vs ! j)"

lemma header_blocks_put:
  assumes "length bs \<le> LOGBLOCKS" "length h = BSIZE" "\<And>b. b \<in> set bs \<Longrightarrow> b < 2 ^ 32"
  shows "header_blocks (put_header bs h) = bs"
proof (rule nth_equalityI)
  have s: "sint (of_nat (length bs) :: 32 word) = int (length bs)"
    using assms(1) by (simp add: signed_of_nat signed_take_bit_int_eq_self param_defs)
  then show l: "length (header_blocks (put_header bs h)) = length bs"
    using header_count [OF assms(1,2)] by (simp add: header_blocks_def)
  fix i assume "i < length (header_blocks (put_header bs h))"
  then have i: "i < length bs" using l by simp
  then show "header_blocks (put_header bs h) ! i = bs ! i"
    using header_block [OF assms(1,2) i] header_count [OF assms(1,2)] s assms(3) [of "bs ! i"]
    by (simp add: header_blocks_def unat_of_nat take_bit_nat_eq_self)
qed

lemma log_empty_put: "length h = BSIZE \<Longrightarrow> d start = put_header [] h \<Longrightarrow> log_empty start d"
  using header_count [of "[]" h] by (simp add: log_empty_def put_header_nil)

lemma log_empty_blocks: "log_empty start d \<Longrightarrow> header_blocks (d start) = []"
  by (simp add: log_empty_def header_blocks_def)

text \<open>The three kinds of disk between a commit and the end of its recovery.\<close>

definition crash_inv :: "nat \<Rightarrow> (nat \<Rightarrow> bytes) \<Rightarrow> nat list \<Rightarrow> bytes list \<Rightarrow> (nat \<Rightarrow> bytes) \<Rightarrow> bool" where
  "crash_inv start d bs vs d' \<longleftrightarrow>
     log_empty start d' \<and> (\<forall>b. outside start b \<longrightarrow> d' b = d b)
   \<or> log_full start bs vs d' \<and> (\<forall>b. outside start b \<and> b \<notin> set bs \<longrightarrow> d' b = d b)
   \<or> log_empty start d' \<and> (\<forall>b. outside start b \<and> b \<notin> set bs \<longrightarrow> d' b = d b)
       \<and> (\<forall>j<length bs. d' (bs ! j) = vs ! j)"

lemma take_map_upt: "take k (map f [0..<n]) = map f [0..<min k n]"
  by (cases "k \<le> n") (simp_all add: take_map min_def)

lemma home_writes_other: "b \<notin> set bs \<Longrightarrow> k \<le> length bs \<Longrightarrow> apply_writes d (map (\<lambda>j. (bs ! j, v j)) [0..<k]) b = d b"
  by (rule apply_writes_other) auto

lemma home_writes_at:
  "distinct bs \<Longrightarrow> j < length bs \<Longrightarrow> apply_writes d (map (\<lambda>j. (bs ! j, v j)) [0..<length bs]) (bs ! j) = v j"
  using apply_writes_map [of "(!) bs" "length bs" j d v] by (simp add: inj_on_nth)

text \<open>Installing part of a full log, or all of it and then clearing the header, keeps the invariant.\<close>

lemma crash_install:
  assumes full: "log_full start bs vs d'" "\<forall>b. outside start b \<and> b \<notin> set bs \<longrightarrow> d' b = d b"
    and bs: "distinct bs" "\<And>b. b \<in> set bs \<Longrightarrow> outside start b" "length bs \<le> LOGBLOCKS"
  shows "crash_inv start d bs vs (apply_writes d' (take k
     (map (\<lambda>j. (bs ! j, vs ! j)) [0..<length bs] @ [(start, put_header [] (d' start))])))"
proof (cases "k \<le> length bs")
  case True
  let ?d = "apply_writes d' (map (\<lambda>j. (bs ! j, vs ! j)) [0..<k])"
  have k: "?d b = d' b" if "b \<notin> set bs" for b using that True by (rule home_writes_other)
  have o: "\<not> outside start (start + j)" if "j \<le> LOGBLOCKS" for j using that by (simp add: outside_def)
  have "?d start = d' start" using k [of start] bs(2) [of start] o [of 0] by auto
  moreover have "?d (start + j + 1) = d' (start + j + 1)" if "j < length bs" for j
    using k [of "start + j + 1"] bs(2) [of "start + j + 1"] o [of "j + 1"] bs(3) that by auto
  ultimately have "log_full start bs vs ?d" using full(1) by (simp add: log_full_def)
  moreover have "\<forall>b. outside start b \<and> b \<notin> set bs \<longrightarrow> ?d b = d b" using full(2) k by simp
  ultimately have "crash_inv start d bs vs ?d" by (simp add: crash_inv_def)
  then show ?thesis using True by (simp add: take_map_upt)
next
  case False
  let ?d = "(apply_writes d' (map (\<lambda>j. (bs ! j, vs ! j)) [0..<length bs]))(start := put_header [] (d' start))"
  have s: "start \<notin> set bs" using bs(2) [of start] by (auto simp: outside_def)
  have "log_empty start ?d" using full(1) by (intro log_empty_put [of "d' start"]) (simp_all add: log_full_def)
  moreover have "\<forall>b. outside start b \<and> b \<notin> set bs \<longrightarrow> ?d b = d b"
    using full(2) home_writes_other [of _ bs "length bs" d' "\<lambda>j. vs ! j"] by (auto simp: outside_def)
  moreover have "\<forall>j<length bs. ?d (bs ! j) = vs ! j"
    using home_writes_at [OF bs(1), of _ d' "\<lambda>j. vs ! j"] s by auto
  ultimately have "crash_inv start d bs vs ?d" unfolding crash_inv_def by blast
  moreover have "take k (map (\<lambda>j. (bs ! j, vs ! j)) [0..<length bs] @ [(start, put_header [] (d' start))])
      = map (\<lambda>j. (bs ! j, vs ! j)) [0..<length bs] @ [(start, put_header [] (d' start))]"
    using False by simp
  ultimately show ?thesis by simp
qed

lemma recover_writes_full:
  "log_full start bs vs d \<Longrightarrow> recover_writes start d
     = map (\<lambda>j. (bs ! j, vs ! j)) [0..<length bs] @ [(start, put_header [] (d start))]"
  by (simp add: recover_writes_def log_full_def)

lemma crash_recovery:
  assumes inv: "crash_inv start d bs vs d'"
    and bs: "distinct bs" "\<And>b. b \<in> set bs \<Longrightarrow> outside start b" "length bs \<le> LOGBLOCKS"
  shows "crash_inv start d bs vs (apply_writes d' (take k (recover_writes start d')))"
proof (cases "log_empty start d'")
  case True
  have s: "start \<notin> set bs" using bs(2) [of start] by (auto simp: outside_def)
  have r: "recover_writes start d' = [(start, put_header [] (d' start))]"
    using log_empty_blocks [OF True] by (simp add: recover_writes_def)
  have "log_empty start (d'(start := put_header [] (d' start)))"
    using True by (intro log_empty_put [of "d' start"]) (simp_all add: log_empty_def)
  moreover have "\<forall>b. outside start b \<longrightarrow> b \<noteq> start" by (simp add: outside_def)
  moreover have "\<not> log_full start bs vs d' \<or> bs = []"
    using log_empty_blocks [OF True] by (auto simp: log_full_def)
  ultimately have "crash_inv start d bs vs (d'(start := put_header [] (d' start)))"
    using inv s True unfolding crash_inv_def by (auto simp: nth_mem)
  then show ?thesis using r inv by (cases k) auto
next
  case False
  then have full: "log_full start bs vs d'" "\<forall>b. outside start b \<and> b \<notin> set bs \<longrightarrow> d' b = d b"
    using inv by (auto simp: crash_inv_def)
  show ?thesis using crash_install [OF full bs, of k] recover_writes_full [OF full(1)] by simp
qed

lemma crash_commit:
  assumes "log_empty start d" "length vs = length bs"
    and bs: "distinct bs" "\<And>b. b \<in> set bs \<Longrightarrow> outside start b" "length bs \<le> LOGBLOCKS" "\<And>b. b \<in> set bs \<Longrightarrow> b < 2 ^ 32"
  shows "crash_inv start d bs vs (apply_writes d (take k (commit_writes start bs vs (d start))))"
proof (cases "k \<le> length bs")
  case True
  let ?d = "apply_writes d (map (\<lambda>j. (start + j + 1, vs ! j)) [0..<k])"
  have "?d b = d b" if "b = start \<or> outside start b" for b
    using that True bs(3) by (intro apply_writes_other) (auto simp: outside_def)
  then have "crash_inv start d bs vs ?d" using assms(1) by (simp add: crash_inv_def log_empty_def)
  then show ?thesis using True by (simp add: commit_writes_def take_map_upt)
next
  case False
  then obtain m where k: "k = Suc (length bs + m)" by (metis less_imp_Suc_add not_le)
  let ?e = "apply_writes d (map (\<lambda>j. (start + j + 1, vs ! j)) [0..<length bs])"
  let ?d = "?e(start := put_header bs (d start))"
  have l: "length (d start) = BSIZE" using assms(1) by (simp add: log_empty_def)
  have "?e (start + j + 1) = vs ! j" if "j < length bs" for j
    using apply_writes_map [of "\<lambda>j. start + j + 1" "length bs" j d] that by (simp add: inj_on_def)
  then have full: "log_full start bs vs ?d"
    using header_count [OF bs(3) l] header_blocks_put [OF bs(3) l bs(4)] length_put_header [OF bs(3) l]
    by (simp add: log_full_def)
  have "?d b = d b" if "outside start b" for b
    using that apply_writes_other [of b "map (\<lambda>j. (start + j + 1, vs ! j)) [0..<length bs]" d] bs(3)
    by (fastforce simp: outside_def)
  then have "\<forall>b. outside start b \<and> b \<notin> set bs \<longrightarrow> ?d b = d b" by blast
  note install = crash_install [of start bs vs ?d d, OF full this bs(1-3), of m]
  have "take k (commit_writes start bs vs (d start)) =
      map (\<lambda>j. (start + j + 1, vs ! j)) [0..<length bs] @ [(start, put_header bs (d start))]
      @ take m
        (map (\<lambda>j. (bs ! j, vs ! j)) [0..<length bs] @ [(start, put_header [] (?d start))])"
    using k by (simp add: commit_writes_def)
  then show ?thesis using install by simp
qed

text \<open>Recovery, run to its end, reads only disks it can handle and makes the transaction whole.\<close>

lemma crash_header:
  assumes "crash_inv start d bs vs d'" "\<And>b. b \<in> set bs \<Longrightarrow> outside start b" "length bs \<le> LOGBLOCKS"
  shows "header_ok start (d' start)"
proof (cases "log_empty start d'")
  case True
  then show ?thesis using log_empty_blocks [OF True] by (simp add: header_ok_def log_empty_def)
next
  case False
  then have f: "log_full start bs vs d'" using assms(1) by (auto simp: crash_inv_def)
  have "sint (of_nat (length bs) :: 32 word) = int (length bs)"
    using assms(3) by (simp add: signed_of_nat signed_take_bit_int_eq_self param_defs)
  then show ?thesis using f assms(2,3) by (simp add: header_ok_def log_full_def outside_def)
qed

lemma crash_recovered:
  assumes inv: "crash_inv start d bs vs d'"
    and bs: "distinct bs" "\<And>b. b \<in> set bs \<Longrightarrow> outside start b" "length bs \<le> LOGBLOCKS"
  defines "r \<equiv> apply_writes d' (recover_writes start d')"
  shows "(\<forall>b. outside start b \<longrightarrow> r b = d b)
    \<or> (\<forall>b. outside start b \<and> b \<notin> set bs \<longrightarrow> r b = d b) \<and> (\<forall>j<length bs. r (bs ! j) = vs ! j)"
proof (cases "log_empty start d'")
  case True
  have r: "r = d'(start := put_header [] (d' start))"
    using log_empty_blocks [OF True] by (simp add: r_def recover_writes_def)
  have "r b = d' b" if "outside start b" for b using that r by (auto simp: outside_def)
  moreover have "\<not> log_full start bs vs d' \<or> bs = []"
    using log_empty_blocks [OF True] by (auto simp: log_full_def)
  ultimately show ?thesis using inv bs(2) True by (auto simp: crash_inv_def)
next
  case False
  then have full: "log_full start bs vs d'" "\<forall>b. outside start b \<and> b \<notin> set bs \<longrightarrow> d' b = d b"
    using inv by (auto simp: crash_inv_def)
  then have "r = (apply_writes d' (map (\<lambda>j. (bs ! j, vs ! j)) [0..<length bs]))(start := put_header [] (d' start))"
    using recover_writes_full [of start bs vs d'] by (simp add: r_def)
  then have "r b = apply_writes d' (map (\<lambda>j. (bs ! j, vs ! j)) [0..<length bs]) b" if "outside start b" for b
    using that by (auto simp: outside_def)
  then show ?thesis
    using home_writes_other [of _ bs "length bs" d' "\<lambda>j. vs ! j"] home_writes_at [OF bs(1), of _ d' "\<lambda>j. vs ! j"]
      full(2) bs(2) by auto
qed

lemma initlog_ok:
  assumes ok: "bio_ok {} {} s" and id: "idle p s" and len: "length (lh_block s) = LOGBLOCKS"
    and h: "header_ok start (disk s start)"
  shows "\<exists>t. initlog ROOTDEV start s = Ret () t \<and> bio_ok {} {} t \<and> log_wf t \<and> lh_n t = 0 \<and> log_start t = start
    \<and> blk t = apply_writes (disk s) (recover_writes start (disk s))
    \<and> dlog t = dlog s @ recover_writes start (disk s)"
proof -
  have lk: "lkok s" "Lk_log \<notin> held s" using id by (auto simp: idle_def)
  obtain l where l: "initlock Lk_log ''log'' s = Ret () (s\<lparr>locks := (locks s)(Lk_log := l)\<rparr>)"
      "lkok (s\<lparr>locks := (locks s)(Lk_log := l)\<rparr>)" "held (s\<lparr>locks := (locks s)(Lk_log := l)\<rparr>) = held s"
    using initlock_eq [OF lk, of "''log''"] by blast
  let ?u = "s\<lparr>locks := (locks s)(Lk_log := l), log_start := start, log_dev := ROOTDEV\<rparr>"
  have "bio_ok {} {} ?u = bio_ok {} {} s" by (rule bio_ok_cong) (simp_all add: mypid_def)
  then have ok': "bio_ok {} {} ?u" using ok by simp
  have id': "idle p ?u" using id l(2,3) by (simp add: idle_def)
  have pre: "log_dev ?u = ROOTDEV" "length (lh_block ?u) = LOGBLOCKS" "header_ok (log_start ?u) (disk ?u (log_start ?u))"
    using len h by simp_all
  obtain t where t: "recover_from_log ?u = Ret () t" "bio_ok {} {} t" "log_wf t" "lh_n t = 0" "log_start t = log_start ?u"
      "disk t = apply_writes (disk ?u) (recover_writes (log_start ?u) (disk ?u))"
      "dlog t = dlog ?u @ recover_writes (log_start ?u) (disk ?u)" "blk t = disk t"
    using recover_from_log_ok [OF ok' id' pre] by blast
  have "initlog ROOTDEV start s = Ret () t"
    using l(1) t(1) by (simp add: initlog_def sizeof_logheader_def BSIZE_def param_defs)
  then show ?thesis using t(2-8) by simp
qed

lemma crashed_recovery:
  assumes inv: "crash_inv start d bs vs (disk v)" and v: "rebooted v"
    and rs: "dlog (final (initlog ROOTDEV start v)) = dlog v @ rs"
    and bs: "distinct bs" "\<And>b. b \<in> set bs \<Longrightarrow> outside start b" "length bs \<le> LOGBLOCKS"
  shows "crash_inv start d bs vs (apply_writes (disk v) (take k rs))"
proof -
  obtain q where q: "bio_ok {} {} v" "idle q v" "length (lh_block v) = LOGBLOCKS"
    using v by (auto simp: rebooted_def)
  have "rs = recover_writes start (disk v)"
    using initlog_ok [OF q crash_header [OF inv bs(2,3)]] rs by auto
  then show ?thesis using crash_recovery [OF inv bs] by simp
qed

lemma crashed_inv:
  assumes "crashed start d (commit_writes start bs vs (d start)) d'"
    and "log_empty start d" "length vs = length bs"
    and bs: "distinct bs" "\<And>b. b \<in> set bs \<Longrightarrow> outside start b" "length bs \<le> LOGBLOCKS" "\<And>b. b \<in> set bs \<Longrightarrow> b < 2 ^ 32"
  shows "crash_inv start d bs vs d'"
  using assms(1)
proof (induction rule: crashed.induct)
  case (in_commit k)
  show ?case by (rule crash_commit [OF assms(2,3) bs])
next
  case (in_recovery v rs k)
  show ?case by (rule crashed_recovery [OF in_recovery.IH in_recovery.hyps(2,3) bs(1-3)])
qed

lemma crashed_clean:
  assumes "crashed start d [] d'" "log_empty start d"
  shows "crash_inv start d [] [] d'"
  using assms(1)
proof (induction rule: crashed.induct)
  case (in_commit k)
  show ?case using assms(2) by (simp add: crash_inv_def)
next
  case (in_recovery v rs k)
  show ?case by (rule crashed_recovery [OF in_recovery.IH in_recovery.hyps(2,3)]) simp_all
qed

text \<open>What a transaction ready to commit gives the lemmas on crashes.\<close>

lemma txn_facts:
  assumes "txn_ok P s"
  shows "distinct (logged s)" "\<And>b. b \<in> set (logged s) \<Longrightarrow> outside (log_start s) b" "length (logged s) \<le> LOGBLOCKS"
  using assms logged_le [of s] by (auto simp: txn_ok_def outside_def)

lemma txn_unlogged:
  assumes "bio_ok P {} s" "txn_ok P s" "b \<notin> set (logged s)"
  shows "blk s b = disk s b"
  using assms by (intro blk_clean [OF assms(1)]) (auto simp: txn_ok_def)

lemma commit_home:
  assumes "bio_ok P {} s" "txn_ok P s" "outside (log_start s) b"
  shows "apply_writes (disk s) (commit_writes (log_start s) (logged s) (map (blk s) (logged s)) (disk s (log_start s))) b
    = blk s b"
proof -
  let ?h = "log_start s" and ?bs = "logged s"
  let ?w = "map (\<lambda>j. (?h + j + 1, map (blk s) ?bs ! j)) [0..<length ?bs] @ [(?h, put_header ?bs (disk s ?h))]"
  let ?v = "map (\<lambda>j. (?bs ! j, map (blk s) ?bs ! j)) [0..<length ?bs]"
  have b: "b \<noteq> ?h" "b \<notin> fst ` set ?w"
    using assms(3) txn_facts(3) [OF assms(2)] by (auto simp: outside_def)
  have "apply_writes (apply_writes (disk s) ?w) ?v b = blk s b"
  proof (cases "b \<in> set ?bs")
    case True
    then obtain j where "j < length ?bs" "b = ?bs ! j" by (auto simp: in_set_conv_nth)
    then show ?thesis using home_writes_at [OF txn_facts(1) [OF assms(2)], of j _ "\<lambda>j. map (blk s) ?bs ! j"] by simp
  next
    case False
    then show ?thesis
      using home_writes_other [OF False order_refl, of _ "\<lambda>j. map (blk s) ?bs ! j"]
        apply_writes_other [OF b(2)] txn_unlogged [OF assms(1,2) False] by simp
  qed
  then show ?thesis using b(1) by (simp add: commit_writes_def)
qed

text \<open>Booting from a disk a crash left.\<close>

lemma crash_boot:
  assumes inv: "crash_inv start d bs vs (disk v)"
    and bs: "distinct bs" "\<And>b. b \<in> set bs \<Longrightarrow> outside start b" "length bs \<le> LOGBLOCKS"
    and v: "bio_ok {} {} v" "idle q v" "length (lh_block v) = LOGBLOCKS"
  shows "\<exists>r. initlog ROOTDEV start v = Ret () r \<and> bio_ok {} {} r \<and> lh_n r = 0
    \<and> ((\<forall>b. outside start b \<longrightarrow> blk r b = d b)
      \<or> (\<forall>b. outside start b \<and> b \<notin> set bs \<longrightarrow> blk r b = d b) \<and> (\<forall>j<length bs. blk r (bs ! j) = vs ! j))"
proof -
  obtain r where r: "initlog ROOTDEV start v = Ret () r" "bio_ok {} {} r" "lh_n r = 0"
      "blk r = apply_writes (disk v) (recover_writes start (disk v))"
    using initlog_ok [OF v crash_header [OF inv bs(2,3)]] by blast
  show ?thesis using crash_recovered [OF inv bs, folded r(4)] r(1-3) by (intro exI [of _ r]) simp
qed

lemma commit_done:
  assumes "bio_ok P {} s" "idle p s" "txn_ok P s" "card P < NBUF" "lh_n s > 0"
  shows "\<exists>t. commit s = Ret () t \<and> bio_ok {} {} t \<and> lh_n t = 0 \<and> log_empty (log_start s) (disk t)
    \<and> (\<forall>b. outside (log_start s) b \<longrightarrow> disk t b = blk s b \<and> blk t b = blk s b)"
proof -
  let ?h = "log_start s" and ?bs = "logged s"
  let ?ws = "commit_writes ?h ?bs (map (blk s) ?bs) (disk s ?h)"
  obtain t where t: "commit s = Ret () t" "bio_ok {} {} t" "lh_n t = 0" "disk t = apply_writes (disk s) ?ws"
    using commit_ok [OF assms] by blast
  have l: "length (put_header ?bs (disk s ?h)) = BSIZE"
    using length_put_header [OF txn_facts(3) [OF assms(3)]] bio_okD(11) [OF assms(1)] by simp
  have "disk t ?h = put_header [] (put_header ?bs (disk s ?h))" unfolding t(4) commit_writes_def by simp
  then have e: "log_empty ?h (disk t)" by (rule log_empty_put [OF l])
  have "disk t b = blk s b" if "outside ?h b" for b
    unfolding t(4) using commit_home [OF assms(1,3) that] .
  moreover have "blk t b = disk t b" for b by (rule blk_clean [OF t(2)]) simp
  ultimately show ?thesis using t(1-3) e by auto
qed

lemma commit_full:
  assumes "bio_ok P {} s" "idle p s" "txn_ok P s" "card P = NBUF"
  shows "\<exists>t. commit s = Halt (Panic ''bget: no buffers'') t \<and> dlog t = dlog s"
proof -
  have P: "P = {..<NBUF}" using bio_okD(1) [OF assms(1)] assms(4) by (simp add: card_subset_eq)
  obtain xs where xs: "lru s xs" using assms(1) by (auto simp: bio_ok_def)
  then have set: "set xs = {..<NBUF}" by (simp add: lru_def)
  have wf: "log_wf s" using assms(3) by (simp add: txn_ok_def)
  have "0 \<in> P" using P by (simp add: param_defs)
  then have ne: "logged s \<noteq> []" using assms(3) by (auto simp: txn_ok_def)
  have "0 < length (logged s)" using ne by simp
  then have n: "0 < lh_n s" "[0..<nat (lh_n s)] = 0 # [1..<nat (lh_n s)]"
    using length_logged [OF wf] by (auto simp: upt_rec [of 0])
  have "blockno (bufs s i) \<noteq> log_start s + 0 + 1" if "i \<in> P" for i
    using txn_outside [OF assms(3) _ that, of 1] by (simp add: param_defs)
  then have "find (\<lambda>i. bdev (bufs s i) = ROOTDEV \<and> blockno (bufs s i) = log_start s + 0 + 1) xs = None"
    using P set by (auto simp: find_None_iff)
  moreover have "find (\<lambda>i. refcnt (bufs s i) = 0) (rev xs) = None"
    using bio_okD(3) [OF assms(1)] P set by (auto simp: find_None_iff)
  ultimately have "bread ROOTDEV (log_start s + 0 + 1) s = Halt (Panic ''bget: no buffers'') (entered Lk_bcache s)"
    using bget_full [OF assms(2) xs] by (simp add: bread_def)
  then show ?thesis
    using n wf by (simp add: commit_def commit_code_def write_log_def write_log_one_def log_wf_def)
qed

subsection \<open>Properties\<close>

text \<open>
  C11. A commit makes the transaction durable and empties the log: \<open>commit\<close> returns with every buffer
  unpinned and clean, an empty header in memory and on the disk, the home location of every block
  outside the log holding what the kernel saw before the commit, and what the kernel sees unchanged.
\<close>

theorem commit_installs:
  assumes "bio_ok P {} s" "idle p s" "txn_ok P s" "card P < NBUF" "lh_n s > 0"
  shows "\<exists>t. commit s = Ret () t \<and> bio_ok {} {} t \<and> lh_n t = 0 \<and> log_empty (log_start s) (disk t)
    \<and> (\<forall>b. outside (log_start s) b \<longrightarrow> disk t b = blk s b \<and> blk t b = blk s b)"
  by (rule commit_done [OF assms])

text \<open>A transaction of one block: buffer 0 is pinned, holds block 50, and differs from the disk.\<close>

definition log_ex :: log_state where
  "log_ex = bio_state.extend
     (bio_ex\<lparr>bufs := (bufs bio_ex)(0 := \<lparr>bvalid = True, bdev = ROOTDEV, blockno = 50, refcnt = 1,
        bdata = replicate BSIZE 7\<rparr>)\<rparr>)
     \<lparr>log_start = 2, outstanding = 0, committing = True, log_dev = ROOTDEV, lh_n = 1,
      lh_block = 50 # replicate 29 0\<rparr>"

text \<open>The machine after a reboot, before \<^verbatim>\<open>initlog\<close>.\<close>

definition boot_ex :: "(nat \<Rightarrow> bytes) \<Rightarrow> log_state" where
  "boot_ex d = bio_state.extend (bio_ex\<lparr>disk := d\<rparr>)
     \<lparr>log_start = 0, outstanding = 0, committing = False, log_dev = 0, lh_n = 0, lh_block = replicate 30 0\<rparr>"

lemma log_ex_simps [simp]:
  "log_start log_ex = 2" "lh_n log_ex = 1" "disk log_ex b = replicate BSIZE 0" "logged log_ex = [50]"
  "disk (boot_ex d) = d" "lh_block (boot_ex d) = replicate 30 0"
  by (simp_all add: log_ex_def boot_ex_def bio_state.extend_def logged_def)

lemma log_ex_idle: "idle 3 log_ex" "idle 3 (boot_ex d)"
proof -
  have "holds {} bio_ex" "myp bio_ex = Some 3" using bio_ex_idle by (simp_all add: idle_def holds_iff)
  then have "holds {} log_ex" "holds {} (boot_ex d)" "myp log_ex = Some 3" "myp (boot_ex d) = Some 3"
    by (simp_all add: log_ex_def boot_ex_def bio_state.extend_def holds_def lock_free_def)
  then show "idle 3 log_ex" "idle 3 (boot_ex d)" by (simp_all add: idle_def holds_iff)
qed

lemma log_ex_ok: "bio_ok {0} {} log_ex" "(\<And>b. length (d b) = BSIZE) \<Longrightarrow> bio_ok {} {} (boot_ex d)"
proof -
  have "lru log_ex [0..<30]" "lru (boot_ex d) [0..<30]"
    using bio_ex_lru by (simp_all add: lru_def log_ex_def boot_ex_def bio_state.extend_def)
  moreover have "\<not> slocked (slocks log_ex sl)" "\<not> slocked (slocks (boot_ex d) sl)" for sl
    using bio_ex_unlocked [of sl] by (simp_all add: log_ex_def boot_ex_def bio_state.extend_def)
  moreover have "bufs log_ex = (bufs bio_ex)(0 := \<lparr>bvalid = True, bdev = ROOTDEV, blockno = 50, refcnt = 1,
        bdata = replicate BSIZE 7\<rparr>)" "bufs (boot_ex d) = bufs bio_ex"
    by (simp_all add: log_ex_def boot_ex_def bio_state.extend_def)
  ultimately show "bio_ok {0} {} log_ex" "(\<And>b. length (d b) = BSIZE) \<Longrightarrow> bio_ok {} {} (boot_ex d)"
    by (auto simp: bio_ok_def param_defs)
qed

lemma log_ex_txn: "txn_ok {0} log_ex" "blk log_ex 50 = replicate BSIZE 7"
proof -
  have b: "bufs log_ex 0 = \<lparr>bvalid = True, bdev = ROOTDEV, blockno = 50, refcnt = 1, bdata = replicate BSIZE 7\<rparr>"
    by (simp add: log_ex_def bio_state.extend_def)
  show "txn_ok {0} log_ex"
    using b by (simp add: txn_ok_def log_wf_def param_defs) (simp add: log_ex_def bio_state.extend_def)
  show "blk log_ex 50 = replicate BSIZE 7"
    using blk_cached [OF log_ex_ok(1), of 0 50] b by (simp add: param_defs)
qed

lemma log_ex_empty: "log_empty 2 (disk log_ex)"
  by (simp add: log_empty_def get32_def BSIZE_def numeral_eq_Suc)

theorem commit_installs_witness:
  "\<exists>t. commit log_ex = Ret () t \<and> bio_ok {} {} t \<and> disk t 50 = replicate BSIZE 7"
proof -
  have "outside 2 50" by (simp add: outside_def param_defs)
  then show ?thesis
    using commit_installs [OF log_ex_ok(1) log_ex_idle(1) log_ex_txn(1)] log_ex_txn(2) by (auto simp: param_defs)
qed

text \<open>
  C1. A transaction is atomic: whichever of its disk writes a crash cuts \<open>commit\<close> off after, and
  however often the recovery is itself cut off by further crashes, \<open>initlog\<close>, run on a machine booted from
  the disk that is left, returns, and then either every block outside the log has the contents the disk had before
  the commit, or every such block has the contents the committing kernel saw.
\<close>

theorem commit_crash_atomic:
  assumes "bio_ok P {} s" "idle p s" "txn_ok P s" "card P < NBUF" "lh_n s > 0"
    and "log_empty (log_start s) (disk s)" "\<And>b. b \<in> set (logged s) \<Longrightarrow> b < 2 ^ 32"
  shows "\<exists>t ws. commit s = Ret () t \<and> dlog t = dlog s @ ws
    \<and> (\<forall>v q. crashed (log_start s) (disk s) ws (disk v) \<and> bio_ok {} {} v \<and> idle q v \<and> length (lh_block v) = LOGBLOCKS
        \<longrightarrow> (\<exists>r. initlog ROOTDEV (log_start s) v = Ret () r
              \<and> ((\<forall>b. outside (log_start s) b \<longrightarrow> blk r b = disk s b)
                \<or> (\<forall>b. outside (log_start s) b \<longrightarrow> blk r b = blk s b))))"
proof -
  let ?h = "log_start s" and ?bs = "logged s" let ?vs = "map (blk s) ?bs"
  note f = txn_facts [OF assms(3)]
  have boot: "\<exists>r. initlog ROOTDEV ?h v = Ret () r
      \<and> ((\<forall>b. outside ?h b \<longrightarrow> blk r b = disk s b) \<or> (\<forall>b. outside ?h b \<longrightarrow> blk r b = blk s b))"
    if c: "crashed ?h (disk s) (commit_writes ?h ?bs ?vs (disk s ?h)) (disk v)"
      and v: "bio_ok {} {} v" "idle q v" "length (lh_block v) = LOGBLOCKS" for v q
  proof -
    have inv: "crash_inv ?h (disk s) ?bs ?vs (disk v)"
      using crashed_inv [OF c assms(6) _ f assms(7)] by simp
    have new: "(\<forall>b. outside ?h b \<longrightarrow> g b = blk s b)"
      if "\<forall>b. outside ?h b \<and> b \<notin> set ?bs \<longrightarrow> g b = disk s b" "\<forall>j<length ?bs. g (?bs ! j) = ?vs ! j" for g
      using that txn_unlogged [OF assms(1,3)] by (metis in_set_conv_nth nth_map)
    show ?thesis using crash_boot [OF inv f v] new by blast
  qed
  show ?thesis using commit_ok [OF assms(1-5)] boot by blast
qed

theorem commit_crash_atomic_witness:
  "\<exists>t ws. commit log_ex = Ret () t \<and> dlog t = dlog log_ex @ ws
    \<and> (\<exists>r. initlog ROOTDEV 2 (boot_ex (disk log_ex)) = Ret () r
      \<and> (blk r 50 = replicate BSIZE 0 \<or> blk r 50 = replicate BSIZE 7))"
proof -
  have o: "outside 2 50" by (simp add: outside_def param_defs)
  have v: "bio_ok {} {} (boot_ex (disk log_ex))" by (rule log_ex_ok(2)) simp
  have c: "crashed 2 (disk log_ex) ws (disk (boot_ex (disk log_ex)))" for ws
    using in_commit [of 2 "disk log_ex" ws 0] by simp
  have "\<exists>t ws. commit log_ex = Ret () t \<and> dlog t = dlog log_ex @ ws
    \<and> (\<forall>v q. crashed 2 (disk log_ex) ws (disk v) \<and> bio_ok {} {} v \<and> idle q v \<and> length (lh_block v) = LOGBLOCKS
        \<longrightarrow> (\<exists>r. initlog ROOTDEV 2 v = Ret () r
              \<and> ((\<forall>b. outside 2 b \<longrightarrow> blk r b = disk log_ex b) \<or> (\<forall>b. outside 2 b \<longrightarrow> blk r b = blk log_ex b))))"
    using commit_crash_atomic [OF log_ex_ok(1) log_ex_idle(1) log_ex_txn(1)] log_ex_empty by (simp add: param_defs)
  moreover have "length (lh_block (boot_ex (disk log_ex))) = LOGBLOCKS" by (simp add: param_defs)
  ultimately show ?thesis using c v log_ex_idle(2) o log_ex_txn(2) log_ex_simps(3) by metis
qed

text \<open>
  C3. Durability: once \<open>commit\<close> has returned, no number of crashes during later recoveries loses
  the transaction: a machine booted from any disk they leave sees, outside the log, what the committing kernel saw.
\<close>

theorem commit_durable:
  assumes "bio_ok P {} s" "idle p s" "txn_ok P s" "card P < NBUF" "lh_n s > 0"
  shows "\<exists>t. commit s = Ret () t
    \<and> (\<forall>v q. crashed (log_start s) (disk t) [] (disk v) \<and> bio_ok {} {} v \<and> idle q v \<and> length (lh_block v) = LOGBLOCKS
        \<longrightarrow> (\<exists>r. initlog ROOTDEV (log_start s) v = Ret () r \<and> (\<forall>b. outside (log_start s) b \<longrightarrow> blk r b = blk s b)))"
proof -
  let ?h = "log_start s"
  obtain t where t: "commit s = Ret () t" "log_empty ?h (disk t)" "\<And>b. outside ?h b \<Longrightarrow> disk t b = blk s b"
    using commit_done [OF assms] by blast
  have "\<exists>r. initlog ROOTDEV ?h v = Ret () r \<and> (\<forall>b. outside ?h b \<longrightarrow> blk r b = blk s b)"
    if c: "crashed ?h (disk t) [] (disk v)" and v: "bio_ok {} {} v" "idle q v" "length (lh_block v) = LOGBLOCKS" for v q
    using crash_boot [OF crashed_clean [OF c t(2)] _ _ _ v] t(3) by auto
  then show ?thesis using t(1) by blast
qed

theorem commit_durable_witness:
  "\<exists>t r. commit log_ex = Ret () t \<and> initlog ROOTDEV 2 (boot_ex (disk t)) = Ret () r \<and> blk r 50 = replicate BSIZE 7"
proof -
  have o: "outside 2 50" by (simp add: outside_def param_defs)
  obtain t where t: "commit log_ex = Ret () t"
      "\<And>(v :: log_state) q. crashed 2 (disk t) [] (disk v) \<and> bio_ok {} {} v \<and> idle q v \<and> length (lh_block v) = LOGBLOCKS \<Longrightarrow>
        \<exists>r. initlog ROOTDEV 2 v = Ret () r \<and> (\<forall>b. outside 2 b \<longrightarrow> blk r b = blk log_ex b)"
    using commit_durable [OF log_ex_ok(1) log_ex_idle(1) log_ex_txn(1)] by (auto simp: param_defs)
  have "bio_ok {} {} t"
    using t(1) commit_ok [OF log_ex_ok(1) log_ex_idle(1) log_ex_txn(1)] by (auto simp: param_defs)
  then have "bio_ok {} {} (boot_ex (disk t))" by (intro log_ex_ok(2) bio_okD(11))
  moreover have "crashed 2 (disk t) [] (disk (boot_ex (disk t)))" using in_commit [of 2 "disk t" "[]" 0] by simp
  ultimately show ?thesis
    using t(1) t(2) [of "boot_ex (disk t)" 3] log_ex_idle(2) o log_ex_txn(2) by (auto simp: param_defs)
qed

text \<open>
  C19. A transaction that pins every buffer cannot commit: the cache has as many buffers as the log has
  blocks, so when all of them are pinned \<open>commit\<close> finds no buffer for the log block and panics, before any write.
\<close>

theorem commit_cache_full:
  assumes "bio_ok P {} s" "idle p s" "txn_ok P s" "card P = NBUF"
  shows "\<exists>t. commit s = Halt (Panic ''bget: no buffers'') t \<and> dlog t = dlog s"
  by (rule commit_full [OF assms])

text \<open>A transaction of thirty blocks.\<close>

definition full_ex :: log_state where
  "full_ex = bio_state.extend
     (bio_ex\<lparr>bufs := (\<lambda>i. \<lparr>bvalid = True, bdev = ROOTDEV, blockno = 100 + i, refcnt = 1, bdata = replicate BSIZE 7\<rparr>)\<rparr>)
     \<lparr>log_start = 2, outstanding = 0, committing = True, log_dev = ROOTDEV, lh_n = 30, lh_block = [100..<130]\<rparr>"

lemma full_ex_ok: "bio_ok {..<30} {} full_ex" "idle 3 full_ex" "txn_ok {..<30} full_ex"
proof -
  have "lru full_ex [0..<30]" using bio_ex_lru by (simp add: lru_def full_ex_def bio_state.extend_def)
  moreover have "\<not> slocked (slocks full_ex sl)" for sl
    using bio_ex_unlocked [of sl] by (simp add: full_ex_def bio_state.extend_def)
  moreover have b: "bufs full_ex i = \<lparr>bvalid = True, bdev = ROOTDEV, blockno = 100 + i, refcnt = 1, bdata = replicate BSIZE 7\<rparr>" for i
    by (simp add: full_ex_def bio_state.extend_def)
  moreover have "disk full_ex b = replicate BSIZE 0" for b
    using bio_ex_fields(1) [of b] by (simp add: full_ex_def bio_state.extend_def)
  ultimately show "bio_ok {..<30} {} full_ex" by (auto simp: bio_ok_def param_defs)
  have "holds {} bio_ex" "myp bio_ex = Some 3" using bio_ex_idle by (simp_all add: idle_def holds_iff)
  then have "holds {} full_ex" "myp full_ex = Some 3"
    by (simp_all add: full_ex_def bio_state.extend_def holds_def lock_free_def)
  then show "idle 3 full_ex" by (simp add: idle_def holds_iff)
  have f: "log_start full_ex = 2" "lh_n full_ex = 30" "lh_block full_ex = [100..<130]" "log_dev full_ex = ROOTDEV"
    by (simp_all add: full_ex_def bio_state.extend_def)
  have l: "logged full_ex = [100..<130]" by (simp add: logged_def f)
  have "set (logged full_ex) = {100..<130}" "distinct (logged full_ex)"
    unfolding l by (rule set_upt, rule distinct_upt)
  moreover have "\<exists>i\<in>{..<30}. 100 + i = b" if "b \<in> {100..<130}" for b :: nat
    using that by (intro bexI [of _ "b - 100"]) auto
  moreover have "log_wf full_ex" using f by (simp add: log_wf_def param_defs)
  ultimately show "txn_ok {..<30} full_ex" using f(1) b by (simp add: txn_ok_def param_defs)
qed

theorem commit_cache_full_witness: "\<exists>t. commit full_ex = Halt (Panic ''bget: no buffers'') t"
  using commit_cache_full [OF full_ex_ok] by (auto simp: param_defs)

end
