(* ===== verification/Transaction.thy ===== *)
theory Transaction
  imports Recovery
begin

section \<open>Transactions\<close>

text \<open>
  The calls a file system operation makes of the log: \<open>begin_op\<close>, \<open>log_write\<close> and \<open>end_op\<close>, and their effect on the
  blocks the kernel sees and on the disk when the processes make one call at a time. Between \<open>begin_op\<close> and \<open>end_op\<close> a
  change of a block is \<open>log_update\<close>. The theory \<open>Reservation\<close> is about the calls interleaved with everything else.
\<close>

subsection \<open>Recording a block\<close>

lemma find_index:
  "find (\<lambda>i. xs ! i = b) [0..<n] = None \<longleftrightarrow> (\<forall>i<n. xs ! i \<noteq> b)"
  "find (\<lambda>i. xs ! i = b) [0..<n] = Some k \<Longrightarrow> k < n \<and> xs ! k = b"
  by (auto simp: find_None_iff find_Some_iff)

lemma log_scan:
  "n \<le> length (lh_block s) \<Longrightarrow>
   kscan (\<lambda>i. kbind (get_lh_block i) (\<lambda>x. kret (if x = b then Some i else None))) [0..<n] s
     = Ret (find (\<lambda>i. lh_block s ! i = b) [0..<n]) s"
  by (rule kscan_find) (auto simp: get_lh_block_def)

lemma txn_pinned_buf:
  assumes ok: "bio_ok P H s" and tx: "txn_ok P s" and i: "i \<in> H"
  shows "blockno (bufs s i) \<in> set (logged s) \<longleftrightarrow> i \<in> P"
proof
  assume "blockno (bufs s i) \<in> set (logged s)"
  then obtain j where j: "j \<in> P" "blockno (bufs s j) = blockno (bufs s i)" using tx unfolding txn_ok_def by blast
  have "j < NBUF" "i < NBUF" "bvalid (bufs s j)" "bvalid (bufs s i)"
    using bio_okD(8,12) [OF ok] i j(1) by auto
  then have "j = i" using bio_okD(7) [OF ok] j(2) by blast
  then show "i \<in> P" using j(1) by simp
qed (use tx in \<open>simp add: txn_ok_def\<close>)

definition log_add :: "nat list \<Rightarrow> nat \<Rightarrow> nat list" where
  "log_add bs b = (if b \<in> set bs then bs else bs @ [b])"

text \<open>Only the cache, the header of the log and what belongs to locking has changed.\<close>

definition log_frame :: "'z log_state_scheme \<Rightarrow> 'z log_state_scheme \<Rightarrow> bool" where
  "log_frame s t \<longleftrightarrow> bio_frame (s\<lparr>lh_n := lh_n t, lh_block := lh_block t\<rparr>) t"

lemma bio_restore_lh [simp]:
  "bio_restore (s\<lparr>lh_n := n\<rparr>) t = bio_restore s t" "bio_restore (s\<lparr>lh_block := bs\<rparr>) t = bio_restore s t"
  "bio_restore s (t\<lparr>lh_n := n\<rparr>) = (bio_restore s t)\<lparr>lh_n := n\<rparr>"
  "bio_restore s (t\<lparr>lh_block := bs\<rparr>) = (bio_restore s t)\<lparr>lh_block := bs\<rparr>"
  by (simp_all add: bio_restore_def)

lemma bio_restore_locks [simp]:
  "bio_restore s (left lk t) = bio_restore s t" "bio_restore s (entered lk t) = bio_restore s t"
  "bio_restore s (touch t) = bio_restore s t" "bio_restore s s = s"
  by (simp_all add: bio_restore_def left_def entered_def touch_def)

lemma bio_restore_ops [simp]:
  "bio_restore s (t\<lparr>outstanding := n\<rparr>) = (bio_restore s t)\<lparr>outstanding := n\<rparr>"
  "bio_restore s (t\<lparr>committing := c\<rparr>) = (bio_restore s t)\<lparr>committing := c\<rparr>"
  "bio_restore s (wakeall ch t) = bio_restore s t"
  by (simp_all add: bio_restore_def wakeall_def touch_def)

lemma bio_restore_twice: "bio_restore s (bio_restore t u) = bio_restore s u"
  by (simp add: bio_restore_def)

lemma log_frame_eq: "log_frame s t \<longleftrightarrow> bio_restore s t = s\<lparr>lh_n := lh_n t, lh_block := lh_block t\<rparr>"
  by (simp add: log_frame_def bio_frame_def)

lemma log_frame_bio: "bio_frame s t \<Longrightarrow> log_frame s t"
  using bio_frame_log [of s t] by (simp add: log_frame_eq bio_frame_def)

lemma log_frame_trans:
  assumes "log_frame s t" "log_frame t u"
  shows "log_frame s u"
proof -
  have "bio_restore s u = bio_restore s (bio_restore t u)" by (simp add: bio_restore_twice)
  also have "\<dots> = (bio_restore s t)\<lparr>lh_n := lh_n u, lh_block := lh_block u\<rparr>" using assms(2) by (simp add: log_frame_eq)
  finally show ?thesis using assms(1) by (simp add: log_frame_eq)
qed

lemma log_frame_fields:
  assumes "log_frame s t"
  shows "log_start t = log_start s" "log_dev t = log_dev s" "outstanding t = outstanding s"
    "committing t = committing s" "log_state.more t = log_state.more s"
  using bio_frame_log [OF assms [unfolded log_frame_def]] by simp_all

lemma log_write_absorbed:
  assumes id: "idle p s" and tx: "txn_ok P s" and out: "1 \<le> outstanding s"
    and n: "lh_n s < int LOGBLOCKS" and i: "i \<in> P"
  shows "log_write i s = Ret () (touch s)"
proof -
  let ?b = "blockno (bufs s i)"
  have wf: "log_wf s" using tx by (simp add: txn_ok_def)
  have le: "nat (lh_n s) \<le> length (lh_block s)" using wf by (auto simp: log_wf_def)
  have "?b \<in> set (logged s)" using tx i by (simp add: txn_ok_def)
  then obtain k where "find (\<lambda>i. lh_block s ! i = ?b) [0..<nat (lh_n s)] = Some k"
    using find_index(1) [of "lh_block s" ?b "nat (lh_n s)"] le by (fastforce simp: logged_def in_set_conv_nth)
  then have k: "find (\<lambda>i. lh_block s ! i = ?b) [0..<nat (lh_n s)] = Some k" "k < nat (lh_n s)" "lh_block s ! k = ?b"
    using find_index(2) by fastforce+
  have "(lh_block s)[k := ?b] = lh_block s" using k(3) by (metis list_update_id)
  then have "(entered Lk_log s)\<lparr>lh_block := (lh_block s)[k := ?b]\<rparr> = entered Lk_log s" by simp
  moreover have "int k \<noteq> lh_n s" using k(2) by simp
  ultimately show ?thesis
    using k id n out le log_scan [of "nat (lh_n s)" "entered Lk_log s" ?b]
    by (simp add: log_write_def set_lh_block_def idle_def)
qed

lemma log_write_new:
  assumes ok: "bio_ok P H s" and iH: "i \<in> H" and id: "idle p s" and tx: "txn_ok P s" and out: "1 \<le> outstanding s"
    and n: "lh_n s < int LOGBLOCKS" and i: "i \<notin> P" and o: "outside (log_start s) (blockno (bufs s i))"
  shows "\<exists>t. log_write i s = Ret () t \<and> bio_ok (insert i P) H t \<and> txn_ok (insert i P) t \<and> idle p t
    \<and> logged t = logged s @ [blockno (bufs s i)] \<and> blk t = blk s \<and> disk t = disk s \<and> dlog t = dlog s
    \<and> log_frame s t \<and> calm s t \<and> (\<forall>j. blockno (bufs t j) = blockno (bufs s j) \<and> bdata (bufs t j) = bdata (bufs s j))"
proof -
  let ?b = "blockno (bufs s i)" and ?n = "nat (lh_n s)"
  have wf: "log_wf s" using tx by (simp add: txn_ok_def)
  have le: "?n < length (lh_block s)" "0 \<le> lh_n s" using wf n by (auto simp: log_wf_def)
  have b: "?b \<notin> set (logged s)" using txn_pinned_buf [OF ok tx iH] i by simp
  have "lh_block s ! k \<noteq> ?b" if "k < ?n" for k
    using nth_mem [of k "logged s"] that le b by (auto simp: logged_def)
  then have f: "find (\<lambda>i. lh_block s ! i = ?b) [0..<?n] = None" by (simp add: find_index(1))
  let ?u = "(entered Lk_log s)\<lparr>lh_block := (lh_block s)[?n := ?b]\<rparr>"
  have lk: "lkok s" "held s = {}" "myp s = Some p" using id by (auto simp: idle_def)
  obtain v where v: "bpin i ?u = Ret () v" "bio_ok (insert i P) H v" "blk v = blk s" "same_blocks ?u v"
      "disk v = disk s" "dlog v = dlog s"
    using bpin_ok [of P H ?u i] ok iH lk i by auto
  let ?t = "left Lk_log (v\<lparr>lh_n := lh_n v + 1\<rparr>)"
  have c: "bio_frame ?u v" "calm ?u v" "\<And>j. blockno (bufs v j) = blockno (bufs s j)" using v(4) by (auto simp: same_blocks_def)
  note fr = bio_frame_log [OF c(1), simplified]
  have lv: "lkok v" "held v = {Lk_log}" "myp v = Some p" using c(2) lk by (auto simp: calm_def)
  have run: "log_write i s = Ret () ?t"
    using f v(1) lk lv le n out log_scan [of ?n "entered Lk_log s" ?b]
    by (simp add: log_write_def set_lh_block_def Let_def)
  have lg: "logged ?t = logged s @ [?b]"
    using fr le by (simp add: logged_def nat_add_distrib take_Suc_conv_app_nth)
  moreover have "log_wf ?t" using fr wf n by (simp add: log_wf_def)
  ultimately have tx': "txn_ok (insert i P) ?t"
    using tx o fr c(3) txn_pinned_buf [OF ok tx iH] i by (auto simp: txn_ok_def outside_def)
  have "bio_restore s v = bio_restore s (bio_restore ?u v)" by (simp add: bio_restore_twice)
  then have "log_frame s ?t" using c(1) by (simp add: log_frame_eq bio_frame_def) (simp add: fr)
  moreover have "calm s ?t" using c(2) lk lv by (simp add: calm_def)
  moreover have "blockno (bufs ?t j) = blockno (bufs s j) \<and> bdata (bufs ?t j) = bdata (bufs s j)" for j
    using v(4) by (simp add: same_blocks_def)
  ultimately show ?thesis using run lg tx' v lv by (simp add: idle_def)
qed

lemma log_write_ok:
  assumes ok: "bio_ok P H s" and iH: "i \<in> H" and id: "idle p s" and tx: "txn_ok P s" and out: "1 \<le> outstanding s"
    and n: "lh_n s < int LOGBLOCKS" and o: "outside (log_start s) (blockno (bufs s i))"
  shows "\<exists>t. log_write i s = Ret () t \<and> bio_ok (insert i P) H t \<and> txn_ok (insert i P) t \<and> idle p t
    \<and> logged t = log_add (logged s) (blockno (bufs s i)) \<and> blk t = blk s \<and> disk t = disk s \<and> dlog t = dlog s
    \<and> log_frame s t \<and> calm s t \<and> (\<forall>j. blockno (bufs t j) = blockno (bufs s j) \<and> bdata (bufs t j) = bdata (bufs s j))"
proof (cases "i \<in> P")
  case True
  have "txn_ok P (touch s) = txn_ok P s" by (simp add: txn_ok_def log_wf_def logged_def)
  then show ?thesis
    using True log_write_absorbed [OF id tx out n True] txn_pinned_buf [OF ok tx iH] ok id tx
    by (simp add: log_add_def insert_absorb logged_def idle_def calm_def log_frame_eq)
next
  case False
  then show ?thesis
    using log_write_new [OF ok iH id tx out n False o] txn_pinned_buf [OF ok tx iH] by (simp add: log_add_def)
qed

text \<open>The pattern of every change to a block: read it, change it, log it, give it back.\<close>

definition log_update :: "nat \<Rightarrow> (bytes \<Rightarrow> bytes) \<Rightarrow> ('z log_state_scheme, unit) km" where
  "log_update b f = kbind (bread ROOTDEV b) (\<lambda>i. kdo [set_bytes i f, log_write i, brelse i])"

lemma txn_frame:
  assumes "bio_frame s t" "\<And>i. i \<in> P \<Longrightarrow> blockno (bufs t i) = blockno (bufs s i)"
  shows "txn_ok P t = txn_ok P s" "logged t = logged s"
  using bio_frame_log [OF assms(1)] assms(2) by (auto simp: txn_ok_def log_wf_def logged_def)

lemma txn_card:
  assumes ok: "bio_ok P H s" and tx: "txn_ok P s"
  shows "card P = length (logged s)"
proof -
  have inj: "inj_on (\<lambda>i. blockno (bufs s i)) P"
    using bio_okD(7) [OF ok] bio_okD(8,12) [OF ok] by (intro inj_onI) blast
  have "(\<lambda>i. blockno (bufs s i)) ` P = set (logged s)"
    using tx by (intro set_eqI) (fastforce simp: txn_ok_def)
  then have "card P = card (set (logged s))" using card_image [OF inj] by simp
  then show ?thesis using tx distinct_card [of "logged s"] by (simp add: txn_ok_def)
qed

lemma log_update_ok:
  assumes ok: "bio_ok P H s" and id: "idle p s" and tx: "txn_ok P s" and card: "card (P \<union> H) < NBUF"
    and H: "\<And>i. i \<in> H \<Longrightarrow> blockno (bufs s i) \<noteq> b"
    and out: "1 \<le> outstanding s" and n: "lh_n s < int LOGBLOCKS" and o: "outside (log_start s) b"
    and len: "length (f (blk s b)) = BSIZE"
  shows "\<exists>t P'. log_update b f s = Ret () t \<and> bio_ok P' H t \<and> txn_ok P' t \<and> idle p t
    \<and> blk t = (blk s)(b := f (blk s b)) \<and> disk t = disk s \<and> dlog t = dlog s \<and> logged t = log_add (logged s) b
    \<and> log_frame s t \<and> calm s t
    \<and> (\<forall>j\<in>H. blockno (bufs t j) = blockno (bufs s j) \<and> bdata (bufs t j) = bdata (bufs s j))"
proof -
  obtain i u where u: "bread ROOTDEV b s = Ret i u" and p: "bread_post P H b s i u"
    using bread_ok [OF ok id H] card by auto
  have b: "bio_ok P (insert i H) u" "blockno (bufs u i) = b" "bdata (bufs u i) = blk s b" "blk u = blk s" "disk u = disk s"
      "dlog u = dlog s" "bio_frame s u" "calm s u" "i \<notin> H"
      "\<And>k. k \<in> P \<union> H \<Longrightarrow> blockno (bufs u k) = blockno (bufs s k) \<and> bdata (bufs u k) = bdata (bufs s k)"
    using p by (auto simp: bread_post_def)
  note idu = calm_idle [OF b(8) id]
  obtain v where v: "set_bytes i f u = Ret () v" "bio_ok P (insert i H) v" "blk v = (blk s)(b := f (blk s b))"
      "bufs v = (bufs u)(i := (bufs u i)\<lparr>bdata := f (blk s b)\<rparr>)" "disk v = disk s" "dlog v = dlog s" "bio_frame u v"
      "lkok u \<longrightarrow> calm u v"
    using set_bytes_ok [OF b(1), of i f] len b by auto
  have cv: "calm u v" using v(8) idu by (auto simp: idle_def)
  note idv = calm_idle [OF cv idu]
  have bv: "blockno (bufs v k) = blockno (bufs u k)" for k using v(4) by simp
  have sv: "bio_frame s v" by (rule bio_frame_trans [OF b(7) v(7)])
  note fr = bio_frame_log [OF sv] and tv = txn_frame [OF sv, of P]
  have txv: "txn_ok P v" "logged v = logged s" using tv b(10) bv tx by auto
  obtain w where w: "log_write i v = Ret () w" "bio_ok (insert i P) (insert i H) w" "txn_ok (insert i P) w" "idle p w"
      "logged w = log_add (logged s) b" "blk w = blk v" "disk w = disk s" "dlog w = dlog s" "log_frame v w" "calm v w"
      "\<And>j. blockno (bufs w j) = blockno (bufs v j) \<and> bdata (bufs w j) = bdata (bufs v j)"
    using log_write_ok [OF v(2) insertI1 idv txv(1)] fr out n o b(2) bv txv(2) v(5,6) by auto
  obtain t where t: "brelse i w = Ret () t" "bio_ok (insert i P) H t" "same_blocks w t" "blk t = blk w" "disk t = disk w"
      "dlog t = dlog w"
    using brelse_ok [OF w(2,4), of i] b(9) by auto
  have ft: "bio_frame w t" "calm w t" "\<And>k. blockno (bufs t k) = blockno (bufs w k) \<and> bdata (bufs t k) = bdata (bufs w k)"
    using t(3) by (auto simp: same_blocks_def)
  then have "txn_ok (insert i P) t" "logged t = logged w" "idle p t"
    using txn_frame [of w t "insert i P"] w(3,4) calm_idle by auto
  moreover have "log_frame s t"
    using log_frame_trans [OF log_frame_bio [OF sv] log_frame_trans [OF w(9) log_frame_bio [OF ft(1)]]] .
  moreover have "calm s t" using calm_trans [OF b(8) calm_trans [OF cv calm_trans [OF w(10) ft(2)]]] .
  moreover have "blockno (bufs t j) = blockno (bufs s j) \<and> bdata (bufs t j) = bdata (bufs s j)" if "j \<in> H" for j
    using that b(9,10) ft(3) w(11) v(4) by auto
  ultimately show ?thesis using u v(1,3) w t by (auto simp: log_update_def)
qed

subsection \<open>Beginning and ending an operation\<close>

lemma begin_op_eq:
  assumes "idle p s" "\<not> committing s" "lh_n s + (outstanding s + 1) * int MAXOPBLOCKS \<le> int LOGBLOCKS"
  shows "begin_op s = Ret () ((touch s)\<lparr>outstanding := outstanding s + 1\<rparr>)"
  using assms by (simp add: begin_op_def begin_op_loop_def idle_def)

lemma begin_op_waits:
  assumes "idle p s" "mynoff s = 0" "committing s \<or> lh_n s + (outstanding s + 1) * int MAXOPBLOCKS > int LOGBLOCKS"
  shows "begin_op s = Halt Switch (asleep Ch_log Lk_log p (entered Lk_log s))"
  using assms
  by (cases "committing s") (simp_all add: begin_op_def begin_op_loop_def idle_def sleep_eq [of "entered Lk_log s" p])

lemma end_op_more:
  assumes "idle p s" "\<not> committing s" "outstanding s \<noteq> 1"
  shows "end_op s = Ret () (left Lk_log (wakeall (Some Ch_log) ((entered Lk_log s)\<lparr>outstanding := outstanding s - 1\<rparr>)))"
  using assms by (simp add: end_op_defs idle_def)

lemma commit_nothing: "\<not> 0 < lh_n s \<Longrightarrow> commit s = Ret () s"
  by (simp add: commit_def commit_code_def)

text \<open>The last operation of a group commits; whether or not there was anything to write.\<close>

lemma end_op_commits:
  assumes ok: "bio_ok P {} s" and id: "idle p s" and tx: "txn_ok P s" and card: "card P < NBUF"
    and c: "\<not> committing s" and o: "outstanding s = 1"
  shows "\<exists>t. end_op s = Ret () t \<and> bio_ok {} {} t \<and> txn_ok {} t \<and> lkok t \<and> held t = {} \<and> lh_n t = 0
    \<and> outstanding t = 0 \<and> \<not> committing t \<and> log_start t = log_start s
    \<and> (\<forall>b. outside (log_start s) b \<longrightarrow> disk t b = blk s b \<and> blk t b = blk s b)
    \<and> bio_restore s t = s\<lparr>lh_n := 0, outstanding := 0, committing := False\<rparr> \<and> calm s t"
proof -
  let ?s = "(touch s)\<lparr>outstanding := 0, committing := True\<rparr>"
  have lk: "lkok s" "held s = {}" "myp s = Some p" using id by (auto simp: idle_def)
  have s: "bio_ok P {} ?s" "idle p ?s" "txn_ok P ?s" "log_wf ?s"
    using ok lk tx by (auto simp: idle_def txn_ok_def log_wf_def logged_def)
  obtain u where u: "commit ?s = Ret () u" "bio_ok {} {} u" "lh_n u = 0" "calm ?s u" "bio_frame (?s\<lparr>lh_n := 0\<rparr>) u"
      "\<And>b. outside (log_start s) b \<Longrightarrow> disk u b = blk s b"
  proof (cases "0 < lh_n s")
    case True
    then obtain u where u: "commit ?s = Ret () u" "bio_ok {} {} u" "lh_n u = 0" "calm ?s u" "bio_frame (?s\<lparr>lh_n := 0\<rparr>) u"
      using commit_ok [OF s(1-3) card] by auto
    moreover have "disk u b = blk s b" if "outside (log_start s) b" for b
      using commit_done [OF s(1-3) card] u(1) True that by auto
    ultimately show ?thesis using that by blast
  next
    case False
    have n: "lh_n s = 0" using False tx by (simp add: txn_ok_def log_wf_def)
    have P: "P = {}" using txn_card [OF ok tx] n finite_subset [OF bio_okD(1) [OF ok]] by (simp add: logged_def)
    have "?s\<lparr>lh_n := 0\<rparr> = ?s" by (rule log_state.equality) (simp_all add: n)
    then have "bio_frame (?s\<lparr>lh_n := 0\<rparr>) ?s" by (metis bio_frame_refl)
    moreover have "disk s b = blk s b" for b using blk_clean [OF ok] P by simp
    ultimately show ?thesis using that [of ?s] commit_nothing [of ?s] s(1) P n by simp
  qed
  have lu: "lkok u" "held u = {}" "myp u = Some p" using u(4) lk by (auto simp: calm_def)
  note fu = bio_frame_log [OF u(5), simplified]
  let ?t = "left Lk_log (wakeall (Some Ch_log) ((entered Lk_log u)\<lparr>committing := False\<rparr>))"
  have "end_op s = Ret () ?t" using lk lu c o u(1) fu by (simp add: end_op_defs)
  moreover have "blk u b = disk u b" for b by (rule blk_clean [OF u(2)]) simp
  moreover have "txn_ok {} ?t" using fu u(3) s(4) by (simp add: txn_ok_def log_wf_def logged_def)
  moreover have "bio_restore s ?t = s\<lparr>lh_n := 0, outstanding := 0, committing := False\<rparr>"
  proof -
    have "bio_restore s u = bio_restore s (bio_restore (?s\<lparr>lh_n := 0\<rparr>) u)" by (simp only: bio_restore_twice)
    also have "\<dots> = s\<lparr>lh_n := 0, outstanding := 0, committing := True\<rparr>" using u(5) by (simp add: bio_frame_def)
    finally have "bio_restore s (u\<lparr>committing := False\<rparr>) = s\<lparr>lh_n := 0, outstanding := 0, committing := False\<rparr>" by simp
    then show ?thesis by simp
  qed
  moreover have "calm s ?t" using u(4) lk lu by (auto simp: calm_def woken_def)
  ultimately show ?thesis using u lu fu by simp
qed

subsection \<open>Operations of many processes\<close>

text \<open>
  \<open>room x q = Some n\<close>: process \<open>q\<close> is inside an operation and may still log \<open>n\<close> more blocks. An
  operation may log \<^verbatim>\<open>MAXOPBLOCKS\<close> blocks. The steps interleave the calls of the processes.
\<close>

record txn_sys =
  lst :: log_state
  room :: "nat \<Rightarrow> nat option"

definition txn_init :: "txn_sys \<Rightarrow> bool" where
  "txn_init x \<longleftrightarrow> bio_ok {} {} (lst x) \<and> txn_ok {} (lst x) \<and> lkok (lst x) \<and> held (lst x) = {}
     \<and> outstanding (lst x) = 0 \<and> \<not> committing (lst x) \<and> room x = (\<lambda>_. None)"

inductive txn_step :: "txn_sys \<Rightarrow> txn_sys \<Rightarrow> bool" where
  tx_begin: "room x q = None \<Longrightarrow> begin_op (run_as q (lst x)) = Ret () t \<Longrightarrow>
    txn_step x (x\<lparr>lst := t, room := (room x)(q \<mapsto> MAXOPBLOCKS)\<rparr>)"
| tx_update: "room x q = Some (Suc n) \<Longrightarrow> outside (log_start (lst x)) b \<Longrightarrow>
    length (f (blk (lst x) b)) = BSIZE \<Longrightarrow> log_update b f (run_as q (lst x)) = Ret () t \<Longrightarrow>
    txn_step x (x\<lparr>lst := t, room := (room x)(q \<mapsto> n)\<rparr>)"
| tx_end: "room x q = Some n \<Longrightarrow> end_op (run_as q (lst x)) = Ret () t \<Longrightarrow>
    txn_step x (x\<lparr>lst := t, room := (room x)(q := None)\<rparr>)"

inductive txn_reach :: "txn_sys \<Rightarrow> bool" where
  txn_start: "txn_init x \<Longrightarrow> txn_reach x"
| txn_more: "txn_reach x \<Longrightarrow> txn_step x y \<Longrightarrow> txn_reach y"

definition reserved :: "(nat \<Rightarrow> nat option) \<Rightarrow> nat" where
  "reserved r = (\<Sum>q\<in>dom r. the (r q))"

definition txn_inv :: "txn_sys \<Rightarrow> bool" where
  "txn_inv x \<longleftrightarrow> (\<exists>P. bio_ok P {} (lst x) \<and> txn_ok P (lst x)) \<and> lkok (lst x) \<and> held (lst x) = {}
     \<and> \<not> committing (lst x) \<and> finite (dom (room x)) \<and> outstanding (lst x) = int (card (dom (room x)))
     \<and> (\<forall>q\<in>dom (room x). the (room x q) \<le> MAXOPBLOCKS)
     \<and> lh_n (lst x) + int (reserved (room x)) \<le> int LOGBLOCKS"

lemma reserved_drop:
  assumes "finite (dom r)" "r q = Some n"
  shows "reserved r = n + reserved (r(q := None))"
proof -
  have "reserved r = the (r q) + (\<Sum>p\<in>dom r - {q}. the (r p))"
    unfolding reserved_def using assms by (intro sum.remove) auto
  also have "(\<Sum>p\<in>dom r - {q}. the (r p)) = reserved (r(q := None))"
    unfolding reserved_def by (rule sum.cong) auto
  finally show ?thesis using assms(2) by simp
qed

lemma reserved_set:
  assumes "finite (dom r)"
  shows "reserved (r(q \<mapsto> n)) = n + reserved (r(q := None))"
  using reserved_drop [of "r(q \<mapsto> n)" q n] assms by simp

lemma reserved_le:
  assumes "\<forall>q\<in>dom r. the (r q) \<le> m"
  shows "reserved r \<le> card (dom r) * m"
  unfolding reserved_def using sum_bounded_above [of "dom r" "\<lambda>q. the (r q)" m] assms by simp

lemma run_as_txn [simp]:
  "bio_ok P {} (run_as q s) = bio_ok P {} s" "blk (run_as q s) = blk s" "txn_ok P (run_as q s) = txn_ok P s"
  "idle q (run_as q s) = (lkok s \<and> held s = {})" "logged (run_as q s) = logged s"
  "log_start (run_as q s) = log_start s" "outstanding (run_as q s) = outstanding s" "lh_n (run_as q s) = lh_n s"
  "committing (run_as q s) = committing s" "disk (run_as q s) = disk s" "dlog (run_as q s) = dlog s"
proof -
  have f: "bufs (run_as q s) = bufs s" "bnext (run_as q s) = bnext s" "bprev (run_as q s) = bprev s"
      "disk (run_as q s) = disk s" "log_wf (run_as q s) = log_wf s" "logged (run_as q s) = logged s"
      "log_start (run_as q s) = log_start s"
    by (simp_all add: run_as_def log_wf_def logged_def)
  show "bio_ok P {} (run_as q s) = bio_ok P {} s" using f lru_cong [of "run_as q s" s] by (simp add: bio_ok_def)
  show "blk (run_as q s) = blk s" by (rule ext) (simp add: blk_def f cong: option.case_cong)
  show "txn_ok P (run_as q s) = txn_ok P s" using f by (simp add: txn_ok_def)
qed (simp_all add: run_as_def idle_def logged_def)

lemma begin_op_ret:
  assumes "idle p s" "begin_op s = Ret () t"
  shows "\<not> committing s" "lh_n s + (outstanding s + 1) * int MAXOPBLOCKS \<le> int LOGBLOCKS"
    "t = (touch s)\<lparr>outstanding := outstanding s + 1\<rparr>"
proof -
  have sl: "sleep Ch_log Lk_log (entered Lk_log s) \<noteq> Ret () u" for u
    using assms(1) by (simp add: idle_def sleep_eq [of "entered Lk_log s" p])
  show "\<not> committing s" "lh_n s + (outstanding s + 1) * int MAXOPBLOCKS \<le> int LOGBLOCKS"
    using assms sl by (auto simp: begin_op_def begin_op_loop_def idle_def split: outcome.splits if_splits)
  then show "t = (touch s)\<lparr>outstanding := outstanding s + 1\<rparr>" using begin_op_eq [OF assms(1)] assms(2) by simp
qed

lemma end_op_full:
  assumes "bio_ok P {} s" "idle p s" "txn_ok P s" "card P = NBUF" "\<not> committing s" "outstanding s = 1"
  shows "\<exists>t. end_op s = Halt (Panic ''bget: no buffers'') t"
proof -
  let ?s = "(touch s)\<lparr>outstanding := 0, committing := True\<rparr>"
  have s: "bio_ok P {} ?s" "idle p ?s" "txn_ok P ?s"
    using assms(1-3) by (auto simp: idle_def txn_ok_def log_wf_def logged_def)
  show ?thesis using commit_full [OF s assms(4)] assms(2,5,6) by (auto simp: end_op_defs idle_def)
qed

lemma txn_inv_init: "txn_init x \<Longrightarrow> txn_inv x"
  using length_logged [of "lst x"] txn_card [of "{}" "{}" "lst x"]
  by (auto simp: txn_init_def txn_inv_def txn_ok_def reserved_def log_wf_def)

lemma txn_inv_begin:
  assumes inv: "txn_inv x" and q: "room x q = None" and r: "begin_op (run_as q (lst x)) = Ret () t"
  shows "txn_inv (x\<lparr>lst := t, room := (room x)(q \<mapsto> MAXOPBLOCKS)\<rparr>)"
proof -
  let ?s = "lst x" and ?r = "room x"
  obtain P where P: "bio_ok P {} ?s" "txn_ok P ?s" "lkok ?s" "held ?s = {}" "\<not> committing ?s" "finite (dom ?r)"
      "outstanding ?s = int (card (dom ?r))" "\<forall>q\<in>dom ?r. the (?r q) \<le> MAXOPBLOCKS"
    using inv by (auto simp: txn_inv_def)
  have id: "idle q (run_as q ?s)" using P by simp
  have n: "lh_n ?s + (outstanding ?s + 1) * int MAXOPBLOCKS \<le> int LOGBLOCKS"
      and t: "t = (touch (run_as q ?s))\<lparr>outstanding := outstanding ?s + 1\<rparr>"
    using begin_op_ret [OF id r] by simp_all
  have e: "?r(q := None) = ?r" using q by auto
  have "reserved ?r \<le> card (dom ?r) * MAXOPBLOCKS" by (rule reserved_le [OF P(8)])
  then have "int (reserved ?r) \<le> outstanding ?s * int MAXOPBLOCKS" unfolding P(7) by (metis of_nat_le_iff of_nat_mult)
  then have "lh_n ?s + int (reserved (?r(q \<mapsto> MAXOPBLOCKS))) \<le> int LOGBLOCKS"
    using n reserved_set [OF P(6), of q MAXOPBLOCKS] e by (simp add: algebra_simps)
  moreover have "txn_ok P t" using P(2) by (simp add: t txn_ok_def log_wf_def logged_def run_as_def)
  moreover have "card (insert q (dom ?r)) = card (dom ?r) + 1" using q P(6) by (simp add: domIff)
  ultimately show ?thesis using P by (auto simp: txn_inv_def t)
qed

lemma txn_inv_update:
  assumes inv: "txn_inv x" and q: "room x q = Some (Suc n)" and o: "outside (log_start (lst x)) b"
    and f: "length (f (blk (lst x) b)) = BSIZE"
  shows "\<exists>t. log_update b f (run_as q (lst x)) = Ret () t \<and> txn_inv (x\<lparr>lst := t, room := (room x)(q \<mapsto> n)\<rparr>)
    \<and> blk t = (blk (lst x))(b := f (blk (lst x) b)) \<and> disk t = disk (lst x) \<and> dlog t = dlog (lst x)"
proof -
  let ?s = "lst x" and ?r = "room x"
  obtain P where P: "bio_ok P {} ?s" "txn_ok P ?s" "lkok ?s" "held ?s = {}" "\<not> committing ?s" "finite (dom ?r)"
      "outstanding ?s = int (card (dom ?r))" "\<forall>q\<in>dom ?r. the (?r q) \<le> MAXOPBLOCKS"
      "lh_n ?s + int (reserved ?r) \<le> int LOGBLOCKS"
    using inv by (auto simp: txn_inv_def)
  have "card (dom ?r) \<noteq> 0" using q P(6) by auto
  then have out: "1 \<le> outstanding ?s" using P(7) by simp
  have n: "lh_n ?s + 1 + int n + int (reserved (?r(q := None))) \<le> int LOGBLOCKS"
    using P(9) reserved_drop [OF P(6) q] by simp
  have wf: "log_wf ?s" using P(2) by (simp add: txn_ok_def)
  have card: "card P < NBUF"
    using txn_card [OF P(1,2)] length_logged [OF wf] n wf by (simp add: log_wf_def param_defs)
  obtain t P' where t: "log_update b f (run_as q ?s) = Ret () t" "bio_ok P' {} t" "txn_ok P' t" "idle q t"
      "blk t = (blk ?s)(b := f (blk ?s b))" "disk t = disk ?s" "dlog t = dlog ?s" "logged t = log_add (logged ?s) b"
      "outstanding t = outstanding ?s" "committing t = committing ?s"
    using log_update_ok [of P "{}" "run_as q ?s" q b f] P(1-4) card out n o f log_frame_fields by fastforce
  have "lh_n t \<le> lh_n ?s + 1"
    using length_logged [of t] length_logged [OF wf] t(3,8) wf by (auto simp: log_add_def txn_ok_def log_wf_def split: if_splits)
  then have "lh_n t + int (reserved (?r(q \<mapsto> n))) \<le> int LOGBLOCKS" using n reserved_set [OF P(6), of q n] by simp
  moreover have "insert q (dom ?r) = dom ?r" using q by auto
  moreover have "n \<le> MAXOPBLOCKS" using P(8) q by force
  ultimately have "txn_inv (x\<lparr>lst := t, room := ?r(q \<mapsto> n)\<rparr>)" using t P by (auto simp: txn_inv_def idle_def)
  then show ?thesis using t by blast
qed

lemma txn_inv_end:
  assumes inv: "txn_inv x" and q: "room x q = Some n" and r: "end_op (run_as q (lst x)) = Ret () t"
  shows "txn_inv (x\<lparr>lst := t, room := (room x)(q := None)\<rparr>)"
proof -
  let ?s = "lst x" and ?r = "room x"
  obtain P where P: "bio_ok P {} ?s" "txn_ok P ?s" "lkok ?s" "held ?s = {}" "\<not> committing ?s" "finite (dom ?r)"
      "outstanding ?s = int (card (dom ?r))" "\<forall>q\<in>dom ?r. the (?r q) \<le> MAXOPBLOCKS"
      "lh_n ?s + int (reserved ?r) \<le> int LOGBLOCKS"
    using inv by (auto simp: txn_inv_def)
  have q': "q \<in> dom ?r" using q by auto
  have dom: "dom (?r(q := None)) = dom ?r - {q}" by auto
  have c: "int (card (dom ?r - {q})) = outstanding ?s - 1"
    using card_Suc_Diff1 [OF P(6) q'] P(7) by linarith
  have le: "int (reserved (?r(q := None))) \<le> int (reserved ?r)" using reserved_drop [OF P(6) q] by simp
  have id: "idle q (run_as q ?s)" "bio_ok P {} (run_as q ?s)" "txn_ok P (run_as q ?s)" using P by simp_all
  show ?thesis
  proof (cases "outstanding ?s = 1")
    case False
    have t: "t = left Lk_log (wakeall (Some Ch_log) ((entered Lk_log (run_as q ?s))\<lparr>outstanding := outstanding ?s - 1\<rparr>))"
      using end_op_more [OF id(1)] False P(5) r by simp
    have "txn_ok P t" using P(2) by (simp add: t txn_ok_def log_wf_def logged_def run_as_def)
    then show ?thesis using P dom c le by (auto simp: txn_inv_def t)
  next
    case True
    have "card P \<noteq> NBUF" using end_op_full [OF id(2,1,3)] r P(5) True by auto
    then have card: "card P < NBUF" using card_mono [OF _ bio_okD(1) [OF P(1)]] by simp
    have t: "bio_ok {} {} t \<and> txn_ok {} t \<and> lkok t \<and> held t = {} \<and> lh_n t = 0 \<and> outstanding t = 0 \<and> \<not> committing t"
      using end_op_commits [OF id(2,1,3) card] r P(5) True by auto
    have "0 \<le> lh_n ?s" using P(2) by (simp add: txn_ok_def log_wf_def)
    then show ?thesis using P t dom c le True by (auto simp: txn_inv_def)
  qed
qed

lemma txn_reach_inv: "txn_reach x \<Longrightarrow> txn_inv x"
proof (induction rule: txn_reach.induct)
  case (txn_start x)
  then show ?case by (rule txn_inv_init)
next
  case (txn_more x y)
  from txn_more(2) show ?case
  proof cases
    case (tx_begin q t)
    then show ?thesis using txn_inv_begin [OF txn_more.IH] by simp
  next
    case (tx_update q n b f t)
    then show ?thesis using txn_inv_update [where f = f, OF txn_more.IH tx_update(2-4)] by auto
  next
    case (tx_end q n t)
    then show ?thesis using txn_inv_end [OF txn_more.IH] by simp
  qed
qed

subsection \<open>Properties\<close>

text \<open>The log just after \<^verbatim>\<open>initlog\<close>, and the same once process 3 has begun an operation.\<close>

definition txn_ex :: txn_sys where
  "txn_ex = \<lparr>lst = (boot_ex (\<lambda>_. replicate BSIZE 0))\<lparr>log_start := 2, log_dev := ROOTDEV\<rparr>, room = (\<lambda>_. None)\<rparr>"

definition txn_ex2 :: txn_sys where
  "txn_ex2 = txn_ex\<lparr>lst := (touch (run_as 3 (lst txn_ex)))\<lparr>outstanding := 1\<rparr>, room := [3 \<mapsto> MAXOPBLOCKS]\<rparr>"

lemma txn_ex_init: "txn_init txn_ex"
proof -
  have b: "bio_ok {} {} (boot_ex (\<lambda>_. replicate BSIZE 0))" "idle 3 (boot_ex (\<lambda>_. replicate BSIZE 0))"
    by (rule log_ex_ok(2), simp) (rule log_ex_idle(2))
  have "bio_ok {} {} (lst txn_ex) = bio_ok {} {} (boot_ex (\<lambda>_. replicate BSIZE 0))"
    by (rule bio_ok_cong) (simp_all add: txn_ex_def mypid_def)
  moreover have "lh_n (lst txn_ex) = 0" "lh_block (lst txn_ex) = replicate 30 0" "outstanding (lst txn_ex) = 0"
      "\<not> committing (lst txn_ex)" "log_dev (lst txn_ex) = ROOTDEV"
    by (simp_all add: txn_ex_def boot_ex_def bio_state.extend_def)
  moreover have "lkok (lst txn_ex)" "held (lst txn_ex) = {}" "room txn_ex = (\<lambda>_. None)"
    using b(2) by (simp_all add: txn_ex_def idle_def)
  ultimately show ?thesis using b(1) by (simp add: txn_init_def txn_ok_def log_wf_def logged_def param_defs)
qed

lemma txn_ex2_reach: "txn_reach txn_ex2"
proof -
  have i: "lkok (lst txn_ex)" "held (lst txn_ex) = {}" "outstanding (lst txn_ex) = 0" "\<not> committing (lst txn_ex)"
      "room txn_ex = (\<lambda>_. None)" "bio_ok {} {} (lst txn_ex)" "lh_n (lst txn_ex) = 0"
    using txn_ex_init by (auto simp: txn_init_def) (simp add: txn_ex_def boot_ex_def bio_state.extend_def)
  have "begin_op (run_as 3 (lst txn_ex)) = Ret () ((touch (run_as 3 (lst txn_ex)))\<lparr>outstanding := 1\<rparr>)"
    using i begin_op_eq [of 3 "run_as 3 (lst txn_ex)"] by (simp add: param_defs)
  then have "txn_step txn_ex txn_ex2"
    unfolding txn_ex2_def using tx_begin [of txn_ex 3] i(5) by simp
  then show "txn_reach txn_ex2" using txn_start [OF txn_ex_init] txn_more by blast
qed

text \<open>
  C12. Group commit: the end of the last outstanding operation commits everything the group logged, resets
  the log for new operations, and leaves the disk holding, outside the log, what the kernel saw.
\<close>

theorem end_op_group_commit:
  assumes "txn_reach x" "room x = [q \<mapsto> n]" "lh_n (lst x) < int NBUF"
  shows "\<exists>t. end_op (run_as q (lst x)) = Ret () t \<and> lh_n t = 0 \<and> outstanding t = 0 \<and> \<not> committing t \<and> held t = {}
    \<and> (\<forall>b. outside (log_start (lst x)) b \<longrightarrow> disk t b = blk (lst x) b \<and> blk t b = blk (lst x) b)"
proof -
  obtain P where P: "bio_ok P {} (lst x)" "txn_ok P (lst x)" "lkok (lst x)" "held (lst x) = {}" "\<not> committing (lst x)"
      "outstanding (lst x) = 1"
    using txn_reach_inv [OF assms(1)] assms(2) by (auto simp: txn_inv_def)
  have "card P < NBUF"
    using txn_card [OF P(1,2)] length_logged [of "lst x"] P(2) assms(3) by (auto simp: txn_ok_def log_wf_def nat_less_iff)
  then show ?thesis using end_op_commits [of P "run_as q (lst x)" q] P by auto
qed

theorem end_op_group_commit_witness: "\<exists>t. end_op (run_as 3 (lst txn_ex2)) = Ret () t \<and> outstanding t = 0"
proof -
  have "lh_n (lst txn_ex2) = 0"
    by (simp add: txn_ex2_def) (simp add: txn_ex_def boot_ex_def bio_state.extend_def)
  moreover have "room txn_ex2 = [3 \<mapsto> MAXOPBLOCKS]" by (simp add: txn_ex2_def)
  ultimately show ?thesis using end_op_group_commit [OF txn_ex2_reach, of 3 MAXOPBLOCKS] by (auto simp: param_defs)
qed

text \<open>
  Absorption: \<open>log_write\<close> of a locked buffer records its block in the header once: a block that is already
  listed is not listed again and its buffer not pinned again, a new one is appended and its buffer pinned; neither what
  the kernel sees nor the disk changes, and the transaction stays ready to commit.
\<close>

theorem log_write_absorbs:
  assumes "bio_ok P {i} s" "idle p s" "txn_ok P s" "1 \<le> outstanding s" "lh_n s < int LOGBLOCKS"
    "outside (log_start s) (blockno (bufs s i))"
  shows "\<exists>t. log_write i s = Ret () t
    \<and> logged t = (if blockno (bufs s i) \<in> set (logged s) then logged s else logged s @ [blockno (bufs s i)])
    \<and> bio_ok (insert i P) {i} t \<and> txn_ok (insert i P) t \<and> blk t = blk s \<and> disk t = disk s"
  using log_write_ok [OF assms(1) _ assms(2-)] log_frame_fields by (fastforce simp: log_add_def)

theorem log_write_absorbs_witness:
  "\<exists>i u t. bread ROOTDEV 50 (log_ex\<lparr>outstanding := 1\<rparr>) = Ret i u \<and> log_write i u = Ret () t \<and> logged t = [50]"
proof -
  let ?s = "log_ex\<lparr>outstanding := 1\<rparr>"
  have s: "bio_ok {0} {} ?s" "idle 3 ?s" "txn_ok {0} ?s" "logged ?s = [50]"
    using log_ex_ok(1) log_ex_idle(1) log_ex_txn(1) log_ex_simps(4)
    by (simp_all add: txn_ok_def log_wf_def logged_def)
  obtain i u where u: "bread ROOTDEV 50 ?s = Ret i u" "bread_post {0} {} 50 ?s i u"
    using bread_ok [OF s(1,2), of 50] by (auto simp: param_defs)
  have p: "bio_ok {0} {i} u" "bio_frame ?s u" "calm ?s u" "blockno (bufs u 0) = blockno (bufs ?s 0)" "blockno (bufs u i) = 50"
    using u(2) by (auto simp: bread_post_def)
  have "txn_ok {0} u" "logged u = [50]" using txn_frame [OF p(2), of "{0}"] p(4) s(3,4) by auto
  moreover have "outstanding u = 1" "lh_n u = 1" "log_start u = 2" using bio_frame_log [OF p(2)] by simp_all
  ultimately show ?thesis
    using log_write_absorbs [OF p(1) calm_idle [OF p(3) s(2)]] u(1) p(5) by (auto simp: outside_def param_defs)
qed

text \<open>
  Misuse of the log stops the kernel and changes nothing: \<open>log_write\<close> with a full header panics, and so does a
  call outside any operation, in both cases holding the log's lock.
\<close>

theorem log_write_misuse:
  assumes "idle p s" "int LOGBLOCKS \<le> lh_n s \<or> outstanding s < 1"
  shows "log_write i s = Halt (Panic (if int LOGBLOCKS \<le> lh_n s then ''too big a transaction''
    else ''log_write outside of trans'')) (entered Lk_log s)"
  using assms by (auto simp: log_write_def idle_def)

theorem log_write_misuse_witness:
  "log_write 0 log_ex = Halt (Panic ''log_write outside of trans'') (entered Lk_log log_ex)"
proof -
  have "outstanding log_ex = 0" by (simp add: log_ex_def bio_state.extend_def)
  then show ?thesis using log_write_misuse [OF log_ex_idle(1), of 0] by (simp add: param_defs)
qed

text \<open>
  Reservation: \<open>begin_op\<close> admits an operation exactly when no commit is running and the log has room for
  \<^verbatim>\<open>MAXOPBLOCKS\<close> blocks for it and for every operation already admitted; otherwise the process sleeps on the log
  with the log's lock released and the count of operations unchanged.
\<close>

theorem begin_op_admits:
  assumes "idle p s" "mynoff s = 0"
  shows "if committing s \<or> int LOGBLOCKS < lh_n s + (outstanding s + 1) * int MAXOPBLOCKS
    then \<exists>t. begin_op s = Halt Switch t \<and> pstate (procs t p) = SLEEPING \<and> chan (procs t p) = Some Ch_log
      \<and> Lk_log \<notin> held t \<and> outstanding t = outstanding s
    else \<exists>t. begin_op s = Ret () t \<and> outstanding t = outstanding s + 1 \<and> held t = {} \<and> lkok t"
proof (cases "committing s \<or> int LOGBLOCKS < lh_n s + (outstanding s + 1) * int MAXOPBLOCKS")
  case True
  have "idle p s" by (rule assms(1))
  then show ?thesis using True begin_op_waits [OF assms(1,2) True] by (auto simp: idle_def asleep_def)
next
  case False
  then show ?thesis using begin_op_eq [OF assms(1)] assms(1) by (simp add: idle_def)
qed

theorem begin_op_admits_witness:
  "\<exists>t. begin_op log_ex = Halt Switch t \<and> pstate (procs t 3) = SLEEPING \<and> outstanding t = 0"
proof -
  have "mynoff log_ex = 0" "committing log_ex" "outstanding log_ex = 0"
    by (simp_all add: log_ex_def bio_ex_def bio_state.extend_def pr_state.extend_def sl_state.extend_def sl_ex_def
        vm_state.extend_def proc_state.extend_def)
  then show ?thesis using begin_op_admits [OF log_ex_idle(1)] by auto
qed

end
