(* ===== verification/Fsblocks.thy ===== *)
theory Fsblocks
  imports Transaction Fs
begin

section \<open>Blocks of the file system inside a transaction\<close>

text \<open>
  What the code of \<^verbatim>\<open>kernel/fs.c\<close> relies on. \<open>frd p H s\<close>: process \<open>p\<close> runs and has the buffers \<open>H\<close>
  locked; every one of them is clean or logged. \<open>ftx p H s\<close>: it also runs inside an operation,
  between \<^verbatim>\<open>begin_op\<close> and \<^verbatim>\<open>end_op\<close>. \<open>blk s b\<close> is the content of block \<open>b\<close> as the kernel sees it and \<open>logged s\<close> the blocks
  the operations of the transaction have changed.
\<close>

definition frd :: "nat \<Rightarrow> nat set \<Rightarrow> 'z log_state_scheme \<Rightarrow> bool" where
  "frd p H s \<longleftrightarrow> idle p s \<and> (\<exists>P. bio_ok P H s \<and> txn_ok P s \<and>
     (\<forall>i\<in>H. i \<in> P \<or> bdata (bufs s i) = disk s (blockno (bufs s i))))"

definition ftx :: "nat \<Rightarrow> nat set \<Rightarrow> 'z log_state_scheme \<Rightarrow> bool" where
  "ftx p H s \<longleftrightarrow> frd p H s \<and> 1 \<le> outstanding s"

definition fmove :: "nat set \<Rightarrow> 'z log_state_scheme \<Rightarrow> 'z log_state_scheme \<Rightarrow> bool" where
  "fmove H s t \<longleftrightarrow> log_frame s t \<and> calm s t \<and> (\<forall>j\<in>H. blockno (bufs t j) = blockno (bufs s j))"

lemma fmove_refl [simp]: "fmove H s s"
  by (simp add: fmove_def log_frame_bio)

lemma fmove_trans: "fmove H s t \<Longrightarrow> fmove H t u \<Longrightarrow> fmove H s u"
  using log_frame_trans calm_trans by (fastforce simp: fmove_def)

lemma fmove_mono: "fmove H s t \<Longrightarrow> K \<subseteq> H \<Longrightarrow> fmove K s t"
  by (auto simp: fmove_def)

lemma fmove_fields:
  assumes "fmove H s t"
  shows "log_start t = log_start s" "log_state.more t = log_state.more s"
  using assms log_frame_fields [of s t] by (auto simp: fmove_def)

lemma frd_idle: "frd p H s \<Longrightarrow> idle p s" "frd p H s \<Longrightarrow> finite H"
  by (auto simp: frd_def dest: bio_okD(2) finite_subset)

lemma frd_held: "frd p H s \<Longrightarrow> i \<in> H \<Longrightarrow> bdata (bufs s i) = blk s (blockno (bufs s i))"
  unfolding frd_def by (metis blk_cached bio_okD(8,12))

lemma frd_blk_length: "frd p H s \<Longrightarrow> length (blk s b) = BSIZE"
  unfolding frd_def blk_def by (auto split: option.splits dest: bio_okD(10,11) simp: find_Some_iff)

lemma frd_distinct: "frd p H s \<Longrightarrow> distinct (logged s)"
  by (auto simp: frd_def txn_ok_def)

lemma ftx_frd: "ftx p H s \<Longrightarrow> frd p H s"
  by (simp add: ftx_def)

lemma ftx_move: "frd p H t \<Longrightarrow> fmove K s t \<Longrightarrow> ftx p L s \<Longrightarrow> ftx p H t"
  using log_frame_fields(3) [of s t] by (simp add: ftx_def fmove_def)

lemmas ftx_idle = frd_idle [OF ftx_frd]
lemmas ftx_held = frd_held [OF ftx_frd]
lemmas ftx_blk_length = frd_blk_length [OF ftx_frd]
lemmas ftx_distinct = frd_distinct [OF ftx_frd]

lemma logged_n: "txn_ok P s \<Longrightarrow> lh_n s = int (length (logged s))"
  by (auto simp: txn_ok_def log_wf_def logged_def)

lemma length_log_add: "length (log_add bs b) \<le> Suc (length bs)"
  by (simp add: log_add_def)

lemma set_log_add [simp]: "set (log_add bs b) = insert b (set bs)"
  by (auto simp: log_add_def)

lemma card_pinned:
  assumes "bio_ok P H s" "txn_ok P s" "length (logged s) + card H < NBUF"
  shows "card (P \<union> H) < NBUF"
  using txn_card [OF assms(1,2)] card_Un_le [of P H] assms(3) by simp

lemma blk_unheld:
  assumes "bio_ok P H s" "\<And>i. i \<in> P \<union> H \<Longrightarrow> blockno (bufs s i) \<noteq> b"
  shows "blk s b = disk s b"
proof (cases "\<exists>i<NBUF. bvalid (bufs s i) \<and> blockno (bufs s i) = b")
  case True
  then obtain i where i: "i < NBUF" "bvalid (bufs s i)" "blockno (bufs s i) = b" by blast
  then have "i \<notin> P" "i \<notin> H" using assms(2) by auto
  then show ?thesis using blk_cached [OF assms(1) i] bio_okD(9) [OF assms(1) i(1,2)] i(3) by simp
next
  case False
  then show ?thesis using blk_uncached by blast
qed

lemma frd_bread:
  assumes tx: "frd p H s" and b: "\<And>i. i \<in> H \<Longrightarrow> blockno (bufs s i) \<noteq> b"
    and room: "length (logged s) + card H < NBUF"
  shows "\<exists>i t. bread ROOTDEV b s = Ret i t \<and> i \<notin> H \<and> frd p (insert i H) t \<and> fmove H s t
    \<and> blockno (bufs t i) = b \<and> bdata (bufs t i) = blk s b \<and> blk t = blk s \<and> logged t = logged s"
proof -
  obtain P where P: "bio_ok P H s" "txn_ok P s" "\<And>i. i \<in> H \<Longrightarrow> i \<in> P \<or> bdata (bufs s i) = disk s (blockno (bufs s i))"
    and id: "idle p s" using tx by (auto simp: frd_def)
  obtain i t where t: "bread ROOTDEV b s = Ret i t" and q: "bread_post P H b s i t"
    using bread_ok [OF P(1) id b] card_pinned [OF P(1,2) room] by auto
  have r: "i \<notin> H" "bio_ok P (insert i H) t" "blockno (bufs t i) = b" "bdata (bufs t i) = blk s b" "blk t = blk s"
    "disk t = disk s" "bio_frame s t" "calm s t"
    "\<And>j. j \<in> P \<union> H \<Longrightarrow> blockno (bufs t j) = blockno (bufs s j) \<and> bdata (bufs t j) = bdata (bufs s j)"
    "i \<in> P \<longleftrightarrow> (\<exists>j\<in>P. blockno (bufs s j) = b)"
    using q by (auto simp: bread_post_def)
  have tt: "txn_ok P t" "logged t = logged s" using txn_frame [OF r(7), of P] r(9) P(2) by auto
  have "i \<in> P \<or> blk s b = disk s b"
    using blk_unheld [OF P(1), of b] r(10) b by auto
  then have "frd p (insert i H) t"
    using r tt P(3) calm_idle [OF r(8) id] by (auto simp: frd_def intro!: exI [of _ P])
  then show ?thesis using t r tt by (auto simp: fmove_def log_frame_bio)
qed

lemma frd_brelse:
  assumes tx: "frd p H s" and i: "i \<in> H"
  shows "\<exists>t. brelse i s = Ret () t \<and> frd p (H - {i}) t \<and> fmove H s t \<and> blk t = blk s \<and> logged t = logged s"
proof -
  obtain P where P: "bio_ok P H s" "txn_ok P s" "\<And>i. i \<in> H \<Longrightarrow> i \<in> P \<or> bdata (bufs s i) = disk s (blockno (bufs s i))"
    and id: "idle p s" using tx by (auto simp: frd_def)
  obtain t where t: "brelse i s = Ret () t" "bio_ok P (H - {i}) t" "same_blocks s t" "blk t = blk s" "disk t = disk s"
    using brelse_ok [OF P(1) id i P(3) [OF i]] by auto
  have f: "bio_frame s t" "calm s t" "\<And>j. blockno (bufs t j) = blockno (bufs s j) \<and> bdata (bufs t j) = bdata (bufs s j)"
    using t(3) by (auto simp: same_blocks_def)
  then have "txn_ok P t" "logged t = logged s" using txn_frame [OF f(1), of P] P(2) by auto
  then show ?thesis
    using t f P(3) calm_idle [OF f(2) id] by (auto simp: frd_def fmove_def log_frame_bio intro!: exI [of _ P])
qed

lemma ftx_bread:
  assumes tx: "ftx p H s" and b: "\<And>i. i \<in> H \<Longrightarrow> blockno (bufs s i) \<noteq> b"
    and room: "length (logged s) + card H < NBUF"
  shows "\<exists>i t. bread ROOTDEV b s = Ret i t \<and> i \<notin> H \<and> ftx p (insert i H) t \<and> fmove H s t
    \<and> blockno (bufs t i) = b \<and> bdata (bufs t i) = blk s b \<and> blk t = blk s \<and> logged t = logged s"
  using frd_bread [OF ftx_frd [OF tx] b room] ftx_move [OF _ _ tx] by blast

lemma ftx_brelse:
  assumes tx: "ftx p H s" and i: "i \<in> H"
  shows "\<exists>t. brelse i s = Ret () t \<and> ftx p (H - {i}) t \<and> fmove H s t \<and> blk t = blk s \<and> logged t = logged s"
  using frd_brelse [OF ftx_frd [OF tx] i] ftx_move [OF _ _ tx] by blast

text \<open>A change of a locked buffer, logged.\<close>

lemma ftx_modify:
  assumes tx: "ftx p H s" and i: "i \<in> H" and c: "blockno (bufs s i) = c" and room: "length (logged s) < LOGBLOCKS"
    and o: "outside (log_start s) c" and len: "length (f (blk s c)) = BSIZE"
  shows "\<exists>u t. set_bytes i f s = Ret () u \<and> log_write i u = Ret () t \<and> ftx p H t \<and> fmove H s t
    \<and> blk t = (blk s)(c := f (blk s c)) \<and> logged t = log_add (logged s) c"
proof -
  obtain P where P: "bio_ok P H s" "txn_ok P s" "\<And>i. i \<in> H \<Longrightarrow> i \<in> P \<or> bdata (bufs s i) = disk s (blockno (bufs s i))"
    and id: "idle p s" and out: "1 \<le> outstanding s" using tx by (auto simp: ftx_def frd_def)
  have d: "bdata (bufs s i) = blk s c" using ftx_held [OF tx i] c by simp
  obtain u where u: "set_bytes i f s = Ret () u" "bio_ok P H u" "blk u = (blk s)(c := f (blk s c))"
      "bufs u = (bufs s)(i := (bufs s i)\<lparr>bdata := f (blk s c)\<rparr>)" "disk u = disk s" "bio_frame s u" "lkok s \<longrightarrow> calm s u"
    using set_bytes_ok [OF P(1) i, of f] d len c by auto
  have cu: "calm s u" using u(7) id by (auto simp: idle_def)
  have bn: "blockno (bufs u j) = blockno (bufs s j)" for j using u(4) by simp
  have tu: "txn_ok P u" "logged u = logged s" using txn_frame [OF u(6), of P] bn P(2) by auto
  note fl = bio_frame_log [OF u(6)]
  have "lh_n u < int LOGBLOCKS" using logged_n [OF P(2)] fl(3) room by simp
  then obtain t where t: "log_write i u = Ret () t" "bio_ok (insert i P) H t" "txn_ok (insert i P) t" "idle p t"
      "logged t = log_add (logged s) c" "blk t = blk u" "disk t = disk s" "log_frame u t" "calm u t"
      "\<And>j. blockno (bufs t j) = blockno (bufs u j) \<and> bdata (bufs t j) = bdata (bufs u j)"
    using log_write_ok [OF u(2) i calm_idle [OF cu id] tu(1)] fl(1,5) out o c bn tu(2) u(5) by auto
  have cl: "j \<in> insert i P \<or> bdata (bufs t j) = disk t (blockno (bufs t j))" if "j \<in> H" for j
    using P(3) [OF that] t(7,10) u(4) by (cases "j = i") auto
  have fr: "log_frame s t" by (rule log_frame_trans [OF log_frame_bio [OF u(6)] t(8)])
  have "ftx p H t"
    unfolding ftx_def frd_def using t(2-4) cl out log_frame_fields(3) [OF fr] by metis
  moreover have "fmove H s t" using fr calm_trans [OF cu t(9)] bn t(10) by (simp add: fmove_def)
  ultimately show ?thesis using u(1,3) t(1,5,6) by metis
qed

text \<open>Reading a block, changing it, logging it and giving it back.\<close>

lemma ftx_update:
  assumes tx: "ftx p H s" and b: "\<And>i. i \<in> H \<Longrightarrow> blockno (bufs s i) \<noteq> b"
    and room: "length (logged s) + card H < NBUF" and o: "outside (log_start s) b" and len: "length (f (blk s b)) = BSIZE"
  shows "\<exists>t. log_update b f s = Ret () t \<and> ftx p H t \<and> fmove H s t \<and> blk t = (blk s)(b := f (blk s b))
    \<and> logged t = log_add (logged s) b"
proof -
  obtain i u where u: "bread ROOTDEV b s = Ret i u" "i \<notin> H" "ftx p (insert i H) u" "fmove H s u"
      "blockno (bufs u i) = b" "blk u = blk s" "logged u = logged s"
    using ftx_bread [OF tx b room] by auto
  have lb: "length (logged u) < LOGBLOCKS" using room u(7) by (simp add: NBUF_def LOGBLOCKS_def)
  obtain v w where w: "set_bytes i f u = Ret () v" "log_write i v = Ret () w" "ftx p (insert i H) w"
      "fmove (insert i H) u w" "blk w = (blk s)(b := f (blk s b))" "logged w = log_add (logged s) b"
    using ftx_modify [OF u(3) insertI1 u(5) lb, of f] o len fmove_fields(1) [OF u(4)] u(6,7) by auto
  obtain t where t: "brelse i w = Ret () t" "ftx p (insert i H - {i}) t" "fmove (insert i H) w t" "blk t = blk w"
      "logged t = logged w" using ftx_brelse [OF w(3) insertI1] by auto
  have "fmove H s t"
    using fmove_trans [OF u(4) fmove_trans [OF fmove_mono [OF w(4)] fmove_mono [OF t(3)]]] by auto
  then show ?thesis using u(1,2) w t by (simp add: log_update_def)
qed

subsection \<open>The bitmap\<close>

lemma bit_used_eq: "bit_used bs i \<longleftrightarrow> bit (bs ! (i div 8)) (i mod 8)"
proof -
  have "and x (push_bit n 1) \<noteq> 0 \<longleftrightarrow> bit x n" if "n < 8" for x :: uint8 and n
    using that by (simp add: push_bit_eq_mult and_exp_eq_0_iff_not_bit)
  then show ?thesis by (simp add: bit_used_def)
qed

lemma length_bit_set [simp]: "length (bit_set i bs) = length bs" "length (bit_clear i bs) = length bs"
  by (simp_all add: bit_set_def bit_clear_def)

lemma bit_pos: "i div 8 = j div 8 \<Longrightarrow> i mod 8 = j mod 8 \<longleftrightarrow> i = (j :: nat)"
  by (metis div_mult_mod_eq)

lemma bit_used_set:
  assumes "i < 8 * length bs"
  shows "bit_used (bit_set i bs) j \<longleftrightarrow> j = i \<or> bit_used bs j"
    "bit_used (bit_clear i bs) j \<longleftrightarrow> j \<noteq> i \<and> bit_used bs j"
proof -
  have l: "i div 8 < length bs" using assms by (simp add: less_mult_imp_div_less mult.commute)
  show "bit_used (bit_set i bs) j \<longleftrightarrow> j = i \<or> bit_used bs j"
    using l bit_pos [of i j] by (cases "i div 8 = j div 8") (auto simp: bit_used_eq bit_set_def bit_simps)
  show "bit_used (bit_clear i bs) j \<longleftrightarrow> j \<noteq> i \<and> bit_used bs j"
    using l bit_pos [of i j] by (cases "i div 8 = j div 8") (auto simp: bit_used_eq bit_clear_def bit_simps)
qed

text \<open>
  The layout \<^verbatim>\<open>mkfs\<close> gives the disk: one bitmap block, which is enough for \<^verbatim>\<open>FSSIZE\<close> blocks. \<open>fs_meta\<close>
  are the blocks that are never given to a file: the boot block, the super block, the log, the inodes
  and the bitmap. All of them are marked as used.
\<close>

definition bmb :: "'z fs_state_scheme \<Rightarrow> nat" where
  "bmb s = sb_bmapstart (sb s)"

definition used :: "'z fs_state_scheme \<Rightarrow> nat \<Rightarrow> bool" where
  "used s b \<longleftrightarrow> bit_used (blk s (bmb s)) b"

definition fs_meta :: "'z fs_state_scheme \<Rightarrow> nat \<Rightarrow> bool" where
  "fs_meta s b \<longleftrightarrow> b \<le> 1 \<or> \<not> outside (log_start s) b \<or> b = bmb s
     \<or> sb_inodestart (sb s) \<le> b \<and> b \<le> sb_inodestart (sb s) + sb_ninodes (sb s) div IPB"

definition fs_ok :: "'z fs_state_scheme \<Rightarrow> bool" where
  "fs_ok s \<longleftrightarrow> sb_size (sb s) \<le> BPB \<and> outside (log_start s) (bmb s)
     \<and> (\<forall>n < sb_ninodes (sb s). outside (log_start s) (IBLOCK n (sb s)) \<and> IBLOCK n (sb s) \<noteq> bmb s)
     \<and> (\<forall>b < sb_size (sb s). fs_meta s b \<longrightarrow> used s b)"

lemma fs_okD:
  assumes "fs_ok s"
  shows "sb_size (sb s) \<le> BPB" "outside (log_start s) (bmb s)"
    "n < sb_ninodes (sb s) \<Longrightarrow> outside (log_start s) (IBLOCK n (sb s)) \<and> IBLOCK n (sb s) \<noteq> bmb s"
    "b < sb_size (sb s) \<Longrightarrow> fs_meta s b \<Longrightarrow> used s b"
  using assms by (auto simp: fs_ok_def)

lemma fmove_fs:
  fixes s :: "'z fs_state_scheme"
  assumes "fmove H s t"
  shows "sb t = sb s" "inodes t = inodes s" "mem t = mem s" "scratch t = scratch s" "freelist t = freelist s"
    "kend t = kend s" "tp t = tp s" "log_start t = log_start s"
proof -
  have f: "bio_restore s t = s\<lparr>lh_n := lh_n t, lh_block := lh_block t\<rparr>"
    using assms by (simp add: fmove_def log_frame_eq)
  show "sb t = sb s" "inodes t = inodes s" "mem t = mem s" "scratch t = scratch s" "freelist t = freelist s"
    "kend t = kend s" "tp t = tp s"
    using arg_cong [OF f, of sb] arg_cong [OF f, of inodes] arg_cong [OF f, of mem] arg_cong [OF f, of scratch]
      arg_cong [OF f, of freelist] arg_cong [OF f, of kend] arg_cong [OF f, of tp]
    by (simp_all add: bio_restore_def)
  show "log_start t = log_start s" by (rule fmove_fields [OF assms])
qed

lemma fmove_bmb:
  assumes "fmove H s t"
  shows "bmb t = bmb s" "fs_meta t b \<longleftrightarrow> fs_meta s b"
  using fmove_fs [OF assms] by (simp_all add: bmb_def fs_meta_def)

subsection \<open>Allocating and freeing blocks\<close>

lemma bzero_update: "bzero ROOTDEV b = log_update b (\<lambda>_. replicate BSIZE 0)"
  by (simp add: bzero_def log_update_def)

lemma group_starts_one: "0 < sz \<Longrightarrow> sz \<le> BPB \<Longrightarrow> group_starts sz = [0]"
proof -
  assume "0 < sz" "sz \<le> BPB"
  then have "(sz + BPB - 1) div BPB = 1" by (intro div_nat_eqI) auto
  then show ?thesis by (simp add: group_starts_def)
qed

lemma BBLOCK_one: "b < BPB \<Longrightarrow> BBLOCK b (sb s) = bmb s"
  by (simp add: BBLOCK_def bmb_def)

text \<open>The buffers a caller may hold: those of used blocks other than the bitmap.\<close>

definition holds_used :: "nat set \<Rightarrow> 'z fs_state_scheme \<Rightarrow> bool" where
  "holds_used H s \<longleftrightarrow> (\<forall>i\<in>H. blockno (bufs s i) \<noteq> bmb s \<and> used s (blockno (bufs s i)))"

lemma balloc_group_ok:
  fixes s :: "'z fs_state_scheme"
  assumes tx: "ftx p H s" and fs: "fs_ok s" and H: "holds_used H s" and room: "length (logged s) + card H + 1 < NBUF"
  defines "r \<equiv> find (\<lambda>b. \<not> used s b) [0..<sb_size (sb s)]"
  shows "\<exists>t. balloc_group ROOTDEV 0 s = Ret r t \<and> ftx p H t \<and> fmove H s t
    \<and> (case r of None \<Rightarrow> blk t = blk s \<and> logged t = logged s
       | Some b \<Rightarrow> blk t = (blk s)(bmb s := bit_set b (blk s (bmb s)), b := replicate BSIZE 0)
           \<and> logged t = log_add (log_add (logged s) (bmb s)) b)"
proof -
  have B: "BBLOCK 0 (sb s) = bmb s" by (simp add: BBLOCK_one BPB_def BSIZE_def)
  have sz: "min BPB (sb_size (sb s) - 0) = sb_size (sb s)" using fs_okD(1) [OF fs] by simp
  obtain i u where u: "bread ROOTDEV (bmb s) s = Ret i u" "i \<notin> H" "ftx p (insert i H) u" "fmove H s u"
      "blockno (bufs u i) = bmb s" "bdata (bufs u i) = blk s (bmb s)" "blk u = blk s" "logged u = logged s"
    using ftx_bread [OF tx, of "bmb s"] H room by (auto simp: holds_used_def)
  show ?thesis
  proof (cases r)
    case None
    obtain t where t: "brelse i u = Ret () t" "ftx p (insert i H - {i}) t" "fmove (insert i H) u t" "blk t = blk u"
      "logged t = logged u" using ftx_brelse [OF u(3) insertI1] by auto
    have "fmove H s t" using fmove_trans [OF u(4) fmove_mono [OF t(3)]] by auto
    then show ?thesis
      using None u t sz unfolding r_def by (simp add: balloc_group_def B bytes_of_def used_def)
  next
    case (Some b)
    then have b: "b < sb_size (sb s)" "\<not> used s b" by (auto simp: r_def find_Some_iff)
    have lb: "length (logged u) < LOGBLOCKS" using room u(8) by (simp add: NBUF_def LOGBLOCKS_def)
    have len: "length (bit_set b (blk u (bmb s))) = BSIZE" using ftx_blk_length [OF u(3)] by simp
    obtain v w where w: "set_bytes i (bit_set b) u = Ret () v" "log_write i v = Ret () w" "ftx p (insert i H) w"
        "fmove (insert i H) u w" "blk w = (blk s)(bmb s := bit_set b (blk s (bmb s)))"
        "logged w = log_add (logged s) (bmb s)"
      using ftx_modify [where f = "bit_set b", OF u(3) insertI1 u(5) lb _ len] fs_okD(2) [OF fs] fmove_fs(8) [OF u(4)] u(7,8) by auto
    obtain x where x: "brelse i w = Ret () x" "ftx p H x" "fmove (insert i H) w x" "blk x = blk w" "logged x = logged w"
      using ftx_brelse [OF w(3) insertI1] u(2) by auto
    have m: "fmove H s x"
      using fmove_trans [OF u(4) fmove_trans [OF fmove_mono [OF w(4)] fmove_mono [OF x(3)]]] by auto
    have "blockno (bufs x j) \<noteq> b" if "j \<in> H" for j
      using that H b(2) m by (auto simp: holds_used_def fmove_def)
    moreover have "outside (log_start x) b" using fs_okD(4) [OF fs b(1)] b(2) fmove_fs(8) [OF m] by (auto simp: fs_meta_def)
    moreover have "length (logged x) + card H < NBUF"
      using room w(6) x(5) length_log_add [of "logged s" "bmb s"] by simp
    ultimately obtain t where t: "log_update b (\<lambda>_. replicate BSIZE 0) x = Ret () t" "ftx p H t" "fmove H x t"
        "blk t = (blk x)(b := replicate BSIZE 0)" "logged t = log_add (logged x) b"
      using ftx_update [OF x(2), of b "\<lambda>_. replicate BSIZE 0"] by auto
    show ?thesis
      using Some u w x t sz fmove_trans [OF m t(3)] unfolding r_def
      by (simp add: balloc_group_def B bytes_of_def used_def bzero_update)
  qed
qed

text \<open>What \<^verbatim>\<open>balloc\<close> gives: the first free block, or 0 when the disk is full.\<close>

definition first_free :: "'z fs_state_scheme \<Rightarrow> nat option" where
  "first_free s = find (\<lambda>b. \<not> used s b) [0..<sb_size (sb s)]"

definition allocated :: "nat \<Rightarrow> 'z fs_state_scheme \<Rightarrow> 'z fs_state_scheme \<Rightarrow> bool" where
  "allocated b s t \<longleftrightarrow> blk t = (blk s)(bmb s := bit_set b (blk s (bmb s)), b := replicate BSIZE 0)
     \<and> logged t = log_add (log_add (logged s) (bmb s)) b"

lemma fmove_print:
  assumes "lkok s"
  shows "fmove H s ((touch s)\<lparr>kout := o1\<rparr>)"
  using assms by (simp add: fmove_def log_frame_eq calm_def) (simp add: bio_restore_def touch_def)

lemma frd_cong:
  assumes "fmove H s t" "bufs t = bufs s" "disk t = disk s" "bnext t = bnext s" "bprev t = bprev s"
    "slocks t = slocks s" "mypid t = mypid s" "lh_n t = lh_n s" "lh_block t = lh_block s"
  shows "frd p H s \<Longrightarrow> frd p H t" "ftx p H s \<Longrightarrow> ftx p H t" "blk t = blk s" "logged t = logged s"
proof -
  have b: "bio_ok P H t = bio_ok P H s" for P using assms by (intro bio_ok_cong) auto
  have x: "txn_ok P t = txn_ok P s" for P
    using assms log_frame_fields(1,2) [of s t] by (simp add: txn_ok_def log_wf_def logged_def fmove_def)
  show f: "frd p H s \<Longrightarrow> frd p H t"
    using assms b x calm_idle [of s t p] by (auto simp: frd_def fmove_def)
  show "ftx p H s \<Longrightarrow> ftx p H t" using f ftx_move [OF _ assms(1)] ftx_frd by blast
  show "blk t = blk s" using assms(2,3) by (intro ext) (simp add: blk_def split: option.split)
  show "logged t = logged s" using assms(8,9) by (simp add: logged_def)
qed

lemma balloc_ok:
  fixes s :: "'z fs_state_scheme"
  assumes tx: "ftx p H s" and fs: "fs_ok s" and H: "holds_used H s" and room: "length (logged s) + card H + 1 < NBUF"
  shows "\<exists>t. balloc ROOTDEV s = Ret (case first_free s of None \<Rightarrow> 0 | Some b \<Rightarrow> b) t \<and> ftx p H t \<and> fmove H s t
    \<and> (case first_free s of None \<Rightarrow> blk t = blk s \<and> logged t = logged s | Some b \<Rightarrow> allocated b s t)"
proof -
  have full: "\<exists>t. kseq (printf (''balloc: out of blocks'' @ [CHR 0x0A]) []) (kret 0) u = Ret 0 t \<and> ftx p H t \<and> fmove H s t
      \<and> blk t = blk s \<and> logged t = logged s"
    if u: "ftx p H u" "fmove H s u" "blk u = blk s" "logged u = logged s" for u :: "'z fs_state_scheme"
  proof -
    have out: "printf_out (''balloc: out of blocks'' @ [CHR 0x0A]) [] = Some (''balloc: out of blocks'' @ [CHR 0x0A])"
      by code_simp
    have lk: "lkok u" "held u = {}" using ftx_idle(1) [OF u(1)] by (auto simp: idle_def)
    let ?t = "(touch u)\<lparr>kout := kout u @ ''balloc: out of blocks'' @ [CHR 0x0A]\<rparr>"
    have "ftx p H ?t" "blk ?t = blk u" "logged ?t = logged u"
      by (rule frd_cong(2-4) [OF fmove_print [OF lk(1), of H]]; simp add: mypid_def u(1))+
    then show ?thesis using printf_eq [OF out lk(1)] lk(2) u fmove_trans [OF u(2) fmove_print [OF lk(1)]] by simp
  qed
  show ?thesis
  proof (cases "sb_size (sb s) = 0")
    case True
    then show ?thesis using full [of s] tx by (simp add: balloc_def first_free_def group_starts_def BPB_def BSIZE_def)
  next
    case False
    then have g: "group_starts (sb_size (sb s)) = [0]" using fs_okD(1) [OF fs] by (intro group_starts_one) auto
    obtain u where u: "balloc_group ROOTDEV 0 s = Ret (first_free s) u" "ftx p H u" "fmove H s u"
      "case first_free s of None \<Rightarrow> blk u = blk s \<and> logged u = logged s | Some b \<Rightarrow> allocated b s u"
      using balloc_group_ok [OF tx fs H room] unfolding first_free_def allocated_def by blast
    show ?thesis
      using u full [of u] g by (cases "first_free s") (auto simp: balloc_def)
  qed
qed

lemma bfree_ok:
  fixes s :: "'z fs_state_scheme"
  assumes tx: "ftx p H s" and fs: "fs_ok s" and H: "\<And>i. i \<in> H \<Longrightarrow> blockno (bufs s i) \<noteq> bmb s"
    and room: "length (logged s) + card H < NBUF" and b: "b < sb_size (sb s)" "used s b"
  shows "\<exists>t. bfree ROOTDEV b s = Ret () t \<and> ftx p H t \<and> fmove H s t
    \<and> blk t = (blk s)(bmb s := bit_clear b (blk s (bmb s))) \<and> logged t = log_add (logged s) (bmb s)"
proof -
  have bp: "b < BPB" using b(1) fs_okD(1) [OF fs] by simp
  obtain i u where u: "bread ROOTDEV (bmb s) s = Ret i u" "i \<notin> H" "ftx p (insert i H) u" "fmove H s u"
      "blockno (bufs u i) = bmb s" "bdata (bufs u i) = blk s (bmb s)" "blk u = blk s" "logged u = logged s"
    using ftx_bread [OF tx H room] by auto
  have lb: "length (logged u) < LOGBLOCKS" using room u(8) by (simp add: NBUF_def LOGBLOCKS_def)
  have len: "length (bit_clear b (blk u (bmb s))) = BSIZE" using ftx_blk_length [OF u(3)] by simp
  obtain v w where w: "set_bytes i (bit_clear b) u = Ret () v" "log_write i v = Ret () w" "ftx p (insert i H) w"
      "fmove (insert i H) u w" "blk w = (blk s)(bmb s := bit_clear b (blk s (bmb s)))" "logged w = log_add (logged s) (bmb s)"
    using ftx_modify [where f = "bit_clear b", OF u(3) insertI1 u(5) lb _ len] fs_okD(2) [OF fs] fmove_fs(8) [OF u(4)] u(7,8)
    by auto
  obtain t where t: "brelse i w = Ret () t" "ftx p H t" "fmove (insert i H) w t" "blk t = blk w" "logged t = logged w"
    using ftx_brelse [OF w(3) insertI1] u(2) by auto
  have "fmove H s t" using fmove_trans [OF u(4) fmove_trans [OF fmove_mono [OF w(4)] fmove_mono [OF t(3)]]] by auto
  moreover have "bit_used (blk s (bmb s)) (b mod BPB)" using b(2) bp by (simp add: used_def)
  ultimately show ?thesis using u w t bp BBLOCK_one [OF bp, of s] by (simp add: bfree_def bytes_of_def)
qed

lemma bfree_free:
  fixes s :: "'z fs_state_scheme"
  assumes tx: "ftx p H s" and fs: "fs_ok s" and H: "\<And>i. i \<in> H \<Longrightarrow> blockno (bufs s i) \<noteq> bmb s"
    and room: "length (logged s) + card H < NBUF" and b: "b < sb_size (sb s)" "\<not> used s b"
  shows "\<exists>t. bfree ROOTDEV b s = Halt (Panic ''freeing free block'') t"
proof -
  have bp: "b < BPB" using b(1) fs_okD(1) [OF fs] by simp
  obtain i u where u: "bread ROOTDEV (bmb s) s = Ret i u" "bdata (bufs u i) = blk s (bmb s)"
    using ftx_bread [OF tx H room] by auto
  moreover have "\<not> bit_used (blk s (bmb s)) (b mod BPB)" using b(2) bp by (simp add: used_def)
  ultimately show ?thesis using BBLOCK_one [OF bp, of s] by (simp add: bfree_def bytes_of_def)
qed
end
