(* ===== verification/Fsmap.thy ===== *)
theory Fsmap
  imports Fsblocks
begin

section \<open>The block map of a file\<close>

text \<open>
  The map from the blocks of a file to the blocks of the disk (\<^verbatim>\<open>bmap\<close>) and reading and writing
  through it (\<^verbatim>\<open>readi\<close>, \<^verbatim>\<open>writei\<close>). \<open>faddr s ip bn\<close> is the address of block \<open>bn\<close> of the file, 0 when
  it has none.
\<close>

definition ind_of :: "'z fs_state_scheme \<Rightarrow> nat \<Rightarrow> nat" where
  "ind_of s ip = iaddrs (inodes s ip) ! NDIRECT"

definition faddr :: "'z fs_state_scheme \<Rightarrow> nat \<Rightarrow> nat \<Rightarrow> nat" where
  "faddr s ip bn =
     (if bn < NDIRECT then iaddrs (inodes s ip) ! bn
      else if ind_of s ip = 0 then 0
      else unat (get32 (bn - NDIRECT) (blk s (ind_of s ip))))"

text \<open>
  The blocks of a file are different, marked as used, and none of them is a block of the file
  system's own.
\<close>

definition file_block :: "'z fs_state_scheme \<Rightarrow> nat \<Rightarrow> bool" where
  "file_block s a \<longleftrightarrow> a < sb_size (sb s) \<and> used s a \<and> \<not> fs_meta s a"

definition imap_ok :: "'z fs_state_scheme \<Rightarrow> nat \<Rightarrow> bool" where
  "imap_ok s ip \<longleftrightarrow> length (iaddrs (inodes s ip)) = Suc NDIRECT \<and> idev (inodes s ip) = ROOTDEV
     \<and> inum (inodes s ip) < sb_ninodes (sb s)
     \<and> (ind_of s ip \<noteq> 0 \<longrightarrow> file_block s (ind_of s ip))
     \<and> (\<forall>bn<MAXFILE. faddr s ip bn \<noteq> 0 \<longrightarrow> file_block s (faddr s ip bn) \<and> faddr s ip bn \<noteq> ind_of s ip)
     \<and> (\<forall>bn<MAXFILE. \<forall>k<MAXFILE. faddr s ip bn \<noteq> 0 \<and> faddr s ip bn = faddr s ip k \<longrightarrow> bn = k)"

lemma imap_okD:
  assumes "imap_ok s ip"
  shows "length (iaddrs (inodes s ip)) = Suc NDIRECT" "idev (inodes s ip) = ROOTDEV"
    "inum (inodes s ip) < sb_ninodes (sb s)" "ind_of s ip \<noteq> 0 \<Longrightarrow> file_block s (ind_of s ip)"
    "bn < MAXFILE \<Longrightarrow> faddr s ip bn \<noteq> 0 \<Longrightarrow> file_block s (faddr s ip bn) \<and> faddr s ip bn \<noteq> ind_of s ip"
    "bn < MAXFILE \<Longrightarrow> k < MAXFILE \<Longrightarrow> faddr s ip bn \<noteq> 0 \<Longrightarrow> faddr s ip bn = faddr s ip k \<Longrightarrow> bn = k"
  using assms by (auto simp: imap_ok_def)

subsection \<open>Machine operations and the fields of the file system\<close>

lemma fs_touch [simp]:
  "sb (touch s) = sb s" "touch (s\<lparr>sb := x0\<rparr>) = (touch s)\<lparr>sb := x0\<rparr>"
  "inodes (touch s) = inodes s" "touch (s\<lparr>inodes := x1\<rparr>) = (touch s)\<lparr>inodes := x1\<rparr>"
  by (simp_all add: touch_def)

lemma fs_entered [simp]:
  "sb (entered lk s) = sb s" "entered lk (s\<lparr>sb := x0\<rparr>) = (entered lk s)\<lparr>sb := x0\<rparr>"
  "inodes (entered lk s) = inodes s" "entered lk (s\<lparr>inodes := x1\<rparr>) = (entered lk s)\<lparr>inodes := x1\<rparr>"
  by (simp_all add: entered_def)

lemma fs_left [simp]:
  "sb (left lk s) = sb s" "left lk (s\<lparr>sb := x0\<rparr>) = (left lk s)\<lparr>sb := x0\<rparr>"
  "inodes (left lk s) = inodes s" "left lk (s\<lparr>inodes := x1\<rparr>) = (left lk s)\<lparr>inodes := x1\<rparr>"
  by (simp_all add: left_def)

lemma fs_lkok [simp]:
  "held (s\<lparr>sb := x0\<rparr>) = held s" "lkok (s\<lparr>sb := x0\<rparr>) = lkok s"
  "held (s\<lparr>inodes := x1\<rparr>) = held s" "lkok (s\<lparr>inodes := x1\<rparr>) = lkok s"
  by (simp_all add: held_def lkok_def holds_def lock_mine_def lock_free_def)

lemma fs_wakeall [simp]:
  "sb (wakeall c s) = sb s" "wakeall c (s\<lparr>sb := x0\<rparr>) = (wakeall c s)\<lparr>sb := x0\<rparr>"
  "inodes (wakeall c s) = inodes s" "wakeall c (s\<lparr>inodes := x1\<rparr>) = (wakeall c s)\<lparr>inodes := x1\<rparr>"
  by (simp_all add: wakeall_def cong: if_cong)

text \<open>Changes of the inode table.\<close>

lemma inodes_log [simp]:
  "bio_restore (s\<lparr>inodes := x\<rparr>) t = bio_restore s t"
  "bio_restore s (t\<lparr>inodes := x\<rparr>) = (bio_restore s t)\<lparr>inodes := x\<rparr>"
  "calm (s\<lparr>inodes := x\<rparr>) t = calm s t" "calm s (t\<lparr>inodes := x\<rparr>) = calm s t"
  "idle p (s\<lparr>inodes := x\<rparr>) = idle p s"
  by (simp_all add: bio_restore_def calm_def idle_def)

lemma inodes_blocks [simp]:
  "bio_ok P H (s\<lparr>inodes := x\<rparr>) = bio_ok P H s" "blk (s\<lparr>inodes := x\<rparr>) = blk s"
  by (rule bio_ok_cong; simp add: mypid_def)+

lemma inodes_ftx [simp]:
  "ftx p H (s\<lparr>inodes := x\<rparr>) = ftx p H s" "logged (s\<lparr>inodes := x\<rparr>) = logged s" "bmb (s\<lparr>inodes := x\<rparr>) = bmb s"
  "used (s\<lparr>inodes := x\<rparr>) = used s" "fs_meta (s\<lparr>inodes := x\<rparr>) = fs_meta s" "fs_ok (s\<lparr>inodes := x\<rparr>) = fs_ok s"
  "file_block (s\<lparr>inodes := x\<rparr>) = file_block s" "first_free (s\<lparr>inodes := x\<rparr>) = first_free s"
  "holds_used H (s\<lparr>inodes := x\<rparr>) = holds_used H s"
  by (simp_all add: ftx_def frd_def txn_ok_def log_wf_def logged_def bmb_def used_def fun_eq_iff fs_meta_def fs_ok_def
      file_block_def first_free_def holds_used_def)

text \<open>A move that may change the inode table.\<close>

definition smove :: "'z fs_state_scheme \<Rightarrow> 'z fs_state_scheme \<Rightarrow> bool" where
  "smove s t \<longleftrightarrow> fmove {} (s\<lparr>inodes := inodes t\<rparr>) t"

lemma smove_fmove: "fmove H s t \<Longrightarrow> smove s t"
  using fmove_mono [of H s t "{}"] fmove_fs(2) [of H s t] by (simp add: smove_def)

lemma fmove_inodes: "fmove {} (s\<lparr>inodes := x\<rparr>) (t\<lparr>inodes := x\<rparr>) \<longleftrightarrow> (\<exists>y. fmove {} (s\<lparr>inodes := y\<rparr>) (t\<lparr>inodes := y\<rparr>))"
  by (auto simp: fmove_def log_frame_eq dest: arg_cong [where f = "inodes_update (\<lambda>_. x)"])

lemma smove_inodes [simp]: "smove s (s\<lparr>inodes := x\<rparr>)"
  by (simp add: smove_def)

lemma smove_trans:
  assumes "smove s t" "smove t u"
  shows "smove s u"
proof -
  have "fmove {} (s\<lparr>inodes := inodes t\<rparr>) (t\<lparr>inodes := inodes t\<rparr>)" using assms(1) by (simp add: smove_def)
  then have "fmove {} (s\<lparr>inodes := inodes u\<rparr>) (t\<lparr>inodes := inodes u\<rparr>)" using fmove_inodes by blast
  then show ?thesis using assms(2) fmove_trans unfolding smove_def by blast
qed

lemma smove_fields:
  assumes "smove s t"
  shows "sb t = sb s" "mem t = mem s" "scratch t = scratch s" "freelist t = freelist s"
    "kend t = kend s" "tp t = tp s" "log_start t = log_start s" "calm s t"
  using fmove_fs [OF assms [unfolded smove_def]] assms by (auto simp: smove_def fmove_def)

lemma smove_bmb:
  assumes "smove s t"
  shows "bmb t = bmb s" "fs_meta t b \<longleftrightarrow> fs_meta s b"
  using smove_fields [OF assms] by (simp_all add: bmb_def fs_meta_def)

subsection \<open>The block map\<close>

lemma alloc_facts:
  fixes s :: "'z fs_state_scheme"
  assumes fs: "fs_ok s" and b: "first_free s = Some b" and al: "allocated b s t" and mv: "smove s t"
    and len: "length (blk s (bmb s)) = BSIZE"
  shows "b < sb_size (sb s)" "\<not> used s b" "\<not> fs_meta s b" "b \<noteq> 0" "b \<noteq> bmb s"
    "used t c \<longleftrightarrow> c = b \<or> used s c" "blk t b = replicate BSIZE 0" "c \<noteq> b \<Longrightarrow> c \<noteq> bmb s \<Longrightarrow> blk t c = blk s c"
    "fs_ok t" "file_block t b" "file_block s c \<Longrightarrow> file_block t c"
proof -
  show b1: "b < sb_size (sb s)" and b2: "\<not> used s b" using b by (auto simp: first_free_def find_Some_iff)
  show b3: "\<not> fs_meta s b" using fs_okD(4) [OF fs b1] b2 by blast
  then show "b \<noteq> 0" and b4: "b \<noteq> bmb s" by (auto simp: fs_meta_def)
  note m = smove_bmb [OF mv] smove_fields [OF mv]
  have "b < 8 * length (blk s (bmb s))" using b1 fs_okD(1) [OF fs] len by (simp add: BPB_def)
  then show u: "used t c \<longleftrightarrow> c = b \<or> used s c" for c
    using al b4 m(1) bit_used_set(1) by (simp add: used_def allocated_def)
  show "blk t b = replicate BSIZE 0" and "c \<noteq> b \<Longrightarrow> c \<noteq> bmb s \<Longrightarrow> blk t c = blk s c"
    using al by (simp_all add: allocated_def)
  show "fs_ok t" using fs m u by (simp add: fs_ok_def)
  show "file_block t b" using b1 b3 u m by (simp add: file_block_def)
  show "file_block s c \<Longrightarrow> file_block t c" using u m by (auto simp: file_block_def)
qed

definition fresh_block :: "'z fs_state_scheme \<Rightarrow> 'z fs_state_scheme \<Rightarrow> nat \<Rightarrow> bool" where
  "fresh_block s t a \<longleftrightarrow> \<not> used s a \<and> file_block t a"

lemma imap_ok_step:
  assumes ok: "imap_ok s ip" and same: "length (iaddrs (inodes t ip)) = Suc NDIRECT" "idev (inodes t ip) = ROOTDEV"
      "inum (inodes t ip) = inum (inodes s ip)" "sb t = sb s"
    and fb: "\<And>a. file_block s a \<Longrightarrow> file_block t a"
    and k: "\<And>k. k < MAXFILE \<Longrightarrow> k \<noteq> bn \<Longrightarrow> faddr t ip k = faddr s ip k"
    and bn: "faddr t ip bn = faddr s ip bn \<or> fresh_block s t (faddr t ip bn)"
    and ind: "ind_of t ip = ind_of s ip \<or> fresh_block s t (ind_of t ip)"
    and ne: "faddr t ip bn \<noteq> 0 \<Longrightarrow> faddr t ip bn \<noteq> ind_of t ip"
  shows "imap_ok t ip"
proof -
  note d = imap_okD [OF ok]
  have old: "used s (faddr s ip k)" "file_block t (faddr s ip k)" if "k < MAXFILE" "faddr s ip k \<noteq> 0" for k
    using d(5) [OF that] fb by (auto simp: file_block_def)
  have at: "faddr t ip k = faddr s ip k \<or> k = bn \<and> fresh_block s t (faddr t ip bn)" if "k < MAXFILE" for k
    using k [OF that] bn by auto
  have "ind_of t ip \<noteq> 0 \<longrightarrow> file_block t (ind_of t ip)" using ind d(4) fb by (auto simp: fresh_block_def)
  moreover have "file_block t (faddr t ip k) \<and> faddr t ip k \<noteq> ind_of t ip" if "k < MAXFILE" "faddr t ip k \<noteq> 0" for k
    using at [OF that(1)] old [of k] that ne ind d(5) [of k] by (cases "k = bn") (auto simp: fresh_block_def)
  moreover have "i = j" if "i < MAXFILE" "j < MAXFILE" "faddr t ip i \<noteq> 0" "faddr t ip i = faddr t ip j" for i j
    using at [OF that(1)] at [OF that(2)] old(1) [of i] old(1) [of j] that d(6) [of i j] by (auto simp: fresh_block_def)
  ultimately show ?thesis using same d(3) by (auto simp: imap_ok_def)
qed

text \<open>
  What a call on the file \<open>ip\<close> does to everything else: it changes no used block but the bitmap and
  the file's own indirect block.
\<close>

definition kept :: "nat \<Rightarrow> 'z fs_state_scheme \<Rightarrow> 'z fs_state_scheme \<Rightarrow> bool" where
  "kept ip s t \<longleftrightarrow> smove s t \<and> inodes t = (inodes s)(ip := (inodes s ip)\<lparr>iaddrs := iaddrs (inodes t ip)\<rparr>)
     \<and> (\<forall>c. used s c \<longrightarrow> used t c)
     \<and> (ind_of t ip = ind_of s ip \<or> ind_of s ip = 0 \<and> \<not> used s (ind_of t ip))
     \<and> (\<forall>c. used s c \<and> c \<noteq> bmb s \<and> c \<noteq> ind_of s ip \<longrightarrow> blk t c = blk s c)"

lemma kept_refl: "kept ip s s"
  by (simp add: kept_def smove_fmove [OF fmove_refl])

lemma kept_fmove:
  fixes s :: "'z fs_state_scheme"
  assumes "fmove H s t" "blk t = blk s"
  shows "kept ip s t"
  using assms fmove_fs(2) [OF assms(1)] fmove_bmb(1) [OF assms(1)]
  by (simp add: kept_def smove_fmove [OF assms(1)] used_def ind_of_def)

lemma kept_trans:
  assumes "kept ip s t" "kept ip t u"
  shows "kept ip s u"
proof -
  have a: "smove s t" "inodes t = (inodes s)(ip := (inodes s ip)\<lparr>iaddrs := iaddrs (inodes t ip)\<rparr>)"
    "\<And>c. used s c \<Longrightarrow> used t c" "ind_of t ip = ind_of s ip \<or> ind_of s ip = 0 \<and> \<not> used s (ind_of t ip)"
    "\<And>c. used s c \<Longrightarrow> c \<noteq> bmb s \<Longrightarrow> c \<noteq> ind_of s ip \<Longrightarrow> blk t c = blk s c"
    using assms(1) by (auto simp: kept_def)
  have b: "smove t u" "inodes u = (inodes t)(ip := (inodes t ip)\<lparr>iaddrs := iaddrs (inodes u ip)\<rparr>)"
    "\<And>c. used t c \<Longrightarrow> used u c" "ind_of u ip = ind_of t ip \<or> ind_of t ip = 0 \<and> \<not> used t (ind_of u ip)"
    "\<And>c. used t c \<Longrightarrow> c \<noteq> bmb t \<Longrightarrow> c \<noteq> ind_of t ip \<Longrightarrow> blk u c = blk t c"
    using assms(2) by (auto simp: kept_def)
  have "inodes u = (inodes s)(ip := (inodes s ip)\<lparr>iaddrs := iaddrs (inodes u ip)\<rparr>)"
    by (subst b(2), subst a(2)) (metis (no_types, lifting) a(2) fun_upd_same fun_upd_upd inode.surjective inode.update_convs(10))
  moreover have "blk u c = blk s c" if "used s c" "c \<noteq> bmb s" "c \<noteq> ind_of s ip" for c
  proof -
    have "c \<noteq> ind_of t ip" using a(4) that by auto
    then show ?thesis using a(3,5) b(5) that smove_bmb(1) [OF a(1)] by simp
  qed
  moreover have "ind_of u ip = ind_of s ip \<or> ind_of s ip = 0 \<and> \<not> used s (ind_of u ip)"
    using a(3,4) b(4) by (metis)
  ultimately show ?thesis using smove_trans [OF a(1) b(1)] a(3) b(3) by (simp add: kept_def)
qed

text \<open>The two places of \<^verbatim>\<open>bmap\<close> that look at \<^verbatim>\<open>ip->addrs[i]\<close> and allocate a block for it.\<close>

definition bmap_slot :: "nat \<Rightarrow> inode \<Rightarrow> nat \<Rightarrow> ('z fs_state_scheme, nat) km" where
  "bmap_slot ip x i =
     (if iaddrs x ! i \<noteq> 0 then kret (iaddrs x ! i)
      else kbind (balloc (idev x)) (\<lambda>addr.
        if addr = 0 then kret 0
        else kseq (upd_inode ip (\<lambda>x. x\<lparr>iaddrs := (iaddrs x)[i := addr]\<rparr>)) (kret addr)))"

lemma first_free_full: "first_free s = None \<Longrightarrow> b < sb_size (sb s) \<Longrightarrow> used s b"
  by (auto simp: first_free_def find_None_iff)

lemma slot_ok:
  fixes s :: "'z fs_state_scheme"
  assumes tx: "ftx p {} s" and fs: "fs_ok s" and ok: "imap_ok s ip" and i: "i \<le> NDIRECT"
    and room: "length (logged s) + 1 < NBUF" and old: "iaddrs (inodes s ip) ! i = 0"
  shows "\<exists>a t. bmap_slot ip (inodes s ip) i s = Ret a t \<and> ftx p {} t \<and> fs_ok t \<and> smove s t
    \<and> inodes t = (inodes s)(ip := (inodes s ip)\<lparr>iaddrs := (iaddrs (inodes s ip))[i := a]\<rparr>)
    \<and> (\<forall>c. file_block s c \<longrightarrow> file_block t c) \<and> (\<forall>c. used s c \<longrightarrow> used t c)
    \<and> (\<forall>c. used t c \<longrightarrow> used s c \<or> c = a \<and> a \<noteq> 0) \<and> (\<forall>c. used s c \<and> c \<noteq> bmb s \<longrightarrow> blk t c = blk s c)
    \<and> (if a = 0 then first_free s = None \<and> blk t = blk s \<and> logged t = logged s
       else fresh_block s t a \<and> blk t a = replicate BSIZE 0 \<and> set (logged t) = set (logged s) \<union> {bmb s, a})"
proof -
  have H: "holds_used {} s" by (simp add: holds_used_def)
  have dev: "idev (inodes s ip) = ROOTDEV" by (rule imap_okD(2) [OF ok])
  obtain t where t: "balloc ROOTDEV s = Ret (case first_free s of None \<Rightarrow> 0 | Some b \<Rightarrow> b) t" "ftx p {} t" "fmove {} s t"
    "case first_free s of None \<Rightarrow> blk t = blk s \<and> logged t = logged s | Some b \<Rightarrow> allocated b s t"
    using balloc_ok [OF tx fs H] room by auto
  note m = smove_fmove [OF t(3)] and ino = fmove_fs(2) [OF t(3)]
  show ?thesis
  proof (cases "first_free s")
    case None
    have u: "used t = used s" using None t(4) fmove_bmb [OF t(3)] by (simp add: used_def fun_eq_iff)
    moreover have "fs_ok t" "\<forall>c. file_block s c \<longrightarrow> file_block t c"
      using fs u fmove_bmb [OF t(3)] fmove_fs [OF t(3)] by (auto simp: fs_ok_def file_block_def)
    moreover have "inodes t = (inodes s)(ip := (inodes s ip)\<lparr>iaddrs := (iaddrs (inodes s ip))[i := 0]\<rparr>)"
      using ino old by (metis fun_upd_triv inode.surjective inode.update_convs(10) list_update_id)
    moreover have "bmap_slot ip (inodes s ip) i s = Ret 0 t" using old t(1) None dev by (simp add: bmap_slot_def)
    ultimately show ?thesis using t m None by (intro exI [of _ 0] exI [of _ t]) simp
  next
    case (Some b)
    then have al: "allocated b s t" using t(4) by simp
    note f = alloc_facts [OF fs Some al m ftx_blk_length [OF tx]]
    let ?t = "t\<lparr>inodes := (inodes s)(ip := (inodes s ip)\<lparr>iaddrs := (iaddrs (inodes s ip))[i := b]\<rparr>)\<rparr>"
    have run: "bmap_slot ip (inodes s ip) i s = Ret b ?t"
      using old t(1) Some dev ino f(4) by (simp add: bmap_slot_def upd_inode_def)
    have blk: "blk t c = blk s c" if "used s c" "c \<noteq> bmb s" for c
      using f(8) [of c] f(2) that by metis
    have lg: "set (logged t) = set (logged s) \<union> {bmb s, b}" using al by (auto simp: allocated_def)
    show ?thesis
      using run t(2) f(2,4,6,7,9-11) blk lg smove_trans [OF m smove_inodes]
      by (intro exI [of _ b] exI [of _ ?t]) (simp add: fresh_block_def)
  qed
qed

definition bmap_entry :: "nat \<Rightarrow> nat \<Rightarrow> nat \<Rightarrow> ('z fs_state_scheme, nat) km" where
  "bmap_entry dev ind k =
     kbind (bread dev ind) (\<lambda>bp.
     kbind (bytes_of bp) (\<lambda>bs.
     kbind (if get32 k bs \<noteq> 0 then kret (unat (get32 k bs))
            else kbind (balloc dev) (\<lambda>addr.
              kseq (kwhen (addr \<noteq> 0) (kdo [set_bytes bp (put32 k (of_nat addr)), log_write bp])) (kret addr))) (\<lambda>addr.
     kseq (brelse bp) (kret addr))))"

lemma bmap_eq:
  "bmap ip bn s =
     (if bn < NDIRECT then bmap_slot ip (inodes s ip) bn s
      else if bn - NDIRECT < NINDIRECT then
        kbind (bmap_slot ip (inodes s ip) NDIRECT) (\<lambda>ind.
          if ind = 0 then kret 0 else bmap_entry (idev (inodes s ip)) ind (bn - NDIRECT)) s
      else panic ''bmap: out of range'' s)"
  unfolding bmap_def bmap_slot_def bmap_entry_def Let_def by simp

text \<open>What \<^verbatim>\<open>bmap\<close> returns and leaves. A block that it allocates is a block of the file: none is lost.\<close>

definition fblock :: "'z fs_state_scheme \<Rightarrow> nat \<Rightarrow> nat \<Rightarrow> bool" where
  "fblock s ip c \<longleftrightarrow> c \<noteq> 0 \<and> (c = ind_of s ip \<or> c \<in> faddr s ip ` {..<MAXFILE})"

definition bmap_post :: "nat \<Rightarrow> nat \<Rightarrow> 'z fs_state_scheme \<Rightarrow> nat \<Rightarrow> 'z fs_state_scheme \<Rightarrow> bool" where
  "bmap_post ip bn s a t \<longleftrightarrow> fs_ok t \<and> imap_ok t ip \<and> kept ip s t \<and> faddr t ip bn = a
     \<and> (\<forall>k<MAXFILE. k \<noteq> bn \<longrightarrow> faddr t ip k = faddr s ip k)
     \<and> (faddr s ip bn \<noteq> 0 \<longrightarrow> a = faddr s ip bn \<and> blk t = blk s \<and> logged t = logged s)
     \<and> (faddr s ip bn = 0 \<and> a \<noteq> 0 \<longrightarrow> blk t a = replicate BSIZE 0 \<and> \<not> used s a)
     \<and> (a = 0 \<longrightarrow> (\<forall>b < sb_size (sb t). used t b)) \<and> (\<forall>c. used t c \<longrightarrow> used s c \<or> fblock t ip c)
     \<and> set (logged t) \<subseteq> set (logged s) \<union> {bmb s, a} \<union> ({ind_of t ip} - {0})"

lemma same_file:
  fixes s :: "'z fs_state_scheme"
  assumes "fmove H s t" "blk t = blk s"
  shows "faddr t ip bn = faddr s ip bn" "imap_ok t ip = imap_ok s ip" "fs_ok t = fs_ok s" "used t = used s"
    "ind_of t ip = ind_of s ip" "file_block t a = file_block s a" "first_free t = first_free s"
    "fblock t ip a = fblock s ip a"
proof -
  note m = fmove_bmb [OF assms(1)] fmove_fs [OF assms(1)] assms(2)
  show u: "used t = used s" using m by (simp add: used_def fun_eq_iff)
  show i: "ind_of t ip = ind_of s ip" and f: "faddr t ip bn = faddr s ip bn" for bn
    using m by (simp_all add: ind_of_def faddr_def)
  show b: "file_block t a = file_block s a" for a using m u by (simp add: file_block_def)
  show "imap_ok t ip = imap_ok s ip" using m i f b by (simp add: imap_ok_def)
  show "fs_ok t = fs_ok s" using m u by (simp add: fs_ok_def)
  show "first_free t = first_free s" using m u by (simp add: first_free_def)
  show "fblock t ip a = fblock s ip a" using i f by (simp add: fblock_def)
qed

lemma bmap_post_same:
  assumes "fmove {} s t" "blk t = blk s" "logged t = logged s" "fs_ok s" "imap_ok s ip"
    "faddr s ip bn = a" "a = 0 \<Longrightarrow> first_free s = None"
  shows "bmap_post ip bn s a t"
  using assms same_file [OF assms(1,2)] kept_fmove [OF assms(1,2)] first_free_full [of s] fmove_fs(1) [OF assms(1)]
  by (auto simp: bmap_post_def)

lemma direct_ok:
  fixes s :: "'z fs_state_scheme"
  assumes tx: "ftx p {} s" and fs: "fs_ok s" and ok: "imap_ok s ip" and i: "bn < NDIRECT"
    and room: "length (logged s) + 1 < NBUF"
  shows "\<exists>a t. bmap_slot ip (inodes s ip) bn s = Ret a t \<and> ftx p {} t \<and> bmap_post ip bn s a t"
proof (cases "iaddrs (inodes s ip) ! bn = 0")
  case False
  then have "bmap_slot ip (inodes s ip) bn s = Ret (faddr s ip bn) s" using i by (simp add: bmap_slot_def faddr_def)
  moreover have "bmap_post ip bn s (faddr s ip bn) s"
    using False i fs ok by (intro bmap_post_same) (auto simp: faddr_def)
  ultimately show ?thesis using tx by blast
next
  case True
  note d = imap_okD [OF ok]
  obtain a t where t: "bmap_slot ip (inodes s ip) bn s = Ret a t" "ftx p {} t" "fs_ok t" "smove s t"
    "inodes t = (inodes s)(ip := (inodes s ip)\<lparr>iaddrs := (iaddrs (inodes s ip))[bn := a]\<rparr>)"
    "\<And>c. file_block s c \<Longrightarrow> file_block t c" "\<And>c. used s c \<Longrightarrow> used t c"
    "\<And>c. used s c \<Longrightarrow> c \<noteq> bmb s \<Longrightarrow> blk t c = blk s c"
    and new: "\<And>c. used t c \<Longrightarrow> used s c \<or> c = a \<and> a \<noteq> 0" and t9: "if a = 0 then first_free s = None \<and> blk t = blk s \<and> logged t = logged s
       else fresh_block s t a \<and> blk t a = replicate BSIZE 0 \<and> set (logged t) = set (logged s) \<union> {bmb s, a}"
    using slot_ok [OF tx fs ok less_imp_le [OF i] room True] by blast
  have ind: "ind_of t ip = ind_of s ip" using t(5) i by (simp add: ind_of_def)
  have bi: "blk t (ind_of s ip) = blk s (ind_of s ip)" if "ind_of s ip \<noteq> 0"
    using d(4) [OF that] t(8) by (auto simp: file_block_def fs_meta_def)
  have fa: "faddr t ip k = (if k = bn then a else faddr s ip k)" for k
    using t(5) i d(1) bi ind by (auto simp: faddr_def NDIRECT_def)
  have f0: "faddr s ip bn = 0" using True i by (simp add: faddr_def)
  have kp: "kept ip s t" using t(4,5,7,8) ind by (auto simp: kept_def)
  note m = smove_fields [OF t(4)]
  have "a \<noteq> 0 \<Longrightarrow> a \<noteq> ind_of t ip"
    using t9 ind d(4) by (metis file_block_def fresh_block_def)
  then have im: "imap_ok t ip"
    using t(5,6) t9 d(1,2) m(1) fa f0 ind by (intro imap_ok_step [OF ok, where bn = bn]) (auto split: if_splits)
  have "\<forall>b < sb_size (sb t). used t b" if "a = 0" using that t(7) t9 first_free_full [of s] m(1) by simp
  moreover have "fblock t ip a" if "a \<noteq> 0" using that fa [of bn] i by (auto simp: fblock_def MAXFILE_def image_iff intro: bexI [of _ bn])
  ultimately have "bmap_post ip bn s a t"
    using t(3) t9 im kp fa f0 new by (auto simp: bmap_post_def fresh_block_def split: if_splits)
  then show ?thesis using t(1,2) by blast
qed

lemma get32_zero: "4 * k + 4 \<le> n \<Longrightarrow> get32 k (replicate n 0) = 0"
  by (simp add: get32_def)

lemma bmap_post_pre:
  assumes "bmap_post ip bn u a t" "fmove H s u" "blk u = blk s" "logged u = logged s"
  shows "bmap_post ip bn s a t"
  using assms(1,3,4) same_file [OF assms(2,3)] kept_trans [OF kept_fmove [OF assms(2,3)]] fmove_bmb(1) [OF assms(2)]
  by (simp add: bmap_post_def)

lemma bmap_post_after:
  fixes t :: "'z fs_state_scheme"
  assumes "bmap_post ip bn s a t" "fmove H t u" "blk u = blk t" "logged u = logged t"
  shows "bmap_post ip bn s a u"
proof -
  have "kept ip s u" using kept_trans [OF _ kept_fmove [OF assms(2,3)]] assms(1) by (simp add: bmap_post_def)
  then show ?thesis
    using assms(1,3,4) same_file [OF assms(2,3)] fmove_fs(1) [OF assms(2)] by (simp add: bmap_post_def)
qed

text \<open>A new block in an empty entry of the indirect block, which the caller has locked.\<close>

lemma entry_fill:
  fixes s :: "'z fs_state_scheme"
  assumes tx: "ftx p {i} s" and i: "blockno (bufs s i) = ind_of s ip" and fs: "fs_ok s" and ok: "imap_ok s ip"
    and ind: "ind_of s ip \<noteq> 0" and k: "k < NINDIRECT" "get32 k (blk s (ind_of s ip)) = 0"
    and room: "length (logged s) + 2 < NBUF" and b: "first_free s = Some b"
  shows "\<exists>v x t. balloc ROOTDEV s = Ret b v \<and> set_bytes i (put32 k (of_nat b)) v = Ret () x \<and> log_write i x = Ret () t
    \<and> ftx p {i} t \<and> bmap_post ip (NDIRECT + k) s b t"
proof -
  let ?ind = "ind_of s ip" and ?bn = "NDIRECT + k"
  note d = imap_okD [OF ok]
  have fb: "?ind < sb_size (sb s)" "used s ?ind" "?ind \<noteq> bmb s" "outside (log_start s) ?ind"
    using d(4) [OF ind] by (auto simp: file_block_def fs_meta_def)
  have H: "holds_used {i} s" using i fb by (simp add: holds_used_def)
  obtain v where v: "balloc ROOTDEV s = Ret b v" "ftx p {i} v" "fmove {i} s v" and al: "allocated b s v"
    using balloc_ok [OF tx fs H] room b by auto
  note f = alloc_facts [OF fs b al smove_fmove [OF v(3)] ftx_blk_length [OF tx]]
  have "b < 2 ^ 32" using f(1) fs_okD(1) [OF fs] by (simp add: BPB_def BSIZE_def)
  then have ub: "unat (of_nat b :: uint32) = b" by (simp add: unat_of_nat take_bit_nat_eq_self)
  have k4: "4 * j + 4 \<le> BSIZE" if "j < NINDIRECT" for j using that by (simp add: NINDIRECT_def BSIZE_def)
  have bi: "blk v ?ind = blk s ?ind" using f(2) f(8) [of ?ind] fb by metis
  have li: "length (blk s ?ind) = BSIZE" by (rule ftx_blk_length [OF tx])
  have iv: "blockno (bufs v i) = ?ind" using v(3) i by (simp add: fmove_def)
  have lv: "length (logged v) < LOGBLOCKS"
    using al room length_log_add [of "logged s" "bmb s"] length_log_add [of "log_add (logged s) (bmb s)" b]
    by (simp add: allocated_def NBUF_def LOGBLOCKS_def)
  have lp: "length (put32 k (of_nat b) (blk v ?ind)) = BSIZE" using li bi k4 [OF k(1)] by simp
  obtain x t where t: "set_bytes i (put32 k (of_nat b)) v = Ret () x" "log_write i x = Ret () t" "ftx p {i} t"
      "fmove {i} v t" "blk t = (blk v)(?ind := put32 k (of_nat b) (blk s ?ind))" "logged t = log_add (logged v) ?ind"
    using ftx_modify [where f = "put32 k (of_nat b)", OF v(2) _ iv lv _ lp] fb(4) fmove_fs(8) [OF v(3)] bi by auto
  have m: "fmove {i} s t" by (rule fmove_trans [OF v(3) t(4)])
  note mi = fmove_bmb [OF m] fmove_fs [OF m]
  have ut: "used t = used v" using t(5) fb(3) fmove_bmb(1) [OF t(4)] fmove_bmb(1) [OF v(3)] by (simp add: used_def fun_eq_iff)
  have it: "ind_of t ip = ?ind" using mi by (simp add: ind_of_def)
  have fbt: "file_block t a = file_block v a" for a
    using ut fmove_bmb(2) [OF t(4)] fmove_fs(1) [OF t(4)] by (simp add: file_block_def)
  have fa: "faddr t ip j = (if j = ?bn then b else faddr s ip j)" if "j < MAXFILE" for j
  proof (cases "j < NDIRECT")
    case True
    then show ?thesis using mi by (simp add: faddr_def)
  next
    case False
    then have "j - NDIRECT < NINDIRECT" using that by (simp add: MAXFILE_def)
    then show ?thesis using False ind it t(5) li k4 k(1) ub
      by (auto simp: faddr_def get32_put32_other)
  qed
  have bM: "?bn < MAXFILE" using k(1) by (simp add: MAXFILE_def)
  have f0: "faddr s ip ?bn = 0" using ind k(2) by (simp add: faddr_def)
  have im: "imap_ok t ip"
    using d(1,2) mi fa bM it f(2,10,11) fbt fb(2)
    by (intro imap_ok_step [OF ok, where bn = ?bn]) (auto simp: fresh_block_def)
  have fst: "fs_ok t" using f(9) ut fmove_bmb [OF t(4)] fmove_fs [OF t(4)] by (simp add: fs_ok_def)
  have "blk t c = blk s c" if "used s c" "c \<noteq> bmb s" "c \<noteq> ?ind" for c
    using f(8) [of c] f(2) t(5) that by (metis fun_upd_apply)
  then have kp: "kept ip s t" using smove_fmove [OF m] mi it ut f(6) by (simp add: kept_def)
  have "blk t b = replicate BSIZE 0" using t(5) f(2,7) fb(2) by auto
  moreover have "set (logged t) \<subseteq> set (logged s) \<union> {bmb s, b} \<union> ({?ind} - {0})" using al t(6) ind by (auto simp: allocated_def)
  moreover have "fblock t ip b" using fa [OF bM] bM f(4) by (auto simp: fblock_def image_iff intro: bexI [of _ ?bn])
  ultimately have "bmap_post ip ?bn s b t"
    using fst im kp fa bM f0 f(2,4,6) it ut by (auto simp: bmap_post_def)
  then show ?thesis using v(1) t(1-3) by blast
qed

lemma entry_ok:
  fixes s :: "'z fs_state_scheme"
  assumes tx: "ftx p {} s" and fs: "fs_ok s" and ok: "imap_ok s ip" and ind: "ind_of s ip \<noteq> 0"
    and k: "k < NINDIRECT" and room: "length (logged s) + 2 < NBUF"
  shows "\<exists>a t. bmap_entry ROOTDEV (ind_of s ip) k s = Ret a t \<and> ftx p {} t \<and> bmap_post ip (NDIRECT + k) s a t"
proof -
  let ?ind = "ind_of s ip" and ?bn = "NDIRECT + k"
  have fa: "faddr s ip ?bn = unat (get32 k (blk s ?ind))" using ind by (simp add: faddr_def)
  obtain i u where u: "bread ROOTDEV ?ind s = Ret i u" "ftx p {i} u" "fmove {} s u"
      "blockno (bufs u i) = ?ind" "bdata (bufs u i) = blk s ?ind" "blk u = blk s" "logged u = logged s"
    using ftx_bread [OF tx, of ?ind] room by auto
  note su = same_file [OF u(3,6)]
  have rel: "\<exists>t. brelse i v = Ret () t \<and> ftx p {} t \<and> bmap_post ip ?bn s a t"
    if v: "ftx p {i} v" "bmap_post ip ?bn u a v" for a v
  proof -
    obtain t where t: "brelse i v = Ret () t" "ftx p {} t" "fmove {i} v t" "blk t = blk v" "logged t = logged v"
      using ftx_brelse [OF v(1), of i] by auto
    then show ?thesis using bmap_post_after [OF bmap_post_pre [OF v(2) u(3,6,7)] t(3-5)] by blast
  qed
  have same: "bmap_post ip ?bn u (faddr s ip ?bn) v"
    if "fmove {i} u v" "blk v = blk u" "logged v = logged u" "faddr s ip ?bn = 0 \<Longrightarrow> first_free s = None" for v
    using that su fs ok fmove_mono [OF that(1), of "{}"] by (intro bmap_post_same) auto
  show ?thesis
  proof (cases "get32 k (blk s ?ind) = 0")
    case False
    have "bmap_post ip ?bn u (faddr s ip ?bn) u" using same [of u] False fa by (simp add: unat_eq_0)
    then show ?thesis using rel [OF u(2)] u False fa by (fastforce simp: bmap_entry_def bytes_of_def)
  next
    case True
    have H: "holds_used {i} u"
      using imap_okD(4) [OF ok ind] u(4) su(4) fmove_bmb(1) [OF u(3)] by (auto simp: holds_used_def file_block_def fs_meta_def)
    show ?thesis
    proof (cases "first_free s")
      case None
      obtain v where v: "balloc ROOTDEV u = Ret 0 v" "ftx p {i} v" "fmove {i} u v" "blk v = blk u" "logged v = logged u"
        using balloc_ok [OF u(2) _ H] fs su room u(7) None by auto
      have "bmap_post ip ?bn u 0 v" using same [OF v(3-5)] None fa True by simp
      then show ?thesis using rel [OF v(2)] u(1,5) v(1) True by (fastforce simp: bmap_entry_def bytes_of_def)
    next
      case (Some b)
      then have "first_free u = Some b" using su by simp
      then obtain v x w where w: "balloc ROOTDEV u = Ret b v" "set_bytes i (put32 k (of_nat b)) v = Ret () x"
          "log_write i x = Ret () w" "ftx p {i} w" "bmap_post ip ?bn u b w"
        using entry_fill [OF u(2), of ip k b] u su fs ok ind k True room by auto
      have "b \<noteq> 0" using Some fs by (auto simp: first_free_def find_Some_iff fs_ok_def fs_meta_def)
      then show ?thesis using rel [OF w(4,5)] u(1,5) w(1-3) True by (fastforce simp: bmap_entry_def bytes_of_def)
    qed
  qed
qed

text \<open>The indirect block is allocated first; its entries are 0, so the map of the file stays the same.\<close>

lemma ind_alloc:
  fixes s :: "'z fs_state_scheme"
  assumes tx: "ftx p {} s" and fs: "fs_ok s" and ok: "imap_ok s ip" and z: "ind_of s ip = 0"
    and room: "length (logged s) + 4 < NBUF"
  shows "\<exists>a t. bmap_slot ip (inodes s ip) NDIRECT s = Ret a t \<and> ftx p {} t \<and> fs_ok t \<and> imap_ok t ip \<and> kept ip s t
    \<and> ind_of t ip = a \<and> (\<forall>k<MAXFILE. faddr t ip k = faddr s ip k) \<and> (\<forall>c. used t c \<longrightarrow> used s c \<or> c = a \<and> a \<noteq> 0)
    \<and> (if a = 0 then first_free s = None \<and> logged t = logged s
       else set (logged t) = set (logged s) \<union> {bmb s, a} \<and> length (logged t) \<le> length (logged s) + 2)"
proof -
  note d = imap_okD [OF ok]
  obtain a u where u: "bmap_slot ip (inodes s ip) NDIRECT s = Ret a u" "ftx p {} u" "fs_ok u" "smove s u"
    "inodes u = (inodes s)(ip := (inodes s ip)\<lparr>iaddrs := (iaddrs (inodes s ip))[NDIRECT := a]\<rparr>)"
    "\<And>c. file_block s c \<Longrightarrow> file_block u c" "\<And>c. used s c \<Longrightarrow> used u c"
    "\<And>c. used s c \<Longrightarrow> c \<noteq> bmb s \<Longrightarrow> blk u c = blk s c"
    and new: "\<And>c. used u c \<Longrightarrow> used s c \<or> c = a \<and> a \<noteq> 0" and u9: "if a = 0 then first_free s = None \<and> blk u = blk s \<and> logged u = logged s
       else fresh_block s u a \<and> blk u a = replicate BSIZE 0 \<and> set (logged u) = set (logged s) \<union> {bmb s, a}"
    using slot_ok [OF tx fs ok order_refl] z room unfolding ind_of_def by fastforce
  have ia: "ind_of u ip = a" using u(5) d(1) by (simp add: ind_of_def)
  have "get32 j (blk u a) = 0" if "a \<noteq> 0" "j < NINDIRECT" for j
    using u9 that get32_zero [of j BSIZE] by (simp add: NINDIRECT_def BSIZE_def)
  then have fa: "faddr u ip j = faddr s ip j" if "j < MAXFILE" for j
    using u(5) z ia that d(1) by (auto simp: faddr_def MAXFILE_def)
  have m: "0 < MAXFILE" by (simp add: MAXFILE_def NDIRECT_def)
  have im: "imap_ok u ip"
    using d(1,2) u(5,6) u9 fa m ia z smove_fields(1) [OF u(4)] d(5) [OF m] fa [OF m]
    by (intro imap_ok_step [OF ok, where bn = 0]) (auto simp: fresh_block_def file_block_def split: if_splits)
  have kp: "kept ip s u" using u(4,5,7,8) u9 ia z by (auto simp: kept_def fresh_block_def split: if_splits)
  have "length (logged u) \<le> length (logged s) + 2" if "a \<noteq> 0"
  proof -
    have "length (logged u) = card (set (logged s) \<union> {bmb s, a})"
      using u9 that distinct_card [OF ftx_distinct [OF u(2)]] by simp
    then show ?thesis
      using card_Un_le [of "set (logged s)" "{bmb s, a}"] card_length [of "logged s"] card_insert_le_m1 [of 2 "{a}" "bmb s"]
      by simp
  qed
  then show ?thesis using u(1-3) u9 im kp ia fa new by (auto split: if_splits)
qed

lemma bmap_ok:
  fixes s :: "'z fs_state_scheme"
  assumes tx: "ftx p {} s" and fs: "fs_ok s" and ok: "imap_ok s ip" and bn: "bn < MAXFILE"
    and room: "length (logged s) + 4 < NBUF"
  shows "\<exists>a t. bmap ip bn s = Ret a t \<and> ftx p {} t \<and> bmap_post ip bn s a t"
proof (cases "bn < NDIRECT")
  case True
  then show ?thesis using direct_ok [OF tx fs ok True] room by (simp add: bmap_eq)
next
  case False
  then have k: "bn - NDIRECT < NINDIRECT" and bk: "NDIRECT + (bn - NDIRECT) = bn" using bn by (auto simp: MAXFILE_def)
  have dev: "idev (inodes s ip) = ROOTDEV" by (rule imap_okD(2) [OF ok])
  show ?thesis
  proof (cases "ind_of s ip = 0")
    case nz: False
    then have "bmap_slot ip (inodes s ip) NDIRECT s = Ret (ind_of s ip) s" by (simp add: bmap_slot_def ind_of_def)
    then show ?thesis using entry_ok [OF tx fs ok nz k] room False k nz dev bk by (simp add: bmap_eq)
  next
    case z: True
    obtain a u where u: "bmap_slot ip (inodes s ip) NDIRECT s = Ret a u" "ftx p {} u" "fs_ok u" "imap_ok u ip" "kept ip s u"
      "ind_of u ip = a" "\<And>k. k < MAXFILE \<Longrightarrow> faddr u ip k = faddr s ip k"
      and new: "\<And>c. used u c \<Longrightarrow> used s c \<or> c = a \<and> a \<noteq> 0" and u8: "if a = 0 then first_free s = None \<and> logged u = logged s
       else set (logged u) = set (logged s) \<union> {bmb s, a} \<and> length (logged u) \<le> length (logged s) + 2"
      using ind_alloc [OF tx fs ok z room] by blast
    have f0: "faddr s ip bn = 0" using False z by (simp add: faddr_def)
    have us: "used s c \<Longrightarrow> used u c" and sm: "smove s u" for c using u(5) by (auto simp: kept_def)
    show ?thesis
    proof (cases "a = 0")
      case True
      have "bmap_post ip bn s 0 u"
        using True u(3-7) new u8 f0 bn us first_free_full [of s] smove_fields(1) [OF sm] by (auto simp: bmap_post_def)
      then show ?thesis using u(1,2) True False k by (auto simp: bmap_eq)
    next
      case nz: False
      then obtain c t where t: "bmap_entry ROOTDEV a (bn - NDIRECT) u = Ret c t" "ftx p {} t" "bmap_post ip bn u c t"
        using entry_ok [OF u(2-4) _ k] u(6) u8 bk room by auto
      then have ia: "ind_of t ip = a" using u(6) nz by (auto simp: bmap_post_def kept_def)
      have new': "used t d \<longrightarrow> used s d \<or> fblock t ip d" for d
        using t(3) new [of d] ia nz by (auto simp: bmap_post_def fblock_def)
      from ia have "bmap_post ip bn s c t"
        using t(3) u(6,7) new' u8 kept_trans [OF u(5)] f0 bn us nz smove_bmb(1) [OF sm] unfolding bmap_post_def by auto
      then show ?thesis using u(1) t nz False k dev by (auto simp: bmap_eq)
    qed
  qed
qed

subsection \<open>Content\<close>

text \<open>The bytes of a file; a block that is not there counts as zeros.\<close>

definition fbyte :: "'z fs_state_scheme \<Rightarrow> nat \<Rightarrow> nat \<Rightarrow> uint8" where
  "fbyte s ip i =
     (let a = faddr s ip (i div BSIZE) in if a = 0 then 0 else blk s a ! (i mod BSIZE))"

lemma BSIZE_pos [simp]: "0 < BSIZE"
  by (simp add: BSIZE_def)

lemma file_blockD:
  "file_block s a \<Longrightarrow> a < sb_size (sb s) \<and> used s a \<and> a \<noteq> bmb s \<and> outside (log_start s) a"
  by (auto simp: file_block_def fs_meta_def)

lemma bmap_post_content:
  assumes ok: "imap_ok s ip" and p: "bmap_post ip bn s a t" and i: "i div BSIZE < MAXFILE"
  shows "fbyte t ip i = fbyte s ip i"
proof -
  let ?k = "i div BSIZE"
  have kp: "kept ip s t" and same: "\<And>k. k < MAXFILE \<Longrightarrow> k \<noteq> bn \<Longrightarrow> faddr t ip k = faddr s ip k"
    using p by (auto simp: bmap_post_def)
  show ?thesis
  proof (cases "faddr t ip ?k = faddr s ip ?k")
    case True
    then show ?thesis using kp imap_okD(5) [OF ok i] file_blockD [of s "faddr s ip ?k"]
      by (auto simp: fbyte_def kept_def Let_def)
  next
    case False
    then have "?k = bn" using same i by blast
    then show ?thesis using False p by (auto simp: fbyte_def bmap_post_def Let_def)
  qed
qed

text \<open>What an operation on the content of \<open>ip\<close> does to everything else.\<close>

definition fkept :: "nat \<Rightarrow> 'z fs_state_scheme \<Rightarrow> 'z fs_state_scheme \<Rightarrow> bool" where
  "fkept ip s t \<longleftrightarrow> smove s t \<and> inodes t = (inodes s)(ip := (inodes s ip)\<lparr>iaddrs := iaddrs (inodes t ip)\<rparr>)
     \<and> (\<forall>c. used s c \<longrightarrow> used t c) \<and> (\<forall>c. used t c \<longrightarrow> used s c \<or> fblock t ip c)
     \<and> (ind_of t ip = ind_of s ip \<or> ind_of s ip = 0 \<and> \<not> used s (ind_of t ip))
     \<and> (\<forall>k<MAXFILE. faddr t ip k = faddr s ip k \<or> faddr s ip k = 0 \<and> \<not> used s (faddr t ip k))
     \<and> (\<forall>c. used s c \<and> c \<noteq> bmb s \<and> c \<noteq> ind_of s ip \<and> c \<notin> faddr s ip ` {..<MAXFILE} \<longrightarrow> blk t c = blk s c)"

lemma fkeptD:
  assumes "fkept ip s t"
  shows "smove s t" "inodes t = (inodes s)(ip := (inodes s ip)\<lparr>iaddrs := iaddrs (inodes t ip)\<rparr>)"
    "used s c \<Longrightarrow> used t c" "ind_of t ip = ind_of s ip \<or> ind_of s ip = 0 \<and> \<not> used s (ind_of t ip)"
    "k < MAXFILE \<Longrightarrow> faddr t ip k = faddr s ip k \<or> faddr s ip k = 0 \<and> \<not> used s (faddr t ip k)"
    "used s c \<Longrightarrow> c \<noteq> bmb s \<Longrightarrow> c \<noteq> ind_of s ip \<Longrightarrow> c \<notin> faddr s ip ` {..<MAXFILE} \<Longrightarrow> blk t c = blk s c"
    "used t c \<Longrightarrow> used s c \<or> fblock t ip c"
  using assms unfolding fkept_def by blast+

lemma fkept_bmap:
  assumes "bmap_post ip bn s a t"
  shows "fkept ip s t"
proof -
  have k: "kept ip s t" using assms by (simp add: bmap_post_def)
  have "faddr t ip k = faddr s ip k \<or> faddr s ip k = 0 \<and> \<not> used s (faddr t ip k)" if "k < MAXFILE" for k
    using assms that by (cases "k = bn"; cases "faddr s ip bn = 0"; cases "a = 0") (auto simp: bmap_post_def)
  then show ?thesis using k assms by (simp add: fkept_def kept_def bmap_post_def)
qed

lemma iaddrs_trans:
  fixes f g h :: "nat \<Rightarrow> inode"
  assumes "g = f(ip := (f ip)\<lparr>iaddrs := x\<rparr>)" "h = g(ip := (g ip)\<lparr>iaddrs := y\<rparr>)"
  shows "h = f(ip := (f ip)\<lparr>iaddrs := y\<rparr>)"
  using assms by simp

lemma fkept_trans:
  assumes a: "fkept ip s t" and b: "fkept ip t u"
  shows "fkept ip s u"
proof -
  note A = fkeptD [OF a] and B = fkeptD [OF b]
  have "blk u c = blk s c"
    if c: "used s c" "c \<noteq> bmb s" "c \<noteq> ind_of s ip" "c \<notin> faddr s ip ` {..<MAXFILE}" for c
  proof -
    have "c \<noteq> ind_of t ip" using A(4) c by auto
    moreover have "c \<notin> faddr t ip ` {..<MAXFILE}" using A(5) c(1,4) by fastforce
    ultimately show ?thesis using A(3,6) B(6) c smove_bmb(1) [OF A(1)] by simp
  qed
  moreover have "faddr u ip k = faddr s ip k \<or> faddr s ip k = 0 \<and> \<not> used s (faddr u ip k)" if "k < MAXFILE" for k
    using A(3) [of "faddr u ip k"] A(5) [OF that] B(5) [OF that] by auto
  moreover have "ind_of u ip = ind_of s ip \<or> ind_of s ip = 0 \<and> \<not> used s (ind_of u ip)"
    using A(3) [of "ind_of u ip"] A(4) B(4) by auto
  moreover have "used s c \<or> fblock u ip c" if "used u c" for c
  proof -
    have "fblock u ip c" if f: "fblock t ip c"
    proof (cases "c = ind_of t ip")
      case True
      then show ?thesis using f B(4) by (auto simp: fblock_def)
    next
      case False
      then obtain k where k: "k < MAXFILE" "c = faddr t ip k" using f by (auto simp: fblock_def)
      then have "c = faddr u ip k" using B(5) [OF k(1)] f by (auto simp: fblock_def)
      then show ?thesis using f k(1) by (auto simp: fblock_def)
    qed
    then show ?thesis using B(7) [OF that] A(7) [of c] by blast
  qed
  ultimately show ?thesis
    using smove_trans [OF A(1) B(1)] A(3) B(3) iaddrs_trans [OF A(2) B(2)] by (simp add: fkept_def)
qed
end
