(* ===== verification/Fsfile.thy ===== *)
theory Fsfile
  imports Fsmap Userbuf
begin

section \<open>Reading and writing files\<close>

subsection \<open>Sources\<close>

text \<open>
  \<open>source p s q bs\<close>: from \<open>q\<close> on the running process \<open>p\<close> can copy in the bytes \<open>bs\<close>, in pieces of any
  size, as long as memory does not change. The buffer may be in the kernel or in user memory.
\<close>

definition same_memory :: "nat \<Rightarrow> 'z fs_state_scheme \<Rightarrow> 'z fs_state_scheme \<Rightarrow> bool" where
  "same_memory p s t \<longleftrightarrow> mem t = mem s \<and> scratch t = scratch s \<and> freelist t = freelist s \<and> kend t = kend s
     \<and> ppagetable (procs t p) = ppagetable (procs s p)"

definition source :: "nat \<Rightarrow> 'z fs_state_scheme \<Rightarrow> kptr \<Rightarrow> bytes \<Rightarrow> bool" where
  "source p s q bs \<longleftrightarrow> (\<forall>k m t. k + m \<le> length bs \<and> same_memory p s t \<and> idle p t \<longrightarrow>
     either_copyin (kptr_add q k) m t = Ret (0, take m (drop k bs)) (touch t))"

lemma same_memory_refl [simp]: "same_memory p s s"
  by (simp add: same_memory_def)

lemma same_memory_trans: "same_memory p s t \<Longrightarrow> same_memory p t u \<Longrightarrow> same_memory p s u"
  by (simp add: same_memory_def)

lemma smove_memory: "smove s t \<Longrightarrow> same_memory p s t"
proof -
  assume s: "smove s t"
  have "(procs t p)\<lparr>pstate := pstate (procs s p)\<rparr> = procs s p" using smove_fields(8) [OF s] by (simp add: calm_def)
  from arg_cong [OF this, of ppagetable] show ?thesis using smove_fields [OF s] by (simp add: same_memory_def)
qed

lemma kptr_add_add [simp]: "kptr_add (kptr_add q i) j = kptr_add q (i + j)"
  by (cases q) (simp_all add: add.assoc)

lemma source_drop:
  assumes "source p s q bs" "k \<le> length bs"
  shows "source p s (kptr_add q k) (drop k bs)"
  unfolding source_def
proof (intro allI impI, elim conjE)
  fix j m t
  assume "j + m \<le> length (drop k bs)" "same_memory p s t" "idle p t"
  then show "either_copyin (kptr_add (kptr_add q k) j) m t = Ret (0, take m (drop j (drop k bs))) (touch t)"
    using assms(1) [unfolded source_def, rule_format, of "k + j" m t] assms(2) by (simp add: add.commute)
qed

lemma source_memory: "source p s q bs \<Longrightarrow> same_memory p s t \<Longrightarrow> source p t q bs"
  unfolding source_def using same_memory_trans by blast

lemma kernel_source: "source p s (Kern a) (mem_read (mem s) a n)"
  unfolding source_def
proof (intro allI impI, elim conjE)
  fix k m t
  assume "k + m \<le> length (mem_read (mem s) a n)" "same_memory p s t" "idle p t"
  moreover have "mem_read (mem s) (a + of_nat k) m = take m (drop k (mem_read (mem s) a n))" if "k + m \<le> n"
    using that by (intro nth_equalityI) (auto simp: add.assoc)
  ultimately show "either_copyin (kptr_add (Kern a) k) m t = Ret (0, take m (drop k (mem_read (mem s) a n))) (touch t)"
    by (simp add: same_memory_def idle_def)
qed

lemma local_source:
  assumes "i + n \<le> length (scratch s)"
  shows "source p s (Local i) (take n (drop i (scratch s)))"
  unfolding source_def
proof (intro allI impI, elim conjE)
  fix k m t
  assume "k + m \<le> length (take n (drop i (scratch s)))" "same_memory p s t" "idle p t"
  moreover have "take m (drop (i + k) (scratch s)) = take m (drop k (take n (drop i (scratch s))))" if "k + m \<le> n"
    using that assms by (intro nth_equalityI) (auto simp: add.assoc)
  ultimately show "either_copyin (kptr_add (Local i) k) m t = Ret (0, take m (drop k (take n (drop i (scratch s))))) (touch t)"
    using assms by (simp add: same_memory_def idle_def)
qed

lemma user_source:
  assumes vm: "vmok s (ppagetable (procs s p)) ps" and r: "user_range (mem s) (ppagetable (procs s p)) va n"
  shows "source p s (User va) (user_bytes (mem s) (ppagetable (procs s p)) va n)"
  unfolding source_def
proof (intro allI impI, elim conjE)
  fix k m and t :: "'a fs_state_scheme"
  let ?pt = "ppagetable (procs s p)"
  let ?bs = "user_bytes (mem s) ?pt va n"
  assume km: "k + m \<le> length ?bs" and me: "same_memory p s t" and id: "idle p t"
  have k: "k + m \<le> n" using km by simp
  have vt: "vmok (touch t) ?pt ps" using vm me id by (simp add: vmok_def same_memory_def idle_def kmem_inv_def)
  have e: "va + of_nat k + of_nat i = va + of_nat (k + i)" for i by (simp add: add.assoc)
  have "unat (va + of_nat k) \<le> unat va + k"
    using unat_word_ariths(1) [of va "of_nat k"] by (simp add: unat_of_nat take_bit_nat_def)
  then have "user_range (mem t) ?pt (va + of_nat k) m"
    using r k me unfolding user_range_def e same_memory_def by (auto simp del: of_nat_add)
  then have "copyin ?pt (va + of_nat k) m (touch t) =
      Ret (0, map (\<lambda>i. mem t (phys (mem t) ?pt (va + of_nat k + of_nat i))) [0..<m]) (touch t)"
    using copyin_ok [OF vt, of "va + of_nat k" m] by simp
  moreover have "map (\<lambda>i. mem t (phys (mem t) ?pt (va + of_nat k + of_nat i))) [0..<m] = take m (drop k ?bs)"
    using k me by (intro nth_equalityI) (auto simp: user_bytes_def e same_memory_def)
  ultimately show "either_copyin (kptr_add (User va) k) m t = Ret (0, take m (drop k ?bs)) (touch t)"
    using id me by (simp add: idle_def same_memory_def)
qed

subsection \<open>Writing one block\<close>

lemma ftx_touch:
  fixes s :: "'z fs_state_scheme"
  assumes "ftx p H s"
  shows "ftx p H (touch s)" "fmove H s (touch s)" "logged (touch s) = logged s"
proof -
  have lk: "lkok s" using ftx_idle(1) [OF assms] by (simp add: idle_def)
  show m: "fmove H s (touch s)" using lk by (simp add: fmove_def log_frame_eq calm_def)
  show "ftx p H (touch s)" "logged (touch s) = logged s"
    by (rule frd_cong(2-4) [OF m]; simp add: mypid_def assms)+
qed

text \<open>The file after some bytes of its block \<open>bn\<close> have been replaced.\<close>

definition wrote_block :: "nat \<Rightarrow> nat \<Rightarrow> (bytes \<Rightarrow> bytes) \<Rightarrow> 'z fs_state_scheme \<Rightarrow> 'z fs_state_scheme \<Rightarrow> bool" where
  "wrote_block ip bn f s t \<longleftrightarrow> fmove {} s t \<and> blk t = (blk s)(faddr s ip bn := f (blk s (faddr s ip bn)))
     \<and> logged t = log_add (logged s) (faddr s ip bn)"

lemma wrote_block_file:
  fixes s :: "'z fs_state_scheme"
  assumes w: "wrote_block ip bn f s t" and fs: "fs_ok s" and ok: "imap_ok s ip" and bn: "bn < MAXFILE" "faddr s ip bn \<noteq> 0"
  shows "fs_ok t" "imap_ok t ip" "fkept ip s t" "ind_of t ip = ind_of s ip" "faddr t ip k = faddr s ip k" "used t = used s"
proof -
  let ?a = "faddr s ip bn"
  have m: "fmove {} s t" and b: "blk t = (blk s)(?a := f (blk s ?a))" using w by (auto simp: wrote_block_def)
  have a: "?a \<noteq> bmb s" "?a \<noteq> ind_of s ip" using imap_okD(5) [OF ok bn] file_blockD by blast+
  note mi = fmove_bmb [OF m] fmove_fs [OF m]
  show i: "ind_of t ip = ind_of s ip" using mi by (simp add: ind_of_def)
  show u: "used t = used s" using mi b a by (simp add: used_def fun_eq_iff)
  show f: "faddr t ip k = faddr s ip k" for k using mi b a i by (auto simp: faddr_def)
  have fb: "file_block t = file_block s" using mi u by (simp add: file_block_def fun_eq_iff)
  show "fs_ok t" using fs mi u by (simp add: fs_ok_def)
  show "imap_ok t ip" using ok mi i f fb by (simp add: imap_ok_def)
  show "fkept ip s t" using smove_fmove [OF m] mi i f u b bn(1) by (auto simp: fkept_def)
qed

lemma nth_splice:
  "i + length src \<le> length xs \<Longrightarrow> j < length xs \<Longrightarrow>
   splice i src xs ! j = (if i \<le> j \<and> j < i + length src then src ! (j - i) else xs ! j)"
  by (auto simp: splice_def nth_append min_def)

lemma wrote_block_fbyte:
  assumes w: "wrote_block ip bn (splice o1 bs) s t" and fs: "fs_ok s" and ok: "imap_ok s ip"
    and bn: "bn < MAXFILE" "faddr s ip bn \<noteq> 0" and len: "length (blk s (faddr s ip bn)) = BSIZE" "o1 + length bs \<le> BSIZE"
    and i: "i div BSIZE < MAXFILE"
  shows "fbyte t ip i = (if BSIZE * bn + o1 \<le> i \<and> i < BSIZE * bn + o1 + length bs then bs ! (i - (BSIZE * bn + o1)) else fbyte s ip i)"
proof (cases "i div BSIZE = bn")
  case True
  have i': "i = BSIZE * bn + i mod BSIZE" using True by (metis mult_div_mod_eq)
  moreover have "i mod BSIZE < BSIZE" by simp
  moreover have "splice o1 bs xs ! j = (if o1 \<le> j \<and> j < o1 + length bs then bs ! (j - o1) else xs ! j)"
    if "length xs = BSIZE" "j < BSIZE" for xs j
    using that len(2) by (simp add: nth_splice)
  ultimately have "fbyte t ip i = (if o1 \<le> i mod BSIZE \<and> i mod BSIZE < o1 + length bs then bs ! (i mod BSIZE - o1) else fbyte s ip i)"
    using w wrote_block_file(5) [OF w fs ok bn] bn len True by (simp add: fbyte_def wrote_block_def Let_def)
  moreover have "BSIZE * bn + o1 \<le> i \<longleftrightarrow> o1 \<le> i mod BSIZE" "i < BSIZE * bn + o1 + length bs \<longleftrightarrow> i mod BSIZE < o1 + length bs"
    "i - (BSIZE * bn + o1) = i mod BSIZE - o1" by (subst (1) i', simp)+
  ultimately show ?thesis by simp
next
  case False
  have "\<not> (BSIZE * bn + o1 \<le> i \<and> i < BSIZE * bn + o1 + length bs)"
  proof
    assume "BSIZE * bn + o1 \<le> i \<and> i < BSIZE * bn + o1 + length bs"
    then have "BSIZE * bn \<le> i" "i < BSIZE * Suc bn" using len(2) by auto
    then show False using False div_nat_eqI by blast
  qed
  moreover have "faddr s ip (i div BSIZE) \<noteq> faddr s ip bn" if "faddr s ip (i div BSIZE) \<noteq> 0"
    using imap_okD(6) [OF ok i bn(1) that] False by blast
  ultimately show ?thesis using w wrote_block_file(5) [OF w fs ok bn] by (auto simp: fbyte_def wrote_block_def Let_def)
qed

lemma kptr_add_0 [simp]: "kptr_add q 0 = q"
  by (cases q) simp_all

lemma write_block_run:
  fixes s :: "'z fs_state_scheme"
  assumes tx: "ftx p {} s" and ok: "imap_ok s ip" and bn: "bn < MAXFILE" "faddr s ip bn \<noteq> 0"
    and room: "length (logged s) < NBUF" and src: "source p s q bs" "m \<le> length bs" and fit: "o1 + m \<le> BSIZE"
  shows "\<exists>i u v w t. bread ROOTDEV (faddr s ip bn) s = Ret i u \<and> either_copyin q m u = Ret (0, take m bs) (touch u)
    \<and> set_bytes i (splice o1 (take m bs)) (touch u) = Ret () v \<and> log_write i v = Ret () w \<and> brelse i w = Ret () t
    \<and> ftx p {} t \<and> wrote_block ip bn (splice o1 (take m bs)) s t"
proof -
  let ?a = "faddr s ip bn" and ?f = "splice o1 (take m bs)"
  have out: "outside (log_start s) ?a" using imap_okD(5) [OF ok bn] file_blockD by blast
  obtain i u where u: "bread ROOTDEV ?a s = Ret i u" "ftx p {i} u" "fmove {} s u"
      "blockno (bufs u i) = ?a" "blk u = blk s" "logged u = logged s"
    using ftx_bread [OF tx, of ?a] room by auto
  note tu = ftx_touch [OF u(2)]
  have cp: "either_copyin q m u = Ret (0, take m bs) (touch u)"
    using src(1) [unfolded source_def, rule_format, of 0 m u] src(2) smove_memory [OF smove_fmove [OF u(3)]] ftx_idle(1) [OF u(2)]
    by simp
  have m: "fmove {} s (touch u)" using fmove_trans [OF u(3) fmove_mono [OF tu(2)]] by simp
  have len: "length (?f (blk (touch u) ?a)) = BSIZE" using fit src(2) ftx_blk_length [OF tu(1), of ?a] by simp
  have lb: "length (logged (touch u)) < LOGBLOCKS" using room tu(3) u(6) by (simp add: NBUF_def LOGBLOCKS_def)
  obtain v w where w: "set_bytes i ?f (touch u) = Ret () v" "log_write i v = Ret () w" "ftx p {i} w" "fmove {i} (touch u) w"
      "blk w = (blk s)(?a := ?f (blk s ?a))" "logged w = log_add (logged s) ?a"
    using ftx_modify [where f = ?f and c = ?a and i = i, OF tu(1) _ _ lb _ len] u(4-6) tu(3) out fmove_fs(8) [OF m] by auto
  obtain t where t: "brelse i w = Ret () t" "ftx p {} t" "fmove {i} w t" "blk t = blk w" "logged t = logged w"
    using ftx_brelse [OF w(3), of i] by auto
  have "fmove {} s t" using fmove_trans [OF m fmove_mono [OF fmove_trans [OF w(4) t(3)]]] by simp
  then have "wrote_block ip bn ?f s t" using w(5,6) t(4,5) by (simp add: wrote_block_def)
  then show ?thesis using u(1) cp w(1,2) t(1,2) by blast
qed

subsection \<open>The loop of writei\<close>

text \<open>
  How many blocks a write touches, and what the log has to hold for it: the blocks logged so far, the
  bitmap, and the indirect block if the file has one or may get one.
\<close>

definition nblk :: "nat \<Rightarrow> nat \<Rightarrow> nat" where
  "nblk off r = (if r = 0 then 0 else (off mod BSIZE + r + (BSIZE - 1)) div BSIZE)"

definition wlog :: "'z fs_state_scheme \<Rightarrow> nat \<Rightarrow> nat" where
  "wlog s ip = card (set (logged s) \<union> {bmb s} \<union> ({ind_of s ip} - {0})) + (if ind_of s ip = 0 then 1 else 0)"

lemma wlog_logged: "ftx p H s \<Longrightarrow> length (logged s) \<le> wlog s ip"
proof -
  assume tx: "ftx p H s"
  have "card (set (logged s)) \<le> card (set (logged s) \<union> {bmb s} \<union> ({ind_of s ip} - {0}))"
    by (rule card_mono) auto
  then show ?thesis using distinct_card [OF ftx_distinct [OF tx]] unfolding wlog_def by linarith
qed

lemma wlog_step:
  assumes l: "set (logged t) \<subseteq> set (logged s) \<union> {bmb s, a} \<union> ({ind_of t ip} - {0})" and b: "bmb t = bmb s"
    and i: "ind_of t ip = ind_of s ip \<or> ind_of s ip = 0"
  shows "wlog t ip \<le> wlog s ip + 1"
proof -
  let ?S = "set (logged s) \<union> {bmb s} \<union> ({ind_of s ip} - {0})"
  have fin: "finite ?S" by simp
  have "set (logged t) \<union> {bmb t} \<union> ({ind_of t ip} - {0}) \<subseteq> insert a (?S \<union> ({ind_of t ip} - {0}))" using l b by auto
  then have "card (set (logged t) \<union> {bmb t} \<union> ({ind_of t ip} - {0})) \<le> card (insert a (?S \<union> ({ind_of t ip} - {0})))"
    by (rule card_mono [rotated]) simp
  also have "\<dots> \<le> Suc (card (?S \<union> ({ind_of t ip} - {0})))" by (rule card_insert_le_m1) auto
  finally have c: "card (set (logged t) \<union> {bmb t} \<union> ({ind_of t ip} - {0})) \<le> Suc (card (?S \<union> ({ind_of t ip} - {0})))" .
  show ?thesis
  proof (cases "ind_of t ip = ind_of s ip")
    case True
    then have "?S \<union> ({ind_of t ip} - {0}) = ?S" by auto
    then show ?thesis using c True by (simp add: wlog_def)
  next
    case False
    then have z: "ind_of s ip = 0" "ind_of t ip \<noteq> 0" using i by auto
    have "card (?S \<union> ({ind_of t ip} - {0})) \<le> card ?S + 1"
      using card_Un_le [of ?S "{ind_of t ip} - {0}"] z by simp
    then show ?thesis using c z by (simp add: wlog_def)
  qed
qed

lemma chunk_step:
  assumes "0 < r" "m = min r (BSIZE - off mod BSIZE)"
  shows "0 < m" "m \<le> r" "off mod BSIZE + m \<le> BSIZE" "nblk (off + m) (r - m) + 1 = nblk off r"
    "off mod BSIZE + r \<le> Suc k * BSIZE \<Longrightarrow> (off + m) mod BSIZE + (r - m) \<le> k * BSIZE \<or> r = m"
proof -
  have o: "off mod BSIZE < BSIZE" by simp
  show m: "0 < m" "m \<le> r" "off mod BSIZE + m \<le> BSIZE" using assms o by (auto simp: min_def)
  have al: "(off + m) mod BSIZE = 0" "r - m + BSIZE = off mod BSIZE + r" if "m < r"
  proof -
    have e: "m = BSIZE - off mod BSIZE" using that assms(2) by auto
    then show "r - m + BSIZE = off mod BSIZE + r" using o m by linarith
    have "off + m = off - off mod BSIZE + BSIZE" using e o mod_less_eq_dividend [of off BSIZE] by linarith
    then show "(off + m) mod BSIZE = 0" by (metis minus_mod_eq_mult_div mod_add_self2 mod_mult_self1_is_0)
  qed
  show "nblk (off + m) (r - m) + 1 = nblk off r"
  proof (cases "m < r")
    case True
    then have e: "off mod BSIZE + r + (BSIZE - 1) = (r - m + (BSIZE - 1)) + BSIZE" using al(2) by linarith
    have "(off mod BSIZE + r + (BSIZE - 1)) div BSIZE = (r - m + (BSIZE - 1)) div BSIZE + 1"
      unfolding e by (rule div_add_self2) simp
    then show ?thesis using True al(1) assms(1) unfolding nblk_def by simp
  next
    case False
    then have "m = r" using m by simp
    then have "(off mod BSIZE + r + (BSIZE - 1)) div BSIZE = 1" using m by (intro div_nat_eqI) auto
    then show ?thesis using \<open>m = r\<close> assms(1) by (simp add: nblk_def)
  qed
  show "(off + m) mod BSIZE + (r - m) \<le> k * BSIZE \<or> r = m" if "off mod BSIZE + r \<le> Suc k * BSIZE"
    using al that m by (cases "m < r") auto
qed

text \<open>One turn of the loop: a block found or allocated, and its bytes replaced.\<close>

definition fwrote :: "nat \<Rightarrow> nat \<Rightarrow> bytes \<Rightarrow> 'z fs_state_scheme \<Rightarrow> 'z fs_state_scheme \<Rightarrow> bool" where
  "fwrote ip off bs s t \<longleftrightarrow> fs_ok t \<and> imap_ok t ip \<and> fkept ip s t
     \<and> (\<forall>i < MAXFILE * BSIZE. fbyte t ip i = (if off \<le> i \<and> i < off + length bs then bs ! (i - off) else fbyte s ip i))
     \<and> (\<forall>i. off \<le> i \<and> i < off + length bs \<longrightarrow> faddr t ip (i div BSIZE) \<noteq> 0)"

lemma fwrote_refl: "fs_ok s \<Longrightarrow> imap_ok s ip \<Longrightarrow> fwrote ip off [] s s"
  by (auto simp: fwrote_def fkept_def smove_fmove [OF fmove_refl])

lemma fwrote_Nil:
  assumes "bmap_post ip bn s a t" "imap_ok s ip"
  shows "fwrote ip off [] s t"
  using assms bmap_post_content [OF assms(2,1)] fkept_bmap [OF assms(1)]
  by (auto simp: fwrote_def bmap_post_def less_mult_imp_div_less)

lemma fwrote_trans:
  assumes a: "fwrote ip off bs s t" and b: "fwrote ip (off + length bs) cs t u" and m: "off + length bs + length cs \<le> MAXFILE * BSIZE"
  shows "fwrote ip off (bs @ cs) s u"
proof -
  have A: "fkept ip s t" "\<And>i. i < MAXFILE * BSIZE \<Longrightarrow> fbyte t ip i = (if off \<le> i \<and> i < off + length bs then bs ! (i - off) else fbyte s ip i)"
    "\<And>i. off \<le> i \<Longrightarrow> i < off + length bs \<Longrightarrow> faddr t ip (i div BSIZE) \<noteq> 0" using a by (auto simp: fwrote_def)
  have B: "fs_ok u" "imap_ok u ip" "fkept ip t u"
    "\<And>i. i < MAXFILE * BSIZE \<Longrightarrow> fbyte u ip i = (if off + length bs \<le> i \<and> i < off + length bs + length cs then cs ! (i - (off + length bs)) else fbyte t ip i)"
    "\<And>i. off + length bs \<le> i \<Longrightarrow> i < off + length bs + length cs \<Longrightarrow> faddr u ip (i div BSIZE) \<noteq> 0" using b by (auto simp: fwrote_def)
  have "fbyte u ip i = (if off \<le> i \<and> i < off + length (bs @ cs) then (bs @ cs) ! (i - off) else fbyte s ip i)"
    if "i < MAXFILE * BSIZE" for i
    using A(2) [OF that] B(4) [OF that] by (auto simp: nth_append)
  moreover have "faddr u ip (i div BSIZE) \<noteq> 0" if "off \<le> i" "i < off + length (bs @ cs)" for i
  proof (cases "i < off + length bs")
    case True
    then have "i div BSIZE < MAXFILE" using m by (intro less_mult_imp_div_less) simp
    then show ?thesis using A(3) [OF that(1) True] fkeptD(5) [OF B(3), of "i div BSIZE"] by auto
  next
    case False
    then show ?thesis using B(5) [of i] that by simp
  qed
  ultimately show ?thesis using B(1,2) fkept_trans [OF A(1) B(3)] by (simp add: fwrote_def)
qed

lemma fwrote_block:
  fixes s :: "'z fs_state_scheme"
  assumes p: "bmap_post ip (off div BSIZE) s a u" "a \<noteq> 0" and ok: "imap_ok s ip"
    and w: "wrote_block ip (off div BSIZE) (splice (off mod BSIZE) bs) u t" and len: "length (blk u a) = BSIZE"
    and fit: "off mod BSIZE + length bs \<le> BSIZE" "off div BSIZE < MAXFILE"
  shows "fwrote ip off bs s t"
proof -
  let ?bn = "off div BSIZE"
  have u: "fs_ok u" "imap_ok u ip" "faddr u ip ?bn = a" using p by (auto simp: bmap_post_def)
  note f = wrote_block_file [OF w u(1,2) fit(2)] u(3)
  have off: "BSIZE * ?bn + off mod BSIZE = off" by simp
  have "fbyte t ip i = (if off \<le> i \<and> i < off + length bs then bs ! (i - off) else fbyte s ip i)" if "i < MAXFILE * BSIZE" for i
    using wrote_block_fbyte [OF w u(1,2) fit(2) _ _ fit(1), of i] u(3) p(2) len bmap_post_content [OF ok p(1), of i]
      less_mult_imp_div_less [OF that] unfolding off by simp
  moreover have "faddr t ip (i div BSIZE) \<noteq> 0" if "off \<le> i" "i < off + length bs" for i
  proof -
    have "BSIZE * ?bn \<le> i" "i < BSIZE * Suc ?bn" using that fit(1) off by (simp_all, linarith+)
    then have "i div BSIZE = ?bn" by (rule div_nat_eqI)
    then show ?thesis using f p(2) by simp
  qed
  ultimately show ?thesis using f p(2) fkept_trans [OF fkept_bmap [OF p(1)]] by (simp add: fwrote_def)
qed

lemma writei_turn:
  fixes s :: "'z fs_state_scheme"
  assumes tx: "ftx p {} s" and fs: "fs_ok s" and ok: "imap_ok s ip" and src: "source p s q bs" "0 < length bs"
    and fit: "off + length bs \<le> MAXFILE * BSIZE" and room: "wlog s ip + 4 < NBUF"
    and n: "n = tot + length bs"
  defines "m \<equiv> min (length bs) (BSIZE - off mod BSIZE)"
  shows "(\<exists>t. writei_loop (Suc k) ip q off n tot s = Ret tot t \<and> ftx p {} t \<and> fwrote ip off [] s t
      \<and> (\<forall>b < sb_size (sb t). used t b) \<and> wlog t ip \<le> wlog s ip + 1)
    \<or> (\<exists>t. writei_loop (Suc k) ip q off n tot s = writei_loop k ip (kptr_add q m) (off + m) n (tot + m) t
      \<and> ftx p {} t \<and> fwrote ip off (take m bs) s t \<and> wlog t ip \<le> wlog s ip + 1)"
proof -
  note c = chunk_step [OF src(2), of m off]
  have bn: "off div BSIZE < MAXFILE" by (rule less_mult_imp_div_less) (use fit src(2) in linarith)
  have r: "length (logged s) + 4 < NBUF" using wlog_logged [OF tx, of ip] room by simp
  obtain a u where u: "bmap ip (off div BSIZE) s = Ret a u" "ftx p {} u" "bmap_post ip (off div BSIZE) s a u"
    using bmap_ok [OF tx fs ok bn r] by blast
  have kp: "kept ip s u" and lg: "set (logged u) \<subseteq> set (logged s) \<union> {bmb s, a} \<union> ({ind_of u ip} - {0})"
    and iu: "imap_ok u ip" "faddr u ip (off div BSIZE) = a" using u(3) by (auto simp: bmap_post_def)
  have sm: "smove s u" and ind: "ind_of u ip = ind_of s ip \<or> ind_of s ip = 0" using kp by (auto simp: kept_def)
  have wu: "wlog u ip \<le> wlog s ip + 1" by (rule wlog_step [OF lg smove_bmb(1) [OF sm] ind])
  show ?thesis
  proof (cases "a = 0")
    case True
    then show ?thesis using u wu n src(2) fwrote_Nil [OF u(3) ok] by (auto simp: bmap_post_def)
  next
    case False
    have ru: "length (logged u) < NBUF" using wlog_logged [OF u(2), of ip] wu room by simp
    obtain i v x w t where t: "bread ROOTDEV a u = Ret i v" "either_copyin q m v = Ret (0, take m bs) (touch v)"
        "set_bytes i (splice (off mod BSIZE) (take m bs)) (touch v) = Ret () x" "log_write i x = Ret () w" "brelse i w = Ret () t"
        "ftx p {} t" "wrote_block ip (off div BSIZE) (splice (off mod BSIZE) (take m bs)) u t"
      using write_block_run [OF u(2) iu(1) bn _ ru source_memory [OF src(1) smove_memory [OF sm]], of m "off mod BSIZE"]
        c(2,3) m_def iu(2) False by auto
    have fw: "fwrote ip off (take m bs) s t"
      using c(3) m_def bn ftx_blk_length [OF u(2)] by (intro fwrote_block [OF u(3) False ok t(7)]) auto
    have "wlog t ip \<le> wlog s ip + 1"
    proof (rule wlog_step)
      have "logged t = log_add (logged u) a" using t(7) iu(2) by (simp add: wrote_block_def)
      moreover have "ind_of t ip = ind_of u ip"
        using wrote_block_file(4) [OF t(7) _ iu(1) bn] u(3) iu(2) False by (auto simp: bmap_post_def)
      ultimately show "set (logged t) \<subseteq> set (logged s) \<union> {bmb s, a} \<union> ({ind_of t ip} - {0})"
        "ind_of t ip = ind_of s ip \<or> ind_of s ip = 0" using lg ind by auto
      have "fkept ip s t" using fw by (simp add: fwrote_def)
      then show "bmb t = bmb s" using smove_bmb(1) [OF fkeptD(1)] by blast
    qed
    moreover have "idev (inodes u ip) = ROOTDEV" by (rule imap_okD(2) [OF iu(1)])
    ultimately show ?thesis
      using u(1) t(1-6) fw n src(2) False m_def by (intro disjI2 exI [of _ t]) (simp add: Let_def)
  qed
qed

lemma writei_loop_ok:
  fixes s :: "'z fs_state_scheme"
  assumes "ftx p {} s" "fs_ok s" "imap_ok s ip" "source p s q bs" "n = tot + length bs"
    "off + length bs \<le> MAXFILE * BSIZE" "off mod BSIZE + length bs \<le> k * BSIZE \<or> bs = []"
    "wlog s ip + nblk off (length bs) + 3 < NBUF"
  shows "\<exists>j t. writei_loop (Suc k) ip q off n tot s = Ret (tot + j) t \<and> j \<le> length bs \<and> ftx p {} t
    \<and> fwrote ip off (take j bs) s t \<and> wlog t ip \<le> wlog s ip + nblk off (length bs)
    \<and> (j < length bs \<longrightarrow> (\<forall>b < sb_size (sb t). used t b))"
  using assms
proof (induction k arbitrary: q off tot bs s)
  case 0
  have z: "bs = []" using "0.prems"(7) by auto
  have "fwrote ip off [] s s" using "0.prems"(2,3) by (rule fwrote_refl)
  then show ?case using z "0.prems" by (intro exI [of _ 0] exI [of _ s]) simp
next
  case (Suc k)
  show ?case
  proof (cases "bs = []")
    case True
    have "fwrote ip off [] s s" using Suc.prems(2,3) by (rule fwrote_refl)
    then show ?thesis using True Suc.prems by (intro exI [of _ 0] exI [of _ s]) simp
  next
    case False
    then have pos: "0 < length bs" by simp
    let ?m = "min (length bs) (BSIZE - off mod BSIZE)"
    note c = chunk_step [OF pos refl, of off]
    have room: "wlog s ip + 4 < NBUF" using Suc.prems(8) c(4) by linarith
    consider (full) t where "writei_loop (Suc (Suc k)) ip q off n tot s = Ret tot t" "ftx p {} t" "fwrote ip off [] s t"
        "\<forall>b < sb_size (sb t). used t b" "wlog t ip \<le> wlog s ip + 1"
      | (turn) t where "writei_loop (Suc (Suc k)) ip q off n tot s = writei_loop (Suc k) ip (kptr_add q ?m) (off + ?m) n (tot + ?m) t"
        "ftx p {} t" "fwrote ip off (take ?m bs) s t" "wlog t ip \<le> wlog s ip + 1"
      using writei_turn [OF Suc.prems(1-4) pos Suc.prems(6) room Suc.prems(5), of "Suc k"] by blast
    then show ?thesis
    proof cases
      case full
      then show ?thesis using c(4) by (intro exI [of _ 0] exI [of _ t]) auto
    next
      case turn
      have ft: "fs_ok t" "imap_ok t ip" "smove s t" using turn(3) fkeptD(1) [of ip s t] by (simp_all add: fwrote_def)
      have len: "length (drop ?m bs) = length bs - ?m" by simp
      have src: "source p t (kptr_add q ?m) (drop ?m bs)"
        using source_memory [OF source_drop [OF Suc.prems(4)] smove_memory [OF ft(3)]] by simp
      have fuel: "(off + ?m) mod BSIZE + length (drop ?m bs) \<le> k * BSIZE \<or> drop ?m bs = []"
        using c(5) [of k] Suc.prems(7) False by auto
      have w: "wlog t ip + nblk (off + ?m) (length (drop ?m bs)) + 3 < NBUF"
        using turn(4) Suc.prems(8) c(4) unfolding len by linarith
      have n: "n = tot + ?m + length (drop ?m bs)" and fit: "off + ?m + length (drop ?m bs) \<le> MAXFILE * BSIZE"
        using Suc.prems(5,6) c(2) unfolding len by linarith+
      obtain j u where u: "writei_loop (Suc k) ip (kptr_add q ?m) (off + ?m) n (tot + ?m) t = Ret (tot + ?m + j) u"
          "j \<le> length (drop ?m bs)" "ftx p {} u" "fwrote ip (off + ?m) (take j (drop ?m bs)) t u"
          "wlog u ip \<le> wlog t ip + nblk (off + ?m) (length (drop ?m bs))"
          "j < length (drop ?m bs) \<longrightarrow> (\<forall>b < sb_size (sb u). used u b)"
        using Suc.IH [OF turn(2) ft(1,2) src n fit fuel w] by blast
      have "fwrote ip off (take ?m bs @ take j (drop ?m bs)) s u"
      proof (rule fwrote_trans [OF turn(3)])
        have l: "length (take ?m bs) = ?m" "length (take j (drop ?m bs)) = j" using c(2) u(2) by simp_all
        show "fwrote ip (off + length (take ?m bs)) (take j (drop ?m bs)) t u" using u(4) unfolding l .
        show "off + length (take ?m bs) + length (take j (drop ?m bs)) \<le> MAXFILE * BSIZE" using fit u(2) unfolding l by linarith
      qed
      then have "fwrote ip off (take (?m + j) bs) s u" by (simp only: take_add)
      moreover have "?m + j \<le> length bs" using u(2) c(2) by simp
      moreover have "wlog u ip \<le> wlog s ip + nblk off (length bs)" using u(5) turn(4) c(4) unfolding len by linarith
      ultimately show ?thesis
        using turn(1) u(1,3,6) by (intro exI [of _ "?m + j"] exI [of _ u]) (simp add: add.assoc)
    qed
  qed
qed

subsection \<open>Inodes on disk\<close>

lemma length_encode_dinode: "length (daddrs d) = Suc NDIRECT \<Longrightarrow> length (encode_dinode d) = 64"
  by (simp add: encode_dinode_def length_concat comp_def sum_list_triv NDIRECT_def)

lemma get32_drop: "get32 i (drop (4 * k) bs) = get32 (k + i) bs"
  by (simp add: get32_def add.commute)

lemma get32_words:
  "i < length xs \<Longrightarrow> get32 i (concat (map (\<lambda>a. le_bytes 4 (of_nat a :: uint32)) xs)) = of_nat (xs ! i)"
proof (induction xs arbitrary: i)
  case (Cons x xs)
  show ?case
  proof (cases i)
    case 0
    then show ?thesis by (simp add: get32_def)
  next
    case (Suc j)
    have "get32 (Suc j) (le_bytes 4 (of_nat x :: uint32) @ ys) = get32 j ys" for ys :: bytes
      by (simp add: get32_def)
    then show ?thesis using Cons Suc by simp
  qed
qed simp

lemma decode_encode_dinode:
  assumes "length (daddrs d) = Suc NDIRECT" "\<forall>a\<in>set (daddrs d). a < 2 ^ 32"
  shows "decode_dinode (encode_dinode d) = d"
proof -
  let ?w = "concat (map (\<lambda>a. le_bytes 4 (of_nat a :: uint32)) (daddrs d))"
  have "encode_dinode d = (le_bytes 2 (dtype d) @ le_bytes 2 (dmajor d) @ le_bytes 2 (dminor d) @ le_bytes 2 (dnlink d)
      @ le_bytes 4 (dsize d)) @ ?w" by (simp add: encode_dinode_def)
  then have "drop (4 * 3) (encode_dinode d) = ?w" by simp
  then have "get32 (3 + i) (encode_dinode d) = get32 i ?w" for i using get32_drop [of i 3 "encode_dinode d"] by simp
  then have "map (\<lambda>i. unat (get32 (3 + i) (encode_dinode d))) [0..<Suc NDIRECT] = daddrs d"
    using assms get32_words [of _ "daddrs d"] by (intro nth_equalityI) (auto simp: unat_of_nat take_bit_nat_eq_self simp del: upt_Suc)
  moreover have "get16 0 (encode_dinode d) = dtype d" "get16 2 (encode_dinode d) = dmajor d"
    "get16 4 (encode_dinode d) = dminor d" "get16 6 (encode_dinode d) = dnlink d" "get32 2 (encode_dinode d) = dsize d"
    by (simp_all add: get16_def get32_def encode_dinode_def)
  ultimately show ?thesis by (simp add: decode_dinode_def del: upt_Suc)
qed

lemma dinode_slot: "n mod IPB < 16" "64 * (n mod IPB) + 64 \<le> BSIZE"
  using mod_less_divisor [of IPB n] by (simp_all add: IPB_def BSIZE_def)

lemma length_put_dinode:
  "length (daddrs d) = Suc NDIRECT \<Longrightarrow> length bs = BSIZE \<Longrightarrow> length (put_dinode n d bs) = BSIZE"
  using dinode_slot [of n] by (simp add: put_dinode_def length_encode_dinode)

lemma dinode_at_put:
  assumes "length (daddrs d) = Suc NDIRECT" "\<forall>a\<in>set (daddrs d). a < 2 ^ 32" "length bs = BSIZE"
  shows "dinode_at n (put_dinode n d bs) = d"
    "k mod IPB \<noteq> n mod IPB \<Longrightarrow> dinode_at k (put_dinode n d bs) = dinode_at k bs"
proof -
  note l = length_encode_dinode [OF assms(1)]
  have "take 64 (drop (64 * (n mod IPB)) (put_dinode n d bs)) = encode_dinode d"
    using l assms(3) dinode_slot [of n] by (simp add: put_dinode_def splice_def)
  then show "dinode_at n (put_dinode n d bs) = d" using decode_encode_dinode [OF assms(1,2)] by (simp add: dinode_at_def)
  assume k: "k mod IPB \<noteq> n mod IPB"
  have "take 64 (drop (64 * (k mod IPB)) (put_dinode n d bs)) = take 64 (drop (64 * (k mod IPB)) bs)"
  proof (rule nth_equalityI)
    fix j assume "j < length (take 64 (drop (64 * (k mod IPB)) (put_dinode n d bs)))"
    then have j: "j < 64" by simp
    have "64 * (k mod IPB) + j < 64 * (n mod IPB) \<or> 64 * (n mod IPB) + 64 \<le> 64 * (k mod IPB) + j" using k j by linarith
    then show "take 64 (drop (64 * (k mod IPB)) (put_dinode n d bs)) ! j = take 64 (drop (64 * (k mod IPB)) bs) ! j"
      using j l assms(3) dinode_slot [of n] dinode_slot [of k] by (auto simp: put_dinode_def nth_splice)
  qed (use l assms(3) dinode_slot [of n] in \<open>simp add: length_put_dinode [OF assms(1,3)]\<close>)
  then show "dinode_at k (put_dinode n d bs) = dinode_at k bs" by (simp add: dinode_at_def)
qed

lemma iupdate_ok:
  fixes s :: "'z fs_state_scheme"
  assumes tx: "ftx p {} s" and fs: "fs_ok s" and ok: "imap_ok s ip" and room: "length (logged s) < NBUF"
  defines "ib \<equiv> IBLOCK (inum (inodes s ip)) (sb s)" and "d \<equiv> to_dinode (inodes s ip)"
  shows "\<exists>t. iupdate ip s = Ret () t \<and> ftx p {} t \<and> fmove {} s t \<and> fs_ok t \<and> imap_ok t ip
    \<and> faddr t ip = faddr s ip \<and> blk t = (blk s)(ib := put_dinode (inum (inodes s ip)) d (blk s ib))
    \<and> (\<forall>a. file_block s a \<longrightarrow> blk t a = blk s a) \<and> used t = used s \<and> logged t = log_add (logged s) ib"
proof -
  note D = imap_okD [OF ok]
  have o: "outside (log_start s) ib" "ib \<noteq> bmb s" using fs_okD(3) [OF fs D(3)] by (auto simp: ib_def)
  have "inum (inodes s ip) div IPB \<le> sb_ninodes (sb s) div IPB" using D(3) by (intro div_le_mono) simp
  then have meta: "fs_meta s ib" by (auto simp: fs_meta_def ib_def IBLOCK_def)
  have len: "length (put_dinode (inum (inodes s ip)) d (blk s ib)) = BSIZE"
    using length_put_dinode ftx_blk_length [OF tx] D(1) by (simp add: d_def to_dinode_def)
  have "iupdate ip s = log_update ib (put_dinode (inum (inodes s ip)) d) s"
    using D(2) by (simp add: iupdate_def log_update_def ib_def d_def)
  then obtain t where t: "iupdate ip s = Ret () t" "ftx p {} t" "fmove {} s t"
      "blk t = (blk s)(ib := put_dinode (inum (inodes s ip)) d (blk s ib))" "logged t = log_add (logged s) ib"
    using ftx_update [where f = "put_dinode (inum (inodes s ip)) d", OF tx _ _ o(1) len] room by auto
  note m = fmove_bmb [OF t(3)] fmove_fs [OF t(3)]
  have u: "used t = used s" using m t(4) o(2) by (simp add: used_def fun_eq_iff)
  have fb: "file_block t = file_block s" using m u by (simp add: file_block_def fun_eq_iff)
  have b: "blk t a = blk s a" if "file_block s a" for a using that meta t(4) by (auto simp: file_block_def)
  have i: "ind_of t ip = ind_of s ip" using m by (simp add: ind_of_def)
  have f: "faddr t ip = faddr s ip" using m i b D(4) by (auto simp: faddr_def fun_eq_iff)
  have "fs_ok t" "imap_ok t ip" using fs ok m u fb i f by (simp_all add: fs_ok_def imap_ok_def)
  then show ?thesis using t f b u by blast
qed

text \<open>The size is no part of the map of a file.\<close>

lemma isize_file [simp]:
  fixes s :: "'z fs_state_scheme" and ip :: nat and v :: uint32
  defines "t \<equiv> s\<lparr>inodes := (inodes s)(ip := (inodes s ip)\<lparr>isize := v\<rparr>)\<rparr>"
  shows "ind_of t ip = ind_of s ip" "faddr t ip = faddr s ip" "imap_ok t ip = imap_ok s ip" "fbyte t ip = fbyte s ip"
proof -
  show i: "ind_of t ip = ind_of s ip" and f: "faddr t ip = faddr s ip"
    by (simp_all add: t_def ind_of_def faddr_def fun_eq_iff)
  show "fbyte t ip = fbyte s ip" using f by (simp add: fbyte_def fun_eq_iff t_def Let_def)
  show "imap_ok t ip = imap_ok s ip" unfolding imap_ok_def i f by (simp add: t_def)
qed

subsection \<open>writei\<close>

text \<open>
  What \<^verbatim>\<open>writei\<close> leaves: \<open>bs\<close> are the bytes it took, the rest of the file and the blocks of all other
  files are as before, the inode on disk is the one in memory, and no other inode on disk has changed.
\<close>

definition synced :: "'z fs_state_scheme \<Rightarrow> nat \<Rightarrow> bool" where
  "synced s ip \<longleftrightarrow> dinode_at (inum (inodes s ip)) (blk s (IBLOCK (inum (inodes s ip)) (sb s))) = to_dinode (inodes s ip)"

definition others_on_disk :: "nat \<Rightarrow> 'z fs_state_scheme \<Rightarrow> 'z fs_state_scheme \<Rightarrow> bool" where
  "others_on_disk ip s t \<longleftrightarrow> (\<forall>n < sb_ninodes (sb s). n \<noteq> inum (inodes s ip) \<and> IBLOCK n (sb s) \<in> {2..<sb_size (sb s)} \<longrightarrow>
     dinode_at n (blk t (IBLOCK n (sb s))) = dinode_at n (blk s (IBLOCK n (sb s))))"

definition writei_post :: "nat \<Rightarrow> nat \<Rightarrow> bytes \<Rightarrow> 'z fs_state_scheme \<Rightarrow> 'z fs_state_scheme \<Rightarrow> bool" where
  "writei_post ip off bs s t \<longleftrightarrow> fs_ok t \<and> imap_ok t ip \<and> smove s t
     \<and> (\<forall>i < MAXFILE * BSIZE. fbyte t ip i = (if off \<le> i \<and> i < off + length bs then bs ! (i - off) else fbyte s ip i))
     \<and> (\<forall>i. off \<le> i \<and> i < off + length bs \<longrightarrow> faddr t ip (i div BSIZE) \<noteq> 0)
     \<and> (\<forall>k<MAXFILE. faddr s ip k \<noteq> 0 \<longrightarrow> faddr t ip k = faddr s ip k)
     \<and> inodes t = (inodes s)(ip := (inodes s ip)\<lparr>iaddrs := iaddrs (inodes t ip), isize := isize (inodes t ip)\<rparr>)
     \<and> unat (isize (inodes t ip)) = max (unat (isize (inodes s ip))) (off + length bs)
     \<and> synced t ip \<and> others_on_disk ip s t
     \<and> (\<forall>c. used t c \<longleftrightarrow> used s c \<or> fblock t ip c)
     \<and> (\<forall>c. fblock s ip c \<longrightarrow> fblock t ip c) \<and> (\<forall>c. fblock t ip c \<and> used s c \<longrightarrow> fblock s ip c)
     \<and> (\<forall>c. file_block s c \<and> \<not> fblock s ip c \<longrightarrow> blk t c = blk s c)"

lemma imap_addrs_small:
  assumes ok: "imap_ok s ip" and fs: "fs_ok s"
  shows "\<forall>a\<in>set (iaddrs (inodes s ip)). a < 2 ^ 32"
proof
  fix a assume "a \<in> set (iaddrs (inodes s ip))"
  then obtain k where k: "k \<le> NDIRECT" "a = iaddrs (inodes s ip) ! k"
    using imap_okD(1) [OF ok] by (metis in_set_conv_nth less_Suc_eq_le)
  have "a = 0 \<or> file_block s a"
    using k imap_okD(4) [OF ok] imap_okD(5) [OF ok, of k] by (cases "k = NDIRECT") (auto simp: ind_of_def faddr_def MAXFILE_def)
  then show "a < 2 ^ 32" using fs_okD(1) [OF fs] by (auto simp: file_block_def BPB_def BSIZE_def)
qed

lemma MAXFILE_small: "n \<le> MAXFILE * BSIZE \<Longrightarrow> n < 2 ^ 31"
  by (simp add: MAXFILE_def NDIRECT_def NINDIRECT_def BSIZE_def)

lemma fblock_used: "imap_ok s ip \<Longrightarrow> fblock s ip c \<Longrightarrow> used s c"
  by (auto simp: fblock_def dest: imap_okD(4,5) file_blockD)

lemma fkept_fblock:
  assumes "fkept ip s t"
  shows "fblock s ip c \<Longrightarrow> fblock t ip c" "fblock t ip c \<and> used s c \<Longrightarrow> fblock s ip c"
proof -
  note K = fkeptD(4,5) [OF assms]
  have "c \<in> faddr s ip ` {..<MAXFILE} \<Longrightarrow> c \<noteq> 0 \<Longrightarrow> c \<in> faddr t ip ` {..<MAXFILE}" using K(2) by force
  then show "fblock s ip c \<Longrightarrow> fblock t ip c" using K(1) by (auto simp: fblock_def)
  have "c \<in> faddr t ip ` {..<MAXFILE} \<Longrightarrow> used s c \<Longrightarrow> c \<in> faddr s ip ` {..<MAXFILE}" using K(2) by force
  then show "fblock t ip c \<and> used s c \<Longrightarrow> fblock s ip c" using K(1) by (auto simp: fblock_def)
qed

text \<open>The inode blocks are no blocks of a file, so an operation on a file's content leaves them alone.\<close>

lemma inode_blocks_kept:
  fixes t :: "'z fs_state_scheme"
  assumes fs: "fs_ok t" and ok: "imap_ok t ip" and k: "fkept ip s t"
    and n: "n < sb_ninodes (sb s)" "IBLOCK n (sb s) \<in> {2..<sb_size (sb s)}"
  shows "blk t (IBLOCK n (sb s)) = blk s (IBLOCK n (sb s))"
proof -
  let ?c = "IBLOCK n (sb s)"
  note K = fkeptD [OF k]
  have e: "sb t = sb s" "bmb t = bmb s" using smove_fields(1) [OF K(1)] smove_bmb(1) [OF K(1)] by simp_all
  have "n div IPB \<le> sb_ninodes (sb s) div IPB" using n(1) by (intro div_le_mono) simp
  then have meta: "fs_meta t ?c" using e by (auto simp: fs_meta_def IBLOCK_def)
  then have nf: "\<not> fblock t ip ?c" using imap_okD(4,5) [OF ok] by (auto simp: fblock_def file_block_def)
  have "used t ?c" using fs_okD(4) [OF fs, of ?c] meta n(2) e by simp
  then have us: "used s ?c" using K(7) nf by blast
  have "\<not> fblock s ip ?c" using fkept_fblock(1) [OF k] nf by blast
  then have "?c \<noteq> ind_of s ip" "?c \<notin> faddr s ip ` {..<MAXFILE}" using n(2) by (auto simp: fblock_def)
  moreover have "?c \<noteq> bmb s" using fs_okD(3) [OF fs, of n] n(1) e by simp
  ultimately show ?thesis using K(6) [OF us] by blast
qed

lemma others_put:
  assumes b: "\<And>n. n < sb_ninodes (sb s) \<Longrightarrow> IBLOCK n (sb s) \<in> {2..<sb_size (sb s)} \<Longrightarrow> blk t (IBLOCK n (sb s)) = blk s (IBLOCK n (sb s))"
    and d: "length (daddrs d) = Suc NDIRECT" "\<forall>a\<in>set (daddrs d). a < 2 ^ 32" and l: "\<And>c. length (blk t c) = BSIZE"
    and u: "blk u = (blk t)(IBLOCK (inum (inodes s ip)) (sb s) :=
      put_dinode (inum (inodes s ip)) d (blk t (IBLOCK (inum (inodes s ip)) (sb s))))"
  shows "others_on_disk ip s u"
  unfolding others_on_disk_def
proof (intro allI impI, elim conjE)
  fix n assume n: "n < sb_ninodes (sb s)" "n \<noteq> inum (inodes s ip)" "IBLOCK n (sb s) \<in> {2..<sb_size (sb s)}"
  let ?i = "inum (inodes s ip)"
  show "dinode_at n (blk u (IBLOCK n (sb s))) = dinode_at n (blk s (IBLOCK n (sb s)))"
  proof (cases "IBLOCK n (sb s) = IBLOCK ?i (sb s)")
    case True
    then have "n mod IPB \<noteq> ?i mod IPB" using n(2) by (metis IBLOCK_def add_right_cancel mult_div_mod_eq)
    then have "dinode_at n (put_dinode ?i d (blk t (IBLOCK n (sb s)))) = dinode_at n (blk t (IBLOCK n (sb s)))"
      by (rule dinode_at_put(2) [OF d l])
    then show ?thesis using True u b [OF n(1,3)] by simp
  next
    case False
    then show ?thesis using u b [OF n(1,3)] by simp
  qed
qed

lemma writei_finish:
  fixes t :: "'z fs_state_scheme"
  assumes tx: "ftx p {} t" and fw: "fwrote ip (unat off) bs s t" and room: "wlog t ip < NBUF"
    and fit: "unat off + length bs \<le> MAXFILE * BSIZE"
  defines "off' \<equiv> off + of_nat (length bs)"
  defines "t1 \<equiv> if off' > isize (inodes s ip) then t\<lparr>inodes := (inodes t)(ip := (inodes t ip)\<lparr>isize := off'\<rparr>)\<rparr> else t"
  shows "\<exists>u. iupdate ip t1 = Ret () u \<and> ftx p {} u \<and> writei_post ip (unat off) bs s u
    \<and> used u = used t \<and> sb u = sb t \<and> length (logged u) \<le> Suc (length (logged t))"
proof -
  have T: "fs_ok t" "imap_ok t ip" "fkept ip s t" using fw by (auto simp: fwrote_def)
  note K = fkeptD [OF T(3)]
  have ino: "inodes t ip = (inodes s ip)\<lparr>iaddrs := iaddrs (inodes t ip)\<rparr>" using K(2) by (metis fun_upd_same)
  have uo: "unat off' = unat off + length bs"
    using MAXFILE_small [OF fit] by (simp add: off'_def unat_word_ariths unat_of_nat take_bit_nat_eq_self)
  have t1: "ftx p {} t1" "fs_ok t1" "imap_ok t1 ip" "faddr t1 ip = faddr t ip" "fbyte t1 ip = fbyte t ip" "blk t1 = blk t"
    "used t1 = used t" "file_block t1 = file_block t" "sb t1 = sb t" "logged t1 = logged t"
    using tx T by (simp_all add: t1_def)
  have i1: "inodes t1 = (inodes s)(ip := (inodes s ip)\<lparr>iaddrs := iaddrs (inodes t1 ip), isize := isize (inodes t1 ip)\<rparr>)"
  proof -
    have up: "(inodes t)(ip := x) = (inodes s)(ip := x)" for x by (subst K(2)) simp
    have x1: "(inodes t ip)\<lparr>isize := v\<rparr> = (inodes s ip)\<lparr>iaddrs := iaddrs (inodes t ip), isize := v\<rparr>" for v
      by (subst ino) simp
    have x2: "inodes t ip = (inodes s ip)\<lparr>iaddrs := iaddrs (inodes t ip), isize := isize (inodes t ip)\<rparr>"
      using x1 [of "isize (inodes t ip)"] by simp
    have "inodes t = (inodes s)(ip := inodes t ip)" using up [of "inodes t ip"] by simp
    then show ?thesis using x1 x2 up by (cases "isize (inodes s ip) < off'") (simp_all add: t1_def)
  qed
  have sz: "unat (isize (inodes t1 ip)) = max (unat (isize (inodes s ip))) (unat off + length bs)"
    using uo arg_cong [OF ino, of isize] by (auto simp: t1_def word_less_nat_alt max_def)
  have sm1: "smove s t1" using smove_trans [OF K(1) smove_inodes] K(1) by (simp add: t1_def)
  obtain u where u: "iupdate ip t1 = Ret () u" "ftx p {} u" "fmove {} t1 u" "fs_ok u" "imap_ok u ip" "faddr u ip = faddr t ip"
      "blk u = (blk t)(IBLOCK (inum (inodes t1 ip)) (sb t1) := put_dinode (inum (inodes t1 ip)) (to_dinode (inodes t1 ip))
         (blk t (IBLOCK (inum (inodes t1 ip)) (sb t1))))"
      "\<And>a. file_block t a \<Longrightarrow> blk u a = blk t a" "used u = used t"
      "logged u = log_add (logged t) (IBLOCK (inum (inodes t1 ip)) (sb t1))"
    using iupdate_ok [OF t1(1-3)] wlog_logged [OF tx, of ip] room t1 by auto
  have iu: "inodes u = inodes t1" "sb u = sb t1" using fmove_fs [OF u(3)] by auto
  have ds: "length (daddrs (to_dinode (inodes t1 ip))) = Suc NDIRECT" "\<forall>a\<in>set (daddrs (to_dinode (inodes t1 ip))). a < 2 ^ 32"
    using imap_okD(1) [OF t1(3)] imap_addrs_small [OF t1(3,2)] by (simp_all add: to_dinode_def)
  have di: "synced u ip" using u(7) iu dinode_at_put(1) [OF ds] ftx_blk_length [OF tx] by (simp add: synced_def)
  have "inum (inodes t1 ip) = inum (inodes s ip)" using i1 by (metis fun_upd_same inode.select_convs(2) inode.surjective inode.update_convs(9,10))
  then have od: "others_on_disk ip s u"
    using inode_blocks_kept [OF T] u(7) t1(9) smove_fields(1) [OF K(1)] ds ftx_blk_length [OF tx]
    by (intro others_put [where d = "to_dinode (inodes t1 ip)" and t = t]) simp_all
  have fb: "fbyte u ip i = fbyte t ip i" if "i < MAXFILE * BSIZE" for i
    using u(6,8) imap_okD(5) [OF T(2) less_mult_imp_div_less [OF that]] by (auto simp: fbyte_def Let_def)
  have oth: "blk u c = blk s c" if "file_block s c" "\<not> fblock s ip c" for c
  proof -
    have that': "c \<noteq> ind_of s ip" "c \<notin> faddr s ip ` {..<MAXFILE}" using that by (auto simp: fblock_def file_block_def fs_meta_def)
    have "file_block t c" using that(1) K(3) smove_bmb [OF K(1)] smove_fields(1) [OF K(1)] by (auto simp: file_block_def)
    then show ?thesis using u(8) K(6) that(1) that' file_blockD by metis
  qed
  have fk: "faddr u ip k = faddr s ip k" if "k < MAXFILE" "faddr s ip k \<noteq> 0" for k
    using K(5) [OF that(1)] that(2) u(6) by auto
  have fbu: "fblock u ip c = fblock t ip c" for c
    using u(6) iu(1) K(2) by (simp add: fblock_def ind_of_def t1_def)
  note mono = fkept_fblock [OF T(3), folded fbu]
  from fbu have us: "used u c \<longleftrightarrow> used s c \<or> fblock u ip c" for c
    using u(9) K(3,7) fblock_used [OF T(2)] by auto
  have "writei_post ip (unat off) bs s u"
    unfolding writei_post_def
  proof (intro conjI)
    show "fs_ok u" "imap_ok u ip" by (fact u)+
    show "smove s u" by (rule smove_trans [OF sm1 smove_fmove [OF u(3)]])
    show "\<forall>i. unat off \<le> i \<and> i < unat off + length bs \<longrightarrow> faddr u ip (i div BSIZE) \<noteq> 0"
      "\<forall>i < MAXFILE * BSIZE. fbyte u ip i = (if unat off \<le> i \<and> i < unat off + length bs then bs ! (i - unat off) else fbyte s ip i)"
      using fw fb u(6) by (simp_all add: fwrote_def)
    show "inodes u = (inodes s)(ip := (inodes s ip)\<lparr>iaddrs := iaddrs (inodes u ip), isize := isize (inodes u ip)\<rparr>)"
      "unat (isize (inodes u ip)) = max (unat (isize (inodes s ip))) (unat off + length bs)"
      unfolding iu by (rule i1, rule sz)
  qed (use di od fk oth us mono in \<open>auto simp only:\<close>)
  then show ?thesis using u(1,2,9,10) iu(2) t1(9) length_log_add by auto
qed

lemma writei_ok:
  fixes s :: "'z fs_state_scheme"
  assumes tx: "ftx p {} s" and fs: "fs_ok s" and ok: "imap_ok s ip" and src: "source p s q bs" "length bs = unat n"
    and off: "off \<le> isize (inodes s ip)" and fit: "unat off + unat n \<le> MAXFILE * BSIZE"
    and room: "wlog s ip + nblk (unat off) (unat n) + 3 < NBUF"
  shows "\<exists>j t. writei ip q off n s = Ret (int j) t \<and> j \<le> length bs \<and> ftx p {} t \<and> writei_post ip (unat off) (take j bs) s t
    \<and> (j < length bs \<longrightarrow> (\<forall>b < sb_size (sb t). used t b)) \<and> length (logged t) \<le> wlog s ip + nblk (unat off) (unat n) + 1"
proof -
  have on: "unat (off + n) = unat off + unat n" using MAXFILE_small [OF fit] by (simp add: unat_word_ariths)
  have guard: "\<not> off + n < off" using on by (simp add: word_less_nat_alt)
  have "unat off mod BSIZE + unat n \<le> (unat n div BSIZE + 2) * BSIZE"
    unfolding distrib_right
    using mod_less_divisor [OF BSIZE_pos, of "unat off"] mod_less_divisor [OF BSIZE_pos, of "unat n"]
      div_mult_mod_eq [of "unat n" BSIZE] by linarith
  then obtain j t where t: "writei_loop (Suc (unat n div BSIZE + 2)) ip q (unat off) (unat n) 0 s = Ret j t" "j \<le> length bs"
      "ftx p {} t" "fwrote ip (unat off) (take j bs) s t" "wlog t ip \<le> wlog s ip + nblk (unat off) (unat n)"
      "j < length bs \<longrightarrow> (\<forall>b < sb_size (sb t). used t b)"
    using writei_loop_ok [OF tx fs ok src(1), where tot = 0 and n = "unat n" and off = "unat off" and k = "unat n div BSIZE + 2"]
      src(2) fit room by auto
  have lj: "length (take j bs) = j" using t(2) by simp
  have "fkept ip s t" using t(4) by (simp add: fwrote_def)
  then have "inodes t ip = (inodes s ip)\<lparr>iaddrs := iaddrs (inodes t ip)\<rparr>" using fkeptD(2) by (metis fun_upd_same)
  from arg_cong [OF this, of isize] have sz: "isize (inodes t ip) = isize (inodes s ip)" by simp
  have jm: "unat off + length (take j bs) \<le> MAXFILE * BSIZE" using fit t(2) src(2) unfolding lj by linarith
  obtain u where u: "iupdate ip (if off + of_nat j > isize (inodes s ip)
        then t\<lparr>inodes := (inodes t)(ip := (inodes t ip)\<lparr>isize := off + of_nat j\<rparr>)\<rparr> else t) = Ret () u" "ftx p {} u"
      "writei_post ip (unat off) (take j bs) s u" "used u = used t" "sb u = sb t" "length (logged u) \<le> Suc (length (logged t))"
    using writei_finish [OF t(3,4) _ jm] t(5) room unfolding lj by auto
  have "to_int j = int j"
    using MAXFILE_small [of j] t(2) src(2) fit by (simp add: to_int_def signed_of_nat signed_take_bit_int_eq_self)
  moreover have "rw_fuel (unat n) = Suc (unat n div BSIZE + 2)" by (simp add: rw_fuel_def)
  ultimately have "writei ip q off n s = Ret (int j) u"
    using t(1) u(1) off fit on guard sz
    by (cases "isize (inodes s ip) < off + of_nat j")
       (simp_all add: writei_def upd_inode_def Let_def del: writei_loop.simps flip: not_le)
  moreover have "length (logged u) \<le> wlog s ip + nblk (unat off) (unat n) + 1"
    using u(6) t(5) wlog_logged [OF t(3), of ip] by linarith
  ultimately show ?thesis using t(2,6) u(2-5) by auto
qed

end
