(* ===== verification/Fsread.thy ===== *)
theory Fsread
  imports Fsfile
begin

section \<open>Reading files\<close>

text \<open>
  \<^verbatim>\<open>readi\<close> delivers the bytes of the file to a buffer in user memory, in kernel memory or on the
  kernel stack. What it needs of such a buffer is the contract \<open>byte_sink\<close>: room for the bytes, which
  \<^verbatim>\<open>either_copyout\<close> uses up from the front. \<open>readi\<close> is verified against the contract once; each of the
  three kinds of buffer provides it.
\<close>

subsection \<open>Moves that change memory\<close>

abbreviation stored :: "'z fs_state_scheme \<Rightarrow> memory \<Rightarrow> bytes \<Rightarrow> 'z fs_state_scheme" where
  "stored s m x \<equiv> s\<lparr>mem := m, scratch := x\<rparr>"

lemma stored_machine [simp]:
  "bio_restore (stored s m x) t = bio_restore s t"
  "bio_restore s (stored t m x) = stored (bio_restore s t) m x"
  "calm (stored s m x) t = calm s t" "calm s (stored t m x) = calm s t" "idle p (stored s m x) = idle p s"
  by (simp_all add: bio_restore_def calm_def idle_def)

lemma stored_frd [simp]:
  "bio_ok P H (stored s m x) = bio_ok P H s" "blk (stored s m x) = blk s" "frd p H (stored s m x) = frd p H s"
  "logged (stored s m x) = logged s"
proof -
  show b: "bio_ok P H (stored s m x) = bio_ok P H s" for P H by (rule bio_ok_cong; simp add: mypid_def)
  show "blk (stored s m x) = blk s" by (intro ext) (simp add: blk_def split: option.split)
  show "logged (stored s m x) = logged s" by (simp add: logged_def)
  then show "frd p H (stored s m x) = frd p H s" by (simp add: frd_def b txn_ok_def log_wf_def)
qed

definition rmove :: "'z fs_state_scheme \<Rightarrow> 'z fs_state_scheme \<Rightarrow> bool" where
  "rmove s t \<longleftrightarrow> fmove {} (stored s (mem t) (scratch t)) t"

lemma stored_fmove: "fmove {} (stored s m x) (stored t m x) \<longleftrightarrow> (\<exists>m x. fmove {} (stored s m x) (stored t m x))"
  by (auto simp: fmove_def log_frame_eq dest: arg_cong [where f = "\<lambda>z. stored z m x"])

lemma rmove_fmove: "fmove H s t \<Longrightarrow> rmove s t"
  using fmove_mono [of H s t "{}"] fmove_fs(3,4) [of H s t] by (simp add: rmove_def)

lemma rmove_stored: "rmove s (stored s m x)"
  by (simp add: rmove_def)

lemma rmove_trans:
  assumes "rmove s t" "rmove t u"
  shows "rmove s u"
proof -
  have "fmove {} (stored s (mem t) (scratch t)) (stored t (mem t) (scratch t))" using assms(1) by (simp add: rmove_def)
  then have "fmove {} (stored s (mem u) (scratch u)) (stored t (mem u) (scratch u))" using stored_fmove by blast
  then show ?thesis using assms(2) fmove_trans unfolding rmove_def by blast
qed

lemma rmove_fields:
  assumes "rmove s t"
  shows "sb t = sb s" "inodes t = inodes s"
  using fmove_fs [OF assms [unfolded rmove_def]] by auto

lemma rmove_file:
  assumes "rmove s t" "blk t = blk s"
  shows "faddr t ip bn = faddr s ip bn" "fbyte t ip i = fbyte s ip i" "imap_ok t ip = imap_ok s ip"
proof -
  note f = rmove_fields [OF assms(1)] assms(2)
  have i: "ind_of t ip = ind_of s ip" using f by (simp add: ind_of_def)
  show a: "faddr t ip bn = faddr s ip bn" for bn using f i by (simp add: faddr_def)
  show "fbyte t ip i = fbyte s ip i" using f a by (simp add: fbyte_def Let_def)
  have "file_block t b = file_block s b" for b
    using f smove_bmb [OF smove_fmove [OF assms(1) [unfolded rmove_def]]]
    by (simp add: file_block_def used_def bmb_def fs_meta_def)
  then show "imap_ok t ip = imap_ok s ip" using f i a by (simp add: imap_ok_def)
qed

lemma frd_touch:
  fixes s :: "'z fs_state_scheme"
  assumes "frd p H s"
  shows "frd p H (touch s)" "fmove H s (touch s)" "logged (touch s) = logged s" "blk (touch s) = blk s"
proof -
  have lk: "lkok s" using frd_idle(1) [OF assms] by (simp add: idle_def)
  show m: "fmove H s (touch s)" using lk by (simp add: fmove_def log_frame_eq calm_def)
  show "frd p H (touch s)" "logged (touch s) = logged s" "blk (touch s) = blk s"
    by (rule frd_cong(1,3,4) [OF m]; simp add: mypid_def assms)+
qed

lemma fmove_memory: "fmove H s t \<Longrightarrow> same_memory p s t"
  by (rule smove_memory [OF smove_fmove])

subsection \<open>Mapped blocks\<close>

lemma bmap_mapped:
  fixes s :: "'z fs_state_scheme"
  assumes tx: "frd p {} s" and ok: "imap_ok s ip" and bn: "bn < MAXFILE" "faddr s ip bn \<noteq> 0"
    and room: "length (logged s) < NBUF"
  shows "\<exists>t. bmap ip bn s = Ret (faddr s ip bn) t \<and> frd p {} t \<and> fmove {} s t \<and> blk t = blk s \<and> logged t = logged s"
proof (cases "bn < NDIRECT")
  case True
  then show ?thesis using bn tx by (intro exI [of _ s]) (simp add: bmap_def faddr_def Let_def)
next
  case False
  then have k: "bn - NDIRECT < NINDIRECT" using bn by (auto simp: MAXFILE_def)
  have dev: "idev (inodes s ip) = ROOTDEV" by (rule imap_okD(2) [OF ok])
  have ind: "ind_of s ip \<noteq> 0" and fa: "faddr s ip bn = unat (get32 (bn - NDIRECT) (blk s (ind_of s ip)))"
    using False bn(2) by (auto simp: faddr_def split: if_splits)
  obtain i u where u: "bread ROOTDEV (ind_of s ip) s = Ret i u" "frd p {i} u" "fmove {} s u"
      "bdata (bufs u i) = blk s (ind_of s ip)" "blk u = blk s" "logged u = logged s"
    using frd_bread [OF tx, of "ind_of s ip"] room by auto
  obtain t where t: "brelse i u = Ret () t" "frd p {} t" "fmove {i} u t" "blk t = blk u" "logged t = logged u"
    using frd_brelse [OF u(2), of i] by auto
  have "fmove {} s t" using fmove_trans [OF u(3) fmove_mono [OF t(3)]] by simp
  moreover have "get32 (bn - NDIRECT) (blk s (ind_of s ip)) \<noteq> 0" using fa bn(2) by auto
  ultimately show ?thesis
    using False k dev ind fa u t by (intro exI [of _ t]) (simp add: bmap_def ind_of_def Let_def bytes_of_def)
qed

definition mapped :: "'z fs_state_scheme \<Rightarrow> nat \<Rightarrow> nat \<Rightarrow> nat \<Rightarrow> bool" where
  "mapped s ip off n \<longleftrightarrow> (\<forall>i \<in> {off..<off + n}. faddr s ip (i div BSIZE) \<noteq> 0)"

definition fbytes :: "'z fs_state_scheme \<Rightarrow> nat \<Rightarrow> nat \<Rightarrow> nat \<Rightarrow> bytes" where
  "fbytes s ip off n = map (fbyte s ip) [off..<off + n]"

lemma length_fbytes [simp]: "length (fbytes s ip off n) = n"
  by (simp add: fbytes_def)

lemma fbytes_add: "fbytes s ip off (m + n) = fbytes s ip off m @ fbytes s ip (off + m) n"
  using upt_add_eq_append [of off "off + m" n] by (simp add: fbytes_def add.assoc)

lemma block_bytes:
  assumes "faddr s ip (off div BSIZE) \<noteq> 0" "off mod BSIZE + m \<le> BSIZE" "length (blk s (faddr s ip (off div BSIZE))) = BSIZE"
  shows "take m (drop (off mod BSIZE) (blk s (faddr s ip (off div BSIZE)))) = fbytes s ip off m"
proof (rule nth_equalityI)
  fix j
  assume "j < length (take m (drop (off mod BSIZE) (blk s (faddr s ip (off div BSIZE)))))"
  then have j: "j < m" by simp
  then have l: "off mod BSIZE + j < BSIZE" using assms(2) by simp
  have e: "off + j = off div BSIZE * BSIZE + (off mod BSIZE + j)" by (simp flip: add.assoc)
  have x: "(c * BSIZE + x) div BSIZE = c" "(c * BSIZE + x) mod BSIZE = x" if "x < BSIZE" for c x
    using that by simp_all
  have "(off + j) div BSIZE = off div BSIZE" "(off + j) mod BSIZE = off mod BSIZE + j"
    by (subst e, rule x [OF l])+
  then show "take m (drop (off mod BSIZE) (blk s (faddr s ip (off div BSIZE)))) ! j = fbytes s ip off m ! j"
    using j l assms by (simp add: fbytes_def fbyte_def)
qed (use assms in simp)

subsection \<open>Buffers that take bytes\<close>

locale byte_sink =
  fixes room :: "nat \<Rightarrow> 'z fs_state_scheme \<Rightarrow> kptr \<Rightarrow> nat \<Rightarrow> bool"
    and got :: "nat \<Rightarrow> 'z fs_state_scheme \<Rightarrow> kptr \<Rightarrow> bytes \<Rightarrow> 'z fs_state_scheme \<Rightarrow> bool"
  assumes room_memory: "room p s q n \<Longrightarrow> same_memory p s t \<Longrightarrow> idle p t \<Longrightarrow> room p t q n"
    and put: "idle p s \<Longrightarrow> room p s q (length bs + r) \<Longrightarrow>
      \<exists>m x. either_copyout q bs s = Ret 0 (stored (touch s) m x) \<and> got p s q bs (stored (touch s) m x)
        \<and> room p (stored (touch s) m x) (kptr_add q (length bs)) r"
    and got_Nil: "room p s q 0 \<Longrightarrow> got p s q [] s"
    and got_append: "room p s q (length bs + length cs) \<Longrightarrow> got p s q bs t \<Longrightarrow>
      got p t (kptr_add q (length bs)) cs u \<Longrightarrow> got p s q (bs @ cs) u"
    and got_memory: "got p s q bs t \<Longrightarrow> same_memory p s s' \<Longrightarrow> same_memory p t t' \<Longrightarrow> got p s' q bs t'"
begin


text \<open>One turn of the loop, and the loop.\<close>

definition fetched :: "nat \<Rightarrow> nat \<Rightarrow> 'z fs_state_scheme \<Rightarrow> kptr \<Rightarrow> bytes \<Rightarrow> nat \<Rightarrow> 'z fs_state_scheme \<Rightarrow> bool" where
  "fetched p ip s q bs r t \<longleftrightarrow> frd p {} t \<and> rmove s t \<and> blk t = blk s \<and> logged t = logged s
     \<and> got p s q bs t \<and> room p t (kptr_add q (length bs)) r"

lemma readi_turn:
  assumes tx: "frd p {} s" and ok: "imap_ok s ip" and rm: "room p s q r" "0 < r"
    and fit: "off + r \<le> MAXFILE * BSIZE" "mapped s ip off r" and log: "length (logged s) < NBUF" and n: "n = tot + r"
    and m: "m = min r (BSIZE - off mod BSIZE)"
  shows "\<exists>t. readi_loop (Suc k) ip q off n tot s = readi_loop k ip (kptr_add q m) (off + m) n (tot + m) t
    \<and> fetched p ip s q (fbytes s ip off m) (r - m) t"
proof -
  note c = chunk_step [OF rm(2) m]
  let ?a = "faddr s ip (off div BSIZE)" and ?bs = "fbytes s ip off m"
  have bn: "off div BSIZE < MAXFILE" by (rule less_mult_imp_div_less) (use fit rm(2) in linarith)
  have a: "?a \<noteq> 0" using fit(2) rm(2) by (auto simp: mapped_def)
  obtain u where u: "bmap ip (off div BSIZE) s = Ret ?a u" "frd p {} u" "fmove {} s u" "blk u = blk s" "logged u = logged s"
    using bmap_mapped [OF tx ok bn a log] by blast
  obtain i v where v: "bread ROOTDEV ?a u = Ret i v" "frd p {i} v" "fmove {} u v" "bdata (bufs v i) = blk u ?a"
      "blk v = blk u" "logged v = logged u"
    using frd_bread [OF u(2), of ?a] log u(5) by auto
  have sv: "same_memory p s v" using same_memory_trans [OF fmove_memory [OF u(3)] fmove_memory [OF v(3)]] .
  have iv: "idle p v" by (rule frd_idle(1) [OF v(2)])
  have "room p v q (length ?bs + (r - m))" using room_memory [OF rm(1) sv iv] c(2) by simp
  then obtain mm x where w: "either_copyout q ?bs v = Ret 0 (stored (touch v) mm x)" "got p v q ?bs (stored (touch v) mm x)"
      "room p (stored (touch v) mm x) (kptr_add q (length ?bs)) (r - m)"
    using put [OF iv] by blast
  define w1 where "w1 = stored (touch v) mm x"
  have fw: "frd p {i} w1" "fmove {i} v (touch v)" "logged w1 = logged v" "blk w1 = blk v"
    using frd_touch [OF v(2)] by (simp_all add: w1_def)
  obtain t where t: "brelse i w1 = Ret () t" "frd p {} t" "fmove {i} w1 t" "blk t = blk w1" "logged t = logged w1"
    using frd_brelse [OF fw(1) singletonI] unfolding Diff_cancel by blast
  have mv: "rmove s t"
    by (intro rmove_trans [OF rmove_fmove [OF u(3)]] rmove_trans [OF rmove_fmove [OF v(3)]]
        rmove_trans [OF rmove_fmove [OF fw(2)]] rmove_trans [OF rmove_stored [of "touch v" x mm, folded w1_def]] rmove_fmove [OF t(3)])
  have sw: "same_memory p w1 t" by (rule fmove_memory [OF t(3)])
  have "same_memory p v s" using sv by (simp add: same_memory_def)
  then have "got p s q ?bs t" by (rule got_memory [OF w(2) [folded w1_def] _ sw])
  moreover have "room p t (kptr_add q (length ?bs)) (r - m)" by (rule room_memory [OF w(3) [folded w1_def] sw frd_idle(1) [OF t(2)]])
  ultimately have "fetched p ip s q ?bs (r - m) t"
    using t mv fw u v by (simp add: fetched_def)
  moreover have "take m (drop (off mod BSIZE) (bdata (bufs v i))) = ?bs"
    using block_bytes [OF a c(3) frd_blk_length [OF tx]] v(4) u(4) by simp
  moreover have "idev (inodes u ip) = ROOTDEV" using imap_okD(2) [OF ok] fmove_fs(2) [OF u(3)] by simp
  ultimately show ?thesis
    using u(1) v(1) w(1) [folded w1_def] t(1) a n rm(2) m by (intro exI [of _ t]) (simp add: Let_def bytes_of_def)
qed

lemma fetched_trans:
  assumes "fetched p ip s q bs r t" "fetched p ip t (kptr_add q (length bs)) cs r' u" "room p s q (length bs + length cs)"
  shows "fetched p ip s q (bs @ cs) r' u"
  using assms rmove_trans got_append by (auto simp: fetched_def)

lemma readi_loop_ok:
  assumes "frd p {} s" "imap_ok s ip" "room p s q r" "off + r \<le> MAXFILE * BSIZE" "mapped s ip off r"
    "length (logged s) < NBUF" "n = tot + r" "off mod BSIZE + r \<le> k * BSIZE \<or> r = 0"
  shows "\<exists>t. readi_loop (Suc k) ip q off n tot s = Ret (to_int n) t \<and> fetched p ip s q (fbytes s ip off r) 0 t"
  using assms
proof (induction k arbitrary: q off tot r s)
  case 0
  then have "r = 0" by auto
  then show ?case using 0 got_Nil by (intro exI [of _ s]) (simp add: fetched_def fbytes_def rmove_fmove)
next
  case (Suc k)
  show ?case
  proof (cases "r = 0")
    case True
    then show ?thesis using Suc.prems got_Nil by (intro exI [of _ s]) (simp add: fetched_def fbytes_def rmove_fmove)
  next
    case False
    define m where "m = min r (BSIZE - off mod BSIZE)"
    have pos: "0 < r" using False by simp
    note c = chunk_step [OF pos m_def]
    obtain t where t: "readi_loop (Suc (Suc k)) ip q off n tot s = readi_loop (Suc k) ip (kptr_add q m) (off + m) n (tot + m) t"
        "fetched p ip s q (fbytes s ip off m) (r - m) t"
      using readi_turn [OF Suc.prems(1,2,3) pos Suc.prems(4,5,6,7) m_def] by blast
    have f: "frd p {} t" "rmove s t" "blk t = blk s" "logged t = logged s" "room p t (kptr_add q m) (r - m)"
      using t(2) by (simp_all add: fetched_def)
    note e = rmove_file [OF f(2,3)]
    have "mapped t ip (off + m) (r - m)" using Suc.prems(5) c(2) by (auto simp: mapped_def e)
    moreover have "(off + m) mod BSIZE + (r - m) \<le> k * BSIZE \<or> r - m = 0" using c(5) [of k] Suc.prems(8) pos by auto
    ultimately obtain u where u: "readi_loop (Suc k) ip (kptr_add q m) (off + m) n (tot + m) t = Ret (to_int n) u"
        "fetched p ip t (kptr_add q m) (fbytes t ip (off + m) (r - m)) 0 u"
      using Suc.IH [of t "kptr_add q m" "r - m" "off + m" "tot + m"] f Suc.prems c(2) e(3) by auto
    have "fbytes t ip (off + m) (r - m) = fbytes s ip (off + m) (r - m)" by (simp add: fbytes_def e)
    then have "fetched p ip s q (fbytes s ip off m @ fbytes s ip (off + m) (r - m)) 0 u"
      using fetched_trans [OF t(2), of "fbytes s ip (off + m) (r - m)" 0 u] u(2) Suc.prems(3) c(2) by simp
    then show ?thesis using t(1) u(1) c(2) fbytes_add [of s ip off m "r - m"] by simp
  qed
qed

lemma readi_ok:
  assumes tx: "frd p {} s" and ok: "imap_ok s ip" and log: "length (logged s) < NBUF"
    and off: "off \<le> isize (inodes s ip)" "unat off + unat n < 2 ^ 32" "unat (isize (inodes s ip)) \<le> MAXFILE * BSIZE"
    and c: "c = min (unat n) (unat (isize (inodes s ip)) - unat off)" and rm: "room p s q c" and mp: "mapped s ip (unat off) c"
  shows "\<exists>t. readi ip q off n s = Ret (int c) t \<and> fetched p ip s q (fbytes s ip (unat off) c) 0 t"
proof -
  let ?sz = "isize (inodes s ip)"
  have o: "unat off \<le> unat ?sz" using off(1) by (simp add: word_le_nat_alt)
  have add: "unat (off + n) = unat off + unat n" using off(2) by (simp add: unat_word_ariths)
  have n': "unat (if off + n > ?sz then ?sz - off else n) = c"
    using o add c by (auto simp: word_less_nat_alt unat_sub [OF off(1)])
  have le: "unat off + c \<le> MAXFILE * BSIZE" using c o off(3) by linarith
  have ti: "to_int c = int c" using MAXFILE_small [of c] le by (simp add: to_int_def signed_of_nat signed_take_bit_int_eq_self)
  have "unat off mod BSIZE + c \<le> (c div BSIZE + 2) * BSIZE"
    unfolding add_mult_distrib
    using div_mult_mod_eq [of c BSIZE] mod_less_divisor [OF BSIZE_pos, of c] mod_less_divisor [OF BSIZE_pos, of "unat off"]
    by linarith
  then obtain t where "readi_loop (rw_fuel c) ip q (unat off) c 0 s = Ret (to_int c) t"
      "fetched p ip s q (fbytes s ip (unat off) c) 0 t"
    using readi_loop_ok [OF tx ok rm le mp log, of c 0 "c div BSIZE + 2"] by (auto simp: rw_fuel_def numeral_3_eq_3)
  moreover have "\<not> off + n < off" "\<not> ?sz < off" using add o by (auto simp: word_less_nat_alt)
  ultimately show ?thesis using n' ti by (simp add: readi_def Let_def)
qed

end

subsection \<open>The three kinds of buffers\<close>

text \<open>
  \<open>has_room\<close>: an array on the kernel stack, a range of kernel memory, or a range of writable pages of
  the running process. \<open>received\<close>: the bytes are there and nothing else of memory has changed.
\<close>

fun has_room :: "nat \<Rightarrow> 'z fs_state_scheme \<Rightarrow> kptr \<Rightarrow> nat \<Rightarrow> bool" where
  "has_room p s (Local i) n \<longleftrightarrow> i + n \<le> length (scratch s)"
| "has_room p s (Kern a) n \<longleftrightarrow> n \<le> 2 ^ 64"
| "has_room p s (User va) n \<longleftrightarrow>
     (\<exists>ps. vmok s (ppagetable (procs s p)) ps \<and> writable_range (mem s) (ppagetable (procs s p)) ps va n)"

fun received :: "nat \<Rightarrow> 'z fs_state_scheme \<Rightarrow> kptr \<Rightarrow> bytes \<Rightarrow> 'z fs_state_scheme \<Rightarrow> bool" where
  "received p s (Local i) bs t \<longleftrightarrow> scratch t = splice i bs (scratch s) \<and> mem t = mem s"
| "received p s (Kern a) bs t \<longleftrightarrow> mem t = mem_write (mem s) a bs \<and> scratch t = scratch s"
| "received p s (User va) bs t \<longleftrightarrow> delivered (ppagetable (procs s p)) va bs (mem s) (mem t) \<and> scratch t = scratch s
     \<and> ppagetable (procs t p) = ppagetable (procs s p)"

lemma mem_write_append:
  assumes "length bs + length cs \<le> 2 ^ 64"
  shows "mem_write (mem_write m a bs) (a + of_nat (length bs)) cs = mem_write m a (bs @ cs)"
proof
  fix x :: uint64
  let ?n = "length bs"
  show "mem_write (mem_write m a bs) (a + of_nat ?n) cs x = mem_write m a (bs @ cs) x"
  proof (cases "cs = []")
    case False
    then have "?n < 2 ^ 64" using assms by (cases cs) auto
    then have n: "unat (of_nat ?n :: uint64) = ?n" by (simp add: unat_of_nat take_bit_nat_def)
    define y where "y = x - a"
    have e: "x - (a + of_nat ?n) = y - of_nat ?n" by (simp add: y_def)
    have "unat y < 2 ^ 64" using unsigned_less [of y] by simp
    then have "unat (y - of_nat ?n) = (if ?n \<le> unat y then unat y - ?n else unat y + 2 ^ 64 - ?n)"
      unfolding unat_sub_if_size n by (simp add: size_word.rep_eq)
    then show ?thesis using assms unfolding mem_write_def e y_def [symmetric] by (auto simp: nth_append)
  qed simp
qed

lemma splice_append:
  assumes "i + length bs + length cs \<le> length xs"
  shows "splice (i + length bs) cs (splice i bs xs) = splice i (bs @ cs) xs"
proof -
  have "min (length xs) i = i" using assms by simp
  then show ?thesis by (simp add: splice_def min_def add.assoc) (simp add: ac_simps)
qed

lemma writable_range_split:
  assumes "writable_range m pt ps va (k + n)"
  shows "writable_range m pt ps va k" "writable_range m pt ps (va + of_nat k) n"
    "i < k \<Longrightarrow> j < n \<Longrightarrow> phys m pt (va + of_nat i) \<noteq> phys m pt (va + of_nat k + of_nat j)"
proof -
  have e: "va + of_nat k + of_nat j = va + of_nat (k + j)" for j by (simp add: add.assoc)
  have inj: "inj_on (\<lambda>i. phys m pt (va + of_nat i)) {..<k + n}" and r: "user_range m pt va (k + n)"
    using assms by (auto simp: writable_range_def)
  show "writable_range m pt ps va k" using assms by (auto simp: writable_range_def user_range_def intro: inj_on_subset)
  have "unat (va + of_nat k) \<le> unat va + k"
    using unat_word_ariths(1) [of va "of_nat k"] by (simp add: unat_of_nat take_bit_nat_def)
  then have "user_range m pt (va + of_nat k) n" using r unfolding user_range_def e by (auto simp del: of_nat_add)
  moreover have "inj_on (\<lambda>i. phys m pt (va + of_nat (k + i))) {..<n}"
    using inj_onD [OF inj, of "k + _" "k + _"] by (intro inj_onI) fastforce
  ultimately show "writable_range m pt ps (va + of_nat k) n" using assms unfolding writable_range_def e by (auto simp del: of_nat_add)
  show "i < k \<Longrightarrow> j < n \<Longrightarrow> phys m pt (va + of_nat i) \<noteq> phys m pt (va + of_nat k + of_nat j)"
    using inj_onD [OF inj, of i "k + j"] unfolding e by auto
qed

lemma delivered_nth:
  assumes "delivered pt va bs m m'" "i < length bs"
  shows "m' (phys m pt (va + of_nat i)) = bs ! i"
proof -
  have "user_bytes m' pt va (length bs) ! i = bs ! i" "phys m' pt = phys m pt"
    using assms(1) by (auto simp: delivered_def intro!: phys_leaf)
  then show ?thesis using assms(2) by (simp add: user_bytes_def)
qed

lemma delivered_append:
  assumes d: "delivered pt va bs m m'" "delivered pt (va + of_nat (length bs)) cs m' m''"
    and w: "writable_range m pt ps va (length bs + length cs)"
  shows "delivered pt va (bs @ cs) m m''"
proof -
  let ?k = "length bs"
  have ph: "phys m' pt = phys m pt" "phys m'' pt = phys m pt"
    using d by (auto simp: delivered_def intro!: phys_leaf)
  have e: "va + of_nat ?k + of_nat j = va + of_nat (?k + j)" for j by (simp add: add.assoc)
  have b: "m'' (phys m pt (va + of_nat i)) = bs ! i" if "i < ?k" for i
  proof -
    have "phys m pt (va + of_nat i) \<notin> (\<lambda>i. phys m' pt (va + of_nat ?k + of_nat i)) ` {..<length cs}"
      using writable_range_split(3) [OF w that] unfolding ph by blast
    then show ?thesis using delivered_nth [OF d(1) that] d(2) by (simp add: delivered_def)
  qed
  have c: "m'' (phys m pt (va + of_nat (?k + j))) = cs ! j" if "j < length cs" for j
    using delivered_nth [OF d(2) that] unfolding ph e .
  have "user_bytes m'' pt va (length (bs @ cs)) = bs @ cs"
  proof (rule nth_equalityI)
    fix i
    assume "i < length (user_bytes m'' pt va (length (bs @ cs)))"
    then have i: "i < ?k + length cs" by simp
    have "user_bytes m'' pt va (length (bs @ cs)) ! i = m'' (phys m pt (va + of_nat i))"
      using i by (simp add: user_bytes_def ph)
    also have "\<dots> = (bs @ cs) ! i"
      using b [of i] c [of "i - ?k"] i by (cases "i < ?k") (simp_all add: nth_append not_less)
    finally show "user_bytes m'' pt va (length (bs @ cs)) ! i = (bs @ cs) ! i" .
  qed simp
  moreover have "m'' x = m x" if "x \<notin> (\<lambda>i. phys m pt (va + of_nat i)) ` {..<length (bs @ cs)}" for x
  proof -
    have x: "x \<noteq> phys m pt (va + of_nat i)" if "i < ?k + length cs" for i
      using \<open>x \<notin> _\<close> that by auto
    have "x \<notin> (\<lambda>i. phys m pt (va + of_nat i)) ` {..<?k}" using x by (meson imageE lessThan_iff trans_less_add1)
    moreover have "x \<notin> (\<lambda>i. phys m' pt (va + of_nat ?k + of_nat i)) ` {..<length cs}"
      using x unfolding ph e by (meson imageE lessThan_iff nat_add_left_cancel_less)
    ultimately show ?thesis using d by (simp add: delivered_def)
  qed
  ultimately show ?thesis using d by (simp add: delivered_def)
qed

lemma copyout_delivered:
  assumes vm: "vmok s pt ps" and w: "writable_range (mem s) pt ps va (length bs + r)"
  shows "\<exists>m. copyout pt va bs s = Ret 0 (s\<lparr>mem := m\<rparr>) \<and> delivered pt va bs (mem s) m \<and> vmok (s\<lparr>mem := m\<rparr>) pt ps
    \<and> writable_range m pt ps (va + of_nat (length bs)) r"
proof -
  note w1 = writable_range_split [OF w]
  obtain m where m: "copyout pt va bs s = Ret 0 (s\<lparr>mem := m\<rparr>)"
      "\<And>i. i < length bs \<Longrightarrow> m (phys (mem s) pt (va + of_nat i)) = bs ! i"
      "\<And>x. (\<forall>i<length bs. x \<noteq> phys (mem s) pt (va + of_nat i)) \<Longrightarrow> m x = mem s x"
      "same_but ((\<lambda>i. PTE2PA (leaf (mem s) pt (va + of_nat i))) ` {..<length bs}) (mem s) m"
    using copyout_ok [OF vm w1(1)] by blast
  have "(\<lambda>i. PTE2PA (leaf (mem s) pt (va + of_nat i))) ` {..<length bs} \<inter> (table_pages (mem s) pt \<union> set ps) = {}"
    using w1(1) by (auto simp: writable_range_def)
  note v = vmok_data [OF vm m(4) this]
  have "user_bytes m pt va (length bs) = bs"
    using m(2) phys_leaf [OF v(2)] by (intro nth_equalityI) (simp_all add: user_bytes_def)
  moreover have "m x = mem s x" if "x \<notin> (\<lambda>i. phys (mem s) pt (va + of_nat i)) ` {..<length bs}" for x
    using m(3) [of x] that by blast
  ultimately have "delivered pt va bs (mem s) m" using v(2) by (simp add: delivered_def)
  then show ?thesis using m(1) v(1) w1(2) writable_range_leaf [OF v(2,3)] by blast
qed

lemma sink_put:
  assumes id: "idle p s" and r: "has_room p s q (length bs + r)"
  shows "\<exists>m x. either_copyout q bs s = Ret 0 (stored (touch s) m x) \<and> received p s q bs (stored (touch s) m x)
    \<and> has_room p (stored (touch s) m x) (kptr_add q (length bs)) r"
proof (cases q)
  case (User va)
  let ?pt = "ppagetable (procs s p)"
  obtain ps where ps: "vmok s ?pt ps" "writable_range (mem s) ?pt ps va (length bs + r)" using r User by auto
  have "vmok (touch s) ?pt ps" using ps(1) id by (simp add: vmok_def idle_def kmem_inv_def)
  then obtain m where m: "copyout ?pt va bs (touch s) = Ret 0 ((touch s)\<lparr>mem := m\<rparr>)" "delivered ?pt va bs (mem s) m"
      "vmok ((touch s)\<lparr>mem := m\<rparr>) ?pt ps" "writable_range m ?pt ps (va + of_nat (length bs)) r"
    using copyout_delivered [of "touch s" ?pt ps va bs r] ps(2) by auto
  have "vmok (stored (touch s) m (scratch s)) ?pt ps" using m(3) by (simp add: vmok_def kmem_inv_def)
  then show ?thesis using User m id by (intro exI [of _ m] exI [of _ "scratch s"]) (auto simp: idle_def)
next
  case (Kern a)
  then show ?thesis
    using id r by (intro exI [of _ "mem_write (mem s) a bs"] exI [of _ "scratch s"]) (simp add: idle_def set_mem_def)
next
  case (Local i)
  then show ?thesis
    using id r by (intro exI [of _ "mem s"] exI [of _ "splice i bs (scratch s)"]) (simp add: idle_def splice_def)
qed

lemma sink_append:
  assumes "has_room p s q (length bs + length cs)" "received p s q bs t" "received p t (kptr_add q (length bs)) cs u"
  shows "received p s q (bs @ cs) u"
  using assms by (cases q) (auto simp: mem_write_append splice_append add.assoc intro: delivered_append)

lemma sink_memory: "has_room p s q n \<Longrightarrow> same_memory p s t \<Longrightarrow> idle p t \<Longrightarrow> has_room p t q n"
  by (cases q) (auto simp: same_memory_def vmok_def kmem_inv_def idle_def)

lemma sink_received: "received p s q bs t \<Longrightarrow> same_memory p s s' \<Longrightarrow> same_memory p t t' \<Longrightarrow> received p s' q bs t'"
  by (cases q) (auto simp: same_memory_def)

lemma sink_Nil: "has_room p s q 0 \<Longrightarrow> received p s q [] s"
  by (cases q) (simp_all add: splice_def delivered_def)

interpretation sink: byte_sink has_room received
  by (rule byte_sink.intro) (fact sink_memory, fact sink_put, fact sink_Nil, fact sink_append, fact sink_received)

end
