(* ===== verification/Filedata.thy ===== *)
theory Filedata
  imports Fsread File
begin

section \<open>The data of files\<close>

text \<open>
  What \<^verbatim>\<open>kernel/fs.c\<close> promises to its callers about blocks and the content of files: allocation
  (\<^verbatim>\<open>balloc\<close>), the block map (\<^verbatim>\<open>bmap\<close>), writing (\<^verbatim>\<open>writei\<close>) and reading (\<^verbatim>\<open>readi\<close>).
\<close>

subsection \<open>A small file system\<close>

text \<open>
  The layout of \<^verbatim>\<open>mkfs\<close> (the log from block 2, inodes from 33, the bitmap in 46, data from 47) with
  an empty file in slot 0 of the inode table and a file of five bytes, in block 47, in slot 1; process 3 is inside
  an operation.
\<close>

definition bitmap_ex :: bytes where
  "bitmap_ex = replicate 6 255 @ replicate 1018 0"

definition disk_ex :: "nat \<Rightarrow> bytes" where
  "disk_ex b = (if b = 46 then bitmap_ex else if b = 47 then [104, 101, 108, 108, 111] @ replicate 1019 0 else replicate BSIZE 0)"

definition inode_ex :: "nat \<Rightarrow> inode" where
  "inode_ex i = \<lparr>idev = ROOTDEV, inum = 5 + i, iref = 1, ivalid = True, itype = T_FILE, imajor = 0, iminor = 0,
     inlink = 1, isize = (if i = 1 then 5 else 0), iaddrs = (replicate 13 0)[0 := if i = 1 then 47 else 0]\<rparr>"

definition sb_ex :: superblock where
  "sb_ex = \<lparr>sb_magic = FSMAGIC, sb_size = 2000, sb_nblocks = 1953, sb_ninodes = 200, sb_nlog = 31,
     sb_logstart = 2, sb_inodestart = 33, sb_bmapstart = 46\<rparr>"

definition ex_layout :: "'z fs_state_scheme \<Rightarrow> bool" where
  "ex_layout s \<longleftrightarrow> sb s = sb_ex \<and> inodes s = inode_ex \<and> log_start s = 2 \<and> blk s = disk_ex"

lemma ex_layout_used:
  assumes "ex_layout s" "b < 2000"
  shows "used s b \<longleftrightarrow> b < 48"
proof -
  have u: "used s b \<longleftrightarrow> bit_used bitmap_ex b" using assms(1) by (simp add: ex_layout_def used_def disk_ex_def bmb_def sb_ex_def)
  show ?thesis
  proof (cases "b < 48")
    case True
    then have "bitmap_ex ! (b div 8) = 255" by (simp add: bitmap_ex_def nth_append)
    moreover have "\<forall>i \<in> set [0..<8]. bit (255 :: 8 word) i" by code_simp
    ultimately show ?thesis using u True by (simp add: bit_used_eq)
  next
    case False
    then have "bitmap_ex ! (b div 8) = 0" using assms(2) by (simp add: bitmap_ex_def nth_append)
    then show ?thesis using u False by (simp add: bit_used_eq)
  qed
qed

lemma ex_layout_ok:
  assumes "ex_layout s"
  shows "fs_ok s" "i < NINODE \<Longrightarrow> imap_ok s i" "faddr s i k = (if i = 1 \<and> k = 0 then 47 else 0)"
proof -
  have s: "sb s = sb_ex" "inodes s = inode_ex" "log_start s = 2" using assms by (simp_all add: ex_layout_def)
  have m: "fs_meta s b \<longleftrightarrow> b < 47" for b
    using s by (auto simp: fs_meta_def outside_def param_defs IPB_def BSIZE_def bmb_def sb_ex_def)
  have "n div 16 < 13" if "n < 200" for n :: nat using that by simp
  then show "fs_ok s"
    using s m ex_layout_used [OF assms] by (auto simp: fs_ok_def outside_def param_defs IBLOCK_def IPB_def BPB_def BSIZE_def bmb_def sb_ex_def)
  show f: "faddr s i k = (if i = 1 \<and> k = 0 then 47 else 0)" for k
    using s by (auto simp: faddr_def ind_of_def inode_ex_def NDIRECT_def nth_list_update)
  have "file_block s 47" using ex_layout_used [OF assms, of 47] m s by (simp add: file_block_def sb_ex_def)
  moreover have "ind_of s i = 0" using s by (simp add: ind_of_def inode_ex_def NDIRECT_def)
  ultimately show "imap_ok s i" if "i < NINODE"
    using that f s by (auto simp: imap_ok_def inode_ex_def NDIRECT_def NINODE_def sb_ex_def split: if_splits)
qed

definition fs_ex :: fs_state where
  "fs_ex = log_state.extend ((boot_ex disk_ex)
       \<lparr>log_start := 2, log_dev := ROOTDEV, outstanding := 1, scratch := [104, 105, 33]\<rparr>)
     \<lparr>sb = sb_ex, inodes = inode_ex\<rparr>"

lemma fs_ex_simps [simp]:
  "log_start fs_ex = 2" "outstanding fs_ex = 1" "scratch fs_ex = [104, 105, 33]"
  "sb fs_ex = sb_ex" "sb_size sb_ex = 2000"
  "inodes fs_ex = inode_ex" "bmb fs_ex = 46"
  by (simp_all add: fs_ex_def log_state.extend_def bmb_def boot_ex_def bio_state.extend_def sb_ex_def)

lemma length_disk_ex: "length (disk_ex b) = BSIZE"
  by (simp add: disk_ex_def bitmap_ex_def BSIZE_def)

lemma fs_ex_blocks:
  "bio_ok {} {} fs_ex" "idle 3 fs_ex" "txn_ok {} fs_ex" "logged fs_ex = []"
  "blk fs_ex = disk_ex"
proof -
  have b: "bio_ok {} {} (boot_ex disk_ex)" by (rule log_ex_ok(2)) (rule length_disk_ex)
  have "bio_ok {} {} fs_ex = bio_ok {} {} (boot_ex disk_ex)"
    by (rule bio_ok_cong) (simp_all add: fs_ex_def log_state.extend_def mypid_def)
  then show ok: "bio_ok {} {} fs_ex" using b by simp
  have "holds {} (boot_ex disk_ex)" "myp (boot_ex disk_ex) = Some 3" using log_ex_idle(2) [of disk_ex] by (simp_all add: idle_def holds_iff)
  then have "holds {} fs_ex" "myp fs_ex = Some 3"
    by (simp_all add: fs_ex_def log_state.extend_def holds_def lock_free_def)
  then show "idle 3 fs_ex" by (simp add: idle_def holds_iff)
  have l: "lh_n fs_ex = 0" "lh_block fs_ex = replicate 30 0" "log_dev fs_ex = ROOTDEV" "disk fs_ex = disk_ex"
    by (simp_all add: fs_ex_def log_state.extend_def) (simp_all add: boot_ex_def bio_state.extend_def)
  then show "txn_ok {} fs_ex" "logged fs_ex = []" by (simp_all add: txn_ok_def log_wf_def logged_def param_defs)
  show "blk fs_ex = disk_ex" using blk_clean [OF ok] l(4) by (intro ext) simp
qed

lemma fs_ex_tx: "ftx 3 {} fs_ex" "frd 3 {} fs_ex"
  using fs_ex_blocks(1-3) by (auto simp: ftx_def frd_def)

lemma fs_ex_layout: "ex_layout fs_ex"
  using fs_ex_blocks(5) by (simp add: ex_layout_def)

lemmas fs_ex_used = ex_layout_used [OF fs_ex_layout]
lemmas fs_ex_ok = ex_layout_ok [OF fs_ex_layout]

lemma fs_ex_ok0: "imap_ok fs_ex 0" and fs_ex_ok1: "imap_ok fs_ex 1"
  by (simp_all add: fs_ex_ok(2) NINODE_def)

subsection \<open>Allocation and the block map\<close>

text \<open>
  C8. \<open>balloc\<close> returns the first free block of the disk, zeroed and marked as used, and changes no other block; on a full
  disk it returns 0 and changes nothing. Either way it stays within the operation and logs at most the bitmap and the block.
\<close>

theorem balloc_fresh:
  assumes "ftx p {} s" "fs_ok s" "length (logged s) + 1 < NBUF"
  shows "\<exists>b t. balloc ROOTDEV s = Ret b t \<and> ftx p {} t \<and> fs_ok t
    \<and> (if \<forall>c < sb_size (sb s). used s c then b = 0 \<and> blk t = blk s \<and> logged t = logged s
       else b < sb_size (sb s) \<and> \<not> used s b \<and> \<not> fs_meta s b \<and> (\<forall>c < b. used s c) \<and> blk t b = replicate BSIZE 0
         \<and> (\<forall>c. used t c \<longleftrightarrow> c = b \<or> used s c) \<and> (\<forall>c. c \<noteq> b \<and> c \<noteq> bmb s \<longrightarrow> blk t c = blk s c)
         \<and> set (logged t) = set (logged s) \<union> {bmb s, b})"
proof -
  obtain t where t: "balloc ROOTDEV s = Ret (case first_free s of None \<Rightarrow> 0 | Some b \<Rightarrow> b) t" "ftx p {} t" "fmove {} s t"
    "case first_free s of None \<Rightarrow> blk t = blk s \<and> logged t = logged s | Some b \<Rightarrow> allocated b s t"
    using balloc_ok [OF assms(1,2), of] assms(3) by (auto simp: holds_used_def)
  show ?thesis
  proof (cases "first_free s")
    case None
    then show ?thesis using t same_file(3) [OF t(3)] assms(2) first_free_full [OF None] by auto
  next
    case (Some b)
    then have al: "allocated b s t" using t(4) by simp
    note f = alloc_facts [OF assms(2) Some al smove_fmove [OF t(3)] ftx_blk_length [OF assms(1)]]
    have "\<forall>c < b. used s c" using Some by (auto simp: first_free_def find_Some_iff)
    moreover have "set (logged t) = set (logged s) \<union> {bmb s, b}" using al by (auto simp: allocated_def)
    ultimately show ?thesis using t(1,2) Some f by (intro exI [of _ b] exI [of _ t]) auto
  qed
qed

theorem balloc_fresh_witness: "\<exists>t. balloc ROOTDEV fs_ex = Ret 48 t \<and> used t 48 \<and> \<not> used fs_ex 48 \<and> blk t 48 = replicate BSIZE 0"
proof -
  have u: "\<not> used fs_ex 48" using fs_ex_used [of 48] by simp
  then have n: "\<not> (\<forall>c < 2000. used fs_ex c)" by (intro notI) (drule spec [of _ 48], simp)
  obtain b t where t: "balloc ROOTDEV fs_ex = Ret b t" "b < 2000" "\<not> used fs_ex b" "\<forall>c < b. used fs_ex c" "used t b" "blk t b = replicate BSIZE 0"
    using balloc_fresh [OF fs_ex_tx(1) fs_ex_ok(1)] unfolding if_not_P [OF n] fs_ex_blocks(4) fs_ex_simps
    by (simp add: param_defs) blast
  have "\<not> b < 48" using fs_ex_used [OF t(2)] t(3) by blast
  moreover have "\<not> 48 < b" using t(4) u by blast
  ultimately have "b = 48" by simp
  then show ?thesis using t by auto
qed

text \<open>
  C7. \<open>bmap\<close> finds the disk block of block \<open>bn\<close> of a file, or gives it a fresh zeroed one. The blocks of the file stay
  different from each other and from the blocks of the file system, no other used block changes but the bitmap and the
  indirect block, the content of the file does not change, and every block taken from the disk belongs to the file.
  It returns 0 only when the disk is full.
\<close>

theorem bmap_correct:
  assumes "ftx p {} s" "fs_ok s" "imap_ok s ip" "bn < MAXFILE" "length (logged s) + 4 < NBUF"
  shows "\<exists>a t. bmap ip bn s = Ret a t \<and> ftx p {} t \<and> fs_ok t \<and> imap_ok t ip \<and> kept ip s t
    \<and> faddr t ip bn = a \<and> (faddr s ip bn \<noteq> 0 \<longrightarrow> a = faddr s ip bn)
    \<and> (\<forall>k < MAXFILE. k \<noteq> bn \<longrightarrow> faddr t ip k = faddr s ip k)
    \<and> (\<forall>i < MAXFILE * BSIZE. fbyte t ip i = fbyte s ip i)
    \<and> (\<forall>c. used t c \<longleftrightarrow> used s c \<or> fblock t ip c)
    \<and> (a = 0 \<longrightarrow> (\<forall>b < sb_size (sb t). used t b))"
proof -
  obtain a t where t: "bmap ip bn s = Ret a t" "ftx p {} t" and q: "bmap_post ip bn s a t"
    using bmap_ok [OF assms] by blast
  have "fbyte t ip i = fbyte s ip i" if "i < MAXFILE * BSIZE" for i
    by (rule bmap_post_content [OF assms(3) q less_mult_imp_div_less [OF that]])
  moreover have "imap_ok t ip" "kept ip s t" using q by (simp_all add: bmap_post_def)
  ultimately show ?thesis using t q fblock_used [of t ip] by (auto simp: bmap_post_def kept_def)
qed

theorem bmap_correct_witness: "\<exists>a t. bmap 0 20 fs_ex = Ret a t \<and> imap_ok t 0 \<and> faddr t 0 20 = a"
  using bmap_correct [OF fs_ex_tx(1) fs_ex_ok(1) fs_ex_ok0, of 20]
  by (auto simp: fs_ex_blocks(4) param_defs MAXFILE_def NINDIRECT_def BSIZE_def)

subsection \<open>Reading and writing\<close>

lemma fs_ex_source: "source 3 fs_ex (Local 0) [104, 105]"
  using local_source [of 0 2 fs_ex 3] by simp

lemma fs_ex_wlog: "wlog fs_ex 0 + nblk 0 2 + 3 < NBUF"
  by (simp add: wlog_def fs_ex_blocks(4) ind_of_def inode_ex_def nblk_def param_defs BSIZE_def NDIRECT_def)

text \<open>
  C9. \<open>readi\<close> delivers to a user, kernel or stack buffer the bytes of the file from \<open>off\<close> on, at most \<open>n\<close> and not beyond
  the end of the file, and returns their number. The file system does not change, and no operation need be open.
\<close>

theorem readi_correct:
  assumes "frd p {} s" "imap_ok s ip" "length (logged s) < NBUF" "off \<le> isize (inodes s ip)" "unat off + unat n < 2 ^ 32"
    "unat (isize (inodes s ip)) \<le> MAXFILE * BSIZE" "c = min (unat n) (unat (isize (inodes s ip)) - unat off)"
    "has_room p s q c" "mapped s ip (unat off) c"
  shows "\<exists>t. readi ip q off n s = Ret (int c) t \<and> received p s q (fbytes s ip (unat off) c) t
    \<and> frd p {} t \<and> rmove s t \<and> blk t = blk s \<and> logged t = logged s"
  using sink.readi_ok [OF assms(1-7) assms(8,9)] by (auto simp: sink.fetched_def)

theorem readi_correct_witness:
  "\<exists>t. readi 1 (Kern 0x80100000) 1 10 fs_ex = Ret 4 t \<and> mem t = mem_write (mem fs_ex) 0x80100000 [101, 108, 108, 111]"
proof -
  have f: "faddr fs_ex 1 0 = 47" by (simp add: faddr_def inode_ex_def NDIRECT_def)
  have d: "i div BSIZE = 0" "i mod BSIZE = i" if "i < 5" for i using that by (simp_all add: BSIZE_def)
  have "[1..<5::nat] = [1, 2, 3, 4]" by code_simp
  then have "fbytes fs_ex 1 1 4 = [101, 108, 108, 111]"
    using f d [of 1] d [of 2] d [of 3] d [of 4] by (simp add: fbytes_def fbyte_def fs_ex_blocks(5) disk_ex_def)
  moreover have "mapped fs_ex 1 1 4" using f d by (simp add: mapped_def)
  moreover have "length (logged fs_ex) < NBUF" "(1::uint32) \<le> isize (inodes fs_ex 1)" "unat (1::uint32) + unat (10::uint32) < 2 ^ 32"
    "unat (isize (inodes fs_ex 1)) \<le> MAXFILE * BSIZE" "4 = min (unat (10::uint32)) (unat (isize (inodes fs_ex 1)) - unat (1::uint32))"
    by (simp_all add: fs_ex_blocks(4) param_defs inode_ex_def MAXFILE_def NDIRECT_def BSIZE_def)
  note readi_correct [OF fs_ex_tx(2) fs_ex_ok1 this, of "Kern 0x80100000"]
  ultimately show ?thesis by (simp only: has_room.simps received.simps unat_1) fastforce
qed

lemma write_full:
  assumes post: "\<And>c. used t c \<longleftrightarrow> used s c \<or> fblock t ip c" "sb t = sb s" and free: "MAXFILE + 1 < card {b. b < sb_size (sb s) \<and> \<not> used s b}"
  shows "\<exists>b < sb_size (sb t). \<not> used t b"
proof (rule ccontr)
  assume "\<not> (\<exists>b < sb_size (sb t). \<not> used t b)"
  then have "{b. b < sb_size (sb s) \<and> \<not> used s b} \<subseteq> insert (ind_of t ip) (faddr t ip ` {..<MAXFILE})"
    using post by (auto simp: fblock_def)
  then have "card {b. b < sb_size (sb s) \<and> \<not> used s b} \<le> card (insert (ind_of t ip) (faddr t ip ` {..<MAXFILE}))"
    by (rule card_mono [rotated]) simp
  also have "\<dots> \<le> MAXFILE + 1" using card_image_le [of "{..<MAXFILE}" "faddr t ip"] by (simp add: card_insert_if)
  finally show False using free by simp
qed

text \<open>
  C5. What is written is read back: on a disk with room for one more file of any size, \<open>writei\<close> writes all \<open>n\<close> bytes, and a
  \<open>readi\<close> of the same range into any buffer returns exactly these bytes, on both sides of block boundaries, in
  direct and in indirect blocks.
\<close>

theorem write_read:
  assumes tx: "ftx p {} s" and fs: "fs_ok s" and ok: "imap_ok s ip" and src: "source p s q bs" "length bs = unat n"
    and off: "off \<le> isize (inodes s ip)" and fit: "unat off + unat n \<le> MAXFILE * BSIZE" "unat (isize (inodes s ip)) \<le> MAXFILE * BSIZE"
    and room: "wlog s ip + nblk (unat off) (unat n) + 3 < NBUF" and buf: "has_room p s r (unat n)"
    and free: "MAXFILE + 1 < card {b. b < sb_size (sb s) \<and> \<not> used s b}"
  shows "\<exists>t u. writei ip q off n s = Ret (int (unat n)) t \<and> readi ip r off n t = Ret (int (unat n)) u \<and> received p t r bs u"
proof -
  obtain j t where t: "writei ip q off n s = Ret (int j) t" "j \<le> length bs" "ftx p {} t" "writei_post ip (unat off) (take j bs) s t"
      "j < length bs \<Longrightarrow> \<forall>b < sb_size (sb t). used t b" "length (logged t) \<le> wlog s ip + nblk (unat off) (unat n) + 1"
    using writei_ok [OF tx fs ok src off fit(1) room] by blast
  have us: "used t c \<longleftrightarrow> used s c \<or> fblock t ip c" for c using t(4) by (simp add: writei_post_def)
  have "smove s t" using t(4) by (simp add: writei_post_def)
  then have "\<not> j < length bs" using write_full [OF us smove_fields(1) free] t(5) by blast
  then have j: "j = unat n" using t(2) src(2) by simp
  then have q: "writei_post ip (unat off) bs s t" using t(4) src(2) by simp
  have sz: "unat (isize (inodes t ip)) = max (unat (isize (inodes s ip))) (unat off + unat n)" and sm: "smove s t"
    and im: "imap_ok t ip" and ct: "\<And>i. i < unat n \<Longrightarrow> fbyte t ip (unat off + i) = bs ! i"
    and mp: "mapped t ip (unat off) (unat n)"
    using q src(2) fit(1) by (auto simp: writei_post_def mapped_def)
  have "fbytes t ip (unat off) (unat n) = bs" using ct src(2) by (intro nth_equalityI) (simp_all add: fbytes_def)
  moreover have "has_room p t r (unat n)" by (rule sink_memory [OF buf smove_memory [OF sm] ftx_idle(1) [OF t(3)]])
  moreover have "unat n = min (unat n) (unat (isize (inodes t ip)) - unat off)" using sz by linarith
  moreover have "unat off + unat n < 2 ^ 32" using MAXFILE_small [OF fit(1)] by simp
  moreover have "off \<le> isize (inodes t ip)" "unat (isize (inodes t ip)) \<le> MAXFILE * BSIZE" "length (logged t) < NBUF"
    using sz fit t(6) room by (simp_all add: word_le_nat_alt)
  ultimately obtain u where "readi ip r off n t = Ret (int (unat n)) u" "received p t r bs u"
    using sink.readi_ok [OF ftx_frd [OF t(3)] im, of off n "unat n" r] mp by (auto simp: sink.fetched_def)
  then show ?thesis using t(1) j by blast
qed

theorem write_read_witness:
  "\<exists>t u. writei 0 (Local 0) 0 2 fs_ex = Ret 2 t \<and> readi 0 (Kern 0x80100000) 0 2 t = Ret 2 u
    \<and> mem u = mem_write (mem t) 0x80100000 [104, 105]"
proof -
  have "{b. b < sb_size (sb fs_ex) \<and> \<not> used fs_ex b} = {48..<2000}" using fs_ex_used by auto
  then have "MAXFILE + 1 < card {b. b < sb_size (sb fs_ex) \<and> \<not> used fs_ex b}"
    by (simp add: MAXFILE_def NDIRECT_def NINDIRECT_def BSIZE_def)
  moreover have "wlog fs_ex 0 + nblk (unat (0::uint32)) (unat (2::uint32)) + 3 < NBUF" using fs_ex_wlog by simp
  ultimately show ?thesis
    using write_read [OF fs_ex_tx(1) fs_ex_ok(1) fs_ex_ok0 fs_ex_source, of 2 0 "Kern 0x80100000"]
    by (simp add: MAXFILE_def NDIRECT_def NINDIRECT_def BSIZE_def inode_ex_def) blast
qed

end
