(* ===== verification/Fileio.thy ===== *)
theory Fileio
  imports Filedata
begin

section \<open>Reading and writing open files\<close>

text \<open>
  The system calls \<^verbatim>\<open>read\<close> and \<^verbatim>\<open>write\<close> on a file of the disk, from the user's buffer to the blocks on
  disk: \<^verbatim>\<open>fileread\<close> and \<^verbatim>\<open>filewrite\<close>, with the inode's sleep lock, the operations of the log and their
  commits.
\<close>

subsection \<open>Moves through a whole operation\<close>

definition opmove :: "'z file_state_scheme \<Rightarrow> 'z file_state_scheme \<Rightarrow> bool" where
  "opmove s t \<longleftrightarrow> steady s t \<and> bio_restore s t = s\<lparr>lh_n := lh_n t, lh_block := lh_block t, outstanding := outstanding t,
     committing := committing t, inodes := inodes t, files := files t\<rparr>"

lemma files_restore [simp]:
  "bio_restore (s\<lparr>files := x\<rparr>) t = bio_restore s t" "bio_restore s (t\<lparr>files := x\<rparr>) = (bio_restore s t)\<lparr>files := x\<rparr>"
  "bio_restore (s\<lparr>outstanding := n\<rparr>) t = bio_restore s t"
  "steady s (t\<lparr>files := x\<rparr>) = steady s t" "steady s (t\<lparr>outstanding := n\<rparr>) = steady s t"
  by (simp_all add: bio_restore_def steady_def)

lemma opmove_refl [simp]: "opmove s s"
  by (simp add: opmove_def steady_def)

lemma opmove_trans:
  assumes "opmove s t" "opmove t u"
  shows "opmove s u"
proof -
  have "bio_restore s u = bio_restore s (bio_restore t u)" by (simp only: bio_restore_twice)
  also have "\<dots> = (bio_restore s t)\<lparr>lh_n := lh_n u, lh_block := lh_block u, outstanding := outstanding u,
     committing := committing u, inodes := inodes u, files := files u\<rparr>" using assms(2) by (simp add: opmove_def)
  finally show ?thesis using assms steady_trans [of s t u] by (simp add: opmove_def)
qed

lemma opmove_fields:
  fixes s :: "'z file_state_scheme"
  assumes "opmove s t"
  shows "sb t = sb s" "log_start t = log_start s" "steady s t" "same_memory p s t"
proof -
  have f: "bio_restore s t = s\<lparr>lh_n := lh_n t, lh_block := lh_block t, outstanding := outstanding t,
     committing := committing t, inodes := inodes t, files := files t\<rparr>" and c: "steady s t"
    using assms by (auto simp: opmove_def)
  show "sb t = sb s" using arg_cong [OF f, of sb] by (simp add: bio_restore_def)
  show "log_start t = log_start s" using arg_cong [OF f, of log_start] by (simp add: bio_restore_def)
  show "steady s t" by (rule c)
  show "same_memory p s t"
    using steady_procs(5) [OF c] arg_cong [OF f, of mem] arg_cong [OF f, of scratch] arg_cong [OF f, of freelist] arg_cong [OF f, of kend]
    by (simp add: same_memory_def bio_restore_def)
qed

lemma opmove_smove:
  fixes s :: "'z file_state_scheme"
  assumes "smove s t"
  shows "opmove s t" "files t = files s" "outstanding t = outstanding s" "committing t = committing s"
proof -
  have f: "bio_restore s t = s\<lparr>inodes := inodes t, lh_n := lh_n t, lh_block := lh_block t\<rparr>" and c: "calm s t"
    using assms by (auto simp: smove_def fmove_def log_frame_eq)
  show fi: "files t = files s" using arg_cong [OF f, of files] by (simp add: bio_restore_def)
  show o: "outstanding t = outstanding s" "committing t = committing s"
    using arg_cong [OF f, of outstanding] arg_cong [OF f, of committing] by (simp_all add: bio_restore_def)
  have "s\<lparr>outstanding := outstanding s, committing := committing s, files := files s\<rparr> = s" by simp
  then show "opmove s t" using f c fi o by (simp add: opmove_def calm_steady)
qed

subsection \<open>Locking a file in memory\<close>

lemma slocks_bio:
  assumes "bufs t = bufs s" "bnext t = bnext s" "bprev t = bprev s" "disk t = disk s" "mypid t = mypid s"
    "\<And>i. slocks t (Sl_buf i) = slocks s (Sl_buf i)"
  shows "bio_ok P H t = bio_ok P H s" "blk t = blk s"
proof -
  show "bio_ok P H t = bio_ok P H s" using assms lru_cong [OF assms(2,3)] by (simp add: bio_ok_def)
  show "blk t = blk s" by (rule ext) (simp add: blk_def assms cong: option.case_cong)
qed

lemma slocks_frd:
  assumes "bufs t = bufs s" "bnext t = bnext s" "bprev t = bprev s" "disk t = disk s" "mypid t = mypid s"
    "\<And>i. slocks t (Sl_buf i) = slocks s (Sl_buf i)" "steady s t" "lh_n t = lh_n s" "lh_block t = lh_block s" "log_start t = log_start s"
    "log_dev t = log_dev s"
  shows "frd p H s \<Longrightarrow> frd p H t" "logged t = logged s"
proof -
  show l: "logged t = logged s" using assms(8,9) by (simp add: logged_def)
  have "bio_ok P H t = bio_ok P H s" for P by (rule slocks_bio(1) [OF assms(1-6)])
  moreover have "txn_ok P t = txn_ok P s" for P using assms l by (simp add: txn_ok_def log_wf_def)
  ultimately show "frd p H s \<Longrightarrow> frd p H t" using assms(1,4) steady_idle [OF assms(7)] by (auto simp: frd_def)
qed

text \<open>Steps that change neither blocks nor files: taking and dropping the lock of an inode.\<close>

definition locking :: "nat \<Rightarrow> 'z file_state_scheme \<Rightarrow> 'z file_state_scheme \<Rightarrow> bool" where
  "locking p s t \<longleftrightarrow> frd p {} t \<and> opmove s t \<and> blk t = blk s \<and> disk t = disk s \<and> logged t = logged s \<and> inodes t = inodes s
     \<and> files t = files s \<and> outstanding t = outstanding s \<and> committing t = committing s"

lemma lockingI:
  fixes s t :: "'z file_state_scheme"
  assumes "frd p {} s" "t = (touch s)\<lparr>slocks := sl, procs := ps\<rparr>" "\<And>i. sl (Sl_buf i) = slocks s (Sl_buf i)"
    "\<And>q. (ps q)\<lparr>pstate := pstate (procs s q)\<rparr> = procs s q"
  shows "locking p s t"
proof -
  have lk: "lkok s" using frd_idle(1) [OF assms(1)] by (simp add: idle_def)
  have st: "steady s t" using assms(2,4) lk by (simp add: steady_def)
  have m: "mypid t = mypid s" using steady_procs(1) [OF st] assms(2) by (simp add: mypid_def)
  have "frd p {} t" "blk t = blk s" "logged t = logged s"
    using slocks_frd [of t s, OF _ _ _ _ m _ st] slocks_bio(2) [of t s, OF _ _ _ _ m] assms(1,2,3) by simp_all
  moreover have "opmove s t" unfolding opmove_def using st assms(2) by (simp add: bio_restore_def touch_def)
  ultimately show ?thesis using assms(2) by (simp add: locking_def)
qed

lemma ilock_ok:
  fixes s :: "'z file_state_scheme"
  assumes "frd p {} s" "1 \<le> iref (inodes s ip)" "ivalid (inodes s ip)" "\<not> slocked (slocks s (Sl_inode ip))"
  shows "\<exists>t. ilock (Some ip) s = Ret () t \<and> locking p s t \<and> slocked (slocks t (Sl_inode ip))
    \<and> slpid (slocks t (Sl_inode ip)) = pid (procs t p)"
proof -
  have id: "lkok s" "held s = {}" "myp s = Some p" using frd_idle(1) [OF assms(1)] by (auto simp: idle_def)
  let ?t = "touch (sl_taken (Sl_inode ip) (pid (procs s p)) s)"
  have "ilock (Some ip) s = Ret () ?t" using assms(2-4) id by (simp add: ilock_def acquiresleep_free) (simp add: sl_taken_def)
  moreover have "locking p s ?t"
    by (rule lockingI [OF assms(1), where sl = "slocks ?t" and ps = "procs ?t"]) (simp_all add: sl_taken_def)
  ultimately show ?thesis by (intro exI [of _ ?t]) (simp add: sl_taken_def)
qed

lemma iunlock_ok:
  fixes s :: "'z file_state_scheme"
  assumes "frd p {} s" "1 \<le> iref (inodes s ip)" "slocked (slocks s (Sl_inode ip))" "slpid (slocks s (Sl_inode ip)) = pid (procs s p)"
  shows "\<exists>t. iunlock (Some ip) s = Ret () t \<and> locking p s t \<and> \<not> slocked (slocks t (Sl_inode ip))"
proof -
  have id: "lkok s" "held s = {}" "myp s = Some p" using frd_idle(1) [OF assms(1)] by (auto simp: idle_def)
  let ?ps = "\<lambda>q. if q < NPROC \<and> Some q \<noteq> myp s then woken (Some (Ch_sleeplock (Sl_inode ip))) (procs s q) else procs s q"
  let ?t = "(touch (sl_dropped (Sl_inode ip) s))\<lparr>procs := ?ps\<rparr>"
  have "iunlock (Some ip) s = Ret () ?t"
    using assms(2-4) id by (simp add: iunlock_def holdingsleep_eq releasesleep_eq) (simp add: sl_dropped_def cong: if_cong)
  moreover have "locking p s ?t"
    by (rule lockingI [OF assms(1), where sl = "slocks ?t" and ps = ?ps]) (auto simp: sl_dropped_def woken_def)
  ultimately show ?thesis by (intro exI [of _ ?t]) (simp add: sl_dropped_def)
qed

lemma end_op_ok:
  fixes s :: "'z file_state_scheme"
  assumes "frd p {} s" "outstanding s = 1" "\<not> committing s" "length (logged s) < NBUF"
  shows "\<exists>t. end_op s = Ret () t \<and> frd p {} t \<and> opmove s t \<and> inodes t = inodes s \<and> files t = files s \<and> outstanding t = 0
    \<and> \<not> committing t \<and> lh_n t = 0 \<and> (\<forall>b. outside (log_start s) b \<longrightarrow> disk t b = blk s b \<and> blk t b = blk s b)
    \<and> (\<forall>k. slocks t (Sl_inode k) = slocks s (Sl_inode k))"
proof -
  obtain P where P: "bio_ok P {} s" "txn_ok P s" "idle p s" using assms(1) by (auto simp: frd_def)
  have "card P < NBUF" using txn_card [OF P(1,2)] assms(4) by simp
  then obtain t where t: "end_op s = Ret () t" "bio_ok {} {} t" "txn_ok {} t" "lh_n t = 0" "outstanding t = 0" "\<not> committing t"
      "\<And>b. outside (log_start s) b \<Longrightarrow> disk t b = blk s b \<and> blk t b = blk s b" "calm s t"
      and f: "bio_restore s t = s\<lparr>lh_n := 0, outstanding := 0, committing := False\<rparr>"
    using end_op_commits [OF P(1,3,2) _ assms(3,2)] by blast
  have e: "inodes t = inodes s" "files t = files s" "lh_block t = lh_block s"
    using arg_cong [OF f, of inodes] arg_cong [OF f, of files] arg_cong [OF f, of lh_block] by (simp_all add: bio_restore_def)
  have "s\<lparr>inodes := inodes s, files := files s, lh_block := lh_block s\<rparr> = s" by simp
  then have "opmove s t" using f e t(4-6,8) by (simp add: opmove_def calm_steady)
  moreover have "frd p {} t" using t(2,3) calm_idle [OF t(8) P(3)] by (auto simp: frd_def)
  ultimately show ?thesis using t(1,4-8) e by (simp add: calm_steady)
qed

subsection \<open>Files that stay the same\<close>

lemma fs_same:
  fixes s t :: "'z fs_state_scheme"
  assumes e: "sb t = sb s" "inodes t ip = inodes s ip" "log_start t = log_start s"
    and b: "\<And>b. outside (log_start s) b \<Longrightarrow> blk t b = blk s b" and ok: "fs_ok s" "imap_ok s ip"
  shows "used t = used s" "fs_ok t" "imap_ok t ip" "faddr t ip = faddr s ip" "fblock t ip = fblock s ip" "file_block t = file_block s"
    "i < MAXFILE * BSIZE \<Longrightarrow> fbyte t ip i = fbyte s ip i"
proof -
  have m: "bmb t = bmb s" "fs_meta t = fs_meta s" "ind_of t ip = ind_of s ip"
    using e by (simp_all add: bmb_def fs_meta_def fun_eq_iff ind_of_def)
  show u: "used t = used s" using m b [OF fs_okD(2) [OF ok(1)]] by (simp add: used_def fun_eq_iff)
  show fb: "file_block t = file_block s" using e m u by (simp add: file_block_def fun_eq_iff)
  show "fs_ok t" using ok(1) e m u by (simp add: fs_ok_def)
  have ob: "blk t a = blk s a" if "file_block s a" for a using b file_blockD [OF that] by blast
  show fa: "faddr t ip = faddr s ip" using e m ob imap_okD(4) [OF ok(2)] by (auto simp: faddr_def fun_eq_iff)
  show "fblock t ip = fblock s ip" using m fa by (simp add: fblock_def fun_eq_iff)
  show "imap_ok t ip" using ok(2) e m fa fb by (simp add: imap_ok_def)
  show "fbyte t ip i = fbyte s ip i" if "i < MAXFILE * BSIZE"
    using fa ob imap_okD(5) [OF ok(2) less_mult_imp_div_less [OF that]] by (auto simp: fbyte_def Let_def)
qed

subsection \<open>A whole operation\<close>

text \<open>
  \<open>fready\<close>: the file is in the inode table and no operation is open. \<open>fput\<close>: from \<open>off\<close> on the
  bytes \<open>bs\<close> have been written through the open file \<open>f\<close>; the inode has got a new size and new blocks only, its copy
  on the disk is the same, and neither the blocks nor the inode of any other file have changed.
\<close>

definition fready :: "nat \<Rightarrow> nat \<Rightarrow> 'z file_state_scheme \<Rightarrow> bool" where
  "fready p ip s \<longleftrightarrow> frd p {} s \<and> \<not> committing s \<and> outstanding s = 0 \<and> lh_n s = 0 \<and> fs_ok s \<and> imap_ok s ip
     \<and> 1 \<le> iref (inodes s ip) \<and> ivalid (inodes s ip) \<and> \<not> slocked (slocks s (Sl_inode ip))
     \<and> (\<forall>b. outside (log_start s) b \<longrightarrow> disk s b = blk s b)"

definition fput :: "nat \<Rightarrow> nat \<Rightarrow> nat \<Rightarrow> nat \<Rightarrow> bytes \<Rightarrow> 'z file_state_scheme \<Rightarrow> 'z file_state_scheme \<Rightarrow> bool" where
  "fput p f ip off bs s t \<longleftrightarrow> same_memory p s t \<and> sb t = sb s \<and> log_start t = log_start s
     \<and> (\<forall>i < MAXFILE * BSIZE. fbyte t ip i = (if off \<le> i \<and> i < off + length bs then bs ! (i - off) else fbyte s ip i))
     \<and> unat (isize (inodes t ip)) = max (unat (isize (inodes s ip))) (off + length bs)
     \<and> inodes t = (inodes s)(ip := (inodes s ip)\<lparr>iaddrs := iaddrs (inodes t ip), isize := isize (inodes t ip)\<rparr>)
     \<and> (bs \<noteq> [] \<or> synced s ip \<longrightarrow> synced t ip) \<and> others_on_disk ip s t
     \<and> files t = (files s)(f := (files s f)\<lparr>foff := of_nat (off + length bs)\<rparr>)
     \<and> (\<forall>c. used t c \<longleftrightarrow> used s c \<or> fblock t ip c)
     \<and> (\<forall>c. fblock s ip c \<longrightarrow> fblock t ip c) \<and> (\<forall>c. fblock t ip c \<and> used s c \<longrightarrow> fblock s ip c)
     \<and> (\<forall>c. file_block s c \<and> \<not> fblock s ip c \<longrightarrow> blk t c = blk s c)"

lemma inode_step:
  fixes g h k :: "nat \<Rightarrow> inode"
  assumes "h = g(ip := (g ip)\<lparr>iaddrs := iaddrs (h ip), isize := isize (h ip)\<rparr>)"
  shows "inum (h ip) = inum (g ip)" "i \<noteq> ip \<Longrightarrow> h i = g i"
    "k = h(ip := (h ip)\<lparr>iaddrs := iaddrs (k ip), isize := isize (k ip)\<rparr>) \<Longrightarrow>
     k = g(ip := (g ip)\<lparr>iaddrs := iaddrs (k ip), isize := isize (k ip)\<rparr>)"
proof -
  have e: "h ip = (g ip)\<lparr>iaddrs := iaddrs (h ip), isize := isize (h ip)\<rparr>" using fun_cong [OF assms, of ip] by simp
  from arg_cong [OF e, of inum] show "inum (h ip) = inum (g ip)" by simp
  show "h i = g i" if "i \<noteq> ip" using fun_cong [OF assms, of i] that by simp
  have "(h ip)\<lparr>iaddrs := a, isize := z\<rparr> = (g ip)\<lparr>iaddrs := a, isize := z\<rparr>" for a z by (subst e) simp
  moreover have "h(ip := x) = g(ip := x)" for x by (subst assms) simp
  ultimately show "k = h(ip := (h ip)\<lparr>iaddrs := iaddrs (k ip), isize := isize (k ip)\<rparr>) \<Longrightarrow>
     k = g(ip := (g ip)\<lparr>iaddrs := iaddrs (k ip), isize := isize (k ip)\<rparr>)" by simp
qed

lemma others_on_disk_trans:
  assumes "others_on_disk ip s t" "others_on_disk ip t u" "sb t = sb s" "inum (inodes t ip) = inum (inodes s ip)"
  shows "others_on_disk ip s u"
  using assms by (simp add: others_on_disk_def)

lemma fput_trans:
  assumes a: "fput p f ip off bs s t" and b: "fput p f ip (off + length bs) cs t u"
  shows "fput p f ip off (bs @ cs) s u"
proof -
  have A: "same_memory p s t" "sb t = sb s" "log_start t = log_start s"
    "\<And>i. i < MAXFILE * BSIZE \<Longrightarrow> fbyte t ip i = (if off \<le> i \<and> i < off + length bs then bs ! (i - off) else fbyte s ip i)"
    "\<And>c. used t c \<longleftrightarrow> used s c \<or> fblock t ip c" "\<And>c. fblock s ip c \<Longrightarrow> fblock t ip c"
    "\<And>c. fblock t ip c \<Longrightarrow> used s c \<Longrightarrow> fblock s ip c" "\<And>c. file_block s c \<Longrightarrow> \<not> fblock s ip c \<Longrightarrow> blk t c = blk s c"
    using a by (auto simp: fput_def)
  have B: "same_memory p t u" "sb u = sb t" "log_start u = log_start t"
    "\<And>i. i < MAXFILE * BSIZE \<Longrightarrow> fbyte u ip i = (if off + length bs \<le> i \<and> i < off + length bs + length cs
       then cs ! (i - (off + length bs)) else fbyte t ip i)"
    "\<And>c. used u c \<longleftrightarrow> used t c \<or> fblock u ip c" "\<And>c. fblock t ip c \<Longrightarrow> fblock u ip c"
    "\<And>c. fblock u ip c \<Longrightarrow> used t c \<Longrightarrow> fblock t ip c" "\<And>c. file_block t c \<Longrightarrow> \<not> fblock t ip c \<Longrightarrow> blk u c = blk t c"
    using b by (auto simp: fput_def)
  have "fbyte u ip i = (if off \<le> i \<and> i < off + length (bs @ cs) then (bs @ cs) ! (i - off) else fbyte s ip i)"
    if "i < MAXFILE * BSIZE" for i
    using A(4) [OF that] B(4) [OF that] by (auto simp: nth_append)
  moreover have "blk u c = blk s c" if c: "file_block s c" "\<not> fblock s ip c" for c
  proof -
    have "file_block t c" using c(1) A(2,3,5) by (auto simp: file_block_def fs_meta_def bmb_def)
    then show ?thesis using c A(7,8) B(8) file_blockD [OF c(1)] by metis
  qed
  moreover have "files u = (files s)(f := (files s f)\<lparr>foff := of_nat (off + length (bs @ cs))\<rparr>)"
    using a b by (simp add: fput_def add.assoc)
  moreover have "unat (isize (inodes u ip)) = max (unat (isize (inodes s ip))) (off + length (bs @ cs))"
    "bs @ cs \<noteq> [] \<or> synced s ip \<longrightarrow> synced u ip"
    using a b by (auto simp: fput_def max.assoc add.assoc)
  moreover have "inodes u = (inodes s)(ip := (inodes s ip)\<lparr>iaddrs := iaddrs (inodes u ip), isize := isize (inodes u ip)\<rparr>)"
    "others_on_disk ip s u"
    using inode_step(1,3) [of "inodes t" "inodes s" ip] others_on_disk_trans [of ip s t u] a b by (simp_all add: fput_def)
  moreover have "used u c \<longleftrightarrow> used s c \<or> fblock u ip c" "fblock s ip c \<longrightarrow> fblock u ip c"
      "fblock u ip c \<and> used s c \<longrightarrow> fblock s ip c" for c
    using A(5-7) [of c] B(5-7) [of c] by blast+
  moreover have "sb u = sb s" "log_start u = log_start s" using A(2,3) B(2,3) by simp_all
  ultimately show ?thesis using same_memory_trans [OF A(1) B(1)] unfolding fput_def by blast
qed

lemma source_take: "source p s q bs \<Longrightarrow> source p s q (take l bs)"
  proof -
  have "take m (drop k (take l bs)) = take m (drop k bs)" if "k + m \<le> l" for k m
    using that by (simp add: drop_take min_def)
  then show "source p s q bs \<Longrightarrow> source p s q (take l bs)" unfolding source_def by simp
qed

text \<open>From before the operation to after it: the blocks in between are those of \<open>writei\<close>.\<close>

lemma fput_writei:
  fixes s s1 t u :: "'z file_state_scheme"
  assumes w: "writei_post ip off bs s1 t" and ok: "fs_ok s" "imap_ok s ip"
    and pre: "opmove s s1" "blk s1 = blk s" "inodes s1 = inodes s"
    and post: "opmove t u" "inodes u = inodes t" "\<And>b. outside (log_start t) b \<Longrightarrow> blk u b = blk t b"
    and fl: "files u = (files s)(f := (files s f)\<lparr>foff := of_nat (off + length bs)\<rparr>)"
  shows "fput p f ip off bs s u" "fs_ok u" "imap_ok u ip"
proof -
  have T: "fs_ok t" "imap_ok t ip" "smove s1 t" using w by (simp_all add: writei_post_def)
  note A = opmove_fields [OF pre(1)] and B = opmove_fields [OF post(1)] and M = opmove_smove(1) [OF T(3)]
  note S = fs_same [of s1 s ip, OF A(1) _ A(2) _ ok] and U = fs_same [of u t ip, OF B(1) _ B(2) post(3) T(1,2)]
  have e: "inodes s1 ip = inodes s ip" "inodes u ip = inodes t ip" using pre(3) post(2) by simp_all
  note S = S [OF e(1)] and U = U [OF e(2)]
  show "fs_ok u" "imap_ok u ip" using U(2,3) by simp_all
  have s1: "fblock s1 ip = fblock s ip" "used s1 = used s" "file_block s1 = file_block s" "\<And>i. i < MAXFILE * BSIZE \<Longrightarrow> fbyte s1 ip i = fbyte s ip i"
    using S pre(2) by simp_all
  note mm = opmove_fields [OF M]
  have mem: "same_memory p s u" by (rule same_memory_trans [OF A(4) same_memory_trans [OF mm(4) B(4)]])
  have same: "sb u = sb s" "log_start u = log_start s" using A B mm by simp_all
  have W: "\<And>i. i < MAXFILE * BSIZE \<Longrightarrow> fbyte t ip i = (if off \<le> i \<and> i < off + length bs then bs ! (i - off) else fbyte s1 ip i)"
    "unat (isize (inodes t ip)) = max (unat (isize (inodes s1 ip))) (off + length bs)" "\<And>c. used t c \<longleftrightarrow> used s1 c \<or> fblock t ip c"
    "\<And>c. fblock s1 ip c \<longrightarrow> fblock t ip c" "\<And>c. fblock t ip c \<and> used s1 c \<longrightarrow> fblock s1 ip c"
    "\<And>c. file_block s1 c \<and> \<not> fblock s1 ip c \<longrightarrow> blk t c = blk s1 c"
    using w unfolding writei_post_def by blast+
  have ino: "inodes u = (inodes s)(ip := (inodes s ip)\<lparr>iaddrs := iaddrs (inodes u ip), isize := isize (inodes u ip)\<rparr>)"
    and sy: "synced t ip" and od: "others_on_disk ip s1 t"
    using w pre(3) post(2) by (simp_all add: writei_post_def)
  have ib: "blk u (IBLOCK n (sb t)) = blk t (IBLOCK n (sb t))" if "n < sb_ninodes (sb t)" for n
    using post(3) fs_okD(3) [OF T(1) that] by blast
  have "synced u ip" using sy ib [OF imap_okD(3) [OF T(2)]] B(1) e(2) by (simp add: synced_def)
  moreover have "others_on_disk ip s u"
    using od ib A(1) B(1) mm(1) pre(2) e(1) by (simp add: others_on_disk_def)
  moreover have "blk u c = blk s c" if "file_block s c" "\<not> fblock s ip c" for c
  proof -
    have "outside (log_start t) c" using file_blockD [OF that(1)] A(2) mm(2) by simp
    then show ?thesis using post(3) W(6) that s1 pre(2) by simp
  qed
  ultimately show "fput p f ip off bs s u"
    unfolding fput_def using ino mem same fl W(1-5) U s1 e by auto
qed

lemma fready_begin:
  fixes s :: "'z file_state_scheme"
  assumes r: "fready p ip s"
  shows "\<exists>t v. begin_op s = Ret () v \<and> ilock (Some ip) v = Ret () t \<and> ftx p {} t \<and> opmove s t \<and> blk t = blk s \<and> logged t = []
    \<and> inodes t = inodes s \<and> files t = files s \<and> outstanding t = 1 \<and> \<not> committing t \<and> slocked (slocks t (Sl_inode ip))
    \<and> slpid (slocks t (Sl_inode ip)) = pid (procs t p)"
proof -
  have R: "frd p {} s" "\<not> committing s" "outstanding s = 0" "lh_n s = 0" "1 \<le> iref (inodes s ip)" "ivalid (inodes s ip)"
    "\<not> slocked (slocks s (Sl_inode ip))" using r by (simp_all add: fready_def)
  have id: "idle p s" by (rule frd_idle(1) [OF R(1)])
  then have lk: "lkok s" by (simp add: idle_def)
  let ?v = "(touch s)\<lparr>outstanding := 1\<rparr>"
  have v: "begin_op s = Ret () ?v" using begin_op_eq [OF id R(2)] R(3,4) by (simp add: param_defs)
  have st: "steady s ?v" using lk by (simp add: steady_def)
  have m: "mypid ?v = mypid s" by (simp add: mypid_def)
  have fv: "frd p {} ?v" "logged ?v = logged s" "blk ?v = blk s"
    using slocks_frd [of ?v s, OF _ _ _ _ m _ st] slocks_bio(2) [of ?v s, OF _ _ _ _ m] R(1) by simp_all
  have ov: "opmove s ?v" unfolding opmove_def using st by (simp add: bio_restore_def touch_def)
  obtain t where t: "ilock (Some ip) ?v = Ret () t" "locking p ?v t" "slocked (slocks t (Sl_inode ip))"
      "slpid (slocks t (Sl_inode ip)) = pid (procs t p)"
    using ilock_ok [OF fv(1), of ip] R(5-7) by auto
  have "logged s = []" using R(4) by (simp add: logged_def)
  then show ?thesis
    using v t fv opmove_trans [OF ov] R(2) by (intro exI [of _ t] exI [of _ ?v]) (auto simp: locking_def ftx_def)
qed

lemma nblk_chunk: "n \<le> filewrite_max \<Longrightarrow> nblk off n \<le> 4"
proof -
  assume "n \<le> filewrite_max"
  then have "off mod BSIZE + n + (BSIZE - 1) < 5 * BSIZE"
    using mod_less_divisor [OF BSIZE_pos, of off] by (simp add: filewrite_max_def param_defs BSIZE_def)
  then have "(off mod BSIZE + n + (BSIZE - 1)) div BSIZE < 5" by (rule less_mult_imp_div_less)
  then show ?thesis by (simp add: nblk_def)
qed

lemma wlog_empty: "logged s = [] \<Longrightarrow> wlog s ip \<le> 2"
  using card_insert_le_m1 [of 2 "{ind_of s ip}" "bmb s"] by (cases "ind_of s ip = 0") (auto simp: wlog_def insert_commute)

text \<open>The part after \<^verbatim>\<open>writei\<close>: the new offset, the lock and the commit.\<close>

lemma fready_end:
  fixes s :: "'z file_state_scheme"
  assumes tx: "ftx p {} s" and s: "outstanding s = 1" "\<not> committing s" "length (logged s) < NBUF" "1 \<le> iref (inodes s ip)"
      "slocked (slocks s (Sl_inode ip))" "slpid (slocks s (Sl_inode ip)) = pid (procs s p)"
    and f: "s' = s\<lparr>files := x\<rparr>"
  shows "\<exists>u t. iunlock (Some ip) s' = Ret () u \<and> end_op u = Ret () t \<and> frd p {} t \<and> opmove s t \<and> inodes t = inodes s \<and> files t = x
    \<and> outstanding t = 0 \<and> \<not> committing t \<and> lh_n t = 0 \<and> \<not> slocked (slocks t (Sl_inode ip))
    \<and> (\<forall>b. outside (log_start s) b \<longrightarrow> disk t b = blk s b \<and> blk t b = blk s b)"
proof -
  have st: "steady s s'" using f by (simp add: steady_def)
  have m: "mypid s' = mypid s" using f by (simp add: mypid_def)
  have fs: "frd p {} s'" "logged s' = logged s" "blk s' = blk s"
    using slocks_frd [of s' s, OF _ _ _ _ m _ st] slocks_bio(2) [of s' s, OF _ _ _ _ m] ftx_frd [OF tx] f by simp_all
  have os: "opmove s s'" unfolding opmove_def using st f by (simp add: bio_restore_def)
  obtain u where u: "iunlock (Some ip) s' = Ret () u" "locking p s' u" "\<not> slocked (slocks u (Sl_inode ip))"
    using iunlock_ok [OF fs(1), of ip] s(4-6) f by auto
  have U: "frd p {} u" "opmove s' u" "blk u = blk s" "logged u = logged s" "inodes u = inodes s" "files u = x" "outstanding u = 1" "\<not> committing u"
    using u(2) fs f s(1,2) by (simp_all add: locking_def)
  obtain t where t: "end_op u = Ret () t" "frd p {} t" "opmove u t" "inodes t = inodes u" "files t = files u" "outstanding t = 0"
      "\<not> committing t" "lh_n t = 0" "\<And>b. outside (log_start u) b \<Longrightarrow> disk t b = blk u b \<and> blk t b = blk u b"
      "\<And>k. slocks t (Sl_inode k) = slocks u (Sl_inode k)"
    using end_op_ok [OF U(1,7,8)] U(4) s(3) by auto
  have o: "opmove s u" by (rule opmove_trans [OF os U(2)])
  have "opmove s t" by (rule opmove_trans [OF o t(3)])
  moreover have "log_start u = log_start s" by (rule opmove_fields(2) [OF o])
  ultimately show ?thesis using u(1,3) t U(3,5,6) by auto
qed

lemma filewrite_one_ok:
  fixes s :: "'z file_state_scheme"
  assumes r: "fready p ip s" and off: "off = foff (files s f)" "off \<le> isize (inodes s ip)"
    and src: "source p s (User addr) bs" "i < length bs" and fit: "unat off + (length bs - i) \<le> MAXFILE * BSIZE"
    and n1: "n1 = min (length bs - i) filewrite_max"
  shows "\<exists>j t. filewrite_one f ip addr (length bs) i s = Ret (if j = n1 then None else Some i) t \<and> j \<le> n1 \<and> fready p ip t
    \<and> fput p f ip (unat off) (take j (drop i bs)) s t \<and> (j < n1 \<longrightarrow> (\<forall>b < sb_size (sb t). used t b))"
proof -
  let ?cs = "take n1 (drop i bs)" and ?q = "User (addr + of_nat i)"
  have R: "fs_ok s" "imap_ok s ip" using r by (simp_all add: fready_def)
  obtain v a where a: "begin_op s = Ret () v" "ilock (Some ip) v = Ret () a" "ftx p {} a" "opmove s a" "blk a = blk s" "logged a = []"
      "inodes a = inodes s" "files a = files s" "outstanding a = 1" "\<not> committing a" "slocked (slocks a (Sl_inode ip))"
      "slpid (slocks a (Sl_inode ip)) = pid (procs a p)"
    using fready_begin [OF r] by blast
  have ok: "fs_ok a" "imap_ok a ip"
    using fs_same(2,3) [OF opmove_fields(1) [OF a(4)] _ opmove_fields(2) [OF a(4)] _ R] a(5,7) by simp_all
  have "n1 < 2 ^ 32" using n1 by (simp add: filewrite_max_def param_defs BSIZE_def)
  then have un: "unat (of_nat n1 :: uint32) = n1" by (simp add: unat_of_nat take_bit_nat_eq_self)
  have len: "length ?cs = unat (of_nat n1 :: uint32)" using n1 un by simp
  have sc: "source p a ?q ?cs"
    using source_take [OF source_memory [OF source_drop [OF src(1), of i] opmove_fields(4) [OF a(4)]]] src(2) by simp
  have f1: "unat off + unat (of_nat n1 :: uint32) \<le> MAXFILE * BSIZE" using fit n1 un by linarith
  have nb: "nblk (unat off) (unat (of_nat n1 :: uint32)) \<le> 4" using nblk_chunk [of n1] n1 un by simp
  then have room: "wlog a ip + nblk (unat off) (unat (of_nat n1 :: uint32)) + 3 < NBUF"
    using wlog_empty [OF a(6), of ip] by (simp add: param_defs)
  obtain j b where b: "writei ip ?q off (of_nat n1) a = Ret (int j) b" "j \<le> length ?cs" "ftx p {} b"
      "writei_post ip (unat off) (take j ?cs) a b" "j < length ?cs \<longrightarrow> (\<forall>c < sb_size (sb b). used b c)"
      "length (logged b) \<le> wlog a ip + nblk (unat off) (unat (of_nat n1 :: uint32)) + 1"
    using writei_ok [OF a(3) ok sc len _ f1 room] off(2) [folded a(7)] by blast
  have j: "j \<le> n1" "take j ?cs = take j (drop i bs)" using b(2) len un by (simp_all add: min_def)
  have sm: "smove a b" and inb: "inodes b ip = (inodes a ip)\<lparr>iaddrs := iaddrs (inodes b ip), isize := isize (inodes b ip)\<rparr>"
    using b(4) by (simp_all add: writei_post_def) (metis fun_upd_same)
  note S = opmove_smove [OF sm]
  have cb: "calm a b" by (rule smove_fields(8) [OF sm])
  define x where "x = (files s)(f := (files s f)\<lparr>foff := of_nat (unat off + j)\<rparr>)"
  have foff: "of_nat (unat off + j) = off + of_int (int j)" by simp
  have upd: "kwhen (int j > 0) (upd_file f (\<lambda>x. x\<lparr>foff := foff x + of_int (int j)\<rparr>)) b = Ret () (b\<lparr>files := x\<rparr>)"
  proof (cases "j = 0")
    case True
    then have "x = files b" using S(2) a(8) off(1) by (simp add: x_def)
    then show ?thesis using True by simp
  next
    case False
    then show ?thesis using S(2) a(8) off(1) by (simp add: upd_file_def x_def)
  qed
  have ib: "iref (inodes b ip) = iref (inodes a ip)" "ivalid (inodes b ip) = ivalid (inodes a ip)"
    using arg_cong [OF inb, of iref] arg_cong [OF inb, of ivalid] by simp_all
  have lb: "length (logged b) < NBUF" using b(6) room by linarith
  have pre: "outstanding b = 1" "\<not> committing b" "1 \<le> iref (inodes b ip)" "slocked (slocks b (Sl_inode ip))"
      "slpid (slocks b (Sl_inode ip)) = pid (procs b p)"
    using cb calm_procs(1) [OF cb] S(3,4) a(7,9-12) ib(1) r by (simp_all add: calm_def fready_def)
  obtain u t where t: "iunlock (Some ip) (b\<lparr>files := x\<rparr>) = Ret () u" "end_op u = Ret () t" "frd p {} t" "opmove b t" "inodes t = inodes b"
      "files t = x" "outstanding t = 0" "\<not> committing t" "lh_n t = 0" "\<not> slocked (slocks t (Sl_inode ip))"
      "\<And>c. outside (log_start b) c \<Longrightarrow> disk t c = blk b c \<and> blk t c = blk b c"
    using fready_end [OF b(3) pre(1,2) lb pre(3-5) refl, of x] by blast
  have fl: "files t = (files s)(f := (files s f)\<lparr>foff := of_nat (unat off + length (take j ?cs))\<rparr>)"
  proof -
    have "length (take j ?cs) = j" using b(2) by simp
    then show ?thesis using t(6) by (simp only: x_def)
  qed
  have ob: "blk t c = blk b c" if "outside (log_start b) c" for c using t(11) [OF that] by simp
  note P = fput_writei [OF b(4) R a(4,5,7) t(4,5) ob fl]
  have ls: "log_start t = log_start b" "sb t = sb b" using opmove_fields(1,2) [OF t(4)] by simp_all
  have fr: "fready p ip t" using P t ib r a(7) ls by (simp add: fready_def)
  have "used t = used b" using fs_same(1) [OF ls(2) _ ls(1), of ip] t(5,11) b(4) by (simp add: writei_post_def)
  then have full: "j < n1 \<longrightarrow> (\<forall>c < sb_size (sb t). used t c)" using b(5) len un ls(2) by simp
  have "filewrite_one f ip addr (length bs) i s = Ret (if j = n1 then None else Some i) t"
    using a(1,2,8) off(1) b(1) upd t(1,2) n1 by (simp add: filewrite_one_def Let_def)
  then show ?thesis using j fr P(1) t(11) full by auto
qed

lemma fput_Nil:
  assumes "fready p ip s" "foff (files s f) \<le> isize (inodes s ip)"
  shows "fput p f ip (unat (foff (files s f))) [] s s"
proof -
  have "(files s)(f := (files s f)\<lparr>foff := of_nat (unat (foff (files s f)))\<rparr>) = files s" by simp
  then show ?thesis
    using assms fblock_used [of s ip] by (auto simp: fput_def fready_def word_le_nat_alt others_on_disk_def)
qed

lemma chunk_bounds:
  assumes "a < (n + k - 1) div k" "0 < (k::nat)"
  shows "a * k < n" "min (n - a * k) k < k \<Longrightarrow> Suc a = (n + k - 1) div k"
    "n - Suc a * k = n - a * k - min (n - a * k) k"
proof -
  have "Suc a * k \<le> (n + k - 1) div k * k" using assms(1) by (intro mult_le_mono1) simp
  also have "\<dots> \<le> n + k - 1" by simp
  finally show a: "a * k < n" using assms(2) by simp
  show "n - Suc a * k = n - a * k - min (n - a * k) k" by simp
  assume "min (n - a * k) k < k"
  then have "n + k - 1 < k * Suc (Suc a)" "k * Suc a \<le> n + k - 1" using a assms(2) by (auto simp: mult.commute)
  then show "Suc a = (n + k - 1) div k" using div_nat_eqI [of k "Suc a" "n + k - 1"] by simp
qed

lemma filewrite_scan:
  fixes s :: "'z file_state_scheme"
  assumes "fready p ip s" "source p s (User addr) bs" "off = foff (files s f)" "off \<le> isize (inodes s ip)"
    "unat off + (length bs - a * filewrite_max) \<le> MAXFILE * BSIZE"
    "a + d = (length bs + filewrite_max - 1) div filewrite_max"
  shows "\<exists>r j t. kscan (filewrite_one f ip addr (length bs)) (map (\<lambda>j. j * filewrite_max) [a..<a + d]) s = Ret r t
    \<and> j \<le> length bs - a * filewrite_max \<and> fready p ip t \<and> fput p f ip (unat off) (take j (drop (a * filewrite_max) bs)) s t
    \<and> (if j = length bs - a * filewrite_max then r = None else (\<exists>i < length bs. r = Some i) \<and> (\<forall>b < sb_size (sb t). used t b))"
  using assms
proof (induction d arbitrary: a off s)
  case 0
  have k: "0 < filewrite_max" by (simp add: filewrite_max_def param_defs BSIZE_def)
  have "length bs \<le> (length bs + filewrite_max - 1) div filewrite_max * filewrite_max"
    using k dividend_less_div_times [OF k, of "length bs + filewrite_max - 1"] by (simp add: mult.commute)
  then have z: "length bs - a * filewrite_max = 0" using "0.prems"(6) by simp
  then show ?case using "0.prems"(1,3,4) fput_Nil [of p ip s f] by (intro exI [of _ None] exI [of _ 0] exI [of _ s]) simp
next
  case (Suc d)
  define k where "k = filewrite_max"
  have k: "0 < k" "k < 2 ^ 31" by (simp_all add: k_def filewrite_max_def param_defs BSIZE_def)
  note P = Suc.prems [folded k_def]
  note c = chunk_bounds [of a "length bs" k, OF _ k(1)]
  have am: "a < (length bs + k - 1) div k" using P(6) by simp
  define n1 where "n1 = min (length bs - a * k) k"
  have n1l: "n1 \<le> length bs - a * k" by (simp add: n1_def)
  have n1k: "n1 = min (length bs - a * k) filewrite_max" by (simp add: n1_def k_def)
  obtain j t where t: "filewrite_one f ip addr (length bs) (a * k) s = Ret (if j = n1 then None else Some (a * k)) t" "j \<le> n1"
      "fready p ip t" "fput p f ip (unat off) (take j (drop (a * k) bs)) s t" "j < n1 \<longrightarrow> (\<forall>b < sb_size (sb t). used t b)"
    using filewrite_one_ok [OF P(1,3,4,2) c(1) [OF am] P(5) n1k] by blast
  have up: "map (\<lambda>j. j * k) [a..<a + Suc d] = a * k # map (\<lambda>j. j * k) [Suc a..<Suc a + d]"
    by (simp add: upt_conv_Cons del: upt_Suc)
  have "\<exists>r j t. kscan (filewrite_one f ip addr (length bs)) (a * k # map (\<lambda>j. j * k) [Suc a..<Suc a + d]) s = Ret r t
      \<and> j \<le> length bs - a * k \<and> fready p ip t \<and> fput p f ip (unat off) (take j (drop (a * k) bs)) s t
      \<and> (if j = length bs - a * k then r = None else (\<exists>i < length bs. r = Some i) \<and> (\<forall>b < sb_size (sb t). used t b))"
  proof (cases "j = n1")
    case False
    then have "j < n1" "j \<noteq> length bs - a * k" "j \<le> length bs - a * k" using t(2) by (auto simp: n1_def)
    then show ?thesis
      using t c(1) [OF am] by (intro exI [of _ "Some (a * k)"] exI [of _ j] exI [of _ t]) auto
  next
    case True
    have l: "length (take j (drop (a * k) bs)) = n1" using True by (simp add: n1_def)
    have F: "same_memory p s t" "files t = (files s)(f := (files s f)\<lparr>foff := of_nat (unat off + n1)\<rparr>)"
      "unat off + n1 \<le> unat (isize (inodes t ip))" using t(4) l by (auto simp: fput_def)
    have "unat off + n1 < 2 ^ 31" using MAXFILE_small [of "unat off + n1"] P(5) by (simp add: n1_def)
    then have uo: "unat (foff (files t f)) = unat off + n1"
      using F(2) by (simp add: unat_of_nat take_bit_nat_eq_self del: of_nat_add)
    have fit: "unat (foff (files t f)) + (length bs - Suc a * k) \<le> MAXFILE * BSIZE"
      using P(5) c(3) [OF am, folded n1_def] n1l uo by linarith
    have le: "foff (files t f) \<le> isize (inodes t ip)" using F(3) uo by (simp add: word_le_nat_alt)
    have a': "Suc a + d = (length bs + filewrite_max - 1) div filewrite_max" using Suc.prems(6) by simp
    obtain r i u where u: "kscan (filewrite_one f ip addr (length bs)) (map (\<lambda>j. j * k) [Suc a..<Suc a + d]) t = Ret r u"
        "i \<le> length bs - Suc a * k" "fready p ip u" "fput p f ip (unat off + n1) (take i (drop (Suc a * k) bs)) t u"
        "if i = length bs - Suc a * k then r = None else (\<exists>i < length bs. r = Some i) \<and> (\<forall>b < sb_size (sb u). used u b)"
      using Suc.IH [OF t(3) source_memory [OF P(2) F(1)] refl le fit [unfolded k_def] a', folded k_def, unfolded uo] by blast
    have d: "take i (drop (Suc a * k) bs) = take i (drop n1 (drop (a * k) bs))"
    proof (cases "n1 = k")
      case False
      then have "i = 0" using u(2) n1_def by (simp add: min_def split: if_splits)
      then show ?thesis by simp
    qed (simp add: add.commute)
    have "fput p f ip (unat off) (take n1 (drop (a * k) bs) @ take i (drop n1 (drop (a * k) bs))) s u"
      using fput_trans [OF t(4) [unfolded True]] u(4) unfolding d l [unfolded True] by blast
    then have "fput p f ip (unat off) (take (n1 + i) (drop (a * k) bs)) s u" by (simp only: take_add)
    moreover have "n1 + i \<le> length bs - a * k" "n1 + i = length bs - a * k \<longleftrightarrow> i = length bs - Suc a * k"
      using u(2) c(3) [OF am, folded n1_def] n1l by linarith+
    ultimately show ?thesis
      using t(1) True u(1,3,5) by (intro exI [of _ r] exI [of _ "n1 + i"] exI [of _ u]) simp
  qed
  then show ?case unfolding k_def [symmetric] up .
qed

lemma filewrite_ok:
  fixes s :: "'z file_state_scheme"
  assumes r: "fready p ip s" and x: "writable (files s f)" "ftyp (files s f) = FD_INODE" "fip (files s f) = Some ip"
    and src: "source p s (User addr) bs" and off: "foff (files s f) \<le> isize (inodes s ip)"
    and fit: "unat (foff (files s f)) + length bs \<le> MAXFILE * BSIZE"
  shows "\<exists>j t. filewrite f addr (int (length bs)) s = Ret (if j = length bs then int (length bs) else -1) t \<and> j \<le> length bs
    \<and> fready p ip t \<and> fput p f ip (unat (foff (files s f))) (take j bs) s t
    \<and> (j < length bs \<longrightarrow> (\<forall>b < sb_size (sb t). used t b))"
proof -
  let ?m = "(length bs + filewrite_max - 1) div filewrite_max"
  obtain v j t where t: "kscan (filewrite_one f ip addr (length bs)) (chunk_starts filewrite_max (length bs)) s = Ret v t"
      "j \<le> length bs" "fready p ip t" "fput p f ip (unat (foff (files s f))) (take j bs) s t"
      "if j = length bs then v = None else (\<exists>i < length bs. v = Some i) \<and> (\<forall>b < sb_size (sb t). used t b)"
    using filewrite_scan [OF r src refl off, of 0 ?m] fit by (auto simp: chunk_starts_def)
  have "filewrite f addr (int (length bs)) s = Ret (if j = length bs then int (length bs) else -1) t"
    using t(1,2,5) x by (auto simp: filewrite_def Let_def split: if_splits)
  then show ?thesis using t(2-5) by (intro exI [of _ j] exI [of _ t]) (auto split: if_splits)
qed

subsection \<open>Reading\<close>

lemma rmove_file_state:
  fixes s :: "'z file_state_scheme"
  assumes "rmove s t"
  shows "files t = files s" "calm s t" "inodes t = inodes s"
proof -
  have f: "bio_restore (stored s (mem t) (scratch t)) t = (stored s (mem t) (scratch t))\<lparr>lh_n := lh_n t, lh_block := lh_block t\<rparr>"
    and c: "calm s t" using assms by (auto simp: rmove_def fmove_def log_frame_eq)
  show "files t = files s" using arg_cong [OF f, of files] by (simp add: bio_restore_def)
  show "calm s t" by (rule c)
  show "inodes t = inodes s" by (rule rmove_fields(2) [OF assms])
qed

lemma fileread_ok:
  fixes s :: "'z file_state_scheme"
  assumes r: "fready p ip s" and x: "readable (files s f)" "ftyp (files s f) = FD_INODE" "fip (files s f) = Some ip"
    and off: "off = foff (files s f)" "off \<le> isize (inodes s ip)" "unat (isize (inodes s ip)) \<le> MAXFILE * BSIZE"
    and n: "0 \<le> n" "n < 2 ^ 31"
    and c: "c = min (nat n) (unat (isize (inodes s ip)) - unat off)" and rm: "has_room p s (User addr) c" and mp: "mapped s ip (unat off) c"
  shows "\<exists>t. fileread f addr n s = Ret (int c) t \<and> received p s (User addr) (fbytes s ip (unat off) c) t
    \<and> frd p {} t \<and> blk t = blk s \<and> inodes t = inodes s \<and> \<not> slocked (slocks t (Sl_inode ip))
    \<and> files t = (files s)(f := (files s f)\<lparr>foff := off + of_nat c\<rparr>)"
proof -
  have R: "frd p {} s" "1 \<le> iref (inodes s ip)" "ivalid (inodes s ip)" "\<not> slocked (slocks s (Sl_inode ip))" "fs_ok s" "imap_ok s ip"
    "lh_n s = 0" using r by (simp_all add: fready_def)
  obtain a where a: "ilock (Some ip) s = Ret () a" "locking p s a" "slocked (slocks a (Sl_inode ip))"
      "slpid (slocks a (Sl_inode ip)) = pid (procs a p)"
    using ilock_ok [OF R(1-4)] by blast
  have A: "frd p {} a" "opmove s a" "blk a = blk s" "logged a = logged s" "inodes a = inodes s" "files a = files s"
    using a(2) by (simp_all add: locking_def)
  note M = opmove_fields [OF A(2)]
  have sa: "fs_ok a" "imap_ok a ip" "faddr a ip = faddr s ip"
    using fs_same(2-4) [OF M(1) _ M(2) _ R(5,6)] A(3,5) by simp_all
  have "fbyte a ip = fbyte s ip" using sa(3) A(3) by (intro ext) (simp only: fbyte_def)
  then have fb: "fbytes a ip (unat off) c = fbytes s ip (unat off) c" and mp': "mapped a ip (unat off) c"
    using sa(3) mp by (simp_all only: fbytes_def mapped_def)
  have un: "unat (of_int n :: uint32) = nat n"
    using n by (simp add: unsigned_of_int take_bit_int_eq_self)
  have o: "unat off \<le> unat (isize (inodes s ip))" using off(2) by (simp add: word_le_nat_alt)
  have le: "unat off + unat (of_int n :: uint32) < 2 ^ 32"
    using MAXFILE_small [OF off(3)] o n un by (simp add: nat_less_iff)
  have "logged s = []" using R(7) by (simp add: logged_def)
  then have "length (logged a) < NBUF" using A(4) by (simp add: param_defs)
  then obtain b where b: "readi ip (User addr) off (of_int n) a = Ret (int c) b"
      and F: "sink.fetched p ip a (User addr) (fbytes s ip (unat off) c) 0 b"
    using sink.readi_ok [OF A(1) sa(2) _ _ le _ _ sink_memory [OF rm M(4) frd_idle(1) [OF A(1)]] mp'] off(2,3) c A(5) un fb by auto
  have B: "frd p {} b" "rmove a b" "blk b = blk a" "received p a (User addr) (fbytes s ip (unat off) c) b"
    using F by (simp_all add: sink.fetched_def)
  note S = rmove_file_state [OF B(2)]
  define y where "y = (files s)(f := (files s f)\<lparr>foff := off + of_nat c\<rparr>)"
  have upd: "kwhen (int c > 0) (upd_file f (\<lambda>x. x\<lparr>foff := foff x + of_int (int c)\<rparr>)) b = Ret () (b\<lparr>files := y\<rparr>)"
  proof (cases "c = 0")
    case True
    then have "y = files b" using S(1) A(6) off(1) by (simp add: y_def)
    then show ?thesis using True by simp
  next
    case False
    then show ?thesis using S(1) A(6) off(1) by (simp add: upd_file_def y_def)
  qed
  let ?d = "b\<lparr>files := y\<rparr>"
  have st: "steady b ?d" by (simp add: steady_def)
  have m: "mypid ?d = mypid b" by (simp add: mypid_def)
  have D: "frd p {} ?d" "blk ?d = blk b"
    using slocks_frd [of ?d b, OF _ _ _ _ m _ st] slocks_bio(2) [of ?d b, OF _ _ _ _ m] B(1) by simp_all
  have "slocked (slocks ?d (Sl_inode ip))" "slpid (slocks ?d (Sl_inode ip)) = pid (procs ?d p)" "1 \<le> iref (inodes ?d ip)"
    using S(2,3) calm_procs(1) [OF S(2)] a(3,4) A(5) R(2) by (simp_all add: calm_def)
  then obtain t where t: "iunlock (Some ip) ?d = Ret () t" "locking p ?d t" "\<not> slocked (slocks t (Sl_inode ip))"
    using iunlock_ok [OF D(1), of ip] by blast
  have T: "frd p {} t" "blk t = blk s" "inodes t = inodes s" "files t = y" "same_memory p ?d t"
    using t(2) D(2) B(3) A(3,5) S(3) opmove_fields(4) by (auto simp: locking_def)
  have "same_memory p a s" "same_memory p b t" using M(4) T(5) by (simp_all add: same_memory_def)
  then have "received p s (User addr) (fbytes s ip (unat off) c) t" by (rule sink_received [OF B(4)])
  moreover have "fileread f addr n s = Ret (int c) t"
    using x a(1) A(6) off(1) b upd t(1) by (simp add: fileread_def)
  ultimately show ?thesis using T t(3) unfolding y_def by blast
qed

subsection \<open>Properties\<close>

text \<open>The small file system with an open file on every inode, and a page of user memory.\<close>

definition io_ex :: "proc_state \<Rightarrow> file_state" where
  "io_ex t = (file_of t)\<lparr>disk := disk_ex, inodes := inode_ex, files := (\<lambda>i. \<lparr>ftyp = FD_INODE, fref = 1, readable = True,
     writable = True, fpipe = 0, fip = Some i, foff = 0, fmajor = 0\<rparr>)\<rparr>"

lemma io_ex_ready:
  "\<exists>s0 ps. let s = io_ex s0 in (\<forall>i < NINODE. fready 3 i s) \<and> vmok s 0x87001000 ps \<and> ppagetable (procs s 3) = 0x87001000
    \<and> writable_range (mem s) 0x87001000 ps 5 3 \<and> ex_layout s"
proof -
  obtain s0 :: proc_state and ps where t: "vmok s0 0x87001000 ps" "writable_range (mem s0) 0x87001000 ps 5 3" "kmem_only vm_ex s0"
    using vm_ex_mapped by blast
  have h: "held vm_ex = {}"
    by (simp add: held_def lock_mine_def vm_ex_def vm_ex0_def kfreed_def touch_def proc_ex_run_def proc_ex_def kmem_ex_def
        kmem_state.extend_def)
  have v: "myp vm_ex = Some 3" "ppagetable (procs vm_ex 3) = 0x87001000"
    by (simp_all add: vm_ex_def vm_ex0_def kfreed_def)
  define s where "s = io_ex s0"
  have f: "bufs s = bufs bio_ex" "bnext s = bnext bio_ex" "bprev s = bprev bio_ex" "disk s = disk_ex" "slocks s = (\<lambda>_. \<lparr>slocked = False, slname = [], slpid = 0\<rparr>)"
    "log_start s = 2" "outstanding s = 0" "\<not> committing s" "log_dev s = ROOTDEV" "lh_n s = 0" "lh_block s = replicate 30 0" "sb s = sb_ex" "inodes s = inode_ex"
    by (simp_all add: s_def io_ex_def file_of_extend sb_ex_def)
  have k: "mem s = mem s0" "freelist s = freelist s0" "kend s = kend s0" "lkok s = lkok s0" "held s = held s0" "procs s = procs s0" "myp s = myp s0"
    by (simp_all add: s_def io_ex_def)
  have id: "idle 3 s" and pt: "ppagetable (procs s 3) = 0x87001000"
    using t(1) h v kmem_only_simps [OF t(3)] kmem_only_procs [OF t(3)] k by (simp_all add: idle_def vmok_def)
  have "lru s [0..<30]" using bio_ex_lru lru_cong [of s bio_ex] f(2,3) by simp
  then have ok: "bio_ok {} {} s" using f(1,4,5) length_disk_ex by (auto simp: bio_ok_def ROOTDEV_def)
  have lay: "ex_layout s" using f blk_clean [OF ok] by (simp add: ex_layout_def fun_eq_iff)
  have "txn_ok {} s" using f by (simp add: txn_ok_def log_wf_def logged_def param_defs)
  then have "fready 3 i s" if "i < NINODE" for i
    using ok id f ex_layout_ok(1,2) [OF lay] that blk_clean [OF ok] by (auto simp: fready_def frd_def inode_ex_def)
  then show ?thesis using t(1,2) lay pt k unfolding s_def by (intro exI [of _ s0] exI [of _ ps]) (simp add: vmok_def kmem_inv_def)
qed

lemma fready_synced:
  assumes "fready p ip s" "synced s ip"
  shows "dinode_at (inum (inodes s ip)) (disk s (IBLOCK (inum (inodes s ip)) (sb s))) = to_dinode (inodes s ip)"
  using assms fs_okD(3) [of s "inum (inodes s ip)"] imap_okD(3) [of s ip] by (simp add: fready_def synced_def)

text \<open>
  C4. \<open>filewrite\<close> of \<open>n\<close> bytes of user memory to a file on disk, in as many operations as it needs: a prefix of the
  bytes is written at the file's offset, all of them unless the disk is full, and the offset and the size move on; the
  call returns \<open>n\<close> exactly when all were written and -1 otherwise. When it returns no operation is open, the log
  is empty and the disk holds every block as the kernel sees it (\<open>fready\<close>); if anything was written, the inode on the disk
  has the new size and the new blocks. No other file has changed: not its inode in memory, not its inode on the disk, not its blocks.
\<close>

theorem filewrite_correct:
  assumes "fready p ip s" "writable (files s f)" "ftyp (files s f) = FD_INODE" "fip (files s f) = Some ip"
    "vmok s (ppagetable (procs s p)) ps" "user_range (mem s) (ppagetable (procs s p)) addr n"
    "foff (files s f) \<le> isize (inodes s ip)" "unat (foff (files s f)) + n \<le> MAXFILE * BSIZE"
  shows "\<exists>j t. filewrite f addr (int n) s = Ret (if j = n then int n else -1) t \<and> j \<le> n \<and> fready p ip t
    \<and> fput p f ip (unat (foff (files s f))) (take j (user_bytes (mem s) (ppagetable (procs s p)) addr n)) s t
    \<and> (0 < j \<longrightarrow> dinode_at (inum (inodes t ip)) (disk t (IBLOCK (inum (inodes t ip)) (sb t))) = to_dinode (inodes t ip))
    \<and> (j < n \<longrightarrow> (\<forall>b < sb_size (sb t). used t b))"
proof -
  let ?bs = "user_bytes (mem s) (ppagetable (procs s p)) addr n"
  obtain j t where t: "filewrite f addr (int n) s = Ret (if j = n then int n else -1) t" "j \<le> n" "fready p ip t"
      "fput p f ip (unat (foff (files s f))) (take j ?bs) s t" "j < n \<longrightarrow> (\<forall>b < sb_size (sb t). used t b)"
    using filewrite_ok [OF assms(1-4) user_source [OF assms(5,6)] assms(7), unfolded length_user_bytes, OF assms(8)] by blast
  have "synced t ip" if "0 < j"
  proof -
    have "length (take j ?bs) = j" using t(2) by simp
    then have "take j ?bs \<noteq> []" using that by force
    then show ?thesis using t(4) by (simp add: fput_def)
  qed
  then show ?thesis using t fready_synced [OF t(3)] by blast
qed

theorem filewrite_correct_witness:
  "\<exists>s t. filewrite 0 5 3 (s :: file_state) = Ret 3 t \<and> fput 3 0 0 0 (user_bytes (mem s) 0x87001000 5 3) s t
    \<and> dinode_at (inum (inodes t 0)) (disk t (IBLOCK (inum (inodes t 0)) (sb t))) = to_dinode (inodes t 0)"
proof -
  obtain s0 ps where s: "\<forall>i < NINODE. fready 3 i (io_ex s0)" "vmok (io_ex s0) 0x87001000 ps" "ppagetable (procs (io_ex s0) 3) = 0x87001000"
      "writable_range (mem (io_ex s0)) 0x87001000 ps 5 3" and lay: "ex_layout (io_ex s0)"
    using io_ex_ready by (auto simp: Let_def)
  define s where "s = io_ex s0"
  note S = s [folded s_def] and L = lay [folded s_def]
  have f: "writable (files s 0)" "ftyp (files s 0) = FD_INODE" "fip (files s 0) = Some 0" "foff (files s 0) = 0"
    by (simp_all add: s_def io_ex_def)
  have "fready 3 0 s" "user_range (mem s) 0x87001000 5 3" "inodes s = inode_ex" "sb s = sb_ex"
    using S(1,4) L by (simp_all add: writable_range_def ex_layout_def NINODE_def)
  then obtain j t where t: "filewrite 0 5 (int 3) s = Ret (if j = 3 then int 3 else -1) t" "j \<le> 3"
      "fput 3 0 0 0 (take j (user_bytes (mem s) 0x87001000 5 3)) s t" "j < 3 \<longrightarrow> (\<forall>b < sb_size (sb t). used t b)"
      "0 < j \<longrightarrow> dinode_at (inum (inodes t 0)) (disk t (IBLOCK (inum (inodes t 0)) (sb t))) = to_dinode (inodes t 0)"
    using filewrite_correct [of 3 0 s 0 ps 5 3] f S(2,3) by (auto simp: MAXFILE_def NDIRECT_def BSIZE_def)
  have "{b. b < sb_size (sb s) \<and> \<not> used s b} = {48..<2000}" using ex_layout_used [OF L] \<open>sb s = sb_ex\<close> by auto
  then have "MAXFILE + 1 < card {b. b < sb_size (sb s) \<and> \<not> used s b}"
    by (simp add: MAXFILE_def NDIRECT_def NINDIRECT_def BSIZE_def)
  moreover have "\<And>c. used t c \<longleftrightarrow> used s c \<or> fblock t 0 c" "sb t = sb s" using t(3) by (simp_all add: fput_def)
  ultimately have "\<not> j < 3" using write_full [of t s 0] t(4) by blast
  then have "j = 3" using t(2) by simp
  then show ?thesis using t(1,3,5) by (intro exI [of _ s] exI [of _ t]) simp
qed

text \<open>
  C6. \<open>fileread\<close> of at most \<open>n\<close> bytes of a file on disk into writable user memory delivers the bytes from the file's offset
  on, up to the end of the file, returns their number and moves the offset by it. The file system is unchanged and the
  inode unlocked.
\<close>

theorem fileread_correct:
  assumes "fready p ip s" "readable (files s f)" "ftyp (files s f) = FD_INODE" "fip (files s f) = Some ip"
    "off = foff (files s f)" "off \<le> isize (inodes s ip)" "unat (isize (inodes s ip)) \<le> MAXFILE * BSIZE" "0 \<le> n" "n < 2 ^ 31"
    "c = min (nat n) (unat (isize (inodes s ip)) - unat off)" "mapped s ip (unat off) c"
    "vmok s (ppagetable (procs s p)) ps" "writable_range (mem s) (ppagetable (procs s p)) ps addr c"
  shows "\<exists>t. fileread f addr n s = Ret (int c) t
    \<and> delivered (ppagetable (procs s p)) addr (fbytes s ip (unat off) c) (mem s) (mem t)
    \<and> files t = (files s)(f := (files s f)\<lparr>foff := off + of_nat c\<rparr>)
    \<and> blk t = blk s \<and> inodes t = inodes s \<and> \<not> slocked (slocks t (Sl_inode ip)) \<and> frd p {} t"
proof -
  have "has_room p s (User addr) c" using assms(12,13) by auto
  then show ?thesis using fileread_ok [OF assms(1-10) _ assms(11), of addr] by auto
qed

theorem fileread_correct_witness:
  "\<exists>s t. fileread 1 5 3 (s :: file_state) = Ret 3 t \<and> delivered 0x87001000 5 [104, 101, 108] (mem s) (mem t) \<and> foff (files t 1) = 3"
proof -
  obtain s0 ps where s: "\<forall>i < NINODE. fready 3 i (io_ex s0)" "vmok (io_ex s0) 0x87001000 ps" "ppagetable (procs (io_ex s0) 3) = 0x87001000"
      "writable_range (mem (io_ex s0)) 0x87001000 ps 5 3" and lay: "ex_layout (io_ex s0)"
    using io_ex_ready by (auto simp: Let_def)
  define s where "s = io_ex s0"
  note S = s [folded s_def] and L = lay [folded s_def]
  have f: "readable (files s 1)" "ftyp (files s 1) = FD_INODE" "fip (files s 1) = Some 1" "0 = foff (files s 1)"
    by (simp_all add: s_def io_ex_def)
  have d: "i div BSIZE = 0" "i mod BSIZE = i" if "i < 5" for i using that by (simp_all add: BSIZE_def)
  have e: "inodes s = inode_ex" "blk s = disk_ex" using L by (simp_all add: ex_layout_def)
  have fa: "faddr s 1 0 = 47" using ex_layout_ok(3) [OF L] by simp
  have "[0..<3::nat] = [0, 1, 2]" by code_simp
  then have fb: "fbytes s 1 0 3 = [104, 101, 108]"
    using fa d [of 0] d [of 1] d [of 2] e by (simp add: fbytes_def fbyte_def disk_ex_def)
  have mp: "mapped s 1 (unat (0::uint32)) 3" using fa d by (simp add: mapped_def)
  have r: "fready 3 1 s" using S(1) by (simp add: NINODE_def)
  have p: "(0::uint32) \<le> isize (inodes s 1)" "unat (isize (inodes s 1)) \<le> MAXFILE * BSIZE" "0 \<le> (3::int)" "(3::int) < 2 ^ 31"
      "3 = min (nat 3) (unat (isize (inodes s 1)) - unat (0::uint32))"
    by (simp_all add: e inode_ex_def MAXFILE_def NDIRECT_def BSIZE_def)
  obtain t where t: "fileread 1 5 3 s = Ret (int 3) t" "delivered 0x87001000 5 (fbytes s 1 (unat (0::uint32)) 3) (mem s) (mem t)"
      "files t = (files s)(1 := (files s 1)\<lparr>foff := 0 + of_nat 3\<rparr>)"
    using fileread_correct [OF r f p mp] S(2-4) by fastforce
  then show ?thesis using fb by (intro exI [of _ s] exI [of _ t]) simp
qed

lemma wlog_le:
  assumes "ftx p H s"
  shows "wlog s ip \<le> length (logged s) + 2"
proof -
  have "card (set (logged s) \<union> {bmb s} \<union> ({ind_of s ip} - {0})) \<le> card (set (logged s)) + card {bmb s} + card ({ind_of s ip} - {0})"
    using card_Un_le [of "set (logged s) \<union> {bmb s}" "{ind_of s ip} - {0}"] card_Un_le [of "set (logged s)" "{bmb s}"] by simp
  then show ?thesis using card_length [of "logged s"] by (cases "ind_of s ip = 0") (simp_all add: wlog_def)
qed

text \<open>
  C10. The size of a chunk of \<open>filewrite\<close> is small enough: an operation that \<open>begin_op\<close> admitted, so that the log has room for
  \<^verbatim>\<open>MAXOPBLOCKS\<close> more blocks, and that writes at most \<open>filewrite_max\<close> bytes at any offset, logs at most seven new blocks,
  fewer than it reserved, and never runs into a full log or cache.
\<close>

theorem write_fits_operation:
  assumes "ftx p {} s" "fs_ok s" "imap_ok s ip" "source p s q bs" "length bs = unat n" "unat n \<le> filewrite_max"
    "off \<le> isize (inodes s ip)" "unat off + unat n \<le> MAXFILE * BSIZE" "length (logged s) + MAXOPBLOCKS \<le> LOGBLOCKS"
  shows "\<exists>j t. writei ip q off n s = Ret (int j) t \<and> ftx p {} t \<and> length (logged t) \<le> length (logged s) + 7
    \<and> length (logged s) + 7 < length (logged s) + MAXOPBLOCKS"
proof -
  have w: "wlog s ip + nblk (unat off) (unat n) \<le> length (logged s) + 6"
    using wlog_le [OF assms(1), of ip] nblk_chunk [OF assms(6), of "unat off"] by linarith
  then have "wlog s ip + nblk (unat off) (unat n) + 3 < NBUF" using assms(9) by (simp add: param_defs)
  then show ?thesis using writei_ok [OF assms(1-5,7,8)] w by (fastforce simp: param_defs)
qed

theorem write_fits_operation_witness: "\<exists>j t. writei 0 (Local 0) 0 2 fs_ex = Ret (int j) t \<and> length (logged t) \<le> 7"
proof -
  have "unat (2::uint32) \<le> filewrite_max" "(0::uint32) \<le> isize (inodes fs_ex 0)" "unat (0::uint32) + unat (2::uint32) \<le> MAXFILE * BSIZE"
    "length (logged fs_ex) + MAXOPBLOCKS \<le> LOGBLOCKS"
    by (simp_all add: filewrite_max_def param_defs MAXFILE_def NDIRECT_def BSIZE_def fs_ex_blocks(4))
  from write_fits_operation [OF fs_ex_tx(1) fs_ex_ok(1) fs_ex_ok0 fs_ex_source _ this] show ?thesis
    by (auto simp: fs_ex_blocks(4))
qed

end
