(* ===== verification/Reservation.thy ===== *)
theory Reservation
  imports Transaction
begin

section \<open>The space of the log\<close>

text \<open>
  \<open>begin_op\<close>, \<open>log_write\<close> and \<open>end_op\<close> called by any number of processes, with everything else the kernel does
  going on between the critical sections of \<^verbatim>\<open>log.lock\<close>: processes read, hold and release buffers and wait for them,
  also inside \<open>commit\<close>. \<open>same_log s t\<close>: \<^verbatim>\<open>struct log\<close> is the same in both states.
\<close>

definition same_log :: "log_state \<Rightarrow> log_state \<Rightarrow> bool" where
  "same_log s t \<longleftrightarrow> log_start t = log_start s \<and> outstanding t = outstanding s \<and> committing t = committing s
     \<and> log_dev t = log_dev s \<and> lh_n t = lh_n s \<and> lh_block t = lh_block s"

lemma same_log_trans: "same_log s t \<Longrightarrow> same_log t u \<Longrightarrow> same_log s u"
  by (simp add: same_log_def)

lemma same_log_refl [simp]: "same_log s s"
  by (simp add: same_log_def)

subsection \<open>What leaves the log alone\<close>

text \<open>
  \<open>frames m\<close>: called by a process that holds no spinlock, \<open>m\<close> leaves \<^verbatim>\<open>struct log\<close> as it is and every spinlock free
  when it returns, and also when it goes to sleep and the scheduler goes on.
\<close>

definition at_rest :: "nat \<Rightarrow> log_state \<Rightarrow> bool" where
  "at_rest p s \<longleftrightarrow> quiet s \<and> myp s = Some p"

definition frames :: "(log_state, 'a) km \<Rightarrow> bool" where
  "frames m \<longleftrightarrow> (\<forall>s p. at_rest p s \<longrightarrow> (\<forall>x t. m s = Ret x t \<longrightarrow> at_rest p t \<and> same_log s t)
     \<and> (\<forall>t u. m s = Halt Switch t \<and> scheduler_resume p t = Ret () u \<longrightarrow> quiet u \<and> same_log s u))"

lemma framesI:
  assumes "\<And>s p x t. at_rest p s \<Longrightarrow> m s = Ret x t \<Longrightarrow> at_rest p t \<and> same_log s t"
    "\<And>s p t u. at_rest p s \<Longrightarrow> m s = Halt Switch t \<Longrightarrow> scheduler_resume p t = Ret () u \<Longrightarrow> quiet u \<and> same_log s u"
  shows "frames m"
  using assms unfolding frames_def by blast

lemma framesD:
  assumes "frames m" "at_rest p s"
  shows "m s = Ret x t \<Longrightarrow> at_rest p t \<and> same_log s t"
    "m s = Halt Switch t \<Longrightarrow> scheduler_resume p t = Ret () u \<Longrightarrow> quiet u \<and> same_log s u"
  using assms unfolding frames_def by blast+

lemma frames_bind:
  assumes m: "frames m" and f: "\<And>x. frames (f x)"
  shows "frames (kbind m f)"
proof (rule framesI)
  fix s p x t assume s: "at_rest p s" and r: "kbind m f s = Ret x t"
  then obtain y u where u: "m s = Ret y u" "f y u = Ret x t" by (auto split: outcome.splits)
  have "at_rest p u \<and> same_log s u" using m s u(1) unfolding frames_def by blast
  then show "at_rest p t \<and> same_log s t" using f u(2) same_log_trans unfolding frames_def by blast
next
  fix s p t v assume s: "at_rest p s" and r: "kbind m f s = Halt Switch t" and v: "scheduler_resume p t = Ret () v"
  show "quiet v \<and> same_log s v"
  proof (cases "m s")
    case (Ret y u)
    have "at_rest p u \<and> same_log s u" using m s Ret unfolding frames_def by blast
    moreover have "f y u = Halt Switch t" using r Ret by simp
    ultimately show ?thesis using f v same_log_trans unfolding frames_def by blast
  next
    case (Halt e u)
    then have "m s = Halt Switch t" using r by simp
    then show ?thesis using m s v unfolding frames_def by blast
  qed
qed

lemma frames_seq: "frames m \<Longrightarrow> frames n \<Longrightarrow> frames (kseq m n)"
  unfolding kseq_def by (rule frames_bind)

lemma frames_ret: "frames (kret x)" and frames_get: "frames (kget f)" and frames_skip: "frames kskip"
  and frames_halt: "e \<noteq> Switch \<Longrightarrow> frames (khalt e)" and frames_panic: "frames (panic msg)"
  by (simp_all add: frames_def kskip_def panic_def)

lemma frames_when: "(c \<Longrightarrow> frames m) \<Longrightarrow> frames (kwhen c m)"
  using frames_skip by (simp add: kwhen_def)

lemma frames_do: "(\<And>m. m \<in> set ms \<Longrightarrow> frames m) \<Longrightarrow> frames (kdo ms)"
  by (induction ms) (auto intro: frames_seq frames_skip)

lemma frames_iter: "(\<And>i. frames (f i)) \<Longrightarrow> frames (kiter f is)"
  by (induction "is") (auto intro: frames_seq frames_skip)

lemma frames_mod:
  assumes "\<And>s. locks (f s) = locks s" "\<And>s. cpus (f s) = cpus s" "\<And>s. sie (f s) = sie s" "\<And>s. tp (f s) = tp s" "\<And>s. same_log s (f s)"
  shows "frames (kmod f)"
proof (rule framesI)
  fix s p x t assume "at_rest p s" "kmod f s = Ret x t"
  then show "at_rest p t \<and> same_log s t"
    using assms lkok_cong [of "f s" s] by (auto simp: at_rest_def quiet_def)
qed simp

lemma frames_acquiresleep: "frames (acquiresleep sl)"
proof (rule framesI)
  fix s :: log_state and p x t assume s: "at_rest p s" and r: "acquiresleep sl s = Ret x t"
  have q: "lkok s" "held s = {}" "mynoff s = 0" "myp s = Some p" using s by (auto simp: at_rest_def quiet_def)
  have "\<not> slocked (slocks s sl)" using r acquiresleep_busy [of s sl p] q by auto
  then have "t = touch (sl_taken sl (pid (procs s p)) s)" using r acquiresleep_free [of s sl p] q by simp
  then show "at_rest p t \<and> same_log s t" using q by (simp add: at_rest_def quiet_def same_log_def) (simp add: sl_taken_def)
next
  fix s :: log_state and p t u assume s: "at_rest p s" and r: "acquiresleep sl s = Halt Switch t" "scheduler_resume p t = Ret () u"
  have q: "lkok s" "held s = {}" "mynoff s = 0" "myp s = Some p" using s by (auto simp: at_rest_def quiet_def)
  have "slocked (slocks s sl)" using r acquiresleep_free [of s sl p] q by auto
  then have t: "t = asleep (Ch_sleeplock sl) (Lk_sleep sl) p (entered (Lk_sleep sl) s)" using r acquiresleep_busy [of s sl p] q by simp
  then have u: "u = unscheduled p t" using r(2) scheduler_resume_eq [of t p] q by simp
  have "same_log s u" by (simp add: u t same_log_def unscheduled_def asleep_def)
  then show "quiet u \<and> same_log s u" using q by (simp add: u t quiet_def)
qed

lemma frames_releasesleep: "frames (releasesleep sl)"
proof (rule framesI)
  fix s :: log_state and p x t assume s: "at_rest p s" and r: "releasesleep sl s = Ret x t"
  have q: "lkok s" "held s = {}" "mynoff s = 0" "myp s = Some p" using s by (auto simp: at_rest_def quiet_def)
  then show "at_rest p t \<and> same_log s t"
    using r releasesleep_eq [of s sl] by (auto simp: at_rest_def quiet_def same_log_def sl_dropped_def)
next
  fix s :: log_state and p t u assume s: "at_rest p s" and r: "releasesleep sl s = Halt Switch t"
  then show "quiet u \<and> same_log s u"
    using releasesleep_eq [of s sl] by (auto simp: at_rest_def quiet_def)
qed

lemma frames_holdingsleep: "frames (holdingsleep sl)"
proof (rule framesI)
  fix s :: log_state and p x t assume "at_rest p s" "holdingsleep sl s = Ret x t"
  then show "at_rest p t \<and> same_log s t"
    using holdingsleep_eq [of s sl p] by (auto simp: at_rest_def quiet_def same_log_def)
next
  fix s :: log_state and p t u assume "at_rest p s" "holdingsleep sl s = Halt Switch t"
  then show "quiet u \<and> same_log s u"
    using holdingsleep_eq [of s sl p] by (auto simp: at_rest_def quiet_def)
qed

text \<open>A critical section of \<^verbatim>\<open>bcache.lock\<close> that changes nothing but the cache.\<close>

definition cached :: "(nat \<Rightarrow> buf) \<Rightarrow> (bnode \<Rightarrow> bnode) \<Rightarrow> (bnode \<Rightarrow> bnode) \<Rightarrow> log_state \<Rightarrow> log_state" where
  "cached bs nx pv s = s\<lparr>bufs := bs, bnext := nx, bprev := pv\<rparr>"

lemma cached_bufs: "s\<lparr>bufs := bs\<rparr> = cached bs (bnext s) (bprev s) s"
  by (simp add: cached_def)

lemma at_rest_cached: "at_rest p s \<Longrightarrow> at_rest p (cached bs nx pv (touch s)) \<and> same_log s (cached bs nx pv (touch s))"
  using lkok_cong [of "cached bs nx pv (touch s)" "touch s"]
  by (simp add: at_rest_def quiet_def same_log_def) (simp add: cached_def)

lemma bget_cases:
  assumes "at_rest p s"
  shows "(\<exists>e t. bget dev bno s = Halt e t \<and> e \<noteq> Switch)
    \<or> (\<exists>i bs. bget dev bno s = kseq (acquiresleep (Sl_buf i)) (kret i) (cached bs (bnext s) (bprev s) (touch s)))"
proof -
  have q: "lkok s" "held s = {}" using assms by (auto simp: at_rest_def quiet_def)
  have f: "kseq (upd_buf i f) (bget_take i) (entered Lk_bcache s)
      = kseq (acquiresleep (Sl_buf i)) (kret i) (cached ((bufs s)(i := f (bufs s i))) (bnext s) (bprev s) (touch s))" for i f
    using q cached_bufs [where s = "touch s" and bs = "(bufs s)(i := f (bufs s i))"] by (simp add: upd_buf_def bget_take_def)
  show ?thesis
    using q f unfolding bget_def by (auto simp: panic_def split: option.splits)
qed

lemma frames_bget: "frames (bget dev bno)"
proof -
  have k: "frames (kseq (acquiresleep (Sl_buf i)) (kret i))" for i by (intro frames_seq frames_acquiresleep frames_ret)
  show ?thesis
  proof (rule framesI)
    fix s p x t assume s: "at_rest p s" and r: "bget dev bno s = Ret x t"
    then obtain i bs where i: "kseq (acquiresleep (Sl_buf i)) (kret i) (cached bs (bnext s) (bprev s) (touch s)) = Ret x t"
      using bget_cases [OF s, of dev bno] by auto
    note c = at_rest_cached [OF s, of bs "bnext s" "bprev s"]
    then have "at_rest p t \<and> same_log (cached bs (bnext s) (bprev s) (touch s)) t" using k i unfolding frames_def by blast
    then show "at_rest p t \<and> same_log s t" using c same_log_trans by blast
  next
    fix s p t u assume s: "at_rest p s" and r: "bget dev bno s = Halt Switch t" and u: "scheduler_resume p t = Ret () u"
    then obtain i bs where i: "kseq (acquiresleep (Sl_buf i)) (kret i) (cached bs (bnext s) (bprev s) (touch s)) = Halt Switch t"
      using bget_cases [OF s, of dev bno] by auto
    note c = at_rest_cached [OF s, of bs "bnext s" "bprev s"]
    then have "quiet u \<and> same_log (cached bs (bnext s) (bprev s) (touch s)) u" using k i u unfolding frames_def by blast
    then show "quiet u \<and> same_log s u" using c same_log_trans by blast
  qed
qed

lemma frames_section:
  assumes "\<And>s. \<exists>bs nx pv. m (entered Lk_bcache s) = Ret () (cached bs nx pv (entered Lk_bcache s))"
  shows "frames (kseq (acquire Lk_bcache) (kseq m (release Lk_bcache)))"
proof -
  have run: "\<exists>bs nx pv. kseq (acquire Lk_bcache) (kseq m (release Lk_bcache)) s = Ret () (cached bs nx pv (touch s))"
    if q: "lkok s" "held s = {}" for s
  proof -
    obtain bs nx pv where e: "m (entered Lk_bcache s) = Ret () (cached bs nx pv (entered Lk_bcache s))" using assms by blast
    have "left Lk_bcache (cached bs nx pv (entered Lk_bcache s)) = cached bs nx pv (touch s)" using q by (simp add: cached_def)
    moreover have "lkok (cached bs nx pv (entered Lk_bcache s))" "held (cached bs nx pv (entered Lk_bcache s)) = {Lk_bcache}"
      using q by (simp_all add: cached_def)
    ultimately show ?thesis using q e by auto
  qed
  show ?thesis
  proof (rule framesI)
    fix s p x t assume s: "at_rest p s" and r: "kseq (acquire Lk_bcache) (kseq m (release Lk_bcache)) s = Ret x t"
    have q: "lkok s" "held s = {}" using s by (auto simp: at_rest_def quiet_def)
    then show "at_rest p t \<and> same_log s t" using run [OF q] r at_rest_cached [OF s] by force
  next
    fix s p t u assume s: "at_rest p s" and r: "kseq (acquire Lk_bcache) (kseq m (release Lk_bcache)) s = Halt Switch t"
    have q: "lkok s" "held s = {}" using s by (auto simp: at_rest_def quiet_def)
    then show "quiet u \<and> same_log s u" using run [OF q] r by force
  qed
qed

lemma cached_next: "s\<lparr>bnext := nx\<rparr> = cached (bufs s) nx (bprev s) s"
  and cached_prev: "s\<lparr>bprev := pv\<rparr> = cached (bufs s) (bnext s) pv s"
  and cached_same: "s = cached (bufs s) (bnext s) (bprev s) s"
  and cached_cached: "cached bs nx pv (cached bs' nx' pv' s) = cached bs nx pv s"
  by (simp_all add: cached_def)

text \<open>\<open>only_cache m\<close>: \<open>m\<close> returns, having changed the buffers and their list at most.\<close>

definition only_cache :: "(log_state, unit) km \<Rightarrow> bool" where
  "only_cache m \<longleftrightarrow> (\<forall>s. \<exists>bs nx pv. m s = Ret () (cached bs nx pv s))"

lemma only_cache_seq:
  assumes "only_cache m" "only_cache n"
  shows "only_cache (kseq m n)"
  unfolding only_cache_def
proof
  fix s
  obtain bs nx pv where m: "m s = Ret () (cached bs nx pv s)" using assms(1) unfolding only_cache_def by blast
  obtain bs' nx' pv' where "n (cached bs nx pv s) = Ret () (cached bs' nx' pv' (cached bs nx pv s))"
    using assms(2) unfolding only_cache_def by blast
  then show "\<exists>bs nx pv. kseq m n s = Ret () (cached bs nx pv s)" using m by (auto simp: cached_cached)
qed

lemma only_cache_get: "(\<And>x. only_cache (f x)) \<Longrightarrow> only_cache (kbind (kget g) f)"
  by (simp add: only_cache_def)

lemma only_cache_simps:
  "only_cache kskip" "only_cache (upd_buf i f)" "only_cache (set_next b v)" "only_cache (set_prev b v)"
  unfolding only_cache_def kskip_def upd_buf_def set_next_def set_prev_def
  using cached_same cached_bufs cached_next cached_prev by (simp; blast)+

lemma only_cache_when: "only_cache m \<Longrightarrow> only_cache (kwhen c m)"
  using only_cache_simps(1) by (simp add: kwhen_def)

lemmas only_cache_intros = only_cache_seq only_cache_get only_cache_when only_cache_simps

lemma frames_cache: "only_cache m \<Longrightarrow> frames (kseq (acquire Lk_bcache) (kseq m (release Lk_bcache)))"
  by (rule frames_section) (simp add: only_cache_def)

lemma frames_unlocked: "only_cache m \<Longrightarrow> frames m"
proof (rule framesI)
  fix s p x t assume m: "only_cache m" and s: "at_rest p s" and r: "m s = Ret x t"
  then obtain bs nx pv where "t = cached bs nx pv s" unfolding only_cache_def by (metis outcome.inject(1))
  then show "at_rest p t \<and> same_log s t"
    using s lkok_cong [of t s] by (simp add: at_rest_def quiet_def same_log_def cached_def)
next
  fix s p t u assume m: "only_cache m" and r: "m s = Halt Switch t"
  then show "quiet u \<and> same_log s u" unfolding only_cache_def by (metis outcome.distinct(1))
qed

lemma kseq_assoc: "kseq (kseq a b) c = kseq a (kseq b c)"
  and kseq_kskip: "kseq a kskip = a"
  by (auto simp: kskip_def split: outcome.splits)

lemma frames_bpin: "frames (bpin i)" and frames_bunpin: "frames (bunpin i)"
proof -
  have e: "with_lock Lk_bcache m = kseq (acquire Lk_bcache) (kseq m (release Lk_bcache))" for m :: "(log_state, unit) km"
    by (rule ext) (simp add: with_lock_def split: outcome.splits)
  show "frames (bpin i)" "frames (bunpin i)"
    unfolding bpin_def bunpin_def e by (intro frames_cache only_cache_simps)+
qed

lemma frames_brelse: "frames (brelse i)"
proof -
  let ?m = "kseq (upd_buf i (\<lambda>b. b\<lparr>refcnt := refcnt b - 1\<rparr>)) (kbind (kget (\<lambda>s. refcnt (bufs s i))) (\<lambda>r.
       kwhen (r = 0) (kbind (kget (\<lambda>s. (bnext s (Buf i), bprev s (Buf i)))) (\<lambda>(n, p).
         kdo [set_prev n p, set_next p n, link_head (Buf i)]))))"
  have "only_cache ?m"
    unfolding link_head_def by (intro only_cache_intros) (auto intro!: only_cache_intros)
  note m = frames_cache [OF this]
  have e: "brelse i = kbind (holdingsleep (Sl_buf i)) (\<lambda>h. kseq (kwhen (\<not> h) (panic ''brelse'')) (
      kseq (releasesleep (Sl_buf i)) (kseq (acquire Lk_bcache) (kseq ?m (release Lk_bcache)))))"
    by (simp only: brelse_def kdo.simps kseq_assoc kseq_kskip)
  show ?thesis
    unfolding e by (intro frames_bind frames_seq [of "kwhen _ _"] frames_seq [of "releasesleep _"]
      frames_holdingsleep frames_when frames_panic frames_releasesleep m)
qed

lemma frames_disk_rw: "frames (disk_rw i w)"
  unfolding disk_rw_def by (auto intro!: frames_mod simp: same_log_def)

lemma frames_bread: "frames (bread dev b)" and frames_bwrite: "frames (bwrite i)"
  unfolding bread_def bwrite_def
  by (auto intro!: frames_bind frames_seq frames_bget frames_get frames_when frames_disk_rw frames_unlocked [OF only_cache_simps(2)]
      frames_ret frames_holdingsleep frames_panic frames_skip)

lemma frames_lh_block: "frames (get_lh_block i)"
  unfolding get_lh_block_def by (auto intro!: frames_bind frames_get frames_ret frames_halt)

text \<open>The statements of \<^verbatim>\<open>commit\<close> other than the reset of the header: they read and write blocks.\<close>

lemmas frames_io = frames_bind frames_seq frames_get frames_ret frames_skip frames_when frames_iter frames_bread frames_bwrite
  frames_brelse frames_bunpin frames_lh_block frames_unlocked [OF only_cache_simps(2)]

lemma frames_commit:
  assumes "k < length commit_code" "k \<noteq> 3"
  shows "frames (commit_code ! k)"
proof -
  have "frames write_log" "frames write_head" "frames (install_trans False)"
    unfolding write_log_def write_log_one_def write_head_def install_trans_def install_trans_one_def bytes_of_def set_bytes_def
    by (auto intro!: frames_io)
  moreover have "k = 0 \<or> k = 1 \<or> k = 2 \<or> k = 4" using assms by (auto simp: commit_code_def)
  ultimately show ?thesis by (auto simp: commit_code_def)
qed

subsection \<open>The critical sections of the log\<close>

definition lh_ok :: "log_state \<Rightarrow> bool" where
  "lh_ok s \<longleftrightarrow> 0 \<le> lh_n s \<and> lh_n s \<le> int LOGBLOCKS \<and> length (lh_block s) = LOGBLOCKS"

lemma lh_ok_length: "lh_ok s \<Longrightarrow> lh_n s = int (length (logged s))"
  by (auto simp: lh_ok_def logged_def min_def)

lemma same_log_logged: "same_log s t \<Longrightarrow> logged t = logged s \<and> lh_ok t = lh_ok s"
  by (simp add: same_log_def logged_def lh_ok_def)

lemma log_write_run:
  assumes r: "at_rest q s" and ok: "lh_ok s" and n: "lh_n s < int LOGBLOCKS" and out: "1 \<le> outstanding s"
  shows "\<exists>t. log_write i s = Ret () t \<and> at_rest q t \<and> lh_ok t \<and> logged t = log_add (logged s) (blockno (bufs s i))
    \<and> outstanding t = outstanding s \<and> committing t = committing s
    \<and> refcnt (bufs t i) = refcnt (bufs s i) + (if blockno (bufs s i) \<in> set (logged s) then 0 else 1)"
proof -
  let ?b = "blockno (bufs s i)" and ?n = "nat (lh_n s)"
  have lk: "lkok s" "held s = {}" "mynoff s = 0" "myp s = Some q" using r by (auto simp: at_rest_def quiet_def)
  have le: "?n < length (lh_block s)" "0 \<le> lh_n s" using ok n by (auto simp: lh_ok_def)
  note scan = log_scan [of ?n "entered Lk_log s" ?b]
  have mem: "?b \<in> set (logged s) \<longleftrightarrow> (\<exists>k<?n. lh_block s ! k = ?b)"
    using le by (auto simp: logged_def in_set_conv_nth)
  show ?thesis
  proof (cases "find (\<lambda>k. lh_block s ! k = ?b) [0..<?n]")
    case (Some k)
    have k: "k < ?n" "lh_block s ! k = ?b" using find_index(2) [OF Some] by auto
    have e: "(lh_block s)[k := ?b] = lh_block s" using k(2) by (metis list_update_id)
    have "int k \<noteq> lh_n s" using k(1) by simp
    then have "log_write i s = Ret () ((touch s)\<lparr>lh_block := (lh_block s)[k := ?b]\<rparr>)"
      using Some k n out le lk scan by (simp add: log_write_def set_lh_block_def)
    moreover have "(touch s)\<lparr>lh_block := (lh_block s)[k := ?b]\<rparr> = touch s" unfolding e by (simp add: touch_def)
    ultimately show ?thesis
      using lk ok mem k by (auto simp: at_rest_def quiet_def lh_ok_def log_add_def logged_def)
  next
    case None
    then have b: "?b \<notin> set (logged s)" using mem by (simp add: find_index(1))
    let ?t = "(touch s)\<lparr>lh_block := (lh_block s)[?n := ?b], bufs := (bufs s)(i := (bufs s i)\<lparr>refcnt := refcnt (bufs s i) + 1\<rparr>),
        lh_n := lh_n s + 1\<rparr>"
    have "log_write i s = Ret () ?t"
      using None n out le lk scan by (simp add: log_write_def set_lh_block_def Let_def bpin_def with_lock_def upd_buf_def)
    moreover have "logged ?t = logged s @ [?b]"
      using le by (simp add: logged_def nat_add_distrib take_Suc_conv_app_nth)
    ultimately show ?thesis using lk ok b n by (simp add: at_rest_def quiet_def lh_ok_def log_add_def)
  qed
qed

lemma log_write_ret:
  assumes "at_rest q s" "log_write i s = Ret () t"
  shows "lh_n s < int LOGBLOCKS" "1 \<le> outstanding s"
proof -
  have lk: "lkok s" "held s = {}" using assms(1) by (auto simp: at_rest_def quiet_def)
  show n: "lh_n s < int LOGBLOCKS"
  proof (rule ccontr)
    assume "\<not> lh_n s < int LOGBLOCKS"
    then show False using assms(2) lk by (simp add: log_write_def)
  qed
  show "1 \<le> outstanding s"
  proof (rule ccontr)
    assume "\<not> 1 \<le> outstanding s"
    then show False using assms(2) lk n by (simp add: log_write_def)
  qed
qed

lemma end_op_first_run:
  assumes "at_rest q s" "\<not> committing s"
  shows "\<exists>t. end_op_first s = Ret (outstanding s = 1) t \<and> at_rest q t \<and> outstanding t = outstanding s - 1
    \<and> committing t = (outstanding s = 1) \<and> lh_n t = lh_n s \<and> lh_block t = lh_block s"
  using assms by (cases "outstanding s = 1") (simp_all add: end_op_first_def at_rest_def quiet_def)

lemma end_op_last_run:
  assumes "at_rest q s"
  shows "\<exists>t. end_op_last s = Ret () t \<and> at_rest q t \<and> outstanding t = outstanding s
    \<and> \<not> committing t \<and> lh_n t = lh_n s \<and> lh_block t = lh_block s"
  using assms by (simp add: end_op_last_def at_rest_def quiet_def)

text \<open>The loop of \<open>begin_op\<close>, entered with the lock: first by \<open>begin_op\<close>, then after every sleep.\<close>

definition admitted :: "log_state \<Rightarrow> log_state \<Rightarrow> bool" where
  "admitted s t \<longleftrightarrow> quiet t \<and> \<not> committing s \<and> lh_n s + (outstanding s + 1) * int MAXOPBLOCKS \<le> int LOGBLOCKS
     \<and> outstanding t = outstanding s + 1 \<and> \<not> committing t \<and> lh_n t = lh_n s \<and> lh_block t = lh_block s"

lemma begin_op_loop_run:
  assumes s: "lkok s" "held s = {Lk_log}" "mynoff s = 1" "myp s = Some q"
  shows "begin_op_loop s = Ret () t \<Longrightarrow> admitted s t"
    "begin_op_loop s = Halt Switch t \<Longrightarrow> scheduler_resume q t = Ret () u \<Longrightarrow> quiet u \<and> same_log s u"
proof -
  let ?full = "committing s \<or> int LOGBLOCKS < lh_n s + (outstanding s + 1) * int MAXOPBLOCKS"
  have run: "begin_op_loop s = (if ?full then Halt Switch (asleep Ch_log Lk_log q s)
      else Ret () (left Lk_log (s\<lparr>outstanding := outstanding s + 1\<rparr>)))"
    using s by (simp add: begin_op_loop_def sleep_eq [of s q])
  show "admitted s t" if r: "begin_op_loop s = Ret () t"
  proof (cases ?full)
    case False
    then have "t = left Lk_log (s\<lparr>outstanding := outstanding s + 1\<rparr>)" using r run by simp
    then show ?thesis using False s by (simp add: admitted_def quiet_def)
  qed (use r run in simp)
  assume h: "begin_op_loop s = Halt Switch t" and u: "scheduler_resume q t = Ret () u"
  have t: "t = asleep Ch_log Lk_log q s" using h run by (cases ?full) simp_all
  then have u: "u = unscheduled q t" using u scheduler_resume_eq [of t q] s by simp
  have "same_log s u" by (simp add: u t same_log_def unscheduled_def asleep_def)
  then show "quiet u \<and> same_log s u" using s by (simp add: u t quiet_def)
qed

subsection \<open>Operations of many processes\<close>

text \<open>
  Where each process is: outside any operation, asleep in \<open>begin_op\<close>, inside an operation that has logged the
  blocks \<open>B\<close>, or in \<open>end_op\<close> as the one that commits, about to run statement \<open>k\<close> of \<open>commit_code\<close> or
  waiting inside it for a buffer.
\<close>

datatype op_state = Out | Waits | In "nat set" | Commits nat | Blocked nat

record rsv_sys =
  rst :: log_state
  ops :: "nat \<Rightarrow> op_state"

definition moved_op :: "nat \<Rightarrow> log_state \<Rightarrow> op_state \<Rightarrow> rsv_sys \<Rightarrow> rsv_sys" where
  "moved_op q t o' x = x\<lparr>rst := t, ops := (ops x)(q := o')\<rparr>"

lemma moved_op_simps [simp]: "rst (moved_op q t o' x) = t" "ops (moved_op q t o' x) = (ops x)(q := o')"
  by (simp_all add: moved_op_def)

text \<open>
  A step is one critical section of \<^verbatim>\<open>log.lock\<close>, one statement of \<open>commit\<close>, or anything else the kernel may do
  meanwhile (\<open>rsv_other\<close>): take, hold, change, pin and release buffers, sleep, and run other processes, but not
  write \<^verbatim>\<open>struct log\<close>, which \<^verbatim>\<open>log.c\<close> alone does. A process inside an operation logs at most \<^verbatim>\<open>MAXOPBLOCKS\<close>
  different blocks, from buffers that may be held across steps. A statement of \<open>commit\<close> that goes to sleep
  leaves the rest of its reads and writes for later (\<open>rsv_unblock\<close>).
\<close>

inductive rsv_step :: "rsv_sys \<Rightarrow> rsv_sys \<Rightarrow> bool" where
  rsv_begin: "ops x q = Out \<Longrightarrow> begin_op (run_as q (rst x)) = Ret () t \<Longrightarrow> rsv_step x (moved_op q t (In {}) x)"
| rsv_wait: "ops x q = Out \<Longrightarrow> begin_op (run_as q (rst x)) = Halt Switch t \<Longrightarrow> scheduler_resume q t = Ret () u \<Longrightarrow>
    rsv_step x (moved_op q u Waits x)"
| rsv_admit: "ops x q = Waits \<Longrightarrow> scheduler_turn q (rst x) = Halt Switch t \<Longrightarrow> begin_op_resume i q t = Ret () u \<Longrightarrow>
    rsv_step x (moved_op q u (In {}) x)"
| rsv_again: "ops x q = Waits \<Longrightarrow> scheduler_turn q (rst x) = Halt Switch t \<Longrightarrow> begin_op_resume i q t = Halt Switch u \<Longrightarrow>
    scheduler_resume q u = Ret () v \<Longrightarrow> rsv_step x (moved_op q v Waits x)"
| rsv_write: "ops x q = In B \<Longrightarrow> b = blockno (bufs (rst x) i) \<Longrightarrow> b \<in> B \<or> card B < MAXOPBLOCKS \<Longrightarrow>
    log_write i (run_as q (rst x)) = Ret () t \<Longrightarrow> rsv_step x (moved_op q t (In (insert b B)) x)"
| rsv_end: "ops x q = In B \<Longrightarrow> end_op_first (run_as q (rst x)) = Ret do_commit t \<Longrightarrow>
    rsv_step x (moved_op q t (if do_commit then Commits (if 0 < lh_n t then 0 else length (commit_code :: (log_state, unit) km list))
      else Out) x)"
| rsv_commit: "ops x q = Commits k \<Longrightarrow> k < length (commit_code :: (log_state, unit) km list) \<Longrightarrow>
    (commit_code ! k) (run_as q (rst x)) = Ret () t \<Longrightarrow> rsv_step x (moved_op q t (Commits (Suc k)) x)"
| rsv_block: "ops x q = Commits k \<Longrightarrow> k < length (commit_code :: (log_state, unit) km list) \<Longrightarrow>
    (commit_code ! k) (run_as q (rst x)) = Halt Switch t \<Longrightarrow> scheduler_resume q t = Ret () u \<Longrightarrow>
    rsv_step x (moved_op q u (Blocked k) x)"
| rsv_unblock: "ops x q = Blocked k \<Longrightarrow> quiet t \<Longrightarrow> same_log (rst x) t \<Longrightarrow> rsv_step x (moved_op q t (Commits (Suc k)) x)"
| rsv_done: "ops x q = Commits (length (commit_code :: (log_state, unit) km list)) \<Longrightarrow>
    end_op_last (run_as q (rst x)) = Ret () t \<Longrightarrow> rsv_step x (moved_op q t Out x)"
| rsv_other: "quiet t \<Longrightarrow> same_log (rst x) t \<Longrightarrow> rsv_step x (x\<lparr>rst := t\<rparr>)"

definition rsv_init :: "rsv_sys \<Rightarrow> bool" where
  "rsv_init x \<longleftrightarrow> quiet (rst x) \<and> lh_ok (rst x) \<and> outstanding (rst x) = 0 \<and> \<not> committing (rst x) \<and> ops x = (\<lambda>_. Out)"

inductive rsv_reach :: "rsv_sys \<Rightarrow> bool" where
  rsv_start: "rsv_init x \<Longrightarrow> rsv_reach x"
| rsv_more: "rsv_reach x \<Longrightarrow> rsv_step x y \<Longrightarrow> rsv_reach y"

subsection \<open>The reservation\<close>

text \<open>How many blocks each open operation may still add, and which process commits.\<close>

definition budget :: "(nat \<Rightarrow> op_state) \<Rightarrow> nat \<Rightarrow> nat option" where
  "budget f q = (case f q of In B \<Rightarrow> Some (MAXOPBLOCKS - card B) | _ \<Rightarrow> None)"

definition committer :: "(nat \<Rightarrow> op_state) \<Rightarrow> nat \<Rightarrow> bool" where
  "committer f q \<longleftrightarrow> (case f q of Commits k \<Rightarrow> True | Blocked k \<Rightarrow> True | _ \<Rightarrow> False)"

definition ops_ok :: "log_state \<Rightarrow> (nat \<Rightarrow> op_state) \<Rightarrow> bool" where
  "ops_ok s f \<longleftrightarrow> (\<forall>q B. f q = In B \<longrightarrow> finite B \<and> card B \<le> MAXOPBLOCKS \<and> B \<subseteq> set (logged s))"

definition rsv_inv :: "log_state \<Rightarrow> (nat \<Rightarrow> op_state) \<Rightarrow> bool" where
  "rsv_inv s f \<longleftrightarrow> quiet s \<and> lh_ok s \<and> finite (dom (budget f)) \<and> outstanding s = int (card (dom (budget f)))
     \<and> ops_ok s f
     \<and> (if committing s then budget f = Map.empty \<and> (\<forall>p q. committer f p \<and> committer f q \<longrightarrow> p = q)
        else (\<forall>q. \<not> committer f q) \<and> lh_n s + int (reserved (budget f)) \<le> int LOGBLOCKS)"

lemma budget_upd: "budget (f(q := o')) = (budget f)(q := (case o' of In B \<Rightarrow> Some (MAXOPBLOCKS - card B) | _ \<Rightarrow> None))"
  by (rule ext) (simp add: budget_def)

lemma committer_upd: "committer (f(q := o')) p = (if p = q then (case o' of Commits k \<Rightarrow> True | Blocked k \<Rightarrow> True | _ \<Rightarrow> False) else committer f p)"
  by (simp add: committer_def)

lemma at_rest_run_as: "quiet s \<Longrightarrow> at_rest q (run_as q s)"
  by (simp add: at_rest_def quiet_def)

lemma same_log_run_as [simp]: "same_log s (run_as q s)" "lh_ok (run_as q s) = lh_ok s" "lh_block (run_as q s) = lh_block s"
  "bufs (run_as q s) = bufs s"
  by (simp_all add: same_log_def lh_ok_def run_as_def)

text \<open>A process that changes nothing of the log, and neither opens nor closes an operation.\<close>

lemma rsv_inv_same:
  assumes "rsv_inv s f" "quiet t" "same_log s t"
    and "budget f q = None" "case o' of In B \<Rightarrow> False | _ \<Rightarrow> True" "committer f q \<longleftrightarrow> committer (f(q := o')) q"
  shows "rsv_inv t (f(q := o'))"
proof -
  have b: "budget (f(q := o')) = budget f" using assms(4,5) by (auto simp: budget_upd split: op_state.splits)
  have c: "committer (f(q := o')) p = committer f p" for p using assms(6) by (auto simp: committer_upd)
  have l: "logged t = logged s" "lh_ok t = lh_ok s" using same_log_logged [OF assms(3)] by auto
  have i: "ops_ok t (f(q := o'))"
    using assms(1,5) l(1) by (auto simp: rsv_inv_def ops_ok_def split: if_splits)
  show ?thesis using i assms(1-3) b c l by (auto simp: rsv_inv_def same_log_def)
qed

lemma begin_op_entry:
  assumes "quiet s"
  shows "\<exists>u. begin_op (run_as q s) = begin_op_loop u \<and> same_log s u
    \<and> lkok u \<and> held u = {Lk_log} \<and> mynoff u = 1 \<and> myp u = Some q"
proof -
  let ?u = "entered Lk_log (run_as q s)"
  have "begin_op (run_as q s) = begin_op_loop ?u"
    using assms by (simp add: begin_op_def kseq_kskip quiet_def split: outcome.splits)
  then show ?thesis using assms by (intro exI [of _ ?u]) (auto simp: quiet_def same_log_def run_as_def)
qed

lemma begin_op_resume_entry:
  assumes "quiet s" "scheduler_turn q s = Halt Switch t"
  shows "\<exists>u. begin_op_resume i q t = begin_op_loop u \<and> same_log s u
    \<and> lkok u \<and> held u = {Lk_log} \<and> mynoff u = 1 \<and> myp u = Some q"
proof -
  have q: "lkok s" "held s = {}" "mynoff s = 0" using assms(1) by (auto simp: quiet_def)
  have t: "t = scheduled q s" using assms(2) scheduler_turn_eq [of s q] q by (simp split: if_splits)
  let ?u = "entered Lk_log ((resumed i q t)\<lparr>procs := (procs t)(q := (procs t q)\<lparr>chan := None\<rparr>)\<rparr>)"
  have lt: "lkok t" "held t = {Lk_proc q}" "mynoff t = 1" "myp t = Some q" using q by (auto simp: t)
  have "begin_op_resume i q t = begin_op_loop ?u"
    using lt sleep_resume_eq [of t q Lk_log i] by (simp add: begin_op_resume_def kseq_kskip split: outcome.splits)
  moreover have "same_log s ?u" by (simp add: t same_log_def resumed_def scheduled_def)
  ultimately show ?thesis using lt by (intro exI [of _ ?u]) simp
qed

lemma rsv_inv_admit:
  assumes inv: "rsv_inv s f" and q: "budget f q = None" and l: "same_log s u" and a: "admitted u t"
  shows "rsv_inv t (f(q := In {}))"
proof -
  have c: "\<not> committing s" "lh_n s + (outstanding s + 1) * int MAXOPBLOCKS \<le> int LOGBLOCKS"
      "outstanding t = outstanding s + 1" "\<not> committing t" "lh_n t = lh_n s" "lh_block t = lh_block s" "quiet t"
    using a l by (auto simp: admitted_def same_log_def)
  have i: "lh_ok s" "finite (dom (budget f))" "outstanding s = int (card (dom (budget f)))" "ops_ok s f" "\<And>q. \<not> committer f q"
    using inv c(1) by (auto simp: rsv_inv_def)
  have b: "budget (f(q := In {})) = (budget f)(q \<mapsto> MAXOPBLOCKS)" by (simp add: budget_upd)
  have "\<forall>p\<in>dom (budget f). the (budget f p) \<le> MAXOPBLOCKS" by (auto simp: budget_def split: op_state.splits)
  then have "int (reserved (budget f)) \<le> outstanding s * int MAXOPBLOCKS"
    unfolding i(3) using reserved_le [of "budget f"] by (metis of_nat_le_iff of_nat_mult)
  moreover have "(budget f)(q := None) = budget f" using q by auto
  ultimately have "lh_n s + int (reserved ((budget f)(q \<mapsto> MAXOPBLOCKS))) \<le> int LOGBLOCKS"
    using c(2) reserved_set [OF i(2), of q MAXOPBLOCKS] by (simp add: algebra_simps)
  moreover have "card (insert q (dom (budget f))) = card (dom (budget f)) + 1" using q i(2) by (simp add: domIff)
  moreover have "ops_ok t (f(q := In {}))" using i(4) c(5,6) by (auto simp: ops_ok_def logged_def)
  moreover have "lh_ok t" using i(1) c(5,6) by (simp add: lh_ok_def)
  ultimately show ?thesis using c i b by (simp add: rsv_inv_def committer_upd)
qed

lemma rsv_inv_open:
  assumes inv: "rsv_inv s f" and q: "f q = In B"
  shows "\<not> committing s" "1 \<le> outstanding s" "finite B" "card B \<le> MAXOPBLOCKS" "B \<subseteq> set (logged s)"
    "lh_n s + int (MAXOPBLOCKS - card B) + int (reserved ((budget f)(q := None))) \<le> int LOGBLOCKS"
proof -
  have b: "budget f q = Some (MAXOPBLOCKS - card B)" using q by (simp add: budget_def)
  then show c: "\<not> committing s" using inv by (auto simp: rsv_inv_def)
  have fin: "finite (dom (budget f))" using inv by (simp add: rsv_inv_def)
  then have "card (dom (budget f)) \<noteq> 0" using b by auto
  then show "1 \<le> outstanding s" using inv by (simp add: rsv_inv_def)
  show "finite B" "card B \<le> MAXOPBLOCKS" "B \<subseteq> set (logged s)" using inv q by (auto simp: rsv_inv_def ops_ok_def)
  show "lh_n s + int (MAXOPBLOCKS - card B) + int (reserved ((budget f)(q := None))) \<le> int LOGBLOCKS"
    using inv c reserved_drop [OF fin b] by (simp add: rsv_inv_def)
qed

lemma ops_ok_in:
  assumes "ops_ok s f" "set (logged s) \<subseteq> set (logged t)" "finite B" "card B \<le> MAXOPBLOCKS" "B \<subseteq> set (logged t)"
  shows "ops_ok t (f(q := In B))"
  using assms unfolding ops_ok_def by (metis fun_upd_apply op_state.inject(1) subset_trans)

lemma rsv_inv_write:
  assumes inv: "rsv_inv s f" and q: "f q = In B" and b: "b = blockno (bufs s i)" "b \<in> B \<or> card B < MAXOPBLOCKS"
    and r: "log_write i (run_as q s) = Ret () t"
  shows "rsv_inv t (f(q := In (insert b B)))"
proof -
  note o = rsv_inv_open [OF inv q]
  have s: "at_rest q (run_as q s)" "lh_ok (run_as q s)" "lh_ok s" using inv at_rest_run_as by (auto simp: rsv_inv_def)
  have t: "at_rest q t" "lh_ok t" "logged t = log_add (logged s) b" "outstanding t = outstanding s" "\<not> committing t"
    using log_write_run [OF s(1,2) log_write_ret [OF s(1) r], of i] r b(1) o(1) by auto
  have n: "lh_n t = lh_n s + (if b \<in> set (logged s) then 0 else 1)"
    using lh_ok_length [OF t(2)] lh_ok_length [OF s(3)] t(3) by (simp add: log_add_def)
  have k: "budget (f(q := In (insert b B))) = (budget f)(q \<mapsto> MAXOPBLOCKS - card (insert b B))" by (simp add: budget_upd)
  have fin: "finite (dom (budget f))" using inv by (simp add: rsv_inv_def)
  have d: "insert q (dom (budget f)) = dom (budget f)" using q by (auto simp: budget_def)
  have "lh_n t + int (MAXOPBLOCKS - card (insert b B)) \<le> lh_n s + int (MAXOPBLOCKS - card B)"
    using n b(2) o(3,5) by (auto simp: card_insert_if insert_absorb)
  then have "lh_n t + int (reserved (budget (f(q := In (insert b B))))) \<le> int LOGBLOCKS"
    using o(6) reserved_set [OF fin, of q "MAXOPBLOCKS - card (insert b B)"] k by simp
  moreover have "ops_ok t (f(q := In (insert b B)))"
  proof (rule ops_ok_in)
    show "ops_ok s f" using inv by (simp add: rsv_inv_def)
    show "card (insert b B) \<le> MAXOPBLOCKS" using b(2) o(3,4) by (auto simp: card_insert_if)
  qed (use o(3,5) t(3) in \<open>auto simp: log_add_def\<close>)
  ultimately show ?thesis using inv t o(1) d k by (simp add: rsv_inv_def committer_upd at_rest_def)
qed

lemma ops_ok_none:
  assumes "budget f = Map.empty"
  shows "ops_ok s f"
proof -
  have "f q \<noteq> In B" for q B using fun_cong [OF assms, of q] by (auto simp: budget_def)
  then show ?thesis by (simp add: ops_ok_def)
qed

lemma rsv_inv_end:
  assumes inv: "rsv_inv s f" and q: "f q = In B" and r: "end_op_first (run_as q s) = Ret c t"
  shows "rsv_inv t (f(q := (if c then Commits k else Out)))"
proof -
  note o = rsv_inv_open [OF inv q]
  let ?d = "dom (budget f)" and ?f = "f(q := (if c then Commits k else Out))"
  have i: "quiet s" "lh_ok s" "finite ?d" "outstanding s = int (card ?d)" "ops_ok s f" "\<And>p. \<not> committer f p"
    using inv o(1) by (auto simp: rsv_inv_def)
  have t: "c = (outstanding s = 1)" "at_rest q t" "outstanding t = outstanding s - 1" "committing t = c" "lh_n t = lh_n s"
      "lh_block t = lh_block s"
    using end_op_first_run [OF at_rest_run_as [OF i(1), of q]] r o(1) by auto
  have b: "budget ?f = (budget f)(q := None)" by (simp add: budget_upd)
  have qd: "q \<in> ?d" using q by (auto simp: budget_def)
  have card: "int (card (?d - {q})) = outstanding s - 1" using card_Suc_Diff1 [OF i(3) qd] i(4) by linarith
  have m: "finite (dom (budget ?f))" "outstanding t = int (card (dom (budget ?f)))" "lh_ok t" "logged t = logged s" "quiet t"
    using b i(2,3) t card by (auto simp: lh_ok_def logged_def at_rest_def)
  show ?thesis
  proof (cases c)
    case True
    then have "?d - {q} = {}" using card t(1) i(3) by simp
    then have "dom (budget ?f) = {}" using b by simp
    then have e: "budget ?f = Map.empty" by (simp only: dom_eq_empty_conv)
    then show ?thesis using m True t(4) ops_ok_none [OF e] i(6) by (simp add: rsv_inv_def committer_upd)
  next
    case False
    have "ops_ok t ?f" using i(5) m(4) False by (auto simp: ops_ok_def)
    moreover have "lh_n t + int (reserved (budget ?f)) \<le> int LOGBLOCKS" using o(6) b t(5) by simp
    ultimately show ?thesis using m False t(4) i(6) by (simp add: rsv_inv_def committer_upd)
  qed
qed

lemma rsv_inv_committer:
  assumes "rsv_inv s f" "committer f q"
  shows "committing s" "budget f = Map.empty" "\<And>p. committer f p \<Longrightarrow> p = q"
  using assms by (auto simp: rsv_inv_def split: if_splits)

lemma rsv_inv_commit:
  assumes inv: "rsv_inv s f" and q: "committer f q" and k: "k < length (commit_code :: (log_state, unit) km list)"
    and c: "case o' of Commits k \<Rightarrow> True | Blocked k \<Rightarrow> True | _ \<Rightarrow> False"
    and r: "(commit_code ! k) (run_as q s) = Ret () t \<or>
      (\<exists>u. (commit_code ! k) (run_as q s) = Halt Switch u \<and> scheduler_resume q u = Ret () t)"
  shows "rsv_inv t (f(q := o'))"
proof -
  note o = rsv_inv_committer [OF inv q]
  have s: "at_rest q (run_as q s)" using inv at_rest_run_as by (auto simp: rsv_inv_def)
  have b: "budget f q = None" using o(2) by simp
  have co: "case o' of In B \<Rightarrow> False | _ \<Rightarrow> True" "committer f q \<longleftrightarrow> committer (f(q := o')) q"
    using c q by (auto simp: committer_upd split: op_state.splits)
  show ?thesis
  proof (cases "k = 3")
    case False
    then have "frames (commit_code ! k)" by (rule frames_commit [OF k])
    note fr = framesD [OF this s]
    have "quiet t \<and> same_log (run_as q s) t" using r fr(1) [of "()" t] fr(2) [where u = t] by (auto simp: at_rest_def)
    then show ?thesis using rsv_inv_same [OF inv _ _ b co] same_log_trans [OF same_log_run_as(1)] by blast
  next
    case True
    then have t: "t = (run_as q s)\<lparr>lh_n := 0\<rparr>" using r by (auto simp: commit_code_def)
    have u: "rsv_inv s (f(q := o'))" using inv rsv_inv_same [OF inv _ same_log_refl b co] by (simp add: rsv_inv_def)
    then have "committing s" "budget (f(q := o')) = Map.empty" using o(1) by (auto simp: rsv_inv_def)
    then show ?thesis using u ops_ok_none by (auto simp: t rsv_inv_def quiet_def lh_ok_def)
  qed
qed

lemma rsv_inv_done:
  assumes inv: "rsv_inv s f" and q: "committer f q" and r: "end_op_last (run_as q s) = Ret () t"
  shows "rsv_inv t (f(q := Out))"
proof -
  note o = rsv_inv_committer [OF inv q]
  have s: "at_rest q (run_as q s)" "lh_ok s" "outstanding s = 0" using inv at_rest_run_as o(2) by (auto simp: rsv_inv_def)
  have t: "at_rest q t" "outstanding t = 0" "\<not> committing t" "lh_n t = lh_n s" "lh_block t = lh_block s"
    using end_op_last_run [OF s(1)] r s(3) by auto
  have b: "budget (f(q := Out)) = Map.empty" using o(2) by (simp add: budget_upd)
  have "lh_ok t" using s(2) t by (simp add: lh_ok_def)
  then show ?thesis
    using t b o(3) ops_ok_none [OF b] by (simp add: rsv_inv_def at_rest_def committer_upd reserved_def) (auto simp: lh_ok_def)
qed

lemma rsv_inv_step:
  assumes "rsv_step x y" "rsv_inv (rst x) (ops x)"
  shows "rsv_inv (rst y) (ops y)"
  using assms
proof (induction rule: rsv_step.induct)
  case (rsv_begin x q t)
  obtain u where u: "begin_op_loop u = Ret () t" "same_log (rst x) u" "lkok u" "held u = {Lk_log}" "mynoff u = 1" "myp u = Some q"
    using begin_op_entry [of "rst x" q] rsv_begin by (auto simp: rsv_inv_def)
  have b: "budget (ops x) q = None" using rsv_begin(1) by (simp add: budget_def)
  show ?case
    unfolding moved_op_simps by (rule rsv_inv_admit [OF rsv_begin(3) b u(2) begin_op_loop_run(1) [OF u(3-6) u(1)]])
next
  case (rsv_wait x q t u)
  obtain w where w: "begin_op_loop w = Halt Switch t" "same_log (rst x) w" "lkok w" "held w = {Lk_log}" "mynoff w = 1" "myp w = Some q"
    using begin_op_entry [of "rst x" q] rsv_wait by (auto simp: rsv_inv_def)
  have u: "quiet u" "same_log (rst x) u"
    using begin_op_loop_run(2) [OF w(3-6) w(1) rsv_wait(3)] same_log_trans [OF w(2)] by auto
  show ?case
    unfolding moved_op_simps by (rule rsv_inv_same [OF rsv_wait(4) u]) (simp_all add: rsv_wait(1) budget_def committer_def)
next
  case (rsv_admit x q t i u)
  obtain w where w: "begin_op_loop w = Ret () u" "same_log (rst x) w" "lkok w" "held w = {Lk_log}" "mynoff w = 1" "myp w = Some q"
    using begin_op_resume_entry [of "rst x" q t i] rsv_admit by (auto simp: rsv_inv_def)
  have b: "budget (ops x) q = None" using rsv_admit(1) by (simp add: budget_def)
  show ?case
    unfolding moved_op_simps by (rule rsv_inv_admit [OF rsv_admit(4) b w(2) begin_op_loop_run(1) [OF w(3-6) w(1)]])
next
  case (rsv_again x q t i u v)
  obtain w where w: "begin_op_loop w = Halt Switch u" "same_log (rst x) w" "lkok w" "held w = {Lk_log}" "mynoff w = 1" "myp w = Some q"
    using begin_op_resume_entry [of "rst x" q t i] rsv_again by (auto simp: rsv_inv_def)
  have v: "quiet v" "same_log (rst x) v"
    using begin_op_loop_run(2) [OF w(3-6) w(1) rsv_again(4)] same_log_trans [OF w(2)] by auto
  show ?case
    unfolding moved_op_simps by (rule rsv_inv_same [OF rsv_again(5) v]) (simp_all add: rsv_again(1) budget_def committer_def)
next
  case (rsv_write x q B b i t)
  then show ?case unfolding moved_op_simps by (intro rsv_inv_write)
next
  case (rsv_end x q B c t)
  then show ?case unfolding moved_op_simps by (intro rsv_inv_end)
next
  case (rsv_commit x q k t)
  have "committer (ops x) q" using rsv_commit(1) by (simp add: committer_def)
  then show ?case unfolding moved_op_simps using rsv_commit(2-4) by (intro rsv_inv_commit [of "rst x" "ops x" q k]) auto
next
  case (rsv_block x q k t u)
  have "committer (ops x) q" using rsv_block(1) by (simp add: committer_def)
  then show ?case unfolding moved_op_simps using rsv_block(2-5) by (intro rsv_inv_commit [of "rst x" "ops x" q k]) auto
next
  case (rsv_unblock x q k t)
  show ?case
    unfolding moved_op_simps
    by (rule rsv_inv_same [OF rsv_unblock(4,2,3)]) (simp_all add: rsv_unblock(1) budget_def committer_def)
next
  case (rsv_done x q t)
  then show ?case unfolding moved_op_simps by (intro rsv_inv_done) (simp_all add: committer_def)
next
  case (rsv_other t x)
  have "logged t = logged (rst x)" "lh_ok t = lh_ok (rst x)" using same_log_logged [OF rsv_other(2)] by auto
  then show ?case using rsv_other by (simp add: rsv_inv_def same_log_def ops_ok_def)
qed

lemma rsv_reach_inv: "rsv_reach x \<Longrightarrow> rsv_inv (rst x) (ops x)"
proof (induction rule: rsv_reach.induct)
  case (rsv_start x)
  have e: "ops x = (\<lambda>_. Out)" "budget (ops x) = Map.empty" using rsv_start by (auto simp: rsv_init_def budget_def)
  then show ?case
    using rsv_start ops_ok_none [OF e(2)] by (simp add: rsv_init_def rsv_inv_def lh_ok_def reserved_def committer_def)
qed (rule rsv_inv_step)

lemma last_open:
  assumes "rsv_inv s f" "f q = In B"
  shows "outstanding s = 1 \<longleftrightarrow> (\<forall>p C. f p = In C \<longrightarrow> p = q)"
proof -
  have d: "p \<in> dom (budget f) \<longleftrightarrow> (\<exists>C. f p = In C)" for p by (auto simp: budget_def split: op_state.splits)
  have "outstanding s = 1 \<longleftrightarrow> card (dom (budget f)) = 1" using assms(1) by (auto simp: rsv_inv_def)
  also have "\<dots> \<longleftrightarrow> dom (budget f) = {q}" using d [of q] assms(2) by (metis One_nat_def card_1_singletonE card.empty card.insert empty_iff finite.emptyI singletonD)
  also have "\<dots> \<longleftrightarrow> (\<forall>p C. f p = In C \<longrightarrow> p = q)" using d assms(2) by blast
  finally show ?thesis .
qed

subsection \<open>Properties\<close>

text \<open>The log just after \<^verbatim>\<open>initlog\<close>, once processes 3 and 4 have begun an operation each.\<close>

definition rsv_ex0 :: rsv_sys where
  "rsv_ex0 = \<lparr>rst = lst txn_ex, ops = (\<lambda>_. Out)\<rparr>"

definition rsv_ex1 :: rsv_sys where
  "rsv_ex1 = moved_op 3 ((touch (run_as 3 (rst rsv_ex0)))\<lparr>outstanding := 1\<rparr>) (In {}) rsv_ex0"

definition rsv_ex :: rsv_sys where
  "rsv_ex = moved_op 4 ((touch (run_as 4 (rst rsv_ex1)))\<lparr>outstanding := 2\<rparr>) (In {}) rsv_ex1"

lemma rsv_ex_reach: "rsv_reach rsv_ex" "ops rsv_ex 3 = In {}" "ops rsv_ex 4 = In {}" "logged (rst rsv_ex) = []"
proof -
  have i: "lkok (lst txn_ex)" "held (lst txn_ex) = {}" "outstanding (lst txn_ex) = 0" "\<not> committing (lst txn_ex)"
    using txn_ex_init by (auto simp: txn_init_def)
  have n: "lh_n (lst txn_ex) = 0" "lh_block (lst txn_ex) = replicate 30 0" "mynoff (lst txn_ex) = 0"
    by (simp_all add: txn_ex_def boot_ex_def bio_state.extend_def bio_ex_def pr_state.extend_def sl_state.extend_def sl_ex_def
        vm_state.extend_def proc_state.extend_def)
  have init: "rsv_init rsv_ex0" using i n by (simp add: rsv_init_def rsv_ex0_def quiet_def lh_ok_def param_defs)
  have "begin_op (run_as 3 (rst rsv_ex0)) = Ret () ((touch (run_as 3 (rst rsv_ex0)))\<lparr>outstanding := 1\<rparr>)"
    using begin_op_eq [of 3 "run_as 3 (rst rsv_ex0)"] i n by (simp add: rsv_ex0_def param_defs)
  then have s1: "rsv_step rsv_ex0 rsv_ex1" unfolding rsv_ex1_def by (intro rsv_begin) (simp_all add: rsv_ex0_def)
  have e: "rst rsv_ex1 = (touch (run_as 3 (lst txn_ex)))\<lparr>outstanding := 1\<rparr>" by (simp add: rsv_ex1_def rsv_ex0_def)
  have "begin_op (run_as 4 (rst rsv_ex1)) = Ret () ((touch (run_as 4 (rst rsv_ex1)))\<lparr>outstanding := 2\<rparr>)"
    using begin_op_eq [of 4 "run_as 4 (rst rsv_ex1)"] i n by (simp add: e param_defs)
  then have s2: "rsv_step rsv_ex1 rsv_ex" unfolding rsv_ex_def by (intro rsv_begin) (simp_all add: rsv_ex1_def rsv_ex0_def)
  show "rsv_reach rsv_ex" using rsv_start [OF init] s1 s2 rsv_more by blast
  show "ops rsv_ex 3 = In {}" "ops rsv_ex 4 = In {}" by (simp_all add: rsv_ex_def rsv_ex1_def)
  show "logged (rst rsv_ex) = []" using n by (simp add: rsv_ex_def e logged_def)
qed



end
