(* ===== verification/Wakeup.thy ===== *)
theory Wakeup
  imports Sleeplock
begin

section \<open>Sleep and wakeup, statement by statement\<close>

text \<open>
  The functions of \<^verbatim>\<open>kernel/proc.c\<close> and \<^verbatim>\<open>kernel/sleeplock.c\<close> that put processes to sleep and wake them, run by
  any number of harts that are interleaved between any two statements. \<open>wpc\<close> says at which statement a process
  is; the statements are the elements of the lists that \<open>sleep\<close>, \<open>sleep_resume\<close>, \<open>acquiresleep\<close>, \<open>releasesleep\<close>,
  \<open>wakeup_one\<close>, \<open>yield\<close> and \<open>yield_resume\<close> are made of. A statement that takes a spinlock
  runs when the lock is free; the loop it spins in is the subject of theory \<open>Spinlock\<close>. The processes also run
  \<^verbatim>\<open>kkill\<close>, which wakes a sleeping process whatever it waits for.
\<close>

datatype wpc =
    Out
  | Enter slid
  | Test slid
  | Sleep slid nat
  | Leaving slid bool
  | Off slid bool
  | Resume slid bool nat
  | Take slid nat
  | Drop slid nat
  | Wake slid nat nat
  | Kill uint32 nat
  | Yield nat
  | Yielded bool
  | Parked bool
  | Back bool nat

record wsys =
  wst :: sl_state
  wpcs :: "nat \<Rightarrow> wpc"

text \<open>
  The statement at a position, run by process \<open>p\<close>, and the position after it. At \<open>Sleep sl 4\<close> and \<open>Yield 2\<close>
  it is the call of \<^verbatim>\<open>sched\<close>; then the hart runs the rest of the scheduler's turn (\<open>Leaving\<close>, \<open>Yielded\<close>). A process
  at \<open>Off\<close> or \<open>Parked\<close> is on no hart; the flag is the \<^verbatim>\<open>intena\<close> that \<^verbatim>\<open>sched\<close> keeps on its stack.
\<close>

definition stmt_at :: "('s, unit) km list \<Rightarrow> nat \<Rightarrow> (nat \<Rightarrow> wpc) \<Rightarrow> wpc \<Rightarrow> ('s, wpc) km" where
  "stmt_at code n nxt fin = (if n < length code
     then kseq (code ! n) (kret (if Suc n < length code then nxt (Suc n) else fin)) else khalt Fault)"

fun stmt :: "nat \<Rightarrow> wpc \<Rightarrow> (sl_state, wpc) km" where
  "stmt p (Enter sl) = kseq (acquire (Lk_sleep sl)) (kret (Test sl))"
| "stmt p (Test sl) = kbind (kget (\<lambda>s. slocked (slocks s sl))) (\<lambda>l. kret (if l then Sleep sl 0 else Take sl 0))"
| "stmt p (Sleep sl n) =
     (if n = length (sleep_code p (Ch_sleeplock sl) (Lk_sleep sl) :: (sl_state, unit) km list) then sched
      else stmt_at (sleep_code p (Ch_sleeplock sl) (Lk_sleep sl)) n (Sleep sl) (Sleep sl (Suc n)))"
| "stmt p (Leaving sl i) = kseq (scheduler_resume p) (kret (Off sl i))"
| "stmt p (Resume sl i n) = stmt_at (sleep_resume_code i p (Lk_sleep sl)) n (Resume sl i) (Test sl)"
| "stmt p (Take sl n) = stmt_at (acquiresleep_code sl) n (Take sl) Out"
| "stmt p (Drop sl n) = stmt_at (releasesleep_code sl) n (Drop sl) (Wake sl 0 0)"
| "stmt p (Wake sl q n) =
     (if NPROC \<le> q then kseq (release (Lk_sleep sl)) (kret Out)
      else if n = 0 then kbind myproc (\<lambda>me. kret (if Some q = me then Wake sl (Suc q) 0 else Wake sl q 1))
      else stmt_at (wakeup_code (Some (Ch_sleeplock sl)) q) (n - 1) (\<lambda>k. Wake sl q (Suc k)) (Wake sl (Suc q) 0))"
| "stmt p (Kill k q) =
     (if NPROC \<le> q then kret Out
      else kbind (kkill_one k q) (\<lambda>r. kret (if r = None then Kill k (Suc q) else Out)))"
| "stmt p (Yield n) =
     (if n = length (yield_code p :: (sl_state, unit) km list) then sched
      else stmt_at (yield_code p) n Yield (Yield (Suc n)))"
| "stmt p (Yielded i) = kseq (scheduler_resume p) (kret (Parked i))"
| "stmt p (Back i n) = stmt_at (yield_resume_code i p) n (Back i) Out"
| "stmt p _ = khalt Fault"

text \<open>Where a process is after \<^verbatim>\<open>swtch\<close> has left it, and where it goes on when \<^verbatim>\<open>swtch\<close> comes back to it.\<close>

fun switch_pc :: "bool \<Rightarrow> wpc \<Rightarrow> wpc option" where
  "switch_pc i (Sleep sl n) = Some (Leaving sl i)"
| "switch_pc i (Yield n) = Some (Yielded i)"
| "switch_pc i _ = None"

fun resume_pc :: "wpc \<Rightarrow> wpc option" where
  "resume_pc (Off sl i) = Some (Resume sl i 0)"
| "resume_pc (Parked i) = Some (Back i 0)"
| "resume_pc _ = None"

text \<open>
  A move of the machine: the process on hart \<open>h\<close> calls a function, the process on hart \<open>h\<close> executes its next
  statement, or the scheduler on hart \<open>h\<close> looks at process \<open>p\<close>.
\<close>

datatype call = Call_acquiresleep slid | Call_releasesleep slid | Call_kkill uint32 | Call_yield

primrec entry :: "call \<Rightarrow> wpc" where
  "entry (Call_acquiresleep sl) = Enter sl"
| "entry (Call_releasesleep sl) = Drop sl 0"
| "entry (Call_kkill k) = Kill k 0"
| "entry Call_yield = Yield 0"

datatype move = Call nat call | Go nat | Turn nat nat

definition run_on :: "nat \<Rightarrow> wsys \<Rightarrow> sl_state" where
  "run_on h x = (wst x)\<lparr>tp := h\<rparr>"

definition moved :: "nat \<Rightarrow> sl_state \<Rightarrow> wpc \<Rightarrow> wsys \<Rightarrow> wsys" where
  "moved p t c x = x\<lparr>wst := t, wpcs := (wpcs x)(p := c)\<rparr>"

fun wmove :: "move \<Rightarrow> wsys \<Rightarrow> wsys option" where
  "wmove (Call h c) x = (case cproc (cpus (wst x) h) of None \<Rightarrow> None
     | Some p \<Rightarrow> if wpcs x p = Out then Some (moved p (wst x) (entry c) x) else None)"
| "wmove (Go h) x = (case cproc (cpus (wst x) h) of None \<Rightarrow> None
     | Some p \<Rightarrow> (case stmt p (wpcs x p) (run_on h x) of
         Ret c t \<Rightarrow> Some (moved p t c x)
       | Halt e t \<Rightarrow> if e = Switch then map_option (\<lambda>c. moved p t c x) (switch_pc (intena (cpus (wst x) h)) (wpcs x p)) else None))"
| "wmove (Turn h p) x = (if cproc (cpus (wst x) h) \<noteq> None \<or> NPROC \<le> p then None
     else (case scheduler_turn p (run_on h x) of
         Ret _ t \<Rightarrow> Some (x\<lparr>wst := t\<rparr>)
       | Halt e t \<Rightarrow> if e = Switch then map_option (\<lambda>c. moved p t c x) (resume_pc (wpcs x p)) else None))"

definition w_init :: "wsys \<Rightarrow> bool" where
  "w_init x \<longleftrightarrow> (\<forall>lk. lock_free lk (wst x)) \<and> (\<forall>h. cproc (cpus (wst x) h) = None)
     \<and> (\<forall>p<NPROC. pstate (procs (wst x) p) \<noteq> SLEEPING) \<and> (\<forall>p. \<exists>i. wpcs x p = Parked i)"

inductive w_reach :: "wsys \<Rightarrow> bool" where
  w_start: "w_init x \<Longrightarrow> w_reach x"
| w_more: "w_reach x \<Longrightarrow> wmove m x = Some y \<Longrightarrow> w_reach y"

subsection \<open>What a statement does\<close>

definition same_data :: "sl_state \<Rightarrow> sl_state \<Rightarrow> bool" where
  "same_data s t \<longleftrightarrow> procs t = procs s \<and> slocks t = slocks s \<and> (\<forall>h. cproc (cpus t h) = cproc (cpus s h))"

lemma same_dataD:
  "same_data s t \<Longrightarrow> procs t = procs s" "same_data s t \<Longrightarrow> slocks t = slocks s"
  "same_data s t \<Longrightarrow> cproc (cpus t h) = cproc (cpus s h)"
  by (simp_all add: same_data_def)

lemma acquire_effect:
  assumes "acquire lk s = Ret u t"
  shows "\<not> locked (locks s lk)" "locked (locks t k) \<longleftrightarrow> k = lk \<or> locked (locks s k)" "same_data s t"
proof -
  show n: "\<not> locked (locks s lk)"
  proof
    assume l: "locked (locks s lk)"
    show False
      using assms acquire_busy [OF l] acquire_mine [of lk s] l by (cases "lkcpu (locks s lk) = Some (tp s)") (auto simp: lock_mine_def)
  qed
  then have "t = entered lk s" using assms acquire_unlocked [OF n] by simp
  then show "locked (locks t k) \<longleftrightarrow> k = lk \<or> locked (locks s k)" "same_data s t"
    by (simp_all add: same_data_def) (simp add: entered_def)
qed

lemma pop_off_effect: "pop_off s = Ret u t \<Longrightarrow> locks t = locks s \<and> same_data s t"
  by (auto simp: pop_off_def mycpu_def cpuid_def intr_get_def upd_cpu_def intr_on_def same_data_def split: if_splits)

lemma release_effect:
  assumes "release lk s = Ret u t"
  shows "locked (locks t k) \<longleftrightarrow> k \<noteq> lk \<and> locked (locks s k)" "same_data s t"
proof -
  obtain v where v: "pop_off v = Ret u t" "v = s\<lparr>locks := (locks s)(lk := (locks s lk)\<lparr>lkcpu := None, locked := False\<rparr>)\<rparr>"
    using assms by (auto simp: release_def release_check_def release_unlock_def holding_def mycpu_def cpuid_def upd_lock_def
        split: if_splits outcome.splits)
  then show "locked (locks t k) \<longleftrightarrow> k \<noteq> lk \<and> locked (locks s k)" "same_data s t"
    using pop_off_effect [OF v(1)] by (auto simp: same_data_def)
qed

lemma myproc_effect: "myproc s = Ret q t \<Longrightarrow> q = myp s \<and> locks t = locks s \<and> same_data s t"
  using pop_off_effect [of "pushed s"]
  by (auto simp: myproc_def push_off_eq mycpu_def cpuid_def split: outcome.splits) (auto simp: pushed_def same_data_def)

lemma curproc_effect: "curproc s = Ret q t \<Longrightarrow> myp s = Some q \<and> locks t = locks s \<and> same_data s t"
  using myproc_effect [of s] by (auto simp: curproc_def split: outcome.splits option.splits)

text \<open>No statement but the call of \<^verbatim>\<open>sched\<close> gives up the hart.\<close>

lemma acquire_stops: "acquire lk s \<noteq> Halt Switch t"
  by (simp add: acquire_def acquire_check_def push_off_eq holding_def mycpu_def cpuid_def test_and_set_def
      acquire_record_def upd_lock_def)

lemma pop_off_stops: "pop_off s \<noteq> Halt Switch t"
  by (simp add: pop_off_def mycpu_def cpuid_def intr_get_def upd_cpu_def intr_on_def)

lemma release_stops: "release lk s \<noteq> Halt Switch t"
  by (auto simp: release_def release_check_def release_unlock_def holding_def mycpu_def cpuid_def upd_lock_def pop_off_stops
      split: outcome.splits)

lemma myproc_stops: "myproc s \<noteq> Halt Switch t"
  using pop_off_stops by (auto simp: myproc_def push_off_eq mycpu_def cpuid_def split: outcome.splits)

lemma curproc_switch: "curproc s \<noteq> Halt Switch t"
  using myproc_stops by (auto simp: curproc_def split: outcome.splits option.splits)

lemma sched_effect: "sched s = Halt Switch t \<Longrightarrow> locks t = locks s \<and> same_data s t"
proof -
  assume "sched s = Halt Switch t"
  then obtain q where "curproc s = Ret q t"
    using curproc_switch by (auto simp: sched_def holding_def mycpu_def cpuid_def intr_get_def split: outcome.splits if_splits)
  then show ?thesis using curproc_effect by blast
qed

lemma scheduler_resume_effect:
  fixes s :: sl_state
  assumes "scheduler_resume p s = Ret u t"
  shows "locked (locks t k) \<longleftrightarrow> k \<noteq> Lk_proc p \<and> locked (locks s k)" "procs t = procs s" "slocks t = slocks s"
    "cproc (cpus t h) = (if h = tp s then None else cproc (cpus s h))"
proof -
  let ?s = "s\<lparr>cpus := (cpus s)(tp s := (cpus s (tp s))\<lparr>cproc := None\<rparr>)\<rparr>"
  have r: "release (Lk_proc p) ?s = Ret u t"
    using assms by (simp add: scheduler_resume_def mycpu_def cpuid_def upd_cpu_def split: outcome.splits)
  note e = release_effect [OF r]
  show "locked (locks t k) \<longleftrightarrow> k \<noteq> Lk_proc p \<and> locked (locks s k)" "procs t = procs s" "slocks t = slocks s"
    "cproc (cpus t h) = (if h = tp s then None else cproc (cpus s h))"
    using e(1) [of k] same_dataD [OF e(2)] by simp_all
qed

lemma scheduler_turn_ret:
  fixes s :: sl_state
  assumes "scheduler_turn p s = Ret u t"
  shows "locked (locks t k) = locked (locks s k)" "same_data s t"
proof -
  obtain v where v: "acquire (Lk_proc p) s = Ret () v" "release (Lk_proc p) v = Ret u t"
    using assms by (auto simp: scheduler_turn_def mycpu_def cpuid_def upd_proc_def upd_cpu_def split: outcome.splits if_splits)
  show "locked (locks t k) = locked (locks s k)" "same_data s t"
    using acquire_effect(1,3) [OF v(1)] acquire_effect(2) [OF v(1), of k] release_effect(1) [OF v(2), of k]
      release_effect(2) [OF v(2)] by (auto simp: same_data_def)
qed

lemma scheduler_turn_switch:
  fixes s :: sl_state
  assumes "scheduler_turn p s = Halt Switch t"
  shows "\<not> locked (locks s (Lk_proc p))" "locked (locks t k) \<longleftrightarrow> k = Lk_proc p \<or> locked (locks s k)"
    "pstate (procs s p) = RUNNABLE" "procs t = (procs s)(p := (procs s p)\<lparr>pstate := RUNNING\<rparr>)" "slocks t = slocks s"
    "cproc (cpus t h) = (if h = tp s then Some p else cproc (cpus s h))"
proof -
  obtain v where v: "acquire (Lk_proc p) s = Ret () v" "pstate (procs v p) = RUNNABLE"
      "t = v\<lparr>procs := (procs v)(p := (procs v p)\<lparr>pstate := RUNNING\<rparr>), cpus := (cpus v)(tp v := (cpus v (tp v))\<lparr>cproc := Some p\<rparr>)\<rparr>"
    using assms acquire_stops [of "Lk_proc p" s] release_stops [of "Lk_proc p"]
    by (auto simp: scheduler_turn_def mycpu_def cpuid_def upd_proc_def upd_cpu_def split: outcome.splits if_splits)
  note e = acquire_effect [OF v(1)] and d = same_dataD [OF acquire_effect(3) [OF v(1)]]
  have "v = entered (Lk_proc p) s" using v(1) acquire_unlocked [OF e(1)] by simp
  then have "tp v = tp s" by simp
  then show "\<not> locked (locks s (Lk_proc p))" "locked (locks t k) \<longleftrightarrow> k = Lk_proc p \<or> locked (locks s k)"
    "pstate (procs s p) = RUNNABLE" "procs t = (procs s)(p := (procs s p)\<lparr>pstate := RUNNING\<rparr>)" "slocks t = slocks s"
    "cproc (cpus t h) = (if h = tp s then Some p else cproc (cpus s h))"
    using e(1) e(2) [of k] d v by simp_all
qed

lemma kkill_one_effect:
  fixes s :: sl_state
  assumes "kkill_one k q s = Ret r t"
  shows "locked (locks t l) = locked (locks s l)" "slocks t = slocks s" "cproc (cpus t h) = cproc (cpus s h)"
    "p \<noteq> q \<Longrightarrow> procs t p = procs s p" "chan (procs t q) = chan (procs s q)" "\<not> locked (locks s (Lk_proc q))"
    "pstate (procs t q) = pstate (procs s q) \<or> pstate (procs s q) = SLEEPING \<and> pstate (procs t q) = RUNNABLE"
proof -
  obtain v w where v: "acquire (Lk_proc q) s = Ret () v" "release (Lk_proc q) w = Ret () t"
      "locks w = locks v" "slocks w = slocks v" "cpus w = cpus v" "\<And>p. p \<noteq> q \<Longrightarrow> procs w p = procs v p"
      "chan (procs w q) = chan (procs v q)"
      "pstate (procs w q) = pstate (procs v q) \<or> pstate (procs v q) = SLEEPING \<and> pstate (procs w q) = RUNNABLE"
    using assms by (auto simp: kkill_one_def with_lock_def upd_proc_def split: outcome.splits if_splits)
  note e = acquire_effect [OF v(1)] release_effect [OF v(2)]
  note d = same_dataD [OF e(3)] same_dataD [OF e(5)]
  show "locked (locks t l) = locked (locks s l)" using e(1,2,4) v(3) by auto
  show "slocks t = slocks s" "cproc (cpus t h) = cproc (cpus s h)" "p \<noteq> q \<Longrightarrow> procs t p = procs s p"
    "chan (procs t q) = chan (procs s q)" "\<not> locked (locks s (Lk_proc q))"
    "pstate (procs t q) = pstate (procs s q) \<or> pstate (procs s q) = SLEEPING \<and> pstate (procs t q) = RUNNABLE"
    using v(4-8) d e(1) by simp_all
qed

subsection \<open>The invariant\<close>

text \<open>The spinlocks a process holds at a position.\<close>

fun own :: "nat \<Rightarrow> wpc \<Rightarrow> lockid set" where
  "own p (Test sl) = {Lk_sleep sl}"
| "own p (Sleep sl n) = (if n = 0 then {Lk_sleep sl} else if n = 1 then {Lk_sleep sl, Lk_proc p} else {Lk_proc p})"
| "own p (Leaving sl i) = {Lk_proc p}"
| "own p (Resume sl i n) = (if n \<le> 2 then {Lk_proc p} else {})"
| "own p (Take sl n) = {Lk_sleep sl}"
| "own p (Drop sl n) = (if n = 0 then {} else {Lk_sleep sl})"
| "own p (Wake sl q n) = (if n \<le> 1 then {Lk_sleep sl} else {Lk_sleep sl, Lk_proc q})"
| "own p (Yield n) = (if n = 0 then {} else {Lk_proc p})"
| "own p (Yielded i) = {Lk_proc p}"
| "own p (Back i n) = {Lk_proc p}"
| "own p _ = {}"

definition locks_inv :: "(lockid \<Rightarrow> bool) \<Rightarrow> (nat \<Rightarrow> wpc) \<Rightarrow> bool" where
  "locks_inv L pc \<longleftrightarrow> (\<forall>p lk. lk \<in> own p (pc p) \<longrightarrow> L lk)
     \<and> (\<forall>p q lk. lk \<in> own p (pc p) \<and> lk \<in> own q (pc q) \<longrightarrow> p = q)"

lemma locks_invD:
  assumes "locks_inv L pc"
  shows "lk \<in> own p (pc p) \<Longrightarrow> L lk" "lk \<in> own p (pc p) \<Longrightarrow> lk \<in> own q (pc q) \<Longrightarrow> p = q"
  using assms unfolding locks_inv_def by blast+

lemma locks_invI:
  assumes "\<And>p lk. lk \<in> own p (pc p) \<Longrightarrow> L lk" "\<And>p q lk. lk \<in> own p (pc p) \<Longrightarrow> lk \<in> own q (pc q) \<Longrightarrow> p = q"
  shows "locks_inv L pc"
  using assms unfolding locks_inv_def by blast

lemma locks_inv_acquire:
  assumes "locks_inv L pc" "\<not> L lk" "own p c = insert lk (own p (pc p))" "\<And>k. M k \<longleftrightarrow> k = lk \<or> L k"
  shows "locks_inv M (pc(p := c))"
proof -
  note D = locks_invD [OF assms(1)]
  have n: "lk \<notin> own q (pc q)" for q using D(1) assms(2) by blast
  have o: "k \<in> own q ((pc(p := c)) q) \<longleftrightarrow> k \<in> own q (pc q) \<or> q = p \<and> k = lk" for k q using assms(3) by auto
  show ?thesis by (rule locks_invI; unfold o assms(4)) (use D n in blast)+
qed

lemma locks_inv_release:
  assumes "locks_inv L pc" "lk \<in> own p (pc p)" "own p c = own p (pc p) - {lk}" "\<And>k. M k \<longleftrightarrow> k \<noteq> lk \<and> L k"
  shows "locks_inv M (pc(p := c))"
proof -
  note D = locks_invD [OF assms(1)]
  have o: "k \<in> own q ((pc(p := c)) q) \<longleftrightarrow> k \<in> own q (pc q) \<and> k \<noteq> lk" for k q
    using assms(2,3) D(2) [of lk p q] by (cases "q = p") auto
  show ?thesis by (rule locks_invI; unfold o assms(4)) (use D in blast)+
qed

lemma locks_inv_keep:
  assumes "locks_inv L pc" "own p c = own p (pc p)" "\<And>k. M k = L k"
  shows "locks_inv M (pc(p := c))"
proof -
  have "k \<in> own q ((pc(p := c)) q) \<longleftrightarrow> k \<in> own q (pc q)" for k q using assms(2) by simp
  then show ?thesis using assms(1,3) by (simp add: locks_inv_def)
qed

text \<open>
  \<open>waits sl st c\<close>: the process has found the sleep lock \<open>sl\<close> taken and is going to sleep, or sleeps.
  \<open>ahead sl q c\<close>: the process has marked \<open>sl\<close> free, and its \<^verbatim>\<open>wakeup\<close> has not yet looked at process \<open>q\<close>.
\<close>

fun waits :: "slid \<Rightarrow> procstate \<Rightarrow> wpc \<Rightarrow> bool" where
  "waits sl st (Sleep sl' n) = (sl' = sl \<and> (n < 4 \<or> st = SLEEPING))"
| "waits sl st (Leaving sl' i) = (sl' = sl \<and> st = SLEEPING)"
| "waits sl st (Off sl' i) = (sl' = sl \<and> st = SLEEPING)"
| "waits sl st _ = False"

fun ahead :: "slid \<Rightarrow> nat \<Rightarrow> wpc \<Rightarrow> bool" where
  "ahead sl q (Drop sl' n) = (sl' = sl \<and> n = 2)"
| "ahead sl q (Wake sl' r n) = (sl' = sl \<and> (r < q \<or> r = q \<and> n \<le> 2))"
| "ahead sl q _ = False"

text \<open>What the state and the wait channel of a process are at a position.\<close>

fun pc_ok :: "proc \<Rightarrow> wpc \<Rightarrow> bool" where
  "pc_ok x (Sleep sl n) = (n \<le> 4 \<and> (pstate x = SLEEPING \<longleftrightarrow> n = 4) \<and> (3 \<le> n \<longrightarrow> chan x = Some (Ch_sleeplock sl)))"
| "pc_ok x (Leaving sl i) = (pstate x = SLEEPING \<and> chan x = Some (Ch_sleeplock sl))"
| "pc_ok x (Off sl i) = (pstate x \<in> {SLEEPING, RUNNABLE} \<and> chan x = Some (Ch_sleeplock sl))"
| "pc_ok x (Wake sl q n) = (pstate x \<noteq> SLEEPING \<and> (NPROC \<le> q \<longrightarrow> n = 0))"
| "pc_ok x _ = (pstate x \<noteq> SLEEPING)"

definition data_inv :: "(nat \<Rightarrow> proc) \<Rightarrow> (slid \<Rightarrow> bool) \<Rightarrow> (nat \<Rightarrow> wpc) \<Rightarrow> bool" where
  "data_inv ps S pc \<longleftrightarrow> (\<forall>p<NPROC. pc_ok (ps p) (pc p)) \<and> (\<forall>p\<ge>NPROC. \<exists>i. pc p = Parked i)
     \<and> (\<forall>q sl. waits sl (pstate (ps q)) (pc q) \<longrightarrow> S sl \<or> (\<exists>r. ahead sl q (pc r)))"

definition w_inv :: "wsys \<Rightarrow> bool" where
  "w_inv x \<longleftrightarrow> locks_inv (\<lambda>k. locked (locks (wst x) k)) (wpcs x)
     \<and> data_inv (procs (wst x)) (\<lambda>sl. slocked (slocks (wst x) sl)) (wpcs x)
     \<and> (\<forall>h p. cproc (cpus (wst x) h) = Some p \<longrightarrow> p < NPROC)"

lemma w_init_inv: "w_init x \<Longrightarrow> w_inv x"
proof -
  assume i: "w_init x"
  have "own p (wpcs x p) = {} \<and> (\<forall>st sl. \<not> waits sl st (wpcs x p)) \<and> (p < NPROC \<longrightarrow> pc_ok (procs (wst x) p) (wpcs x p))" for p
  proof -
    obtain j where "wpcs x p = Parked j" using i unfolding w_init_def by blast
    then show ?thesis using i by (simp add: w_init_def)
  qed
  then show ?thesis using i by (simp add: w_inv_def locks_inv_def data_inv_def w_init_def)
qed

text \<open>A position changes; the process table and the sleep locks stay or change only for the better.\<close>

lemma data_inv_pc:
  assumes inv: "data_inv ps S pc" and p: "p < NPROC"
    and ok: "pc_ok (ps p) (pc p) \<Longrightarrow> pc_ok x c" and ps': "ps' = ps(p := x)"
    and w: "\<And>sl. waits sl (pstate x) c \<Longrightarrow> waits sl (pstate (ps p)) (pc p) \<or> S' sl"
    and a: "\<And>sl q. ahead sl q (pc p) \<Longrightarrow> ahead sl q c \<or> \<not> waits sl (pstate (ps q)) (pc q) \<or> q = p"
    and S: "\<And>sl. S sl \<Longrightarrow> S' sl"
  shows "data_inv ps' S' (pc(p := c))"
proof -
  have "S' sl \<or> (\<exists>r. ahead sl q ((pc(p := c)) r))" if q: "waits sl (pstate (ps' q)) ((pc(p := c)) q)" for q sl
  proof (cases "S' sl")
    case False
    then have w: "waits sl (pstate (ps q)) (pc q)" using q w ps' by (cases "q = p") auto
    then obtain r where r: "ahead sl q (pc r)" using inv S False unfolding data_inv_def by blast
    show ?thesis
    proof (cases "r = p")
      case True
      have "q \<noteq> p" using r w True by (cases "pc p") auto
      then show ?thesis using a [of sl q] r True w by auto
    next
      case False
      then show ?thesis using r by (intro disjI2 exI [of _ r]) simp
    qed
  qed simp
  moreover have "pc_ok (ps' q) ((pc(p := c)) q)" if "q < NPROC" for q
    using inv ok that p ps' by (cases "q = p") (auto simp: data_inv_def)
  moreover have "\<exists>i. (pc(p := c)) q = Parked i" if "NPROC \<le> q" for q
    using inv that p by (auto simp: data_inv_def)
  ultimately show ?thesis unfolding data_inv_def by blast
qed

text \<open>Some process is woken that is on no hart.\<close>

lemma data_inv_woken:
  assumes inv: "data_inv ps S pc" and ps': "ps' = ps(q := x)" and x: "chan x = chan (ps q)"
    "pstate x = pstate (ps q) \<or> pstate (ps q) = SLEEPING \<and> pstate x = RUNNABLE \<and> (\<exists>sl i. pc q = Off sl i)"
  shows "data_inv ps' S pc"
proof -
  have "pc_ok (ps' p) (pc p)" if "p < NPROC" for p
  proof -
    have "pc_ok (ps p) (pc p)" using inv that by (simp add: data_inv_def)
    then show ?thesis using x ps' by (cases "pc p") (auto split: if_splits)
  qed
  moreover have "waits sl (pstate (ps p)) (pc p)" if "waits sl (pstate (ps' p)) (pc p)" for p sl
    using that x ps' by (cases "pc p") (auto split: if_splits)
  ultimately show ?thesis using inv unfolding data_inv_def by blast
qed

lemma sleeper_off:
  assumes "pc_ok x c" "pstate x = SLEEPING" "Lk_proc q \<notin> own q c"
  shows "\<exists>sl i. c = Off sl i \<and> chan x = Some (Ch_sleeplock sl)"
  using assms by (cases c) auto

lemma data_inv_drop:
  assumes inv: "data_inv ps S pc" and p: "p < NPROC" "pc p = Drop sl 1" and S': "\<And>k. S' k \<longleftrightarrow> k \<noteq> sl \<and> S k"
  shows "data_inv ps S' (pc(p := Drop sl 2))"
proof -
  have "S' k \<or> (\<exists>r. ahead k q ((pc(p := Drop sl 2)) r))" if q: "waits k (pstate (ps q)) ((pc(p := Drop sl 2)) q)" for q k
  proof (cases "k = sl")
    case True
    then show ?thesis by (intro disjI2 exI [of _ p]) simp
  next
    case False
    have "waits k (pstate (ps q)) (pc q)" using q by (auto split: if_splits)
    then have "S k \<or> (\<exists>r. ahead k q (pc r))" using inv unfolding data_inv_def by blast
    then show ?thesis
    proof
      assume "\<exists>r. ahead k q (pc r)"
      then obtain r where r: "ahead k q (pc r)" by blast
      then have "r \<noteq> p" using p(2) by auto
      then show ?thesis using r by (intro disjI2 exI [of _ r]) simp
    qed (use S' False in simp)
  qed
  moreover have "pc_ok (ps q) ((pc(p := Drop sl 2)) q)" if "q < NPROC" for q
  proof -
    have "pc_ok (ps q) (pc q)" using inv that by (simp add: data_inv_def)
    then show ?thesis using p(2) by auto
  qed
  moreover have "\<exists>i. (pc(p := Drop sl 2)) q = Parked i" if "NPROC \<le> q" for q
    using inv that p(1) by (auto simp: data_inv_def)
  ultimately show ?thesis unfolding data_inv_def by blast
qed

text \<open>A change of position that needs no more than \<open>data_inv_pc\<close>.\<close>

definition steps_ok :: "nat \<Rightarrow> wpc \<Rightarrow> proc \<Rightarrow> (slid \<Rightarrow> bool) \<Rightarrow> wsys \<Rightarrow> bool" where
  "steps_ok p c y S x \<longleftrightarrow> (pc_ok (procs (wst x) p) (wpcs x p) \<longrightarrow> pc_ok y c)
     \<and> (\<forall>sl. waits sl (pstate y) c \<longrightarrow> waits sl (pstate (procs (wst x) p)) (wpcs x p) \<or> S sl)
     \<and> (\<forall>sl q. ahead sl q (wpcs x p) \<longrightarrow> ahead sl q c \<or> \<not> waits sl (pstate (procs (wst x) q)) (wpcs x q) \<or> q = p)
     \<and> (\<forall>sl. slocked (slocks (wst x) sl) \<longrightarrow> S sl)"

lemma w_invD:
  assumes "w_inv x"
  shows "locks_inv (\<lambda>k. locked (locks (wst x) k)) (wpcs x)" "data_inv (procs (wst x)) (\<lambda>sl. slocked (slocks (wst x) sl)) (wpcs x)"
    "cproc (cpus (wst x) h) = Some p \<Longrightarrow> p < NPROC" "p < NPROC \<Longrightarrow> pc_ok (procs (wst x) p) (wpcs x p)"
  using assms by (auto simp: w_inv_def data_inv_def)

lemma w_inv_moved:
  assumes inv: "w_inv x" and p: "p < NPROC" and l: "locks_inv (\<lambda>k. locked (locks t k)) ((wpcs x)(p := c))"
    and ps: "procs t = (procs (wst x))(p := y)" and c: "\<And>h. cproc (cpus t h) \<in> {None, Some p, cproc (cpus (wst x) h)}"
    and ok: "steps_ok p c y (\<lambda>sl. slocked (slocks t sl)) x"
  shows "w_inv (moved p t c x)"
proof -
  have "data_inv (procs t) (\<lambda>sl. slocked (slocks t sl)) ((wpcs x)(p := c))"
    using ok by (intro data_inv_pc [OF w_invD(2) [OF inv] p _ ps]) (auto simp: steps_ok_def)
  moreover have "q < NPROC" if "cproc (cpus t h) = Some q" for q h
    using c [of h] that p w_invD(3) [OF inv] by auto
  ultimately show ?thesis using l by (simp add: w_inv_def moved_def)
qed

lemma run_on_simps [simp]:
  "locks (run_on h x) = locks (wst x)" "procs (run_on h x) = procs (wst x)" "slocks (run_on h x) = slocks (wst x)"
  "cpus (run_on h x) = cpus (wst x)" "tp (run_on h x) = h"
  by (simp_all add: run_on_def)

lemma w_inv_acquire:
  assumes inv: "w_inv x" and p: "p < NPROC" and a: "acquire lk (run_on h x) = Ret u t"
    and o: "own p c = insert lk (own p (wpcs x p))" and ok: "steps_ok p c (procs (wst x) p) (\<lambda>sl. slocked (slocks (wst x) sl)) x"
  shows "w_inv (moved p t c x)"
proof -
  note e = acquire_effect [OF a] and d = same_dataD [OF acquire_effect(3) [OF a]]
  show ?thesis
  proof (rule w_inv_moved [OF inv p])
    show "locks_inv (\<lambda>k. locked (locks t k)) ((wpcs x)(p := c))"
      using e(1,2) by (intro locks_inv_acquire [OF w_invD(1) [OF inv] _ o]) simp_all
  qed (use d ok in simp_all)
qed

lemma w_inv_release:
  assumes inv: "w_inv x" and p: "p < NPROC" and r: "release lk (run_on h x) = Ret u t" and lk: "lk \<in> own p (wpcs x p)"
    and o: "own p c = own p (wpcs x p) - {lk}" and ok: "steps_ok p c (procs (wst x) p) (\<lambda>sl. slocked (slocks (wst x) sl)) x"
  shows "w_inv (moved p t c x)"
proof -
  note e = release_effect [OF r] and d = same_dataD [OF release_effect(2) [OF r]]
  show ?thesis
  proof (rule w_inv_moved [OF inv p])
    show "locks_inv (\<lambda>k. locked (locks t k)) ((wpcs x)(p := c))"
      using e(1) by (intro locks_inv_release [OF w_invD(1) [OF inv] lk o]) simp_all
  qed (use d ok in simp_all)
qed

lemma w_inv_data:
  assumes inv: "w_inv x" and p: "p < NPROC" and l: "locks t = locks (wst x)" and o: "own p c = own p (wpcs x p)"
    and ps: "procs t = (procs (wst x))(p := y)" and c: "\<And>h. cproc (cpus t h) = cproc (cpus (wst x) h)"
    and ok: "steps_ok p c y (\<lambda>sl. slocked (slocks t sl)) x"
  shows "w_inv (moved p t c x)"
proof (rule w_inv_moved [OF inv p _ ps _ ok])
  show "locks_inv (\<lambda>k. locked (locks t k)) ((wpcs x)(p := c))"
    using l by (intro locks_inv_keep [OF w_invD(1) [OF inv] o]) simp
qed (use c in simp)

subsection \<open>Every statement keeps it\<close>

lemma sched_no_ret [simp]: "sched s \<noteq> Ret c t"
  by (simp add: sched_def split: outcome.splits)

lemma stmt_at_ret:
  assumes "stmt_at code n nxt fin s = Ret c t"
  shows "n < length code" "(code ! n) s = Ret () t" "c = (if Suc n < length code then nxt (Suc n) else fin)"
  using assms by (auto simp: stmt_at_def split: if_splits outcome.splits)

lemma less_4: "n < 4 \<longleftrightarrow> n = 0 \<or> n = 1 \<or> n = 2 \<or> n = (3::nat)"
  by auto

lemma less_3: "n < 3 \<longleftrightarrow> n = 0 \<or> n = 1 \<or> n = (2::nat)"
  by auto

lemma step_sleep:
  assumes inv: "w_inv x" and p: "p < NPROC" and pc: "wpcs x p = Sleep sl n" and st: "stmt p (wpcs x p) (run_on h x) = Ret c t"
  shows "w_inv (moved p t c x)"
proof -
  let ?code = "sleep_code p (Ch_sleeplock sl) (Lk_sleep sl) :: (sl_state, unit) km list"
  have at: "stmt_at ?code n (Sleep sl) (Sleep sl (Suc n)) (run_on h x) = Ret c t"
    using st pc by (auto split: if_splits)
  have n: "n < 4" and run: "(?code ! n) (run_on h x) = Ret () t" and c: "c = Sleep sl (Suc n)"
    using stmt_at_ret [OF at] by (auto simp: sleep_code_def split: if_splits)
  have ok: "pc_ok (procs (wst x) p) (Sleep sl n)" using w_invD(4) [OF inv p] pc by simp
  consider "n = 0" | "n = 1" | "n = 2" | "n = 3" using n by (auto simp: less_4)
  then show ?thesis
  proof cases
    case 1
    then show ?thesis using run c pc ok
      by (intro w_inv_acquire [OF inv p, of "Lk_proc p" h "()"]) (auto simp: sleep_code_def steps_ok_def)
  next
    case 2
    then show ?thesis using run c pc ok
      by (intro w_inv_release [OF inv p, of "Lk_sleep sl" h "()"]) (auto simp: sleep_code_def steps_ok_def)
  next
    case 3
    then show ?thesis using run c pc ok
      by (intro w_inv_data [OF inv p]) (auto simp: sleep_code_def upd_proc_def steps_ok_def)
  next
    case 4
    then show ?thesis using run c pc ok
      by (intro w_inv_data [OF inv p]) (auto simp: sleep_code_def upd_proc_def steps_ok_def)
  qed
qed

lemma step_resume:
  assumes inv: "w_inv x" and p: "p < NPROC" and pc: "wpcs x p = Resume sl i n" and st: "stmt p (wpcs x p) (run_on h x) = Ret c t"
  shows "w_inv (moved p t c x)"
proof -
  let ?code = "sleep_resume_code i p (Lk_sleep sl) :: (sl_state, unit) km list"
  have at: "stmt_at ?code n (Resume sl i) (Test sl) (run_on h x) = Ret c t" using st pc by simp
  have n: "n < 4" and run: "(?code ! n) (run_on h x) = Ret () t" and c: "c = (if n < 3 then Resume sl i (Suc n) else Test sl)"
    using stmt_at_ret [OF at] by (auto simp: sleep_resume_code_def)
  have ok: "pstate (procs (wst x) p) \<noteq> SLEEPING" using w_invD(4) [OF inv p] pc by simp
  consider "n = 0" | "n = 1" | "n = 2" | "n = 3" using n by (auto simp: less_4)
  then show ?thesis
  proof cases
    case 1
    then show ?thesis using run c pc ok
      by (intro w_inv_data [OF inv p]) (auto simp: sleep_resume_code_def sched_resume_def mycpu_def cpuid_def upd_cpu_def steps_ok_def)
  next
    case 2
    then show ?thesis using run c pc ok
      by (intro w_inv_data [OF inv p]) (auto simp: sleep_resume_code_def upd_proc_def steps_ok_def)
  next
    case 3
    then show ?thesis using run c pc ok
      by (intro w_inv_release [OF inv p, of "Lk_proc p" h "()"]) (auto simp: sleep_resume_code_def steps_ok_def)
  next
    case 4
    then show ?thesis using run c pc ok
      by (intro w_inv_acquire [OF inv p, of "Lk_sleep sl" h "()"]) (auto simp: sleep_resume_code_def steps_ok_def)
  qed
qed

lemma step_take:
  assumes inv: "w_inv x" and p: "p < NPROC" and pc: "wpcs x p = Take sl n" and st: "stmt p (wpcs x p) (run_on h x) = Ret c t"
  shows "w_inv (moved p t c x)"
proof -
  let ?code = "acquiresleep_code sl :: (sl_state, unit) km list"
  have at: "stmt_at ?code n (Take sl) Out (run_on h x) = Ret c t" using st pc by simp
  have n: "n < 3" and run: "(?code ! n) (run_on h x) = Ret () t" and c: "c = (if n < 2 then Take sl (Suc n) else Out)"
    using stmt_at_ret [OF at] by (auto simp: acquiresleep_code_def)
  have ok: "pstate (procs (wst x) p) \<noteq> SLEEPING" using w_invD(4) [OF inv p] pc by simp
  consider "n = 0" | "n = 1" | "n = 2" using n by (auto simp: less_3)
  then show ?thesis
  proof cases
    case 1
    then show ?thesis using run c pc ok
      by (intro w_inv_data [OF inv p]) (auto simp: acquiresleep_code_def upd_sl_def steps_ok_def)
  next
    case 2
    then obtain q u where u: "curproc (run_on h x) = Ret q u" "t = u\<lparr>slocks := (slocks u)(sl := (slocks u sl)\<lparr>slpid := pid (procs u q)\<rparr>)\<rparr>"
      using run by (auto simp: acquiresleep_code_def upd_sl_def split: outcome.splits)
    have "locks u = locks (wst x)" "same_data (run_on h x) u" using curproc_effect [OF u(1)] by simp_all
    then show ?thesis using u(2) c pc ok 2
      by (intro w_inv_data [OF inv p]) (auto simp: steps_ok_def same_data_def)
  next
    case 3
    then show ?thesis using run c pc ok
      by (intro w_inv_release [OF inv p, of "Lk_sleep sl" h "()"]) (auto simp: acquiresleep_code_def steps_ok_def)
  qed
qed

lemma step_drop:
  assumes inv: "w_inv x" and p: "p < NPROC" and pc: "wpcs x p = Drop sl n" and st: "stmt p (wpcs x p) (run_on h x) = Ret c t"
  shows "w_inv (moved p t c x)"
proof -
  let ?code = "releasesleep_code sl :: (sl_state, unit) km list"
  have at: "stmt_at ?code n (Drop sl) (Wake sl 0 0) (run_on h x) = Ret c t" using st pc by simp
  have n: "n < 3" and run: "(?code ! n) (run_on h x) = Ret () t" and c: "c = (if n < 2 then Drop sl (Suc n) else Wake sl 0 0)"
    using stmt_at_ret [OF at] by (auto simp: releasesleep_code_def)
  have ok: "pstate (procs (wst x) p) \<noteq> SLEEPING" using w_invD(4) [OF inv p] pc by simp
  consider "n = 0" | "n = 1" | "n = 2" using n by (auto simp: less_3)
  then show ?thesis
  proof cases
    case 1
    then show ?thesis using run c pc ok
      by (intro w_inv_acquire [OF inv p, of "Lk_sleep sl" h "()"]) (auto simp: releasesleep_code_def steps_ok_def)
  next
    case 2
    then have t: "t = (run_on h x)\<lparr>slocks := (slocks (wst x))(sl := (slocks (wst x) sl)\<lparr>slocked := False\<rparr>)\<rparr>" "c = Drop sl 2"
      using run c by (auto simp: releasesleep_code_def upd_sl_def)
    have "data_inv (procs t) (\<lambda>k. slocked (slocks t k)) ((wpcs x)(p := Drop sl 2))"
      using data_inv_drop [OF w_invD(2) [OF inv] p] pc 2 t(1) by simp
    moreover have "locks_inv (\<lambda>k. locked (locks t k)) ((wpcs x)(p := Drop sl 2))"
      using t(1) pc 2 by (intro locks_inv_keep [OF w_invD(1) [OF inv]]) simp_all
    ultimately show ?thesis using w_invD(3) [OF inv] t by (simp add: w_inv_def moved_def)
  next
    case 3
    then show ?thesis using run c pc ok
      by (intro w_inv_data [OF inv p]) (auto simp: releasesleep_code_def upd_sl_def steps_ok_def)
  qed
qed

lemma wake_one:
  assumes inv: "w_inv x" and p: "p < NPROC" and pc: "wpcs x p = Wake sl q 2" and q: "q < NPROC"
    and run: "(wakeup_code (Some (Ch_sleeplock sl)) q ! 1) (run_on h x) = Ret () t"
  shows "w_inv (moved p t (Wake sl q 3) x)"
proof -
  let ?ps = "procs (wst x)"
  note L = locks_invD(2) [OF w_invD(1) [OF inv], of _ p q]
  have ne: "q \<noteq> p \<Longrightarrow> Lk_proc q \<notin> own q (wpcs x q) \<and> Lk_sleep sl \<notin> own q (wpcs x q)"
    using L [of "Lk_proc q"] L [of "Lk_sleep sl"] pc by auto
  have ok: "pstate (?ps p) \<noteq> SLEEPING" "pc_ok (?ps q) (wpcs x q)" using w_invD(4) [OF inv p] w_invD(4) [OF inv q] pc by simp_all
  have off: "\<exists>i. wpcs x q = Off sl i" if "waits sl (pstate (?ps q)) (wpcs x q)" "q \<noteq> p"
    using that ne ok(2) by (cases "wpcs x q") (auto split: if_splits)
  define y where "y = woken (Some (Ch_sleeplock sl)) (?ps q)"
  have t: "locks t = locks (wst x)" "slocks t = slocks (wst x)" "cpus t = cpus (wst x)" "procs t = ?ps(q := y)"
    using run by (auto simp: wakeup_code_def upd_proc_def y_def woken_def split: if_splits)
  have y: "chan y = chan (?ps q)"
      "pstate y = pstate (?ps q) \<or> pstate (?ps q) = SLEEPING \<and> pstate y = RUNNABLE \<and> (\<exists>sl i. wpcs x q = Off sl i)"
    using ne ok sleeper_off [OF ok(2)] by (cases "q = p"; fastforce simp: y_def woken_def)+
  have d: "data_inv (procs t) (\<lambda>sl. slocked (slocks t sl)) (wpcs x)"
    unfolding t(2) by (rule data_inv_woken [OF w_invD(2) [OF inv] t(4) y])
  have nw: "\<not> waits sl (pstate (procs t q)) (wpcs x q)" if qp: "q \<noteq> p"
  proof
    assume w: "waits sl (pstate (procs t q)) (wpcs x q)"
    then have "waits sl (pstate (?ps q)) (wpcs x q)" using y(2) t(4) by (cases "wpcs x q") auto
    then obtain i where "wpcs x q = Off sl i" using off qp by blast
    then show False using w ok(2) t(4) by (auto simp: y_def woken_def split: if_splits)
  qed
  have "data_inv (procs t) (\<lambda>sl. slocked (slocks t sl)) ((wpcs x)(p := Wake sl q 3))"
    using pc nw ok(1) q by (intro data_inv_pc [OF d p]) (auto simp: fun_eq_iff le_less)
  moreover have "locks_inv (\<lambda>k. locked (locks t k)) ((wpcs x)(p := Wake sl q 3))"
    using t(1) pc by (intro locks_inv_keep [OF w_invD(1) [OF inv]]) simp_all
  ultimately show ?thesis using w_invD(3) [OF inv] t by (simp add: w_inv_def moved_def)
qed

lemma step_wake:
  assumes inv: "w_inv x" and p: "p < NPROC" and pc: "wpcs x p = Wake sl q n" and st: "stmt p (wpcs x p) (run_on h x) = Ret c t"
    and me: "cproc (cpus (wst x) h) = Some p"
  shows "w_inv (moved p t c x)"
proof (cases "NPROC \<le> q")
  case True
  have ok: "pstate (procs (wst x) p) \<noteq> SLEEPING" "n = 0" using w_invD(4) [OF inv p] pc True by simp_all
  have r: "release (Lk_sleep sl) (run_on h x) = Ret () t" "c = Out" using st pc True by (auto split: outcome.splits)
  have "\<not> waits k (pstate (procs (wst x) r)) (wpcs x r)" if "q \<le> r" for r k
    using w_invD(2) [OF inv] that True unfolding data_inv_def by (metis order_trans waits.simps(14))
  then show ?thesis using r pc ok
    by (intro w_inv_release [OF inv p r(1)]) (auto simp: steps_ok_def)
next
  case q: False
  let ?code = "wakeup_code (Some (Ch_sleeplock sl)) q :: (sl_state, unit) km list"
  have ok: "pstate (procs (wst x) p) \<noteq> SLEEPING" using w_invD(4) [OF inv p] pc by simp
  show ?thesis
  proof (cases n)
    case 0
    obtain me where u: "myproc (run_on h x) = Ret me t" "c = (if Some q = me then Wake sl (Suc q) 0 else Wake sl q 1)"
      using st pc q 0 by (auto split: outcome.splits)
    have e: "me = Some p" "locks t = locks (wst x)" "same_data (run_on h x) t"
      using myproc_effect [OF u(1)] me by simp_all
    then show ?thesis using u(2) pc ok 0 q
      by (intro w_inv_data [OF inv p]) (auto simp: steps_ok_def same_data_def)
  next
    case (Suc k)
    have at: "stmt_at ?code k (\<lambda>k. Wake sl q (Suc k)) (Wake sl (Suc q) 0) (run_on h x) = Ret c t" using st pc q Suc by simp
    have n: "k < 3" and run: "(?code ! k) (run_on h x) = Ret () t"
        and c: "c = (if k < 2 then Wake sl q (Suc (Suc k)) else Wake sl (Suc q) 0)"
      using stmt_at_ret [OF at] by (auto simp: wakeup_code_def)
    consider "k = 0" | "k = 1" | "k = 2" using n by (auto simp: less_3)
    then show ?thesis
    proof cases
      case 1
      then show ?thesis using run c pc ok q Suc
        by (intro w_inv_acquire [OF inv p, of "Lk_proc q" h "()"]) (auto simp: wakeup_code_def steps_ok_def)
    next
      case 2
      then show ?thesis using wake_one [OF inv p, of sl q h t] run c pc q Suc by (simp add: numeral_eq_Suc)
    next
      case 3
      then show ?thesis using run c pc ok q Suc
        by (intro w_inv_release [OF inv p, of "Lk_proc q" h "()"]) (auto simp: wakeup_code_def steps_ok_def)
    qed
  qed
qed

lemma step_kill:
  assumes inv: "w_inv x" and p: "p < NPROC" and pc: "wpcs x p = Kill k q" and st: "stmt p (wpcs x p) (run_on h x) = Ret c t"
  shows "w_inv (moved p t c x)"
proof -
  have ok: "pstate (procs (wst x) p) \<noteq> SLEEPING" using w_invD(4) [OF inv p] pc by simp
  show ?thesis
  proof (cases "NPROC \<le> q")
    case True
    then show ?thesis using st pc ok by (intro w_inv_data [OF inv p]) (auto simp: steps_ok_def)
  next
    case False
    then have q: "q < NPROC" by simp
    obtain r where r: "kkill_one k q (run_on h x) = Ret r t" "c = (if r = None then Kill k (Suc q) else Out)"
      using st pc False by (auto split: outcome.splits)
    note e = kkill_one_effect [OF r(1)]
    have nl: "Lk_proc q \<notin> own q (wpcs x q)" using locks_invD(1) [OF w_invD(1) [OF inv]] e(6) by auto
    have ps: "procs t = (procs (wst x))(q := procs t q)" using e(4) by (auto simp: fun_eq_iff)
    have "data_inv (procs t) (\<lambda>sl. slocked (slocks t sl)) (wpcs x)"
      using data_inv_woken [OF w_invD(2) [OF inv] ps] e(2,5,7) sleeper_off [OF w_invD(4) [OF inv q] _ nl] by auto
    then have "data_inv (procs t) (\<lambda>sl. slocked (slocks t sl)) ((wpcs x)(p := c))"
      using pc r(2) by (intro data_inv_pc [OF _ p]) (auto simp: fun_eq_iff split: if_splits)
    moreover have "locks_inv (\<lambda>k. locked (locks t k)) ((wpcs x)(p := c))"
      using e(1) pc r(2) by (intro locks_inv_keep [OF w_invD(1) [OF inv]]) simp_all
    ultimately show ?thesis using w_invD(3) [OF inv] e(3) by (simp add: w_inv_def moved_def)
  qed
qed

lemma step_yield:
  assumes inv: "w_inv x" and p: "p < NPROC" and pc: "wpcs x p = Yield n" and st: "stmt p (wpcs x p) (run_on h x) = Ret c t"
  shows "w_inv (moved p t c x)"
proof -
  have at: "stmt_at (yield_code p) n Yield (Yield (Suc n)) (run_on h x) = Ret c t"
    using st pc by (auto split: if_splits)
  have n: "n = 0 \<or> n = 1" and run: "(yield_code p ! n) (run_on h x) = Ret () t" and c: "c = Yield (Suc n)"
    using stmt_at_ret [OF at] by (auto simp: yield_code_def split: if_splits)
  have ok: "pstate (procs (wst x) p) \<noteq> SLEEPING" using w_invD(4) [OF inv p] pc by simp
  from n show ?thesis
  proof
    assume "n = 0"
    then show ?thesis using run c pc ok
      by (intro w_inv_acquire [OF inv p, of "Lk_proc p" h "()"]) (auto simp: yield_code_def steps_ok_def)
  next
    assume "n = 1"
    then show ?thesis using run c pc ok
      by (intro w_inv_data [OF inv p]) (auto simp: yield_code_def upd_proc_def steps_ok_def)
  qed
qed

lemma step_back:
  assumes inv: "w_inv x" and p: "p < NPROC" and pc: "wpcs x p = Back i n" and st: "stmt p (wpcs x p) (run_on h x) = Ret c t"
  shows "w_inv (moved p t c x)"
proof -
  have at: "stmt_at (yield_resume_code i p) n (Back i) Out (run_on h x) = Ret c t" using st pc by simp
  have n: "n = 0 \<or> n = 1" and run: "(yield_resume_code i p ! n) (run_on h x) = Ret () t" and c: "c = (if n = 0 then Back i 1 else Out)"
    using stmt_at_ret [OF at] by (auto simp: yield_resume_code_def split: if_splits)
  have ok: "pstate (procs (wst x) p) \<noteq> SLEEPING" using w_invD(4) [OF inv p] pc by simp
  from n show ?thesis
  proof
    assume "n = 0"
    then show ?thesis using run c pc ok
      by (intro w_inv_data [OF inv p]) (auto simp: yield_resume_code_def sched_resume_def mycpu_def cpuid_def upd_cpu_def steps_ok_def)
  next
    assume "n = 1"
    then show ?thesis using run c pc ok
      by (intro w_inv_release [OF inv p, of "Lk_proc p" h "()"]) (auto simp: yield_resume_code_def steps_ok_def)
  qed
qed

text \<open>The hart is back in its scheduler, which lets go of the process.\<close>

lemma step_let_go:
  assumes inv: "w_inv x" and p: "p < NPROC" and r: "scheduler_resume p (run_on h x) = Ret u t"
    and pc: "own p (wpcs x p) = {Lk_proc p}" "own p c = {}"
    and ok: "steps_ok p c (procs (wst x) p) (\<lambda>sl. slocked (slocks (wst x) sl)) x"
  shows "w_inv (moved p t c x)"
proof -
  note e = scheduler_resume_effect [OF r]
  show ?thesis
  proof (rule w_inv_moved [OF inv p])
    show "locks_inv (\<lambda>k. locked (locks t k)) ((wpcs x)(p := c))"
      using e(1) pc by (intro locks_inv_release [OF w_invD(1) [OF inv], where lk = "Lk_proc p"]) simp_all
  qed (use e ok in simp_all)
qed

lemma step_test:
  assumes inv: "w_inv x" and p: "p < NPROC" and pc: "wpcs x p = Test sl" and st: "stmt p (wpcs x p) (run_on h x) = Ret c t"
  shows "w_inv (moved p t c x)"
proof -
  have ok: "pstate (procs (wst x) p) \<noteq> SLEEPING" using w_invD(4) [OF inv p] pc by simp
  have "t = run_on h x" "c = (if slocked (slocks (wst x) sl) then Sleep sl 0 else Take sl 0)" using st pc by auto
  then show ?thesis using pc ok by (intro w_inv_data [OF inv p]) (auto simp: steps_ok_def split: if_splits)
qed

lemma step_inv:
  assumes inv: "w_inv x" and me: "cproc (cpus (wst x) h) = Some p" and st: "stmt p (wpcs x p) (run_on h x) = Ret c t"
  shows "w_inv (moved p t c x)"
proof -
  note p = w_invD(3) [OF inv me] and ok = w_invD(4) [OF inv w_invD(3) [OF inv me]]
  show ?thesis
  proof (cases "wpcs x p")
    case (Enter sl)
    then have "acquire (Lk_sleep sl) (run_on h x) = Ret () t" "c = Test sl" using st by (auto split: outcome.splits)
    then show ?thesis using Enter ok by (intro w_inv_acquire [OF inv p]) (auto simp: steps_ok_def)
  next
    case (Leaving sl i)
    then have "scheduler_resume p (run_on h x) = Ret () t" "c = Off sl i" using st by (auto split: outcome.splits)
    then show ?thesis using Leaving ok by (intro step_let_go [OF inv p]) (auto simp: steps_ok_def)
  next
    case (Yielded i)
    then have "scheduler_resume p (run_on h x) = Ret () t" "c = Parked i" using st by (auto split: outcome.splits)
    then show ?thesis using Yielded ok by (intro step_let_go [OF inv p]) (auto simp: steps_ok_def)
  qed (use st inv me p in \<open>auto dest: step_sleep step_resume step_take step_drop step_wake step_kill step_yield step_back step_test\<close>)
qed

text \<open>Only the call of \<^verbatim>\<open>sched\<close> switches.\<close>

lemma stmt_at_stops:
  assumes "\<And>m s t. m \<in> set code \<Longrightarrow> m s \<noteq> Halt Switch t"
  shows "stmt_at code n nxt fin s \<noteq> Halt Switch t"
  using assms [of "code ! n" s t] by (auto simp: stmt_at_def split: outcome.splits)

lemma switch_cases:
  assumes st: "stmt p c s = Halt Switch t" and sw: "switch_pc i c = Some c'"
  shows "sched s = (Halt Switch t :: (sl_state, wpc) outcome)" "(\<exists>sl. c = Sleep sl 4 \<and> c' = Leaving sl i) \<or> c = Yield 2 \<and> c' = Yielded i"
proof -
  have s: "stmt_at (sleep_code p ch lk) n nxt fin s \<noteq> Halt Switch t" for ch lk n nxt fin
    by (rule stmt_at_stops) (auto simp: sleep_code_def acquire_stops release_stops upd_proc_def)
  have y: "stmt_at (yield_code p) n nxt fin s \<noteq> Halt Switch t" for n nxt fin
    by (rule stmt_at_stops) (auto simp: yield_code_def acquire_stops upd_proc_def)
  have l: "length (sleep_code p ch lk :: (sl_state, unit) km list) = 4" "length (yield_code p :: (sl_state, unit) km list) = 2" for ch lk
    by (simp_all add: sleep_code_def yield_code_def)
  show "sched s = (Halt Switch t :: (sl_state, wpc) outcome)" "(\<exists>sl. c = Sleep sl 4 \<and> c' = Leaving sl i) \<or> c = Yield 2 \<and> c' = Yielded i"
    using st sw s y l by (cases c; auto split: if_splits)+
qed

lemma switch_inv:
  assumes inv: "w_inv x" and me: "cproc (cpus (wst x) h) = Some p" and st: "stmt p (wpcs x p) (run_on h x) = Halt Switch t"
    and sw: "switch_pc i (wpcs x p) = Some c"
  shows "w_inv (moved p t c x)"
proof -
  note p = w_invD(3) [OF inv me] and ok = w_invD(4) [OF inv w_invD(3) [OF inv me]]
  have "locks t = locks (wst x)" "same_data (run_on h x) t" using sched_effect [OF switch_cases(1) [OF st sw]] by simp_all
  then show ?thesis using switch_cases(2) [OF st sw] ok
    by (intro w_inv_data [OF inv p]) (auto simp: steps_ok_def same_data_def)
qed

lemma turn_inv:
  assumes inv: "w_inv x" and p: "p < NPROC" and st: "scheduler_turn p (run_on h x) = Halt Switch t"
    and b: "resume_pc (wpcs x p) = Some c"
  shows "w_inv (moved p t c x)"
proof -
  note e = scheduler_turn_switch [OF st]
  have o: "own p c = insert (Lk_proc p) (own p (wpcs x p))" using b by (cases "wpcs x p") auto
  show ?thesis
  proof (rule w_inv_moved [OF inv p])
    show "locks_inv (\<lambda>k. locked (locks t k)) ((wpcs x)(p := c))"
      using e(1,2) by (intro locks_inv_acquire [OF w_invD(1) [OF inv] _ o]) simp_all
    show "steps_ok p c ((procs (wst x) p)\<lparr>pstate := RUNNING\<rparr>) (\<lambda>sl. slocked (slocks t sl)) x"
      using b e(5) by (cases "wpcs x p") (auto simp: steps_ok_def)
  qed (use e in simp_all)
qed

lemma w_inv_same:
  assumes "w_inv x" "\<And>k. locked (locks t k) = locked (locks (wst x) k)" "same_data (wst x) t"
  shows "w_inv (x\<lparr>wst := t\<rparr>)"
  using assms by (simp add: w_inv_def same_data_def)

lemma call_inv:
  assumes inv: "w_inv x" and me: "cproc (cpus (wst x) h) = Some p" and pc: "wpcs x p = Out"
  shows "w_inv (moved p (wst x) (entry c) x)"
proof -
  note p = w_invD(3) [OF inv me] and ok = w_invD(4) [OF inv w_invD(3) [OF inv me]]
  show ?thesis using pc ok by (intro w_inv_data [OF inv p]) (cases c; auto simp: steps_ok_def)+
qed

lemma wmove_inv:
  assumes inv: "w_inv x" and m: "wmove m x = Some y"
  shows "w_inv y"
proof (cases m)
  case (Call h c)
  then show ?thesis using m call_inv [OF inv] by (auto split: option.splits if_splits)
next
  case (Go h)
  then obtain p where p: "cproc (cpus (wst x) h) = Some p" using m by (auto split: option.splits)
  show ?thesis
    using m Go p step_inv [OF inv p] switch_inv [OF inv p] by (auto split: outcome.splits if_splits)
next
  case (Turn h p)
  have s: "same_data (wst x) t" if "same_data (run_on h x) t" for t using that by (simp add: same_data_def)
  then show ?thesis
    using m Turn turn_inv [OF inv] scheduler_turn_ret [of p "run_on h x"] w_inv_same [OF inv]
    by (auto split: outcome.splits if_splits)
qed

lemma w_reach_inv: "w_reach x \<Longrightarrow> w_inv x"
  by (induction rule: w_reach.induct) (auto intro: w_init_inv wmove_inv)

lemma sleeper_sound:
  assumes inv: "w_inv x" and p: "p < NPROC" "pstate (procs (wst x) p) = SLEEPING" "chan (procs (wst x) p) = Some (Ch_sleeplock sl)"
  shows "slocked (slocks (wst x) sl) \<or> (\<exists>r. ahead sl p (wpcs x r))"
proof -
  have "waits sl (pstate (procs (wst x) p)) (wpcs x p)"
    using w_invD(4) [OF inv p(1)] p(2,3) by (cases "wpcs x p") auto
  then show ?thesis using w_invD(2) [OF inv] unfolding data_inv_def by blast
qed

lemma turn_resumes:
  assumes "pstate (procs (wst x) p) = RUNNABLE" "\<not> locked (locks (wst x) (Lk_proc p))" "cproc (cpus (wst x) h) = None" "p < NPROC"
    "resume_pc (wpcs x p) = Some c"
  shows "\<exists>y. wmove (Turn h p) x = Some y \<and> wpcs y p = c \<and> cproc (cpus (wst y) h) = Some p"
proof -
  have "acquire (Lk_proc p) (run_on h x) = Ret () (entered (Lk_proc p) (run_on h x))"
    using assms(2) by (intro acquire_unlocked) simp
  then have "\<exists>t. scheduler_turn p (run_on h x) = Halt Switch t"
    using assms(1) by (simp add: scheduler_turn_def mycpu_def cpuid_def upd_proc_def upd_cpu_def)
  then obtain t where t: "scheduler_turn p (run_on h x) = Halt Switch t" by blast
  then show ?thesis
    using assms(3-5) scheduler_turn_switch(6) [OF t, of h] by (auto simp: moved_def)
qed

subsection \<open>Properties\<close>

primrec wruns :: "move list \<Rightarrow> wsys \<Rightarrow> wsys option" where
  "wruns [] x = Some x"
| "wruns (m # ms) x = (case wmove m x of None \<Rightarrow> None | Some y \<Rightarrow> wruns ms y)"

lemma wruns_reach: "wruns ms x = Some y \<Longrightarrow> w_reach x \<Longrightarrow> w_reach y"
  by (induction ms arbitrary: x) (auto split: option.splits intro: w_more)

text \<open>A machine whose sleep lock \<^verbatim>\<open>Sl_buf 0\<close> is taken; process 2 calls \<open>acquiresleep\<close> on hart 1 and goes to sleep.\<close>

definition w_ex :: wsys where
  "w_ex = \<lparr>wst = (slk sl_ex)\<lparr>locks := (\<lambda>_. \<lparr>locked = False, lkname = [], lkcpu = None\<rparr>), sie := (\<lambda>_. False),
     cpus := (\<lambda>_. \<lparr>cproc = None, noff = 0, intena = False\<rparr>), procs := (\<lambda>p. idle_proc\<lparr>pstate := RUNNABLE, pid := of_nat p\<rparr>),
     slocks := (\<lambda>_. \<lparr>slocked = True, slname = [], slpid = 1\<rparr>)\<rparr>, wpcs = (\<lambda>_. Parked False)\<rparr>"

definition w_moves :: "move list" where
  "w_moves = [Turn 1 2, Go 1, Go 1, Call 1 (Call_acquiresleep (Sl_buf 0)), Go 1, Go 1, Go 1, Go 1, Go 1, Go 1]"

lemma w_ex_init: "w_init w_ex"
  by (auto simp: w_init_def w_ex_def lock_free_def idle_proc_def)

lemma entered_at:
  "locks (entered lk s) = (locks s)(lk := (locks s lk)\<lparr>locked := True, lkcpu := Some (tp s)\<rparr>)"
  "sie (entered lk s) = (sie s)(tp s := False)" "intena (cpus (entered lk s) h) = (if h = tp s \<and> mynoff s = 0 then sie s h else intena (cpus s h))"
  by (auto simp: entered_def)

lemma left_at:
  "locks (left lk s) = (locks s)(lk := (locks s lk)\<lparr>lkcpu := None, locked := False\<rparr>)"
  "sie (left lk s) = (sie s)(tp s := (mynoff s = 1 \<and> intena (cpus s (tp s))))" "intena (cpus (left lk s) h) = intena (cpus s h)"
  by (auto simp: left_def)

lemmas w_eval = run_on_def moved_def stmt_at_def scheduler_turn_def mycpu_def cpuid_def upd_proc_def upd_cpu_def sched_resume_def
  sleep_code_def yield_resume_code_def acquire_unlocked release_mine lock_mine_def entered_at left_at w_moves_def NPROC_def

lemma w_ex_runs: "\<exists>y. wruns w_moves w_ex = Some y \<and> pstate (procs (wst y) 2) = SLEEPING
    \<and> chan (procs (wst y) 2) = Some (Ch_sleeplock (Sl_buf 0))"
  by (simp add: w_ex_def idle_proc_def w_eval)

text \<open>
  C33. No wakeup is lost, whatever the harts do between any two statements of \<^verbatim>\<open>acquiresleep\<close>, \<^verbatim>\<open>sleep\<close>,
  \<^verbatim>\<open>releasesleep\<close>, \<^verbatim>\<open>wakeup\<close>, \<^verbatim>\<open>kkill\<close>, \<^verbatim>\<open>yield\<close> and the scheduler: while a process sleeps on a sleep lock, the lock is taken or
  some process that has just freed it is still in \<^verbatim>\<open>wakeup\<close> and has yet to come to the sleeper. So when the lock is free and no such
  process is left, every process that waits for it is runnable, and the scheduler of any idle hart that finds its
  \<^verbatim>\<open>p->lock\<close> free puts it back into \<^verbatim>\<open>sleep\<close>, from where it tries again.
\<close>

theorem no_lost_wakeup:
  assumes "w_reach x" "p < NPROC"
  shows "(pstate (procs (wst x) p) = SLEEPING \<and> chan (procs (wst x) p) = Some (Ch_sleeplock sl)
      \<longrightarrow> slocked (slocks (wst x) sl) \<or> (\<exists>r. ahead sl p (wpcs x r)))
    \<and> (\<forall>i. wpcs x p = Off sl i \<and> \<not> slocked (slocks (wst x) sl) \<and> (\<forall>r. \<not> ahead sl p (wpcs x r))
      \<longrightarrow> pstate (procs (wst x) p) = RUNNABLE
        \<and> (\<forall>h. cproc (cpus (wst x) h) = None \<and> \<not> locked (locks (wst x) (Lk_proc p)) \<longrightarrow>
             (\<exists>y. wmove (Turn h p) x = Some y \<and> wpcs y p = Resume sl i 0 \<and> cproc (cpus (wst y) h) = Some p)))"
proof -
  have inv: "w_inv x" using assms(1) by (rule w_reach_inv)
  note s = sleeper_sound [OF inv assms(2)]
  have "pstate (procs (wst x) p) = RUNNABLE"
    if "wpcs x p = Off sl i" "\<not> slocked (slocks (wst x) sl)" "\<forall>r. \<not> ahead sl p (wpcs x r)" for i
    using s [of sl] that w_invD(4) [OF inv assms(2)] by auto
  then show ?thesis using s assms(2) turn_resumes by force
qed

theorem no_lost_wakeup_witness:
  "\<exists>y. w_reach y \<and> pstate (procs (wst y) 2) = SLEEPING \<and> chan (procs (wst y) 2) = Some (Ch_sleeplock (Sl_buf 0))
    \<and> (slocked (slocks (wst y) (Sl_buf 0)) \<or> (\<exists>r. ahead (Sl_buf 0) 2 (wpcs y r)))"
proof -
  obtain y where y: "wruns w_moves w_ex = Some y" "pstate (procs (wst y) 2) = SLEEPING"
      "chan (procs (wst y) 2) = Some (Ch_sleeplock (Sl_buf 0))"
    using w_ex_runs by blast
  have "w_reach y" by (rule wruns_reach [OF y(1) w_start [OF w_ex_init]])
  moreover have "(2::nat) < NPROC" by (simp add: NPROC_def)
  ultimately show ?thesis using no_lost_wakeup [of y 2 "Sl_buf 0"] y by blast
qed

end
