(* ===== verification/Lifecycle.thy ===== *)
theory Lifecycle
  imports File
begin

section \<open>Creating, ending and collecting processes\<close>

text \<open>
  The rest of \<^verbatim>\<open>kernel/proc.c\<close>: \<^verbatim>\<open>userinit\<close>, \<^verbatim>\<open>kfork\<close>, \<^verbatim>\<open>reparent\<close>, \<^verbatim>\<open>kexit\<close> and \<^verbatim>\<open>kwait\<close>, and
  the access to a process's trap frame, a \<^verbatim>\<open>struct trapframe\<close> of 36 registers in the page
  \<open>ptrapframe\<close>. \<open>kwait_loop\<close> is the body of the endless loop of \<^verbatim>\<open>kwait\<close>: it returns or sleeps.
\<close>

definition TF_kernel_satp :: nat where "TF_kernel_satp = 0"
definition TF_kernel_sp :: nat where "TF_kernel_sp = 8"
definition TF_kernel_trap :: nat where "TF_kernel_trap = 16"
definition TF_epc :: nat where "TF_epc = 24"
definition TF_kernel_hartid :: nat where "TF_kernel_hartid = 32"
definition TF_sp :: nat where "TF_sp = 48"

definition TF_a :: "nat \<Rightarrow> nat" where "TF_a n = 112 + 8 * n"

definition sizeof_trapframe :: nat where "sizeof_trapframe = 288"

definition get_tf :: "nat \<Rightarrow> nat \<Rightarrow> ('z proc_state_scheme, uint64) km" where
  "get_tf p f = kget (\<lambda>s. load64 (mem s) (ptrapframe (procs s p) + of_nat f))"

definition set_tf :: "nat \<Rightarrow> nat \<Rightarrow> uint64 \<Rightarrow> ('z proc_state_scheme, unit) km" where
  "set_tf p f v =
     kbind (kget (\<lambda>s. ptrapframe (procs s p))) (\<lambda>tf. set_mem (\<lambda>m. store64 m (tf + of_nat f) v))"

definition copy_tf :: "nat \<Rightarrow> nat \<Rightarrow> ('z proc_state_scheme, unit) km" where
  "copy_tf to from =
     kbind (kget (\<lambda>s. (ptrapframe (procs s to), ptrapframe (procs s from)))) (\<lambda>(d, f).
     set_mem (\<lambda>m. mem_write m d (mem_read m f sizeof_trapframe)))"

definition copy_name :: "bytes \<Rightarrow> bytes \<Rightarrow> bytes" where
  "copy_name old new = map (safestrcpy (arr old) (arr new) 16) [0..<16]"

definition userinit :: "('z file_state_scheme, unit) km" where
  "userinit =
     kbind allocproc (\<lambda>r.
     kseq (kmod (\<lambda>s. s\<lparr>initproc := r\<rparr>)) (
     case r of None \<Rightarrow> khalt Fault | Some p \<Rightarrow>
     kbind (namei [SLASH]) (\<lambda>ip. kdo [
       upd_proc p (\<lambda>x. x\<lparr>cwd := ip\<rparr>),
       upd_proc p (\<lambda>x. x\<lparr>pstate := RUNNABLE\<rparr>),
       release (Lk_proc p)])))"

subsection \<open>Fork\<close>

definition kfork_files :: "nat \<Rightarrow> nat \<Rightarrow> ('z file_state_scheme, unit) km" where
  "kfork_files p np = kiter (\<lambda>i.
     kbind (kget (\<lambda>s. ofile (procs s p) i)) (\<lambda>f.
     case f of None \<Rightarrow> kskip | Some f \<Rightarrow>
     kbind (filedup f) (\<lambda>g. upd_proc np (\<lambda>x. x\<lparr>ofile := (ofile x)(i := Some g)\<rparr>)))) [0..<NOFILE]"

definition kfork :: "('z file_state_scheme, int) km" where
  "kfork =
     kbind curproc (\<lambda>p.
     kbind allocproc (\<lambda>r.
     case r of None \<Rightarrow> kret (-1) | Some np \<Rightarrow>
     kbind (kget (\<lambda>s. (procs s p, procs s np))) (\<lambda>(x, y).
     kbind (uvmcopy (ppagetable x) (ppagetable y) (psz x)) (\<lambda>c.
     if c < 0 then kseq (freeproc np) (kseq (release (Lk_proc np)) (kret (-1)))
     else
       kseq (upd_proc np (\<lambda>y. y\<lparr>psz := psz x\<rparr>)) (
       kseq (copy_tf np p) (
       kseq (set_tf np (TF_a 0) 0) (
       kseq (kfork_files p np) (
       kbind (case cwd x of None \<Rightarrow> khalt Fault | Some d \<Rightarrow> idup d) (\<lambda>d.
       kseq (upd_proc np (\<lambda>y. y\<lparr>cwd := Some d\<rparr>)) (
       kseq (upd_proc np (\<lambda>y. y\<lparr>pname := copy_name (pname y) (pname x)\<rparr>)) (
       kbind (kget (\<lambda>s. pid (procs s np))) (\<lambda>n.
       kseq (release (Lk_proc np)) (
       kseq (with_lock Lk_wait (upd_proc np (\<lambda>y. y\<lparr>parent := Some p\<rparr>))) (
       kseq (with_lock (Lk_proc np) (upd_proc np (\<lambda>y. y\<lparr>pstate := RUNNABLE\<rparr>)))
            (kret (sint n))))))))))))))))"

subsection \<open>Exit\<close>

definition reparent :: "nat \<Rightarrow> ('z proc_state_scheme, unit) km" where
  "reparent p = kiter (\<lambda>pp.
     kbind (kget (\<lambda>s. parent (procs s pp))) (\<lambda>par.
     kwhen (par = Some p) (
       kbind (kget initproc) (\<lambda>ini. kdo [
         upd_proc pp (\<lambda>x. x\<lparr>parent := ini\<rparr>),
         wakeup (map_option Ch_proc ini)])))) [0..<NPROC]"

definition kexit_files :: "nat \<Rightarrow> ('z file_state_scheme, unit) km" where
  "kexit_files p = kiter (\<lambda>fd.
     kbind (kget (\<lambda>s. ofile (procs s p) fd)) (\<lambda>f.
     case f of None \<Rightarrow> kskip | Some f \<Rightarrow> kdo [
       fileclose f,
       upd_proc p (\<lambda>x. x\<lparr>ofile := (ofile x)(fd := None)\<rparr>)])) [0..<NOFILE]"

text \<open>The end of \<^verbatim>\<open>kexit\<close>, from \<^verbatim>\<open>acquire(&wait_lock)\<close>.\<close>

definition kexit_zombie :: "nat \<Rightarrow> uint32 \<Rightarrow> ('z proc_state_scheme, unit) km" where
  "kexit_zombie p status = kdo [
     acquire Lk_wait,
     reparent p,
     kbind (kget (\<lambda>s. parent (procs s p))) (\<lambda>par. wakeup (map_option Ch_proc par)),
     acquire (Lk_proc p),
     upd_proc p (\<lambda>x. x\<lparr>xstate := status\<rparr>),
     upd_proc p (\<lambda>x. x\<lparr>pstate := ZOMBIE\<rparr>),
     release Lk_wait,
     sched,
     panic ''zombie exit'']"

definition kexit :: "uint32 \<Rightarrow> ('z file_state_scheme, unit) km" where
  "kexit status =
     kbind curproc (\<lambda>p.
     kbind (kget initproc) (\<lambda>ini. kdo [
       kwhen (Some p = ini) (panic ''init exiting''),
       kexit_files p,
       begin_op,
       kbind (kget (\<lambda>s. cwd (procs s p))) (\<lambda>d. case d of None \<Rightarrow> khalt Fault | Some ip \<Rightarrow> iput ip),
       end_op,
       upd_proc p (\<lambda>x. x\<lparr>cwd := None\<rparr>),
       kexit_zombie p status]))"

subsection \<open>Wait\<close>

text \<open>The scan of the table: a result to return, or whether there are children.\<close>

fun kwait_scan :: "nat \<Rightarrow> uint64 \<Rightarrow> bool \<Rightarrow> nat list \<Rightarrow> ('z vm_state_scheme, int + bool) km" where
  "kwait_scan p addr havekids [] = kret (Inr havekids)"
| "kwait_scan p addr havekids (pp # pps) =
     kbind (kget (\<lambda>s. parent (procs s pp))) (\<lambda>par.
     if par = Some p then
       kseq (acquire (Lk_proc pp)) (
       kbind (kget (\<lambda>s. procs s pp)) (\<lambda>x.
       if pstate x = ZOMBIE then
         kbind (if addr \<noteq> 0
                then kbind (kget (\<lambda>s. ppagetable (procs s p))) (\<lambda>pt.
                  copyout pt addr (le_bytes 4 (xstate x)))
                else kret 0) (\<lambda>c.
         if c < 0
         then kseq (release (Lk_proc pp)) (kseq (release Lk_wait) (kret (Inl (-1))))
         else kseq (freeproc pp) (
              kseq (release (Lk_proc pp)) (
              kseq (release Lk_wait) (kret (Inl (sint (pid x)))))))
       else kseq (release (Lk_proc pp)) (kwait_scan p addr True pps)))
     else kwait_scan p addr havekids pps)"

definition kwait_loop :: "nat \<Rightarrow> uint64 \<Rightarrow> ('z vm_state_scheme, int) km" where
  "kwait_loop p addr =
     kbind (kwait_scan p addr False [0..<NPROC]) (\<lambda>r.
     case r of
       Inl v \<Rightarrow> kret v
     | Inr havekids \<Rightarrow>
         kbind (if havekids then killed p else kret 1) (\<lambda>k.
         if k \<noteq> 0 then kseq (release Lk_wait) (kret (-1))
         else sleep (Ch_proc p) Lk_wait))"

definition kwait :: "uint64 \<Rightarrow> ('z vm_state_scheme, int) km" where
  "kwait addr = kbind curproc (\<lambda>p. kseq (acquire Lk_wait) (kwait_loop p addr))"

end
