(* ===== verification/Exec.thy ===== *)
theory Exec
  imports Lifecycle
begin

section \<open>Program loading\<close>

text \<open>
  \<^verbatim>\<open>kernel/exec.c\<close>. The local \<^verbatim>\<open>struct elfhdr\<close> and \<^verbatim>\<open>struct proghdr\<close> are the bytes read from the
  file. A jump to the label \<^verbatim>\<open>bad\<close> is an \<open>Inl\<close> that carries the size of the new address space at
  that point; \<open>kexec_bad\<close> is the code after the label. An argument string is in a kernel page
  (from \<^verbatim>\<open>sys_exec\<close>) or a literal of the kernel (from \<^verbatim>\<open>forkret\<close>).
\<close>

datatype karg = Karg_page uint64 | Karg_lit bytes

fun karg_chars :: "memory \<Rightarrow> karg \<Rightarrow> nat \<Rightarrow> uint8" where
  "karg_chars m (Karg_page a) = at_mem m a"
| "karg_chars m (Karg_lit bs) = arr bs"

definition ELF_MAGIC :: uint32 where "ELF_MAGIC = 0x464C457F"
definition ELF_PROG_LOAD :: uint32 where "ELF_PROG_LOAD = 1"

definition get64 :: "nat \<Rightarrow> bytes \<Rightarrow> uint64" where
  "get64 i bs = le_word (take 8 (drop i bs))"

definition elf_magic :: "bytes \<Rightarrow> uint32" where "elf_magic e = get32 0 e"
definition elf_entry :: "bytes \<Rightarrow> uint64" where "elf_entry e = get64 24 e"
definition elf_phoff :: "bytes \<Rightarrow> uint64" where "elf_phoff e = get64 32 e"
definition elf_phnum :: "bytes \<Rightarrow> nat" where "elf_phnum e = unat (get16 56 e)"

definition ph_type :: "bytes \<Rightarrow> uint32" where "ph_type h = get32 0 h"
definition ph_flags :: "bytes \<Rightarrow> uint32" where "ph_flags h = get32 1 h"
definition ph_off :: "bytes \<Rightarrow> uint64" where "ph_off h = get64 8 h"
definition ph_vaddr :: "bytes \<Rightarrow> uint64" where "ph_vaddr h = get64 16 h"
definition ph_filesz :: "bytes \<Rightarrow> uint64" where "ph_filesz h = get64 32 h"
definition ph_memsz :: "bytes \<Rightarrow> uint64" where "ph_memsz h = get64 40 h"

definition flags2perm :: "uint32 \<Rightarrow> uint64" where
  "flags2perm fl =
     (let perm = (if fl AND 0x1 \<noteq> 0 then PTE_X else 0) in
      if fl AND 0x2 \<noteq> 0 then perm OR PTE_W else perm)"

definition loadseg :: "uint64 \<Rightarrow> uint64 \<Rightarrow> nat \<Rightarrow> uint32 \<Rightarrow> uint32 \<Rightarrow> ('z fs_state_scheme, int) km" where
  "loadseg pt va ip offset sz =
     kbind (kscan (\<lambda>i.
       kbind (walkaddr pt (va + of_nat i)) (\<lambda>pa.
       kseq (kwhen (pa = 0) (panic ''loadseg: address should exist'')) (
       let n = (if unat sz - i < PGSIZE then unat sz - i else PGSIZE) in
       kbind (readi ip (Kern pa) (offset + of_nat i) (of_nat n)) (\<lambda>r.
       kret (if r \<noteq> int n then Some (-1) else None)))))
       (chunk_starts PGSIZE (unat sz))) (\<lambda>r.
     kret (case r of Some v \<Rightarrow> v | None \<Rightarrow> 0))"

text \<open>One turn of the loop over the program headers.\<close>

definition kexec_segment :: "nat \<Rightarrow> uint64 \<Rightarrow> uint64 \<Rightarrow> uint32 \<Rightarrow> ('z fs_state_scheme, uint64 + uint64) km" where
  "kexec_segment ip pt sz off =
     kbind (readi ip (Local 0) off 56) (\<lambda>r.
     if r \<noteq> 56 then kret (Inl sz)
     else
       kbind (kget (\<lambda>s. take 56 (scratch s))) (\<lambda>h.
       if ph_type h \<noteq> ELF_PROG_LOAD then kret (Inr sz)
       else if ph_memsz h < ph_filesz h then kret (Inl sz)
       else if ph_vaddr h + ph_memsz h < ph_vaddr h then kret (Inl sz)
       else if ph_vaddr h mod 4096 \<noteq> 0 then kret (Inl sz)
       else
         kbind (uvmalloc pt sz (ph_vaddr h + ph_memsz h) (flags2perm (ph_flags h))) (\<lambda>sz1.
         if sz1 = 0 then kret (Inl sz)
         else
           kbind (loadseg pt (ph_vaddr h) ip (ucast (ph_off h)) (ucast (ph_filesz h))) (\<lambda>l.
           kret (if l < 0 then Inl sz1 else Inr sz1)))))"

primrec kexec_load :: "nat \<Rightarrow> nat \<Rightarrow> uint64 \<Rightarrow> uint64 \<Rightarrow> uint32 \<Rightarrow> ('z fs_state_scheme, uint64 + uint64) km" where
  "kexec_load 0 ip pt sz off = kret (Inr sz)"
| "kexec_load (Suc k) ip pt sz off =
     kbind (kexec_segment ip pt sz off) (\<lambda>r.
     case r of Inl b \<Rightarrow> kret (Inl b) | Inr sz1 \<Rightarrow> kexec_load k ip pt sz1 (off + 56))"

definition kexec_bad :: "uint64 \<Rightarrow> uint64 \<Rightarrow> nat option \<Rightarrow> ('z fs_state_scheme, int) km" where
  "kexec_bad pt sz ipp =
     kseq (kwhen (pt \<noteq> 0) (proc_freepagetable pt sz)) (
     kseq (case ipp of None \<Rightarrow> kskip | Some ip \<Rightarrow> kdo [iunlockput ip, end_op])
          (kret (-1)))"

text \<open>
  The loop that copies the argument strings: the stack pointer and \<^verbatim>\<open>ustack\<close>, or \<open>None\<close> for a
  jump to \<^verbatim>\<open>bad\<close>.
\<close>

fun kexec_args :: "uint64 \<Rightarrow> uint64 \<Rightarrow> uint64 \<Rightarrow> uint64 list \<Rightarrow> karg list
    \<Rightarrow> ('z fs_state_scheme, (uint64 \<times> uint64 list) option) km" where
  "kexec_args pt stackbase sp ustack [] = kret (Some (sp, ustack))"
| "kexec_args pt stackbase sp ustack (a # as) =
     (if length ustack \<ge> MAXARG then kret None
      else
        kbind (kget (\<lambda>s. karg_chars (mem s) a)) (\<lambda>str.
        case strlen str of None \<Rightarrow> khalt Fault | Some n \<Rightarrow>
        let sp1 = sp - (of_nat n + 1);
            sp2 = sp1 - sp1 mod 16
        in
        if sp2 < stackbase then kret None
        else
          kbind (copyout pt sp2 (map str [0..<n + 1])) (\<lambda>r.
          if r < 0 then kret None
          else kexec_args pt stackbase sp2 (ustack @ [sp2]) as)))"

fun exec_last :: "bytes \<Rightarrow> bytes \<Rightarrow> bytes" where
  "exec_last la [] = la"
| "exec_last la (c # cs) = exec_last (if c = SLASH then cs else la) cs"

text \<open>From the allocation of the user stack to the end.\<close>

definition kexec_commit :: "nat \<Rightarrow> bytes \<Rightarrow> bytes \<Rightarrow> uint64 \<Rightarrow> uint64 \<Rightarrow> uint64 \<Rightarrow> uint64 \<Rightarrow> nat
    \<Rightarrow> ('z fs_state_scheme, int) km" where
  "kexec_commit p path elf pt sz sp oldsz argc =
     kseq (set_tf p (TF_a 1) sp) (
     kseq (upd_proc p (\<lambda>x. x\<lparr>pname := copy_name (pname x) (exec_last path path)\<rparr>)) (
     kbind (kget (\<lambda>s. ppagetable (procs s p))) (\<lambda>old.
     kseq (upd_proc p (\<lambda>x. x\<lparr>ppagetable := pt\<rparr>)) (
     kseq (upd_proc p (\<lambda>x. x\<lparr>psz := sz\<rparr>)) (
     kseq (set_tf p TF_epc (elf_entry elf)) (
     kseq (set_tf p TF_sp sp) (
     kseq (proc_freepagetable old oldsz) (kret (int argc)))))))))"

definition kexec_stack :: "bytes \<Rightarrow> karg list \<Rightarrow> bytes \<Rightarrow> uint64 \<Rightarrow> uint64 \<Rightarrow> ('z fs_state_scheme, int) km" where
  "kexec_stack path argv elf pt sz0 =
     kbind curproc (\<lambda>p.
     kbind (kget (\<lambda>s. psz (procs s p))) (\<lambda>oldsz.
     let sz = PGROUNDUP sz0; stk = of_nat (USERSTACK * PGSIZE) in
     kbind (uvmalloc pt sz (sz + (stk + 4096)) PTE_W) (\<lambda>sz1.
     if sz1 = 0 then kexec_bad pt sz None
     else
       kseq (uvmclear pt (sz1 - (stk + 4096))) (
       let stackbase = sz1 - stk in
       kbind (kexec_args pt stackbase sz1 [] argv) (\<lambda>r.
       case r of None \<Rightarrow> kexec_bad pt sz1 None
       | Some (sp, ustack) \<Rightarrow>
           let argc = length ustack;
               sp1 = sp - of_nat ((argc + 1) * 8);
               sp2 = sp1 - sp1 mod 16
           in
           if argc \<ge> MAXARG then khalt Fault
           else if sp2 < stackbase then kexec_bad pt sz1 None
           else
             kbind (copyout pt sp2 (concat (map (le_bytes 8) (ustack @ [0])))) (\<lambda>c.
             if c < 0 then kexec_bad pt sz1 None
             else kexec_commit p path elf pt sz1 sp2 oldsz argc))))))"

definition kexec :: "bytes \<Rightarrow> karg list \<Rightarrow> ('z fs_state_scheme, int) km" where
  "kexec path argv =
     kbind curproc (\<lambda>p.
     kseq begin_op (
     kbind (namei path) (\<lambda>r.
     case r of None \<Rightarrow> kseq end_op (kret (-1)) | Some ip \<Rightarrow>
     kseq (ilock (Some ip)) (
     kbind (readi ip (Local 0) 0 64) (\<lambda>n.
     if n \<noteq> 64 then kexec_bad 0 0 (Some ip)
     else
       kbind (kget (\<lambda>s. take 64 (scratch s))) (\<lambda>elf.
       if elf_magic elf \<noteq> ELF_MAGIC then kexec_bad 0 0 (Some ip)
       else
         kbind (proc_pagetable p) (\<lambda>pt.
         if pt = 0 then kexec_bad 0 0 (Some ip)
         else
           kbind (kexec_load (elf_phnum elf) ip pt 0 (ucast (elf_phoff elf))) (\<lambda>l.
           case l of Inl sz \<Rightarrow> kexec_bad pt sz (Some ip)
           | Inr sz \<Rightarrow>
               kseq (iunlockput ip) (
               kseq end_op (kexec_stack path argv elf pt sz))))))))))"

end
