(* ===== verification/Syscall.thy ===== *)
theory Syscall
  imports Exec
begin

section \<open>System call arguments and the process system calls\<close>

text \<open>
  The argument functions of \<^verbatim>\<open>kernel/syscall.c\<close> and \<^verbatim>\<open>kernel/sysproc.c\<close>. A system call returns the
  64 bits that go to the user's register \<^verbatim>\<open>a0\<close>. \<open>ticks\<close> is the clock of \<^verbatim>\<open>kernel/trap.c\<close>.
\<close>

record sys_state = file_state +
  ticks :: uint32

definition SBRK_EAGER :: int where "SBRK_EAGER = 1"
definition SBRK_LAZY :: int where "SBRK_LAZY = 2"

subsection \<open>Arguments\<close>

definition fetchaddr :: "uint64 \<Rightarrow> ('z proc_state_scheme, uint64 option) km" where
  "fetchaddr addr =
     kbind curproc (\<lambda>p.
     kbind (kget (\<lambda>s. procs s p)) (\<lambda>x.
     if addr \<ge> psz x \<or> addr + 8 > psz x then kret None
     else
       kbind (copyin (ppagetable x) addr 8) (\<lambda>(r, bs).
       kret (if r \<noteq> 0 then None else Some (le_word bs)))))"

text \<open>The result of \<^verbatim>\<open>fetchstr\<close> and the bytes stored in its buffer.\<close>

definition fetchstr :: "uint64 \<Rightarrow> nat \<Rightarrow> ('z proc_state_scheme, int \<times> bytes) km" where
  "fetchstr addr lim =
     kbind curproc (\<lambda>p.
     kbind (kget (\<lambda>s. ppagetable (procs s p))) (\<lambda>pt.
     kbind (copyinstr pt addr lim) (\<lambda>(r, bs).
     if r < 0 then kret (-1, bs)
     else case strlen (arr bs) of None \<Rightarrow> khalt Fault | Some n \<Rightarrow> kret (int n, bs))))"

definition argraw :: "nat \<Rightarrow> ('z proc_state_scheme, uint64) km" where
  "argraw n =
     kbind curproc (\<lambda>p. if n \<le> 5 then get_tf p (TF_a n) else panic ''argraw'')"

definition argint :: "nat \<Rightarrow> ('z proc_state_scheme, uint32) km" where
  "argint n = kbind (argraw n) (\<lambda>v. kret (ucast v))"

definition argaddr :: "nat \<Rightarrow> ('z proc_state_scheme, uint64) km" where
  "argaddr n = argraw n"

definition argstr :: "nat \<Rightarrow> nat \<Rightarrow> ('z proc_state_scheme, int \<times> bytes) km" where
  "argstr n lim = kbind (argaddr n) (\<lambda>addr. fetchstr addr lim)"

text \<open>The characters of a string argument before its NUL, or \<open>None\<close> for an error.\<close>

definition argpath :: "nat \<Rightarrow> ('z proc_state_scheme, bytes option) km" where
  "argpath n =
     kbind (argstr n MAXPATH) (\<lambda>(r, bs).
     kret (if r < 0 then None else Some (take (nat r) bs)))"

subsection \<open>sysproc.c\<close>

definition sys_exit :: "('z sys_state_scheme, uint64) km" where
  "sys_exit = kbind (argint 0) (\<lambda>n. kseq (kexit n) (kret 0))"

definition sys_getpid :: "('z sys_state_scheme, uint64) km" where
  "sys_getpid = kbind curproc (\<lambda>p. kget (\<lambda>s. scast (pid (procs s p))))"

definition sys_fork :: "('z sys_state_scheme, uint64) km" where
  "sys_fork = kbind kfork (\<lambda>r. kret (of_int r))"

definition sys_wait :: "('z sys_state_scheme, uint64) km" where
  "sys_wait = kbind (argaddr 0) (\<lambda>p. kbind (kwait p) (\<lambda>r. kret (of_int r)))"

definition sys_sbrk :: "('z sys_state_scheme, uint64) km" where
  "sys_sbrk =
     kbind (argint 0) (\<lambda>n.
     kbind (argint 1) (\<lambda>t.
     kbind curproc (\<lambda>p.
     kbind (kget (\<lambda>s. psz (procs s p))) (\<lambda>addr.
     if sint t = SBRK_EAGER \<or> sint n < 0 then
       kbind (growproc n) (\<lambda>r. kret (if r < 0 then -1 else addr))
     else if addr + scast n < addr then kret (-1)
     else
       kbind curproc (\<lambda>p.
       kseq (upd_proc p (\<lambda>x. x\<lparr>psz := psz x + scast n\<rparr>)) (kret addr))))))"

text \<open>The loop of \<^verbatim>\<open>sys_pause\<close>; the comparison is unsigned.\<close>

definition sys_pause_loop :: "uint32 \<Rightarrow> uint32 \<Rightarrow> ('z sys_state_scheme, uint64) km" where
  "sys_pause_loop ticks0 n =
     kbind (kget ticks) (\<lambda>t.
     if t - ticks0 < n then
       kbind curproc (\<lambda>p.
       kbind (killed p) (\<lambda>k.
       if k \<noteq> 0 then kseq (release Lk_ticks) (kret (-1))
       else sleep Ch_ticks Lk_ticks))
     else kseq (release Lk_ticks) (kret 0))"

definition sys_pause :: "('z sys_state_scheme, uint64) km" where
  "sys_pause =
     kbind (argint 0) (\<lambda>n.
     let n' = (if sint n < 0 then 0 else n) in
     kseq (acquire Lk_ticks) (
     kbind (kget ticks) (\<lambda>ticks0. sys_pause_loop ticks0 n')))"

definition sys_kill :: "('z sys_state_scheme, uint64) km" where
  "sys_kill = kbind (argint 0) (\<lambda>n. kbind (kkill n) (\<lambda>r. kret (of_int r)))"

definition sys_uptime :: "('z sys_state_scheme, uint64) km" where
  "sys_uptime = with_lock Lk_ticks (kget (\<lambda>s. ucast (ticks s)))"

end
