(* ===== verification/Sysfile.thy ===== *)
theory Sysfile
  imports Syscall
begin

section \<open>File system calls\<close>

text \<open>
  \<^verbatim>\<open>kernel/sysfile.c\<close>, in the order of the source. A \<^verbatim>\<open>goto bad\<close> is a call of the definition that
  stands for the code after the label. Directory entries that the code keeps in a local \<^verbatim>\<open>de\<close>
  pass through the local buffer \<open>scratch\<close>.
\<close>

definition O_WRONLY :: uint32 where "O_WRONLY = 0x001"
definition O_RDWR :: uint32 where "O_RDWR = 0x002"
definition O_CREATE :: uint32 where "O_CREATE = 0x200"
definition O_TRUNC :: uint32 where "O_TRUNC = 0x400"

definition argfd :: "nat \<Rightarrow> ('z sys_state_scheme, (nat \<times> nat) option) km" where
  "argfd n =
     kbind (argint n) (\<lambda>fd.
     if sint fd < 0 \<or> sint fd \<ge> int NOFILE then kret None
     else
       kbind curproc (\<lambda>p.
       kget (\<lambda>s. map_option (\<lambda>f. (unat fd, f)) (ofile (procs s p) (unat fd)))))"

definition fdalloc :: "nat \<Rightarrow> ('z proc_state_scheme, int) km" where
  "fdalloc f =
     kbind curproc (\<lambda>p.
     kbind (kscan (\<lambda>fd.
       kbind (kget (\<lambda>s. ofile (procs s p) fd)) (\<lambda>x.
       if x = None
       then kseq (upd_proc p (\<lambda>x. x\<lparr>ofile := (ofile x)(fd := Some f)\<rparr>)) (kret (Some (int fd)))
       else kret None)) [0..<NOFILE]) (\<lambda>r.
     kret (case r of Some fd \<Rightarrow> fd | None \<Rightarrow> -1)))"

definition sys_dup :: "('z sys_state_scheme, uint64) km" where
  "sys_dup =
     kbind (argfd 0) (\<lambda>r.
     case r of None \<Rightarrow> kret (-1) | Some (_, f) \<Rightarrow>
     kbind (fdalloc f) (\<lambda>fd.
     if fd < 0 then kret (-1) else kseq (filedup f) (kret (of_int fd))))"

definition sys_read :: "('z sys_state_scheme, uint64) km" where
  "sys_read =
     kbind (argaddr 1) (\<lambda>p.
     kbind (argint 2) (\<lambda>n.
     kbind (argfd 0) (\<lambda>r.
     case r of None \<Rightarrow> kret (-1)
     | Some (_, f) \<Rightarrow> kbind (fileread f p (sint n)) (\<lambda>v. kret (of_int v)))))"

definition sys_write :: "('z sys_state_scheme, uint64) km" where
  "sys_write =
     kbind (argaddr 1) (\<lambda>p.
     kbind (argint 2) (\<lambda>n.
     kbind (argfd 0) (\<lambda>r.
     case r of None \<Rightarrow> kret (-1)
     | Some (_, f) \<Rightarrow> kbind (filewrite f p (sint n)) (\<lambda>v. kret (of_int v)))))"

definition sys_close :: "('z sys_state_scheme, uint64) km" where
  "sys_close =
     kbind (argfd 0) (\<lambda>r.
     case r of None \<Rightarrow> kret (-1) | Some (fd, f) \<Rightarrow>
     kbind curproc (\<lambda>p.
     kseq (upd_proc p (\<lambda>x. x\<lparr>ofile := (ofile x)(fd := None)\<rparr>)) (
     kseq (fileclose f) (kret 0))))"

definition sys_fstat :: "('z sys_state_scheme, uint64) km" where
  "sys_fstat =
     kbind (argaddr 1) (\<lambda>st.
     kbind (argfd 0) (\<lambda>r.
     case r of None \<Rightarrow> kret (-1)
     | Some (_, f) \<Rightarrow> kbind (filestat f st) (\<lambda>v. kret (of_int v))))"

subsection \<open>Links\<close>

definition add_nlink :: "uint16 \<Rightarrow> nat \<Rightarrow> ('z fs_state_scheme, unit) km" where
  "add_nlink d ip = kdo [upd_inode ip (\<lambda>x. x\<lparr>inlink := inlink x + d\<rparr>), iupdate ip]"

definition link_bad :: "nat \<Rightarrow> ('z fs_state_scheme, uint64) km" where
  "link_bad ip =
     kseq (ilock (Some ip)) (
     kseq (add_nlink (-1) ip) (
     kseq (iunlockput ip) (
     kseq end_op (kret (-1)))))"

definition link_at :: "nat \<Rightarrow> bytes \<Rightarrow> ('z fs_state_scheme, uint64) km" where
  "link_at ip new =
     kbind (nameiparent new (replicate DIRSIZ 0)) (\<lambda>(r, name).
     case r of None \<Rightarrow> link_bad ip | Some dp \<Rightarrow>
     kseq (ilock (Some dp)) (
     kbind (kget (\<lambda>s. (idev (inodes s dp), inodes s ip))) (\<lambda>(ddev, x).
     kbind (if ddev \<noteq> idev x then kret (-1) else dirlink dp name (inum x)) (\<lambda>l.
     if l < 0 then kseq (iunlockput dp) (link_bad ip)
     else
       kseq (iunlockput dp) (
       kseq (iput ip) (
       kseq end_op (kret 0)))))))"

definition sys_link :: "('z sys_state_scheme, uint64) km" where
  "sys_link =
     kbind (argpath 0) (\<lambda>o1.
     case o1 of None \<Rightarrow> kret (-1) | Some old \<Rightarrow>
     kbind (argpath 1) (\<lambda>o2.
     case o2 of None \<Rightarrow> kret (-1) | Some new \<Rightarrow>
     kseq begin_op (
     kbind (namei old) (\<lambda>r.
     case r of None \<Rightarrow> kseq end_op (kret (-1)) | Some ip \<Rightarrow>
     kseq (ilock (Some ip)) (
     kbind (kget (\<lambda>s. itype (inodes s ip))) (\<lambda>t.
     if t = T_DIR then kseq (iunlockput ip) (kseq end_op (kret (-1)))
     else
       kseq (add_nlink 1 ip) (
       kseq (iunlock (Some ip)) (link_at ip new))))))))"

definition isdirempty :: "nat \<Rightarrow> ('z fs_state_scheme, bool) km" where
  "isdirempty dp =
     kbind (kget (\<lambda>s. unat (isize (inodes s dp)))) (\<lambda>sz.
     kbind (kscan (\<lambda>off.
       kbind (read_de ''isdirempty: readi'' dp off) (\<lambda>de.
       kret (if de_inum de \<noteq> 0 then Some False else None))) (drop 2 (de_starts sz))) (\<lambda>r.
     kret (case r of Some b \<Rightarrow> b | None \<Rightarrow> True)))"

definition unlink_bad :: "nat \<Rightarrow> ('z fs_state_scheme, uint64) km" where
  "unlink_bad dp = kseq (iunlockput dp) (kseq end_op (kret (-1)))"

text \<open>From the point where the entry at \<open>off\<close> is to be erased.\<close>

definition unlink_erase :: "nat \<Rightarrow> nat \<Rightarrow> nat \<Rightarrow> ('z fs_state_scheme, uint64) km" where
  "unlink_erase dp ip off =
     kseq (kmod (\<lambda>s. s\<lparr>scratch := splice 0 (replicate 16 0) (scratch s)\<rparr>)) (
     kbind (writei dp (Local 0) (of_nat off) 16) (\<lambda>w.
     kseq (kwhen (w \<noteq> 16) (panic ''unlink: writei'')) (
     kbind (kget (\<lambda>s. itype (inodes s ip))) (\<lambda>t.
     kseq (kwhen (t = T_DIR) (add_nlink (-1) dp)) (
     kseq (iunlockput dp) (
     kseq (add_nlink (-1) ip) (
     kseq (iunlockput ip) (
     kseq end_op (kret 0)))))))))"

definition unlink_in :: "nat \<Rightarrow> bytes \<Rightarrow> ('z fs_state_scheme, uint64) km" where
  "unlink_in dp name =
     kseq (ilock (Some dp)) (
     if namecmp name [46, 0] = 0 \<or> namecmp name [46, 46, 0] = 0 then unlink_bad dp
     else
       kbind (dirlookup dp name) (\<lambda>r.
       case r of None \<Rightarrow> unlink_bad dp | Some (ip, off) \<Rightarrow>
       kseq (ilock (Some ip)) (
       kbind (kget (\<lambda>s. inodes s ip)) (\<lambda>x.
       kseq (kwhen (sint (inlink x) < 1) (panic ''unlink: nlink < 1'')) (
       kbind (if itype x = T_DIR then isdirempty ip else kret True) (\<lambda>empt.
       if \<not> empt then kseq (iunlockput ip) (unlink_bad dp)
       else unlink_erase dp ip off))))))"

definition sys_unlink :: "('z sys_state_scheme, uint64) km" where
  "sys_unlink =
     kbind (argpath 0) (\<lambda>o1.
     case o1 of None \<Rightarrow> kret (-1) | Some path \<Rightarrow>
     kseq begin_op (
     kbind (nameiparent path (replicate DIRSIZ 0)) (\<lambda>(r, name).
     case r of None \<Rightarrow> kseq end_op (kret (-1)) | Some dp \<Rightarrow> unlink_in dp name)))"

subsection \<open>Creating and opening\<close>

definition create_fail :: "nat \<Rightarrow> nat \<Rightarrow> ('z fs_state_scheme, nat option) km" where
  "create_fail dp ip =
     kseq (upd_inode ip (\<lambda>x. x\<lparr>inlink := 0\<rparr>)) (
     kseq (iupdate ip) (
     kseq (iunlockput ip) (
     kseq (iunlockput dp) (kret None))))"

definition create_new :: "nat \<Rightarrow> bytes \<Rightarrow> uint16 \<Rightarrow> uint16 \<Rightarrow> uint16 \<Rightarrow> nat
    \<Rightarrow> ('z fs_state_scheme, nat option) km" where
  "create_new dp name ty maj mino ip =
     kseq (ilock (Some ip)) (
     kseq (upd_inode ip (\<lambda>x. x\<lparr>imajor := maj, iminor := mino, inlink := 1\<rparr>)) (
     kseq (iupdate ip) (
     kbind (kget (\<lambda>s. (inum (inodes s ip), inum (inodes s dp)))) (\<lambda>(n, dn).
     kbind (if ty = T_DIR
            then kbind (dirlink ip [46, 0] n) (\<lambda>a.
              if a < 0 then kret (-1) else dirlink ip [46, 46, 0] dn)
            else kret 0) (\<lambda>dots.
     if dots < 0 then create_fail dp ip
     else
       kbind (dirlink dp name n) (\<lambda>l.
       if l < 0 then create_fail dp ip
       else
         kseq (kwhen (ty = T_DIR) (add_nlink 1 dp)) (
         kseq (iunlockput dp) (kret (Some ip)))))))))"

definition create :: "bytes \<Rightarrow> uint16 \<Rightarrow> uint16 \<Rightarrow> uint16 \<Rightarrow> ('z fs_state_scheme, nat option) km" where
  "create path ty maj mino =
     kbind (nameiparent path (replicate DIRSIZ 0)) (\<lambda>(r, name).
     case r of None \<Rightarrow> kret None | Some dp \<Rightarrow>
     kseq (ilock (Some dp)) (
     kbind (dirlookup dp name) (\<lambda>d.
     case d of
       Some (ip, _) \<Rightarrow>
         kseq (iunlockput dp) (
         kseq (ilock (Some ip)) (
         kbind (kget (\<lambda>s. itype (inodes s ip))) (\<lambda>t.
         if ty = T_FILE \<and> (t = T_FILE \<or> t = T_DEVICE) then kret (Some ip)
         else kseq (iunlockput ip) (kret None))))
     | None \<Rightarrow>
         kbind (kget (\<lambda>s. idev (inodes s dp))) (\<lambda>dev.
         kbind (ialloc dev ty) (\<lambda>a.
         case a of None \<Rightarrow> kseq (iunlockput dp) (kret None)
         | Some ip \<Rightarrow> create_new dp name ty maj mino ip)))))"

definition open_fail :: "nat \<Rightarrow> ('z fs_state_scheme, uint64) km" where
  "open_fail ip = kseq (iunlockput ip) (kseq end_op (kret (-1)))"

text \<open>The inode to open, locked; \<open>None\<close> after the transaction has been ended.\<close>

definition open_inode :: "bytes \<Rightarrow> uint32 \<Rightarrow> ('z fs_state_scheme, nat option) km" where
  "open_inode path omode =
     (if omode AND O_CREATE \<noteq> 0
      then kbind (create path T_FILE 0 0) (\<lambda>r.
        case r of None \<Rightarrow> kseq end_op (kret None) | Some ip \<Rightarrow> kret (Some ip))
      else kbind (namei path) (\<lambda>r.
        case r of None \<Rightarrow> kseq end_op (kret None) | Some ip \<Rightarrow>
        kseq (ilock (Some ip)) (
        kbind (kget (\<lambda>s. itype (inodes s ip))) (\<lambda>t.
        if t = T_DIR \<and> omode \<noteq> 0 then kseq (open_fail ip) (kret None)
        else kret (Some ip)))))"

definition open_file :: "nat \<Rightarrow> uint32 \<Rightarrow> inode \<Rightarrow> fileent \<Rightarrow> fileent" where
  "open_file ip omode x f =
     (let g = (if itype x = T_DEVICE then f\<lparr>ftyp := FD_DEVICE, fmajor := imajor x\<rparr>
               else f\<lparr>ftyp := FD_INODE, foff := 0\<rparr>)
      in g\<lparr>fip := Some ip, readable := (omode AND O_WRONLY = 0),
           writable := (omode AND O_WRONLY \<noteq> 0 \<or> omode AND O_RDWR \<noteq> 0)\<rparr>)"

definition sys_open :: "('z sys_state_scheme, uint64) km" where
  "sys_open =
     kbind (argint 1) (\<lambda>omode.
     kbind (argpath 0) (\<lambda>o1.
     case o1 of None \<Rightarrow> kret (-1) | Some path \<Rightarrow>
     kseq begin_op (
     kbind (open_inode path omode) (\<lambda>r.
     case r of None \<Rightarrow> kret (-1) | Some ip \<Rightarrow>
     kbind (kget (\<lambda>s. inodes s ip)) (\<lambda>x.
     if itype x = T_DEVICE \<and> (sint (imajor x) < 0 \<or> sint (imajor x) \<ge> int NDEV)
     then open_fail ip
     else
       kbind filealloc (\<lambda>fo.
       case fo of None \<Rightarrow> open_fail ip | Some f \<Rightarrow>
       kbind (fdalloc f) (\<lambda>fd.
       if fd < 0 then kseq (fileclose f) (open_fail ip)
       else
         kseq (upd_file f (open_file ip omode x)) (
         kseq (kwhen (omode AND O_TRUNC \<noteq> 0 \<and> itype x = T_FILE) (itrunc ip)) (
         kseq (iunlock (Some ip)) (
         kseq end_op (kret (of_int fd))))))))))))"

text \<open>The end of \<^verbatim>\<open>sys_mkdir\<close> and \<^verbatim>\<open>sys_mknod\<close>.\<close>

definition made :: "nat option \<Rightarrow> ('z fs_state_scheme, uint64) km" where
  "made r =
     (case r of None \<Rightarrow> kseq end_op (kret (-1))
      | Some ip \<Rightarrow> kseq (iunlockput ip) (kseq end_op (kret 0)))"

definition sys_mkdir :: "('z sys_state_scheme, uint64) km" where
  "sys_mkdir =
     kseq begin_op (
     kbind (argpath 0) (\<lambda>o1.
     kbind (case o1 of None \<Rightarrow> kret None | Some path \<Rightarrow> create path T_DIR 0 0) made))"

definition sys_mknod :: "('z sys_state_scheme, uint64) km" where
  "sys_mknod =
     kseq begin_op (
     kbind (argint 1) (\<lambda>maj.
     kbind (argint 2) (\<lambda>mino.
     kbind (argpath 0) (\<lambda>o1.
     kbind (case o1 of None \<Rightarrow> kret None
            | Some path \<Rightarrow> create path T_DEVICE (ucast maj) (ucast mino)) made))))"

definition sys_chdir :: "('z sys_state_scheme, uint64) km" where
  "sys_chdir =
     kbind curproc (\<lambda>p.
     kseq begin_op (
     kbind (argpath 0) (\<lambda>o1.
     kbind (case o1 of None \<Rightarrow> kret None | Some path \<Rightarrow> namei path) (\<lambda>r.
     case r of None \<Rightarrow> kseq end_op (kret (-1)) | Some ip \<Rightarrow>
     kseq (ilock (Some ip)) (
     kbind (kget (\<lambda>s. itype (inodes s ip))) (\<lambda>t.
     if t \<noteq> T_DIR then kseq (iunlockput ip) (kseq end_op (kret (-1)))
     else
       kseq (iunlock (Some ip)) (
       kbind (kget (\<lambda>s. cwd (procs s p))) (\<lambda>c.
       kseq (case c of None \<Rightarrow> khalt Fault | Some d \<Rightarrow> iput d) (
       kseq end_op (
       kseq (upd_proc p (\<lambda>x. x\<lparr>cwd := Some ip\<rparr>)) (kret 0)))))))))))"

subsection \<open>exec and pipe\<close>

text \<open>
  The loop that fetches the argument strings: the pages allocated so far, and whether the loop
  ended at the null pointer (as opposed to the jump to \<^verbatim>\<open>bad\<close>). The first argument counts the
  elements of \<^verbatim>\<open>argv\<close> still unused.
\<close>

primrec fetch_argv :: "nat \<Rightarrow> uint64 \<Rightarrow> uint64 list \<Rightarrow> ('z proc_state_scheme, uint64 list \<times> bool) km" where
  "fetch_argv 0 uargv pages = kret (pages, False)"
| "fetch_argv (Suc k) uargv pages =
     kbind (fetchaddr (uargv + of_nat (8 * length pages))) (\<lambda>u.
     case u of None \<Rightarrow> kret (pages, False) | Some uarg \<Rightarrow>
     if uarg = 0 then kret (pages, True)
     else
       kbind kalloc (\<lambda>pg.
       if pg = 0 then kret (pages, False)
       else
         kbind (fetchstr uarg PGSIZE) (\<lambda>(r, bs).
         kseq (set_mem (\<lambda>m. mem_write m pg bs)) (
         if r < 0 then kret (pages @ [pg], False)
         else fetch_argv k uargv (pages @ [pg])))))"

definition sys_exec :: "('z sys_state_scheme, uint64) km" where
  "sys_exec =
     kbind (argaddr 1) (\<lambda>uargv.
     kbind (argpath 0) (\<lambda>o1.
     case o1 of None \<Rightarrow> kret (-1) | Some path \<Rightarrow>
     kbind (fetch_argv MAXARG uargv []) (\<lambda>(pages, ok).
     kbind (if ok then kbind (kexec path (map Karg_page pages)) (\<lambda>r. kret (of_int r))
            else kret (-1)) (\<lambda>ret.
     kseq (kiter kfree pages) (kret ret)))))"

definition pipe_undo :: "nat list \<Rightarrow> nat \<Rightarrow> nat \<Rightarrow> nat \<Rightarrow> ('z file_state_scheme, uint64) km" where
  "pipe_undo fds p rfl wfl =
     kseq (kiter (\<lambda>fd. upd_proc p (\<lambda>x. x\<lparr>ofile := (ofile x)(fd := None)\<rparr>)) fds) (
     kseq (fileclose rfl) (
     kseq (fileclose wfl) (kret (-1))))"

definition sys_pipe :: "('z sys_state_scheme, uint64) km" where
  "sys_pipe =
     kbind curproc (\<lambda>p.
     kbind (argaddr 0) (\<lambda>fdarray.
     kbind pipealloc (\<lambda>(r, rfo, wfo).
     if r < 0 then kret (-1)
     else case (rfo, wfo) of (Some rfl, Some wfl) \<Rightarrow>
       kbind (fdalloc rfl) (\<lambda>fd0.
       if fd0 < 0 then pipe_undo [] p rfl wfl
       else
         kbind (fdalloc wfl) (\<lambda>fd1.
         if fd1 < 0 then pipe_undo [nat fd0] p rfl wfl
         else
           kbind (kget (\<lambda>s. ppagetable (procs s p))) (\<lambda>pt.
           kbind (copyout pt fdarray (le_bytes 4 (of_int fd0 :: uint32))) (\<lambda>c0.
           if c0 < 0 then pipe_undo [nat fd0, nat fd1] p rfl wfl
           else
             kbind (copyout pt (fdarray + 4) (le_bytes 4 (of_int fd1 :: uint32))) (\<lambda>c1.
             if c1 < 0 then pipe_undo [nat fd0, nat fd1] p rfl wfl
             else kret 0)))))
     | _ \<Rightarrow> khalt Fault)))"

end
