(* ===== verification/Virtio.thy ===== *)
theory Virtio
  imports Sysfile
begin

section \<open>The disk driver\<close>

text \<open>
  \<^verbatim>\<open>kernel/virtio_disk.c\<close>. The rings shared with the device are typed: a descriptor's address is the
  object the driver points it at (\<open>vptr\<close>), \<open>avail_ring\<close> and \<open>used_ring\<close> are the two rings with
  their 16-bit indices. \<open>vinfo_b\<close>, \<open>vstatus\<close> and \<open>vops\<close> are the driver's arrays \<^verbatim>\<open>info\<close> and
  \<^verbatim>\<open>ops\<close>; \<open>bdisk\<close> is the field \<^verbatim>\<open>disk\<close> of each buffer. \<open>vregs\<close> holds what was written last to each
  memory-mapped register; what a read returns is up to the device, the parameter \<open>rd\<close> of
  \<open>virtio_disk_init\<close>.

  \<^verbatim>\<open>virtio_disk_rw\<close> is in the pieces between which it sleeps: \<open>virtio_submit\<close> until the request is
  with the device, \<open>virtio_finish\<close> once \<^verbatim>\<open>b->disk\<close> is clear.
\<close>

datatype vptr = Vp_null | Vp_op nat | Vp_data nat | Vp_status nat

record vdesc =
  vd_addr :: vptr
  vd_len :: uint32
  vd_flags :: uint16
  vd_next :: uint16

record blk_req =
  br_type :: uint32
  br_reserved :: uint32
  br_sector :: uint64

record vdisk_state = sys_state +
  vregs :: "nat \<Rightarrow> uint32"
  vpages :: "uint64 \<times> uint64 \<times> uint64"
  vdesc :: "nat \<Rightarrow> vdesc"
  vfree :: "nat \<Rightarrow> bool"
  avail_ring :: "nat \<Rightarrow> uint16"
  avail_idx :: uint16
  used_ring :: "nat \<Rightarrow> uint32"
  used_ring_idx :: uint16
  used_idx :: uint16
  vinfo_b :: "nat \<Rightarrow> nat option"
  vstatus :: "nat \<Rightarrow> uint8"
  vops :: "nat \<Rightarrow> blk_req"
  bdisk :: "nat \<Rightarrow> bool"

definition NUM :: nat where "NUM = 8"
definition VRING_DESC_F_NEXT :: uint16 where "VRING_DESC_F_NEXT = 1"
definition VRING_DESC_F_WRITE :: uint16 where "VRING_DESC_F_WRITE = 2"
definition VIRTIO_BLK_T_IN :: uint32 where "VIRTIO_BLK_T_IN = 0"
definition VIRTIO_BLK_T_OUT :: uint32 where "VIRTIO_BLK_T_OUT = 1"

definition upd_desc :: "nat \<Rightarrow> (vdesc \<Rightarrow> vdesc) \<Rightarrow> ('z vdisk_state_scheme, unit) km" where
  "upd_desc i f = kmod (\<lambda>s. s\<lparr>vdesc := (vdesc s)(i := f (vdesc s i))\<rparr>)"

definition setR :: "nat \<Rightarrow> uint32 \<Rightarrow> ('z vdisk_state_scheme, unit) km" where
  "setR r v = kmod (\<lambda>s. s\<lparr>vregs := (vregs s)(r := v)\<rparr>)"

subsection \<open>Initialisation\<close>

text \<open>\<open>getR rd r\<close> reads register \<open>r\<close>.\<close>

definition getR :: "(nat \<Rightarrow> uint32 \<Rightarrow> uint32) \<Rightarrow> nat \<Rightarrow> ('z vdisk_state_scheme, uint32) km" where
  "getR rd r = kget (\<lambda>s. rd r (vregs s r))"

definition blk_features :: "uint64 \<Rightarrow> uint64" where
  "blk_features f =
     fold (\<lambda>b f. f AND NOT (push_bit b 1)) [5, 7, 11, 12, 27, 29, 28] f"

definition virtio_probe :: "(nat \<Rightarrow> uint32 \<Rightarrow> uint32) \<Rightarrow> ('z vdisk_state_scheme, unit) km" where
  "virtio_probe rd =
     kbind (getR rd 0x000) (\<lambda>magic.
     kbind (getR rd 0x004) (\<lambda>version.
     kbind (getR rd 0x008) (\<lambda>device.
     kbind (getR rd 0x00c) (\<lambda>vendor.
     kwhen (magic \<noteq> 0x74726976 \<or> version \<noteq> 2 \<or> device \<noteq> 2 \<or> vendor \<noteq> 0x554d4551)
       (panic ''could not find virtio disk'')))))"

definition virtio_queue_setup :: "('z vdisk_state_scheme, unit) km" where
  "virtio_queue_setup =
     kbind kalloc (\<lambda>d.
     kbind kalloc (\<lambda>a.
     kbind kalloc (\<lambda>u. kdo [
       kmod (\<lambda>s. s\<lparr>vpages := (d, a, u)\<rparr>),
       kwhen (d = 0 \<or> a = 0 \<or> u = 0) (panic ''virtio disk kalloc''),
       kmod (\<lambda>s. s\<lparr>vdesc := (\<lambda>_. \<lparr>vd_addr = Vp_null, vd_len = 0, vd_flags = 0, vd_next = 0\<rparr>)\<rparr>),
       kmod (\<lambda>s. s\<lparr>avail_ring := (\<lambda>_. 0), avail_idx := 0\<rparr>),
       kmod (\<lambda>s. s\<lparr>used_ring := (\<lambda>_. 0), used_ring_idx := 0\<rparr>),
       setR 0x038 (of_nat NUM),
       setR 0x080 (ucast d), setR 0x084 (ucast (drop_bit 32 d)),
       setR 0x090 (ucast a), setR 0x094 (ucast (drop_bit 32 a)),
       setR 0x0a0 (ucast u), setR 0x0a4 (ucast (drop_bit 32 u)),
       setR 0x044 1,
       kmod (\<lambda>s. s\<lparr>vfree := (\<lambda>i. i < NUM \<or> vfree s i)\<rparr>)])))"

definition virtio_disk_init :: "(nat \<Rightarrow> uint32 \<Rightarrow> uint32) \<Rightarrow> ('z vdisk_state_scheme, unit) km" where
  "virtio_disk_init rd = kdo [
     initlock Lk_vdisk ''virtio_disk'',
     virtio_probe rd,
     setR 0x070 0,
     setR 0x070 1,
     setR 0x070 3,
     kbind (getR rd 0x010) (\<lambda>f. setR 0x020 (ucast (blk_features (ucast f)))),
     setR 0x070 11,
     kbind (getR rd 0x070) (\<lambda>status. kdo [
       kwhen (status AND 8 = 0) (panic ''virtio disk FEATURES_OK unset''),
       setR 0x030 0,
       kbind (getR rd 0x044) (\<lambda>r. kwhen (r \<noteq> 0) (panic ''virtio disk should not be ready'')),
       kbind (getR rd 0x034) (\<lambda>m. kdo [
         kwhen (m = 0) (panic ''virtio disk has no queue 0''),
         kwhen (m < of_nat NUM) (panic ''virtio disk max queue too short'')]),
       virtio_queue_setup,
       setR 0x070 (status OR 4)])]"

subsection \<open>Descriptors\<close>

definition alloc_desc :: "('z vdisk_state_scheme, nat option) km" where
  "alloc_desc =
     kscan (\<lambda>i.
       kbind (kget (\<lambda>s. vfree s i)) (\<lambda>f.
       if f then kseq (kmod (\<lambda>s. s\<lparr>vfree := (vfree s)(i := False)\<rparr>)) (kret (Some i))
       else kret None)) [0..<NUM]"

definition free_desc :: "nat \<Rightarrow> ('z vdisk_state_scheme, unit) km" where
  "free_desc i = kdo [
     kwhen (i \<ge> NUM) (panic ''free_desc 1''),
     kbind (kget (\<lambda>s. vfree s i)) (\<lambda>f. kwhen f (panic ''free_desc 2'')),
     upd_desc i (\<lambda>d. d\<lparr>vd_addr := Vp_null, vd_len := 0, vd_flags := 0, vd_next := 0\<rparr>),
     kmod (\<lambda>s. s\<lparr>vfree := (vfree s)(i := True)\<rparr>),
     wakeup (Some Ch_disk_free)]"

text \<open>
  The loop of \<^verbatim>\<open>free_chain\<close>. A chain that visits a descriptor twice makes \<^verbatim>\<open>free_desc\<close> panic, so
  it ends within \<open>NUM + 1\<close> turns.
\<close>

primrec free_chain_loop :: "nat \<Rightarrow> nat \<Rightarrow> ('z vdisk_state_scheme, unit) km" where
  "free_chain_loop 0 i = khalt Fault"
| "free_chain_loop (Suc k) i =
     kbind (kget (\<lambda>s. vdesc s i)) (\<lambda>d. kdo [
       free_desc i,
       kwhen (vd_flags d AND VRING_DESC_F_NEXT \<noteq> 0) (free_chain_loop k (unat (vd_next d)))])"

definition free_chain :: "nat \<Rightarrow> ('z vdisk_state_scheme, unit) km" where
  "free_chain i = free_chain_loop (Suc NUM) i"

definition alloc3_desc :: "('z vdisk_state_scheme, (nat \<times> nat \<times> nat) option) km" where
  "alloc3_desc =
     kbind alloc_desc (\<lambda>r0.
     case r0 of None \<Rightarrow> kret None | Some i0 \<Rightarrow>
     kbind alloc_desc (\<lambda>r1.
     case r1 of None \<Rightarrow> kseq (free_desc i0) (kret None) | Some i1 \<Rightarrow>
     kbind alloc_desc (\<lambda>r2.
     case r2 of None \<Rightarrow> kseq (free_desc i0) (kseq (free_desc i1) (kret None))
     | Some i2 \<Rightarrow> kret (Some (i0, i1, i2)))))"

subsection \<open>Requests\<close>

definition format_req :: "nat \<Rightarrow> bool \<Rightarrow> nat \<Rightarrow> nat \<Rightarrow> nat \<Rightarrow> ('z vdisk_state_scheme, unit) km" where
  "format_req b wr i0 i1 i2 =
     kbind (kget (\<lambda>s. ucast (of_nat (blockno (bufs s b) * (BSIZE div 512)) :: uint32))) (\<lambda>sector. kdo [
       kmod (\<lambda>s. s\<lparr>vops := (vops s)(i0 := \<lparr>br_type = (if wr then VIRTIO_BLK_T_OUT else VIRTIO_BLK_T_IN),
                                       br_reserved = 0, br_sector = sector\<rparr>)\<rparr>),
       upd_desc i0 (\<lambda>d. d\<lparr>vd_addr := Vp_op i0, vd_len := 16, vd_flags := VRING_DESC_F_NEXT,
                           vd_next := of_nat i1\<rparr>),
       upd_desc i1 (\<lambda>d. d\<lparr>vd_addr := Vp_data b, vd_len := of_nat BSIZE,
                           vd_flags := (if wr then 0 else VRING_DESC_F_WRITE) OR VRING_DESC_F_NEXT,
                           vd_next := of_nat i2\<rparr>),
       kmod (\<lambda>s. s\<lparr>vstatus := (vstatus s)(i0 := 0xff)\<rparr>),
       upd_desc i2 (\<lambda>d. d\<lparr>vd_addr := Vp_status i0, vd_len := 1, vd_flags := VRING_DESC_F_WRITE,
                           vd_next := 0\<rparr>),
       kmod (\<lambda>s. s\<lparr>bdisk := (bdisk s)(b := True)\<rparr>),
       kmod (\<lambda>s. s\<lparr>vinfo_b := (vinfo_b s)(i0 := Some b)\<rparr>),
       kmod (\<lambda>s. s\<lparr>avail_ring := (avail_ring s)(unat (avail_idx s) mod NUM := of_nat i0)\<rparr>),
       kmod (\<lambda>s. s\<lparr>avail_idx := avail_idx s + 1\<rparr>),
       setR 0x050 0])"

text \<open>
  The loop that waits for \<^verbatim>\<open>b->disk\<close>; then the chain is freed and the lock released.
\<close>

definition virtio_finish :: "nat \<Rightarrow> nat \<Rightarrow> ('z vdisk_state_scheme, unit) km" where
  "virtio_finish b i0 =
     kbind (kget (\<lambda>s. bdisk s b)) (\<lambda>busy.
     if busy then sleep (Ch_buf b) Lk_vdisk
     else kdo [
       kmod (\<lambda>s. s\<lparr>vinfo_b := (vinfo_b s)(i0 := None)\<rparr>),
       free_chain i0,
       release Lk_vdisk])"

text \<open>The loop that waits for three descriptors; then the request is formatted and waited for.\<close>

definition virtio_submit :: "nat \<Rightarrow> bool \<Rightarrow> ('z vdisk_state_scheme, unit) km" where
  "virtio_submit b wr =
     kbind alloc3_desc (\<lambda>r.
     case r of
       None \<Rightarrow> sleep Ch_disk_free Lk_vdisk
     | Some (i0, i1, i2) \<Rightarrow> kdo [format_req b wr i0 i1 i2, virtio_finish b i0])"

definition virtio_disk_rw :: "nat \<Rightarrow> bool \<Rightarrow> ('z vdisk_state_scheme, unit) km" where
  "virtio_disk_rw b wr = kdo [acquire Lk_vdisk, virtio_submit b wr]"

text \<open>
  The loop of the interrupt handler. The 16-bit indices differ by at most \<open>NUM\<close> when the device
  follows the protocol; the number of turns is their difference.
\<close>

primrec virtio_intr_loop :: "nat \<Rightarrow> ('z vdisk_state_scheme, unit) km" where
  "virtio_intr_loop 0 = kskip"
| "virtio_intr_loop (Suc k) =
     kbind (kget (\<lambda>s. unat (used_ring s (unat (used_idx s) mod NUM)))) (\<lambda>i.
     if i \<ge> NUM then khalt Fault
     else
       kbind (kget (\<lambda>s. (vstatus s i, vinfo_b s i))) (\<lambda>(st, bo).
       kseq (kwhen (st \<noteq> 0) (panic ''virtio_disk_intr status'')) (
       case bo of None \<Rightarrow> khalt Fault | Some b \<Rightarrow> kdo [
         kmod (\<lambda>s. s\<lparr>bdisk := (bdisk s)(b := False)\<rparr>),
         wakeup (Some (Ch_buf b)),
         kmod (\<lambda>s. s\<lparr>used_idx := used_idx s + 1\<rparr>),
         virtio_intr_loop k])))"

definition virtio_disk_intr :: "(nat \<Rightarrow> uint32 \<Rightarrow> uint32) \<Rightarrow> ('z vdisk_state_scheme, unit) km" where
  "virtio_disk_intr rd = kdo [
     acquire Lk_vdisk,
     kbind (getR rd 0x060) (\<lambda>st. setR 0x064 (st AND 3)),
     kbind (kget (\<lambda>s. unat (used_ring_idx s - used_idx s))) virtio_intr_loop,
     release Lk_vdisk]"

end
