(* ===== verification/Trap.thy ===== *)
theory Trap
  imports Virtio
begin

section \<open>Traps, interrupts and the system call dispatch\<close>

text \<open>
  \<^verbatim>\<open>kernel/trap.c\<close>, \<^verbatim>\<open>kernel/plic.c\<close>, the dispatch of \<^verbatim>\<open>kernel/syscall.c\<close> and \<^verbatim>\<open>forkret\<close> of
  \<^verbatim>\<open>kernel/proc.c\<close>. The supervisor registers are per hart; of \<^verbatim>\<open>sstatus\<close> the code uses the
  bits \<^verbatim>\<open>SPP\<close>, \<^verbatim>\<open>SPIE\<close> and \<^verbatim>\<open>SIE\<close>, the fields \<open>spp\<close>, \<open>spie\<close> and \<open>sie\<close>. The interrupt
  controller is its registers \<open>plic\<close>: the hardware puts the number of the pending interrupt into
  the claim register. The addresses of the assembly entry points are fields of the state.

  \<^verbatim>\<open>usertrap\<close> ends with \<open>Halt Switch\<close> where the process gives up the CPU on a timer interrupt; it
  continues with \<open>yield_resume\<close> and \<open>usertrap_return\<close>.
\<close>

record trap_state = vdisk_state +
  stvec :: "nat \<Rightarrow> uint64"
  sepc :: "nat \<Rightarrow> uint64"
  scause :: "nat \<Rightarrow> uint64"
  stval :: "nat \<Rightarrow> uint64"
  stimecmp :: "nat \<Rightarrow> uint64"
  rtime :: uint64
  spp :: "nat \<Rightarrow> bool"
  spie :: "nat \<Rightarrow> bool"
  plic :: "uint64 \<Rightarrow> uint32"
  kernelvec_pc :: uint64
  uservec_pc :: uint64
  usertrap_pc :: uint64
  forkret_first :: bool

definition UART0_IRQ :: nat where "UART0_IRQ = 10"
definition VIRTIO0_IRQ :: nat where "VIRTIO0_IRQ = 1"

subsection \<open>Interrupt controller\<close>

definition PLIC_SENABLE :: "nat \<Rightarrow> uint64" where
  "PLIC_SENABLE hart = PLIC + 0x2080 + of_nat hart * 0x100"

definition PLIC_SPRIORITY :: "nat \<Rightarrow> uint64" where
  "PLIC_SPRIORITY hart = PLIC + 0x201000 + of_nat hart * 0x2000"

definition PLIC_SCLAIM :: "nat \<Rightarrow> uint64" where
  "PLIC_SCLAIM hart = PLIC + 0x201004 + of_nat hart * 0x2000"

definition set_plic :: "uint64 \<Rightarrow> uint32 \<Rightarrow> ('z trap_state_scheme, unit) km" where
  "set_plic a v = kmod (\<lambda>s. s\<lparr>plic := (plic s)(a := v)\<rparr>)"

definition plicinit :: "('z trap_state_scheme, unit) km" where
  "plicinit = kdo [
     set_plic (PLIC + of_nat UART0_IRQ * 4) 1,
     set_plic (PLIC + of_nat VIRTIO0_IRQ * 4) 1]"

definition plicinithart :: "('z trap_state_scheme, unit) km" where
  "plicinithart =
     kbind cpuid (\<lambda>hart. kdo [
       set_plic (PLIC_SENABLE hart) (push_bit UART0_IRQ 1 OR push_bit VIRTIO0_IRQ 1),
       set_plic (PLIC_SPRIORITY hart) 0])"

definition plic_claim :: "('z trap_state_scheme, nat) km" where
  "plic_claim = kbind cpuid (\<lambda>hart. kget (\<lambda>s. unat (plic s (PLIC_SCLAIM hart))))"

definition plic_complete :: "nat \<Rightarrow> ('z trap_state_scheme, unit) km" where
  "plic_complete irq = kbind cpuid (\<lambda>hart. set_plic (PLIC_SCLAIM hart) (of_nat irq))"

subsection \<open>Clock and devices\<close>

definition trapinit :: "('z trap_state_scheme, unit) km" where
  "trapinit = initlock Lk_ticks ''time''"

definition w_stvec :: "uint64 \<Rightarrow> ('z trap_state_scheme, unit) km" where
  "w_stvec v = kmod (\<lambda>s. s\<lparr>stvec := (stvec s)(tp s := v)\<rparr>)"

definition w_sepc :: "uint64 \<Rightarrow> ('z trap_state_scheme, unit) km" where
  "w_sepc v = kmod (\<lambda>s. s\<lparr>sepc := (sepc s)(tp s := v)\<rparr>)"

definition trapinithart :: "('z trap_state_scheme, unit) km" where
  "trapinithart = kbind (kget kernelvec_pc) w_stvec"

definition clockintr :: "('z trap_state_scheme, unit) km" where
  "clockintr =
     kbind cpuid (\<lambda>c. kdo [
       kwhen (c = 0) (kdo [
         acquire Lk_ticks,
         kmod (\<lambda>s. s\<lparr>ticks := ticks s + 1\<rparr>),
         wakeup (Some Ch_ticks),
         release Lk_ticks]),
       kmod (\<lambda>s. s\<lparr>stimecmp := (stimecmp s)(tp s := rtime s + 1000000)\<rparr>)])"

definition devintr :: "(nat \<Rightarrow> uint32 \<Rightarrow> uint32) \<Rightarrow> ('z trap_state_scheme, nat) km" where
  "devintr rd =
     kbind (kget (\<lambda>s. scause s (tp s))) (\<lambda>sc.
     if sc = 0x8000000000000009 then
       kbind plic_claim (\<lambda>irq.
       kseq (if irq = UART0_IRQ then uartintr
             else if irq = VIRTIO0_IRQ then virtio_disk_intr rd
             else if irq \<noteq> 0
             then kseq (printf (''unexpected interrupt irq=%d'' @ [CHR 0x0A]) [Vint (of_nat irq)]) kskip
             else kskip) (
       kseq (kwhen (irq \<noteq> 0) (plic_complete irq)) (kret 1)))
     else if sc = 0x8000000000000005 then kseq clockintr (kret 2)
     else kret 0)"

subsection \<open>Dispatch of system calls\<close>

definition syscalls :: "(nat \<times> ('z sys_state_scheme, uint64) km) list" where
  "syscalls = [
     (1, sys_fork), (2, sys_exit), (3, sys_wait), (4, sys_pipe), (5, sys_read), (6, sys_kill),
     (7, sys_exec), (8, sys_fstat), (9, sys_chdir), (10, sys_dup), (11, sys_getpid), (12, sys_sbrk),
     (13, sys_pause), (14, sys_uptime), (15, sys_open), (16, sys_write), (17, sys_mknod),
     (18, sys_unlink), (19, sys_link), (20, sys_mkdir), (21, sys_close)]"

definition syscall :: "('z sys_state_scheme, unit) km" where
  "syscall =
     kbind curproc (\<lambda>p.
     kbind (get_tf p (TF_a 7)) (\<lambda>a7.
     let num = (ucast a7 :: uint32) in
     case (if sint num > 0 then map_of syscalls (unat num) else None) of
       Some f \<Rightarrow> kbind f (\<lambda>v. set_tf p (TF_a 0) v)
     | None \<Rightarrow>
         kbind (kget (\<lambda>s. procs s p)) (\<lambda>x. kdo [
           kseq (printf (''%d %s: unknown sys call %d'' @ [CHR 0x0A])
                  [Vint (ucast (pid x)), Vstr (Some (string_of (pname x))), Vint (ucast num)]) kskip,
           set_tf p (TF_a 0) (-1)])))"

subsection \<open>Traps from user space\<close>

definition prepare_return :: "('z trap_state_scheme, unit) km" where
  "prepare_return =
     kbind curproc (\<lambda>p. kdo [
       intr_off,
       kbind (kget (\<lambda>s. uservec_pc s - trampoline s)) (\<lambda>off. w_stvec (TRAMPOLINE + off)),
       kbind (kget (\<lambda>s. satp s (tp s))) (set_tf p TF_kernel_satp),
       kbind (kget (\<lambda>s. kstack (procs s p) + 4096)) (set_tf p TF_kernel_sp),
       kbind (kget usertrap_pc) (set_tf p TF_kernel_trap),
       kbind (kget (\<lambda>s. of_nat (tp s))) (set_tf p TF_kernel_hartid),
       kmod (\<lambda>s. s\<lparr>spp := (spp s)(tp s := False), spie := (spie s)(tp s := True)\<rparr>),
       kbind (get_tf p TF_epc) w_sepc])"

definition usertrap_return :: "nat \<Rightarrow> ('z trap_state_scheme, uint64) km" where
  "usertrap_return p = kseq prepare_return (kget (\<lambda>s. MAKE_SATP (ppagetable (procs s p))))"

definition usertrap_unexpected :: "nat \<Rightarrow> ('z trap_state_scheme, unit) km" where
  "usertrap_unexpected p =
     kbind (kget (\<lambda>s. (scause s (tp s), pid (procs s p), sepc s (tp s), stval s (tp s)))) (\<lambda>(sc, n, pc, va). kdo [
       kseq (printf (''usertrap(): unexpected scause 0x%lx pid=%d'' @ [CHR 0x0A]) [Vint sc, Vint (ucast n)]) kskip,
       kseq (printf (''            sepc=0x%lx stval=0x%lx'' @ [CHR 0x0A]) [Vint pc, Vint va]) kskip,
       setkilled p])"

text \<open>What happened: the value of \<^verbatim>\<open>which_dev\<close>.\<close>

definition usertrap_handle :: "(nat \<Rightarrow> uint32 \<Rightarrow> uint32) \<Rightarrow> nat \<Rightarrow> ('z trap_state_scheme, nat) km" where
  "usertrap_handle rd p =
     kbind (kget (\<lambda>s. scause s (tp s))) (\<lambda>sc.
     if sc = 8 then
       kbind (killed p) (\<lambda>k.
       kseq (kwhen (k \<noteq> 0) (kexit (-1))) (
       kbind (get_tf p TF_epc) (\<lambda>pc.
       kseq (set_tf p TF_epc (pc + 4)) (
       kseq intr_on (
       kseq syscall (kret 0))))))
     else
       kbind (devintr rd) (\<lambda>d.
       if d \<noteq> 0 then kret d
       else
         kbind (if sc = 15 \<or> sc = 13
                then kbind (kget (\<lambda>s. (ppagetable (procs s p), stval s (tp s)))) (\<lambda>(pt, va). vmfault pt va)
                else kret 0) (\<lambda>pa.
         kseq (kwhen (pa = 0) (usertrap_unexpected p)) (kret 0))))"

definition usertrap :: "(nat \<Rightarrow> uint32 \<Rightarrow> uint32) \<Rightarrow> ('z trap_state_scheme, uint64) km" where
  "usertrap rd =
     kbind (kget (\<lambda>s. spp s (tp s))) (\<lambda>sm.
     kseq (kwhen sm (panic ''usertrap: not from user mode'')) (
     kseq (kbind (kget kernelvec_pc) w_stvec) (
     kbind curproc (\<lambda>p.
     kseq (kbind (kget (\<lambda>s. sepc s (tp s))) (set_tf p TF_epc)) (
     kbind (usertrap_handle rd p) (\<lambda>which_dev.
     kbind (killed p) (\<lambda>k.
     kseq (kwhen (k \<noteq> 0) (kexit (-1))) (
     kseq (kwhen (which_dev = 2) yield)
          (usertrap_return p)))))))))"

subsection \<open>Traps from the kernel\<close>

text \<open>The end of \<^verbatim>\<open>kerneltrap\<close>, which also runs after a \<^verbatim>\<open>yield\<close>: \<open>sm\<close>, \<open>ie\<close> are the saved \<^verbatim>\<open>sstatus\<close>.\<close>

definition kerneltrap_restore :: "uint64 \<Rightarrow> bool \<Rightarrow> bool \<Rightarrow> bool \<Rightarrow> ('z trap_state_scheme, unit) km" where
  "kerneltrap_restore pc sm ie on = kdo [
     w_sepc pc,
     kmod (\<lambda>s. s\<lparr>spp := (spp s)(tp s := sm), spie := (spie s)(tp s := ie), sie := (sie s)(tp s := on)\<rparr>)]"

definition kerneltrap :: "(nat \<Rightarrow> uint32 \<Rightarrow> uint32) \<Rightarrow> ('z trap_state_scheme, unit) km" where
  "kerneltrap rd =
     kbind (kget (\<lambda>s. (sepc s (tp s), spp s (tp s), spie s (tp s), sie s (tp s), scause s (tp s))))
       (\<lambda>(pc, sm, ie, on, sc). kdo [
       kwhen (\<not> sm) (panic ''kerneltrap: not from supervisor mode''),
       kbind intr_get (\<lambda>i. kwhen i (panic ''kerneltrap: interrupts enabled'')),
       kbind (devintr rd) (\<lambda>which_dev. kdo [
         kwhen (which_dev = 0) (
           kbind (kget (\<lambda>s. (sepc s (tp s), stval s (tp s)))) (\<lambda>(pc1, va). kdo [
             kseq (printf (''scause=0x%lx sepc=0x%lx stval=0x%lx'' @ [CHR 0x0A]) [Vint sc, Vint pc1, Vint va]) kskip,
             panic ''kerneltrap''])),
         (if which_dev = 2 then kbind myproc (\<lambda>p. kwhen (p \<noteq> None) yield) else kskip)]),
       kerneltrap_restore pc sm ie on])"

subsection \<open>The first run of a process\<close>

text \<open>\<^verbatim>\<open>forkret\<close>; the value is the page table it returns to user space with.\<close>

definition init_path :: bytes where "init_path = [47, 105, 110, 105, 116]"

definition forkret :: "('z trap_state_scheme, uint64) km" where
  "forkret =
     kbind curproc (\<lambda>p.
     kseq (release (Lk_proc p)) (
     kbind (kget forkret_first) (\<lambda>first.
     kseq (kwhen first (kdo [
       fsinit ROOTDEV,
       kmod (\<lambda>s. s\<lparr>forkret_first := False\<rparr>),
       kbind (kexec init_path [Karg_lit (init_path @ [0])]) (\<lambda>r. set_tf p (TF_a 0) (of_int r)),
       kbind (get_tf p (TF_a 0)) (\<lambda>a. kwhen (a = -1) (panic ''exec''))]))
       (usertrap_return p))))"

end
