(* ===== verification/Asm.thy ===== *)
theory Asm
  imports Proc
begin

section \<open>The assembly files and the machine-mode start\<close>

text \<open>
  \<^verbatim>\<open>kernel/entry.S\<close>, \<^verbatim>\<open>kernel/trampoline.S\<close>, \<^verbatim>\<open>kernel/kernelvec.S\<close>, \<^verbatim>\<open>kernel/swtch.S\<close>,
  \<^verbatim>\<open>kernel/start.c\<close> and the register accessors of \<^verbatim>\<open>kernel/riscv.h\<close>. A hart is its registers,
  control registers, privilege mode, program counter and the memory. An assembly routine is the
  list of its instructions, in the order of the file, and \<open>run\<close> executes it. The instructions
  have the meaning of the RISC-V manual; \<open>tr\<close> is the address translation of the hardware: the
  physical address of a virtual one under a value of \<^verbatim>\<open>satp\<close>.

  Proved: a trap from user space gives every user register back (\<open>trap_restores_user\<close>), a trap in
  the kernel is invisible to the interrupted code (\<open>kernelvec_transparent\<close>), a thread that
  switches away and is switched to again continues with its stack and callee-saved registers
  (\<open>swtch_resumes\<close>), and every hart enters \<^verbatim>\<open>main\<close> in supervisor mode on a stack of its own
  (\<open>boot_harts\<close>).
\<close>

subsection \<open>Registers, instructions\<close>

datatype reg = Ra | Sp | Gp | Tp | T0 | T1 | T2 | S0 | S1 | A0 | A1 | A2 | A3 | A4 | A5 | A6 | A7
  | S2 | S3 | S4 | S5 | S6 | S7 | S8 | S9 | S10 | S11 | T3 | T4 | T5 | T6

datatype csr = MHARTID | MSTATUS | MEPC | SSTATUS | SIP | MIP | SIE | MIE | SEPC | MEDELEG | MIDELEG
  | STVEC | STIMECMP | MENVCFG | PMPCFG0 | PMPADDR0 | SATP | SCAUSE | STVAL | MCOUNTEREN | TIME | SSCRATCH

datatype mode = Umode | Smode | Mmode

record hart =
  xr :: "reg \<Rightarrow> uint64"
  csrf :: "csr \<Rightarrow> uint64"
  hpc :: uint64
  hmode :: mode
  hmem :: memory

text \<open>
  \<^verbatim>\<open>sstatus\<close>, \<^verbatim>\<open>sie\<close> and \<^verbatim>\<open>sip\<close> are no registers of their own: they show the supervisor bits of
  \<^verbatim>\<open>mstatus\<close> and the delegated bits of \<^verbatim>\<open>mie\<close> and \<^verbatim>\<open>mip\<close>.
\<close>

definition view_mask :: "hart \<Rightarrow> csr \<Rightarrow> (csr \<times> uint64) option" where
  "view_mask h c = (case c of
     SSTATUS \<Rightarrow> Some (MSTATUS, 0x80000003000DE762)
   | SIE \<Rightarrow> Some (MIE, csrf h MIDELEG)
   | SIP \<Rightarrow> Some (MIP, csrf h MIDELEG)
   | _ \<Rightarrow> None)"

definition csrr :: "csr \<Rightarrow> hart \<Rightarrow> uint64" where
  "csrr c h = (case view_mask h c of None \<Rightarrow> csrf h c | Some (d, k) \<Rightarrow> and (csrf h d) k)"

definition csrw :: "csr \<Rightarrow> uint64 \<Rightarrow> hart \<Rightarrow> hart" where
  "csrw c v h = (case view_mask h c of
     None \<Rightarrow> h\<lparr>csrf := (csrf h)(c := v)\<rparr>
   | Some (d, k) \<Rightarrow> h\<lparr>csrf := (csrf h)(d := or (and (csrf h d) (not k)) (and v k))\<rparr>)"

definition set_reg :: "reg \<Rightarrow> uint64 \<Rightarrow> hart \<Rightarrow> hart" where
  "set_reg r v h = h\<lparr>xr := (xr h)(r := v)\<rparr>"

datatype instr =
    Sd reg nat reg
  | Ld reg nat reg
  | Li reg uint64
  | Addi reg reg uint64
  | Add reg reg reg
  | Mul reg reg reg
  | Csrw csr reg
  | Csrr reg csr
  | Sfence_vma
  | Jalr reg uint64
  | Call uint64 uint64
  | Ret
  | Sret
  | Mret

text \<open>
  \<open>Jalr r ret\<close> and \<open>Call f ret\<close> carry the address of the next instruction, which they leave in
  \<^verbatim>\<open>ra\<close>. \<open>Sret\<close> and \<open>Mret\<close> pop the privilege and the interrupt enable bits: bits 8, 5 and 1 of
  \<^verbatim>\<open>mstatus\<close> are \<^verbatim>\<open>SPP\<close>, \<^verbatim>\<open>SPIE\<close>, \<^verbatim>\<open>SIE\<close>; bits 11 and 12, 7 and 3 are \<^verbatim>\<open>MPP\<close>, \<^verbatim>\<open>MPIE\<close>, \<^verbatim>\<open>MIE\<close>.
\<close>

definition sret :: "hart \<Rightarrow> hart" where
  "sret h =
     (let st = csrf h MSTATUS in
      h\<lparr>hpc := csrf h SEPC,
        hmode := (if bit st 8 then Smode else Umode),
        csrf := (csrf h)(MSTATUS := unset_bit 8 (set_bit 5 (if bit st 5 then set_bit 1 st else unset_bit 1 st)))\<rparr>)"

definition mret :: "hart \<Rightarrow> hart" where
  "mret h =
     (let st = csrf h MSTATUS in
      h\<lparr>hpc := csrf h MEPC,
        hmode := (if bit st 12 then Mmode else if bit st 11 then Smode else Umode),
        csrf := (csrf h)(MSTATUS := unset_bit 12 (unset_bit 11 (set_bit 7
          (if bit st 7 then set_bit 3 st else unset_bit 3 st))))\<rparr>)"

definition vaddr :: "(uint64 \<Rightarrow> uint64 \<Rightarrow> uint64) \<Rightarrow> hart \<Rightarrow> reg \<Rightarrow> nat \<Rightarrow> uint64" where
  "vaddr tr h b off = tr (csrf h SATP) (xr h b + of_nat off)"

fun step :: "(uint64 \<Rightarrow> uint64 \<Rightarrow> uint64) \<Rightarrow> instr \<Rightarrow> hart \<Rightarrow> hart" where
  "step tr (Sd r off b) h = h\<lparr>hmem := store64 (hmem h) (vaddr tr h b off) (xr h r)\<rparr>"
| "step tr (Ld r off b) h = set_reg r (load64 (hmem h) (vaddr tr h b off)) h"
| "step tr (Li r v) h = set_reg r v h"
| "step tr (Addi r a v) h = set_reg r (xr h a + v) h"
| "step tr (Add r a b) h = set_reg r (xr h a + xr h b) h"
| "step tr (Mul r a b) h = set_reg r (xr h a * xr h b) h"
| "step tr (Csrw c r) h = csrw c (xr h r) h"
| "step tr (Csrr r c) h = set_reg r (csrr c h) h"
| "step tr Sfence_vma h = h"
| "step tr (Jalr r nxt) h = set_reg Ra nxt (h\<lparr>hpc := xr h r\<rparr>)"
| "step tr (Call f nxt) h = set_reg Ra nxt (h\<lparr>hpc := f\<rparr>)"
| "step tr Ret h = h\<lparr>hpc := xr h Ra\<rparr>"
| "step tr Sret h = sret h"
| "step tr Mret h = mret h"

definition run :: "(uint64 \<Rightarrow> uint64 \<Rightarrow> uint64) \<Rightarrow> instr list \<Rightarrow> hart \<Rightarrow> hart" where
  "run tr is h = fold (step tr) is h"

subsection \<open>The routines\<close>

definition uservec :: "uint64 \<Rightarrow> instr list" where
  "uservec userret_pc = [
     Csrw SSCRATCH A0,
     Li A0 TRAPFRAME,
     Sd Ra 40 A0, Sd Sp 48 A0, Sd Gp 56 A0, Sd Tp 64 A0, Sd T0 72 A0, Sd T1 80 A0, Sd T2 88 A0,
     Sd S0 96 A0, Sd S1 104 A0, Sd A1 120 A0, Sd A2 128 A0, Sd A3 136 A0, Sd A4 144 A0, Sd A5 152 A0,
     Sd A6 160 A0, Sd A7 168 A0, Sd S2 176 A0, Sd S3 184 A0, Sd S4 192 A0, Sd S5 200 A0, Sd S6 208 A0,
     Sd S7 216 A0, Sd S8 224 A0, Sd S9 232 A0, Sd S10 240 A0, Sd S11 248 A0, Sd T3 256 A0, Sd T4 264 A0,
     Sd T5 272 A0, Sd T6 280 A0,
     Csrr T0 SSCRATCH,
     Sd T0 112 A0,
     Ld Sp 8 A0,
     Ld Tp 32 A0,
     Ld T0 16 A0,
     Ld T1 0 A0,
     Sfence_vma,
     Csrw SATP T1,
     Sfence_vma,
     Jalr T0 userret_pc]"

definition userret :: "instr list" where
  "userret = [
     Sfence_vma,
     Csrw SATP A0,
     Sfence_vma,
     Li A0 TRAPFRAME,
     Ld Ra 40 A0, Ld Sp 48 A0, Ld Gp 56 A0, Ld Tp 64 A0, Ld T0 72 A0, Ld T1 80 A0, Ld T2 88 A0,
     Ld S0 96 A0, Ld S1 104 A0, Ld A1 120 A0, Ld A2 128 A0, Ld A3 136 A0, Ld A4 144 A0, Ld A5 152 A0,
     Ld A6 160 A0, Ld A7 168 A0, Ld S2 176 A0, Ld S3 184 A0, Ld S4 192 A0, Ld S5 200 A0, Ld S6 208 A0,
     Ld S7 216 A0, Ld S8 224 A0, Ld S9 232 A0, Ld S10 240 A0, Ld S11 248 A0, Ld T3 256 A0, Ld T4 264 A0,
     Ld T5 272 A0, Ld T6 280 A0,
     Ld A0 112 A0,
     Sret]"

text \<open>\<^verbatim>\<open>kernelvec\<close> up to and including the call of \<^verbatim>\<open>kerneltrap\<close>, and from its return on.\<close>

definition kernelvec_save :: "uint64 \<Rightarrow> uint64 \<Rightarrow> instr list" where
  "kernelvec_save kerneltrap_pc nxt = [
     Addi Sp Sp (-256),
     Sd Ra 0 Sp, Sd Gp 16 Sp, Sd Tp 24 Sp, Sd T0 32 Sp, Sd T1 40 Sp, Sd T2 48 Sp,
     Sd A0 72 Sp, Sd A1 80 Sp, Sd A2 88 Sp, Sd A3 96 Sp, Sd A4 104 Sp, Sd A5 112 Sp, Sd A6 120 Sp,
     Sd A7 128 Sp, Sd T3 216 Sp, Sd T4 224 Sp, Sd T5 232 Sp, Sd T6 240 Sp,
     Call kerneltrap_pc nxt]"

definition kernelvec_restore :: "instr list" where
  "kernelvec_restore = [
     Ld Ra 0 Sp, Ld Gp 16 Sp, Ld T0 32 Sp, Ld T1 40 Sp, Ld T2 48 Sp,
     Ld A0 72 Sp, Ld A1 80 Sp, Ld A2 88 Sp, Ld A3 96 Sp, Ld A4 104 Sp, Ld A5 112 Sp, Ld A6 120 Sp,
     Ld A7 128 Sp, Ld T3 216 Sp, Ld T4 224 Sp, Ld T5 232 Sp, Ld T6 240 Sp,
     Addi Sp Sp 256,
     Sret]"

definition swtch :: "instr list" where
  "swtch = [
     Sd Ra 0 A0, Sd Sp 8 A0, Sd S0 16 A0, Sd S1 24 A0, Sd S2 32 A0, Sd S3 40 A0, Sd S4 48 A0,
     Sd S5 56 A0, Sd S6 64 A0, Sd S7 72 A0, Sd S8 80 A0, Sd S9 88 A0, Sd S10 96 A0, Sd S11 104 A0,
     Ld Ra 0 A1, Ld Sp 8 A1, Ld S0 16 A1, Ld S1 24 A1, Ld S2 32 A1, Ld S3 40 A1, Ld S4 48 A1,
     Ld S5 56 A1, Ld S6 64 A1, Ld S7 72 A1, Ld S8 80 A1, Ld S9 88 A1, Ld S10 96 A1, Ld S11 104 A1,
     Ret]"

definition entry :: "uint64 \<Rightarrow> uint64 \<Rightarrow> uint64 \<Rightarrow> instr list" where
  "entry stack0 start_pc spin = [
     Li Sp stack0,
     Li A0 (1024 * 4),
     Csrr A1 MHARTID,
     Addi A1 A1 1,
     Mul A0 A0 A1,
     Add Sp Sp A0,
     Call start_pc spin]"

subsection \<open>Register accessors\<close>

definition r_mhartid :: "hart \<Rightarrow> uint64" where "r_mhartid = csrr MHARTID"
definition r_mstatus :: "hart \<Rightarrow> uint64" where "r_mstatus = csrr MSTATUS"
definition w_mstatus :: "uint64 \<Rightarrow> hart \<Rightarrow> hart" where "w_mstatus = csrw MSTATUS"
definition w_mepc :: "uint64 \<Rightarrow> hart \<Rightarrow> hart" where "w_mepc = csrw MEPC"
definition r_sie :: "hart \<Rightarrow> uint64" where "r_sie = csrr SIE"
definition w_sie :: "uint64 \<Rightarrow> hart \<Rightarrow> hart" where "w_sie = csrw SIE"
definition r_mie :: "hart \<Rightarrow> uint64" where "r_mie = csrr MIE"
definition w_mie :: "uint64 \<Rightarrow> hart \<Rightarrow> hart" where "w_mie = csrw MIE"
definition w_medeleg :: "uint64 \<Rightarrow> hart \<Rightarrow> hart" where "w_medeleg = csrw MEDELEG"
definition w_mideleg :: "uint64 \<Rightarrow> hart \<Rightarrow> hart" where "w_mideleg = csrw MIDELEG"
definition w_stimecmp :: "uint64 \<Rightarrow> hart \<Rightarrow> hart" where "w_stimecmp = csrw STIMECMP"
definition r_menvcfg :: "hart \<Rightarrow> uint64" where "r_menvcfg = csrr MENVCFG"
definition w_menvcfg :: "uint64 \<Rightarrow> hart \<Rightarrow> hart" where "w_menvcfg = csrw MENVCFG"
definition w_pmpcfg0 :: "uint64 \<Rightarrow> hart \<Rightarrow> hart" where "w_pmpcfg0 = csrw PMPCFG0"
definition w_pmpaddr0 :: "uint64 \<Rightarrow> hart \<Rightarrow> hart" where "w_pmpaddr0 = csrw PMPADDR0"
definition w_satp :: "uint64 \<Rightarrow> hart \<Rightarrow> hart" where "w_satp = csrw SATP"
definition r_mcounteren :: "hart \<Rightarrow> uint64" where "r_mcounteren = csrr MCOUNTEREN"
definition w_mcounteren :: "uint64 \<Rightarrow> hart \<Rightarrow> hart" where "w_mcounteren = csrw MCOUNTEREN"
definition r_time :: "hart \<Rightarrow> uint64" where "r_time = csrr TIME"
definition w_tp :: "uint64 \<Rightarrow> hart \<Rightarrow> hart" where "w_tp = set_reg Tp"

lemmas accessor_defs = r_mhartid_def r_mstatus_def w_mstatus_def w_mepc_def r_sie_def w_sie_def
  r_mie_def w_mie_def w_medeleg_def w_mideleg_def w_stimecmp_def r_menvcfg_def w_menvcfg_def
  w_pmpcfg0_def w_pmpaddr0_def w_satp_def r_mcounteren_def w_mcounteren_def r_time_def w_tp_def

definition MSTATUS_MPP_MASK :: uint64 where "MSTATUS_MPP_MASK = push_bit 11 3"
definition MSTATUS_MPP_S :: uint64 where "MSTATUS_MPP_S = push_bit 11 1"
definition SIE_SEIE :: uint64 where "SIE_SEIE = push_bit 9 1"
definition SIE_STIE :: uint64 where "SIE_STIE = push_bit 5 1"
definition MIE_STIE :: uint64 where "MIE_STIE = push_bit 5 1"

subsection \<open>start.c\<close>

definition timerinit :: "hart \<Rightarrow> hart" where
  "timerinit h0 =
     (let h1 = w_mie (or (r_mie h0) MIE_STIE) h0;
          h2 = w_menvcfg (or (r_menvcfg h1) (push_bit 63 1)) h1;
          h3 = w_mcounteren (or (r_mcounteren h2) 2) h2
      in w_stimecmp (r_time h3 + 1000000) h3)"

text \<open>\<open>int id = r_mhartid()\<close> keeps the low 32 bits of the hart's number, as a signed number.\<close>

definition start :: "uint64 \<Rightarrow> hart \<Rightarrow> hart" where
  "start main_pc h0 =
     (let h1 = w_mstatus (or (and (r_mstatus h0) (not MSTATUS_MPP_MASK)) MSTATUS_MPP_S) h0;
          h2 = w_mepc main_pc h1;
          h3 = w_satp 0 h2;
          h4 = w_medeleg 0xffff h3;
          h5 = w_mideleg 0xffff h4;
          h6 = w_sie (or (or (r_sie h5) SIE_SEIE) SIE_STIE) h5;
          h7 = w_pmpaddr0 0x3fffffffffffff h6;
          h8 = w_pmpcfg0 0xf h7;
          h9 = timerinit h8;
          id = (ucast (r_mhartid h9) :: uint32)
      in mret (w_tp (scast id) h9))"

subsection \<open>Blocks of stores and loads\<close>

text \<open>The address of a slot of a table of eight-byte slots at \<open>base\<close>.\<close>

lemma slots_apart:
  assumes "8 dvd o1" "8 dvd o2" "o1 < 4096" "o2 < 4096" "o1 \<noteq> o2"
  shows "load64 (store64 m (base + of_nat o2) w) (base + of_nat o1) = load64 m (base + of_nat o1)"
proof -
  have u: "unat (of_nat o1 :: uint64) = o1" "unat (of_nat o2 :: uint64) = o2"
    using assms by (simp_all add: unat_of_nat take_bit_nat_eq_self)
  have ne: "(of_nat o1 :: uint64) \<noteq> of_nat o2" using u assms by metis
  have "8 \<le> unat (of_nat o1 + of_nat i - of_nat o2 :: uint64)" if "i < 8" for i
    by (rule dvd_apart) (use assms that u ne in simp_all)
  then have "disjoint_range (base + of_nat o1) 8 (base + of_nat o2) (length (le_bytes 8 w))"
    by (simp add: disjoint_range_def add.assoc)
  then show ?thesis by (simp add: store64_def load64_write_other)
qed

definition saves :: "(reg \<times> nat) list \<Rightarrow> reg \<Rightarrow> instr list" where
  "saves tb b = map (\<lambda>(r, off). Sd r off b) tb"

definition loads :: "(reg \<times> nat) list \<Rightarrow> reg \<Rightarrow> instr list" where
  "loads tb b = map (\<lambda>(r, off). Ld r off b) tb"

definition slots :: "(reg \<times> nat) list \<Rightarrow> bool" where
  "slots tb \<longleftrightarrow> distinct (map fst tb) \<and> distinct (map snd tb) \<and> (\<forall>(r, off) \<in> set tb. 8 dvd off \<and> off < 4096)"

text \<open>\<open>tr\<close> maps the table at the address in \<open>b\<close> to the physical address \<open>base\<close>.\<close>

definition maps_to :: "(uint64 \<Rightarrow> uint64 \<Rightarrow> uint64) \<Rightarrow> uint64 \<Rightarrow> uint64 \<Rightarrow> uint64 \<Rightarrow> nat \<Rightarrow> bool" where
  "maps_to tr pt va pa n \<longleftrightarrow> (\<forall>off<n. tr pt (va + of_nat off) = pa + of_nat off)"

definition stored :: "(reg \<times> nat) list \<Rightarrow> (reg \<Rightarrow> uint64) \<Rightarrow> uint64 \<Rightarrow> memory \<Rightarrow> memory" where
  "stored tb f base m = fold (\<lambda>(r, off) m. store64 m (base + of_nat off) (f r)) tb m"

definition loaded :: "(reg \<times> nat) list \<Rightarrow> memory \<Rightarrow> uint64 \<Rightarrow> (reg \<Rightarrow> uint64) \<Rightarrow> reg \<Rightarrow> uint64" where
  "loaded tb m base f r = (case map_of tb r of None \<Rightarrow> f r | Some off \<Rightarrow> load64 m (base + of_nat off))"

lemma run_append [simp]: "run tr (is @ js) h = run tr js (run tr is h)"
  by (simp add: run_def)

lemma run_Cons [simp]: "run tr (i # is) h = run tr is (step tr i h)"
  by (simp add: run_def)

lemma run_Nil [simp]: "run tr [] h = h"
  by (simp add: run_def)

lemma slots_Cons:
  "slots ((r, off) # tb) \<longleftrightarrow> r \<notin> fst ` set tb \<and> off \<notin> snd ` set tb \<and> 8 dvd off \<and> off < 4096 \<and> slots tb"
  by (auto simp: slots_def)

lemma run_saves:
  assumes "maps_to tr (csrf h SATP) (xr h b) base n" "\<forall>(r, off) \<in> set tb. off < n"
  shows "run tr (saves tb b) h = h\<lparr>hmem := stored tb (xr h) base (hmem h)\<rparr>"
  using assms
  by (induction tb arbitrary: h) (auto simp: saves_def stored_def vaddr_def maps_to_def)

lemma run_loads:
  assumes "maps_to tr (csrf h SATP) (xr h b) base n" "\<forall>(r, off) \<in> set tb. off < n"
    and "slots tb" "b \<notin> fst ` set tb"
  shows "run tr (loads tb b) h = h\<lparr>xr := loaded tb (hmem h) base (xr h)\<rparr>"
  using assms
proof (induction tb arbitrary: h)
  case Nil
  then show ?case by (simp add: loads_def loaded_def)
next
  case (Cons a tb)
  obtain r off where a: "a = (r, off)" by fastforce
  let ?h = "set_reg r (load64 (hmem h) (base + of_nat off)) h"
  have "run tr (loads tb b) ?h = ?h\<lparr>xr := loaded tb (hmem ?h) base (xr ?h)\<rparr>"
    using Cons.prems by (intro Cons.IH) (auto simp: a set_reg_def slots_Cons)
  moreover have "step tr (Ld r off b) h = ?h"
    using Cons.prems by (auto simp: a vaddr_def maps_to_def)
  moreover have "loaded tb (hmem ?h) base (xr ?h) = loaded (a # tb) (hmem h) base (xr h)"
  proof (rule ext)
    fix x
    have "map_of tb r = None" using Cons.prems by (simp add: a slots_Cons map_of_eq_None_iff)
    then show "loaded tb (hmem ?h) base (xr ?h) x = loaded (a # tb) (hmem h) base (xr h) x"
      by (cases "x = r") (auto simp: a loaded_def set_reg_def split: option.splits)
  qed
  ultimately show ?case by (simp add: loads_def a set_reg_def)
qed

lemma stored_other:
  assumes "slots tb" "8 dvd off" "off < 4096" "off \<notin> snd ` set tb"
  shows "load64 (stored tb f base m) (base + of_nat off) = load64 m (base + of_nat off)"
  using assms
  by (induction tb arbitrary: m) (auto simp: stored_def slots_Cons slots_apart)

lemma stored_slot:
  assumes "slots tb" "(r, off) \<in> set tb"
  shows "load64 (stored tb f base m) (base + of_nat off) = f r"
  using assms
proof (induction tb arbitrary: m)
  case (Cons a tb)
  obtain r1 o1 where a: "a = (r1, o1)" by fastforce
  show ?case
  proof (cases "(r, off) = a")
    case True
    have "load64 (stored tb f base (store64 m (base + of_nat off) (f r))) (base + of_nat off) = f r"
      using Cons.prems True a by (subst stored_other) (auto simp: slots_Cons)
    then show ?thesis using True by (auto simp: stored_def)
  next
    case False
    then show ?thesis using Cons by (auto simp: stored_def a slots_Cons)
  qed
qed simp

subsection \<open>The tables of the routines\<close>

definition frame :: "(reg \<times> nat) list" where
  "frame = [
     (Ra, 40), (Sp, 48), (Gp, 56), (Tp, 64), (T0, 72), (T1, 80), (T2, 88), (S0, 96), (S1, 104), (A1, 120),
     (A2, 128), (A3, 136), (A4, 144), (A5, 152), (A6, 160), (A7, 168), (S2, 176), (S3, 184), (S4, 192), (S5, 200),
     (S6, 208), (S7, 216), (S8, 224), (S9, 232), (S10, 240), (S11, 248), (T3, 256), (T4, 264), (T5, 272), (T6, 280)]"

definition kframe :: "(reg \<times> nat) list" where
  "kframe = [
     (Ra, 0), (Gp, 16), (T0, 32), (T1, 40), (T2, 48), (A0, 72), (A1, 80), (A2, 88), (A3, 96), (A4, 104),
     (A5, 112), (A6, 120), (A7, 128), (T3, 216), (T4, 224), (T5, 232), (T6, 240)]"

definition ksaved :: "(reg \<times> nat) list" where
  "ksaved = (Ra, 0) # (Gp, 16) # (Tp, 24) # drop 2 kframe"

definition ctx :: "(reg \<times> nat) list" where
  "ctx = [
     (Ra, 0), (Sp, 8), (S0, 16), (S1, 24), (S2, 32), (S3, 40), (S4, 48), (S5, 56), (S6, 64), (S7, 72),
     (S8, 80), (S9, 88), (S10, 96), (S11, 104)]"

lemma uservec_eq:
  "uservec nxt = [Csrw SSCRATCH A0, Li A0 TRAPFRAME] @ saves frame A0 @
     [Csrr T0 SSCRATCH, Sd T0 112 A0, Ld Sp 8 A0, Ld Tp 32 A0, Ld T0 16 A0, Ld T1 0 A0,
      Sfence_vma, Csrw SATP T1, Sfence_vma, Jalr T0 nxt]"
  by (simp add: uservec_def saves_def frame_def)

lemma userret_eq:
  "userret = [Sfence_vma, Csrw SATP A0, Sfence_vma, Li A0 TRAPFRAME] @ loads frame A0 @ [Ld A0 112 A0, Sret]"
  by (simp add: userret_def loads_def frame_def)

lemma kernelvec_save_eq:
  "kernelvec_save f nxt = [Addi Sp Sp (-256)] @ saves ksaved Sp @ [Call f nxt]"
  by (simp add: kernelvec_save_def saves_def kframe_def ksaved_def)

lemma kernelvec_restore_eq: "kernelvec_restore = loads kframe Sp @ [Addi Sp Sp 256, Sret]"
  by (simp add: kernelvec_restore_def loads_def kframe_def)

lemma swtch_eq: "swtch = saves ctx A0 @ loads ctx A1 @ [Ret]"
  by (simp add: swtch_def saves_def loads_def ctx_def)

lemma frame_slots: "slots ((A0, 112) # frame)" "slots frame" "A0 \<notin> fst ` set frame"
  "\<forall>(r, off) \<in> set frame. off < 4096"
  by (simp_all add: slots_def frame_def)

subsection \<open>Traps from user space\<close>

lemma reg_slot: obtains off where "(r, off) \<in> set ((A0, 112) # frame)" "8 dvd off" "off < 4096"
  by (cases r) (auto simp: frame_def)

lemma csrw_plain [simp]:
  "csrw SATP v h = h\<lparr>csrf := (csrf h)(SATP := v)\<rparr>"
  "csrw SSCRATCH v h = h\<lparr>csrf := (csrf h)(SSCRATCH := v)\<rparr>"
  by (simp_all add: csrw_def view_mask_def)

lemma csrr_plain [simp]: "csrr SSCRATCH h = csrf h SSCRATCH" "csrr MHARTID h = csrf h MHARTID"
  by (simp_all add: csrr_def view_mask_def)

lemma maps_toD: "maps_to tr pt va pa n \<Longrightarrow> off < n \<Longrightarrow> tr pt (va + of_nat off) = pa + of_nat off"
  by (simp add: maps_to_def)

lemma maps_to_vaddr:
  "maps_to tr (csrf h SATP) (xr h b) pa n \<Longrightarrow> off < n \<Longrightarrow> vaddr tr h b off = pa + of_nat off"
  by (simp add: vaddr_def maps_to_def)

text \<open>The memory \<^verbatim>\<open>uservec\<close> leaves, and the state it calls \<^verbatim>\<open>usertrap\<close> in.\<close>

definition trap_mem :: "uint64 \<Rightarrow> hart \<Rightarrow> memory" where
  "trap_mem tf h = store64 (stored frame ((xr h)(A0 := TRAPFRAME)) tf (hmem h)) (tf + of_nat 112) (xr h A0)"

lemma trap_mem_slot:
  assumes "(r, off) \<in> set ((A0, 112) # frame)"
  shows "load64 (trap_mem tf h) (tf + of_nat off) = xr h r"
proof (cases "(r, off) = (A0, 112)")
  case True
  then show ?thesis by (auto simp: trap_mem_def simp del: of_nat_numeral)
next
  case False
  then have m: "(r, off) \<in> set frame" using assms by auto
  then have "8 dvd off" "off < 4096" "off \<noteq> 112" "r \<noteq> A0"
    using frame_slots(1) by (force simp: slots_Cons slots_def)+
  then show ?thesis using stored_slot [OF frame_slots(2) m]
    by (simp add: trap_mem_def slots_apart del: of_nat_numeral)
qed

lemma trap_mem_kernel:
  assumes "8 dvd off" "off < 40"
  shows "load64 (trap_mem tf h) (tf + of_nat off) = load64 (hmem h) (tf + of_nat off)"
proof -
  have "off \<notin> snd ` set frame" using assms by (auto simp: frame_def)
  then show ?thesis
    using assms frame_slots(2) by (simp add: trap_mem_def slots_apart stored_other del: of_nat_numeral)
qed

lemma uservec_run:
  assumes "maps_to tr (csrf h SATP) TRAPFRAME tf 4096"
    and h1_def: "h1 = run tr (uservec nxt) h"
  shows "hmem h1 = trap_mem tf h"
    and "xr h1 Sp = load64 (hmem h) (tf + 8)" and "xr h1 Tp = load64 (hmem h) (tf + 32)"
    and "hpc h1 = load64 (hmem h) (tf + 16)" and "csrf h1 SATP = load64 (hmem h) tf"
    and "csrf h1 MSTATUS = csrf h MSTATUS"
proof -
  let ?h = "h\<lparr>csrf := (csrf h)(SSCRATCH := xr h A0), xr := (xr h)(A0 := TRAPFRAME)\<rparr>"
  let ?s = "?h\<lparr>hmem := stored frame (xr ?h) tf (hmem h)\<rparr>"
  have "run tr (saves frame A0) ?h = ?s"
    using assms(1) frame_slots(4) by (subst run_saves [where base = tf and n = 4096]) auto
  moreover have "vaddr tr g A0 off = tf + of_nat off"
    if "csrf g SATP = csrf h SATP" "xr g A0 = TRAPFRAME" "off < 4096" for g off
    using that assms(1) by (simp add: vaddr_def maps_to_def)
  ultimately have all: "hmem h1 = trap_mem tf h \<and> xr h1 Sp = load64 (trap_mem tf h) (tf + of_nat 8)
    \<and> xr h1 Tp = load64 (trap_mem tf h) (tf + of_nat 32) \<and> hpc h1 = load64 (trap_mem tf h) (tf + of_nat 16)
    \<and> csrf h1 SATP = load64 (trap_mem tf h) (tf + of_nat 0) \<and> csrf h1 MSTATUS = csrf h MSTATUS"
    by (simp add: h1_def uservec_eq set_reg_def trap_mem_def del: of_nat_numeral)
  then show "hmem h1 = trap_mem tf h" "csrf h1 MSTATUS = csrf h MSTATUS" by simp_all
  show "xr h1 Sp = load64 (hmem h) (tf + 8)" "xr h1 Tp = load64 (hmem h) (tf + 32)"
    "hpc h1 = load64 (hmem h) (tf + 16)" "csrf h1 SATP = load64 (hmem h) tf"
    using all trap_mem_kernel [of 8 tf h] trap_mem_kernel [of 32 tf h] trap_mem_kernel [of 16 tf h]
      trap_mem_kernel [of 0 tf h] by simp_all
qed

lemma userret_run:
  assumes "maps_to tr (xr h A0) TRAPFRAME tf 4096"
    and h3_def: "h3 = run tr userret h"
  shows "(r, off) \<in> set ((A0, 112) # frame) \<Longrightarrow> xr h3 r = load64 (hmem h) (tf + of_nat off)"
    and "csrf h3 SATP = xr h A0" and "hpc h3 = csrf h SEPC"
    and "hmode h3 = (if bit (csrf h MSTATUS) 8 then Smode else Umode)"
    and "bit (csrf h3 MSTATUS) 1 = bit (csrf h MSTATUS) 5"
proof -
  let ?h = "h\<lparr>csrf := (csrf h)(SATP := xr h A0), xr := (xr h)(A0 := TRAPFRAME)\<rparr>"
  let ?l = "?h\<lparr>xr := loaded frame (hmem h) tf (xr ?h)\<rparr>"
  have l: "run tr (loads frame A0) ?h = ?l"
    using assms(1) frame_slots by (subst run_loads [where base = tf and n = 4096]) auto
  have a: "loaded frame (hmem h) tf ((xr h)(A0 := TRAPFRAME)) A0 = TRAPFRAME"
    by (simp add: loaded_def frame_def)
  have v: "vaddr tr ?l A0 112 = tf + of_nat 112"
    using assms(1) a by (simp add: vaddr_def maps_to_def del: of_nat_numeral)
  have h3: "h3 = sret (set_reg A0 (load64 (hmem h) (tf + of_nat 112)) ?l)"
    using l v by (simp add: h3_def userret_eq set_reg_def del: of_nat_numeral)
  show "csrf h3 SATP = xr h A0" "hpc h3 = csrf h SEPC"
    "hmode h3 = (if bit (csrf h MSTATUS) 8 then Smode else Umode)"
    "bit (csrf h3 MSTATUS) 1 = bit (csrf h MSTATUS) 5"
    by (simp_all add: h3 sret_def set_reg_def Let_def bit_unset_bit_iff bit_set_bit_iff)
  show "xr h3 r = load64 (hmem h) (tf + of_nat off)" if m: "(r, off) \<in> set ((A0, 112) # frame)"
  proof (cases "r = A0")
    case True
    then show ?thesis using m frame_slots(3) by (force simp: h3 sret_def set_reg_def Let_def)
  next
    case False
    then have "map_of frame r = Some off" using m frame_slots(2) by (simp add: slots_def)
    then show ?thesis using False by (simp add: h3 sret_def set_reg_def Let_def loaded_def)
  qed
qed

subsection \<open>Traps in the kernel\<close>

lemma load64_cong:
  "(\<And>i. i < 8 \<Longrightarrow> m (a + of_nat i) = m' (a + of_nat i)) \<Longrightarrow> load64 m a = load64 m' a"
  unfolding load64_def mem_read_def by (intro arg_cong [where f = le_word] map_cong) auto

lemma same_slot:
  assumes "\<forall>i<n. m (base + of_nat i) = m' (base + of_nat i)" "off + 8 \<le> n"
  shows "load64 m (base + of_nat off) = load64 m' (base + of_nat off)"
proof (rule load64_cong)
  fix i :: nat assume "i < 8"
  then have "m (base + of_nat (off + i)) = m' (base + of_nat (off + i))" using assms by (simp del: of_nat_add)
  then show "m (base + of_nat off + of_nat i) = m' (base + of_nat off + of_nat i)"
    by (simp add: add.assoc)
qed

lemma kframe_slots: "slots ksaved" "slots kframe" "Sp \<notin> fst ` set kframe" "set kframe \<subseteq> set ksaved"
  "\<forall>(r, off) \<in> set ksaved. off + 8 \<le> 256"
  by (simp_all add: slots_def kframe_def ksaved_def)

lemma kernelvec_save_run:
  assumes "maps_to tr (csrf h SATP) (xr h Sp - 256) base 256"
    and h1: "h1 = run tr (kernelvec_save kt nxt) h"
  shows "(r, off) \<in> set ksaved \<Longrightarrow> load64 (hmem h1) (base + of_nat off) = xr h r"
    and "xr h1 Sp = xr h Sp - 256" and "r \<noteq> Sp \<Longrightarrow> r \<noteq> Ra \<Longrightarrow> xr h1 r = xr h r" and "hpc h1 = kt"
    and "csrf h1 = csrf h"
proof -
  let ?h = "h\<lparr>xr := (xr h)(Sp := xr h Sp - 256)\<rparr>"
  have "run tr (saves ksaved Sp) ?h = ?h\<lparr>hmem := stored ksaved (xr ?h) base (hmem h)\<rparr>"
    using assms(1) kframe_slots(5) by (subst run_saves [where base = base and n = 256]) auto
  then have e: "h1 = ?h\<lparr>hmem := stored ksaved (xr ?h) base (hmem h), hpc := kt, xr := (xr ?h)(Ra := nxt)\<rparr>"
    by (simp add: h1 kernelvec_save_eq set_reg_def)
  show "xr h1 Sp = xr h Sp - 256" "hpc h1 = kt" "csrf h1 = csrf h" by (simp_all add: e)
  show "xr h1 r = xr h r" if "r \<noteq> Sp" "r \<noteq> Ra" using that by (simp add: e)
  show "load64 (hmem h1) (base + of_nat off) = xr h r" if m: "(r, off) \<in> set ksaved"
  proof -
    have "r \<noteq> Sp" using m by (auto simp: ksaved_def kframe_def)
    then show ?thesis using stored_slot [OF kframe_slots(1) m] by (simp add: e)
  qed
qed

lemma kernelvec_restore_run:
  assumes "maps_to tr (csrf h SATP) (xr h Sp) base 256"
    and h1: "h1 = run tr kernelvec_restore h"
  shows "(r, off) \<in> set kframe \<Longrightarrow> xr h1 r = load64 (hmem h) (base + of_nat off)"
    and "xr h1 Sp = xr h Sp + 256" and "r \<noteq> Sp \<Longrightarrow> r \<notin> fst ` set kframe \<Longrightarrow> xr h1 r = xr h r"
    and "hpc h1 = csrf h SEPC" and "hmode h1 = (if bit (csrf h MSTATUS) 8 then Smode else Umode)"
proof -
  have "run tr (loads kframe Sp) h = h\<lparr>xr := loaded kframe (hmem h) base (xr h)\<rparr>"
    using assms(1) kframe_slots by (subst run_loads [where base = base and n = 256]) fastforce+
  moreover have sp: "loaded kframe (hmem h) base (xr h) Sp = xr h Sp"
    by (simp add: loaded_def kframe_def)
  ultimately have e: "h1 = sret (h\<lparr>xr := (loaded kframe (hmem h) base (xr h))(Sp := xr h Sp + 256)\<rparr>)"
    by (simp add: h1 kernelvec_restore_eq set_reg_def)
  show "xr h1 Sp = xr h Sp + 256" "hpc h1 = csrf h SEPC"
    "hmode h1 = (if bit (csrf h MSTATUS) 8 then Smode else Umode)"
    by (simp_all add: e sret_def Let_def)
  show "xr h1 r = load64 (hmem h) (base + of_nat off)" if m: "(r, off) \<in> set kframe"
  proof -
    have "r \<noteq> Sp" using m kframe_slots(3) by force
    moreover have "map_of kframe r = Some off" using m kframe_slots(2) by (simp add: slots_def)
    ultimately show ?thesis by (simp add: e sret_def Let_def loaded_def)
  qed
  show "xr h1 r = xr h r" if "r \<noteq> Sp" "r \<notin> fst ` set kframe"
  proof -
    have "map_of kframe r = None" using that by (simp add: map_of_eq_None_iff)
    then show ?thesis using that by (simp add: e sret_def Let_def loaded_def)
  qed
qed

subsection \<open>Context switches\<close>

definition callee_saved_regs :: "reg list" where
  "callee_saved_regs = [S0, S1, S2, S3, S4, S5, S6, S7, S8, S9, S10, S11]"

lemma ctx_slots: "slots ctx" "A1 \<notin> fst ` set ctx" "\<forall>(r, off) \<in> set ctx. off + 8 \<le> 112"
  "fst ` set ctx = {Ra, Sp} \<union> set callee_saved_regs"
  by (auto simp: slots_def ctx_def callee_saved_regs_def)

lemma stored_apart:
  assumes "\<forall>(r, off) \<in> set tb. off + 8 \<le> n" "disjoint_range q k p n" "off + 8 \<le> k"
  shows "load64 (stored tb f p m) (q + of_nat off) = load64 m (q + of_nat off)"
  using assms(1)
proof (induction tb arbitrary: m)
  case (Cons a tb)
  obtain r o1 where a: "a = (r, o1)" by fastforce
  have "8 \<le> unat (q + of_nat off + of_nat i - (p + of_nat o1))" if "i < 8" for i
  proof -
    let ?x = "q + of_nat (off + i) - p"
    have n: "n \<le> unat ?x" using assms(2,3) that by (simp add: disjoint_range_def del: of_nat_add)
    have o1: "o1 + 8 \<le> n" using Cons.prems a by simp
    with n have "o1 < 2 ^ 64" using unat64_less [of ?x] by linarith
    then have u: "unat (of_nat o1 :: uint64) = o1" by (simp add: unat_of_nat take_bit_nat_eq_self)
    have "q + of_nat off + of_nat i - (p + of_nat o1) = ?x - of_nat o1" by (simp add: algebra_simps)
    moreover have "unat (?x - of_nat o1) = unat ?x - o1"
      using n o1 u by (subst unat_sub) (simp_all add: word_le_nat_alt)
    ultimately have "unat (q + of_nat off + of_nat i - (p + of_nat o1)) = unat ?x - o1" by metis
    then show ?thesis using n o1 by linarith
  qed
  then have "load64 (store64 m (p + of_nat o1) (f r)) (q + of_nat off) = load64 m (q + of_nat off)"
    by (simp add: store64_def load64_write_other disjoint_range_def)
  then show ?case using Cons by (simp add: stored_def a)
qed (simp add: stored_def)

lemma swtch_run:
  assumes "maps_to tr (csrf h SATP) (xr h A0) old 112" "maps_to tr (csrf h SATP) (xr h A1) new 112"
    and "disjoint_range new 112 old 112" and h1: "h1 = run tr swtch h"
  shows "(r, off) \<in> set ctx \<Longrightarrow> load64 (hmem h1) (old + of_nat off) = xr h r"
    and "(r, off) \<in> set ctx \<Longrightarrow> xr h1 r = load64 (hmem h) (new + of_nat off)"
    and "hpc h1 = load64 (hmem h) new" and "csrf h1 = csrf h"
proof -
  let ?h = "h\<lparr>hmem := stored ctx (xr h) old (hmem h)\<rparr>"
  have "run tr (saves ctx A0) h = ?h"
    using assms(1) ctx_slots(3) by (subst run_saves [where base = old and n = 112]) auto
  moreover have "run tr (loads ctx A1) ?h = ?h\<lparr>xr := loaded ctx (hmem ?h) new (xr h)\<rparr>"
    using assms(2) ctx_slots by (subst run_loads [where base = new and n = 112]) auto
  ultimately have e: "h1 = ?h\<lparr>xr := loaded ctx (hmem ?h) new (xr h),
      hpc := loaded ctx (hmem ?h) new (xr h) Ra\<rparr>"
    by (simp add: h1 swtch_eq)
  show "csrf h1 = csrf h" by (simp add: e)
  show "load64 (hmem h1) (old + of_nat off) = xr h r" if "(r, off) \<in> set ctx"
    using stored_slot [OF ctx_slots(1) that] by (simp add: e)
  have other: "load64 (hmem ?h) (new + of_nat off) = load64 (hmem h) (new + of_nat off)"
    if "off + 8 \<le> 112" for off
    using stored_apart [OF ctx_slots(3) assms(3) that] by simp
  show ld: "xr h1 r = load64 (hmem h) (new + of_nat off)" if m: "(r, off) \<in> set ctx" for r off
  proof -
    have "map_of ctx r = Some off" using m ctx_slots(1) by (simp add: slots_def)
    then show ?thesis using m ctx_slots(3) other [of off] by (auto simp: e loaded_def)
  qed
  show "hpc h1 = load64 (hmem h) new" using ld [of Ra 0] by (simp add: e ctx_def)
qed

subsection \<open>Boot\<close>

lemma csrr_same [simp]: "c \<notin> {SSTATUS, SIE, SIP} \<Longrightarrow> csrr c h = csrf h c"
  by (cases c) (simp_all add: csrr_def view_mask_def)

lemma csrw_same [simp]: "c \<notin> {SSTATUS, SIE, SIP} \<Longrightarrow> csrw c v h = h\<lparr>csrf := (csrf h)(c := v)\<rparr>"
  by (cases c) (simp_all add: csrw_def view_mask_def)

lemma csr_sie [simp]:
  "csrr SIE h = and (csrf h MIE) (csrf h MIDELEG)"
  "csrw SIE v h = h\<lparr>csrf := (csrf h)(MIE := or (and (csrf h MIE) (not (csrf h MIDELEG))) (and v (csrf h MIDELEG)))\<rparr>"
  by (simp_all add: csrr_def csrw_def view_mask_def)

lemma timerinit_eq:
  "timerinit h = h\<lparr>csrf := (csrf h)(MIE := or (csrf h MIE) MIE_STIE, MENVCFG := or (csrf h MENVCFG) (push_bit 63 1),
     MCOUNTEREN := or (csrf h MCOUNTEREN) 2, STIMECMP := csrf h TIME + 1000000)\<rparr>"
  by (simp add: timerinit_def accessor_defs Let_def)

definition booted :: "uint64 \<Rightarrow> hart \<Rightarrow> csr \<Rightarrow> uint64" where
  "booted main_pc h = (csrf h)(
     MSTATUS := or (and (csrf h MSTATUS) (not MSTATUS_MPP_MASK)) MSTATUS_MPP_S,
     MEPC := main_pc, SATP := 0, MEDELEG := 0xffff, MIDELEG := 0xffff,
     MIE := or (or (and (csrf h MIE) (not 0xffff)) (and (or (or (and (csrf h MIE) 0xffff) SIE_SEIE) SIE_STIE) 0xffff)) MIE_STIE,
     PMPADDR0 := 0x3fffffffffffff, PMPCFG0 := 0xf, MENVCFG := or (csrf h MENVCFG) (push_bit 63 1),
     MCOUNTEREN := or (csrf h MCOUNTEREN) 2, STIMECMP := csrf h TIME + 1000000)"

lemma start_eq:
  "start main_pc h = mret (h\<lparr>xr := (xr h)(Tp := scast (ucast (csrf h MHARTID) :: uint32)), csrf := booted main_pc h\<rparr>)"
  unfolding start_def Let_def
  by (rule arg_cong [where f = mret])
     (simp add: timerinit_eq accessor_defs set_reg_def booted_def fun_upd_twist fun_eq_iff)

lemma start_bits:
  "hmode (start main_pc h) = Smode" "bit (csrf (start main_pc h) MIE) 9" "bit (csrf (start main_pc h) MIE) 5"
  "bit (csrf (start main_pc h) MCOUNTEREN) 1" "bit (csrf (start main_pc h) MENVCFG) 63"
proof -
  have b: "\<not> bit (booted main_pc h MSTATUS) 12" "bit (booted main_pc h MSTATUS) 11"
    by (simp_all add: booted_def MSTATUS_MPP_MASK_def MSTATUS_MPP_S_def bit_simps)
  show "hmode (start main_pc h) = Smode" using b by (simp add: start_eq mret_def Let_def)
  have i: "bit (booted main_pc h MIE) 9" "bit (booted main_pc h MIE) 5"
    by (simp_all add: booted_def SIE_SEIE_def SIE_STIE_def MIE_STIE_def bit_simps)
  then show "bit (csrf (start main_pc h) MIE) 9" "bit (csrf (start main_pc h) MIE) 5"
    by (simp_all add: start_eq mret_def Let_def)
  show "bit (csrf (start main_pc h) MCOUNTEREN) 1" "bit (csrf (start main_pc h) MENVCFG) 63"
    by (simp_all add: start_eq mret_def Let_def booted_def bit_simps)
qed

lemma entry_run:
  "run tr (entry stack0 start_pc spin) h =
     h\<lparr>xr := (xr h)(A1 := csrf h MHARTID + 1, A0 := 4096 * (csrf h MHARTID + 1),
       Sp := stack0 + 4096 * (csrf h MHARTID + 1), Ra := spin), hpc := start_pc\<rparr>"
  by (simp add: entry_def set_reg_def fun_upd_twist)

lemma stacks_apart:
  assumes "i < 8" "j < 8" "i \<noteq> j"
  shows "disjoint_range (stack0 + of_nat (4096 * i)) 4096 (stack0 + of_nat (4096 * j)) 4096"
  unfolding disjoint_range_def
proof (intro allI impI)
  fix k :: nat assume k: "k < 4096"
  have u: "unat (of_nat (4096 * x) :: uint64) = 4096 * x" if "x < 8" for x
    using that by (simp add: unat_of_nat take_bit_nat_eq_self del: of_nat_mult)
  have "4096 \<le> unat (of_nat (4096 * i) + of_nat k - of_nat (4096 * j) :: uint64)"
  proof (rule dvd_apart)
    show "of_nat (4096 * i) \<noteq> (of_nat (4096 * j) :: uint64)"
      using u [of i] u [of j] assms by (metis mult_left_cancel zero_neq_numeral)
  qed (use u assms k in simp_all)
  then show "4096 \<le> unat (stack0 + of_nat (4096 * i) + of_nat k - (stack0 + of_nat (4096 * j)))"
    by (simp add: add.assoc)
qed

subsection \<open>Properties\<close>

text \<open>A machine with the identity as address translation, for the examples.\<close>

definition hart_ex :: hart where
  "hart_ex = \<lparr>xr = (\<lambda>r. 7), csrf = (\<lambda>c. 0), hpc = 0, hmode = Umode, hmem = (\<lambda>a. 0)\<rparr>"

lemma maps_to_id [simp]: "maps_to (\<lambda>pt va. va) pt va va n"
  by (simp add: maps_to_def)

text \<open>
  C20. A trap from user space and back. If the user page table maps the trapframe page to \<open>tf\<close>,
  \<^verbatim>\<open>uservec\<close> calls \<^verbatim>\<open>usertrap\<close> on the kernel stack, with the hart's number in \<^verbatim>\<open>tp\<close> and the kernel
  page table, all taken from the trapframe. Whatever the kernel then does (\<open>h2\<close>), if it leaves the
  saved registers in the trapframe alone but for \<^verbatim>\<open>a0\<close>, and returns with the user's \<^verbatim>\<open>satp\<close> and
  \<^verbatim>\<open>SPP\<close> clear, then \<^verbatim>\<open>userret\<close> continues in user mode at \<^verbatim>\<open>sepc\<close>, on the user page table, with
  every register but \<^verbatim>\<open>a0\<close> as it was before the trap and \<^verbatim>\<open>a0\<close> from the trapframe, where
  \<^verbatim>\<open>uservec\<close> had put the user's value.
\<close>

theorem trap_restores_user:
  assumes tf: "maps_to tr (csrf h SATP) TRAPFRAME tf 4096"
    and h1: "h1 = run tr (uservec userret_pc) h"
    and kernel: "\<forall>off. 8 dvd off \<longrightarrow> 40 \<le> off \<longrightarrow> off < 288 \<longrightarrow> off \<noteq> 112 \<longrightarrow>
      load64 (hmem h2) (tf + of_nat off) = load64 (hmem h1) (tf + of_nat off)"
    and satp: "xr h2 A0 = csrf h SATP" and user: "\<not> bit (csrf h2 MSTATUS) 8"
    and h3: "h3 = run tr userret h2"
  shows "xr h1 Sp = load64 (hmem h) (tf + 8) \<and> xr h1 Tp = load64 (hmem h) (tf + 32)
      \<and> hpc h1 = load64 (hmem h) (tf + 16) \<and> csrf h1 SATP = load64 (hmem h) tf
    \<and> hmode h3 = Umode \<and> hpc h3 = csrf h2 SEPC \<and> csrf h3 SATP = csrf h SATP
    \<and> (\<forall>r. r \<noteq> A0 \<longrightarrow> xr h3 r = xr h r)
    \<and> xr h3 A0 = load64 (hmem h2) (tf + 112) \<and> load64 (hmem h1) (tf + 112) = xr h A0"
proof (intro conjI allI impI)
  note u = uservec_run [OF tf h1]
  note v = userret_run [OF tf [folded satp] h3]
  show "xr h1 Sp = load64 (hmem h) (tf + 8)" "xr h1 Tp = load64 (hmem h) (tf + 32)"
    "hpc h1 = load64 (hmem h) (tf + 16)" "csrf h1 SATP = load64 (hmem h) tf" by (fact u(2-5))+
  show "hmode h3 = Umode" "hpc h3 = csrf h2 SEPC" "csrf h3 SATP = csrf h SATP"
    using v(2-4) satp user by simp_all
  show "xr h3 A0 = load64 (hmem h2) (tf + 112)" using v(1) [of A0 112] by simp
  show "load64 (hmem h1) (tf + 112) = xr h A0" using trap_mem_slot [of A0 112 tf h] u(1) by simp
  fix r assume r: "r \<noteq> A0"
  obtain off where off: "(r, off) \<in> set ((A0, 112) # frame)" by (rule reg_slot)
  then have "8 dvd off" "40 \<le> off" "off < 288" "off \<noteq> 112" using r by (auto simp: frame_def)
  then have "load64 (hmem h2) (tf + of_nat off) = xr h r" using kernel trap_mem_slot [OF off] u(1) by simp
  then show "xr h3 r = xr h r" using v(1) [OF off] by simp
qed

theorem trap_restores_user_witness:
  "let tr = (\<lambda>pt va. va); h1 = run tr (uservec 0) hart_ex;
       h3 = run tr userret (h1\<lparr>xr := (xr h1)(A0 := 0), csrf := (csrf h1)(SEPC := 4)\<rparr>)
   in hmode h3 = Umode \<and> hpc h3 = 4 \<and> xr h3 S1 = 7 \<and> xr h3 A0 = 7"
proof -
  let ?tr = "\<lambda>pt va :: uint64. va" and ?h1 = "run (\<lambda>pt va. va) (uservec 0) hart_ex"
  let ?h2 = "?h1\<lparr>xr := (xr ?h1)(A0 := 0), csrf := (csrf ?h1)(SEPC := 4)\<rparr>"
  have "csrf ?h1 MSTATUS = csrf hart_ex MSTATUS"
    by (rule uservec_run(6) [where tf = TRAPFRAME]) (rule maps_to_id, rule refl)
  then have st: "\<not> bit (csrf ?h2 MSTATUS) 8" "xr ?h2 A0 = csrf hart_ex SATP" by (simp_all add: hart_ex_def)
  have ex: "xr hart_ex S1 = 7" "xr hart_ex A0 = 7" by (simp_all add: hart_ex_def)
  show ?thesis
    using trap_restores_user [where userret_pc = 0, OF maps_to_id refl _ st(2,1) refl] ex by (simp add: Let_def)
qed

text \<open>
  C21. An interrupt in the kernel. \<^verbatim>\<open>kernelvec\<close> pushes 256 bytes on the current stack and calls
  \<^verbatim>\<open>kerneltrap\<close>. If \<^verbatim>\<open>kerneltrap\<close> keeps the calling convention (stack pointer, callee-saved
  registers and the caller's stack frame unchanged), the page table, and returns with \<^verbatim>\<open>SPP\<close> set,
  then the interrupted code continues in supervisor mode at \<^verbatim>\<open>sepc\<close> with every register as it was,
  but for \<^verbatim>\<open>tp\<close>, which holds the number of the hart \<^verbatim>\<open>kerneltrap\<close> returned on.
\<close>

theorem kernelvec_transparent:
  assumes stack: "maps_to tr (csrf h SATP) (xr h Sp - 256) base 256"
    and h1: "h1 = run tr (kernelvec_save kerneltrap_pc nxt) h"
    and convention: "xr h2 Sp = xr h1 Sp" "\<forall>r \<in> set callee_saved_regs. xr h2 r = xr h1 r"
      "\<forall>i<256. hmem h2 (base + of_nat i) = hmem h1 (base + of_nat i)"
    and satp: "csrf h2 SATP = csrf h SATP" and spp: "bit (csrf h2 MSTATUS) 8"
    and h3: "h3 = run tr kernelvec_restore h2"
  shows "hpc h1 = kerneltrap_pc \<and> hpc h3 = csrf h2 SEPC \<and> hmode h3 = Smode
    \<and> (\<forall>r. r \<noteq> Tp \<longrightarrow> xr h3 r = xr h r) \<and> xr h3 Tp = xr h2 Tp"
proof (intro conjI allI impI)
  note s = kernelvec_save_run [OF stack h1]
  have "maps_to tr (csrf h2 SATP) (xr h2 Sp) base 256" using stack satp convention(1) s(2) by simp
  note l = kernelvec_restore_run [OF this h3]
  show "hpc h1 = kerneltrap_pc" "hpc h3 = csrf h2 SEPC" "hmode h3 = Smode" using s(4) l(4,5) spp by simp_all
  show "xr h3 Tp = xr h2 Tp" by (rule l(3)) (simp_all add: kframe_def)
  fix r assume r: "r \<noteq> Tp"
  consider (f) off where "(r, off) \<in> set kframe" | (sp) "r = Sp" | (c) "r \<in> set callee_saved_regs"
    using r by (cases r) (auto simp: kframe_def callee_saved_regs_def)
  then show "xr h3 r = xr h r"
  proof cases
    case f
    then have m: "(r, off) \<in> set ksaved" using kframe_slots(4) by auto
    then have "load64 (hmem h2) (base + of_nat off) = load64 (hmem h1) (base + of_nat off)"
      using kframe_slots(5) by (intro same_slot [OF convention(3)]) auto
    then show ?thesis using l(1) [OF f] s(1) [OF m] by simp
  next
    case sp
    then show ?thesis using l(2) s(2) convention(1) by simp
  next
    case c
    then have "r \<noteq> Sp" "r \<noteq> Ra" "r \<notin> fst ` set kframe" by (auto simp: callee_saved_regs_def kframe_def)
    then show ?thesis using l(3) s(3) convention(2) c by simp
  qed
qed

theorem kernelvec_transparent_witness:
  "let tr = (\<lambda>pt va. va); h = hart_ex\<lparr>csrf := (\<lambda>c. 0)(MSTATUS := 0x100)\<rparr>;
       h1 = run tr (kernelvec_save 8 12) h; h2 = h1\<lparr>xr := (xr h1)(T0 := 0, A3 := 0)\<rparr>;
       h3 = run tr kernelvec_restore h2
   in hpc h1 = 8 \<and> hmode h3 = Smode \<and> xr h3 T0 = 7 \<and> xr h3 A3 = 7 \<and> xr h3 Sp = 7"
proof -
  let ?tr = "\<lambda>pt va :: uint64. va" and ?h = "hart_ex\<lparr>csrf := (\<lambda>c. 0)(MSTATUS := 0x100)\<rparr>"
  let ?h1 = "run ?tr (kernelvec_save 8 12) ?h"
  let ?h2 = "?h1\<lparr>xr := (xr ?h1)(T0 := 0, A3 := 0)\<rparr>"
  have c: "csrf ?h1 = csrf ?h" by (rule kernelvec_save_run(5) [OF maps_to_id refl])
  have spp: "bit (csrf ?h2 MSTATUS) 8" using c by (simp add: bit_iff_odd)
  have sp: "xr ?h2 Sp = xr ?h1 Sp" by simp
  have cs: "\<forall>r \<in> set callee_saved_regs. xr ?h2 r = xr ?h1 r" by (simp add: callee_saved_regs_def)
  have same: "\<forall>i<256. hmem ?h2 (xr ?h Sp - 256 + of_nat i) = hmem ?h1 (xr ?h Sp - 256 + of_nat i)" by simp
  have satp: "csrf ?h2 SATP = csrf ?h SATP" using c by simp
  have ex: "xr ?h r = 7" for r by (simp add: hart_ex_def)
  show ?thesis
    using kernelvec_transparent [where ?h2.0 = ?h2 and kerneltrap_pc = 8 and nxt = 12,
        OF maps_to_id refl sp cs same satp spp refl] ex by (simp only: Let_def) simp
qed

text \<open>
  C22. Context switches. A thread calls \<^verbatim>\<open>swtch\<close> to save its context at \<open>old\<close> and to continue the
  one at \<open>new\<close>. When another thread later calls \<^verbatim>\<open>swtch\<close> with that context as its second
  argument and nothing has written to it in between, the first one continues: at the return
  address of its call, on its own stack and with its callee-saved registers.
\<close>

theorem swtch_resumes:
  assumes out: "maps_to tr (csrf h SATP) (xr h A0) old 112" "maps_to tr (csrf h SATP) (xr h A1) new 112"
      "disjoint_range new 112 old 112"
    and h1: "h1 = run tr swtch h"
    and again: "maps_to tr (csrf h2 SATP) (xr h2 A0) other 112" "maps_to tr (csrf h2 SATP) (xr h2 A1) old 112"
      "disjoint_range old 112 other 112"
    and kept: "\<forall>i<112. hmem h2 (old + of_nat i) = hmem h1 (old + of_nat i)"
    and h3: "h3 = run tr swtch h2"
  shows "hpc h1 = load64 (hmem h) new \<and> xr h1 Sp = load64 (hmem h) (new + 8)
    \<and> hpc h3 = xr h Ra \<and> xr h3 Sp = xr h Sp \<and> (\<forall>r \<in> set callee_saved_regs. xr h3 r = xr h r)"
proof (intro conjI ballI)
  note a = swtch_run [OF out h1]
  note b = swtch_run [OF again h3]
  show "hpc h1 = load64 (hmem h) new" "xr h1 Sp = load64 (hmem h) (new + 8)"
    using a(3) a(2) [of Sp 8] by (simp_all add: ctx_def)
  have r: "xr h3 r = xr h r" if m: "(r, off) \<in> set ctx" for r off
  proof -
    have "load64 (hmem h2) (old + of_nat off) = load64 (hmem h1) (old + of_nat off)"
      using m ctx_slots(3) by (intro same_slot [OF kept]) auto
    then show ?thesis using a(1) [OF m] b(2) [OF m] by simp
  qed
  show "xr h3 Sp = xr h Sp" by (rule r [of Sp 8]) (simp add: ctx_def)
  have "load64 (hmem h2) (old + of_nat 0) = load64 (hmem h1) (old + of_nat 0)"
    by (rule same_slot [OF kept]) simp
  then show "hpc h3 = xr h Ra" using b(3) a(1) [of Ra 0] by (simp add: ctx_def)
  fix q assume "q \<in> set callee_saved_regs"
  then have "q \<in> fst ` set ctx" by (simp add: ctx_slots(4))
  then show "xr h3 q = xr h q" using r by force
qed

theorem swtch_resumes_witness:
  "let tr = (\<lambda>pt va. va); h = hart_ex\<lparr>xr := (\<lambda>r. 7)(A0 := 0x1000, A1 := 0x2000)\<rparr>;
       h1 = run tr swtch h; h3 = run tr swtch (h1\<lparr>xr := (\<lambda>r. 0)(A0 := 0x2000, A1 := 0x1000)\<rparr>)
   in hpc h3 = 7 \<and> xr h3 Sp = 7 \<and> xr h3 S11 = 7"
proof -
  let ?tr = "\<lambda>pt va :: uint64. va" and ?h = "hart_ex\<lparr>xr := (\<lambda>r. 7)(A0 := 0x1000, A1 := 0x2000)\<rparr>"
  let ?h1 = "run ?tr swtch ?h"
  let ?h2 = "?h1\<lparr>xr := (\<lambda>r. 0)(A0 := 0x2000, A1 := 0x1000)\<rparr>"
  have d: "disjoint_range p 112 q 112" if "aligned p" "aligned q" "p \<noteq> q" for p q
    using that by (rule disjoint_pages) simp_all
  have "disjoint_range 0x2000 112 0x1000 112" "disjoint_range 0x1000 112 0x2000 112"
    by (rule d; simp add: aligned_def)+
  then show ?thesis
    using swtch_resumes [of ?tr ?h "0x1000" "0x2000" ?h1 ?h2 "0x2000" "run ?tr swtch ?h2"]
    by (simp add: Let_def callee_saved_regs_def)
qed

text \<open>
  C23. Boot. The hart with number \<open>i\<close> that runs \<^verbatim>\<open>_entry\<close> and \<^verbatim>\<open>start\<close> arrives in \<^verbatim>\<open>main\<close> in
  supervisor mode, without paging, with its number in \<^verbatim>\<open>tp\<close>, all exceptions and interrupts
  delegated, external and timer interrupts enabled, the timer set, and the stack pointer at the end
  of its own 4096 bytes of \<^verbatim>\<open>stack0\<close>, which no other hart uses.
\<close>

theorem boot_harts:
  assumes "i < NCPU" and "csrf h MHARTID = of_nat i"
    and g: "g = start main_pc (run tr (entry stack0 start_pc spin) h)"
  shows "hpc g = main_pc \<and> hmode g = Smode \<and> csrf g SATP = 0 \<and> xr g Tp = of_nat i
    \<and> csrf g MEDELEG = 0xffff \<and> csrf g MIDELEG = 0xffff \<and> bit (csrf g MIE) 9 \<and> bit (csrf g MIE) 5
    \<and> bit (csrf g MENVCFG) 63 \<and> bit (csrf g MCOUNTEREN) 1 \<and> csrf g STIMECMP = csrf h TIME + 1000000
    \<and> xr g Sp = stack0 + of_nat (4096 * i) + 4096
    \<and> (\<forall>j<NCPU. j \<noteq> i \<longrightarrow> disjoint_range (xr g Sp - 4096) 4096 (stack0 + of_nat (4096 * j)) 4096)"
proof -
  have i: "i < 8" using assms(1) by (simp add: NCPU_def)
  have tp: "scast (ucast (of_nat i :: uint64) :: uint32) = (of_nat i :: uint64)"
  proof -
    have "\<forall>i \<in> set [0..<8]. scast (ucast (of_nat i :: uint64) :: uint32) = (of_nat i :: uint64)" by code_simp
    then show ?thesis using i by simp
  qed
  have sp: "xr g Sp = stack0 + of_nat (4096 * i) + 4096"
    using assms(2) by (simp add: g start_eq entry_run mret_def Let_def algebra_simps)
  then have "\<forall>j<NCPU. j \<noteq> i \<longrightarrow> disjoint_range (xr g Sp - 4096) 4096 (stack0 + of_nat (4096 * j)) 4096"
    using i by (auto simp: NCPU_def simp del: of_nat_mult intro: stacks_apart)
  moreover have "hpc g = main_pc" "csrf g SATP = 0" "xr g Tp = of_nat i" "csrf g MEDELEG = 0xffff"
    "csrf g MIDELEG = 0xffff" "csrf g STIMECMP = csrf h TIME + 1000000"
    using assms(2) tp by (simp_all add: g start_eq entry_run mret_def Let_def booted_def)
  ultimately show ?thesis using sp start_bits [of main_pc "run tr (entry stack0 start_pc spin) h", folded g] by blast
qed

theorem boot_harts_witness:
  "let h = hart_ex\<lparr>csrf := (\<lambda>c. 0)(MHARTID := 2)\<rparr>;
       g = start 0x80001000 (run (\<lambda>pt va. va) (entry 0x80000400 0x80000040 0x8000001c) h)
   in hpc g = 0x80001000 \<and> hmode g = Smode \<and> xr g Tp = 2 \<and> xr g Sp = 0x80003400"
  using boot_harts [OF _ _ refl, where i = 2 and h = "hart_ex\<lparr>csrf := (\<lambda>c. 0)(MHARTID := 2)\<rparr>"
    and main_pc = "0x80001000" and ?stack0.0 = "0x80000400" and start_pc = "0x80000040"
    and spin = "0x8000001c" and tr = "\<lambda>pt va. va"]
  by (simp add: Let_def NCPU_def)
end
