(* ===== verification/Boot.thy ===== *)
theory Boot
  imports Trap Asm
begin

section \<open>main\<close>

text \<open>
  \<^verbatim>\<open>kernel/main.c\<close>: the order in which hart 0 initialises the components, and what every other
  hart does once \<^verbatim>\<open>started\<close> is set. Both end in \<^verbatim>\<open>scheduler\<close>. One look of a waiting hart at
  \<^verbatim>\<open>started\<close> is one call of \<open>main_other\<close>; its value says whether the hart has left the loop.
\<close>

record boot_state = trap_state +
  started :: int

definition main_first :: "(nat \<Rightarrow> uint32 \<Rightarrow> uint32) \<Rightarrow> ('z boot_state_scheme, unit) km" where
  "main_first rd = kdo [
     consoleinit,
     printfinit,
     kseq (printf [CHR 0x0A] []) kskip,
     kseq (printf (''xv6 kernel is booting'' @ [CHR 0x0A]) []) kskip,
     kseq (printf [CHR 0x0A] []) kskip,
     kinit,
     kvminit,
     kvminithart,
     procinit,
     trapinit,
     trapinithart,
     plicinit,
     plicinithart,
     binit,
     iinit,
     fileinit,
     virtio_disk_init rd,
     userinit,
     kmod (\<lambda>s. s\<lparr>started := 1\<rparr>)]"

definition main_other :: "('z boot_state_scheme, bool) km" where
  "main_other =
     kbind (kget started) (\<lambda>st.
     if st = 0 then kret False
     else
       kbind cpuid (\<lambda>c. kseq (kdo [
         kseq (printf (''hart %d starting'' @ [CHR 0x0A]) [Vint (of_nat c)]) kskip,
         kvminithart,
         trapinithart,
         plicinithart]) (kret True)))"

definition main :: "(nat \<Rightarrow> uint32 \<Rightarrow> uint32) \<Rightarrow> ('z boot_state_scheme, unit) km" where
  "main rd =
     kbind cpuid (\<lambda>c.
     if c = 0 then kseq (main_first rd) scheduler_enter
     else kbind main_other (\<lambda>go. kwhen go scheduler_enter))"

end
