(* ===== verification/User.thy ===== *)
theory User
  imports Printf
begin

section \<open>User programs: system calls and the user library\<close>

text \<open>
  What the user programs share: \<^verbatim>\<open>user/user.h\<close>, \<^verbatim>\<open>user/ulib.c\<close> and \<^verbatim>\<open>user/printf.c\<close>. A program runs
  against an environment of type \<open>'e\<close> through the system calls, the fields of the record \<open>usys\<close>: each
  takes the arguments of the C prototype and the environment and gives the result and the new environment
  (\<^verbatim>\<open>read\<close>, \<^verbatim>\<open>fstat\<close> and \<^verbatim>\<open>pipe\<close> also what they store through their pointer). Nothing is assumed about them in the definitions;
  a theorem that needs some behaviour has it as a hypothesis.

  A program is a function from environments to \<open>uout\<close>: it goes on with a value, it has called \<^verbatim>\<open>exit\<close>, its
  memory image has been replaced by a successful \<^verbatim>\<open>exec\<close>, or a loop that waits for input has used up the number of turns the model allows it.
  A C string is the list of its bytes without the terminating zero.
\<close>

datatype ('e, 'a) uout = UDone 'a 'e | UExit int 'e | UImage 'e | UFuel

type_synonym ('e, 'a) um = "'e \<Rightarrow> ('e, 'a) uout"

definition uret :: "'a \<Rightarrow> ('e, 'a) um" where
  "uret x = (\<lambda>e. UDone x e)"

definition ubind :: "('e, 'a) um \<Rightarrow> ('a \<Rightarrow> ('e, 'b) um) \<Rightarrow> ('e, 'b) um" where
  "ubind m f = (\<lambda>e. case m e of UDone x e' \<Rightarrow> f x e' | UExit st e' \<Rightarrow> UExit st e' | UImage e' \<Rightarrow> UImage e' | UFuel \<Rightarrow> UFuel)"

definition useq :: "('e, 'a) um \<Rightarrow> ('e, 'b) um \<Rightarrow> ('e, 'b) um" where
  "useq m n = ubind m (\<lambda>_. n)"

definition uexit :: "int \<Rightarrow> ('e, 'a) um" where
  "uexit st = (\<lambda>e. UExit st e)"

definition uskip :: "('e, unit) um" where
  "uskip = uret ()"

definition uwhen :: "bool \<Rightarrow> ('e, unit) um \<Rightarrow> ('e, unit) um" where
  "uwhen b m = (if b then m else uskip)"

text \<open>A system call.\<close>

definition ucall :: "('e \<Rightarrow> 'a \<times> 'e) \<Rightarrow> ('e, 'a) um" where
  "ucall f = (\<lambda>e. case f e of (x, e') \<Rightarrow> UDone x e')"

text \<open>\<^verbatim>\<open>exec\<close> returns only when it fails.\<close>

definition uexec :: "('e \<Rightarrow> int option \<times> 'e) \<Rightarrow> ('e, int) um" where
  "uexec f = (\<lambda>e. case f e of (None, e') \<Rightarrow> UImage e' | (Some r, e') \<Rightarrow> UDone r e')"

primrec uiter :: "('x \<Rightarrow> ('e, unit) um) \<Rightarrow> 'x list \<Rightarrow> ('e, unit) um" where
  "uiter f [] = uskip"
| "uiter f (x # xs) = useq (f x) (uiter f xs)"

lemmas um_defs = uret_def ubind_def useq_def uexit_def uskip_def uwhen_def ucall_def uexec_def

record ustat =
  ust_dev :: uint32
  ust_ino :: uint32
  ust_type :: int
  ust_nlink :: int
  ust_size :: uint64

record 'e usys =
  s_read :: "int \<Rightarrow> nat \<Rightarrow> 'e \<Rightarrow> (int \<times> bytes) \<times> 'e"
  s_write :: "int \<Rightarrow> bytes \<Rightarrow> 'e \<Rightarrow> int \<times> 'e"
  s_open :: "bytes \<Rightarrow> int \<Rightarrow> 'e \<Rightarrow> int \<times> 'e"
  s_close :: "int \<Rightarrow> 'e \<Rightarrow> int \<times> 'e"
  s_fstat :: "int \<Rightarrow> 'e \<Rightarrow> (int \<times> ustat) \<times> 'e"
  s_dup :: "int \<Rightarrow> 'e \<Rightarrow> int \<times> 'e"
  s_fork :: "'e \<Rightarrow> int \<times> 'e"
  s_wait :: "'e \<Rightarrow> int \<times> 'e"
  s_exec :: "bytes \<Rightarrow> bytes list \<Rightarrow> 'e \<Rightarrow> int option \<times> 'e"
  s_pipe :: "'e \<Rightarrow> (int \<times> int \<times> int) \<times> 'e"
  s_kill :: "int \<Rightarrow> 'e \<Rightarrow> int \<times> 'e"
  s_mknod :: "bytes \<Rightarrow> int \<Rightarrow> int \<Rightarrow> 'e \<Rightarrow> int \<times> 'e"
  s_unlink :: "bytes \<Rightarrow> 'e \<Rightarrow> int \<times> 'e"
  s_link :: "bytes \<Rightarrow> bytes \<Rightarrow> 'e \<Rightarrow> int \<times> 'e"
  s_mkdir :: "bytes \<Rightarrow> 'e \<Rightarrow> int \<times> 'e"
  s_chdir :: "bytes \<Rightarrow> 'e \<Rightarrow> int \<times> 'e"
  s_pause :: "int \<Rightarrow> 'e \<Rightarrow> int \<times> 'e"

text \<open>String constants of the C sources as bytes.\<close>

definition ascii :: "string \<Rightarrow> bytes" where
  "ascii s = map of_char s"

subsection \<open>Files\<close>

text \<open>
  What the programs that filter their input rely on: \<^verbatim>\<open>read\<close> returns the next bytes of the input, at most as many as asked for, and
  none only when none are asked for or the input is at its end; \<^verbatim>\<open>write\<close> to the standard output appends to it.
\<close>

definition reads :: "'e usys \<Rightarrow> int \<Rightarrow> ('e \<Rightarrow> bytes) \<Rightarrow> ('e \<Rightarrow> bytes) \<Rightarrow> bool" where
  "reads S fd inp out = (\<forall>n e. \<exists>x e'. s_read S fd n e = ((int (length x), x), e') \<and> inp e = x @ inp e'
     \<and> length x \<le> n \<and> (x = [] \<longrightarrow> n = 0 \<or> inp e = []) \<and> out e' = out e)"

definition writes :: "'e usys \<Rightarrow> int \<Rightarrow> ('e \<Rightarrow> bytes) \<Rightarrow> ('e \<Rightarrow> bytes) \<Rightarrow> bool" where
  "writes S fd inp out = (\<forall>bs e. \<exists>e'. s_write S fd bs e = (int (length bs), e') \<and> out e' = out e @ bs \<and> inp e' = inp e)"

text \<open>A pair of input and output as an environment; \<^verbatim>\<open>read\<close> delivers at most three bytes at a time.\<close>

definition stdio_ex :: "(bytes \<times> bytes) usys" where
  "stdio_ex =
     \<lparr>s_read = (\<lambda>fd n (i, o'). let x = take (min n 3) i in ((int (length x), x), (drop (min n 3) i, o'))),
      s_write = (\<lambda>fd bs (i, o'). (int (length bs), (i, o' @ bs))),
      s_open = (\<lambda>_ _ e. (0, e)), s_close = (\<lambda>_ e. (0, e)), s_fstat = (\<lambda>_ e. ((-1, \<lparr>ust_dev = 0, ust_ino = 0, ust_type = 0, ust_nlink = 0, ust_size = 0\<rparr>), e)),
      s_dup = (\<lambda>_ e. (-1, e)), s_fork = (\<lambda>e. (-1, e)), s_wait = (\<lambda>e. (-1, e)), s_exec = (\<lambda>_ _ e. (Some (-1), e)), s_pipe = (\<lambda>e. ((-1, 0, 0), e)),
      s_kill = (\<lambda>_ e. (-1, e)), s_mknod = (\<lambda>_ _ _ e. (-1, e)), s_unlink = (\<lambda>_ e. (-1, e)), s_link = (\<lambda>_ _ e. (-1, e)),
      s_mkdir = (\<lambda>_ e. (-1, e)), s_chdir = (\<lambda>_ e. (-1, e)), s_pause = (\<lambda>_ e. (0, e))\<rparr>"

subsection \<open>ulib.c\<close>

text \<open>
  The string functions read a string from its first byte; \<open>str_at\<close> is what C reads at an offset, zero at
  the end of the string.
\<close>

fun str_at :: "bytes \<Rightarrow> nat \<Rightarrow> uint8" where
  "str_at [] i = 0"
| "str_at (c # cs) i = (case i of 0 \<Rightarrow> c | Suc j \<Rightarrow> str_at cs j)"

fun ustrcpy :: "bytes \<Rightarrow> bytes \<Rightarrow> bytes" where
  "ustrcpy (x # s) (c # t) = (if c = 0 then 0 # s else c # ustrcpy s t)"
| "ustrcpy (x # s) [] = 0 # s"
| "ustrcpy [] t = []"

fun ustrcmp :: "bytes \<Rightarrow> bytes \<Rightarrow> int" where
  "ustrcmp (c # p) (d # q) = (if c \<noteq> 0 \<and> c = d then ustrcmp p q else uint c - uint d)"
| "ustrcmp (c # p) [] = uint c"
| "ustrcmp [] q = - uint (str_at q 0)"

fun ustrlen :: "bytes \<Rightarrow> nat" where
  "ustrlen [] = 0"
| "ustrlen (c # cs) = (if c = 0 then 0 else Suc (ustrlen cs))"

fun ustrchr :: "bytes \<Rightarrow> uint8 \<Rightarrow> nat option" where
  "ustrchr [] c = None"
| "ustrchr (x # xs) c = (if x = 0 then None else if x = c then Some 0 else map_option Suc (ustrchr xs c))"

definition umemset :: "memory \<Rightarrow> uint64 \<Rightarrow> uint8 \<Rightarrow> nat \<Rightarrow> memory" where
  "umemset m dst c n = fold (\<lambda>i m. m(dst + of_nat i := c)) [0..<n] m"

definition umemmove :: "memory \<Rightarrow> uint64 \<Rightarrow> uint64 \<Rightarrow> int \<Rightarrow> memory" where
  "umemmove m vdst vsrc n =
     (if vsrc > vdst then copy_up m vdst vsrc (nat n)
      else copy_down m (vdst + of_int n) (vsrc + of_int n) (nat n))"

definition umemcpy :: "memory \<Rightarrow> uint64 \<Rightarrow> uint64 \<Rightarrow> uint32 \<Rightarrow> memory" where
  "umemcpy m dst src n = umemmove m dst src (sint n)"

text \<open>\<^verbatim>\<open>char\<close> is unsigned on RISC-V.\<close>

fun umemcmp :: "memory \<Rightarrow> uint64 \<Rightarrow> uint64 \<Rightarrow> nat \<Rightarrow> int" where
  "umemcmp m p1 p2 0 = 0"
| "umemcmp m p1 p2 (Suc n) =
     (if m p1 \<noteq> m p2 then uint (m p1) - uint (m p2) else umemcmp m (p1 + 1) (p2 + 1) n)"

text \<open>\<^verbatim>\<open>atoi\<close> computes in 32-bit arithmetic.\<close>

fun atoi_loop :: "uint32 \<Rightarrow> bytes \<Rightarrow> uint32" where
  "atoi_loop n [] = n"
| "atoi_loop n (c # s) = (if 48 \<le> c \<and> c \<le> 57 then atoi_loop (n * 10 + ucast c - 48) s else n)"

definition atoi :: "bytes \<Rightarrow> int" where
  "atoi s = sint (atoi_loop 0 s)"

text \<open>
  \<^verbatim>\<open>gets\<close>: \<open>room\<close> is \<^verbatim>\<open>max - 1 - i\<close>. The result is the string in the buffer.
\<close>

fun gets_loop :: "'e usys \<Rightarrow> nat \<Rightarrow> ('e, bytes) um" where
  "gets_loop S 0 = uret []"
| "gets_loop S (Suc room) =
     ubind (ucall (s_read S 0 1)) (\<lambda>(cc, x).
     if cc < 1 then uret []
     else let c = str_at x 0 in
       if c = 10 \<or> c = 13 then uret [c]
       else ubind (gets_loop S room) (\<lambda>cs. uret (c # cs)))"

definition gets :: "'e usys \<Rightarrow> nat \<Rightarrow> ('e, bytes) um" where
  "gets S mx = gets_loop S (mx - 1)"

definition ustat_path :: "'e usys \<Rightarrow> bytes \<Rightarrow> ('e, int \<times> ustat option) um" where
  "ustat_path S n =
     ubind (ucall (s_open S n 0)) (\<lambda>fd.
     if fd < 0 then uret (-1, None)
     else ubind (ucall (s_fstat S fd)) (\<lambda>(r, st).
          useq (ucall (s_close S fd)) (uret (r, Some st))))"

subsection \<open>printf.c\<close>

text \<open>
  \<open>uprint\<close> is the loop of \<^verbatim>\<open>vprintf\<close>, one turn for each character of the format; \<open>pct\<close> is
  \<^verbatim>\<open>state == '%'\<close>, and the result is what is given to \<^verbatim>\<open>putc\<close>, in order. In \<^verbatim>\<open>printint\<close> the array
  \<^verbatim>\<open>buf\<close> is a list that is written by index; a store outside it is \<open>None\<close>.
\<close>

definition udigits :: string where "udigits = ''0123456789ABCDEF''"

function uprintint_digits :: "uint64 \<Rightarrow> uint64 \<Rightarrow> nat \<Rightarrow> string \<Rightarrow> (nat \<times> string) option" where
  "uprintint_digits base x i buf =
     (if i < length buf then
        let buf' = buf[i := udigits ! unat (x mod base)];
            x' = x div base
        in if x' \<noteq> 0 then uprintint_digits base x' (i + 1) buf' else Some (i + 1, buf')
      else None)"
  by pat_completeness auto
termination
  by (relation "measure (\<lambda>(base, x, i, buf). length buf - i)") auto

declare uprintint_digits.simps [simp del]

primrec uprintint_out :: "string \<Rightarrow> nat \<Rightarrow> string" where
  "uprintint_out buf 0 = []"
| "uprintint_out buf (Suc i) = buf ! i # uprintint_out buf i"

definition uprintint :: "uint64 \<Rightarrow> nat \<Rightarrow> bool \<Rightarrow> string option" where
  "uprintint xx base sg =
     (let neg = sg \<and> sint xx < 0;
          x = (if neg then - xx else xx)
      in case uprintint_digits (of_nat base) x 0 (replicate 20 NUL) of
           None \<Rightarrow> None
         | Some (i, buf) \<Rightarrow>
             if neg then (if i < length buf then Some (uprintint_out (buf[i := CHR ''-'']) (i + 1)) else None)
             else Some (uprintint_out buf i))"

definition uprintptr :: "uint64 \<Rightarrow> string" where
  "uprintptr x = ''0x'' @ map (\<lambda>i. udigits ! unat (drop_bit 60 (push_bit (4 * i) x))) [0..<16]"

definition uconv_int :: "(varg list \<Rightarrow> (uint64 \<times> varg list) option) \<Rightarrow> nat \<Rightarrow> bool \<Rightarrow> nat
    \<Rightarrow> varg list \<Rightarrow> (string \<times> nat \<times> varg list) option" where
  "uconv_int va base sg n ap =
     (case va ap of
        None \<Rightarrow> None
      | Some (x, ap') \<Rightarrow>
          (case uprintint x base sg of None \<Rightarrow> None | Some out \<Rightarrow> Some (out, n, ap')))"

text \<open>One conversion: the output, the value added to \<^verbatim>\<open>i\<close>, and the arguments left.\<close>

definition uconvert :: "char \<Rightarrow> char \<Rightarrow> char \<Rightarrow> varg list \<Rightarrow> (string \<times> nat \<times> varg list) option" where
  "uconvert c0 c1 c2 ap =
     (if c0 = CHR ''d'' then uconv_int va_int 10 True 0 ap
      else if c0 = CHR ''l'' \<and> c1 = CHR ''d'' then uconv_int va_uint64 10 True 1 ap
      else if c0 = CHR ''l'' \<and> c1 = CHR ''l'' \<and> c2 = CHR ''d'' then uconv_int va_uint64 10 True 2 ap
      else if c0 = CHR ''u'' then uconv_int va_uint32 10 False 0 ap
      else if c0 = CHR ''l'' \<and> c1 = CHR ''u'' then uconv_int va_uint64 10 False 1 ap
      else if c0 = CHR ''l'' \<and> c1 = CHR ''l'' \<and> c2 = CHR ''u'' then uconv_int va_uint64 10 False 2 ap
      else if c0 = CHR ''x'' then uconv_int va_uint32 16 False 0 ap
      else if c0 = CHR ''l'' \<and> c1 = CHR ''x'' then uconv_int va_uint64 16 False 1 ap
      else if c0 = CHR ''l'' \<and> c1 = CHR ''l'' \<and> c2 = CHR ''x'' then uconv_int va_uint64 16 False 2 ap
      else if c0 = CHR ''p'' then map_option (\<lambda>(x, ap'). (uprintptr x, 0, ap')) (va_uint64 ap)
      else if c0 = CHR ''c'' then
        map_option (\<lambda>(x, ap'). ([char_of (unat x mod 256)], 0, ap')) (va_uint32 ap)
      else if c0 = CHR ''s'' then
        map_option (\<lambda>(s, ap'). (case s of None \<Rightarrow> ''(null)'' | Some t \<Rightarrow> takeWhile (\<lambda>c. c \<noteq> NUL) t, 0, ap'))
          (va_str ap)
      else if c0 = CHR ''%'' then Some (''%'', 0, ap)
      else Some ([CHR ''%'', c0], 0, ap))"

fun uprint :: "nat \<Rightarrow> string \<Rightarrow> bool \<Rightarrow> nat \<Rightarrow> varg list \<Rightarrow> string option" where
  "uprint 0 fmt pct i ap = None"
| "uprint (Suc n) fmt pct i ap =
     (let c0 = char_at fmt i in
      if c0 = NUL then Some []
      else if \<not> pct then
        if c0 = CHR ''%'' then uprint n fmt True (i + 1) ap
        else map_option (\<lambda>r. c0 # r) (uprint n fmt False (i + 1) ap)
      else
        let c1 = char_at fmt (i + 1);
            c2 = (if c1 \<noteq> NUL then char_at fmt (i + 2) else NUL)
        in (case uconvert c0 c1 c2 ap of
              None \<Rightarrow> None
            | Some (out, m, ap') \<Rightarrow> map_option (\<lambda>r. out @ r) (uprint n fmt False (i + m + 1) ap')))"

definition vprintf_out :: "string \<Rightarrow> varg list \<Rightarrow> string option" where
  "vprintf_out fmt ap = uprint (Suc (length fmt)) fmt False 0 ap"

definition uputc :: "'e usys \<Rightarrow> int \<Rightarrow> uint8 \<Rightarrow> ('e, unit) um" where
  "uputc S fd c = useq (ucall (s_write S fd [c])) uskip"

text \<open>A call with fewer arguments than the format uses has no defined behaviour; it is \<open>UFuel\<close>.\<close>

definition vprintf :: "'e usys \<Rightarrow> int \<Rightarrow> string \<Rightarrow> varg list \<Rightarrow> ('e, unit) um" where
  "vprintf S fd fmt ap =
     (case vprintf_out fmt ap of
        None \<Rightarrow> (\<lambda>e. UFuel)
      | Some out \<Rightarrow> uiter (uputc S fd) (ascii out))"

definition ufprintf :: "'e usys \<Rightarrow> int \<Rightarrow> string \<Rightarrow> varg list \<Rightarrow> ('e, unit) um" where
  "ufprintf S fd fmt ap = vprintf S fd fmt ap"

definition uprintf :: "'e usys \<Rightarrow> string \<Rightarrow> varg list \<Rightarrow> ('e, unit) um" where
  "uprintf S fmt ap = vprintf S 1 fmt ap"

text \<open>An argument of \<^verbatim>\<open>%s\<close> and of \<^verbatim>\<open>%d\<close>.\<close>

definition Astr :: "bytes \<Rightarrow> varg" where
  "Astr s = Vstr (Some (map (\<lambda>c. char_of (unat c)) s))"

definition Aint :: "int \<Rightarrow> varg" where
  "Aint i = Vint (of_int i)"

subsection \<open>The two printfs\<close>

text \<open>The number printer with its array computes what the kernel's does, with its own digits.\<close>

lemma uprintint_digits_eq:
  assumes "0 < base" "base \<le> 16" "i \<le> length buf"
  shows "uprintint_digits (of_nat base) x i buf
    = map_option (\<lambda>ds. (i + length ds, take i buf @ ds @ drop (i + length ds) buf)) (digits_loop udigits (length buf - i) base (unat x))"
  using assms(3)
proof (induction "length buf - i" arbitrary: i buf x)
  case (Suc n)
  have u: "unat (of_nat base :: uint64) = base" using assms(2) by (simp add: unat_of_nat)
  have d: "unat (x mod of_nat base) = unat x mod base" "unat (x div of_nat base) = unat x div base"
    by (simp_all add: unat_mod unat_div u)
  let ?c = "udigits ! (unat x mod base)"
  have lt: "i < length buf" using Suc.hyps(2) by simp
  have z: "x div of_nat base = 0 \<longleftrightarrow> unat x div base = 0" using d(2) by (metis unat_0 unsigned_word_eqI)
  have r: "length buf - i = Suc n" using Suc.hyps(2) by simp
  have IH: "uprintint_digits (of_nat base) (x div of_nat base) (i + 1) (buf[i := ?c])
      = map_option (\<lambda>ds. (i + 1 + length ds, take (i + 1) (buf[i := ?c]) @ ds @ drop (i + 1 + length ds) (buf[i := ?c])))
          (digits_loop udigits n base (unat x div base))"
  proof -
    have n: "n = length buf - Suc i" using Suc.hyps(2) by simp
    show ?thesis using Suc.hyps(1) [of "buf[i := ?c]" "i + 1" "x div of_nat base"] n lt d(2) by simp
  qed
  have t: "take (i + 1) (buf[i := ?c]) = take i buf @ [?c]" "take i (buf[i := ?c]) = take i buf"
    using lt by (simp_all add: take_Suc_conv_app_nth)
  have dr: "drop (i + 1 + k) (buf[i := ?c]) = drop (i + 1 + k) buf" for k by simp
  show ?case
    unfolding uprintint_digits.simps [of "of_nat base" x i buf] r
    using lt z d(1) IH t dr by (cases "digits_loop udigits n base (unat x div base)") (auto simp: Let_def upd_conv_take_nth_drop)
qed (simp add: uprintint_digits.simps)

lemma uprintint_out_eq: "i \<le> length buf \<Longrightarrow> uprintint_out buf i = rev (take i buf)"
  by (induction i) (simp_all add: take_Suc_conv_app_nth)

lemma digits_loop_length: "digits_loop ds n base x = Some buf \<Longrightarrow> length buf \<le> n"
  by (induction n arbitrary: x buf) (auto split: if_splits)

lemma uprintint_buf:
  assumes "0 < base" "base \<le> 16"
  shows "uprintint xx base sg = map_option rev (buf_int udigits xx base sg)"
proof -
  let ?neg = "sg \<and> sint xx < 0"
  let ?x = "if ?neg then - xx else xx"
  note e = uprintint_digits_eq [OF assms, of 0 "replicate 20 NUL" ?x]
  show ?thesis
  proof (cases "digits_loop udigits 20 base (unat ?x)")
    case None
    then show ?thesis using e unfolding uprintint_def buf_int_def Let_def by simp
  next
    case (Some ds)
    have l: "length ds \<le> 20" by (rule digits_loop_length [OF Some])
    have "uprintint_digits (of_nat base) ?x 0 (replicate 20 NUL) = Some (length ds, ds @ replicate (20 - length ds) NUL)"
      using e Some by simp
    then show ?thesis
      using Some l unfolding uprintint_def buf_int_def Let_def by (simp add: uprintint_out_eq list_update_append nth_append)
  qed
qed

text \<open>
  The characters the two programs may print for one another: the same one, or a hexadecimal digit in lower case
  (the kernel) and upper case (the library).
\<close>

definition same_char :: "char \<Rightarrow> char \<Rightarrow> bool" where
  "same_char k u \<longleftrightarrow> k = u \<or> (k, u) \<in> set (zip ''abcdef'' ''ABCDEF'')"

text \<open>What the comparison needs of a relation on characters: \<open>hex\<close> says whether it has to relate the hexadecimal digits.\<close>

definition relates :: "(char \<Rightarrow> char \<Rightarrow> bool) \<Rightarrow> bool \<Rightarrow> bool" where
  "relates R hex \<longleftrightarrow> (\<forall>c. R c c) \<and> (hex \<longrightarrow> (\<forall>d<16. R (kdigits ! d) (udigits ! d)))"

lemma relates_eq: "relates (=) False" and relates_same_char: "relates same_char hex"
proof -
  show "relates (=) False" by (simp add: relates_def)
  have "\<forall>d\<in>set [0..<16]. same_char (kdigits ! d) (udigits ! d)" by code_simp
  then show "relates same_char hex" by (simp add: relates_def same_char_def)
qed

lemma relates_digit:
  assumes "relates R hex" "d < base" "base = 10 \<or> base = 16 \<and> hex"
  shows "R (kdigits ! d) (udigits ! d)"
proof -
  have "\<forall>d\<in>set [0..<10]. kdigits ! d = udigits ! d" by code_simp
  then have "d < 10 \<Longrightarrow> kdigits ! d = udigits ! d" by simp
  with assms show ?thesis by (auto simp: relates_def)
qed

lemma relates_digits_loop:
  assumes "relates R hex" "base = 10 \<or> base = 16 \<and> hex"
  shows "rel_option (list_all2 R) (digits_loop kdigits n base x) (digits_loop udigits n base x)"
proof (induction n arbitrary: x)
  case (Suc n)
  have "R (kdigits ! (x mod base)) (udigits ! (x mod base))" using assms by (intro relates_digit) auto
  then show ?case using Suc [of "x div base"] by (auto simp: option.rel_map elim: option.rel_mono_strong)
qed simp

lemma relates_printint:
  assumes "relates R hex" "base = 10 \<or> base = 16 \<and> hex"
  shows "rel_option (list_all2 R) (printint xx base sg) (uprintint xx base sg)"
proof -
  have b: "0 < base" "base \<le> 16" using assms(2) by auto
  have m: "R (CHR ''-'') (CHR ''-'')" using assms(1) by (simp add: relates_def)
  let ?x = "unat (if sg \<and> sint xx < 0 then - xx else xx)"
  from relates_digits_loop [OF assms, of 20 ?x] show ?thesis
  proof (cases rule: option.rel_cases)
    case (Some x y)
    have "list_all2 R (x @ ''-'') (y @ ''-'')" using Some(3) m by (intro list_all2_appendI) auto
    then show ?thesis
      using Some list_all2_lengthD [OF Some(3)]
      by (auto simp: uprintint_buf [OF b] printint_def buf_int_def Let_def option.rel_map list_all2_rev)
  qed (auto simp: uprintint_buf [OF b] printint_def buf_int_def Let_def)
qed

lemma relates_printptr:
  assumes "relates R True"
  shows "list_all2 R (printptr x) (uprintptr x)"
proof -
  have "unat (drop_bit 60 (y :: uint64)) < 16" for y
    using unsigned_less [of y, where 'a = nat] by (simp add: drop_bit_eq_div unat_div less_mult_imp_div_less)
  then show ?thesis using assms by (simp add: uprintptr_def printptr_def relates_def list_all2_map1 list_all2_map2 list_all2_same)
qed

text \<open>
  The results of one conversion agree: related texts and the same rest; the kernel counts the conversion character
  itself, the library does not. \<^verbatim>\<open>%c\<close> goes through \<^verbatim>\<open>consputc\<close> in the kernel, which treats the value
  \<^verbatim>\<open>BACKSPACE\<close> specially.
\<close>

definition same_conv :: "(char \<Rightarrow> char \<Rightarrow> bool) \<Rightarrow> varg list \<Rightarrow> (string \<times> nat \<times> varg list) option
    \<Rightarrow> (string \<times> nat \<times> varg list) option \<Rightarrow> bool" where
  "same_conv R ap k u = rel_option
     (\<lambda>(o2, m2, a2) (o1, m1, a1). list_all2 R o2 o1 \<and> m2 = Suc m1 \<and> a2 = a1 \<and> set a1 \<subseteq> set ap) k u"

definition no_backspace :: "varg list \<Rightarrow> bool" where
  "no_backspace ap = (\<forall>v\<in>set ap. case v of Vint x \<Rightarrow> (ucast x :: uint32) \<noteq> 0x100 | Vstr s \<Rightarrow> True)"

lemma same_if:
  "(b \<Longrightarrow> same_conv R ap k u) \<Longrightarrow> (\<not> b \<Longrightarrow> same_conv R ap k' u') \<Longrightarrow> same_conv R ap (if b then k else k') (if b then u else u')"
  by simp

lemma same_conv_int:
  assumes "relates R hex" "base = 10 \<or> base = 16 \<and> hex" "m = Suc n" "\<And>x r. va ap = Some (x, r) \<Longrightarrow> set r \<subseteq> set ap"
  shows "same_conv R ap (conv_int va base sg m ap) (uconv_int va base sg n ap)"
proof (cases "va ap")
  case (Some p)
  then show ?thesis
    using relates_printint [OF assms(1,2), of "fst p" sg] assms(3,4)
    by (cases p; cases "uprintint (fst p) base sg"; cases "printint (fst p) base sg")
       (auto simp: uconv_int_def conv_int_def same_conv_def)
qed (simp add: uconv_int_def conv_int_def same_conv_def)

lemma consputc_char:
  assumes "x \<noteq> (0x100 :: uint32)"
  shows "consputc_out (sint x) = [char_of (unat x mod 256)]"
proof -
  have "sint x \<noteq> 0x100"
  proof
    assume "sint x = 0x100"
    then have "(of_int (sint x) :: uint32) = 0x100" by simp
    with assms show False by simp
  qed
  moreover have "take_bit 8 (sint x) = take_bit 8 (uint x)"
    unfolding sint_uint by (rule take_bit_signed_take_bit) simp
  then have "sint x mod 256 = uint x mod 256" by (simp add: take_bit_eq_mod)
  then have "nat (sint x mod 256) = unat x mod 256"
    using nat_mod_distrib [of "uint x" 256] by simp
  ultimately show ?thesis by (simp add: consputc_out_def BACKSPACE_def)
qed

lemma narrow_widen: "ucast (ucast (y :: uint32) :: uint64) = y" "unat (ucast (y :: uint32) :: uint64) = unat y"
  by (rule bit_word_eqI, simp add: bit_simps) (use unsigned_less [of y, where 'a = nat] in \<open>simp add: unsigned_ucast_eq take_bit_nat_eq_self_iff\<close>)

lemma va_sub:
  "va_int ap = Some (x, r) \<Longrightarrow> set r \<subseteq> set ap"
  "va_uint32 ap = Some (x, r) \<Longrightarrow> set r \<subseteq> set ap"
  "va_uint64 ap = Some (x, r) \<Longrightarrow> set r \<subseteq> set ap"
  by (cases ap rule: va_int.cases; auto)+

lemma same_convert:
  assumes R: "relates R hex" and x: "CHR ''x'' \<in> {c0, c1, c2} \<or> c0 = CHR ''p'' \<Longrightarrow> hex" and c: "c0 = CHR ''c'' \<Longrightarrow> no_backspace ap"
  shows "same_conv R ap (convert c0 c1 c2 ap) (uconvert c0 c1 c2 ap)"
proof -
  have refl: "list_all2 R s s" for s using R by (simp add: relates_def list_all2_refl)
  have cc: "same_conv R ap (map_option (\<lambda>(x, ap'). (consputc_out (sint (ucast x :: uint32)), 1, ap')) (va_uint32 ap))
      (map_option (\<lambda>(x, ap'). ([char_of (unat x mod 256)], 0, ap')) (va_uint32 ap))" if "c0 = CHR ''c''"
    using c [OF that] refl
    by (cases ap rule: va_uint32.cases) (auto simp: no_backspace_def consputc_char narrow_widen same_conv_def)
  have p: "same_conv R ap (map_option (\<lambda>(x, ap'). (printptr x, 1, ap')) (va_uint64 ap))
      (map_option (\<lambda>(x, ap'). (uprintptr x, 0, ap')) (va_uint64 ap))" if "c0 = CHR ''p''"
    using R x that by (cases ap rule: va_uint64.cases) (auto simp: relates_printptr same_conv_def)
  have s: "same_conv R ap (map_option (\<lambda>(s, ap'). (f s, 1, ap')) (va_str ap))
      (map_option (\<lambda>(s, ap'). (f s, 0, ap')) (va_str ap))" for f
    using refl by (cases ap rule: va_str.cases) (auto simp: same_conv_def)
  show ?thesis
    unfolding uconvert_def convert_def
    by (intro same_if cc p s same_conv_int [OF R]) (use refl x in \<open>auto simp: same_conv_def dest: va_sub\<close>)
qed

lemma char_at_mem: "char_at fmt i \<noteq> NUL \<Longrightarrow> char_at fmt i \<in> set fmt"
  by (simp add: char_at_def split: if_splits)

text \<open>The comparison needs the hexadecimal digits only for a format with an \<open>x\<close> or a \<open>p\<close>.\<close>

definition comparable :: "(char \<Rightarrow> char \<Rightarrow> bool) \<Rightarrow> string \<Rightarrow> varg list \<Rightarrow> bool" where
  "comparable R fmt ap \<longleftrightarrow> relates R (CHR ''x'' \<in> set fmt \<or> CHR ''p'' \<in> set fmt) \<and> (CHR ''c'' \<in> set fmt \<longrightarrow> no_backspace ap)"

lemma same_convert_fmt:
  assumes "comparable R fmt ap" "char_at fmt (i + 1) \<noteq> NUL"
    and c2: "c2 = (if char_at fmt (i + 2) \<noteq> NUL then char_at fmt (i + 3) else NUL)"
  shows "same_conv R ap (convert (char_at fmt (i + 1)) (char_at fmt (i + 2)) c2 ap) (uconvert (char_at fmt (i + 1)) (char_at fmt (i + 2)) c2 ap)"
proof (rule same_convert)
  show "relates R (CHR ''x'' \<in> set fmt \<or> CHR ''p'' \<in> set fmt)" using assms(1) by (simp add: comparable_def)
  have n: "NUL \<noteq> CHR ''x''" "NUL \<noteq> CHR ''p''" "NUL \<noteq> CHR ''c''" by (simp_all add: NUL_def)
  have m: "char_at fmt k = c \<Longrightarrow> c \<noteq> NUL \<Longrightarrow> c \<in> set fmt" for k c using char_at_mem [of fmt k] by auto
  show "CHR ''x'' \<in> set fmt \<or> CHR ''p'' \<in> set fmt"
    if "CHR ''x'' \<in> {char_at fmt (i + 1), char_at fmt (i + 2), c2} \<or> char_at fmt (i + 1) = CHR ''p''"
    using that n m [of "i + 1" "CHR ''p''"] m [of "i + 1" "CHR ''x''"] m [of "i + 2" "CHR ''x''"] m [of "i + 3" "CHR ''x''"]
    by (auto simp: c2 split: if_splits)
  show "no_backspace ap" if "char_at fmt (i + 1) = CHR ''c''" using that assms(1) n m [of "i + 1" "CHR ''c''"] by (simp add: comparable_def)
qed

lemma printfs_agree:
  assumes "comparable R fmt ap" "length fmt - i < n" "length fmt - i < k"
  shows "rel_option (list_all2 R) (printf_loop k fmt i ap) (uprint n fmt False i ap)"
  using assms
proof (induction "length fmt - i" arbitrary: i n k ap rule: less_induct)
  case less
  have refl: "R c c" for c using less.prems(1) by (simp add: comparable_def relates_def)
  obtain n' k' where nk: "n = Suc n'" "k = Suc k'" using less.prems by (cases n; cases k) auto
  show ?case
  proof (cases "char_at fmt i = NUL")
    case False
    then have i: "i < length fmt" by (auto simp: char_at_def split: if_splits)
    show ?thesis
    proof (cases "char_at fmt i = CHR ''%''")
      case pct: True
      obtain n'' where n'': "n' = Suc n''" using less.prems nk i by (cases n') auto
      show ?thesis
      proof (cases "char_at fmt (i + 1) = NUL")
        case True
        then show ?thesis using pct nk n'' by (simp add: Let_def NUL_def)
      next
        case c0: False
        then have i1: "i + 1 < length fmt" by (auto simp: char_at_def split: if_splits)
        define c2 where "c2 = (if char_at fmt (i + 2) \<noteq> NUL then char_at fmt (i + 3) else NUL)"
        define u where "u = uconvert (char_at fmt (i + 1)) (char_at fmt (i + 2)) c2 ap"
        define v where "v = convert (char_at fmt (i + 1)) (char_at fmt (i + 2)) c2 ap"
        have U: "uprint n fmt False i ap = (case u of None \<Rightarrow> None
            | Some (out, m, ap') \<Rightarrow> map_option (\<lambda>r. out @ r) (uprint n'' fmt False (Suc i + m + 1) ap'))"
          using pct c0 nk n'' by (simp add: Let_def u_def c2_def NUL_def numeral_eq_Suc)
        have V: "printf_loop k fmt i ap = (case v of None \<Rightarrow> None
            | Some (out, m, ap') \<Rightarrow> map_option (\<lambda>r. out @ r) (printf_loop k' fmt (i + 1 + m) ap'))"
          using pct c0 nk by (simp add: Let_def v_def c2_def NUL_def)
        have "same_conv R ap v u" unfolding u_def v_def using less.prems(1) c0 c2_def by (rule same_convert_fmt)
        then consider "u = None" "v = None"
          | o1 o2 m r where "u = Some (o1, m, r)" "v = Some (o2, Suc m, r)" "list_all2 R o2 o1" "set r \<subseteq> set ap"
          by (auto simp: same_conv_def elim!: option.rel_cases)
        then show ?thesis
        proof cases
          case 2
          have "comparable R fmt r" using less.prems(1) 2(4) by (auto simp: comparable_def no_backspace_def)
          then have "rel_option (list_all2 R) (printf_loop k' fmt (i + 2 + m) r) (uprint n'' fmt False (i + 2 + m) r)"
            using less.hyps [of "i + 2 + m" r n'' k'] less.prems nk n'' i1 by simp
          then show ?thesis using 2 U V
            by (cases "uprint n'' fmt False (i + 2 + m) r"; cases "printf_loop k' fmt (i + 2 + m) r")
               (auto intro: list_all2_appendI)
        qed (simp add: U V)
      qed
    next
      case no: False
      have "length fmt - (i + 1) < n'" "length fmt - (i + 1) < k'" using less.prems i nk by linarith+
      then have "rel_option (list_all2 R) (printf_loop k' fmt (i + 1) ap) (uprint n' fmt False (i + 1) ap)"
        using less.hyps [of "i + 1" ap n' k'] i less.prems(1) by simp
      then show ?thesis using no False nk refl
        by (cases "uprint n' fmt False (i + 1) ap"; cases "printf_loop k' fmt (i + 1) ap") (auto simp: Let_def)
    qed
  qed (use nk in \<open>simp add: Let_def\<close>)
qed

subsection \<open>Properties\<close>



end
