(* ===== verification/Uprogs.thy ===== *)
theory Uprogs
  imports User
begin

section \<open>Small user programs\<close>

text \<open>
  \<^verbatim>\<open>cat\<close>, \<^verbatim>\<open>wc\<close>, \<^verbatim>\<open>ls\<close>, \<^verbatim>\<open>echo\<close>, \<^verbatim>\<open>kill\<close>, \<^verbatim>\<open>ln\<close>, \<^verbatim>\<open>rm\<close>, \<^verbatim>\<open>mkdir\<close>, \<^verbatim>\<open>zombie\<close> and \<^verbatim>\<open>init\<close> over the system calls
  of the theory \<^verbatim>\<open>User\<close>. A main function takes the list of its arguments, \<^verbatim>\<open>argv[0]\<close> first. The loops over input
  take the number of turns they may run.
\<close>

abbreviation line :: "string \<Rightarrow> string" where
  "line s \<equiv> s @ [CHR 0x0A]"

subsection \<open>cat\<close>

fun cat :: "'e usys \<Rightarrow> int \<Rightarrow> nat \<Rightarrow> ('e, unit) um" where
  "cat S fd 0 = (\<lambda>e. UFuel)"
| "cat S fd (Suc fuel) =
     ubind (ucall (s_read S fd 512)) (\<lambda>(n, x).
     if n > 0 then
       ubind (ucall (s_write S 1 (take (nat n) x))) (\<lambda>w.
       if w \<noteq> n then useq (ufprintf S 2 (line ''cat: write error'') []) (uexit 1)
       else cat S fd fuel)
     else if n < 0 then useq (ufprintf S 2 (line ''cat: read error'') []) (uexit 1)
     else uskip)"

definition cat_file :: "'e usys \<Rightarrow> nat \<Rightarrow> bytes \<Rightarrow> ('e, unit) um" where
  "cat_file S fuel name =
     ubind (ucall (s_open S name 0)) (\<lambda>fd.
     if fd < 0 then useq (ufprintf S 2 (line ''cat: cannot open %s'') [Astr name]) (uexit 1)
     else useq (cat S fd fuel) (useq (ucall (s_close S fd)) uskip))"

definition cat_main :: "'e usys \<Rightarrow> nat \<Rightarrow> bytes list \<Rightarrow> ('e, unit) um" where
  "cat_main S fuel argv =
     (if length argv \<le> 1 then useq (cat S 0 fuel) (uexit 0)
      else useq (uiter (cat_file S fuel) (tl argv)) (uexit 0))"

subsection \<open>wc\<close>

text \<open>The counters \<^verbatim>\<open>l\<close>, \<^verbatim>\<open>w\<close>, \<^verbatim>\<open>c\<close> and \<^verbatim>\<open>inword\<close>, and one turn of the loop over the buffer.\<close>

record wcount =
  wl :: nat
  ww :: nat
  wch :: nat
  inword :: bool

definition wc_space :: bytes where "wc_space = [32, 13, 9, 10, 11]"

definition wc_char :: "uint8 \<Rightarrow> wcount \<Rightarrow> wcount" where
  "wc_char b k =
     (let k1 = k\<lparr>wch := wch k + 1, wl := (if b = 10 then wl k + 1 else wl k)\<rparr>
      in if ustrchr wc_space b \<noteq> None then k1\<lparr>inword := False\<rparr>
         else if \<not> inword k1 then k1\<lparr>ww := ww k1 + 1, inword := True\<rparr>
         else k1)"

fun wc_loop :: "'e usys \<Rightarrow> int \<Rightarrow> nat \<Rightarrow> wcount \<Rightarrow> ('e, wcount) um" where
  "wc_loop S fd 0 k = (\<lambda>e. UFuel)"
| "wc_loop S fd (Suc fuel) k =
     ubind (ucall (s_read S fd 512)) (\<lambda>(n, x).
     if n > 0 then wc_loop S fd fuel (fold wc_char (take (nat n) x) k)
     else if n < 0 then useq (uprintf S (line ''wc: read error'') []) (uexit 1)
     else uret k)"

definition wc :: "'e usys \<Rightarrow> nat \<Rightarrow> int \<Rightarrow> bytes \<Rightarrow> ('e, unit) um" where
  "wc S fuel fd name =
     ubind (wc_loop S fd fuel \<lparr>wl = 0, ww = 0, wch = 0, inword = False\<rparr>) (\<lambda>k.
     uprintf S (line ''%d %d %d %s'') [Aint (int (wl k)), Aint (int (ww k)), Aint (int (wch k)), Astr name])"

definition wc_file :: "'e usys \<Rightarrow> nat \<Rightarrow> bytes \<Rightarrow> ('e, unit) um" where
  "wc_file S fuel name =
     ubind (ucall (s_open S name 0)) (\<lambda>fd.
     if fd < 0 then useq (uprintf S (line ''wc: cannot open %s'') [Astr name]) (uexit 1)
     else useq (wc S fuel fd name) (useq (ucall (s_close S fd)) uskip))"

definition wc_main :: "'e usys \<Rightarrow> nat \<Rightarrow> bytes list \<Rightarrow> ('e, unit) um" where
  "wc_main S fuel argv =
     (if length argv \<le> 1 then useq (wc S fuel 0 []) (uexit 0)
      else useq (uiter (wc_file S fuel) (tl argv)) (uexit 0))"

subsection \<open>ls\<close>

text \<open>
  \<^verbatim>\<open>fmtname\<close>: the part of the path after the last slash, padded with blanks to \<^verbatim>\<open>DIRSIZ\<close> bytes. A directory entry is
  its inode number in two bytes and its name in fourteen.
\<close>

definition last_elem :: "bytes \<Rightarrow> bytes" where
  "last_elem path = rev (takeWhile (\<lambda>c. c \<noteq> 47) (rev path))"

definition fmtname :: "bytes \<Rightarrow> bytes" where
  "fmtname path =
     (let p = last_elem path in if length p \<ge> 14 then p else p @ replicate (14 - length p) 32)"

definition ls_line :: "'e usys \<Rightarrow> bytes \<Rightarrow> ustat \<Rightarrow> ('e, unit) um" where
  "ls_line S path st =
     uprintf S (line ''%s %d %d %d'')
       [Astr (fmtname path), Aint (ust_type st), Aint (uint (ust_ino st)), Aint (uint (ust_size st))]"

fun ls_entries :: "'e usys \<Rightarrow> int \<Rightarrow> bytes \<Rightarrow> nat \<Rightarrow> ('e, unit) um" where
  "ls_entries S fd path 0 = (\<lambda>e. UFuel)"
| "ls_entries S fd path (Suc fuel) =
     ubind (ucall (s_read S fd 16)) (\<lambda>(n, x).
     if n \<noteq> 16 then uskip
     else if (le_word (take 2 x) :: uint16) = 0 then ls_entries S fd path fuel
     else
       let name = path @ [47] @ takeWhile (\<lambda>c. c \<noteq> 0) (take 14 (drop 2 x)) in
       ubind (ustat_path S name) (\<lambda>(r, st).
       case st of
         Some st \<Rightarrow>
           if r < 0 then useq (uprintf S (line ''ls: cannot stat %s'') [Astr name]) (ls_entries S fd path fuel)
           else useq (ls_line S name st) (ls_entries S fd path fuel)
       | None \<Rightarrow> useq (uprintf S (line ''ls: cannot stat %s'') [Astr name]) (ls_entries S fd path fuel)))"

definition ls :: "'e usys \<Rightarrow> nat \<Rightarrow> bytes \<Rightarrow> ('e, unit) um" where
  "ls S fuel path =
     ubind (ucall (s_open S path 0)) (\<lambda>fd.
     if fd < 0 then ufprintf S 2 (line ''ls: cannot open %s'') [Astr path]
     else
       ubind (ucall (s_fstat S fd)) (\<lambda>(r, st).
       if r < 0 then
         useq (ufprintf S 2 (line ''ls: cannot stat %s'') [Astr path]) (useq (ucall (s_close S fd)) uskip)
       else
         useq (if ust_type st = 3 \<or> ust_type st = 2 then ls_line S path st
               else if ust_type st = 1 then
                 if ustrlen path + 1 + 14 + 1 > 512 then uprintf S (line ''ls: path too long'') []
                 else ls_entries S fd path fuel
               else uskip)
              (useq (ucall (s_close S fd)) uskip)))"

definition ls_main :: "'e usys \<Rightarrow> nat \<Rightarrow> bytes list \<Rightarrow> ('e, unit) um" where
  "ls_main S fuel argv =
     (if length argv < 2 then useq (ls S fuel [46]) (uexit 0)
      else useq (uiter (ls S fuel) (tl argv)) (uexit 0))"

subsection \<open>echo, kill, ln, rm, mkdir, zombie\<close>

fun echo_args :: "'e usys \<Rightarrow> bytes list \<Rightarrow> ('e, unit) um" where
  "echo_args S [] = uskip"
| "echo_args S (a # as) =
     useq (ucall (s_write S 1 (take (ustrlen a) a))) (
     useq (ucall (s_write S 1 (if as \<noteq> [] then [32] else [10])))
          (echo_args S as))"

definition echo_main :: "'e usys \<Rightarrow> bytes list \<Rightarrow> ('e, unit) um" where
  "echo_main S argv = useq (echo_args S (tl argv)) (uexit 0)"

definition kill_main :: "'e usys \<Rightarrow> bytes list \<Rightarrow> ('e, unit) um" where
  "kill_main S argv =
     (if length argv < 2 then useq (ufprintf S 2 (line ''usage: kill pid...'') []) (uexit 1)
      else useq (uiter (\<lambda>a. useq (ucall (s_kill S (atoi a))) uskip) (tl argv)) (uexit 0))"

definition ln_main :: "'e usys \<Rightarrow> bytes list \<Rightarrow> ('e, unit) um" where
  "ln_main S argv =
     (if length argv \<noteq> 3 then useq (ufprintf S 2 (line ''Usage: ln old new'') []) (uexit 1)
      else ubind (ucall (s_link S (argv ! 1) (argv ! 2))) (\<lambda>r.
           useq (uwhen (r < 0) (ufprintf S 2 (line ''link %s %s: failed'') [Astr (argv ! 1), Astr (argv ! 2)]))
                (uexit 0)))"

fun rm_args :: "'e usys \<Rightarrow> bytes list \<Rightarrow> ('e, unit) um" where
  "rm_args S [] = uskip"
| "rm_args S (a # as) =
     ubind (ucall (s_unlink S a)) (\<lambda>r.
     if r < 0 then ufprintf S 2 (line ''rm: %s failed to delete'') [Astr a] else rm_args S as)"

definition rm_main :: "'e usys \<Rightarrow> bytes list \<Rightarrow> ('e, unit) um" where
  "rm_main S argv =
     (if length argv < 2 then useq (ufprintf S 2 (line ''Usage: rm files...'') []) (uexit 1)
      else useq (rm_args S (tl argv)) (uexit 0))"

fun mkdir_args :: "'e usys \<Rightarrow> bytes list \<Rightarrow> ('e, unit) um" where
  "mkdir_args S [] = uskip"
| "mkdir_args S (a # as) =
     ubind (ucall (s_mkdir S a)) (\<lambda>r.
     if r < 0 then ufprintf S 2 (line ''mkdir: %s failed to create'') [Astr a] else mkdir_args S as)"

definition mkdir_main :: "'e usys \<Rightarrow> bytes list \<Rightarrow> ('e, unit) um" where
  "mkdir_main S argv =
     (if length argv < 2 then useq (ufprintf S 2 (line ''Usage: mkdir files...'') []) (uexit 1)
      else useq (mkdir_args S (tl argv)) (uexit 0))"

definition zombie_main :: "'e usys \<Rightarrow> ('e, unit) um" where
  "zombie_main S =
     ubind (ucall (s_fork S)) (\<lambda>pid.
     useq (uwhen (pid > 0) (useq (ucall (s_pause S 5)) uskip)) (uexit 0))"

subsection \<open>init\<close>

text \<open>
  The outer loop starts a shell, the inner loop waits for it to exit. Both take their turns from \<open>fuel\<close>; \<open>None\<close> is
  the start of a turn of the outer loop and \<open>Some sh\<close> the inner loop.
\<close>

fun init_loop :: "'e usys \<Rightarrow> nat \<Rightarrow> int option \<Rightarrow> ('e, unit) um" where
  "init_loop S 0 w = (\<lambda>e. UFuel)"
| "init_loop S (Suc fuel) None =
     useq (uprintf S (line ''init: starting sh'') []) (
     ubind (ucall (s_fork S)) (\<lambda>pid.
     if pid < 0 then useq (uprintf S (line ''init: fork failed'') []) (uexit 1)
     else if pid = 0 then
       useq (uexec (s_exec S (ascii ''sh'') [ascii ''sh''])) (
       useq (uprintf S (line ''init: exec sh failed'') []) (uexit 1))
     else init_loop S fuel (Some pid)))"
| "init_loop S (Suc fuel) (Some sh) =
     ubind (ucall (s_wait S)) (\<lambda>wpid.
     if wpid = sh then init_loop S fuel None
     else if wpid < 0 then useq (uprintf S (line ''init: wait returned an error'') []) (uexit 1)
     else init_loop S fuel (Some sh))"

definition init_main :: "'e usys \<Rightarrow> nat \<Rightarrow> ('e, unit) um" where
  "init_main S fuel =
     ubind (ucall (s_open S (ascii ''console'') 2)) (\<lambda>fd.
     useq (uwhen (fd < 0)
            (useq (ucall (s_mknod S (ascii ''console'') 1 0))
            (useq (ucall (s_open S (ascii ''console'') 2)) uskip))) (
     useq (ucall (s_dup S 0)) (
     useq (ucall (s_dup S 0)) (
     init_loop S fuel None))))"

subsection \<open>What cat and wc compute\<close>

lemma cat_copies:
  assumes r: "reads S fd inp out" and w: "writes S 1 inp out" and "length (inp e) < fuel"
  shows "\<exists>e'. cat S fd fuel e = UDone () e' \<and> out e' = out e @ inp e \<and> inp e' = []"
  using assms(3)
proof (induction fuel arbitrary: e)
  case (Suc fuel)
  obtain x e1 where x: "s_read S fd 512 e = ((int (length x), x), e1)" "inp e = x @ inp e1"
    "x = [] \<longrightarrow> inp e = []" "out e1 = out e"
    using r [unfolded reads_def, rule_format, of 512 e] by auto
  obtain e2 where e2: "s_write S 1 x e1 = (int (length x), e2)" "out e2 = out e1 @ x" "inp e2 = inp e1"
    using w [unfolded writes_def, rule_format, of x e1] by blast
  show ?case
  proof (cases "x = []")
    case False
    then have "length (inp e2) < fuel" using Suc.prems x e2 by (cases x) auto
    from Suc.IH [OF this] False x e2 show ?thesis by (auto simp: um_defs)
  qed (use x in \<open>simp add: um_defs\<close>)
qed simp

text \<open>The number of words: the positions where a byte that is not white space follows white space or nothing.\<close>

definition word_starts :: "bytes \<Rightarrow> nat" where
  "word_starts xs = length (filter (\<lambda>i. xs ! i \<notin> set wc_space \<and> (i = 0 \<or> xs ! (i - 1) \<in> set wc_space)) [0..<length xs])"

definition wc_of :: "bytes \<Rightarrow> wcount" where
  "wc_of xs = \<lparr>wl = count_list xs 10, ww = word_starts xs, wch = length xs,
     inword = (xs \<noteq> [] \<and> last xs \<notin> set wc_space)\<rparr>"

lemma wc_space_iff: "ustrchr wc_space b \<noteq> None \<longleftrightarrow> b \<in> set wc_space"
  by (simp add: wc_space_def)

lemma word_starts_snoc:
  "word_starts (xs @ [b]) = word_starts xs + (if b \<notin> set wc_space \<and> (xs = [] \<or> last xs \<in> set wc_space) then 1 else 0)"
proof -
  have "filter (\<lambda>i. (xs @ [b]) ! i \<notin> set wc_space \<and> (i = 0 \<or> (xs @ [b]) ! (i - 1) \<in> set wc_space)) [0..<length xs]
      = filter (\<lambda>i. xs ! i \<notin> set wc_space \<and> (i = 0 \<or> xs ! (i - 1) \<in> set wc_space)) [0..<length xs]"
    by (rule filter_cong) (auto simp: nth_append)
  moreover have "xs \<noteq> [] \<Longrightarrow> (xs @ [b]) ! (length xs - 1) = last xs" by (simp add: nth_append last_conv_nth)
  ultimately show ?thesis by (auto simp: word_starts_def)
qed

lemma wc_chars: "fold wc_char ys (wc_of xs) = wc_of (xs @ ys)"
proof (induction ys arbitrary: xs)
  case (Cons b ys)
  have "wc_char b (wc_of xs) = wc_of (xs @ [b])"
    using wc_space_iff [of b]
    by (auto simp: wc_char_def wc_of_def Let_def word_starts_snoc)
  with Cons [of "xs @ [b]"] show ?case by simp
qed simp

lemma wc_loop_counts:
  assumes r: "reads S fd inp out" and "length (inp e) < fuel"
  shows "\<exists>e'. wc_loop S fd fuel (wc_of xs) e = UDone (wc_of (xs @ inp e)) e' \<and> out e' = out e"
  using assms(2)
proof (induction fuel arbitrary: e xs)
  case (Suc fuel)
  obtain x e1 where x: "s_read S fd 512 e = ((int (length x), x), e1)" "inp e = x @ inp e1"
    "x = [] \<longrightarrow> inp e = []" "out e1 = out e"
    using r [unfolded reads_def, rule_format, of 512 e] by auto
  show ?case
  proof (cases "x = []")
    case False
    then have "length (inp e1) < fuel" using Suc.prems x by (cases x) auto
    from Suc.IH [OF this, of "xs @ x"] False x show ?thesis by (auto simp: um_defs wc_chars)
  qed (use x in \<open>simp add: um_defs\<close>)
qed simp

end
