(* ===== verification/Grep.thy ===== *)
theory Grep
  imports User
begin

section \<open>The user program grep\<close>

text \<open>
  \<^verbatim>\<open>user/grep.c\<close>. A pointer into a string is a suffix of it, so that \<open>at0\<close> and \<open>at1\<close> read \<^verbatim>\<open>p[0]\<close> and \<^verbatim>\<open>p[1]\<close>.
\<close>

fun at0 :: "bytes \<Rightarrow> uint8" where
  "at0 [] = 0"
| "at0 (c # cs) = c"

lemma at0_nonzero: "at0 xs \<noteq> 0 \<Longrightarrow> xs \<noteq> []"
  by auto

definition at1 :: "bytes \<Rightarrow> uint8" where
  "at1 cs = at0 (tl cs)"

text \<open>The characters \<^verbatim>\<open>^ * $ .\<close> and newline.\<close>

definition CARET :: uint8 where "CARET = 94"
definition STAR :: uint8 where "STAR = 42"
definition DOLLAR :: uint8 where "DOLLAR = 36"
definition DOT :: uint8 where "DOT = 46"
definition NL :: uint8 where "NL = 10"

function (sequential) matchhere :: "bytes \<Rightarrow> bytes \<Rightarrow> bool"
  and matchstar :: "uint8 \<Rightarrow> bytes \<Rightarrow> bytes \<Rightarrow> bool" where
  "matchhere re tx =
     (if at0 re = 0 then True
      else if at1 re = STAR then matchstar (at0 re) (tl (tl re)) tx
      else if at0 re = DOLLAR \<and> at1 re = 0 then at0 tx = 0
      else if at0 tx \<noteq> 0 \<and> (at0 re = DOT \<or> at0 re = at0 tx) then matchhere (tl re) (tl tx)
      else False)"
| "matchstar c re tx =
     (if matchhere re tx then True
      else if at0 tx \<noteq> 0 \<and> (at0 tx = c \<or> c = DOT) then matchstar c re (tl tx)
      else False)"
  by pat_completeness auto
termination
  by (relation "inv_image (less_than <*lex*> less_than)
    (\<lambda>x. case x of Inl (re, tx) \<Rightarrow> (2 * length re, length tx) | Inr (c, re, tx) \<Rightarrow> (2 * length re + 1, length tx))")
     (auto dest!: at0_nonzero simp: neq_Nil_conv)

declare matchhere.simps [simp del] matchstar.simps [simp del]

fun match_loop :: "bytes \<Rightarrow> bytes \<Rightarrow> bool" where
  "match_loop re [] = matchhere re []"
| "match_loop re (c # cs) = (if matchhere re (c # cs) then True else match_loop re cs)"

definition match :: "bytes \<Rightarrow> bytes \<Rightarrow> bool" where
  "match re tx = (if at0 re = CARET then matchhere (tl re) tx else match_loop re tx)"

text \<open>
  The inner loop from \<^verbatim>\<open>p\<close> on. It writes the lines that match and returns the bytes that \<^verbatim>\<open>memmove\<close> leaves at
  the front of the buffer. The bytes before the newline hold no zero, so they are the string that \<^verbatim>\<open>match\<close> sees.
\<close>

lemma ustrchr_Some:
  "ustrchr xs c = Some k \<Longrightarrow> k < length xs \<and> xs ! k = c \<and> c \<notin> set (take k xs) \<and> 0 \<notin> set (take k xs)"
  by (induction xs arbitrary: k) (auto split: if_splits)

function grep_lines :: "'e usys \<Rightarrow> bytes \<Rightarrow> bytes \<Rightarrow> ('e, bytes) um" where
  "grep_lines S pattern p =
     (case ustrchr p NL of
        None \<Rightarrow> uret p
      | Some q \<Rightarrow>
          useq (uwhen (match pattern (take q p)) (useq (ucall (s_write S 1 (take (q + 1) p))) uskip))
               (grep_lines S pattern (drop (q + 1) p)))"
  by pat_completeness auto
termination
  by (relation "measure (\<lambda>(_, _, p). length p)") (auto dest: ustrchr_Some)

declare grep_lines.simps [simp del]

text \<open>The outer loop, at most \<open>fuel\<close> turns of it; \<open>buf\<close> holds the first \<^verbatim>\<open>m\<close> bytes of the buffer.\<close>

fun grep :: "'e usys \<Rightarrow> bytes \<Rightarrow> int \<Rightarrow> nat \<Rightarrow> bytes \<Rightarrow> ('e, unit) um" where
  "grep S pattern fd 0 buf = (\<lambda>e. UFuel)"
| "grep S pattern fd (Suc fuel) buf =
     ubind (ucall (s_read S fd (1024 - length buf - 1))) (\<lambda>(n, x).
     if n > 0 then
       ubind (grep_lines S pattern (buf @ take (nat n) x)) (\<lambda>rest. grep S pattern fd fuel rest)
     else uskip)"

definition grep_file :: "'e usys \<Rightarrow> bytes \<Rightarrow> nat \<Rightarrow> bytes \<Rightarrow> ('e, unit) um" where
  "grep_file S pattern fuel name =
     ubind (ucall (s_open S name 0)) (\<lambda>fd.
     if fd < 0 then
       useq (uprintf S (''grep: cannot open %s'' @ [CHR 0x0A]) [Astr name]) (uexit 1)
     else
       useq (grep S pattern fd fuel []) (useq (ucall (s_close S fd)) uskip))"

definition grep_main :: "'e usys \<Rightarrow> nat \<Rightarrow> bytes list \<Rightarrow> ('e, unit) um" where
  "grep_main S fuel argv =
     (if length argv \<le> 1 then
        useq (ufprintf S 2 (''usage: grep pattern [file ...]'' @ [CHR 0x0A]) []) (uexit 1)
      else if length argv \<le> 2 then useq (grep S (argv ! 1) 0 fuel []) (uexit 0)
      else useq (uiter (grep_file S (argv ! 1) fuel) (drop 2 argv)) (uexit 0))"

subsection \<open>The matcher and its patterns\<close>

datatype atom = Any | Byte uint8
datatype item = One atom | Many atom

fun atom_ok :: "atom \<Rightarrow> uint8 \<Rightarrow> bool" where
  "atom_ok Any c = True"
| "atom_ok (Byte b) c = (b = c)"

definition atom_of :: "uint8 \<Rightarrow> atom" where
  "atom_of c = (if c = DOT then Any else Byte c)"

text \<open>A pattern without its leading \<^verbatim>\<open>^\<close>: its items, and whether it ends with \<^verbatim>\<open>$\<close>.\<close>

fun parse :: "bytes \<Rightarrow> item list \<times> bool" where
  "parse [] = ([], False)"
| "parse [c] = (if c = DOLLAR then ([], True) else ([One (atom_of c)], False))"
| "parse (c # d # cs) =
     (if d = STAR then apfst (Cons (Many (atom_of c))) (parse cs)
      else apfst (Cons (One (atom_of c))) (parse (d # cs)))"

text \<open>\<open>accepts is w\<close>: the items match exactly \<open>w\<close>. \<open>begins\<close>: they match at the beginning of the text.\<close>

inductive accepts :: "item list \<Rightarrow> bytes \<Rightarrow> bool" where
  acc_end: "accepts [] []"
| acc_one: "atom_ok a c \<Longrightarrow> accepts is w \<Longrightarrow> accepts (One a # is) (c # w)"
| acc_none: "accepts is w \<Longrightarrow> accepts (Many a # is) w"
| acc_many: "atom_ok a c \<Longrightarrow> accepts (Many a # is) w \<Longrightarrow> accepts (Many a # is) (c # w)"

inductive_simps accepts_Nil [simp]: "accepts [] w"
inductive_simps accepts_One: "accepts (One a # is) w"
inductive_simps accepts_Many: "accepts (Many a # is) w"

definition begins :: "item list \<times> bool \<Rightarrow> bytes \<Rightarrow> bool" where
  "begins p tx \<longleftrightarrow> (\<exists>u v. tx = u @ v \<and> accepts (fst p) u \<and> (snd p \<longrightarrow> v = []))"

lemma beginsI: "accepts is u \<Longrightarrow> (b \<Longrightarrow> v = []) \<Longrightarrow> tx = u @ v \<Longrightarrow> begins (is, b) tx"
  by (auto simp: begins_def)

lemma beginsE:
  assumes "begins (is, b) tx"
  obtains u v where "tx = u @ v" "accepts is u" "b \<Longrightarrow> v = []"
  using assms by (auto simp: begins_def)

lemma begins_Nil [simp]: "begins ([], b) tx \<longleftrightarrow> (b \<longrightarrow> tx = [])"
  by (auto simp: begins_def)

lemma begins_One:
  "begins (One a # is, b) tx \<longleftrightarrow> (\<exists>c t. tx = c # t \<and> atom_ok a c \<and> begins (is, b) t)"
proof
  assume "begins (One a # is, b) tx"
  then obtain u v where u: "tx = u @ v" "accepts (One a # is) u" "b \<Longrightarrow> v = []" by (rule beginsE) blast
  from u(2) obtain c w where "u = c # w" "atom_ok a c" "accepts is w" unfolding accepts_One by blast
  moreover from this u have "begins (is, b) (w @ v)" by (blast intro: beginsI)
  ultimately show "\<exists>c t. tx = c # t \<and> atom_ok a c \<and> begins (is, b) t" using u(1) by simp
qed (auto elim!: beginsE intro: beginsI acc_one)

lemma begins_Many:
  "begins (Many a # is, b) tx \<longleftrightarrow>
     begins (is, b) tx \<or> (\<exists>c t. tx = c # t \<and> atom_ok a c \<and> begins (Many a # is, b) t)"
proof
  assume "begins (Many a # is, b) tx"
  then obtain u v where u: "tx = u @ v" "accepts (Many a # is) u" "b \<Longrightarrow> v = []" by (rule beginsE) blast
  from u(2) consider "accepts is u" | c w where "u = c # w" "atom_ok a c" "accepts (Many a # is) w"
    unfolding accepts_Many [of a "is" u] by blast
  then show "begins (is, b) tx \<or> (\<exists>c t. tx = c # t \<and> atom_ok a c \<and> begins (Many a # is, b) t)"
  proof cases
    case 1
    with u show ?thesis by (blast intro: beginsI)
  next
    case 2
    moreover from this u have "begins (Many a # is, b) (w @ v)" by (blast intro: beginsI)
    ultimately show ?thesis using u(1) by simp
  qed
next
  assume "begins (is, b) tx \<or> (\<exists>c t. tx = c # t \<and> atom_ok a c \<and> begins (Many a # is, b) t)"
  then show "begins (Many a # is, b) tx"
  proof (elim disjE exE conjE)
    assume "begins (is, b) tx"
    then show ?thesis by (rule beginsE) (rule beginsI [OF acc_none])
  next
    fix c t
    assume tx: "tx = c # t" and c: "atom_ok a c" and t: "begins (Many a # is, b) t"
    from t obtain u v where "t = u @ v" "accepts (Many a # is) u" "b \<Longrightarrow> v = []" by (rule beginsE) blast
    then show ?thesis using tx beginsI [OF acc_many [OF c], of "is" u b v] by simp
  qed
qed

lemma parse_Cons:
  "parse (c # cs) =
     (if at0 cs = STAR then apfst (Cons (Many (atom_of c))) (parse (tl cs))
      else if c = DOLLAR \<and> cs = [] then ([], True)
      else apfst (Cons (One (atom_of c))) (parse cs))"
  by (cases cs) (auto simp: STAR_def)

lemma atom_of_ok: "atom_ok (atom_of a) c \<longleftrightarrow> a = DOT \<or> a = c"
  by (simp add: atom_of_def)

lemma apfst_pair: "apfst f p = (f (fst p), snd p)"
  by (cases p) simp

lemma notin_tl: "x \<notin> set xs \<Longrightarrow> x \<notin> set (tl xs)"
  by (cases xs) auto

lemma matcher_correct:
  shows "0 \<notin> set re \<Longrightarrow> 0 \<notin> set tx \<Longrightarrow> matchhere re tx \<longleftrightarrow> begins (parse re) tx"
    and "0 \<notin> set re \<Longrightarrow> 0 \<notin> set tx \<Longrightarrow>
     matchstar c re tx \<longleftrightarrow> begins (Many (atom_of c) # fst (parse re), snd (parse re)) tx"
proof (induction re tx and c re tx rule: matchhere_matchstar.induct)
  case (1 re tx)
  show ?case
  proof (cases re)
    case Nil
    then show ?thesis by (simp add: matchhere.simps)
  next
    case (Cons a r)
    have z: "a \<noteq> 0" "0 \<notin> set r" "0 \<notin> set (tl r)" "0 \<notin> set (tl tx)"
      using "1.prems" Cons by (auto dest: notin_tl)
    have "0 \<notin> set tx" using "1.prems" by simp
    then have t: "at0 tx = 0 \<longleftrightarrow> tx = []" "at0 r = 0 \<longleftrightarrow> r = []" "0 \<notin> set tx" using z by (cases tx; cases r; auto)+
    have c: "STAR \<noteq> 0" "DOLLAR \<noteq> DOT" by (simp_all add: STAR_def DOLLAR_def DOT_def)
    show ?thesis
    proof (cases "at0 r = STAR \<or> a = DOLLAR \<and> r = []")
      case True
      then show ?thesis using "1.IH"(1) z t c Cons unfolding matchhere.simps [of re tx]
        by (auto simp: parse_Cons at1_def apfst_pair)
    next
      case False
      then show ?thesis using "1.IH"(2) z t c Cons unfolding matchhere.simps [of re tx]
        by (cases tx) (auto simp: parse_Cons at1_def begins_One apfst_pair atom_of_ok)
    qed
  qed
next
  case (2 c re tx)
  have "at0 tx = 0 \<longleftrightarrow> tx = []" using "2.prems" by (cases tx) auto
  moreover have "0 \<notin> set (tl tx)" using "2.prems" by (auto dest: notin_tl)
  ultimately show ?case
    using "2.IH" "2.prems" unfolding matchstar.simps [of c re tx] begins_Many [of _ _ _ tx]
    by (cases tx) (auto simp: atom_of_ok)
qed

lemma match_loop_iff: "match_loop re tx \<longleftrightarrow> (\<exists>u v. tx = u @ v \<and> matchhere re v)"
proof (induction tx)
  case (Cons c cs)
  then show ?case by (auto simp: Cons_eq_append_conv)
qed simp

subsection \<open>Lines\<close>

text \<open>The complete lines of a text, and what follows the last newline.\<close>

fun split_lines :: "bytes \<Rightarrow> bytes list \<times> bytes" where
  "split_lines [] = ([], [])"
| "split_lines (c # cs) =
     (case split_lines cs of (ls, t) \<Rightarrow>
        if c = NL then ([] # ls, t)
        else case ls of [] \<Rightarrow> ([], c # t) | l # ls' \<Rightarrow> ((c # l) # ls', t))"

definition selected :: "bytes \<Rightarrow> bytes list \<Rightarrow> bytes" where
  "selected pattern ls = concat (map (\<lambda>l. l @ [NL]) (filter (match pattern) ls))"

lemma split_lines_line: "NL \<notin> set l \<Longrightarrow> split_lines (l @ NL # r) = (l # fst (split_lines r), snd (split_lines r))"
  by (induction l) (auto split: prod.splits)

lemma split_lines_none: "NL \<notin> set l \<Longrightarrow> split_lines l = ([], l)"
  by (induction l) auto

lemma split_lines_append:
  "split_lines (p @ r) = (fst (split_lines p) @ fst (split_lines (snd (split_lines p) @ r)), snd (split_lines (snd (split_lines p) @ r)))"
  by (induction p) (auto split: prod.splits list.splits)

lemma split_lines_tail: "NL \<notin> set (snd (split_lines p))" "length (snd (split_lines p)) \<le> length p"
  by (induction p) (auto split: prod.splits list.splits)

lemma split_lines_set: "set (snd (split_lines p)) \<subseteq> set p"
  by (induction p) (auto split: prod.splits list.splits if_splits)

lemma ustrchr_None: "0 \<notin> set xs \<Longrightarrow> ustrchr xs c = None \<longleftrightarrow> c \<notin> set xs"
  by (induction xs) auto

subsection \<open>The loops\<close>

lemma grep_lines_ok:
  assumes w: "writes S 1 inp out" and "0 \<notin> set p"
  shows "\<exists>e'. grep_lines S pattern p e = UDone (snd (split_lines p)) e'
    \<and> out e' = out e @ selected pattern (fst (split_lines p)) \<and> inp e' = inp e"
  using assms(2)
proof (induction "length p" arbitrary: p e rule: less_induct)
  case less
  show ?case
  proof (cases "ustrchr p NL")
    case None
    then have "NL \<notin> set p" using less.prems by (simp add: ustrchr_None)
    then show ?thesis
      by (subst grep_lines.simps) (simp add: None split_lines_none selected_def uret_def)
  next
    case (Some q)
    then have q: "q < length p" "p ! q = NL" "NL \<notin> set (take q p)" by (auto dest: ustrchr_Some)
    then have p: "p = take q p @ NL # drop (q + 1) p" by (metis Suc_eq_plus1 id_take_nth_drop)
    have sp: "split_lines p = (take q p # fst (split_lines (drop (q + 1) p)), snd (split_lines (drop (q + 1) p)))"
      using split_lines_line [OF q(3)] p by metis
    have t: "take (q + 1) p = take q p @ [NL]" using q by (simp add: take_Suc_conv_app_nth)
    define e1 where "e1 = (if match pattern (take q p) then snd (s_write S 1 (take (q + 1) p) e) else e)"
    have e1: "uwhen (match pattern (take q p)) (useq (ucall (s_write S 1 (take (q + 1) p))) uskip) e = UDone () e1"
      by (simp add: um_defs e1_def split: prod.splits)
    have o1: "out e1 = out e @ selected pattern [take q p]" "inp e1 = inp e"
      using w [unfolded writes_def, rule_format, of "take (q + 1) p" e] t by (auto simp: e1_def selected_def)
    have len: "length (drop (q + 1) p) < length p" using q(1) by simp
    have "0 \<notin> set (drop (q + 1) p)" using less.prems by (meson in_set_dropD)
    then obtain e' where "grep_lines S pattern (drop (q + 1) p) e1 = UDone (snd (split_lines (drop (q + 1) p))) e'"
      "out e' = out e1 @ selected pattern (fst (split_lines (drop (q + 1) p)))" "inp e' = inp e1"
      using less.hyps [of "drop (q + 1) p" e1] len by blast
    then show ?thesis
      using e1 o1 by (subst grep_lines.simps) (simp add: Some sp useq_def ubind_def selected_def)
  qed
qed

lemma grep_ok:
  assumes r: "reads S fd inp out" and w: "writes S 1 inp out"
    and "0 \<notin> set (buf @ inp e)" "NL \<notin> set buf" "length (inp e) < fuel"
    and "\<forall>l\<in>set (fst (split_lines (buf @ inp e))). length l < 1023"
  shows "\<exists>e'. grep S pattern fd fuel buf e = UDone () e'
    \<and> out e' = out e @ selected pattern (fst (split_lines (buf @ inp e)))"
  using assms(3-)
proof (induction fuel arbitrary: buf e)
  case (Suc fuel)
  obtain x e1 where x: "s_read S fd (1024 - length buf - 1) e = ((int (length x), x), e1)" "inp e = x @ inp e1"
    "x = [] \<longrightarrow> 1024 - length buf - 1 = 0 \<or> inp e = []" "out e1 = out e"
    using r [unfolded reads_def, rule_format, of "1024 - length buf - 1" e] by blast
  show ?case
  proof (cases "x = []")
    case True
    have "fst (split_lines (buf @ inp e)) = []"
    proof (cases "inp e = []")
      case False
      then have long: "1023 \<le> length buf" using x True by simp
      show ?thesis
      proof (cases "NL \<in> set (inp e)")
        case nl: True
        then obtain a b where ab: "inp e = a @ NL # b" "NL \<notin> set a" by (meson split_list_first)
        then have "split_lines ((buf @ a) @ NL # b) = ((buf @ a) # fst (split_lines b), snd (split_lines b))"
          using Suc.prems(2) by (intro split_lines_line) simp
        with ab Suc.prems(4) long show ?thesis by simp
      qed (use Suc.prems(2) in \<open>simp add: split_lines_none\<close>)
    qed (use Suc.prems(2) in \<open>simp add: split_lines_none\<close>)
    with True x show ?thesis by (simp add: um_defs selected_def)
  next
    case False
    define p where "p = buf @ x"
    have p0: "0 \<notin> set p" using Suc.prems(1) x(2) by (auto simp: p_def)
    obtain e2 where e2: "grep_lines S pattern p e1 = UDone (snd (split_lines p)) e2"
      "out e2 = out e1 @ selected pattern (fst (split_lines p))" "inp e2 = inp e1"
      using grep_lines_ok [OF w p0] by blast
    have sp: "split_lines (buf @ inp e) = (fst (split_lines p) @ fst (split_lines (snd (split_lines p) @ inp e1)), snd (split_lines (snd (split_lines p) @ inp e1)))"
      unfolding x(2) append_assoc [symmetric] p_def by (rule split_lines_append)
    have "set (snd (split_lines p)) \<subseteq> set p" by (rule split_lines_set)
    then have "0 \<notin> set (snd (split_lines p) @ inp e2)" using p0 Suc.prems(1) x(2) e2(3) by auto
    moreover have "length (inp e2) < fuel" using Suc.prems(3) x(2) e2(3) False by (cases x) auto
    moreover have "\<forall>l\<in>set (fst (split_lines (snd (split_lines p) @ inp e2))). length l < 1023"
      using Suc.prems(4) sp e2(3) by auto
    ultimately obtain e' where "grep S pattern fd fuel (snd (split_lines p)) e2 = UDone () e'"
      "out e' = out e2 @ selected pattern (fst (split_lines (snd (split_lines p) @ inp e2)))"
      using Suc.IH split_lines_tail(1) by blast
    then show ?thesis using x e2 sp False by (simp add: um_defs p_def [symmetric] selected_def)
  qed
qed simp

subsection \<open>Properties\<close>

text \<open>
  C38. The recursive matcher decides the language of its pattern. A pattern that begins with \<^verbatim>\<open>^\<close> matches the texts
  that begin with a word of the rest of the pattern, any other pattern the texts that contain one; a word of a
  pattern is a sequence of its items, where \<^verbatim>\<open>.\<close> is any byte and \<^verbatim>\<open>x*\<close> any number of \<^verbatim>\<open>x\<close>, and with a final
  \<^verbatim>\<open>$\<close> it must end the text. Neither string contains the byte zero, since both are C strings.
\<close>

theorem match_equivalent:
  assumes "0 \<notin> set re" and "0 \<notin> set tx"
  shows "match re tx \<longleftrightarrow>
    (if at0 re = CARET then begins (parse (tl re)) tx else \<exists>u v. tx = u @ v \<and> begins (parse re) v)"
proof -
  have "matchhere re v \<longleftrightarrow> begins (parse re) v" if "tx = u @ v" for u v
    using assms that by (intro matcher_correct(1)) auto
  then have "(\<exists>u v. tx = u @ v \<and> matchhere re v) \<longleftrightarrow> (\<exists>u v. tx = u @ v \<and> begins (parse re) v)" by blast
  moreover have "matchhere (tl re) tx \<longleftrightarrow> begins (parse (tl re)) tx"
    using assms by (intro matcher_correct(1) notin_tl)
  ultimately show ?thesis by (simp add: match_def match_loop_iff)
qed

theorem match_equivalent_witness:
  "match (ascii ''^a.*c$'') (ascii ''abbc'') \<and> begins (parse (ascii ''a.*c$'')) (ascii ''abbc'')"
proof -
  have "match (ascii ''^a.*c$'') (ascii ''abbc'')" by code_simp
  moreover have "at0 (ascii ''^a.*c$'') = CARET" "tl (ascii ''^a.*c$'') = ascii ''a.*c$''" by code_simp+
  moreover have "0 \<notin> set (ascii ''^a.*c$'')" "0 \<notin> set (ascii ''abbc'')" by code_simp+
  ultimately show ?thesis using match_equivalent [of "ascii ''^a.*c$''" "ascii ''abbc''"] by simp
qed

text \<open>
  C39. Whatever the sizes of the pieces in which \<^verbatim>\<open>read\<close> delivers the input, \<^verbatim>\<open>grep\<close> ends and writes exactly the
  complete lines that match, each with its newline, in their order. The input contains no zero byte and no line longer
  than the buffer leaves room for; a last line without newline is not searched.
\<close>

theorem grep_output:
  assumes "reads S fd inp out" and "writes S 1 inp out"
    and "0 \<notin> set (inp e)" and "\<forall>l\<in>set (fst (split_lines (inp e))). length l < 1023"
    and "length (inp e) < fuel"
  shows "\<exists>e'. grep S pattern fd fuel [] e = UDone () e'
    \<and> out e' = out e @ concat (map (\<lambda>l. l @ [NL]) (filter (match pattern) (fst (split_lines (inp e)))))"
  using grep_ok [OF assms(1,2), of "[]" e fuel pattern] assms(3-) by (simp add: selected_def)

theorem grep_output_witness:
  "\<exists>e'. grep stdio_ex (ascii ''b'') 0 20 [] (ascii ''ab'' @ [NL] @ ascii ''cd'' @ [NL] @ ascii ''eb'', []) = UDone () e'
    \<and> snd e' = ascii ''ab'' @ [NL]"
proof -
  let ?i = "ascii ''ab'' @ [NL] @ ascii ''cd'' @ [NL] @ ascii ''eb''"
  have r: "reads stdio_ex 0 fst snd" "writes stdio_ex 1 fst snd"
    by (auto simp: reads_def writes_def stdio_ex_def)
  have "0 \<notin> set ?i" "\<forall>l\<in>set (fst (split_lines ?i)). length l < 1023" "length ?i < 20" by code_simp+
  then obtain e' where "grep stdio_ex (ascii ''b'') 0 20 [] (?i, []) = UDone () e'"
    "snd e' = concat (map (\<lambda>l. l @ [NL]) (filter (match (ascii ''b'')) (fst (split_lines ?i))))"
    using grep_output [OF r, of "(?i, [])" 20 "ascii ''b''"] by auto
  moreover have "concat (map (\<lambda>l. l @ [NL]) (filter (match (ascii ''b'')) (fst (split_lines ?i)))) = ascii ''ab'' @ [NL]"
    by code_simp
  ultimately show ?thesis by metis
qed

end
