(* ===== verification/Shell.thy ===== *)
theory Shell
  imports Uprogs
begin

section \<open>The shell\<close>

text \<open>
  \<^verbatim>\<open>user/sh.c\<close>. The parser works on pointers into the line buffer: here the line is the list \<open>b\<close> of its bytes before
  the terminating zero, a pointer into it is an offset, and \<^verbatim>\<open>es\<close> is \<open>length b\<close>. A parsed command holds the offsets
  of the first byte and of the end of each of its words; \<^verbatim>\<open>nulterminate\<close> stores a zero at the ends, and then the
  words are C strings. The recursive functions take the depth they may still recurse to; \<open>parse_fuel\<close> is enough for
  every line. A parser function returns a command and the new value of \<^verbatim>\<open>*ps\<close>, or what is printed before the
  \<^verbatim>\<open>panic\<close> that ends the shell's child. The allocations of the constructors are taken to succeed.
\<close>

datatype cmd =
    EXEC "(nat \<times> nat) list"
  | REDIR cmd nat nat int int
  | PIPE cmd cmd
  | LIST cmd cmd
  | BACK cmd

datatype 'a pres = POk 'a nat | PErr bytes | PFuel

definition pbind :: "'a pres \<Rightarrow> ('a \<Rightarrow> nat \<Rightarrow> 'b pres) \<Rightarrow> 'b pres" where
  "pbind r f = (case r of POk x s \<Rightarrow> f x s | PErr m \<Rightarrow> PErr m | PFuel \<Rightarrow> PFuel)"

definition MAXARGS :: nat where "MAXARGS = 10"

text \<open>The characters \<^verbatim>\<open>< > | & ; ( )\<close> and the tokens \<^verbatim>\<open>+\<close> and \<^verbatim>\<open>a\<close>.\<close>

abbreviation LT :: uint8 where "LT \<equiv> 60"
abbreviation GT :: uint8 where "GT \<equiv> 62"
abbreviation BAR :: uint8 where "BAR \<equiv> 124"
abbreviation AMP :: uint8 where "AMP \<equiv> 38"
abbreviation SEMI :: uint8 where "SEMI \<equiv> 59"
abbreviation LP :: uint8 where "LP \<equiv> 40"
abbreviation RP :: uint8 where "RP \<equiv> 41"
abbreviation PLUS :: uint8 where "PLUS \<equiv> 43"
abbreviation WORD :: uint8 where "WORD \<equiv> 97"

definition whitespace :: bytes where "whitespace = [32, 9, 13, 10, 11]"
definition symbols :: bytes where "symbols = [LT, BAR, GT, AMP, SEMI, LP, RP]"

definition is_space :: "uint8 \<Rightarrow> bool" where "is_space c = (ustrchr whitespace c \<noteq> None)"
definition is_symbol :: "uint8 \<Rightarrow> bool" where "is_symbol c = (ustrchr symbols c \<noteq> None)"

subsection \<open>Tokens\<close>

function skip_space :: "bytes \<Rightarrow> nat \<Rightarrow> nat" where
  "skip_space b s = (if s < length b \<and> is_space (str_at b s) then skip_space b (s + 1) else s)"
  by pat_completeness auto
termination by (relation "measure (\<lambda>(b, s). length b - s)") auto

function skip_word :: "bytes \<Rightarrow> nat \<Rightarrow> nat" where
  "skip_word b s =
     (if s < length b \<and> \<not> is_space (str_at b s) \<and> \<not> is_symbol (str_at b s) then skip_word b (s + 1) else s)"
  by pat_completeness auto
termination by (relation "measure (\<lambda>(b, s). length b - s)") auto

declare skip_space.simps [simp del] skip_word.simps [simp del]

text \<open>The switch: the token at \<open>s\<close> and its end.\<close>

definition token_at :: "bytes \<Rightarrow> nat \<Rightarrow> uint8 \<times> nat" where
  "token_at b s =
     (let c = str_at b s in
      if c = 0 then (0, s)
      else if c = BAR \<or> c = LP \<or> c = RP \<or> c = SEMI \<or> c = AMP \<or> c = LT then (c, s + 1)
      else if c = GT then (if str_at b (s + 1) = GT then (PLUS, s + 2) else (c, s + 1))
      else (WORD, skip_word b s))"

text \<open>The result is the token, \<^verbatim>\<open>*q\<close>, \<^verbatim>\<open>*eq\<close> and the new \<^verbatim>\<open>*ps\<close>.\<close>

definition gettoken :: "bytes \<Rightarrow> nat \<Rightarrow> uint8 \<times> nat \<times> nat \<times> nat" where
  "gettoken b s0 =
     (let s = skip_space b s0; (ret, e) = token_at b s in (ret, s, e, skip_space b e))"

definition peek :: "bytes \<Rightarrow> nat \<Rightarrow> bytes \<Rightarrow> bool \<times> nat" where
  "peek b s0 toks =
     (let s = skip_space b s0 in (str_at b s \<noteq> 0 \<and> ustrchr toks (str_at b s) \<noteq> None, s))"

text \<open>\<^verbatim>\<open>gettoken(ps, es, 0, 0)\<close>: only the new \<^verbatim>\<open>*ps\<close> is used.\<close>

definition next_token :: "bytes \<Rightarrow> nat \<Rightarrow> nat" where
  "next_token b s = (case gettoken b s of (_, _, _, s') \<Rightarrow> s')"

subsection \<open>The parser\<close>

text \<open>\<^verbatim>\<open>O_RDONLY\<close>, \<^verbatim>\<open>O_WRONLY|O_CREATE|O_TRUNC\<close>, \<^verbatim>\<open>O_WRONLY|O_CREATE\<close>.\<close>

definition redir :: "uint8 \<Rightarrow> cmd \<Rightarrow> nat \<Rightarrow> nat \<Rightarrow> cmd" where
  "redir tok c q eq =
     (if tok = LT then REDIR c q eq 0 0
      else if tok = GT then REDIR c q eq 0x601 1
      else if tok = PLUS then REDIR c q eq 0x201 1
      else c)"

fun parseredirs :: "nat \<Rightarrow> bytes \<Rightarrow> cmd \<Rightarrow> nat \<Rightarrow> cmd pres" where
  "parseredirs 0 b c s0 = PFuel"
| "parseredirs (Suc f) b c s0 =
     (case peek b s0 [LT, GT] of (p, s) \<Rightarrow>
      if \<not> p then POk c s
      else case gettoken b s of (tok, _, _, s1) \<Rightarrow>
           case gettoken b s1 of (t, q, eq, s2) \<Rightarrow>
           if t \<noteq> WORD then PErr (ascii ''missing file for redirection'')
           else parseredirs f b (redir tok c q eq) s2)"

text \<open>
  \<^verbatim>\<open>cmd->argv[argc] = q; cmd->eargv[argc] = eq; argc++\<close>: the redirections wrapped around the \<^verbatim>\<open>execcmd\<close> point to it,
  so the new word appears below them.
\<close>

fun push_arg :: "nat \<Rightarrow> nat \<Rightarrow> cmd \<Rightarrow> cmd" where
  "push_arg q eq (EXEC as) = EXEC (as @ [(q, eq)])"
| "push_arg q eq (REDIR c f ef m fd) = REDIR (push_arg q eq c) f ef m fd"
| "push_arg q eq c = c"

fun argc_of :: "cmd \<Rightarrow> nat" where
  "argc_of (EXEC as) = length as"
| "argc_of (REDIR c f ef m fd) = argc_of c"
| "argc_of c = 0"

fun exec_loop :: "nat \<Rightarrow> bytes \<Rightarrow> cmd \<Rightarrow> nat \<Rightarrow> cmd pres" where
  "exec_loop 0 b ret s0 = PFuel"
| "exec_loop (Suc f) b ret s0 =
     (case peek b s0 [BAR, RP, AMP, SEMI] of (p, s) \<Rightarrow>
      if p then POk ret s
      else case gettoken b s of (tok, q, eq, s1) \<Rightarrow>
        if tok = 0 then POk ret s1
        else if tok \<noteq> WORD then PErr (ascii ''syntax'')
        else let ret = push_arg q eq ret in
          if argc_of ret \<ge> MAXARGS then PErr (ascii ''too many args'')
          else pbind (parseredirs f b ret s1) (exec_loop f b))"

fun back_loop :: "nat \<Rightarrow> bytes \<Rightarrow> cmd \<Rightarrow> nat \<Rightarrow> cmd pres" where
  "back_loop 0 b c s0 = PFuel"
| "back_loop (Suc f) b c s0 =
     (case peek b s0 [AMP] of (p, s) \<Rightarrow>
      if p then back_loop f b (BACK c) (next_token b s) else POk c s)"

fun parseline :: "nat \<Rightarrow> bytes \<Rightarrow> nat \<Rightarrow> cmd pres"
  and parsepipe :: "nat \<Rightarrow> bytes \<Rightarrow> nat \<Rightarrow> cmd pres"
  and parseexec :: "nat \<Rightarrow> bytes \<Rightarrow> nat \<Rightarrow> cmd pres"
  and parseblock :: "nat \<Rightarrow> bytes \<Rightarrow> nat \<Rightarrow> cmd pres" where
  "parseline 0 b s0 = PFuel"
| "parseline (Suc f) b s0 =
     pbind (parsepipe f b s0) (\<lambda>c s1.
     pbind (back_loop f b c s1) (\<lambda>c s2.
     case peek b s2 [SEMI] of (p, s) \<Rightarrow>
     if p then pbind (parseline f b (next_token b s)) (\<lambda>d s'. POk (LIST c d) s')
     else POk c s))"
| "parsepipe 0 b s0 = PFuel"
| "parsepipe (Suc f) b s0 =
     pbind (parseexec f b s0) (\<lambda>c s1.
     case peek b s1 [BAR] of (p, s) \<Rightarrow>
     if p then pbind (parsepipe f b (next_token b s)) (\<lambda>d s'. POk (PIPE c d) s')
     else POk c s)"
| "parseexec 0 b s0 = PFuel"
| "parseexec (Suc f) b s0 =
     (case peek b s0 [LP] of (p, s) \<Rightarrow>
      if p then parseblock f b s
      else pbind (parseredirs f b (EXEC []) s) (exec_loop f b))"
| "parseblock 0 b s0 = PFuel"
| "parseblock (Suc f) b s0 =
     (case peek b s0 [LP] of (p, s) \<Rightarrow>
      if \<not> p then PErr (ascii ''parseblock'')
      else pbind (parseline f b (next_token b s)) (\<lambda>c s1.
        case peek b s1 [RP] of (p, s) \<Rightarrow>
        if \<not> p then PErr (ascii ''syntax - missing )'')
        else parseredirs f b c (next_token b s)))"

definition parse_fuel :: "bytes \<Rightarrow> nat" where
  "parse_fuel b = 4 * length b + 5"

text \<open>\<^verbatim>\<open>nulterminate\<close> stores into the buffer, which ends with its terminating zero.\<close>

fun nulterminate :: "cmd \<Rightarrow> bytes \<Rightarrow> bytes" where
  "nulterminate (EXEC as) m = fold (\<lambda>(q, eq) m. m[eq := 0]) as m"
| "nulterminate (REDIR c q eq md fd) m = (nulterminate c m)[eq := 0]"
| "nulterminate (PIPE c d) m = nulterminate d (nulterminate c m)"
| "nulterminate (LIST c d) m = nulterminate d (nulterminate c m)"
| "nulterminate (BACK c) m = nulterminate c m"

text \<open>The result of \<^verbatim>\<open>parsecmd\<close>: the command, and the buffer its pointers point into.\<close>

definition parsecmd :: "bytes \<Rightarrow> (cmd \<times> bytes) pres" where
  "parsecmd b =
     pbind (parseline (parse_fuel b) b 0) (\<lambda>c s1.
     case peek b s1 [] of (_, s) \<Rightarrow>
     if s \<noteq> length b then PErr (ascii ''leftovers: '' @ drop s b @ [10] @ ascii ''syntax'')
     else POk (c, nulterminate c (b @ [0])) s)"

subsection \<open>Running a command\<close>

text \<open>
  After \<^verbatim>\<open>nulterminate\<close> the strings of a command are C strings. \<open>ast\<close> is a command with its strings, \<open>abs_cmd\<close> the one
  that a parsed command stands for when its words are read with \<open>w\<close>.
\<close>

datatype ast =
    Exec "bytes list"
  | Redir ast bytes int int
  | Pipe ast ast
  | List ast ast
  | Back ast

definition cstr :: "bytes \<Rightarrow> nat \<Rightarrow> bytes" where
  "cstr m q = takeWhile (\<lambda>c. c \<noteq> 0) (drop q m)"

fun abs_cmd :: "(nat \<Rightarrow> nat \<Rightarrow> bytes) \<Rightarrow> cmd \<Rightarrow> ast" where
  "abs_cmd w (EXEC as) = Exec (map (\<lambda>(q, eq). w q eq) as)"
| "abs_cmd w (REDIR c q eq m fd) = Redir (abs_cmd w c) (w q eq) m fd"
| "abs_cmd w (PIPE c d) = Pipe (abs_cmd w c) (abs_cmd w d)"
| "abs_cmd w (LIST c d) = List (abs_cmd w c) (abs_cmd w d)"
| "abs_cmd w (BACK c) = Back (abs_cmd w c)"

definition upanic :: "'e usys \<Rightarrow> bytes \<Rightarrow> ('e, 'a) um" where
  "upanic S msg = useq (ufprintf S 2 (line ''%s'') [Astr msg]) (uexit 1)"

definition fork1 :: "'e usys \<Rightarrow> ('e, int) um" where
  "fork1 S = ubind (ucall (s_fork S)) (\<lambda>p. if p = -1 then upanic S (ascii ''fork'') else uret p)"

fun runcmd :: "'e usys \<Rightarrow> ast \<Rightarrow> ('e, unit) um" where
  "runcmd S (Exec ws) =
     (case ws of
        [] \<Rightarrow> uexit 1
      | w # _ \<Rightarrow>
          useq (uexec (s_exec S w ws)) (
          useq (ufprintf S 2 (line ''exec %s failed'') [Astr w]) (uexit 0)))"
| "runcmd S (Redir c w m fd) =
     useq (ucall (s_close S fd)) (
     ubind (ucall (s_open S w m)) (\<lambda>r.
     if r < 0 then useq (ufprintf S 2 (line ''open %s failed'') [Astr w]) (uexit 1)
     else runcmd S c))"
| "runcmd S (List c d) =
     ubind (fork1 S) (\<lambda>p.
     if p = 0 then runcmd S c
     else useq (ucall (s_wait S)) (runcmd S d))"
| "runcmd S (Pipe c d) =
     ubind (ucall (s_pipe S)) (\<lambda>(r, p0, p1).
     if r < 0 then upanic S (ascii ''pipe'')
     else ubind (fork1 S) (\<lambda>pl.
       if pl = 0 then
         useq (ucall (s_close S 1)) (
         useq (ucall (s_dup S p1)) (
         useq (ucall (s_close S p0)) (
         useq (ucall (s_close S p1)) (
         runcmd S c))))
       else ubind (fork1 S) (\<lambda>pr.
         if pr = 0 then
           useq (ucall (s_close S 0)) (
           useq (ucall (s_dup S p0)) (
           useq (ucall (s_close S p0)) (
           useq (ucall (s_close S p1)) (
           runcmd S d))))
         else
           useq (ucall (s_close S p0)) (
           useq (ucall (s_close S p1)) (
           useq (ucall (s_wait S)) (
           useq (ucall (s_wait S)) (
           uexit 0)))))))"
| "runcmd S (Back c) = ubind (fork1 S) (\<lambda>p. if p = 0 then runcmd S c else uexit 0)"

subsection \<open>The main loop\<close>

text \<open>\<^verbatim>\<open>getcmd\<close> returns the line, or \<open>None\<close> at the end of the input.\<close>

definition getcmd :: "'e usys \<Rightarrow> nat \<Rightarrow> ('e, bytes option) um" where
  "getcmd S nbuf =
     useq (ucall (s_write S 2 (ascii ''$ ''))) (
     ubind (gets S nbuf) (\<lambda>buf.
     let ln = takeWhile (\<lambda>c. c \<noteq> 0) buf in uret (if ln = [] then None else Some ln)))"

fun open_console :: "'e usys \<Rightarrow> nat \<Rightarrow> ('e, unit) um" where
  "open_console S 0 = (\<lambda>e. UFuel)"
| "open_console S (Suc n) =
     ubind (ucall (s_open S (ascii ''console'') 2)) (\<lambda>fd.
     if fd \<ge> 0 then
       if fd \<ge> 3 then useq (ucall (s_close S fd)) uskip else open_console S n
     else uskip)"

definition run_line :: "'e usys \<Rightarrow> bytes \<Rightarrow> ('e, unit) um" where
  "run_line S ln =
     (case parsecmd ln of
        POk (t, m) _ \<Rightarrow> runcmd S (abs_cmd (\<lambda>q eq. cstr m q) t)
      | PErr msg \<Rightarrow> upanic S msg
      | PFuel \<Rightarrow> (\<lambda>e. UFuel))"

fun sh_loop :: "'e usys \<Rightarrow> nat \<Rightarrow> ('e, unit) um" where
  "sh_loop S 0 = (\<lambda>e. UFuel)"
| "sh_loop S (Suc n) =
     ubind (getcmd S 100) (\<lambda>r.
     case r of
       None \<Rightarrow> uexit 0
     | Some buf \<Rightarrow>
         let ln = dropWhile (\<lambda>c. c = 32 \<or> c = 9) buf in
         if str_at ln 0 = 10 then sh_loop S n
         else if str_at ln 0 = 99 \<and> str_at ln 1 = 100 \<and> str_at ln 2 = 32 then
           let dir = drop 3 (butlast ln) in
           ubind (ucall (s_chdir S dir)) (\<lambda>r.
           useq (uwhen (r < 0) (ufprintf S 2 (line ''cannot cd %s'') [Astr dir])) (sh_loop S n))
         else
           ubind (fork1 S) (\<lambda>p.
           if p = 0 then run_line S ln
           else useq (ucall (s_wait S)) (sh_loop S n)))"

definition sh_main :: "'e usys \<Rightarrow> nat \<Rightarrow> ('e, unit) um" where
  "sh_main S n = useq (open_console S n) (sh_loop S n)"

end
