(* ===== verification/Shellparse.thy ===== *)
theory Shellparse
  imports Shell
begin

section \<open>The shell's parser\<close>

text \<open>
  Two results about \<^verbatim>\<open>parsecmd\<close>: it ends on every line and its words are intact C strings, and it inverts the printer
  \<open>render\<close> of command trees.
\<close>

subsection \<open>Positions\<close>

definition wordc :: "uint8 \<Rightarrow> bool" where
  "wordc c = (\<not> is_space c \<and> \<not> is_symbol c)"

text \<open>\<open>[q, eq)\<close> is a word of the line, as long as possible.\<close>

definition word_ok :: "bytes \<Rightarrow> nat \<Rightarrow> nat \<Rightarrow> bool" where
  "word_ok b q eq = (q < eq \<and> eq \<le> length b \<and> (\<forall>i. q \<le> i \<and> i < eq \<longrightarrow> wordc (b ! i)) \<and> (eq < length b \<longrightarrow> \<not> wordc (b ! eq)))"

fun cmd_ok :: "bytes \<Rightarrow> cmd \<Rightarrow> bool" where
  "cmd_ok b (EXEC as) = (length as < MAXARGS \<and> (\<forall>(q, eq)\<in>set as. word_ok b q eq))"
| "cmd_ok b (REDIR c q eq m fd) = (cmd_ok b c \<and> word_ok b q eq)"
| "cmd_ok b (PIPE c d) = (cmd_ok b c \<and> cmd_ok b d)"
| "cmd_ok b (LIST c d) = (cmd_ok b c \<and> cmd_ok b d)"
| "cmd_ok b (BACK c) = cmd_ok b c"

lemma str_at_nth: "str_at b s = (if s < length b then b ! s else 0)"
  by (induction b arbitrary: s) (auto split: nat.splits)

lemma skip_space_le: "s \<le> skip_space b s" "s \<le> length b \<Longrightarrow> skip_space b s \<le> length b"
  by (induction b s rule: skip_space.induct; subst skip_space.simps; auto)+

lemma skip_space_stop: "skip_space b s < length b \<Longrightarrow> \<not> is_space (b ! skip_space b s)"
proof (induction b s rule: skip_space.induct)
  case (1 b s)
  then show ?case by (subst (asm) (2) skip_space.simps, subst skip_space.simps) (auto simp: str_at_nth split: if_splits)
qed

lemma skip_word_le: "s \<le> skip_word b s" "s \<le> length b \<Longrightarrow> skip_word b s \<le> length b"
  by (induction b s rule: skip_word.induct; subst skip_word.simps; auto)+

lemma skip_word_stop: "skip_word b s < length b \<Longrightarrow> \<not> wordc (b ! skip_word b s)"
proof (induction b s rule: skip_word.induct)
  case (1 b s)
  then show ?case by (subst (asm) (2) skip_word.simps, subst skip_word.simps) (auto simp: str_at_nth wordc_def split: if_splits)
qed

lemma skip_word_chars: "s \<le> i \<Longrightarrow> i < skip_word b s \<Longrightarrow> wordc (b ! i)"
proof (induction b s rule: skip_word.induct)
  case (1 b s)
  show ?case
  proof (cases "i = s")
    case True
    then show ?thesis using 1(3) by (subst (asm) skip_word.simps) (auto simp: str_at_nth wordc_def split: if_splits)
  next
    case False
    then show ?thesis using 1 by (subst (asm) (2) skip_word.simps) (auto split: if_splits)
  qed
qed

lemma skip_word_ok: "s < length b \<Longrightarrow> wordc (b ! s) \<Longrightarrow> word_ok b s (skip_word b s)"
proof -
  assume s: "s < length b" "wordc (b ! s)"
  then have "skip_word b s = skip_word b (s + 1)" by (subst skip_word.simps) (simp add: str_at_nth wordc_def)
  then have "s < skip_word b s" using skip_word_le(1) [of "s + 1" b] by simp
  then show ?thesis
    using s skip_word_le(2) [of s b] skip_word_stop [of b s] skip_word_chars [of s _ b] by (auto simp: word_ok_def)
qed

lemma symbol_cases: "is_symbol c \<longleftrightarrow> c \<in> {LT, BAR, GT, AMP, SEMI, LP, RP}"
  by (auto simp: is_symbol_def symbols_def)

lemma gettoken_bounds:
  assumes "s0 \<le> length b" "0 \<notin> set b" "gettoken b s0 = (tok, q, eq, s)"
  shows "s0 \<le> q \<and> q \<le> eq \<and> eq \<le> s \<and> s \<le> length b \<and> (tok = 0 \<longrightarrow> q = length b) \<and> (tok \<noteq> 0 \<longrightarrow> q < eq) \<and> (tok = WORD \<longrightarrow> word_ok b q eq)"
proof -
  let ?q = "skip_space b s0"
  have q: "s0 \<le> ?q" "?q \<le> length b" using skip_space_le assms(1) by auto
  have "token_at b ?q = (tok, eq)" and r: "q = ?q" "s = skip_space b eq"
    using assms(3) by (auto simp: gettoken_def Let_def split: prod.splits)
  then have "?q \<le> eq \<and> eq \<le> length b \<and> (tok = 0 \<longrightarrow> ?q = length b) \<and> (tok \<noteq> 0 \<longrightarrow> ?q < eq) \<and> (tok = WORD \<longrightarrow> word_ok b ?q eq)"
  proof (cases "?q = length b")
    case False
    then have lt: "?q < length b" using q by simp
    then have c: "b ! ?q \<noteq> 0" "\<not> is_space (b ! ?q)" using assms(2) skip_space_stop by (metis nth_mem, blast)
    show ?thesis
    proof (cases "is_symbol (b ! ?q)")
      case True
      then show ?thesis using \<open>token_at b ?q = (tok, eq)\<close> lt c
        by (auto simp: token_at_def Let_def str_at_nth symbol_cases split: if_splits)
    next
      case no: False
      then have "tok = WORD" "eq = skip_word b ?q" using \<open>token_at b ?q = (tok, eq)\<close> lt c
        by (auto simp: token_at_def Let_def str_at_nth symbol_cases split: if_splits)
      moreover have "word_ok b ?q (skip_word b ?q)" using lt c no by (intro skip_word_ok) (simp_all add: wordc_def)
      ultimately show ?thesis by (simp add: word_ok_def)
    qed
  qed (simp add: token_at_def str_at_nth)
  then show ?thesis using q r skip_space_le [of eq b] by simp
qed

lemma peek_bounds:
  assumes "s0 \<le> length b" "peek b s0 toks = (p, s)"
  shows "s0 \<le> s \<and> s \<le> length b \<and> (p \<longrightarrow> s < length b)"
  using assms skip_space_le [of s0 b] by (auto simp: peek_def Let_def str_at_nth split: if_splits)

lemma next_token_bounds:
  assumes "s \<le> length b" "0 \<notin> set b"
  shows "s \<le> next_token b s" "next_token b s \<le> length b"
  using gettoken_bounds [OF assms] by (auto simp: next_token_def split: prod.splits)

lemma next_token_less:
  assumes "s < length b" "0 \<notin> set b"
  shows "s < next_token b s"
proof -
  obtain tok q eq s' where g: "gettoken b s = (tok, q, eq, s')" by (metis prod_cases4)
  with gettoken_bounds [OF _ assms(2) g] assms(1) show ?thesis by (cases "tok = 0") (auto simp: next_token_def)
qed

text \<open>
  What a parser function guarantees when it starts at \<open>s\<close>: it moves forward inside the line, its words are
  words of the line, and with \<open>need\<close> levels of recursion it has an answer.
\<close>

definition sane :: "bytes \<Rightarrow> nat \<Rightarrow> nat \<Rightarrow> nat \<Rightarrow> cmd pres \<Rightarrow> bool" where
  "sane b s need f r = ((\<forall>c s'. r = POk c s' \<longrightarrow> s \<le> s' \<and> s' \<le> length b \<and> cmd_ok b c) \<and> (need \<le> f \<longrightarrow> r \<noteq> PFuel))"

lemma sane_POk: "s \<le> s' \<Longrightarrow> s' \<le> length b \<Longrightarrow> cmd_ok b c \<Longrightarrow> sane b s need f (POk c s')"
  by (simp add: sane_def)

lemma sane_PErr: "sane b s need f (PErr m)"
  by (simp add: sane_def)

lemma sane_mono: "sane b s' need' f' r \<Longrightarrow> s \<le> s' \<Longrightarrow> (need \<le> f \<Longrightarrow> need' \<le> f') \<Longrightarrow> sane b s need f r"
  by (fastforce simp: sane_def)

lemma sane_bind:
  assumes "sane b s1 need1 f1 r" "need \<le> f \<Longrightarrow> need1 \<le> f1"
    and "\<And>c s'. s1 \<le> s' \<Longrightarrow> s' \<le> length b \<Longrightarrow> cmd_ok b c \<Longrightarrow> sane b s need f (g c s')"
  shows "sane b s need f (pbind r g)"
  using assms by (cases r) (auto simp: sane_def pbind_def)

lemma redir_ok: "cmd_ok b c \<Longrightarrow> word_ok b q eq \<Longrightarrow> cmd_ok b (redir tok c q eq)"
  by (simp add: redir_def)

lemma push_arg_ok: "cmd_ok b c \<Longrightarrow> word_ok b q eq \<Longrightarrow> argc_of (push_arg q eq c) < MAXARGS \<Longrightarrow> cmd_ok b (push_arg q eq c)"
  by (induction q eq c rule: push_arg.induct) auto

lemma parseredirs_sane:
  assumes "0 \<notin> set b" "s \<le> length b" "cmd_ok b c"
  shows "sane b s (length b - s + 1) f (parseredirs f b c s)"
  using assms(2,3)
proof (induction f arbitrary: c s)
  case (Suc f)
  obtain p s0 where pk: "peek b s [LT, GT] = (p, s0)" by force
  obtain tok q0 e0 s1 where t1: "gettoken b s0 = (tok, q0, e0, s1)" by (metis prod_cases4)
  obtain t q eq s2 where t2: "gettoken b s1 = (t, q, eq, s2)" by (metis prod_cases4)
  have p: "s \<le> s0" "s0 \<le> length b" "p \<Longrightarrow> s0 < length b" using peek_bounds [OF Suc.prems(1) pk] by auto
  note g1 = gettoken_bounds [OF p(2) assms(1) t1]
  then have "s1 \<le> length b" by simp
  note g2 = gettoken_bounds [OF this assms(1) t2]
  show ?case
  proof (cases "p \<and> t = WORD")
    case True
    then have "s < s2" using p g1 g2 by (cases "tok = 0") auto
    moreover have "sane b s2 (length b - s2 + 1) f (parseredirs f b (redir tok c q eq) s2)"
      using Suc.prems(2) g2 True by (intro Suc.IH redir_ok) auto
    ultimately have "sane b s (length b - s + 1) (Suc f) (parseredirs f b (redir tok c q eq) s2)"
      using g2 by (elim sane_mono) auto
    with True show ?thesis by (simp add: pk t1 t2)
  qed (use Suc.prems p in \<open>auto simp: pk t1 t2 intro: sane_POk sane_PErr\<close>)
qed (simp add: sane_def)

lemma exec_loop_sane:
  assumes "0 \<notin> set b" "s \<le> length b" "cmd_ok b c"
  shows "sane b s (length b - s + 1) f (exec_loop f b c s)"
  using assms(2,3)
proof (induction f arbitrary: c s)
  case (Suc f)
  obtain p s0 where pk: "peek b s [BAR, RP, AMP, SEMI] = (p, s0)" by force
  obtain tok q eq s1 where t1: "gettoken b s0 = (tok, q, eq, s1)" by (metis prod_cases4)
  have p: "s \<le> s0" "s0 \<le> length b" using peek_bounds [OF Suc.prems(1) pk] by auto
  note g = gettoken_bounds [OF p(2) assms(1) t1]
  let ?c = "push_arg q eq c"
  have step: "sane b s (length b - s + 1) (Suc f) (pbind (parseredirs f b ?c s1) (exec_loop f b))"
    if "tok = WORD" "argc_of ?c < MAXARGS"
  proof (rule sane_bind)
    have s1: "s < s1" "s1 \<le> length b" using p g that by auto
    then show "length b - s + 1 \<le> Suc f \<Longrightarrow> length b - s1 + 1 \<le> f" by simp
    show "sane b s1 (length b - s1 + 1) f (parseredirs f b ?c s1)"
      using Suc.prems g that by (intro parseredirs_sane [OF assms(1)] push_arg_ok) auto
    show "sane b s (length b - s + 1) (Suc f) (exec_loop f b c' s')"
      if "s1 \<le> s'" "s' \<le> length b" "cmd_ok b c'" for c' s'
      using Suc.IH [OF that(2,3)] s1 that(1) by (elim sane_mono) auto
  qed
  show ?case
    using Suc.prems p g step by (auto simp: pk t1 Let_def intro: sane_POk sane_PErr)
qed (simp add: sane_def)

lemma back_loop_sane:
  assumes "0 \<notin> set b" "s \<le> length b" "cmd_ok b c"
  shows "sane b s (length b - s + 1) f (back_loop f b c s)"
  using assms(2,3)
proof (induction f arbitrary: c s)
  case (Suc f)
  obtain p s0 where pk: "peek b s [AMP] = (p, s0)" by force
  have p: "s \<le> s0" "s0 \<le> length b" "p \<Longrightarrow> s0 < length b" using peek_bounds [OF Suc.prems(1) pk] by auto
  show ?case
  proof (cases p)
    case True
    then have n: "s < next_token b s0" "next_token b s0 \<le> length b"
      using p next_token_less [of s0 b] next_token_bounds [of s0 b] assms(1) by auto
    have "sane b (next_token b s0) (length b - next_token b s0 + 1) f (back_loop f b (BACK c) (next_token b s0))"
      using Suc.prems n by (intro Suc.IH) auto
    then have "sane b s (length b - s + 1) (Suc f) (back_loop f b (BACK c) (next_token b s0))"
      using n by (elim sane_mono) auto
    with True show ?thesis by (simp add: pk)
  qed (use Suc.prems p in \<open>auto simp: pk intro: sane_POk\<close>)
qed (simp add: sane_def)

text \<open>The rest of a command after an operator that \<^verbatim>\<open>peek\<close> has seen.\<close>

lemma sane_rest:
  assumes "0 \<notin> set b" "s1 \<le> length b" "cmd_ok b c" "s \<le> s1"
    and IH: "\<And>s'. s1 < s' \<Longrightarrow> s' \<le> length b \<Longrightarrow> sane b s' (n' s') f' (rec s')"
    and "\<And>s'. need \<le> f \<Longrightarrow> s1 < s' \<Longrightarrow> s' \<le> length b \<Longrightarrow> n' s' \<le> f'"
    and "\<And>d. cmd_ok b d \<Longrightarrow> cmd_ok b (K c d)"
  shows "sane b s need f (case peek b s1 toks of (p, s) \<Rightarrow>
    if p then pbind (rec (next_token b s)) (\<lambda>d s'. POk (K c d) s') else POk c s)"
proof -
  obtain p s0 where pk: "peek b s1 toks = (p, s0)" by force
  have p: "s1 \<le> s0" "s0 \<le> length b" "p \<Longrightarrow> s0 < length b" using peek_bounds [OF assms(2) pk] by auto
  show ?thesis
  proof (cases p)
    case True
    then have n: "s1 < next_token b s0" "next_token b s0 \<le> length b"
      using p next_token_less [of s0 b] next_token_bounds [of s0 b] assms(1) by auto
    have "sane b s need f (pbind (rec (next_token b s0)) (\<lambda>d s'. POk (K c d) s'))"
    proof (rule sane_bind [OF IH [OF n]])
      show "sane b s need f (POk (K c d) s')" if "next_token b s0 \<le> s'" "s' \<le> length b" "cmd_ok b d" for d s'
        using that n assms by (intro sane_POk) auto
    qed (use assms(6) n in blast)
    with True show ?thesis by (simp add: pk)
  qed (use assms p in \<open>auto simp: pk intro: sane_POk\<close>)
qed

lemma parser_sane:
  assumes z: "0 \<notin> set b" and "s \<le> length b"
  shows "sane b s (4 * (length b - s) + 4) f (parseline f b s)
    \<and> sane b s (4 * (length b - s) + 3) f (parsepipe f b s)
    \<and> sane b s (4 * (length b - s) + 2) f (parseexec f b s)
    \<and> sane b s (4 * (length b - s) + 1) f (parseblock f b s)"
  using assms(2)
proof (induction f arbitrary: s)
  case (Suc f)
  let ?n = "\<lambda>s. 4 * (length b - s)"
  have line: "sane b s (?n s + 4) (Suc f) (parseline (Suc f) b s)"
    unfolding parseline.simps
  proof (rule sane_bind)
    show "sane b s (?n s + 3) f (parsepipe f b s)" using Suc by blast
    fix c s1
    assume s1: "s \<le> s1" "s1 \<le> length b" "cmd_ok b c"
    show "sane b s (?n s + 4) (Suc f) (pbind (back_loop f b c s1) (\<lambda>c s2. case peek b s2 [SEMI] of (p, s) \<Rightarrow>
        if p then pbind (parseline f b (next_token b s)) (\<lambda>d s'. POk (LIST c d) s') else POk c s))"
    proof (rule sane_bind [OF back_loop_sane [OF z s1(2,3)]])
      show "sane b s (?n s + 4) (Suc f) (case peek b s2 [SEMI] of (p, s) \<Rightarrow>
          if p then pbind (parseline f b (next_token b s)) (\<lambda>d s'. POk (LIST c d) s') else POk c s)"
        if "s1 \<le> s2" "s2 \<le> length b" "cmd_ok b c" for c s2
        by (rule sane_rest [where n' = "\<lambda>s. ?n s + 4", OF z that(2,3)]) (use Suc.IH s1 that in auto)
    qed (use s1 in auto)
  qed simp
  have pipe: "sane b s (?n s + 3) (Suc f) (parsepipe (Suc f) b s)"
    unfolding parsepipe.simps
  proof (rule sane_bind)
    show "sane b s (?n s + 2) f (parseexec f b s)" using Suc by blast
    show "sane b s (?n s + 3) (Suc f) (case peek b s1 [BAR] of (p, s) \<Rightarrow>
        if p then pbind (parsepipe f b (next_token b s)) (\<lambda>d s'. POk (PIPE c d) s') else POk c s)"
      if "s \<le> s1" "s1 \<le> length b" "cmd_ok b c" for c s1
      by (rule sane_rest [where n' = "\<lambda>s. ?n s + 3", OF z that(2,3)]) (use Suc.IH that in auto)
  qed simp
  have exec: "sane b s (?n s + 2) (Suc f) (parseexec (Suc f) b s)"
  proof -
    obtain p s0 where pk: "peek b s [LP] = (p, s0)" by force
    have p: "s \<le> s0" "s0 \<le> length b" using peek_bounds [OF Suc.prems pk] by auto
    have "sane b s0 (?n s0 + 1) f (parseblock f b s0)" using Suc.IH [OF p(2)] by blast
    then have "sane b s (?n s + 2) (Suc f) (parseblock f b s0)" using p by (elim sane_mono) auto
    moreover have "sane b s (?n s + 2) (Suc f) (pbind (parseredirs f b (EXEC []) s0) (exec_loop f b))"
    proof (rule sane_bind)
      show "sane b s0 (length b - s0 + 1) f (parseredirs f b (EXEC []) s0)"
        using p by (intro parseredirs_sane [OF z]) (simp_all add: MAXARGS_def)
      show "sane b s (?n s + 2) (Suc f) (exec_loop f b c s1)" if "s0 \<le> s1" "s1 \<le> length b" "cmd_ok b c" for c s1
        using exec_loop_sane [OF z that(2,3), of f] p that by (elim sane_mono) auto
    qed (use p in auto)
    ultimately show ?thesis by (simp add: pk)
  qed
  have block: "sane b s (?n s + 1) (Suc f) (parseblock (Suc f) b s)"
  proof -
    obtain p s0 where pk: "peek b s [LP] = (p, s0)" by force
    have p: "s \<le> s0" "s0 \<le> length b" "p \<Longrightarrow> s0 < length b" using peek_bounds [OF Suc.prems pk] by auto
    show ?thesis
    proof (cases p)
      case True
      then have n: "s < next_token b s0" "next_token b s0 \<le> length b"
        using p next_token_less [of s0 b] next_token_bounds [of s0 b] z by auto
      have "sane b s (?n s + 1) (Suc f) (pbind (parseline f b (next_token b s0)) (\<lambda>c s1. case peek b s1 [RP] of (p, s) \<Rightarrow>
          if \<not> p then PErr (ascii ''syntax - missing )'') else parseredirs f b c (next_token b s)))"
      proof (rule sane_bind)
        show "sane b (next_token b s0) (?n (next_token b s0) + 4) f (parseline f b (next_token b s0))"
          using Suc.IH [OF n(2)] by blast
        fix c s1
        assume s1: "next_token b s0 \<le> s1" "s1 \<le> length b" "cmd_ok b c"
        obtain p' s2 where pk': "peek b s1 [RP] = (p', s2)" by force
        have p': "s1 \<le> s2" "s2 \<le> length b" using peek_bounds [OF s1(2) pk'] by auto
        have m: "s2 \<le> next_token b s2" "next_token b s2 \<le> length b" using next_token_bounds [OF p'(2) z] by auto
        have "sane b s (?n s + 1) (Suc f) (parseredirs f b c (next_token b s2))"
          using parseredirs_sane [OF z m(2) s1(3), of f] n m p' s1 by (elim sane_mono) auto
        then show "sane b s (?n s + 1) (Suc f) (case peek b s1 [RP] of (p, s) \<Rightarrow>
            if \<not> p then PErr (ascii ''syntax - missing )'') else parseredirs f b c (next_token b s))"
          by (simp add: pk' sane_PErr)
      qed (use n in auto)
      with True show ?thesis by (simp add: pk)
    qed (simp add: pk sane_PErr)
  qed
  from line pipe exec block show ?case by blast
qed (simp add: sane_def)

subsection \<open>The words after nulterminate\<close>

text \<open>The words of a command, and a piece of the line.\<close>

fun words :: "cmd \<Rightarrow> (nat \<times> nat) list" where
  "words (EXEC as) = as"
| "words (REDIR c q eq m fd) = words c @ [(q, eq)]"
| "words (PIPE c d) = words c @ words d"
| "words (LIST c d) = words c @ words d"
| "words (BACK c) = words c"

definition slice :: "bytes \<Rightarrow> nat \<Rightarrow> nat \<Rightarrow> bytes" where
  "slice b q eq = take (eq - q) (drop q b)"

lemma cmd_ok_words: "cmd_ok b c \<Longrightarrow> (q, eq) \<in> set (words c) \<Longrightarrow> word_ok b q eq"
  by (induction c) auto

lemma zero_ends:
  "length (fold (\<lambda>(q, eq) m. m[eq := 0]) as m) = length m
    \<and> (\<forall>i<length m. fold (\<lambda>(q, eq) m. m[eq := 0]) as m ! i = (if i \<in> snd ` set as then 0 else m ! i))"
proof (induction as arbitrary: m)
  case (Cons a as)
  obtain q eq where a: "a = (q, eq)" by force
  show ?case using Cons.IH [of "m[eq := 0]"] by (cases "eq < length m") (auto simp: a nth_list_update)
qed simp

lemma nulterminate_all:
  "length (nulterminate c m) = length m
    \<and> (\<forall>i<length m. nulterminate c m ! i = (if i \<in> snd ` set (words c) then 0 else m ! i))"
proof (induction c arbitrary: m)
  case (EXEC as)
  then show ?case using zero_ends [of as m] by simp
next
  case (REDIR c q eq md fd)
  show ?case using REDIR.IH [of m] by (cases "eq < length m") (auto simp: nth_list_update)
next
  case (PIPE c d)
  show ?case using PIPE.IH(1) [of m] PIPE.IH(2) [of "nulterminate c m"] by (auto simp del: length_map)
next
  case (LIST c d)
  show ?case using LIST.IH(1) [of m] LIST.IH(2) [of "nulterminate c m"] by (auto simp del: length_map)
qed simp

lemmas nulterminate_nth = nulterminate_all [THEN conjunct2, rule_format] nulterminate_all [THEN conjunct1]

lemma word_string:
  assumes z: "0 \<notin> set b" and c: "cmd_ok b c" and w: "(q, eq) \<in> set (words c)"
  shows "cstr (nulterminate c (b @ [0])) q = slice b q eq"
proof -
  let ?m = "nulterminate c (b @ [0])"
  have ok: "word_ok b q eq" using c w by (rule cmd_ok_words)
  then have le: "q < eq" "eq \<le> length b" by (auto simp: word_ok_def)
  have "?m ! i = b ! i" if i: "q \<le> i" "i < eq" for i
  proof -
    have "wordc (b ! i)" "i < length b" using ok i by (auto simp: word_ok_def)
    then have "i \<notin> snd ` set (words c)" using cmd_ok_words [OF c] by (auto simp: word_ok_def)
    with \<open>i < length b\<close> show ?thesis by (simp add: nulterminate_nth nth_append)
  qed
  then have t: "take (eq - q) (drop q ?m) = slice b q eq"
    using le by (intro nth_equalityI) (auto simp: slice_def nulterminate_nth)
  have "?m ! eq = 0" using w le by (force simp: nulterminate_nth)
  then have "drop eq ?m = 0 # drop (Suc eq) ?m"
    using le Cons_nth_drop_Suc [of eq ?m] by (simp add: nulterminate_nth)
  then have "drop q ?m = slice b q eq @ 0 # drop (Suc eq) ?m"
    using le t append_take_drop_id [of "eq - q" "drop q ?m"] by simp
  moreover have "0 \<notin> set (slice b q eq)" using z by (auto simp: slice_def dest: in_set_takeD in_set_dropD)
  ultimately show ?thesis by (auto simp: cstr_def takeWhile_append)
qed

subsection \<open>Commands as text\<close>

text \<open>
  The text of a command. \<open>render p c\<close> is \<open>c\<close> where the grammar
  expects a line (\<open>p = 0\<close>), a pipeline with ampersands (1), a pipeline (2) or a single command (3), in
  parentheses where the level of the command is lower.
\<close>

definition redir_op :: "int \<Rightarrow> bytes" where
  "redir_op m = (if m = 0 then [LT] else if m = 0x601 then [GT] else [GT, GT])"

definition paren :: "bool \<Rightarrow> bytes \<Rightarrow> bytes" where
  "paren p x = (if p then LP # x @ [RP] else x)"

definition render_words :: "bytes list \<Rightarrow> bytes" where
  "render_words ws = concat (map (\<lambda>w. 32 # w) ws)"

fun render :: "nat \<Rightarrow> ast \<Rightarrow> bytes" where
  "render p (Exec ws) = render_words ws"
| "render p (Redir c w m fd) = render 3 c @ redir_op m @ 32 # w"
| "render p (Pipe c d) = paren (p > 2) (render 3 c @ BAR # render 2 d)"
| "render p (List c d) = paren (p > 0) (render 1 c @ SEMI # render 0 d)"
| "render p (Back c) = paren (p > 1) (render 1 c @ [AMP])"

definition good_word :: "bytes \<Rightarrow> bool" where
  "good_word w = (w \<noteq> [] \<and> (\<forall>c\<in>set w. wordc c \<and> c \<noteq> 0))"

fun good_ast :: "ast \<Rightarrow> bool" where
  "good_ast (Exec ws) = (length ws < MAXARGS \<and> (\<forall>w\<in>set ws. good_word w))"
| "good_ast (Redir c w m fd) = (good_ast c \<and> good_word w \<and> (m, fd) \<in> {(0, 0), (0x601, 1), (0x201, 1)})"
| "good_ast (Pipe c d) = (good_ast c \<and> good_ast d)"
| "good_ast (List c d) = (good_ast c \<and> good_ast d)"
| "good_ast (Back c) = good_ast c"

lemma abs_cmd_cong:
  "(\<And>q eq. (q, eq) \<in> set (words c) \<Longrightarrow> w q eq = w' q eq) \<Longrightarrow> abs_cmd w c = abs_cmd w' c"
  by (induction c) auto

subsection \<open>Lexing a suffix of the line\<close>

definition here :: "bytes \<Rightarrow> nat \<Rightarrow> bytes \<Rightarrow> bool" where
  "here b s x = (s \<le> length b \<and> drop s b = x)"

abbreviation sp :: "bytes \<Rightarrow> bytes" where
  "sp x \<equiv> dropWhile is_space x"

lemma here_str_at: "here b s x \<Longrightarrow> str_at b s = (case x of [] \<Rightarrow> 0 | c # _ \<Rightarrow> c)"
  by (cases x) (auto simp: here_def str_at_nth nth_via_drop)

lemma here_Cons:
  assumes "here b s (c # x)"
  shows "here b (s + 1) x" "s < length b" "str_at b s = c"
proof -
  show "str_at b s = c" using here_str_at [OF assms] by simp
  have d: "drop s b = c # x" "s \<le> length b" using assms by (auto simp: here_def)
  then show "s < length b" by (cases "s = length b") auto
  then show "here b (s + 1) x" using d Cons_nth_drop_Suc [of s b] by (simp add: here_def)
qed

lemma here_append: "here b s (x @ y) \<Longrightarrow> here b (s + length x) y"
proof (induction x arbitrary: s)
  case (Cons c x)
  then have "here b (s + 1) (x @ y)" by (intro here_Cons(1) [of _ _ c]) simp
  from Cons.IH [OF this] show ?case by simp
qed simp

lemma here_skip_space: "here b s x \<Longrightarrow> here b (skip_space b s) (sp x)"
proof (induction x arbitrary: s)
  case Nil
  then show ?case by (subst skip_space.simps) (simp add: here_def)
next
  case (Cons c x)
  note s = here_Cons [OF Cons.prems]
  show ?case
  proof (cases "is_space c")
    case True
    then show ?thesis using Cons.IH [OF s(1)] s by (subst skip_space.simps) simp
  next
    case False
    then show ?thesis using Cons.prems s by (subst skip_space.simps) simp
  qed
qed

lemma here_skip_word:
  assumes "here b s (w @ y)" "\<forall>c\<in>set w. wordc c" "y = [] \<or> \<not> wordc (hd y)"
  shows "skip_word b s = s + length w"
  using assms(1,2)
proof (induction w arbitrary: s)
  case Nil
  then show ?case using assms(3) here_str_at [of b s y]
    by (subst skip_word.simps) (cases y; auto simp: here_def wordc_def)
next
  case (Cons c w)
  have "here b s (c # w @ y)" using Cons.prems(1) by simp
  note s = here_Cons [OF this]
  show ?case using Cons.IH [OF s(1)] s Cons.prems(2) by (subst skip_word.simps) (simp add: wordc_def)
qed

lemma peek_here:
  assumes "here b s x"
  shows "peek b s toks = (case sp x of [] \<Rightarrow> False | c # _ \<Rightarrow> c \<noteq> 0 \<and> ustrchr toks c \<noteq> None, skip_space b s)"
  using here_str_at [OF here_skip_space [OF assms]] by (cases "sp x") (simp_all add: peek_def Let_def del: dropWhile_eq_Nil_conv)

lemma sp_sp [simp]: "sp (sp x) = sp x"
  by (induction x) auto

lemma space_not_word: "is_space c \<Longrightarrow> \<not> wordc c" "c \<in> set symbols \<Longrightarrow> \<not> is_space c \<and> \<not> wordc c \<and> c \<noteq> 0"
  by (auto simp: wordc_def is_space_def is_symbol_def whitespace_def symbols_def)

lemma gettoken_here:
  assumes "here b s x" "token_at b (skip_space b s) = (tok, skip_space b s + n)"
    and "sp x = t @ y" "length t = n"
  shows "\<exists>s'. gettoken b s = (tok, skip_space b s, skip_space b s + n, s') \<and> here b s' (sp y)
    \<and> slice b (skip_space b s) (skip_space b s + n) = t"
proof -
  have h: "here b (skip_space b s) (t @ y)" using here_skip_space [OF assms(1)] assms(3) by simp
  then have "slice b (skip_space b s) (skip_space b s + n) = t" using assms(4) by (simp add: slice_def here_def)
  moreover have "here b (skip_space b (skip_space b s + n)) (sp y)"
    using here_skip_space [OF here_append [OF h]] assms(4) by simp
  ultimately show ?thesis using assms(2) by (simp add: gettoken_def Let_def)
qed

lemma token_symbol:
  assumes "here b s x" "sp x = c # y" "c \<in> {BAR, LP, RP, SEMI, AMP, LT}"
  shows "\<exists>q e s'. gettoken b s = (c, q, e, s') \<and> here b s' (sp y)"
proof -
  have "here b (skip_space b s) (c # y)" using here_skip_space [OF assms(1)] assms(2) by simp
  then have "token_at b (skip_space b s) = (c, skip_space b s + 1)"
    using here_Cons(3) assms(3) by (fastforce simp: token_at_def Let_def)
  from gettoken_here [OF assms(1) this, of "[c]" y] assms(2) show ?thesis by auto
qed

lemma next_symbol:
  assumes "here b s x" "sp x = c # y" "c \<in> {BAR, LP, RP, SEMI, AMP, LT}"
  shows "here b (next_token b s) (sp y)"
  using token_symbol [OF assms] by (auto simp: next_token_def)

lemma token_word:
  assumes "here b s x" "sp x = w @ y" "good_word w" "y = [] \<or> \<not> wordc (hd y)"
  shows "\<exists>q e s'. gettoken b s = (WORD, q, e, s') \<and> here b s' (sp y) \<and> slice b q e = w"
proof -
  have h: "here b (skip_space b s) (w @ y)" using here_skip_space [OF assms(1)] assms(2) by simp
  obtain c w' where w: "w = c # w'" using assms(3) by (cases w) (auto simp: good_word_def)
  then have c: "wordc c" "c \<noteq> 0" "str_at b (skip_space b s) = c"
    using assms(3) here_str_at [OF h] by (auto simp: good_word_def)
  have "skip_word b (skip_space b s) = skip_space b s + length w"
    using assms(3) by (intro here_skip_word [OF h _ assms(4)]) (simp add: good_word_def)
  then have "token_at b (skip_space b s) = (WORD, skip_space b s + length w)"
    using c by (auto simp: token_at_def Let_def wordc_def symbol_cases)
  from gettoken_here [OF assms(1) this assms(2)] show ?thesis by auto
qed

lemma token_redir:
  assumes "here b s x" "sp x = redir_op m @ 32 # y" "m \<in> {0, 0x601, 0x201}"
  shows "\<exists>tok q e s'. gettoken b s = (tok, q, e, s') \<and> here b s' (sp y)
    \<and> (\<forall>c q e. redir tok c q e = REDIR c q e m (if m = 0 then 0 else 1))"
proof -
  have h: "here b (skip_space b s) (redir_op m @ 32 # y)" using here_skip_space [OF assms(1)] assms(2) by simp
  have sp: "sp (32 # y) = sp y" by (simp add: is_space_def whitespace_def)
  have "\<exists>tok. token_at b (skip_space b s) = (tok, skip_space b s + length (redir_op m))
    \<and> (\<forall>c q e. redir tok c q e = REDIR c q e m (if m = 0 then 0 else 1))"
  proof (cases "m = 0x201")
    case True
    then have h2: "here b (skip_space b s) (GT # GT # 32 # y)" using h by (simp add: redir_op_def)
    then have "str_at b (skip_space b s) = GT" "str_at b (skip_space b s + 1) = GT"
      using here_Cons(3) here_Cons(3) [OF here_Cons(1)] by blast+
    then show ?thesis using True by (simp add: token_at_def redir_op_def redir_def)
  next
    case False
    then obtain c where c: "redir_op m = [c]" "c = (if m = 0 then LT else GT)" using assms(3) by (auto simp: redir_op_def)
    with h have h2: "here b (skip_space b s) (c # 32 # y)" by simp
    then have "str_at b (skip_space b s) = c" "str_at b (skip_space b s + 1) = 32"
      using here_Cons(3) here_Cons(3) [OF here_Cons(1)] by blast+
    then show ?thesis using False c assms(3) by (auto simp: token_at_def redir_def)
  qed
  then show ?thesis using gettoken_here [OF assms(1) _ assms(2)] sp by metis
qed

text \<open>What may follow a command: the end of the line or one of the operators that end it.\<close>

definition follow :: "uint8 set \<Rightarrow> bytes \<Rightarrow> bool" where
  "follow cs x = (case sp x of [] \<Rightarrow> True | c # _ \<Rightarrow> c \<in> cs)"

lemma peek_follow:
  assumes "here b s x" "follow cs x" "\<forall>c\<in>cs. ustrchr toks c = None"
  shows "peek b s toks = (False, skip_space b s)"
  using assms(2,3) by (cases "sp x") (simp_all add: peek_here [OF assms(1)] follow_def del: dropWhile_eq_Nil_conv)

lemma is_space_simps [simp]:
  "is_space 32" "\<not> is_space LT" "\<not> is_space GT" "\<not> is_space BAR" "\<not> is_space AMP" "\<not> is_space SEMI"
  "\<not> is_space LP" "\<not> is_space RP"
  by (simp_all add: is_space_def whitespace_def)

lemma peek_op:
  assumes "here b s x" "sp x = c # y" "c \<noteq> 0"
  shows "peek b s toks = (ustrchr toks c \<noteq> None, skip_space b s)"
  using assms by (simp add: peek_here)

definition F3 :: "uint8 set" where "F3 = {BAR, RP, AMP, SEMI}"

lemma follow_nonword: "follow F3 x \<Longrightarrow> x = [] \<or> \<not> wordc (hd x)"
  by (cases x) (auto simp: follow_def F3_def wordc_def symbol_cases)

lemma here_unique: "here b s x \<Longrightarrow> here b s' x \<Longrightarrow> s = s'"
  by (auto simp: here_def) (metis diff_diff_cancel length_drop)

lemma here_skipped: "here b s (sp x) \<Longrightarrow> skip_space b s = s"
  using here_skip_space [of b s "sp x"] here_unique by fastforce

text \<open>
  The rest of the work of \<^verbatim>\<open>parseexec\<close> after the redirections: the loop over words, or nothing after a block. Where
  a command may end, it ends.
\<close>

definition ends_exec :: "bytes \<Rightarrow> (cmd \<Rightarrow> nat \<Rightarrow> cmd pres) \<Rightarrow> bool" where
  "ends_exec b K = (\<forall>t s x. here b s (sp x) \<and> follow F3 x \<longrightarrow> K t s = PFuel \<or> K t s = POk t s)"

lemma exec_loop_ends: "ends_exec b (exec_loop g b)"
  unfolding ends_exec_def
proof (intro allI impI, elim conjE)
  fix t s x
  assume h: "here b s (sp x)" and f: "follow F3 x"
  show "exec_loop g b t s = PFuel \<or> exec_loop g b t s = POk t s"
  proof (cases g)
    case (Suc g')
    note sk = here_skipped [OF h]
    show ?thesis
    proof (cases "sp x")
      case Nil
      with h have "str_at b s = 0" using here_str_at by fastforce
      then have "gettoken b s = (0, s, s, s)" by (simp add: gettoken_def token_at_def sk)
      moreover have "peek b s [BAR, RP, AMP, SEMI] = (False, s)" using \<open>str_at b s = 0\<close> by (simp add: peek_def sk)
      ultimately show ?thesis by (simp add: Suc)
    next
      case (Cons c y)
      then have c: "c \<in> F3" using f by (simp add: follow_def)
      then have "peek b s [BAR, RP, AMP, SEMI] = (True, s)"
        using peek_op [OF h, of c y] Cons sk by (auto simp: F3_def)
      then show ?thesis by (simp add: Suc)
    qed
  qed simp
qed

definition exec_state :: "nat \<Rightarrow> bytes \<Rightarrow> nat \<Rightarrow> ast \<Rightarrow> bytes \<Rightarrow> bool" where
  "exec_state f b s c r = (parseexec f b s = PFuel \<or>
     (\<exists>g t s1 K. parseexec f b s = pbind (parseredirs g b t s1) K \<and> here b s1 (sp r)
        \<and> abs_cmd (slice b) t = c \<and> ends_exec b K))"

text \<open>A word is not an operator.\<close>

lemma word_peek:
  assumes "here b s x" "sp x = w @ y" "good_word w" "set toks \<subseteq> set symbols"
  shows "peek b s toks = (False, skip_space b s)"
proof -
  obtain c w' where w: "w = c # w'" "wordc c" "c \<noteq> 0" using assms(3) by (cases w) (auto simp: good_word_def)
  have "ustrchr toks c = None"
  proof (rule ccontr)
    assume "ustrchr toks c \<noteq> None"
    then have "c \<in> set toks" by (induction toks) (auto split: if_splits)
    with assms(4) w(2) show False using space_not_word(2) by blast
  qed
  with peek_op [OF assms(1), of c "w' @ y"] assms(2) w show ?thesis by simp
qed

lemma parseredirs_stop:
  assumes "peek b s [LT, GT] = (False, s')"
  shows "parseredirs g b t s = PFuel \<or> parseredirs g b t s = POk t s'"
  using assms by (cases g) auto

lemma exec_words:
  assumes "\<forall>w\<in>set ws. good_word w" "length as + length ws < MAXARGS" "r = [] \<or> \<not> wordc (hd r)"
    and "here b s (sp (render_words ws @ r))"
  shows "pbind (parseredirs g b (EXEC as) s) (exec_loop g b) = PFuel \<or>
    (\<exists>g' as' s'. pbind (parseredirs g b (EXEC as) s) (exec_loop g b) = pbind (parseredirs g' b (EXEC (as @ as')) s') (exec_loop g' b)
      \<and> here b s' (sp r) \<and> map (\<lambda>(q, eq). slice b q eq) as' = ws)"
  using assms(1,2,4)
proof (induction ws arbitrary: g as s)
  case Nil
  then show ?case by (intro disjI2 exI [of _ g] exI [of _ "[]"] exI [of _ s]) (simp add: render_words_def)
next
  case (Cons w ws)
  let ?x = "w @ render_words ws @ r"
  have gw: "good_word w" using Cons.prems(1) by simp
  then have spx: "sp ?x = ?x" by (cases w) (auto simp: good_word_def wordc_def)
  have h: "here b s ?x" using Cons.prems(3) spx by (simp add: render_words_def)
  have nw: "render_words ws @ r = [] \<or> \<not> wordc (hd (render_words ws @ r))"
    using assms(3) space_not_word(1) [of 32] by (cases ws) (auto simp: render_words_def)
  obtain q e s1 where tok: "gettoken b s = (WORD, q, e, s1)" "here b s1 (sp (render_words ws @ r))" "slice b q e = w"
    using token_word [OF h spx gw nw] by blast
  have sk: "skip_space b s = s" using here_skipped [of b s ?x] h spx by simp
  have pk: "peek b s [LT, GT] = (False, s)" "peek b s [BAR, RP, AMP, SEMI] = (False, s)"
    using word_peek [OF h spx gw] sk by (auto simp: symbols_def)
  show ?case
  proof (cases "parseredirs g b (EXEC as) s = PFuel \<or> g = 0")
    case False
    then obtain g1 where g: "g = Suc g1" and pr: "parseredirs g b (EXEC as) s = POk (EXEC as) s"
      using parseredirs_stop [OF pk(1)] by (metis not0_implies_Suc)
    have e: "pbind (parseredirs g b (EXEC as) s) (exec_loop g b)
        = pbind (parseredirs g1 b (EXEC (as @ [(q, e)])) s1) (exec_loop g1 b)"
      using Cons.prems(2) unfolding pr by (simp add: pbind_def g pk tok Let_def)
    have "pbind (parseredirs g1 b (EXEC (as @ [(q, e)])) s1) (exec_loop g1 b) = PFuel \<or>
      (\<exists>g' as' s'. pbind (parseredirs g1 b (EXEC (as @ [(q, e)])) s1) (exec_loop g1 b)
          = pbind (parseredirs g' b (EXEC ((as @ [(q, e)]) @ as')) s') (exec_loop g' b)
        \<and> here b s' (sp r) \<and> map (\<lambda>(q, eq). slice b q eq) as' = ws)"
      using Cons.prems tok(2) by (intro Cons.IH) auto
    then show ?thesis unfolding e
    proof (elim disjE exE conjE)
      fix g' as' s'
      assume "pbind (parseredirs g1 b (EXEC (as @ [(q, e)])) s1) (exec_loop g1 b)
          = pbind (parseredirs g' b (EXEC ((as @ [(q, e)]) @ as')) s') (exec_loop g' b)"
        "here b s' (sp r)" "map (\<lambda>(q, eq). slice b q eq) as' = ws"
      then show "pbind (parseredirs g1 b (EXEC (as @ [(q, e)])) s1) (exec_loop g1 b) = PFuel \<or>
        (\<exists>g' as' s'. pbind (parseredirs g1 b (EXEC (as @ [(q, e)])) s1) (exec_loop g1 b) = pbind (parseredirs g' b (EXEC (as @ as')) s') (exec_loop g' b)
          \<and> here b s' (sp r) \<and> map (\<lambda>(q, eq). slice b q eq) as' = w # ws)"
        by (intro disjI2 exI [of _ g'] exI [of _ "(q, e) # as'"] exI [of _ s']) (simp add: tok(3))
    qed simp
  qed (auto simp: pbind_def)
qed

text \<open>A command in parentheses, from the parser of lines.\<close>

definition line_ok :: "bytes \<Rightarrow> ast \<Rightarrow> bool" where
  "line_ok b c = (\<forall>f s r. here b s (sp (render 0 c @ r)) \<and> follow {RP} r \<longrightarrow>
     parseline f b s = PFuel \<or> (\<exists>t s'. parseline f b s = POk t s' \<and> here b s' (sp r) \<and> abs_cmd (slice b) t = c))"

lemma exec_block:
  assumes "line_ok b c" "here b s (sp (LP # render 0 c @ RP # r))"
  shows "exec_state f b s c r"
proof (cases f)
  case (Suc f1)
  let ?x = "LP # render 0 c @ RP # r"
  have h: "here b s ?x" using assms(2) by simp
  have sk: "skip_space b s = s" using here_skipped [OF assms(2)] .
  have pk: "peek b s [LP] = (True, s)" using peek_op [OF h, of LP] sk by simp
  have nx: "here b (next_token b s) (sp (render 0 c @ RP # r))" using next_symbol [OF h, of LP] by simp
  show ?thesis
  proof (cases f1)
    case f1: (Suc f2)
    have fl: "follow {RP} (RP # r)" by (simp add: follow_def)
    from assms(1) nx fl consider "parseline f2 b (next_token b s) = PFuel"
      | t s' where "parseline f2 b (next_token b s) = POk t s'" "here b s' (sp (RP # r))" "abs_cmd (slice b) t = c"
      unfolding line_ok_def by blast
    then show ?thesis
    proof cases
      case 2
      have h': "here b s' (RP # r)" using 2(2) by simp
      have "peek b s' [RP] = (True, s')" using peek_op [OF h', of RP] here_skipped [OF 2(2)] by simp
      then have "parseexec f b s = pbind (parseredirs f2 b t (next_token b s')) POk"
        using 2(1) by (simp add: Suc f1 pk pbind_def split: pres.split)
      moreover have "here b (next_token b s') (sp r)" using next_symbol [OF h', of RP] by simp
      moreover have "ends_exec b POk" by (simp add: ends_exec_def)
      ultimately show ?thesis using 2(3) unfolding exec_state_def by blast
    qed (simp add: exec_state_def Suc f1 pk pbind_def)
  qed (simp add: exec_state_def Suc pk)
qed (simp add: exec_state_def)

lemma exec_redir:
  assumes "exec_state f b s c (redir_op m @ 32 # w @ r)" "good_word w" "r = [] \<or> \<not> wordc (hd r)"
    and "(m, fd) \<in> {(0, 0), (0x601, 1), (0x201, 1)}"
  shows "exec_state f b s (Redir c w m fd) r"
proof (cases "parseexec f b s = PFuel")
  case False
  then obtain g t s1 K where st: "parseexec f b s = pbind (parseredirs g b t s1) K"
    "here b s1 (sp (redir_op m @ 32 # w @ r))" "abs_cmd (slice b) t = c" "ends_exec b K"
    using assms(1) unfolding exec_state_def by blast
  have m: "m \<in> {0, 0x601, 0x201}" and fd: "fd = (if m = 0 then 0 else 1)" using assms(4) by auto
  have spo: "sp (redir_op m @ 32 # w @ r) = redir_op m @ 32 # w @ r" by (simp add: redir_op_def)
  have h: "here b s1 (redir_op m @ 32 # w @ r)" using st(2) spo by simp
  obtain tok q0 e0 s2 where t1: "gettoken b s1 = (tok, q0, e0, s2)" "here b s2 (sp (w @ r))"
    "\<And>c q e. redir tok c q e = REDIR c q e m fd"
    using token_redir [OF h spo m] fd by blast
  have spw: "sp (w @ r) = w @ r" using assms(2) by (cases w) (auto simp: good_word_def wordc_def)
  obtain q e s3 where t2: "gettoken b s2 = (WORD, q, e, s3)" "here b s3 (sp r)" "slice b q e = w"
    using token_word [OF t1(2) _ assms(2,3)] spw by auto
  have "peek b s1 [LT, GT] = (True, s1)"
    using peek_op [OF h, of "hd (redir_op m)"] here_skipped [OF st(2)] m by (auto simp: redir_op_def)
  moreover obtain g1 where "g = Suc g1" using False st(1) by (cases g) (auto simp: pbind_def)
  ultimately have "parseexec f b s = pbind (parseredirs g1 b (REDIR t q e m fd) s3) K"
    using st(1) t1 t2 by simp
  moreover have "abs_cmd (slice b) (REDIR t q e m fd) = Redir c w m fd" using st(3) t2(3) by simp
  ultimately show ?thesis unfolding exec_state_def using t2(2) st(4) by blast
qed (simp add: exec_state_def)

definition F4 :: "uint8 set" where "F4 = F3 \<union> {LT, GT}"

lemma follow_mono: "follow cs x \<Longrightarrow> cs \<subseteq> ds \<Longrightarrow> follow ds x"
  by (cases "sp x") (auto simp: follow_def simp del: dropWhile_eq_Nil_conv)

lemma F4_nonword: "follow F4 x \<Longrightarrow> x = [] \<or> \<not> wordc (hd x)"
  by (cases x) (auto simp: follow_def F4_def F3_def wordc_def symbol_cases)

definition exec_ok :: "bytes \<Rightarrow> ast \<Rightarrow> bool" where
  "exec_ok b c = (\<forall>f s r. here b s (sp (render 3 c @ r)) \<and> follow F4 r \<longrightarrow> exec_state f b s c r)"

definition pipe_ok :: "bytes \<Rightarrow> ast \<Rightarrow> bool" where
  "pipe_ok b c = (\<forall>f s r. here b s (sp (render 2 c @ r)) \<and> follow {RP, AMP, SEMI} r \<longrightarrow>
     parsepipe f b s = PFuel \<or> (\<exists>t s'. parsepipe f b s = POk t s' \<and> here b s' (sp r) \<and> abs_cmd (slice b) t = c))"

text \<open>The ampersands after a pipeline: \<open>k\<close> turns of the loop.\<close>

definition back_ok :: "bytes \<Rightarrow> ast \<Rightarrow> bool" where
  "back_ok b c = (\<forall>f s r. here b s (sp (render 1 c @ r)) \<and> follow {RP, AMP, SEMI} r \<longrightarrow>
     parsepipe f b s = PFuel \<or> (\<exists>t0 s0 k t s1. parsepipe f b s = POk t0 s0
       \<and> (\<forall>g. back_loop (g + k) b t0 s0 = back_loop g b t s1) \<and> (\<forall>g<k. back_loop g b t0 s0 = PFuel)
       \<and> here b s1 (sp r) \<and> abs_cmd (slice b) t = c))"

lemma exec_ends:
  assumes "exec_state f b s c r" "follow F3 r"
  shows "parseexec f b s = PFuel \<or> (\<exists>t s'. parseexec f b s = POk t s' \<and> here b s' (sp r) \<and> abs_cmd (slice b) t = c)"
proof (cases "parseexec f b s = PFuel")
  case False
  then obtain g t s1 K where st: "parseexec f b s = pbind (parseredirs g b t s1) K"
    "here b s1 (sp r)" "abs_cmd (slice b) t = c" "ends_exec b K"
    using assms(1) unfolding exec_state_def by blast
  have "follow F3 (sp r)" using assms(2) by (simp add: follow_def)
  then have "peek b s1 [LT, GT] = (False, s1)"
    using peek_follow [OF st(2), of F3 "[LT, GT]"] here_skipped [OF st(2)] by (auto simp: F3_def)
  from parseredirs_stop [OF this, of g t] have "parseexec f b s = K t s1" using st(1) False by (auto simp: pbind_def)
  moreover have "K t s1 = PFuel \<or> K t s1 = POk t s1" using st(2,4) assms(2) unfolding ends_exec_def by blast
  ultimately show ?thesis using st by auto
qed simp

lemma pipe_of_exec:
  assumes "exec_ok b c" "render 2 c = render 3 c"
  shows "pipe_ok b c"
  unfolding pipe_ok_def
proof (intro allI impI, elim conjE)
  fix f s r
  assume h: "here b s (sp (render 2 c @ r))" and fl: "follow {RP, AMP, SEMI} r"
  have f3: "follow F3 r" "follow F4 r" using follow_mono [OF fl] by (auto simp: F3_def F4_def)
  show "parsepipe f b s = PFuel \<or> (\<exists>t s'. parsepipe f b s = POk t s' \<and> here b s' (sp r) \<and> abs_cmd (slice b) t = c)"
  proof (cases f)
    case (Suc f1)
    have "exec_state f1 b s c r" using assms h f3 unfolding exec_ok_def by simp
    from exec_ends [OF this f3(1)] show ?thesis
    proof (elim disjE exE conjE)
      fix t s'
      assume t: "parseexec f1 b s = POk t s'" "here b s' (sp r)" "abs_cmd (slice b) t = c"
      have "follow {RP, AMP, SEMI} (sp r)" using fl by (simp add: follow_def)
      then have "peek b s' [BAR] = (False, s')"
        using peek_follow [OF t(2), of "{RP, AMP, SEMI}" "[BAR]"] here_skipped [OF t(2)] by auto
      then show ?thesis using t by (simp add: Suc pbind_def)
    qed (simp add: Suc pbind_def)
  qed simp
qed

lemma pipe_of_pipe:
  assumes "exec_ok b c" "pipe_ok b d"
  shows "pipe_ok b (Pipe c d)"
  unfolding pipe_ok_def
proof (intro allI impI, elim conjE)
  fix f s r
  assume h: "here b s (sp (render 2 (Pipe c d) @ r))" and fl: "follow {RP, AMP, SEMI} r"
  let ?r = "BAR # render 2 d @ r"
  have h': "here b s (sp (render 3 c @ ?r))" using h by (simp add: paren_def)
  have f3: "follow F3 ?r" "follow F4 ?r" by (simp_all add: follow_def F3_def F4_def)
  show "parsepipe f b s = PFuel \<or> (\<exists>t s'. parsepipe f b s = POk t s' \<and> here b s' (sp r) \<and> abs_cmd (slice b) t = Pipe c d)"
  proof (cases f)
    case (Suc f1)
    have "exec_state f1 b s c ?r" using assms(1) h' f3 unfolding exec_ok_def by blast
    from exec_ends [OF this f3(1)] show ?thesis
    proof (elim disjE exE conjE)
      fix t s'
      assume t: "parseexec f1 b s = POk t s'" "here b s' (sp ?r)" "abs_cmd (slice b) t = c"
      have t2: "here b s' ?r" using t(2) by simp
      have "peek b s' [BAR] = (True, s')" using peek_op [OF t2, of BAR] here_skipped [OF t(2)] by simp
      moreover have "here b (next_token b s') (sp (render 2 d @ r))" using next_symbol [OF t2, of BAR] by simp
      then have "parsepipe f1 b (next_token b s') = PFuel \<or> (\<exists>t s''. parsepipe f1 b (next_token b s') = POk t s'' \<and> here b s'' (sp r) \<and> abs_cmd (slice b) t = d)"
        using assms(2) fl unfolding pipe_ok_def by blast
      ultimately show ?thesis using t by (auto simp: Suc pbind_def)
    qed (simp add: Suc pbind_def)
  qed simp
qed

lemma back_of_pipe:
  assumes "pipe_ok b c" "render 1 c = render 2 c"
  shows "back_ok b c"
  unfolding back_ok_def
proof (intro allI impI, elim conjE)
  fix f s r
  assume "here b s (sp (render 1 c @ r))" "follow {RP, AMP, SEMI} r"
  then have "parsepipe f b s = PFuel \<or> (\<exists>t s'. parsepipe f b s = POk t s' \<and> here b s' (sp r) \<and> abs_cmd (slice b) t = c)"
    using assms unfolding pipe_ok_def by metis
  then show "parsepipe f b s = PFuel \<or> (\<exists>t0 s0 k t s1. parsepipe f b s = POk t0 s0
       \<and> (\<forall>g. back_loop (g + k) b t0 s0 = back_loop g b t s1) \<and> (\<forall>g<k. back_loop g b t0 s0 = PFuel)
       \<and> here b s1 (sp r) \<and> abs_cmd (slice b) t = c)"
    by (metis add_0_right not_less_zero)
qed

lemma back_of_back:
  assumes "back_ok b c"
  shows "back_ok b (Back c)"
  unfolding back_ok_def
proof (intro allI impI, elim conjE)
  fix f s r
  assume h: "here b s (sp (render 1 (Back c) @ r))" and fl: "follow {RP, AMP, SEMI} r"
  have h': "here b s (sp (render 1 c @ AMP # r))" using h by (simp add: paren_def)
  have fl': "follow {RP, AMP, SEMI} (AMP # r)" by (simp add: follow_def)
  show "parsepipe f b s = PFuel \<or> (\<exists>t0 s0 k t s1. parsepipe f b s = POk t0 s0
       \<and> (\<forall>g. back_loop (g + k) b t0 s0 = back_loop g b t s1) \<and> (\<forall>g<k. back_loop g b t0 s0 = PFuel)
       \<and> here b s1 (sp r) \<and> abs_cmd (slice b) t = Back c)"
  proof (cases "parsepipe f b s = PFuel")
    case False
    then obtain t0 s0 k t s1 where st: "parsepipe f b s = POk t0 s0"
      "\<And>g. back_loop (g + k) b t0 s0 = back_loop g b t s1" "\<forall>g<k. back_loop g b t0 s0 = PFuel"
      "here b s1 (sp (AMP # r))" "abs_cmd (slice b) t = c"
      using assms h' fl' unfolding back_ok_def by metis
    have t2: "here b s1 (AMP # r)" using st(4) by simp
    have pk: "peek b s1 [AMP] = (True, s1)" using peek_op [OF t2, of AMP] here_skipped [OF st(4)] by simp
    have "back_loop (g + Suc k) b t0 s0 = back_loop g b (BACK t) (next_token b s1)" for g
      using st(2) [of "Suc g"] pk by simp
    moreover have "\<forall>g<Suc k. back_loop g b t0 s0 = PFuel" using st(2) [of 0] st(3) by (auto simp: less_Suc_eq)
    moreover have "here b (next_token b s1) (sp r)" using next_symbol [OF t2, of AMP] by simp
    moreover have "abs_cmd (slice b) (BACK t) = Back c" using st(5) by simp
    ultimately show ?thesis using st(1) by blast
  qed simp
qed

text \<open>The end of \<^verbatim>\<open>parseline\<close> after the pipeline and its ampersands.\<close>

lemma line_step:
  assumes "back_ok b c" "here b s (sp (render 1 c @ r))" "follow {RP, SEMI} r"
  shows "parseline (Suc f) b s = PFuel \<or> (\<exists>t s1. here b s1 (sp r) \<and> abs_cmd (slice b) t = c
    \<and> parseline (Suc f) b s = (case peek b s1 [SEMI] of (p, s) \<Rightarrow>
        if p then pbind (parseline f b (next_token b s)) (\<lambda>d s'. POk (LIST t d) s') else POk t s))"
proof (cases "parsepipe f b s = PFuel")
  case False
  have fl: "follow {RP, AMP, SEMI} r" using follow_mono [OF assms(3)] by auto
  obtain t0 s0 k t s1 where st: "parsepipe f b s = POk t0 s0"
    "\<And>g. back_loop (g + k) b t0 s0 = back_loop g b t s1" "\<forall>g<k. back_loop g b t0 s0 = PFuel"
    "here b s1 (sp r)" "abs_cmd (slice b) t = c"
    using assms(1,2) fl False unfolding back_ok_def by metis
  have "follow {RP, SEMI} (sp r)" using assms(3) by (simp add: follow_def)
  then have pk: "peek b s1 [AMP] = (False, s1)"
    using peek_follow [OF st(4), of "{RP, SEMI}" "[AMP]"] here_skipped [OF st(4)] by auto
  have "back_loop f b t0 s0 = PFuel \<or> back_loop f b t0 s0 = POk t s1"
  proof (cases "f < k")
    case False
    then have "back_loop f b t0 s0 = back_loop (f - k) b t s1" using st(2) [of "f - k"] by simp
    then show ?thesis using pk by (cases "f - k") auto
  qed (use st(3) in auto)
  then show ?thesis
  proof
    assume "back_loop f b t0 s0 = POk t s1"
    then have "parseline (Suc f) b s = (case peek b s1 [SEMI] of (p, s) \<Rightarrow>
        if p then pbind (parseline f b (next_token b s)) (\<lambda>d s'. POk (LIST t d) s') else POk t s)"
      using st(1) by (simp add: pbind_def)
    with st(4,5) show ?thesis by blast
  qed (simp add: st(1) pbind_def)
qed (simp add: pbind_def)

lemma line_of_back:
  assumes "back_ok b c" "render 0 c = render 1 c"
  shows "line_ok b c"
  unfolding line_ok_def
proof (intro allI impI, elim conjE)
  fix f s r
  assume h: "here b s (sp (render 0 c @ r))" and fl: "follow {RP} r"
  show "parseline f b s = PFuel \<or> (\<exists>t s'. parseline f b s = POk t s' \<and> here b s' (sp r) \<and> abs_cmd (slice b) t = c)"
  proof (cases f)
    case (Suc f1)
    have h1: "here b s (sp (render 1 c @ r))" and f1: "follow {RP, SEMI} r" using h assms(2) follow_mono [OF fl] by auto
    from line_step [OF assms(1) h1 f1, of f1] show ?thesis
    proof (elim disjE exE conjE)
      fix t s1
      assume t: "here b s1 (sp r)" "abs_cmd (slice b) t = c"
        "parseline (Suc f1) b s = (case peek b s1 [SEMI] of (p, s) \<Rightarrow>
          if p then pbind (parseline f1 b (next_token b s)) (\<lambda>d s'. POk (LIST t d) s') else POk t s)"
      have "follow {RP} (sp r)" using fl by (simp add: follow_def)
      then have "peek b s1 [SEMI] = (False, s1)"
        using peek_follow [OF t(1), of "{RP}" "[SEMI]"] here_skipped [OF t(1)] by auto
      then show ?thesis using t by (simp add: Suc)
    qed (simp add: Suc)
  qed simp
qed

lemma line_of_list:
  assumes "back_ok b c" "line_ok b d"
  shows "line_ok b (List c d)"
  unfolding line_ok_def
proof (intro allI impI, elim conjE)
  fix f s r
  assume h: "here b s (sp (render 0 (List c d) @ r))" and fl: "follow {RP} r"
  let ?r = "SEMI # render 0 d @ r"
  show "parseline f b s = PFuel \<or> (\<exists>t s'. parseline f b s = POk t s' \<and> here b s' (sp r) \<and> abs_cmd (slice b) t = List c d)"
  proof (cases f)
    case (Suc f1)
    have h1: "here b s (sp (render 1 c @ ?r))" and f1: "follow {RP, SEMI} ?r" using h by (simp_all add: paren_def follow_def)
    from line_step [OF assms(1) h1 f1, of f1] show ?thesis
    proof (elim disjE exE conjE)
      fix t s1
      assume t: "here b s1 (sp ?r)" "abs_cmd (slice b) t = c"
        "parseline (Suc f1) b s = (case peek b s1 [SEMI] of (p, s) \<Rightarrow>
          if p then pbind (parseline f1 b (next_token b s)) (\<lambda>d s'. POk (LIST t d) s') else POk t s)"
      have t2: "here b s1 ?r" using t(1) by simp
      have pk: "peek b s1 [SEMI] = (True, s1)" using peek_op [OF t2, of SEMI] here_skipped [OF t(1)] by simp
      have "here b (next_token b s1) (sp (render 0 d @ r))" using next_symbol [OF t2, of SEMI] by simp
      then have "parseline f1 b (next_token b s1) = PFuel \<or> (\<exists>t s'. parseline f1 b (next_token b s1) = POk t s' \<and> here b s' (sp r) \<and> abs_cmd (slice b) t = d)"
        using assms(2) fl unfolding line_ok_def by blast
      then show ?thesis using t(2,3) pk by (auto simp: Suc pbind_def)
    qed (simp add: Suc)
  qed simp
qed

lemma exec_of_exec:
  assumes "good_ast (Exec ws)"
  shows "exec_ok b (Exec ws)"
  unfolding exec_ok_def
proof (intro allI impI, elim conjE)
  fix f s r
  assume h: "here b s (sp (render 3 (Exec ws) @ r))" and fl: "follow F4 r"
  let ?x = "sp (render_words ws @ r)"
  have hx: "here b s ?x" using h by simp
  have pk: "peek b s [LP] = (False, s)"
  proof (cases ws)
    case Nil
    then have "follow F4 ?x" using fl by (simp add: follow_def render_words_def)
    then show ?thesis using peek_follow [OF hx, of F4 "[LP]"] here_skipped [OF hx] by (auto simp: F4_def F3_def)
  next
    case (Cons w ws')
    then have "?x = w @ render_words ws' @ r" "good_word w" using assms
      by (cases w; auto simp: render_words_def good_word_def wordc_def)+
    moreover have "sp ?x = ?x" by simp
    ultimately show ?thesis using word_peek [OF hx, of w "render_words ws' @ r" "[LP]"] here_skipped [OF hx]
      by (simp add: symbols_def)
  qed
  show "exec_state f b s (Exec ws) r"
  proof (cases f)
    case (Suc f1)
    then have e: "parseexec f b s = pbind (parseredirs f1 b (EXEC []) s) (exec_loop f1 b)" by (simp add: pk)
    from exec_words [of ws "[]" r b s f1] assms hx F4_nonword [OF fl]
    have "parseexec f b s = PFuel \<or> (\<exists>g' as' s'. parseexec f b s = pbind (parseredirs g' b (EXEC as') s') (exec_loop g' b)
      \<and> here b s' (sp r) \<and> abs_cmd (slice b) (EXEC as') = Exec ws)" unfolding e by simp
    then show ?thesis unfolding exec_state_def using exec_loop_ends by blast
  qed (simp add: exec_state_def)
qed

lemma exec_of_redir:
  assumes "exec_ok b c" "good_ast (Redir c w m fd)"
  shows "exec_ok b (Redir c w m fd)"
  unfolding exec_ok_def
proof (intro allI impI, elim conjE)
  fix f s r
  assume h: "here b s (sp (render 3 (Redir c w m fd) @ r))" and fl: "follow F4 r"
  have "follow F4 (redir_op m @ 32 # w @ r)" by (simp add: follow_def redir_op_def F4_def)
  then have "exec_state f b s c (redir_op m @ 32 # w @ r)" using assms(1) h unfolding exec_ok_def by simp
  then show "exec_state f b s (Redir c w m fd) r"
    using assms(2) F4_nonword [OF fl] by (intro exec_redir) simp_all
qed

lemma exec_of_line:
  assumes "line_ok b c" "render 3 c = LP # render 0 c @ [RP]"
  shows "exec_ok b c"
  using exec_block [OF assms(1)] assms(2) unfolding exec_ok_def by simp

lemma render_parses:
  "good_ast c \<Longrightarrow> exec_ok b c \<and> pipe_ok b c \<and> back_ok b c \<and> line_ok b c"
proof (induction c)
  case (Exec ws)
  then have "exec_ok b (Exec ws)" by (rule exec_of_exec)
  then show ?case by (simp add: pipe_of_exec back_of_pipe line_of_back)
next
  case (Redir c w m fd)
  then have "exec_ok b (Redir c w m fd)" by (intro exec_of_redir) auto
  then show ?case by (simp add: pipe_of_exec back_of_pipe line_of_back)
next
  case (Pipe c d)
  then have p: "pipe_ok b (Pipe c d)" by (intro pipe_of_pipe) auto
  then have bk: "back_ok b (Pipe c d)" by (simp add: back_of_pipe paren_def)
  then have l: "line_ok b (Pipe c d)" by (simp add: line_of_back paren_def)
  then have "exec_ok b (Pipe c d)" by (simp add: exec_of_line paren_def)
  with p bk l show ?case by blast
next
  case (List c d)
  then have l: "line_ok b (List c d)" by (intro line_of_list) auto
  then have "exec_ok b (List c d)" by (simp add: exec_of_line paren_def)
  moreover from this have "pipe_ok b (List c d)" by (simp add: pipe_of_exec paren_def)
  moreover from this have "back_ok b (List c d)" by (simp add: back_of_pipe paren_def)
  ultimately show ?case using l by blast
next
  case (Back c)
  then have bk: "back_ok b (Back c)" by (intro back_of_back) auto
  then have l: "line_ok b (Back c)" by (simp add: line_of_back paren_def)
  then have "exec_ok b (Back c)" by (simp add: exec_of_line paren_def)
  moreover from this have "pipe_ok b (Back c)" by (simp add: pipe_of_exec paren_def)
  ultimately show ?case using bk l by blast
qed

lemma redir_op_nonzero: "0 \<notin> set (redir_op m)"
  by (simp add: redir_op_def)

lemma render_nonzero: "good_ast c \<Longrightarrow> 0 \<notin> set (render p c)"
  by (induction c arbitrary: p) (auto simp: paren_def render_words_def good_word_def redir_op_nonzero)

lemma parsecmd_cases:
  assumes z: "0 \<notin> set b"
  shows "(\<exists>c s. parseline (parse_fuel b) b 0 = POk c s \<and> cmd_ok b c \<and> s \<le> length b) \<or> (\<exists>m. parseline (parse_fuel b) b 0 = PErr m)"
proof -
  have "sane b 0 (4 * (length b - 0) + 4) (parse_fuel b) (parseline (parse_fuel b) b 0)"
    using parser_sane [OF z, of 0] by blast
  then show ?thesis by (cases "parseline (parse_fuel b) b 0") (auto simp: sane_def parse_fuel_def)
qed

lemma skip_space_idem: "skip_space b (skip_space b s) = skip_space b s"
  using skip_space_stop [of b s] by (subst skip_space.simps) (simp add: str_at_nth)

lemma parseexec_skip: "parseexec f b (skip_space b s) = parseexec f b s"
  by (cases f) (simp_all add: peek_def skip_space_idem)

lemma parsepipe_skip: "parsepipe f b (skip_space b s) = parsepipe f b s"
  by (cases f) (simp_all add: parseexec_skip)

lemma parseline_skip: "parseline f b (skip_space b s) = parseline f b s"
  by (cases f) (simp_all add: parsepipe_skip)

lemma parsecmd_words:
  assumes "0 \<notin> set b" "parsecmd b = POk (c, m) s"
  shows "cmd_ok b c \<and> m = nulterminate c (b @ [0])"
  using parsecmd_cases [OF assms(1)] assms(2)
  by (auto simp: parsecmd_def pbind_def split: prod.splits if_splits)

subsection \<open>Properties\<close>

text \<open>
  C35. The parser inverts the printer: for every command tree of the shell's language, with at most nine words in
  a simple command and with words that contain no blank or operator, \<^verbatim>\<open>parsecmd\<close> on its text succeeds, and the
  command it returns, its strings read as C strings from the line buffer that \<^verbatim>\<open>nulterminate\<close> has cut up, is that
  tree.
\<close>

theorem parse_render:
  assumes "good_ast c"
  shows "\<exists>t m s. parsecmd (render 0 c) = POk (t, m) s \<and> abs_cmd (\<lambda>q eq. cstr m q) t = c"
proof -
  let ?b = "render 0 c"
  have z: "0 \<notin> set ?b" using assms by (rule render_nonzero)
  have "line_ok ?b c" using render_parses [OF assms] by blast
  moreover have "here ?b (skip_space ?b 0) (sp (render 0 c @ []))"
    using here_skip_space [of ?b 0 ?b] by (simp add: here_def)
  moreover have "follow {RP} []" by (simp add: follow_def)
  ultimately have "parseline (parse_fuel ?b) ?b (skip_space ?b 0) = PFuel \<or> (\<exists>t s'. parseline (parse_fuel ?b) ?b (skip_space ?b 0) = POk t s'
      \<and> here ?b s' (sp []) \<and> abs_cmd (slice ?b) t = c)" unfolding line_ok_def by blast
  then obtain t s where t: "parseline (parse_fuel ?b) ?b 0 = POk t s" "here ?b s []" "abs_cmd (slice ?b) t = c"
    using parsecmd_cases [OF z] by (auto simp: parseline_skip)
  then have "s = length ?b" by (auto simp: here_def)
  then have p: "parsecmd ?b = POk (t, nulterminate t (?b @ [0])) s"
    using t(1) by (subst parsecmd_def) (simp add: pbind_def peek_def skip_space.simps [of _ "length _"])
  then have "cmd_ok ?b t" using parsecmd_words [OF z p] by simp
  then have "abs_cmd (\<lambda>q eq. cstr (nulterminate t (?b @ [0])) q) t = abs_cmd (slice ?b) t"
    using word_string [OF z] by (intro abs_cmd_cong) auto
  with p t(3) show ?thesis by auto
qed

theorem parse_render_witness:
  "\<exists>t m s. parsecmd (render 0 (Pipe (Redir (Exec [ascii ''cat'']) (ascii ''f'') 0 0) (Exec [ascii ''wc'']))) = POk (t, m) s
     \<and> abs_cmd (\<lambda>q eq. cstr m q) t = Pipe (Redir (Exec [ascii ''cat'']) (ascii ''f'') 0 0) (Exec [ascii ''wc''])"
proof (rule parse_render)
  show "good_ast (Pipe (Redir (Exec [ascii ''cat'']) (ascii ''f'') 0 0) (Exec [ascii ''wc'']))" by code_simp
qed

text \<open>
  C36. The parser ends on every line, with a command or with a message. When it returns a command, every pointer of
  it points to a word: the C string there is a non-empty piece of the line without blanks or operators, cut off
  exactly at its end, the simple commands have fewer than \<^verbatim>\<open>MAXARGS\<close> words, and no store was outside the
  buffer.
\<close>

theorem parsecmd_total:
  assumes "0 \<notin> set b"
  shows "parsecmd b \<noteq> PFuel \<and> (\<forall>c m s. parsecmd b = POk (c, m) s \<longrightarrow>
    length m = length b + 1 \<and> cmd_ok b c \<and>
    (\<forall>(q, eq)\<in>set (words c). cstr m q = slice b q eq \<and> q < eq \<and> eq \<le> length b \<and> (\<forall>x\<in>set (cstr m q). wordc x)))"
proof -
  have "parsecmd b \<noteq> PFuel"
    using parsecmd_cases [OF assms] by (auto simp: parsecmd_def pbind_def split: prod.splits if_splits)
  moreover have "length m = length b + 1 \<and> cmd_ok b c \<and>
      (\<forall>(q, eq)\<in>set (words c). cstr m q = slice b q eq \<and> q < eq \<and> eq \<le> length b \<and> (\<forall>x\<in>set (cstr m q). wordc x))"
    if p: "parsecmd b = POk (c, m) s" for c m s
  proof -
    have c: "cmd_ok b c" and m: "m = nulterminate c (b @ [0])" using parsecmd_words [OF assms p] by auto
    have chars: "\<forall>x\<in>set (slice b q eq). wordc x" if "word_ok b q eq" for q eq
      using that by (auto simp: word_ok_def slice_def in_set_conv_nth)
    have w: "cstr m q = slice b q eq \<and> q < eq \<and> eq \<le> length b \<and> (\<forall>x\<in>set (cstr m q). wordc x)"
      if "(q, eq) \<in> set (words c)" for q eq
    proof -
      have ok: "word_ok b q eq" using c that by (rule cmd_ok_words)
      have "cstr m q = slice b q eq" unfolding m using assms c that by (rule word_string)
      moreover have "q < eq \<and> eq \<le> length b" using ok unfolding word_ok_def by blast
      ultimately show ?thesis using chars [OF ok] by metis
    qed
    have "length m = length b + 1" by (simp add: m nulterminate_nth)
    with c w show ?thesis by blast
  qed
  ultimately show ?thesis by blast
qed

theorem parsecmd_total_witness:
  "parsecmd (ascii ''a;(b>'') = PErr (ascii ''missing file for redirection'') \<and> parsecmd (ascii ''a;(b>'') \<noteq> PFuel"
proof
  show "parsecmd (ascii ''a;(b>'') = PErr (ascii ''missing file for redirection'')" by code_simp
  have "0 \<notin> set (ascii ''a;(b>'')" by code_simp
  then show "parsecmd (ascii ''a;(b>'') \<noteq> PFuel" using parsecmd_total by blast
qed

end
