(* ===== verification/Shellrun.thy ===== *)
theory Shellrun
  imports Shell
begin

section \<open>How the shell connects processes\<close>

text \<open>
  \<open>fds e\<close> is the table of open files of the process that runs in the environment \<open>e\<close>. \<open>fd_calls\<close> says what the system
  calls do to it: \<^verbatim>\<open>close\<close> removes an entry, \<^verbatim>\<open>dup\<close> copies an entry to the lowest free one, \<^verbatim>\<open>pipe\<close> fills two
  free entries, and \<^verbatim>\<open>fork\<close> and \<^verbatim>\<open>wait\<close> change nothing, in the parent and in the child.
\<close>

definition fd_calls :: "'e usys \<Rightarrow> ('e \<Rightarrow> int \<Rightarrow> 'f option) \<Rightarrow> bool" where
  "fd_calls S fds =
     ((\<forall>fd e. fds (snd (s_close S fd e)) = (fds e)(fd := None)) \<and>
      (\<forall>fd e. fds e fd \<noteq> None \<and> (\<exists>i. 0 \<le> i \<and> i < int NOFILE \<and> fds e i = None) \<longrightarrow>
         (\<exists>n e'. s_dup S fd e = (n, e') \<and> 0 \<le> n \<and> fds e n = None \<and> (\<forall>i. 0 \<le> i \<and> i < n \<longrightarrow> fds e i \<noteq> None)
            \<and> fds e' = (fds e)(n := fds e fd))) \<and>
      (\<forall>e r p0 p1 e'. s_pipe S e = ((r, p0, p1), e') \<and> 0 \<le> r \<longrightarrow>
         0 \<le> p0 \<and> 0 \<le> p1 \<and> p0 \<noteq> p1 \<and> fds e p0 = None \<and> fds e p1 = None
         \<and> (\<exists>rd wr. fds e' = (fds e)(p0 \<mapsto> rd, p1 \<mapsto> wr))) \<and>
      (\<forall>e. fds (snd (s_fork S e)) = fds e) \<and>
      (\<forall>e. fds (snd (s_wait S e)) = fds e))"

lemma fd_close: "fd_calls S fds \<Longrightarrow> fds (snd (s_close S fd e)) = (fds e)(fd := None)"
  and fd_fork: "fd_calls S fds \<Longrightarrow> fds (snd (s_fork S e)) = fds e"
  and fd_wait: "fd_calls S fds \<Longrightarrow> fds (snd (s_wait S e)) = fds e"
  by (simp_all add: fd_calls_def)

lemma fd_dup:
  assumes "fd_calls S fds" "fds e fd \<noteq> None" "fds e n = None" "0 \<le> n" "n < int NOFILE"
    and "\<forall>i. 0 \<le> i \<and> i < n \<longrightarrow> fds e i \<noteq> None"
  shows "fds (snd (s_dup S fd e)) = (fds e)(n := fds e fd)"
proof -
  have "\<exists>i. 0 \<le> i \<and> i < int NOFILE \<and> fds e i = None" using assms(3-5) by blast
  with assms(1,2) obtain k e' where k: "s_dup S fd e = (k, e')" "0 \<le> k" "fds e k = None"
    "\<forall>i. 0 \<le> i \<and> i < k \<longrightarrow> fds e i \<noteq> None" "fds e' = (fds e)(k := fds e fd)"
    unfolding fd_calls_def by blast
  have "\<not> k < n" "\<not> n < k" using k(2,3,4) assms(3,4,6) by blast+
  then have "k = n" by simp
  with k show ?thesis by simp
qed

text \<open>The calls that put one end of a pipe in the place of a standard descriptor \<open>n\<close>.\<close>

lemma rewire:
  assumes "fd_calls S fds" "fds e = T(p0 \<mapsto> rd, p1 \<mapsto> wr)" "T p0 = None" "T p1 = None" "p0 \<noteq> p1"
    and n: "0 \<le> n" "n < int NOFILE" "\<forall>i. 0 \<le> i \<and> i < n \<longrightarrow> T i \<noteq> None" "T n \<noteq> None" and p: "p \<in> {p0, p1}"
  defines "e4 \<equiv> snd (s_close S p1 (snd (s_close S p0 (snd (s_dup S p (snd (s_close S n e)))))))"
  shows "fds e4 = T(n := fds e p)"
proof -
  let ?e1 = "snd (s_close S n e)"
  have np: "n \<noteq> p0" "n \<noteq> p1" "n \<noteq> p" using assms(3,4) n(4) p by auto
  have e1: "fds ?e1 = (T(p0 \<mapsto> rd, p1 \<mapsto> wr))(n := None)" using fd_close [OF assms(1)] assms(2) by simp
  have "fds (snd (s_dup S p ?e1)) = (fds ?e1)(n := fds ?e1 p)"
    using n p np by (intro fd_dup [OF assms(1)]) (auto simp: e1)
  then have "fds e4 = (((T(p0 \<mapsto> rd, p1 \<mapsto> wr))(n := None))(n := fds e p))(p0 := None, p1 := None)"
    using fd_close [OF assms(1)] e1 np(3) p assms(2) by (auto simp: e4_def)
  also have "\<dots> = T(n := fds e p)" using np assms(3,4,5) by (auto simp: fun_eq_iff)
  finally show ?thesis .
qed

subsection \<open>Properties\<close>

text \<open>
  C37. The three processes of a pipeline \<^verbatim>\<open>c | d\<close>. The process that runs \<open>c\<close> has the table of the shell with the
  standard output replaced by the write end of the pipe, the one that runs \<open>d\<close> has it with the standard input replaced
  by the read end, and the parent has its own table again when it exits; so no process keeps a second reference to an
  end of the pipe, and the reader sees the end of the data. The hypotheses are that the calls work as documented and
  that descriptors 0 and 1 are open; \<open>fork\<close> returns 0 in a child and a positive number in the parent.
\<close>

theorem pipe_wiring:
  assumes "fd_calls S fds" and "fds e 0 \<noteq> None" and "fds e 1 \<noteq> None"
    and "s_pipe S e = ((r, p0, p1), e1)" and "0 \<le> r"
    and "s_fork S e1 = (pl, e2)" and "s_fork S e2 = (pr, e3)"
  shows "(pl = 0 \<longrightarrow> (\<exists>e'. runcmd S (Pipe c d) e = runcmd S c e' \<and> fds e' = (fds e)(1 := fds e1 p1)))
    \<and> (0 < pl \<and> pr = 0 \<longrightarrow> (\<exists>e'. runcmd S (Pipe c d) e = runcmd S d e' \<and> fds e' = (fds e)(0 := fds e1 p0)))
    \<and> (0 < pl \<and> 0 < pr \<longrightarrow> (\<exists>e'. runcmd S (Pipe c d) e = UExit 0 e' \<and> fds e' = fds e))"
proof -
  obtain rd wr where p: "p0 \<noteq> p1" "fds e p0 = None" "fds e p1 = None" "fds e1 = (fds e)(p0 \<mapsto> rd, p1 \<mapsto> wr)"
    using assms(1,4,5) unfolding fd_calls_def by blast
  have e2: "fds e2 = fds e1" and e3: "fds e3 = fds e2" using fd_fork [OF assms(1)] assms(6,7) by (metis snd_conv)+
  have t2: "fds e2 = (fds e)(p0 \<mapsto> rd, p1 \<mapsto> wr)" and t3: "fds e3 = (fds e)(p0 \<mapsto> rd, p1 \<mapsto> wr)" using p e2 e3 by simp_all
  have low: "\<forall>i. 0 \<le> i \<and> i < 1 \<longrightarrow> fds e i \<noteq> None"
  proof (intro allI impI)
    fix i :: int
    assume "0 \<le> i \<and> i < 1"
    then have "i = 0" by simp
    with assms(2) show "fds e i \<noteq> None" by simp
  qed
  have none: "\<forall>i :: int. 0 \<le> i \<and> i < 0 \<longrightarrow> fds e i \<noteq> None" by auto
  let ?l = "snd (s_close S p1 (snd (s_close S p0 (snd (s_dup S p1 (snd (s_close S 1 e2)))))))"
  let ?r = "snd (s_close S p1 (snd (s_close S p0 (snd (s_dup S p0 (snd (s_close S 0 e3)))))))"
  let ?p = "snd (s_wait S (snd (s_wait S (snd (s_close S p1 (snd (s_close S p0 e3)))))))"
  have "runcmd S (Pipe c d) e = runcmd S c ?l" if "pl = 0"
    using assms(4-6) that by (simp add: um_defs fork1_def split: prod.splits)
  moreover have "fds ?l = (fds e)(1 := fds e1 p1)"
    using rewire [OF assms(1) t2 p(2,3,1), of 1 p1] low assms(3) e2 by (simp add: NOFILE_def)
  moreover have "runcmd S (Pipe c d) e = runcmd S d ?r" if "0 < pl" "pr = 0"
    using assms(4-7) that by (simp add: um_defs fork1_def split: prod.splits)
  moreover have "fds ?r = (fds e)(0 := fds e1 p0)"
    using rewire [OF assms(1) t3 p(2,3,1), of 0 p0] none assms(2) e2 e3 by (simp add: NOFILE_def)
  moreover have "runcmd S (Pipe c d) e = UExit 0 ?p" if "0 < pl" "0 < pr"
    using assms(4-7) that by (simp add: um_defs fork1_def split: prod.splits)
  moreover have "fds ?p = fds e"
    using p by (auto simp: fd_wait [OF assms(1)] fd_close [OF assms(1)] t3 fun_eq_iff)
  ultimately show ?thesis by blast
qed

text \<open>A table of descriptors and the coming results of \<^verbatim>\<open>fork\<close> as an environment.\<close>

type_synonym fd_env = "(int \<Rightarrow> nat option) \<times> int list"

definition lowest :: "(int \<Rightarrow> nat option) \<Rightarrow> int option" where
  "lowest T = find (\<lambda>i. T i = None) (map int [0..<NOFILE])"

definition fd_ex :: "fd_env usys" where
  "fd_ex =
     \<lparr>s_read = (\<lambda>_ _ e. ((0, []), e)), s_write = (\<lambda>_ bs e. (int (length bs), e)), s_open = (\<lambda>_ _ e. (-1, e)),
      s_close = (\<lambda>fd (T, fs). (0, (T(fd := None), fs))),
      s_fstat = (\<lambda>_ e. ((-1, \<lparr>ust_dev = 0, ust_ino = 0, ust_type = 0, ust_nlink = 0, ust_size = 0\<rparr>), e)),
      s_dup = (\<lambda>fd (T, fs). case lowest T of None \<Rightarrow> (-1, (T, fs)) | Some n \<Rightarrow> (n, (T(n := T fd), fs))),
      s_fork = (\<lambda>(T, fs). (hd fs, (T, tl fs))), s_wait = (\<lambda>e. (1, e)), s_exec = (\<lambda>_ _ e. (None, e)),
      s_pipe = (\<lambda>(T, fs). case lowest T of None \<Rightarrow> ((-1, 0, 0), (T, fs))
         | Some n \<Rightarrow> (case lowest (T(n \<mapsto> 100)) of None \<Rightarrow> ((-1, 0, 0), (T, fs))
             | Some k \<Rightarrow> ((0, n, k), (T(n \<mapsto> 100, k \<mapsto> 101), fs)))),
      s_kill = (\<lambda>_ e. (-1, e)), s_mknod = (\<lambda>_ _ _ e. (-1, e)), s_unlink = (\<lambda>_ e. (-1, e)), s_link = (\<lambda>_ _ e. (-1, e)),
      s_mkdir = (\<lambda>_ e. (-1, e)), s_chdir = (\<lambda>_ e. (-1, e)), s_pause = (\<lambda>_ e. (0, e))\<rparr>"

lemma lowest_Some:
  assumes "lowest T = Some n"
  shows "0 \<le> n \<and> T n = None \<and> (\<forall>i. 0 \<le> i \<and> i < n \<longrightarrow> T i \<noteq> None)"
proof -
  obtain k where k: "k < NOFILE" "n = int k" "T n = None" "\<forall>j<k. T (int j) \<noteq> None"
    using assms unfolding lowest_def find_Some_iff by (auto simp: nth_map)
  have "T i \<noteq> None" if "0 \<le> i" "i < n" for i
    using k(4) that k(2) by (metis int_nat_eq nat_less_iff zless_nat_conj)
  with k show ?thesis by auto
qed

lemma lowest_ex: "0 \<le> i \<Longrightarrow> i < int NOFILE \<Longrightarrow> T i = None \<Longrightarrow> \<exists>n. lowest T = Some n"
  unfolding lowest_def
  by (cases "find (\<lambda>i. T i = None) (map int [0..<NOFILE])") (force simp: find_None_iff image_iff dest!: zero_le_imp_eq_int)+

lemma fd_ex_calls: "fd_calls fd_ex fst"
proof -
  have c: "\<forall>fd e. fst (snd (s_close fd_ex fd e)) = (fst e)(fd := None)"
    and f: "\<forall>e. fst (snd (s_fork fd_ex e)) = fst e" and w: "\<forall>e. fst (snd (s_wait fd_ex e)) = fst e"
    by (auto simp: fd_ex_def split: prod.splits)
  have d: "\<exists>n e'. s_dup fd_ex fd e = (n, e') \<and> 0 \<le> n \<and> fst e n = None \<and> (\<forall>i. 0 \<le> i \<and> i < n \<longrightarrow> fst e i \<noteq> None)
      \<and> fst e' = (fst e)(n := fst e fd)"
    if "\<exists>i. 0 \<le> i \<and> i < int NOFILE \<and> fst e i = None" for fd e
  proof -
    from that obtain i where "0 \<le> i" "i < int NOFILE" "fst e i = None" by blast
    then obtain n where "lowest (fst e) = Some n" using lowest_ex by meson
    then show ?thesis using lowest_Some by (cases e) (simp add: fd_ex_def)
  qed
  have p: "0 \<le> p0 \<and> 0 \<le> p1 \<and> p0 \<noteq> p1 \<and> fst e p0 = None \<and> fst e p1 = None \<and> (\<exists>rd wr. fst e' = (fst e)(p0 \<mapsto> rd, p1 \<mapsto> wr))"
    if pipe: "s_pipe fd_ex e = ((r, p0, p1), e')" "0 \<le> r" for e r p0 p1 e'
  proof -
    obtain n where n: "lowest (fst e) = Some n" using pipe by (cases e) (auto simp: fd_ex_def split: option.splits)
    then obtain k where k: "lowest ((fst e)(n \<mapsto> 100)) = Some k" using pipe by (cases e) (auto simp: fd_ex_def split: option.splits)
    then have "p0 = n" "p1 = k" "fst e' = (fst e)(n \<mapsto> 100, k \<mapsto> 101)" using pipe n by (cases e; auto simp: fd_ex_def)+
    then show ?thesis using lowest_Some [OF n] lowest_Some [OF k] by (auto split: if_splits)
  qed
  from c f w d p show ?thesis unfolding fd_calls_def by blast
qed

theorem pipe_wiring_witness:
  "\<exists>e'. runcmd fd_ex (Pipe (Exec [[97]]) (Exec [[98]])) ([0 \<mapsto> 1, 1 \<mapsto> 2], [7, 0]) = runcmd fd_ex (Exec [[98]]) e'
     \<and> fst e' = [0 \<mapsto> 100, 1 \<mapsto> 2]"
proof -
  let ?T = "[0 \<mapsto> 1, 1 \<mapsto> 2] :: int \<Rightarrow> nat option"
  let ?U = "?T(2 \<mapsto> 100, 3 \<mapsto> 101)"
  have l: "lowest ?T = Some 2" "lowest (?T(2 \<mapsto> 100)) = Some 3" by code_simp+
  have p: "s_pipe fd_ex (?T, [7, 0]) = ((0, 2, 3), (?U, [7, 0]))" using l by (simp add: fd_ex_def)
  have f: "s_fork fd_ex (?U, [7, 0]) = (7, (?U, [0]))" "s_fork fd_ex (?U, [0]) = (0, (?U, []))"
    by (simp_all add: fd_ex_def)
  have "\<exists>e'. runcmd fd_ex (Pipe (Exec [[97]]) (Exec [[98]])) (?T, [7, 0]) = runcmd fd_ex (Exec [[98]]) e'
      \<and> fst e' = (fst (?T, [7, 0 :: int]))(0 := fst (?U, [7, 0 :: int]) 2)"
    using pipe_wiring [OF fd_ex_calls _ _ p _ f, of "Exec [[97]]" "Exec [[98]]"] by (simp del: runcmd.simps)
  then show ?thesis by (simp del: runcmd.simps add: fun_upd_twist)
qed

end
