(* ===== verification/Spec2Isabelle.thy ===== *)
theory Spec2Isabelle
  imports Terminal Fileio Reservation Wakeup Boot Uprogs Grep Shellparse Shellrun
begin

text \<open>
  A verification development for xv6, a small Unix-like kernel for RISC-V multiprocessors, and its user programs
  (\<^verbatim>\<open>src/kernel\<close> and \<^verbatim>\<open>src/user\<close>).

  \<^bold>\<open>How the program is modelled.\<close> A piece of kernel code that can stop or sleep is a function of type
  \<open>('s, 'a) km\<close> (theory \<open>Xv6_Prelude\<close>): from a state to an outcome, \<open>Ret x t\<close> (it returned \<open>x\<close> in state \<open>t\<close>) or
  \<open>Halt e t\<close>, where \<open>e\<close> says why it stopped: \<open>Panic msg\<close>, \<open>Fault\<close> (C leaves the behaviour undefined, as for an index outside
  an array), or \<open>Switch\<close> (the process gave up the hart in \<^verbatim>\<open>sched\<close>). \<open>kbind\<close>, \<open>kseq\<close>, \<open>kdo\<close>, \<open>kiter\<close> and
  \<open>kscan\<close> compose pieces as C composes statements and loops. What runs after a \<open>Switch\<close> is a definition of its
  own, named after the function: \<open>sleep_resume\<close>, \<open>begin_op_resume\<close>, \<open>scheduler_resume\<close>. The state is a tower of records, each theory
  adding the variables of its C file: the hart and its locks, the process table, memory, sleep locks, the buffer cache and the
  disk, the log, the inode cache, console, files and pipes, the disk queue and the control registers. Machine
  integers are words of their C width (\<open>uint8\<close> to \<open>uint64\<close>); numbers that index tables are naturals. User programs are functions from an environment to an outcome (theory \<open>User\<close>), with the
  system calls as a parameter.

  \<^bold>\<open>The theories and what they model.\<close>
  \<^item> \<open>Xv6_Prelude\<close>: the outcome monad, the constants of \<^verbatim>\<open>param.h\<close>, and lemmas on lists, words and bytes.
  \<^item> \<open>Spinlock\<close>: \<^verbatim>\<open>spinlock.c\<close>; \<open>Memory\<close>: \<^verbatim>\<open>string.c\<close>; \<open>Kalloc\<close>: \<^verbatim>\<open>kalloc.c\<close>, with the free list in the
    free pages themselves.
  \<^item> \<open>Proc\<close>, \<open>Vm\<close>, \<open>Procmem\<close>, \<open>Lifecycle\<close>: \<^verbatim>\<open>proc.c\<close> and \<^verbatim>\<open>vm.c\<close>, with page tables in the modelled memory; \<open>Pagetable\<close>, \<open>Usermem\<close>
    and \<open>Userbuf\<close> hold the proofs about the tree of tables and about copying between kernel and user memory.
  \<^item> \<open>Sleeplock\<close>: \<^verbatim>\<open>sleeplock.c\<close>; \<open>Wakeup\<close>: the same functions with \<^verbatim>\<open>sleep\<close>, \<^verbatim>\<open>wakeup\<close>, \<^verbatim>\<open>kkill\<close>, \<^verbatim>\<open>yield\<close> and the
    scheduler, interleaved statement by statement on any number of harts.
  \<^item> \<open>Printf\<close>: \<^verbatim>\<open>kernel/printf.c\<close>; \<open>Bio\<close> and \<open>Blockcache\<close>: \<^verbatim>\<open>bio.c\<close>, its definitions and its invariant.
  \<^item> \<open>Log\<close>: \<^verbatim>\<open>log.c\<close>; \<open>Recovery\<close>: crashes; \<open>Transaction\<close>: operations and group commit; \<open>Reservation\<close>: the space of the log under every interleaving.
  \<^item> \<open>Fs\<close>: \<^verbatim>\<open>fs.c\<close> over the bytes of disk blocks; \<open>Fsblocks\<close>, \<open>Fsmap\<close>, \<open>Fsfile\<close>, \<open>Fsread\<close> and \<open>Filedata\<close> build the
    proofs from the block allocator through \<^verbatim>\<open>bmap\<close> and \<^verbatim>\<open>writei\<close> to the content of files.
  \<^item> \<open>Console\<close> and \<open>Terminal\<close>: \<^verbatim>\<open>console.c\<close> and \<^verbatim>\<open>uart.c\<close>; \<open>File\<close> and \<open>Pipe\<close>: \<^verbatim>\<open>file.c\<close> and \<^verbatim>\<open>pipe.c\<close>; \<open>Fileio\<close>: reads and writes of open files.
    \<open>Ringbuf\<close> is the contract of a circular buffer with wrapping counters (locale \<open>ring_buffer\<close>), interpreted on
    the pipe and on the console input; \<open>byte_sink\<close> and \<open>page_allocator\<close> are the other interfaces.
  \<^item> \<open>Exec\<close>, \<open>Syscall\<close>, \<open>Sysfile\<close>, \<open>Virtio\<close>, \<open>Trap\<close>, \<open>Boot\<close>: \<^verbatim>\<open>exec.c\<close>, \<^verbatim>\<open>syscall.c\<close> with \<^verbatim>\<open>sysproc.c\<close>, \<^verbatim>\<open>sysfile.c\<close>, \<^verbatim>\<open>virtio_disk.c\<close>,
    \<^verbatim>\<open>trap.c\<close> with \<^verbatim>\<open>plic.c\<close>, and \<^verbatim>\<open>main.c\<close>; \<open>Asm\<close>: \<^verbatim>\<open>start.c\<close> and the assembly files, as lists of instructions run by an interpreter.
  \<^item> \<open>User\<close>: \<^verbatim>\<open>ulib.c\<close> and \<^verbatim>\<open>user/printf.c\<close>; \<open>Uprogs\<close>: \<^verbatim>\<open>cat\<close>, \<^verbatim>\<open>wc\<close>, \<^verbatim>\<open>ls\<close>, \<^verbatim>\<open>init\<close> and the other small programs; \<open>Grep\<close>:
    \<^verbatim>\<open>grep.c\<close>; \<open>Shell\<close>, \<open>Shellparse\<close> and \<open>Shellrun\<close>: \<^verbatim>\<open>sh.c\<close>.

  \<^bold>\<open>What is shown.\<close>
  \<^item> Crash safety: whatever prefix of the writes of \<open>commit\<close> reached the disk, and however often \<open>initlog\<close> itself was cut
    short after that, the recovery that completes leaves the old contents or the new, and the new ones once \<open>commit\<close> returned. What a recovery writes is what
    \<open>initlog\<close> of the model writes on that disk.
  \<^item> The log: the reservation of \<open>begin_op\<close> keeps \<open>log_write\<close> from overflowing the header when its critical sections
    and those of \<open>end_op\<close> interleave with each other, with the statements of \<open>commit\<close> (which may wait for buffers) and with anything
    the kernel does to buffers and processes in between; the last operation of a group commits. \<open>commit\<close> panics when the transaction pins every buffer of the cache.
  \<^item> The buffer cache: it is a least-recently-used list, and \<open>bread\<close> is coherent.
  \<^item> Files: blocks handed out are free and zeroed, the block map stays well formed, what \<open>writei\<close> stores
    \<open>readi\<close> returns, a \<^verbatim>\<open>write\<close> call puts the bytes of the user into the file and the inode on disk, and leaves every other file and inode on
    disk as it was, and each piece fits its operation.
  \<^item> Pipes and console: both are queues; the interrupt handler implements a line editor.
  \<^item> Concurrency: mutual exclusion of spinlocks for any number of harts and of sleep locks for any number of
    processes; no wakeup is lost at any point between two statements.
  \<^item> Memory: the page allocator hands out distinct pages; \<open>mappages\<close>, \<open>copyin\<close>, \<open>copyout\<close> and \<open>vmfault\<close> change
    and read exactly what they should; \<open>memmove\<close> with overlap.
  \<^item> Assembly: traps, kernel interrupts and context switches restore every register they must, and every hart boots on its own stack.
  \<^item> User programs: the two \<^verbatim>\<open>printf\<close>s agree; the shell's parser ends on every line and inverts the printer of
    commands; pipelines are wired correctly; \<^verbatim>\<open>grep\<close> decides the language of its patterns and prints exactly the matching lines.

  \<^bold>\<open>Fuel and bounds.\<close> A loop along the links of the cache has fuel \<open>NBUF + 1\<close>, enough for every well-formed list
  (\<open>bscan_list\<close>). \<open>rw_fuel n\<close> is more than the number of blocks \<open>n\<close> bytes can touch. \<^verbatim>\<open>printf\<close> takes one turn per character of the format. The
  recursion of the shell's parser is bounded by \<open>parse_fuel\<close>, linear in the length of the line, which is enough for every line. Loops
  of user programs that wait for input have a number of turns as an argument.

  \<^bold>\<open>What is not modelled.\<close> The weak memory model: \<^verbatim>\<open>__sync_synchronize\<close> has no effect, and statements of harts interleave. Time and
  devices are parameters or queues: \<open>disk_rw\<close> is what the buffer cache relies on of \<^verbatim>\<open>virtio_disk_rw\<close> (the block is transferred
  when the call returns), and a crash can only cut short the sequence of block writes, never tear a block. TLB flushes have no effect. The
  lists of statements in \<open>Wakeup\<close> and \<open>Reservation\<close> take a spinlock in one step when it is free; the spinning is the subject
  of \<open>Spinlock\<close>. \<open>txn_step\<close> of \<open>Transaction\<close>, used for group commit only, runs one call of the log
  at a time. Not modelled are \<^verbatim>\<open>umalloc.c\<close>, the test and stress programs, and \<^verbatim>\<open>mkfs.c\<close>, which runs on the host.
\<close>

end
